(* ===== verification/HX_Prelude.thy ===== *)
theory HX_Prelude
  imports Main "HOL-Library.Word" "HOL-Library.Monad_Syntax"
begin

text \<open>
  Shared vocabulary of the development: the names of machine integers, the error numbers of
  \<^verbatim>\<open>errno.h\<close> the library reports, memory cells reached through optional addresses, and the
  list lemmas that several components use.

  A pointer is an \<open>addr option\<close>; \<open>None\<close> is \<^verbatim>\<open>NULL\<close>. An operation that follows
  pointers or indexes a buffer returns an \<open>option\<close>: \<open>None\<close> is the undefined behaviour of
  a dereference of \<^verbatim>\<open>NULL\<close>, of a dangling pointer, or of an access out of bounds. A theorem
  that an operation returns \<open>Some\<close> therefore states memory safety.
\<close>

section \<open>Machine integers\<close>

type_synonym u8 = "8 word"
type_synonym u16 = "16 word"
type_synonym u32 = "32 word"
type_synonym u64 = "64 word"

lemma unat_bound: "unat (w :: 'a :: len word) < 2 ^ LENGTH('a)"
  by (rule unsigned_less)

lemma bit63_int: "bit k 63 \<longleftrightarrow> 2 ^ 63 \<le> k" if "0 \<le> k" "k < 2^64" for k :: int
proof (cases "2 ^ 63 \<le> k")
    case True
    then have "k div 2 ^ 63 = 1" using that by (intro int_div_pos_eq [of _ _ _ "k - 2 ^ 63"]) auto
    then show ?thesis using True by (simp only: bit_iff_odd) simp
  next
    case False
    then have "k div 2 ^ 63 = 0" using that by (intro div_pos_pos_trivial) auto
    then show ?thesis using False by (simp only: bit_iff_odd) simp
qed
lemma sint_u64: "sint (w::u64) = (if unat w < 2^63 then int (unat w) else int (unat w) - 2^64)"
proof -
  have b: "uint w < 2 ^ 64" "0 \<le> uint w" using uint_bounded [of w] by simp_all
  have s: "sint w = signed_take_bit 63 (uint w)" by (simp add: sint_uint)
  have t: "take_bit (Suc 63) (uint w) = uint w" using b by (simp add: take_bit_int_eq_self)
  have u: "uint w = int (unat w)" by simp
  have c: "bit (uint w) 63 \<longleftrightarrow> \<not> unat w < 2 ^ 63"
  proof -
    have "2 ^ 63 \<le> int n \<longleftrightarrow> \<not> n < 2 ^ 63" for n by (simp add: not_less)
    then show ?thesis using bit63_int [OF b(2,1)] unfolding u by blast
  qed
  show ?thesis unfolding s signed_take_bit_eq_take_bit_minus t c unfolding u by simp
qed
lemma int_unat_bound: "int (unat (w :: u64)) < 2 ^ 64"
proof -
  have k: "int k < 2 ^ 64" if "k < 2 ^ 64" for k using that by simp
  have "unat w < 2 ^ 64" using unat_bound [of w] by simp
  then show ?thesis by (rule k)
qed

lemma sint_nonneg: "0 \<le> sint (w :: u64) \<Longrightarrow> sint w = int (unat w)"
  using int_unat_bound [of w] unfolding sint_u64 by (simp split: if_splits)

lemma sint_neg: "sint (w :: u64) < 0 \<Longrightarrow> sint w = int (unat w) - 2 ^ 64"
  unfolding sint_u64 by (simp split: if_splits)

lemma int_pow63: "int k < 2 ^ 63 \<longleftrightarrow> k < 2 ^ 63"
  by simp

lemma unat_minus_u64: "w \<noteq> 0 \<Longrightarrow> unat (- w :: u64) = 2^64 - unat w"
proof -
  assume "w \<noteq> 0"
  then have p: "0 < unat w" by (simp add: unat_gt_0)
  have "(of_nat (2 ^ 64 - unat w) :: u64) = of_nat (2 ^ 64) - of_nat (unat w)"
    using unat_bound [of w] by (intro of_nat_diff) simp
  then have "- w = of_nat (2 ^ 64 - unat w)" by simp
  then show ?thesis using p by (simp only: unat_of_nat) (simp add: take_bit_nat_eq_self)
qed

lemma unat_ucast_u32 [simp]: "unat (ucast (w :: u32) :: u64) = unat w"
proof -
  have "unat w < 2 ^ 32" using unat_bound [of w] by simp
  then show ?thesis by (simp add: unsigned_ucast_eq take_bit_nat_eq_self)
qed

section \<open>Error numbers\<close>

datatype errno = ENOENT | ENOMEM | EEXIST | EINVAL | ERANGE | E2BIG | ELOOP | ENOSYS | EXDEV | EINTR | EIO | ENOTEMPTY | EFAULT | EHOSTUNREACH
  | EADDRINUSE | ENOTSOCK | ENOPROTOOPT | EPROTONOSUPPORT | EWOULDBLOCK | EINPROGRESS | ENODATA

section \<open>Memory cells\<close>

type_synonym addr = nat
type_synonym ptr = "addr option"

definition deref :: "(addr \<rightharpoonup> 'n) \<Rightarrow> ptr \<Rightarrow> 'n option" where
  "deref h p = (case p of None \<Rightarrow> None | Some a \<Rightarrow> h a)"

definition store :: "(addr \<rightharpoonup> 'n) \<Rightarrow> ptr \<Rightarrow> ('n \<Rightarrow> 'n) \<Rightarrow> (addr \<rightharpoonup> 'n) option" where
  "store h p f =
     (case p of None \<Rightarrow> None
      | Some a \<Rightarrow> (case h a of None \<Rightarrow> None | Some n \<Rightarrow> Some (h(a \<mapsto> f n))))"

named_theorems heap_simps "evaluation of reads and writes of memory cells"

lemma deref_simps [simp, heap_simps]:
  "deref h None = None" "deref h (Some a) = h a"
  by (simp_all add: deref_def)

lemma store_simps [simp, heap_simps]:
  "store h None f = None"
  "h a = None \<Longrightarrow> store h (Some a) f = None"
  "h a = Some n \<Longrightarrow> store h (Some a) f = Some (h(a \<mapsto> f n))"
  by (simp_all add: store_def)

lemma store_SomeE:
  assumes "store h p f = Some h'"
  obtains a n where "p = Some a" "h a = Some n" "h' = h(a \<mapsto> f n)"
  using assms by (auto simp: store_def split: option.splits)

lemma store_dom: "store h p f = Some h' \<Longrightarrow> dom h' = dom h"
  by (auto elim!: store_SomeE split: if_splits)

section \<open>Lists\<close>

lemma takeWhile_all_iff: "takeWhile P xs = xs \<longleftrightarrow> (\<forall>x \<in> set xs. P x)"
  by (simp add: takeWhile_eq_all_conv)

lemma dropWhile_eq_Cons_hd: "dropWhile P xs = y # ys \<Longrightarrow> \<not> P y"
  by (induction xs) (auto split: if_splits)

lemma takeWhile_append_stop:
  "\<forall>x \<in> set xs. P x \<Longrightarrow> \<not> P y \<Longrightarrow> takeWhile P (xs @ y # ys) = xs"
  by (induction xs) auto

lemma dropWhile_append_stop:
  "\<forall>x \<in> set xs. P x \<Longrightarrow> \<not> P y \<Longrightarrow> dropWhile P (xs @ y # ys) = y # ys"
  by (induction xs) auto

lemma takeWhile_index: "j < length (takeWhile P xs) \<Longrightarrow> P (xs ! j)"
  by (metis nth_mem set_takeWhileD takeWhile_nth)

lemma takeWhile_whole: "\<not> length (takeWhile P xs) < length xs \<Longrightarrow> x \<in> set xs \<Longrightarrow> P x"
  by (induction xs) (auto split: if_splits)

lemma sorted_wrt_neq: "sorted_wrt (\<noteq>) xs \<longleftrightarrow> distinct xs"
  by (induction xs) auto

lemma drop_eq_Cons_nth: "i < length xs \<Longrightarrow> drop i xs = xs ! i # drop (Suc i) xs"
  by (simp add: Cons_nth_drop_Suc)

section \<open>Buffers\<close>

abbreviation NUL :: char where "NUL \<equiv> CHR 0x00"

text \<open>
  A block of memory is the list of its bytes. Reads and writes check the bounds; \<open>rdn\<close> and
  \<open>wrn\<close> are \<^verbatim>\<open>memcpy\<close> from and to a block (a move within one block reads before it writes, so
  it is \<open>rdn\<close> followed by \<open>wrn\<close>).
\<close>

definition rd :: "'a list \<Rightarrow> nat \<Rightarrow> 'a option" where
  "rd b i = (if i < length b then Some (b ! i) else None)"

definition wr :: "'a list \<Rightarrow> nat \<Rightarrow> 'a \<Rightarrow> 'a list option" where
  "wr b i x = (if i < length b then Some (b[i := x]) else None)"

definition rdn :: "'a list \<Rightarrow> nat \<Rightarrow> nat \<Rightarrow> 'a list option" where
  "rdn b i n = (if i + n \<le> length b then Some (take n (drop i b)) else None)"

definition wrn :: "'a list \<Rightarrow> nat \<Rightarrow> 'a list \<Rightarrow> 'a list option" where
  "wrn b i xs =
     (if i + length xs \<le> length b then Some (take i b @ xs @ drop (i + length xs) b) else None)"

named_theorems buf_simps "reads and writes within the bounds of a block"

lemma rd_in [buf_simps]: "i < length b \<Longrightarrow> rd b i = Some (b ! i)"
  by (simp add: rd_def)

lemma wr_in [buf_simps]: "i < length b \<Longrightarrow> wr b i x = Some (b[i := x])"
  by (simp add: wr_def)

lemma rdn_in [buf_simps]: "i + n \<le> length b \<Longrightarrow> rdn b i n = Some (take n (drop i b))"
  by (simp add: rdn_def)

lemma wrn_in [buf_simps]:
  "i + length xs \<le> length b \<Longrightarrow> wrn b i xs = Some (take i b @ xs @ drop (i + length xs) b)"
  by (simp add: wrn_def)

lemma wr_at: "length pre = i \<Longrightarrow> wr (pre @ x # post) i v = Some (pre @ v # post)"
  by (auto simp: wr_def)

lemma wr_length: "wr b i x = Some b' \<Longrightarrow> length b' = length b"
  by (auto simp: wr_def split: if_splits)

lemma wrn_length: "wrn b i xs = Some b' \<Longrightarrow> length b' = length b"
  by (auto simp: wrn_def split: if_splits)

end
