(* ===== verification/HX_Contracts.thy ===== *)
theory HX_Contracts
  imports HX_Prelude
begin

text \<open>
  Contracts between components. \<open>dq_contract\<close> is what a double-ended list promises to its users:
  the state represents a list of elements, and the four end operations act on the two ends of that
  list. \<open>HXclist\<close> (\<^verbatim>\<open>list.h\<close>) and \<open>HXdeque\<close> (\<^verbatim>\<open>deque.c\<close>) both provide it; the argument
  collections of the option parser and of the formatter use it as a queue.

  \<open>map_contract\<close> is what a map promises: lookups after an addition or a deletion. The hash map and the
  red-black tree of \<^verbatim>\<open>map.c\<close> both provide it; what they do differently on an existing key is a
  parameter of the contract.
\<close>

section \<open>Runs of end operations\<close>

primrec add_all :: "('s \<Rightarrow> 'e \<Rightarrow> 's option) \<Rightarrow> 's \<Rightarrow> 'e list \<Rightarrow> 's option" where
  "add_all add s [] = Some s"
| "add_all add s (e # es) = do { s \<leftarrow> add s e; add_all add s es }"

primrec take_n :: "('s \<Rightarrow> ('r \<times> 's) option) \<Rightarrow> nat \<Rightarrow> 's \<Rightarrow> ('r list \<times> 's) option" where
  "take_n rem 0 s = Some ([], s)"
| "take_n rem (Suc n) s = do {
     (r, s) \<leftarrow> rem s;
     (rs, s) \<leftarrow> take_n rem n s;
     Some (r # rs, s)
   }"

section \<open>The double-ended list\<close>

locale dq_contract =
  fixes rep :: "'s \<Rightarrow> 'e list \<Rightarrow> bool"
    and fresh :: "'s \<Rightarrow> 'e \<Rightarrow> bool"
    and val :: "'e \<Rightarrow> 'r"
    and null :: "'r"
    and push :: "'s \<Rightarrow> 'e \<Rightarrow> 's option"
    and unshift :: "'s \<Rightarrow> 'e \<Rightarrow> 's option"
    and pop :: "'s \<Rightarrow> ('r \<times> 's) option"
    and shift :: "'s \<Rightarrow> ('r \<times> 's) option"
    and apart :: "'e \<Rightarrow> 'e \<Rightarrow> bool"
  assumes push_law: "rep s es \<Longrightarrow> fresh s e \<Longrightarrow>
      \<exists>s'. push s e = Some s' \<and> rep s' (es @ [e]) \<and> (\<forall>e'. fresh s e' \<longrightarrow> apart e e' \<longrightarrow> fresh s' e')"
    and unshift_law: "rep s es \<Longrightarrow> fresh s e \<Longrightarrow>
      \<exists>s'. unshift s e = Some s' \<and> rep s' (e # es) \<and> (\<forall>e'. fresh s e' \<longrightarrow> apart e e' \<longrightarrow> fresh s' e')"
    and pop_nil: "rep s [] \<Longrightarrow> pop s = Some (null, s)"
    and pop_law: "rep s (es @ [e]) \<Longrightarrow> \<exists>s'. pop s = Some (val e, s') \<and> rep s' es"
    and shift_nil: "rep s [] \<Longrightarrow> shift s = Some (null, s)"
    and shift_law: "rep s (e # es) \<Longrightarrow> \<exists>s'. shift s = Some (val e, s') \<and> rep s' es"
begin

lemma push_all:
  assumes "rep s xs" "\<forall>e \<in> set es. fresh s e" "sorted_wrt apart es"
  shows "\<exists>s'. add_all push s es = Some s' \<and> rep s' (xs @ es)"
  using assms
proof (induction es arbitrary: s xs)
  case (Cons e es)
  then obtain s1 where s1: "push s e = Some s1" "rep s1 (xs @ [e])" "\<forall>e' \<in> set es. fresh s1 e'"
    using push_law [of s xs e] by auto
  with Cons.IH [of s1 "xs @ [e]"] Cons.prems(3) show ?case by auto
qed auto

lemma unshift_all:
  assumes "rep s xs" "\<forall>e \<in> set es. fresh s e" "sorted_wrt apart es"
  shows "\<exists>s'. add_all unshift s es = Some s' \<and> rep s' (rev es @ xs)"
  using assms
proof (induction es arbitrary: s xs)
  case (Cons e es)
  then obtain s1 where s1: "unshift s e = Some s1" "rep s1 (e # xs)" "\<forall>e' \<in> set es. fresh s1 e'"
    using unshift_law [of s xs e] by auto
  with Cons.IH [of s1 "e # xs"] Cons.prems(3) show ?case by auto
qed auto

lemma shift_all:
  "rep s (es @ xs) \<Longrightarrow> \<exists>s'. take_n shift (length es) s = Some (map val es, s') \<and> rep s' xs"
proof (induction es arbitrary: s)
  case (Cons e es)
  then obtain s1 where "shift s = Some (val e, s1)" "rep s1 (es @ xs)"
    using shift_law [of s e "es @ xs"] by auto
  with Cons.IH [of s1] show ?case by auto
qed auto

lemma pop_all:
  "rep s (xs @ rev es) \<Longrightarrow> \<exists>s'. take_n pop (length es) s = Some (map val es, s') \<and> rep s' xs"
proof (induction es arbitrary: s)
  case (Cons e es)
  then obtain s1 where "pop s = Some (val e, s1)" "rep s1 (xs @ rev es)"
    using pop_law [of s "xs @ rev es" e] by auto
  with Cons.IH [of s1] show ?case by auto
qed auto

text \<open>First in, first out; last in, first out; and the two ends of one queue do not interfere.\<close>

lemma fifo:
  assumes "rep s []" "\<forall>e \<in> set es. fresh s e" "sorted_wrt apart es"
  shows "\<exists>s1 s2. add_all push s es = Some s1 \<and> take_n shift (length es) s1 = Some (map val es, s2) \<and>
    rep s2 [] \<and> shift s2 = Some (null, s2)"
  using push_all [OF assms] shift_all [of _ es "[]"] shift_nil by fastforce

lemma lifo:
  assumes "rep s []" "\<forall>e \<in> set es. fresh s e" "sorted_wrt apart es"
  shows "\<exists>s1 s2. add_all push s es = Some s1 \<and>
    take_n pop (length es) s1 = Some (rev (map val es), s2) \<and> rep s2 [] \<and> pop s2 = Some (null, s2)"
  using push_all [OF assms] pop_all [of _ "[]" "rev es"] pop_nil
  by (fastforce simp: rev_map)

end

section \<open>Maps\<close>

text \<open>A history is a list of additions and deletions, each with the resources (allocations) it is given.\<close>

datatype ('k, 'v) mop = MAdd 'k 'v | MDel 'k

fun run_ops ::
  "('s \<Rightarrow> 'k \<Rightarrow> 'v \<Rightarrow> 'm \<Rightarrow> 's) \<Rightarrow> ('s \<Rightarrow> 'k \<Rightarrow> 'm \<Rightarrow> 's) \<Rightarrow> 's \<Rightarrow> (('k, 'v) mop \<times> 'm) list \<Rightarrow> 's" where
  "run_ops add del s [] = s"
| "run_ops add del s ((MAdd k v, m) # xs) = run_ops add del (add s k v m) xs"
| "run_ops add del s ((MDel k, m) # xs) = run_ops add del (del s k m) xs"

text \<open>The reference: a function from keys, updated on a class of equal keys.\<close>

fun ref_ops :: "('k \<Rightarrow> 'k \<Rightarrow> bool) \<Rightarrow> ('v \<Rightarrow> 'v) \<Rightarrow> ('k \<Rightarrow> 'v option) \<Rightarrow> ('k, 'v) mop list \<Rightarrow> ('k \<Rightarrow> 'v option)" where
  "ref_ops eq copy f [] = f"
| "ref_ops eq copy f (MAdd k v # xs) = ref_ops eq copy (\<lambda>x. if eq x k then Some (copy v) else f x) xs"
| "ref_ops eq copy f (MDel k # xs) = ref_ops eq copy (\<lambda>x. if eq x k then None else f x) xs"

text \<open>The resources of a history suffice, step by step, its keys are valid, and no addition meets a key
  that it may not replace.\<close>

fun fits_ops ::
  "('k \<Rightarrow> bool) \<Rightarrow> ('s \<Rightarrow> 'k \<Rightarrow> 'v \<Rightarrow> 'm \<Rightarrow> bool) \<Rightarrow> ('s \<Rightarrow> 'k \<Rightarrow> 'v option) \<Rightarrow> ('s \<Rightarrow> bool) \<Rightarrow>
     ('s \<Rightarrow> 'k \<Rightarrow> 'v \<Rightarrow> 'm \<Rightarrow> 's) \<Rightarrow> ('s \<Rightarrow> 'k \<Rightarrow> 'm \<Rightarrow> 's) \<Rightarrow> 's \<Rightarrow> (('k, 'v) mop \<times> 'm) list \<Rightarrow> bool" where
  "fits_ops valid good get may add del s [] = True"
| "fits_ops valid good get may add del s ((MAdd k v, m) # xs) =
     (valid k \<and> good s k v m \<and> (get s k = None \<or> may s) \<and>
      fits_ops valid good get may add del (add s k v m) xs)"
| "fits_ops valid good get may add del s ((MDel k, m) # xs) =
     (valid k \<and> fits_ops valid good get may add del (del s k m) xs)"

lemma ref_ops_cong:
  "(\<And>x. P x \<Longrightarrow> f x = g x) \<Longrightarrow> P x \<Longrightarrow> ref_ops eq copy f xs x = ref_ops eq copy g xs x"
proof (induction xs arbitrary: f g)
  case (Cons a xs)
  show ?case
  proof (cases a)
    case (MAdd k v)
    have "ref_ops eq copy (\<lambda>x. if eq x k then Some (copy v) else f x) xs x =
        ref_ops eq copy (\<lambda>x. if eq x k then Some (copy v) else g x) xs x"
      by (rule Cons.IH) (use Cons.prems in auto)
    then show ?thesis using MAdd by simp
  next
    case (MDel k)
    have "ref_ops eq copy (\<lambda>x. if eq x k then None else f x) xs x =
        ref_ops eq copy (\<lambda>x. if eq x k then None else g x) xs x"
      by (rule Cons.IH) (use Cons.prems in auto)
    then show ?thesis using MDel by simp
  qed
qed simp

locale map_contract =
  fixes ok :: "'s \<Rightarrow> bool"
    and valid :: "'k \<Rightarrow> bool"
    and eq :: "'k \<Rightarrow> 'k \<Rightarrow> bool"
    and copy :: "'v \<Rightarrow> 'v"
    and get :: "'s \<Rightarrow> 'k \<Rightarrow> 'v option"
    and add :: "'s \<Rightarrow> 'k \<Rightarrow> 'v \<Rightarrow> 'm \<Rightarrow> 's"
    and del :: "'s \<Rightarrow> 'k \<Rightarrow> 'm \<Rightarrow> 's"
    and may :: "'s \<Rightarrow> bool"
    and good :: "'s \<Rightarrow> 'k \<Rightarrow> 'v \<Rightarrow> 'm \<Rightarrow> bool"
  assumes add_law: "ok s \<Longrightarrow> valid k \<Longrightarrow> good s k v m \<Longrightarrow> get s k = None \<or> may s \<Longrightarrow>
      ok (add s k v m) \<and> (may (add s k v m) \<longleftrightarrow> may s) \<and>
      (\<forall>x. valid x \<longrightarrow> get (add s k v m) x = (if eq x k then Some (copy v) else get s x))"
    and refuse_law: "ok s \<Longrightarrow> valid k \<Longrightarrow> get s k \<noteq> None \<Longrightarrow> \<not> may s \<Longrightarrow> add s k v m = s"
    and del_law: "ok s \<Longrightarrow> valid k \<Longrightarrow>
      ok (del s k m) \<and> (may (del s k m) \<longleftrightarrow> may s) \<and>
      (\<forall>x. valid x \<longrightarrow> get (del s k m) x = (if eq x k then None else get s x))"
begin

lemma run_refines:
  "ok s \<Longrightarrow> fits_ops valid good get may add del s xs \<Longrightarrow>
    ok (run_ops add del s xs) \<and>
    (\<forall>x. valid x \<longrightarrow> get (run_ops add del s xs) x = ref_ops eq copy (get s) (map fst xs) x)"
proof (induction xs arbitrary: s)
  case (Cons a xs)
  obtain p m where am: "a = (p, m)" by (cases a) auto
  show ?case
  proof (cases p)
    case (MAdd k v)
    have a: "ok (add s k v m)" "\<And>x. valid x \<Longrightarrow> get (add s k v m) x = (if eq x k then Some (copy v) else get s x)"
      using add_law [of s k v m] Cons.prems am MAdd by auto
    have "ref_ops eq copy (get (add s k v m)) (map fst xs) x =
        ref_ops eq copy (\<lambda>x. if eq x k then Some (copy v) else get s x) (map fst xs) x" if "valid x" for x
      by (rule ref_ops_cong [where P = valid]) (use a that in auto)
    then show ?thesis using Cons.IH [OF a(1)] Cons.prems am MAdd by simp
  next
    case (MDel k)
    have a: "ok (del s k m)" "\<And>x. valid x \<Longrightarrow> get (del s k m) x = (if eq x k then None else get s x)"
      using del_law [of s k m] Cons.prems am MDel by auto
    have "ref_ops eq copy (get (del s k m)) (map fst xs) x =
        ref_ops eq copy (\<lambda>x. if eq x k then None else get s x) (map fst xs) x" if "valid x" for x
      by (rule ref_ops_cong [where P = valid]) (use a that in auto)
    then show ?thesis using Cons.IH [OF a(1)] Cons.prems am MDel by simp
  qed
qed simp

end

end
