(* ===== verification/HX_List.thy ===== *)
theory HX_List
  imports HX_Contracts
begin

text \<open>
  The intrusive doubly-linked ring lists of \<^verbatim>\<open>include/libHX/list.h\<close>. A \<open>HXlist_head\<close> is a cell
  with two pointers; the list anchor is a cell of the same kind, and an empty list is an anchor
  that points to itself. The heap maps addresses to cells. The counted variant \<open>HXclist\<close> keeps a
  \<open>size_t\<close> beside the anchor.

  \<open>ring h head as\<close> says that the anchor \<open>head\<close> carries the nodes \<open>as\<close>, in both directions.
  The lemmas show that every operation stays inside the cells of its arguments and has the effect
  of a list operation on \<open>as\<close>.
\<close>

section \<open>Cells and primitive operations\<close>

record HXlist_head =
  l_next :: ptr
  l_prev :: ptr

type_synonym lheap = "addr \<rightharpoonup> HXlist_head"

definition HXlist_init :: "lheap \<Rightarrow> ptr \<Rightarrow> lheap option" where
  "HXlist_init h list = store h list (\<lambda>n. n\<lparr>l_next := list, l_prev := list\<rparr>)"

definition HXlist_add_between :: "lheap \<Rightarrow> ptr \<Rightarrow> ptr \<Rightarrow> ptr \<Rightarrow> lheap option" where
  "HXlist_add_between h nu prev next = do {
     h \<leftarrow> store h nu (l_next_update (\<lambda>_. next));
     h \<leftarrow> store h nu (l_prev_update (\<lambda>_. prev));
     h \<leftarrow> store h next (l_prev_update (\<lambda>_. nu));
     store h prev (l_next_update (\<lambda>_. nu))
   }"

definition HXlist_add :: "lheap \<Rightarrow> ptr \<Rightarrow> ptr \<Rightarrow> lheap option" where
  "HXlist_add h head entry = do {
     n \<leftarrow> deref h head;
     HXlist_add_between h entry head (l_next n)
   }"

definition HXlist_add_tail :: "lheap \<Rightarrow> ptr \<Rightarrow> ptr \<Rightarrow> lheap option" where
  "HXlist_add_tail h head entry = do {
     n \<leftarrow> deref h head;
     HXlist_add_between h entry (l_prev n) head
   }"

definition HXlist_del :: "lheap \<Rightarrow> ptr \<Rightarrow> lheap option" where
  "HXlist_del h entry = do {
     e \<leftarrow> deref h entry;
     h \<leftarrow> store h (l_prev e) (l_next_update (\<lambda>_. l_next e));
     e \<leftarrow> deref h entry;
     h \<leftarrow> store h (l_next e) (l_prev_update (\<lambda>_. l_prev e));
     h \<leftarrow> store h entry (l_next_update (\<lambda>_. None));
     store h entry (l_prev_update (\<lambda>_. None))
   }"

definition HXlist_empty :: "lheap \<Rightarrow> ptr \<Rightarrow> bool option" where
  "HXlist_empty h head = do {
     n \<leftarrow> deref h head;
     Some (l_next n = head)
   }"

text \<open>
  The iteration macros. \<open>HXlist_for_each\<close> collects the visited nodes; it does not return when the
  chain never comes back to the anchor, so it is a \<^theory_text>\<open>partial_function\<close>. The safe variant
  loads the successor before the body runs, so that the body may unlink the current node; the body
  is a heap transformer.
\<close>

partial_function (option) HXlist_walk :: "lheap \<Rightarrow> ptr \<Rightarrow> ptr \<Rightarrow> ptr list option" where
  "HXlist_walk h pos head =
     (if pos = head then Some []
      else do {
        n \<leftarrow> deref h pos;
        r \<leftarrow> HXlist_walk h (l_next n) head;
        Some (pos # r)
      })"

definition HXlist_for_each :: "lheap \<Rightarrow> ptr \<Rightarrow> ptr list option" where
  "HXlist_for_each h head = do { n \<leftarrow> deref h head; HXlist_walk h (l_next n) head }"

partial_function (option) HXlist_walk_rev :: "lheap \<Rightarrow> ptr \<Rightarrow> ptr \<Rightarrow> ptr list option" where
  "HXlist_walk_rev h pos head =
     (if pos = head then Some []
      else do {
        n \<leftarrow> deref h pos;
        r \<leftarrow> HXlist_walk_rev h (l_prev n) head;
        Some (pos # r)
      })"

definition HXlist_for_each_rev :: "lheap \<Rightarrow> ptr \<Rightarrow> ptr list option" where
  "HXlist_for_each_rev h head = do { n \<leftarrow> deref h head; HXlist_walk_rev h (l_prev n) head }"

partial_function (option) HXlist_walk_safe ::
  "(ptr \<Rightarrow> lheap \<Rightarrow> lheap option) \<Rightarrow> lheap \<Rightarrow> ptr \<Rightarrow> ptr \<Rightarrow> ptr \<Rightarrow> lheap option" where
  "HXlist_walk_safe body h pos n head =
     (if pos = head then Some h
      else do {
        h \<leftarrow> body pos h;
        m \<leftarrow> deref h n;
        HXlist_walk_safe body h n (l_next m) head
      })"

definition HXlist_for_each_safe ::
  "(ptr \<Rightarrow> lheap \<Rightarrow> lheap option) \<Rightarrow> lheap \<Rightarrow> ptr \<Rightarrow> lheap option" where
  "HXlist_for_each_safe body h head = do {
     a \<leftarrow> deref h head;
     p \<leftarrow> deref h (l_next a);
     HXlist_walk_safe body h (l_next a) (l_next p) head
   }"

section \<open>Counted lists\<close>

text \<open>
  \<open>HXclist_head\<close> overlays an anchor with a counter behind it. The model keeps the anchor as a cell
  of the heap and the counters in a map of their own, indexed by the anchor's address.
\<close>

record cstate =
  cells :: lheap
  citems :: "addr \<rightharpoonup> u64"

definition HXclist_init :: "cstate \<Rightarrow> addr \<Rightarrow> cstate option" where
  "HXclist_init s head = do {
     h \<leftarrow> HXlist_init (cells s) (Some head);
     c \<leftarrow> store (citems s) (Some head) (\<lambda>_. 0);
     Some (s\<lparr>cells := h, citems := c\<rparr>)
   }"

definition HXclist_del :: "cstate \<Rightarrow> addr \<Rightarrow> ptr \<Rightarrow> cstate option" where
  "HXclist_del s head node = do {
     c \<leftarrow> store (citems s) (Some head) (\<lambda>i. i - 1);
     h \<leftarrow> HXlist_del (cells s) node;
     Some (s\<lparr>cells := h, citems := c\<rparr>)
   }"

definition HXclist_unshift :: "cstate \<Rightarrow> addr \<Rightarrow> ptr \<Rightarrow> cstate option" where
  "HXclist_unshift s head nu = do {
     c \<leftarrow> store (citems s) (Some head) (\<lambda>i. i + 1);
     a \<leftarrow> deref (cells s) (Some head);
     h \<leftarrow> HXlist_add_between (cells s) nu (Some head) (l_next a);
     Some (s\<lparr>cells := h, citems := c\<rparr>)
   }"

definition HXclist_push :: "cstate \<Rightarrow> addr \<Rightarrow> ptr \<Rightarrow> cstate option" where
  "HXclist_push s head nu = do {
     c \<leftarrow> store (citems s) (Some head) (\<lambda>i. i + 1);
     a \<leftarrow> deref (cells s) (Some head);
     h \<leftarrow> HXlist_add_between (cells s) nu (l_prev a) (Some head);
     Some (s\<lparr>cells := h, citems := c\<rparr>)
   }"

definition HXclist_pop :: "cstate \<Rightarrow> addr \<Rightarrow> (ptr \<times> cstate) option" where
  "HXclist_pop s head = do {
     a \<leftarrow> deref (cells s) (Some head);
     if Some head = l_next a then Some (None, s)
     else do {
       h \<leftarrow> HXlist_del (cells s) (l_prev a);
       c \<leftarrow> store (citems s) (Some head) (\<lambda>i. i - 1);
       Some (l_prev a, s\<lparr>cells := h, citems := c\<rparr>)
     }
   }"

definition HXclist_shift :: "cstate \<Rightarrow> addr \<Rightarrow> (ptr \<times> cstate) option" where
  "HXclist_shift s head = do {
     a \<leftarrow> deref (cells s) (Some head);
     if Some head = l_next a then Some (None, s)
     else do {
       h \<leftarrow> HXlist_del (cells s) (l_next a);
       c \<leftarrow> store (citems s) (Some head) (\<lambda>i. i - 1);
       Some (l_next a, s\<lparr>cells := h, citems := c\<rparr>)
     }
   }"

section \<open>The abstraction to lists\<close>

definition nxt :: "lheap \<Rightarrow> addr \<Rightarrow> ptr" where
  "nxt h a = (case h a of None \<Rightarrow> None | Some n \<Rightarrow> l_next n)"

definition prv :: "lheap \<Rightarrow> addr \<Rightarrow> ptr" where
  "prv h a = (case h a of None \<Rightarrow> None | Some n \<Rightarrow> l_prev n)"

fun links :: "lheap \<Rightarrow> addr \<Rightarrow> addr list \<Rightarrow> addr \<Rightarrow> bool" where
  "links h a [] b \<longleftrightarrow> nxt h a = Some b \<and> prv h b = Some a"
| "links h a (x # xs) b \<longleftrightarrow> nxt h a = Some x \<and> prv h x = Some a \<and> links h x xs b"

definition ring :: "lheap \<Rightarrow> addr \<Rightarrow> addr list \<Rightarrow> bool" where
  "ring h head as \<longleftrightarrow> distinct (head # as) \<and> links h head as head"

lemma links_append:
  "links h a (xs @ y # ys) b \<longleftrightarrow> links h a xs y \<and> links h y ys b"
  by (induction xs arbitrary: a) auto

lemma links_cong:
  assumes "\<And>c. c \<in> set (a # xs) \<Longrightarrow> nxt h' c = nxt h c"
    and "\<And>c. c \<in> set (xs @ [b]) \<Longrightarrow> prv h' c = prv h c"
  shows "links h' a xs b = links h a xs b"
  using assms by (induction xs arbitrary: a) auto

lemma links_dom:
  "links h a xs b \<Longrightarrow> a \<in> dom h \<and> b \<in> dom h \<and> set xs \<subseteq> dom h"
  by (induction xs arbitrary: a) (auto simp: nxt_def prv_def split: option.splits)

lemma ring_dom: "ring h head as \<Longrightarrow> insert head (set as) \<subseteq> dom h"
  using links_dom by (fastforce simp: ring_def)

lemma nxt_upd: "nxt (h(a \<mapsto> n)) c = (if c = a then l_next n else nxt h c)"
  by (simp add: nxt_def)

lemma prv_upd: "prv (h(a \<mapsto> n)) c = (if c = a then l_prev n else prv h c)"
  by (simp add: prv_def)

lemma ring_init:
  assumes "head \<in> dom h"
  shows "\<exists>h'. HXlist_init h (Some head) = Some h' \<and> ring h' head []"
  using assms by (auto simp: HXlist_init_def ring_def nxt_def prv_def)

text \<open>A write to one field, seen through \<open>nxt\<close> and \<open>prv\<close>.\<close>

lemma store_next:
  assumes "a \<in> dom h"
  obtains h' where "store h (Some a) (l_next_update (\<lambda>_. v)) = Some h'" "dom h' = dom h"
    "nxt h' = (nxt h)(a := v)" "prv h' = prv h"
proof -
  obtain n where n: "h a = Some n" using assms by auto
  show ?thesis
    by (rule that [of "h(a \<mapsto> n\<lparr>l_next := v\<rparr>)"])
      (use n in \<open>auto simp: nxt_def prv_def fun_eq_iff\<close>)
qed

lemma store_prev:
  assumes "a \<in> dom h"
  obtains h' where "store h (Some a) (l_prev_update (\<lambda>_. v)) = Some h'" "dom h' = dom h"
    "nxt h' = nxt h" "prv h' = (prv h)(a := v)"
proof -
  obtain n where n: "h a = Some n" using assms by auto
  show ?thesis
    by (rule that [of "h(a \<mapsto> n\<lparr>l_prev := v\<rparr>)"])
      (use n in \<open>auto simp: nxt_def prv_def fun_eq_iff\<close>)
qed

lemma deref_cell:
  assumes "a \<in> dom h"
  obtains n where "deref h (Some a) = Some n" "l_next n = nxt h a" "l_prev n = prv h a"
  using assms that by (auto simp: nxt_def prv_def)

text \<open>Inserting between two linked cells: the shape of the result, cell by cell.\<close>

lemma add_between_effect:
  assumes "e \<in> dom h" "p \<in> dom h" "q \<in> dom h" "e \<noteq> p" "e \<noteq> q"
  obtains h' where "HXlist_add_between h (Some e) (Some p) (Some q) = Some h'" "dom h' = dom h"
     "nxt h' = (nxt h)(e := Some q, p := Some e)" "prv h' = (prv h)(e := Some p, q := Some e)"
proof -
  obtain h1 where h1: "store h (Some e) (l_next_update (\<lambda>_. Some q)) = Some h1" "dom h1 = dom h"
    "nxt h1 = (nxt h)(e := Some q)" "prv h1 = prv h"
    using store_next assms(1) by metis
  obtain h2 where h2: "store h1 (Some e) (l_prev_update (\<lambda>_. Some p)) = Some h2"
    "dom h2 = dom h1" "nxt h2 = nxt h1" "prv h2 = (prv h1)(e := Some p)"
    using store_prev assms(1) h1(2) by metis
  obtain h3 where h3: "store h2 (Some q) (l_prev_update (\<lambda>_. Some e)) = Some h3"
    "dom h3 = dom h2" "nxt h3 = nxt h2" "prv h3 = (prv h2)(q := Some e)"
    using store_prev assms(3) h1(2) h2(2) by metis
  obtain h4 where h4: "store h3 (Some p) (l_next_update (\<lambda>_. Some e)) = Some h4"
    "dom h4 = dom h3" "nxt h4 = (nxt h3)(p := Some e)" "prv h4 = prv h3"
    using store_next assms(2) h1(2) h2(2) h3(2) by metis
  show ?thesis
    by (rule that [of h4]) (use h1 h2 h3 h4 in \<open>simp_all add: HXlist_add_between_def\<close>)
qed

lemma links_insert:
  assumes l: "links h a (xs @ ys) b" and d: "distinct (a # xs @ ys)" "b \<notin> set (xs @ ys)"
    and e: "e \<notin> set (a # b # xs @ ys)"
    and n: "nxt h' = (nxt h)(e := Some q, p := Some e)"
    and v: "prv h' = (prv h)(e := Some p, q := Some e)"
    and p: "p = last (a # xs)" and q: "q = hd (ys @ [b])"
  shows "links h' a (xs @ e # ys) b"
proof -
  have q_in: "q \<in> set (ys @ [b])" and p_in: "p \<in> set (a # xs)"
    using p q by (cases ys; auto)+
  have "links h' a xs e"
  proof (cases xs rule: rev_cases)
    case Nil
    with n v p e q_in show ?thesis by auto
  next
    case (snoc zs z)
    then have "links h a zs z" using l by (simp add: links_append)
    moreover have "links h' a zs z = links h a zs z"
      using snoc p q_in d e n v by (intro links_cong) auto
    ultimately show ?thesis using snoc p n v e q_in by (auto simp: links_append)
  qed
  moreover have "links h' e ys b"
  proof (cases ys)
    case Nil
    with n v q e p_in show ?thesis by auto
  next
    case (Cons z zs)
    then have "links h z zs b" using l by (simp add: links_append)
    moreover have "links h' z zs b = links h z zs b"
      using Cons q p_in d e n v by (intro links_cong) auto
    ultimately show ?thesis using Cons q n v e p_in by auto
  qed
  ultimately show ?thesis by (simp add: links_append)
qed

lemma links_ends:
  "links h a xs b \<Longrightarrow> nxt h a = Some (hd (xs @ [b])) \<and> prv h b = Some (last (a # xs))"
  by (induction xs arbitrary: a) auto

lemma hd_in_set: "hd (xs @ [b]) \<in> insert b (set xs)"
  by (cases xs) auto

lemma last_in_set: "last (a # xs) \<in> insert a (set xs)"
  by (cases xs rule: rev_cases) auto

definition untouched :: "lheap \<Rightarrow> lheap \<Rightarrow> addr set \<Rightarrow> bool" where
  "untouched h h' A \<longleftrightarrow> dom h' = dom h \<and> (\<forall>c. c \<notin> A \<longrightarrow> nxt h' c = nxt h c \<and> prv h' c = prv h c)"

lemma ring_frame:
  assumes "ring h head as" "untouched h h' A" "A \<inter> insert head (set as) = {}"
  shows "ring h' head as"
proof -
  have "links h' head as head = links h head as head"
    using assms by (intro links_cong) (auto simp: untouched_def)
  then show ?thesis using assms(1) by (simp add: ring_def)
qed

lemma ring_add:
  assumes r: "ring h head as" and e: "e \<in> dom h" "e \<notin> insert head (set as)"
  obtains h' where "HXlist_add h (Some head) (Some e) = Some h'" "ring h' head (e # as)"
    "untouched h h' (insert e (insert head (set as)))"
proof -
  let ?q = "hd (as @ [head])"
  have l: "links h head ([] @ as) head" and d: "distinct (head # [] @ as)" "head \<notin> set ([] @ as)"
    using r by (auto simp: ring_def)
  have dm: "head \<in> dom h" "?q \<in> dom h" using ring_dom [OF r] hd_in_set [of as head] by auto
  obtain n where n: "deref h (Some head) = Some n" "l_next n = Some ?q"
    using deref_cell [OF dm(1)] links_ends [OF l] by (metis append_Nil)
  obtain h' where h': "HXlist_add_between h (Some e) (Some head) (Some ?q) = Some h'"
    "dom h' = dom h" "nxt h' = (nxt h)(e := Some ?q, head := Some e)"
    "prv h' = (prv h)(e := Some head, ?q := Some e)"
    using add_between_effect e dm hd_in_set [of as head] by (metis insertCI)
  have "links h' head ([] @ e # as) head"
    using e by (intro links_insert [OF l d _ h'(3,4)]) auto
  moreover have "untouched h h' (insert e (insert head (set as)))"
    using h' hd_in_set [of as head] by (auto simp: untouched_def)
  ultimately show ?thesis
    using that [of h'] n h'(1) e d by (simp add: HXlist_add_def ring_def)
qed

lemma ring_add_tail:
  assumes r: "ring h head as" and e: "e \<in> dom h" "e \<notin> insert head (set as)"
  obtains h' where "HXlist_add_tail h (Some head) (Some e) = Some h'" "ring h' head (as @ [e])"
    "untouched h h' (insert e (insert head (set as)))"
proof -
  let ?p = "last (head # as)"
  have l: "links h head (as @ []) head" and d: "distinct (head # as @ [])" "head \<notin> set (as @ [])"
    using r by (auto simp: ring_def)
  have dm: "head \<in> dom h" "?p \<in> dom h" using ring_dom [OF r] last_in_set [of head as] by auto
  obtain n where n: "deref h (Some head) = Some n" "l_prev n = Some ?p"
    using deref_cell [OF dm(1)] links_ends [OF l] by (metis append_Nil2)
  obtain h' where h': "HXlist_add_between h (Some e) (Some ?p) (Some head) = Some h'"
    "dom h' = dom h" "nxt h' = (nxt h)(e := Some head, ?p := Some e)"
    "prv h' = (prv h)(e := Some ?p, head := Some e)"
    using add_between_effect e dm last_in_set [of head as] by (metis insertCI)
  have "links h' head (as @ e # []) head"
    using e by (intro links_insert [OF l d _ h'(3,4)]) auto
  moreover have "untouched h h' (insert e (insert head (set as)))"
    using h' last_in_set [of head as] by (auto simp: untouched_def)
  ultimately show ?thesis
    using that [of h'] n h'(1) e d by (simp add: HXlist_add_tail_def ring_def)
qed

lemma links_bypass:
  assumes l: "links h a xs e" "links h e ys b" and d: "distinct (a # xs @ e # ys)"
    "b \<notin> set (xs @ e # ys)"
    and n: "nxt h' = (nxt h)(last (a # xs) := Some (hd (ys @ [b])), e := None)"
    and v: "prv h' = (prv h)(hd (ys @ [b]) := Some (last (a # xs)), e := None)"
  shows "links h' a (xs @ ys) b"
proof (cases ys)
  case Nil
  show ?thesis
  proof (cases xs rule: rev_cases)
    case (snoc zs z)
    have "links h' a zs z = links h a zs z"
      using d n v snoc Nil by (intro links_cong) auto
    then show ?thesis using l n v d Nil snoc by (simp add: links_append)
  qed (use d n v Nil in auto)
next
  case (Cons y zs)
  have t: "links h' y zs b = links h y zs b"
  proof (rule links_cong)
    have "last (a # xs) \<notin> set ys" "e \<notin> set ys" using d last_in_set [of a xs] by auto
    then show "nxt h' c = nxt h c" if "c \<in> set (y # zs)" for c using that n Cons by auto
    have "y \<notin> set (zs @ [b])" "e \<notin> set (zs @ [b])" using d Cons by auto
    then show "prv h' c = prv h c" if "c \<in> set (zs @ [b])" for c using that v Cons by auto
  qed
  show ?thesis
  proof (cases xs rule: rev_cases)
    case (snoc ws z)
    have p: "last (a # xs) = z" using snoc by simp
    have q: "hd (ys @ [b]) = y" using Cons by simp
    have "links h' a ws z = links h a ws z"
    proof (rule links_cong)
      have "z \<notin> set (a # ws)" "e \<notin> set (a # ws)" using d snoc by auto
      then show "nxt h' c = nxt h c" if "c \<in> set (a # ws)" for c using that n p by auto
      have "y \<notin> set (ws @ [z])" "e \<notin> set (ws @ [z])" using d snoc Cons by auto
      then show "prv h' c = prv h c" if "c \<in> set (ws @ [z])" for c using that v q by auto
    qed
    moreover have "links h a ws z" using l(1) snoc by (simp add: links_append)
    moreover have "links h y zs b" using l(2) Cons by simp
    moreover have "z \<noteq> e" "y \<noteq> e" using d(1) [unfolded snoc Cons] by simp_all
    then have "nxt h' z = Some y" "prv h' y = Some z" using n v by (simp_all add: q snoc)
    ultimately show ?thesis using t snoc Cons by (simp add: links_append)
  qed (use d n v l Cons t in auto)
qed

lemma ring_del:
  assumes r: "ring h head (xs @ e # ys)"
  obtains h' where "HXlist_del h (Some e) = Some h'" "ring h' head (xs @ ys)"
    "untouched h h' (insert head (set (xs @ e # ys)))" "nxt h' e = None" "prv h' e = None"
proof -
  let ?p = "last (head # xs)" and ?q = "hd (ys @ [head])"
  have l: "links h head xs e" "links h e ys head" and d: "distinct (head # xs @ e # ys)"
    using r by (auto simp: ring_def links_append)
  have dm: "e \<in> dom h" "?p \<in> dom h" "?q \<in> dom h"
    using ring_dom [OF r] last_in_set [of head xs] hd_in_set [of ys head] by auto
  have ne: "?p \<noteq> e" "?q \<noteq> e" using d last_in_set [of head xs] hd_in_set [of ys head] by auto
  have f: "nxt h e = Some ?q" "prv h e = Some ?p" using links_ends l by auto
  obtain c where c: "deref h (Some e) = Some c" "l_next c = Some ?q" "l_prev c = Some ?p"
    using deref_cell [OF dm(1)] f by metis
  obtain h1 where h1: "store h (Some ?p) (l_next_update (\<lambda>_. Some ?q)) = Some h1"
    "dom h1 = dom h" "nxt h1 = (nxt h)(?p := Some ?q)" "prv h1 = prv h"
    using store_next dm(2) by metis
  obtain c1 where c1: "deref h1 (Some e) = Some c1" "l_next c1 = Some ?q" "l_prev c1 = Some ?p"
    using deref_cell [of e h1] dm h1 f ne by (metis fun_upd_other)
  obtain h2 where h2: "store h1 (Some ?q) (l_prev_update (\<lambda>_. Some ?p)) = Some h2"
    "dom h2 = dom h1" "nxt h2 = nxt h1" "prv h2 = (prv h1)(?q := Some ?p)"
    using store_prev dm(3) h1(2) by metis
  obtain h3 where h3: "store h2 (Some e) (l_next_update (\<lambda>_. None)) = Some h3"
    "dom h3 = dom h2" "nxt h3 = (nxt h2)(e := None)" "prv h3 = prv h2"
    using store_next dm(1) h1(2) h2(2) by metis
  obtain h4 where h4: "store h3 (Some e) (l_prev_update (\<lambda>_. None)) = Some h4"
    "dom h4 = dom h3" "nxt h4 = nxt h3" "prv h4 = (prv h3)(e := None)"
    using store_prev dm(1) h1(2) h2(2) h3(2) by metis
  have "HXlist_del h (Some e) = Some h4"
    using c c1 h1 h2 h3 h4 by (simp add: HXlist_del_def)
  moreover have "links h4 head (xs @ ys) head"
    by (intro links_bypass [OF l d]) (use h1 h2 h3 h4 d in simp_all)
  moreover have "untouched h h4 (insert head (set (xs @ e # ys)))"
    using h1 h2 h3 h4 last_in_set [of head xs] hd_in_set [of ys head]
    by (auto simp: untouched_def)
  ultimately show ?thesis using that [of h4] d h1 h2 h3 h4 by (auto simp: ring_def)
qed

section \<open>Iteration\<close>

lemma links_unique:
  "links h a xs b \<Longrightarrow> links h a ys b \<Longrightarrow> b \<notin> set xs \<Longrightarrow> b \<notin> set ys \<Longrightarrow> xs = ys"
proof (induction xs arbitrary: a ys)
  case Nil
  then show ?case by (cases ys) auto
next
  case (Cons x xs)
  then show ?case by (cases ys) auto
qed

lemma ring_unique: "ring h head as \<Longrightarrow> ring h head bs \<Longrightarrow> as = bs"
  by (auto simp: ring_def intro: links_unique)

lemma walk_links:
  "links h a xs head \<Longrightarrow> head \<notin> set xs \<Longrightarrow> HXlist_walk h (nxt h a) (Some head) = Some (map Some xs)"
proof (induction xs arbitrary: a)
  case Nil
  then show ?case by (simp add: HXlist_walk.simps)
next
  case (Cons x xs)
  have "x \<in> dom h" using links_dom [OF Cons.prems(1)] by auto
  then obtain n where "deref h (Some x) = Some n" "l_next n = nxt h x"
    by (rule deref_cell)
  with Cons show ?case by (subst HXlist_walk.simps) auto
qed

lemma walk_rev_links:
  "links h a xs b \<Longrightarrow> a \<notin> set xs \<Longrightarrow>
     HXlist_walk_rev h (prv h b) (Some a) = Some (map Some (rev xs))"
proof (induction xs arbitrary: b rule: rev_induct)
  case Nil
  then show ?case by (simp add: HXlist_walk_rev.simps)
next
  case (snoc x xs)
  have l: "links h a xs x" "links h x [] b" using snoc.prems(1) by (auto simp: links_append)
  have "x \<in> dom h" using links_dom [OF l(1)] by auto
  then obtain n where "deref h (Some x) = Some n" "l_prev n = prv h x"
    by (rule deref_cell)
  with snoc l show ?case by (subst HXlist_walk_rev.simps) auto
qed

lemma for_each_ring:
  assumes "ring h head as"
  shows "HXlist_for_each h (Some head) = Some (map Some as)"
    and "HXlist_for_each_rev h (Some head) = Some (map Some (rev as))"
proof -
  have d: "head \<in> dom h" using ring_dom [OF assms] by auto
  then obtain n where "deref h (Some head) = Some n" "l_next n = nxt h head" "l_prev n = prv h head"
    by (rule deref_cell)
  moreover have "links h head as head" "head \<notin> set as" using assms by (auto simp: ring_def)
  ultimately show "HXlist_for_each h (Some head) = Some (map Some as)"
    and "HXlist_for_each_rev h (Some head) = Some (map Some (rev as))"
    by (auto simp: HXlist_for_each_def HXlist_for_each_rev_def walk_links walk_rev_links)
qed

lemma empty_ring:
  assumes "ring h head as"
  shows "HXlist_empty h (Some head) = Some (as = [])"
proof -
  have d: "head \<in> dom h" using ring_dom [OF assms] by auto
  then obtain n where "deref h (Some head) = Some n" "l_next n = nxt h head" by (rule deref_cell)
  with assms show ?thesis by (cases as) (auto simp: HXlist_empty_def ring_def)
qed

text \<open>
  The safe iteration with a body that unlinks the current node and leaves the rest of the ring in
  place. \<open>P\<close> is what the body keeps of the rest of the heap, as a function of the nodes done.
\<close>

lemma walk_safe_unlink:
  assumes body: "\<And>h e es ds. ring h head (e # es) \<Longrightarrow> P ds h \<Longrightarrow> e \<notin> set ds \<Longrightarrow>
      \<exists>h'. body (Some e) h = Some h' \<and> ring h' head es \<and> P (ds @ [e]) h'"
    and "ring h head (e # es)" "P ds h" "set ds \<inter> set (e # es) = {}" "distinct (e # es)"
    and "n = (case es of [] \<Rightarrow> Some head | y # _ \<Rightarrow> Some y)"
  shows "\<exists>h'. HXlist_walk_safe body h (Some e) n (Some head) = Some h' \<and>
    ring h' head [] \<and> P (ds @ e # es) h'"
  using assms(2-)
proof (induction es arbitrary: e ds h n)
  case Nil
  then obtain h' where h': "body (Some e) h = Some h'" "ring h' head []" "P (ds @ [e]) h'"
    using body by (metis disjoint_iff list.set_intros(1))
  moreover have "e \<noteq> head" using Nil by (auto simp: ring_def)
  moreover have "head \<in> dom h'" using ring_dom [OF h'(2)] by auto
  ultimately show ?case using Nil.prems(5)
    by (auto simp: HXlist_walk_safe.simps)
next
  case (Cons y ys)
  then obtain h' where h': "body (Some e) h = Some h'" "ring h' head (y # ys)" "P (ds @ [e]) h'"
    using body by (metis disjoint_iff list.set_intros(1))
  have y: "y \<in> dom h'" using ring_dom [OF h'(2)] by auto
  then obtain m where m: "deref h' (Some y) = Some m" "l_next m = nxt h' y" by (rule deref_cell)
  have n: "nxt h' y = (case ys of [] \<Rightarrow> Some head | z # _ \<Rightarrow> Some z)"
    using h'(2) by (cases ys) (auto simp: ring_def)
  have "e \<noteq> head" using Cons.prems(1) by (auto simp: ring_def)
  moreover obtain h'' where "HXlist_walk_safe body h' (Some y) (nxt h' y) (Some head) = Some h''"
    "ring h'' head []" "P ((ds @ [e]) @ y # ys) h''"
    using Cons.IH [OF h'(2,3) _ _ n] Cons.prems by auto
  ultimately show ?case
    using h'(1) m Cons.prems(5) by (subst HXlist_walk_safe.simps) auto
qed

lemma for_each_safe_unlink:
  assumes body: "\<And>h e es ds. ring h head (e # es) \<Longrightarrow> P ds h \<Longrightarrow> e \<notin> set ds \<Longrightarrow>
      \<exists>h'. body (Some e) h = Some h' \<and> ring h' head es \<and> P (ds @ [e]) h'"
    and r: "ring h head as" and p: "P [] h"
  shows "\<exists>h'. HXlist_for_each_safe body h (Some head) = Some h' \<and> ring h' head [] \<and> P as h'"
proof -
  have "head \<in> dom h" using ring_dom [OF r] by auto
  then obtain a where a: "deref h (Some head) = Some a" "l_next a = nxt h head"
    by (rule deref_cell)
  show ?thesis
  proof (cases as)
    case Nil
    then have "nxt h head = Some head" using r by (simp add: ring_def)
    with a Nil r p show ?thesis by (auto simp: HXlist_for_each_safe_def HXlist_walk_safe.simps)
  next
    case (Cons e es)
    have e: "nxt h head = Some e" "e \<in> dom h" using r ring_dom [OF r] Cons by (auto simp: ring_def)
    then obtain q where q: "deref h (Some e) = Some q" "l_next q = nxt h e" using deref_cell by metis
    have "nxt h e = (case es of [] \<Rightarrow> Some head | y # _ \<Rightarrow> Some y)"
      using r Cons by (cases es) (auto simp: ring_def)
    moreover have "distinct (e # es)" using r Cons by (simp add: ring_def)
    ultimately show ?thesis
      using walk_safe_unlink [where P = P and body = body and ds = "[]", OF body] r p Cons a e q
      by (simp add: HXlist_for_each_safe_def)
  qed
qed

section \<open>Counted lists as a double-ended list\<close>

definition crep :: "addr \<Rightarrow> cstate \<Rightarrow> addr list \<Rightarrow> bool" where
  "crep head s as \<longleftrightarrow> ring (cells s) head as \<and> citems s head = Some (of_nat (length as))"

definition cfresh :: "addr \<Rightarrow> cstate \<Rightarrow> addr \<Rightarrow> bool" where
  "cfresh head s e \<longleftrightarrow> e \<in> dom (cells s) \<and> (\<forall>as. ring (cells s) head as \<longrightarrow> e \<notin> insert head (set as))"

lemma cfresh_iff: "ring (cells s) head as \<Longrightarrow>
    cfresh head s e \<longleftrightarrow> e \<in> dom (cells s) \<and> e \<notin> insert head (set as)"
  by (auto simp: cfresh_def dest: ring_unique)

lemma clist_init:
  assumes "head \<in> dom (cells s)" "head \<in> dom (citems s)"
  shows "\<exists>s'. HXclist_init s head = Some s' \<and> crep head s' []"
  using ring_init [OF assms(1)] assms(2) by (auto simp: HXclist_init_def crep_def)

lemma clist_push:
  assumes r: "crep head s as" and e: "cfresh head s e"
  shows "\<exists>s'. HXclist_push s head (Some e) = Some s' \<and> crep head s' (as @ [e]) \<and>
    (\<forall>e'. cfresh head s e' \<longrightarrow> e \<noteq> e' \<longrightarrow> cfresh head s' e')"
proof -
  have g: "ring (cells s) head as" using r by (simp add: crep_def)
  obtain h' where h': "HXlist_add_tail (cells s) (Some head) (Some e) = Some h'"
    "ring h' head (as @ [e])" "untouched (cells s) h' (insert e (insert head (set as)))"
    using ring_add_tail [OF g] e cfresh_iff [OF g] by metis
  let ?s = "s\<lparr>cells := h', citems := (citems s)(head \<mapsto> of_nat (Suc (length as)))\<rparr>"
  have "HXclist_push s head (Some e) = Some ?s"
    using h'(1) r by (auto simp: HXclist_push_def HXlist_add_tail_def crep_def add.commute
        split: bind_splits)
  moreover have "crep head ?s (as @ [e])" using h'(2) by (simp add: crep_def)
  moreover have "\<forall>e'. cfresh head s e' \<longrightarrow> e \<noteq> e' \<longrightarrow> cfresh head ?s e'"
    using h'(2,3) cfresh_iff [OF g] cfresh_iff [of ?s head "as @ [e]"]
    by (auto simp: untouched_def)
  ultimately show ?thesis by blast
qed

lemma clist_unshift:
  assumes r: "crep head s as" and e: "cfresh head s e"
  shows "\<exists>s'. HXclist_unshift s head (Some e) = Some s' \<and> crep head s' (e # as) \<and>
    (\<forall>e'. cfresh head s e' \<longrightarrow> e \<noteq> e' \<longrightarrow> cfresh head s' e')"
proof -
  have g: "ring (cells s) head as" using r by (simp add: crep_def)
  obtain h' where h': "HXlist_add (cells s) (Some head) (Some e) = Some h'"
    "ring h' head (e # as)" "untouched (cells s) h' (insert e (insert head (set as)))"
    using ring_add [OF g] e cfresh_iff [OF g] by metis
  let ?s = "s\<lparr>cells := h', citems := (citems s)(head \<mapsto> of_nat (Suc (length as)))\<rparr>"
  have "HXclist_unshift s head (Some e) = Some ?s"
    using h'(1) r by (auto simp: HXclist_unshift_def HXlist_add_def crep_def add.commute
        split: bind_splits)
  moreover have "crep head ?s (e # as)" using h'(2) by (simp add: crep_def)
  moreover have "\<forall>e'. cfresh head s e' \<longrightarrow> e \<noteq> e' \<longrightarrow> cfresh head ?s e'"
    using h'(2,3) cfresh_iff [OF g] cfresh_iff [of ?s head "e # as"]
    by (auto simp: untouched_def)
  ultimately show ?thesis by blast
qed

lemma clist_del:
  assumes r: "crep head s (xs @ e # ys)"
  shows "\<exists>s'. HXclist_del s head (Some e) = Some s' \<and> crep head s' (xs @ ys)"
proof -
  have g: "ring (cells s) head (xs @ e # ys)" using r by (simp add: crep_def)
  obtain h' where "HXlist_del (cells s) (Some e) = Some h'" "ring h' head (xs @ ys)"
    using ring_del [OF g] by metis
  then show ?thesis using r by (auto simp: HXclist_del_def crep_def)
qed

lemma clist_pop:
  assumes r: "crep head s (as @ [e])"
  shows "\<exists>s'. HXclist_pop s head = Some (Some e, s') \<and> crep head s' as"
proof -
  have g: "ring (cells s) head (as @ e # [])" using r by (simp add: crep_def)
  obtain h' where h': "HXlist_del (cells s) (Some e) = Some h'" "ring h' head as"
    using ring_del [OF g] by (metis append_Nil2)
  have "head \<in> dom (cells s)" using ring_dom [OF g] by auto
  then obtain n where n: "deref (cells s) (Some head) = Some n" "l_next n = nxt (cells s) head"
    "l_prev n = prv (cells s) head" by (rule deref_cell)
  have l: "links (cells s) head (as @ [e]) head" using g by (simp add: ring_def)
  have "prv (cells s) head = Some e" using links_ends [OF l] by simp
  moreover have "nxt (cells s) head = Some (hd (as @ [e]))" using links_ends [OF l] by (cases as) auto
  moreover have "hd (as @ [e]) \<noteq> head" using g by (cases as) (auto simp: ring_def)
  ultimately show ?thesis using n h' r by (auto simp: HXclist_pop_def crep_def)
qed

lemma clist_shift:
  assumes r: "crep head s (e # as)"
  shows "\<exists>s'. HXclist_shift s head = Some (Some e, s') \<and> crep head s' as"
proof -
  have g: "ring (cells s) head ([] @ e # as)" using r by (simp add: crep_def)
  obtain h' where h': "HXlist_del (cells s) (Some e) = Some h'" "ring h' head as"
    using ring_del [OF g] by (metis append_Nil)
  have "head \<in> dom (cells s)" using ring_dom [OF g] by auto
  then obtain n where n: "deref (cells s) (Some head) = Some n" "l_next n = nxt (cells s) head"
    by (rule deref_cell)
  have "nxt (cells s) head = Some e" "e \<noteq> head" using g by (auto simp: ring_def)
  then show ?thesis using n h' r by (auto simp: HXclist_shift_def crep_def)
qed

lemma clist_empty:
  assumes "crep head s []"
  shows "HXclist_pop s head = Some (None, s)" "HXclist_shift s head = Some (None, s)"
proof -
  have g: "ring (cells s) head []" using assms by (simp add: crep_def)
  have "head \<in> dom (cells s)" using ring_dom [OF g] by auto
  then obtain n where "deref (cells s) (Some head) = Some n" "l_next n = nxt (cells s) head"
    by (rule deref_cell)
  with g show "HXclist_pop s head = Some (None, s)" "HXclist_shift s head = Some (None, s)"
    by (auto simp: HXclist_pop_def HXclist_shift_def ring_def)
qed

interpretation clist: dq_contract "crep head" "cfresh head" Some None
  "\<lambda>s e. HXclist_push s head (Some e)" "\<lambda>s e. HXclist_unshift s head (Some e)"
  "\<lambda>s. HXclist_pop s head" "\<lambda>s. HXclist_shift s head" "(\<noteq>)" for head
  by unfold_locales (auto intro: clist_push clist_unshift clist_pop clist_shift clist_empty)

text \<open>a counted list is a queue and a stack, for any number of nodes, and its counter is exact.\<close>

theorem HXclist_fifo_lifo:
  assumes "crep head s []" and "distinct es" and "\<forall>e \<in> set es. cfresh head s e"
  shows "\<exists>s1 s2 s3. add_all (\<lambda>s e. HXclist_push s head (Some e)) s es = Some s1 \<and>
    citems s1 head = Some (of_nat (length es)) \<and>
    take_n (\<lambda>s. HXclist_shift s head) (length es) s1 = Some (map Some es, s2) \<and>
    take_n (\<lambda>s. HXclist_pop s head) (length es) s1 = Some (rev (map Some es), s3) \<and>
    citems s2 head = Some 0 \<and> HXclist_shift s2 head = Some (None, s2)"
  using clist.push_all [OF assms(1,3)] clist.fifo [OF assms(1,3)] clist.lifo [OF assms(1,3)] assms(2)
  by (fastforce simp: sorted_wrt_neq crep_def)

definition two_cells :: cstate where
  "two_cells = \<lparr>cells = [0 \<mapsto> \<lparr>l_next = Some 0, l_prev = Some 0\<rparr>,
     1 \<mapsto> \<lparr>l_next = None, l_prev = None\<rparr>, 2 \<mapsto> \<lparr>l_next = None, l_prev = None\<rparr>],
     citems = [0 \<mapsto> 0]\<rparr>"

lemma two_cells_rep: "crep 0 two_cells []" "cfresh 0 two_cells 1" "cfresh 0 two_cells 2"
proof -
  have r: "ring (cells two_cells) 0 []"
    by (simp add: ring_def two_cells_def nxt_def prv_def)
  then show "crep 0 two_cells []" by (simp add: crep_def two_cells_def)
  show "cfresh 0 two_cells 1" "cfresh 0 two_cells 2"
    using cfresh_iff [OF r] by (auto simp: two_cells_def)
qed

theorem HXclist_fifo_lifo_witness:
  "\<exists>s1 s2 s3. add_all (\<lambda>s e. HXclist_push s 0 (Some e)) two_cells [1, 2] = Some s1 \<and>
    citems s1 0 = Some 2 \<and>
    take_n (\<lambda>s. HXclist_shift s 0) 2 s1 = Some ([Some 1, Some 2], s2) \<and>
    take_n (\<lambda>s. HXclist_pop s 0) 2 s1 = Some ([Some 2, Some 1], s3) \<and>
    citems s2 0 = Some 0 \<and> HXclist_shift s2 0 = Some (None, s2)"
  using HXclist_fifo_lifo [OF two_cells_rep(1), of "[1, 2]"] two_cells_rep(2,3)
  by (auto simp: numeral_2_eq_2)

end
