(* ===== verification/HX_Deque.thy ===== *)
theory HX_Deque
  imports HX_Contracts
begin

text \<open>
  The doubly-linked lists of \<^verbatim>\<open>src/deque.c\<close>: a root cell with the two ends and a counter, and node
  cells linked in both directions up to \<^verbatim>\<open>NULL\<close>, each with a pointer back to its root.

  The state holds the node cells and the root cells. What \<^verbatim>\<open>malloc\<close> and \<^verbatim>\<open>calloc\<close> return is an
  argument \<open>mem\<close> of the operation (\<open>None\<close> is a failed allocation); \<^verbatim>\<open>free\<close> removes the cell.
  Data pointers are opaque. \<open>drep dq s es\<close> says that the root \<open>dq\<close> carries the nodes and data
  pointers \<open>es\<close>, in both directions, with an exact counter; it is the representation under which
  the operations are proved.
\<close>

section \<open>Cells and state\<close>

record HXdeque_node =
  n_next :: ptr
  n_ptr :: ptr
  n_parent :: ptr
  n_prev :: ptr

record HXdeque =
  dq_first :: ptr
  dq_ptr :: ptr
  dq_last :: ptr
  dq_items :: u64

record dstate =
  nodes :: "addr \<rightharpoonup> HXdeque_node"
  dqs :: "addr \<rightharpoonup> HXdeque"

definition set_node :: "dstate \<Rightarrow> ptr \<Rightarrow> (HXdeque_node \<Rightarrow> HXdeque_node) \<Rightarrow> dstate option" where
  "set_node s p f = map_option (\<lambda>h. s\<lparr>nodes := h\<rparr>) (store (nodes s) p f)"

definition set_dq :: "dstate \<Rightarrow> ptr \<Rightarrow> (HXdeque \<Rightarrow> HXdeque) \<Rightarrow> dstate option" where
  "set_dq s p f = map_option (\<lambda>h. s\<lparr>dqs := h\<rparr>) (store (dqs s) p f)"

definition free_node :: "dstate \<Rightarrow> addr \<Rightarrow> dstate" where
  "free_node s a = s\<lparr>nodes := (nodes s)(a := None)\<rparr>"

definition free_dq :: "dstate \<Rightarrow> ptr \<Rightarrow> dstate" where
  "free_dq s p = (case p of None \<Rightarrow> s | Some a \<Rightarrow> s\<lparr>dqs := (dqs s)(a := None)\<rparr>)"

section \<open>Operations\<close>

definition HXdeque_add :: "dstate \<Rightarrow> ptr \<Rightarrow> ptr \<Rightarrow> dstate option" where
  "HXdeque_add s af nd = do {
     a \<leftarrow> deref (nodes s) af;
     let parent = n_parent a;
     s \<leftarrow> set_node s nd (\<lambda>n. n\<lparr>n_next := n_next a, n_prev := af\<rparr>);
     s \<leftarrow> set_node s af (\<lambda>n. n\<lparr>n_next := nd\<rparr>);
     s \<leftarrow> set_node s nd (\<lambda>n. n\<lparr>n_parent := parent\<rparr>);
     d \<leftarrow> deref (dqs s) parent;
     if dq_last d = af then set_dq s parent (\<lambda>d. d\<lparr>dq_last := nd\<rparr>) else Some s
   }"

definition HXdeque_drop :: "dstate \<Rightarrow> ptr \<Rightarrow> ptr \<Rightarrow> dstate option" where
  "HXdeque_drop s parent node = do {
     n \<leftarrow> deref (nodes s) node;
     let left = n_prev n;
     let right = n_next n;
     s \<leftarrow> (if left = None then set_dq s parent (\<lambda>d. d\<lparr>dq_first := right\<rparr>)
           else set_node s left (\<lambda>n. n\<lparr>n_next := right\<rparr>));
     (if right = None then set_dq s parent (\<lambda>d. d\<lparr>dq_last := left\<rparr>)
      else set_node s right (\<lambda>n. n\<lparr>n_prev := left\<rparr>))
   }"

definition HXdeque_init :: "dstate \<Rightarrow> ptr \<Rightarrow> ptr \<times> dstate" where
  "HXdeque_init s mem =
     (case mem of None \<Rightarrow> (None, s)
      | Some a \<Rightarrow> (Some a, s\<lparr>dqs := (dqs s)(a \<mapsto>
          \<lparr>dq_first = None, dq_ptr = None, dq_last = None, dq_items = 0\<rparr>)\<rparr>))"

definition HXdeque_push :: "dstate \<Rightarrow> ptr \<Rightarrow> ptr \<Rightarrow> ptr \<Rightarrow> (ptr \<times> dstate) option" where
  "HXdeque_push s dq p mem =
     (case mem of None \<Rightarrow> Some (None, s)
      | Some a \<Rightarrow> do {
          d \<leftarrow> deref (dqs s) dq;
          let s = s\<lparr>nodes := (nodes s)(a \<mapsto>
            \<lparr>n_next = None, n_ptr = p, n_parent = dq, n_prev = dq_last d\<rparr>)\<rparr>;
          s \<leftarrow> (if dq_first d = None
                then set_dq s dq (\<lambda>d. d\<lparr>dq_first := Some a, dq_last := Some a\<rparr>)
                else do {
                  s \<leftarrow> set_node s (dq_last d) (\<lambda>n. n\<lparr>n_next := Some a\<rparr>);
                  set_dq s dq (\<lambda>d. d\<lparr>dq_last := Some a\<rparr>)
                });
          s \<leftarrow> set_dq s dq (\<lambda>d. d\<lparr>dq_items := dq_items d + 1\<rparr>);
          Some (Some a, s)
        })"

definition HXdeque_del :: "dstate \<Rightarrow> ptr \<Rightarrow> (ptr \<times> dstate) option" where
  "HXdeque_del s node = do {
     n \<leftarrow> deref (nodes s) node;
     s \<leftarrow> HXdeque_drop s (n_parent n) node;
     n' \<leftarrow> deref (nodes s) node;
     s \<leftarrow> set_dq s (n_parent n') (\<lambda>d. d\<lparr>dq_items := dq_items d - 1\<rparr>);
     Some (n_ptr n, free_node s (the node))
   }"

definition HXdeque_pop :: "dstate \<Rightarrow> ptr \<Rightarrow> (ptr \<times> dstate) option" where
  "HXdeque_pop s dq = do {
     d \<leftarrow> deref (dqs s) dq;
     if dq_last d = None then Some (None, s) else HXdeque_del s (dq_last d)
   }"

definition HXdeque_unshift :: "dstate \<Rightarrow> ptr \<Rightarrow> ptr \<Rightarrow> ptr \<Rightarrow> (ptr \<times> dstate) option" where
  "HXdeque_unshift s dq p mem = do {
     d \<leftarrow> deref (dqs s) dq;
     if dq_first d = None then HXdeque_push s dq p mem
     else case mem of None \<Rightarrow> Some (None, s)
      | Some a \<Rightarrow> do {
          let s = s\<lparr>nodes := (nodes s)(a \<mapsto>
            \<lparr>n_next = dq_first d, n_ptr = p, n_parent = dq, n_prev = None\<rparr>)\<rparr>;
          s \<leftarrow> set_node s (dq_first d) (\<lambda>n. n\<lparr>n_prev := Some a\<rparr>);
          s \<leftarrow> set_dq s dq (\<lambda>d. d\<lparr>dq_first := Some a, dq_items := dq_items d + 1\<rparr>);
          Some (Some a, s)
        }
   }"

definition HXdeque_shift :: "dstate \<Rightarrow> ptr \<Rightarrow> (ptr \<times> dstate) option" where
  "HXdeque_shift s dq = do {
     d \<leftarrow> deref (dqs s) dq;
     if dq_first d = None then Some (None, s) else HXdeque_del s (dq_first d)
   }"

definition HXdeque_move :: "dstate \<Rightarrow> ptr \<Rightarrow> ptr \<Rightarrow> dstate option" where
  "HXdeque_move s nd af = do {
     n \<leftarrow> deref (nodes s) nd;
     s \<leftarrow> HXdeque_drop s (n_parent n) nd;
     HXdeque_add s af nd
   }"

text \<open>
  The loops over the chain. They return nothing when the chain does not end, so they are partial
  functions; \<open>xfree\<close> of \<open>HXdeque_genocide2\<close> is a callback, of which the model keeps the sequence
  of arguments.
\<close>

partial_function (option) free_chain :: "dstate \<Rightarrow> ptr \<Rightarrow> (ptr list \<times> dstate) option" where
  "free_chain s node =
     (if node = None then Some ([], s)
      else do {
        n \<leftarrow> deref (nodes s) node;
        (ps, s) \<leftarrow> free_chain (free_node s (the node)) (n_next n);
        Some (n_ptr n # ps, s)
      })"

definition HXdeque_free :: "dstate \<Rightarrow> ptr \<Rightarrow> dstate option" where
  "HXdeque_free s dq =
     (if dq = None then Some s
      else do {
        d \<leftarrow> deref (dqs s) dq;
        (_, s) \<leftarrow> free_chain s (dq_first d);
        Some (free_dq s dq)
      })"

definition HXdeque_genocide2 :: "dstate \<Rightarrow> ptr \<Rightarrow> (ptr list \<times> dstate) option" where
  "HXdeque_genocide2 s dq = do {
     d \<leftarrow> deref (dqs s) dq;
     (ps, s) \<leftarrow> free_chain s (dq_first d);
     Some (ps, free_dq s dq)
   }"

partial_function (option) find_chain :: "dstate \<Rightarrow> ptr \<Rightarrow> ptr \<Rightarrow> ptr option" where
  "find_chain s travp p =
     (if travp = None then Some None
      else do {
        n \<leftarrow> deref (nodes s) travp;
        if n_ptr n = p then Some travp else find_chain s (n_next n) p
      })"

definition HXdeque_find :: "dstate \<Rightarrow> ptr \<Rightarrow> ptr \<Rightarrow> ptr option" where
  "HXdeque_find s dq p = do { d \<leftarrow> deref (dqs s) dq; find_chain s (dq_first d) p }"

definition HXdeque_get :: "dstate \<Rightarrow> ptr \<Rightarrow> ptr \<Rightarrow> ptr option" where
  "HXdeque_get s dq p = do {
     d \<leftarrow> deref (dqs s) dq;
     nd \<leftarrow> find_chain s (dq_first d) p;
     if nd = None then Some None else do { n \<leftarrow> deref (nodes s) nd; Some (n_ptr n) }
   }"

text \<open>
  \<open>HXdeque_to_veci\<close> allocates \<open>items + sentinel\<close> pointers (the byte count is computed in
  \<open>size_t\<close>, so it wraps) and copies the chain into them; \<open>cap\<close> is how many pointers the block
  holds, and a write behind it is a fault. \<open>ok\<close> tells whether \<^verbatim>\<open>malloc\<close> succeeded.
\<close>

partial_function (option) vec_chain :: "dstate \<Rightarrow> ptr \<Rightarrow> nat \<Rightarrow> ptr list option" where
  "vec_chain s trav cap =
     (if trav = None then Some []
      else do {
        n \<leftarrow> deref (nodes s) trav;
        if cap = 0 then None
        else do { ps \<leftarrow> vec_chain s (n_next n) (cap - 1); Some (n_ptr n # ps) }
      })"

definition vec_cap :: "u64 \<Rightarrow> bool \<Rightarrow> nat" where
  "vec_cap items sentinel = unat ((items + of_bool sentinel) * 8) div 8"

definition HXdeque_to_veci ::
  "dstate \<Rightarrow> ptr \<Rightarrow> bool \<Rightarrow> bool \<Rightarrow> (ptr list \<times> u64) option option" where
  "HXdeque_to_veci s dq sentinel ok = do {
     d \<leftarrow> deref (dqs s) dq;
     if \<not> ok then Some None
     else do {
       let cap = vec_cap (dq_items d) sentinel;
       ps \<leftarrow> vec_chain s (dq_first d) cap;
       if sentinel \<and> cap \<le> length ps then None
       else Some (Some (if sentinel then ps @ [None] else ps, dq_items d))
     }
   }"

definition HXdeque_to_vec :: "dstate \<Rightarrow> ptr \<Rightarrow> bool \<Rightarrow> (ptr list \<times> u64) option option" where
  "HXdeque_to_vec s dq ok = HXdeque_to_veci s dq True ok"

definition HXdeque_to_vecx :: "dstate \<Rightarrow> ptr \<Rightarrow> bool \<Rightarrow> (ptr list \<times> u64) option option" where
  "HXdeque_to_vecx s dq ok = HXdeque_to_veci s dq False ok"

text \<open>
  \<open>HXdeque_to_vec_strdup\<close> duplicates each string; \<open>dup i p\<close> is what the \<open>i\<close>-th \<^verbatim>\<open>strdup\<close>
  returns. On a failure it releases the duplicates made so far. The result is the vector (\<open>Inr\<close>)
  or the pointers released (\<open>Inl\<close>).
\<close>

partial_function (option) dup_chain ::
  "(nat \<Rightarrow> ptr \<Rightarrow> ptr) \<Rightarrow> dstate \<Rightarrow> ptr \<Rightarrow> nat \<Rightarrow> nat \<Rightarrow> ptr list \<Rightarrow> (ptr list + ptr list) option" where
  "dup_chain dup s iter i cap acc =
     (if iter = None then (if cap \<le> i then None else Some (Inr (acc @ [None])))
      else do {
        n \<leftarrow> deref (nodes s) iter;
        if cap \<le> i then None
        else if dup i (n_ptr n) = None then Some (Inl acc)
        else dup_chain dup s (n_next n) (Suc i) cap (acc @ [dup i (n_ptr n)])
      })"

definition HXdeque_to_vec_strdup ::
  "(nat \<Rightarrow> ptr \<Rightarrow> ptr) \<Rightarrow> dstate \<Rightarrow> ptr \<Rightarrow> bool \<Rightarrow> (ptr list + (ptr list \<times> u64)) option" where
  "HXdeque_to_vec_strdup dup s dq ok = do {
     d \<leftarrow> deref (dqs s) dq;
     if \<not> ok then Some (Inl [])
     else do {
       r \<leftarrow> dup_chain dup s (dq_first d) 0 (vec_cap (dq_items d) True) [];
       case r of Inl fr \<Rightarrow> Some (Inl fr) | Inr v \<Rightarrow> Some (Inr (v, dq_items d))
     }
   }"

section \<open>Representation\<close>

definition hdp :: "(addr \<times> ptr) list \<Rightarrow> ptr \<Rightarrow> ptr" where
  "hdp es n = (case es of [] \<Rightarrow> n | e # _ \<Rightarrow> Some (fst e))"

definition lastp :: "ptr \<Rightarrow> (addr \<times> ptr) list \<Rightarrow> ptr" where
  "lastp p es = (if es = [] then p else Some (fst (last es)))"

lemma hdp_simps [simp]: "hdp [] n = n" "hdp (e # es) n = Some (fst e)"
  by (simp_all add: hdp_def)

lemma hdp_append: "hdp (xs @ ys) n = hdp xs (hdp ys n)"
  by (cases xs) auto

lemma lastp_simps [simp]: "lastp p [] = p" "lastp p (es @ [e]) = Some (fst e)"
  by (simp_all add: lastp_def)

lemma lastp_Cons [simp]: "lastp p (e # es) = lastp (Some (fst e)) es"
  by (simp add: lastp_def)

lemma hdp_None: "hdp es None = None \<longleftrightarrow> es = []"
  by (cases es) auto

lemma lastp_None: "lastp None es = None \<longleftrightarrow> es = []"
  by (simp add: lastp_def)

lemma hdp_in: "hdp es n = Some a \<Longrightarrow> n = Some a \<or> a \<in> fst ` set es"
  by (cases es) auto

lemma lastp_in: "lastp p es = Some a \<Longrightarrow> p = Some a \<or> a \<in> fst ` set es"
  by (cases es rule: rev_cases) auto

fun dseg :: "(addr \<rightharpoonup> HXdeque_node) \<Rightarrow> addr \<Rightarrow> ptr \<Rightarrow> (addr \<times> ptr) list \<Rightarrow> ptr \<Rightarrow> bool" where
  "dseg h q p [] n \<longleftrightarrow> True"
| "dseg h q p (e # es) n \<longleftrightarrow>
     h (fst e) = Some \<lparr>n_next = hdp es n, n_ptr = snd e, n_parent = Some q, n_prev = p\<rparr> \<and>
     dseg h q (Some (fst e)) es n"

definition drep :: "addr \<Rightarrow> dstate \<Rightarrow> (addr \<times> ptr) list \<Rightarrow> bool" where
  "drep q s es \<longleftrightarrow> distinct (map fst es) \<and> dseg (nodes s) q None es None \<and>
     (\<exists>d. dqs s q = Some d \<and> dq_first d = hdp es None \<and> dq_last d = lastp None es \<and>
       dq_items d = of_nat (length es))"

lemma dseg_append:
  "dseg h q p (xs @ ys) n \<longleftrightarrow> dseg h q p xs (hdp ys n) \<and> dseg h q (lastp p xs) ys n"
  by (induction xs arbitrary: p) (auto simp: hdp_append)

lemma dseg_cong:
  "(\<And>a. a \<in> fst ` set es \<Longrightarrow> h' a = h a) \<Longrightarrow> dseg h' q p es n = dseg h q p es n"
  by (induction es arbitrary: p) auto

lemma dseg_upd [simp]: "a \<notin> fst ` set es \<Longrightarrow> dseg (h(a := c)) q p es n = dseg h q p es n"
  by (rule dseg_cong) auto

lemma dseg_dom: "dseg h q p es n \<Longrightarrow> fst ` set es \<subseteq> dom h"
  by (induction es arbitrary: p) auto

text \<open>Redirecting the last successor or the first predecessor of a segment.\<close>

lemma dseg_renext:
  assumes "dseg h q p (xs @ [x]) n" "distinct (map fst (xs @ [x]))" "h (fst x) = Some r"
  shows "dseg (h(fst x \<mapsto> r\<lparr>n_next := m\<rparr>)) q p (xs @ [x]) m"
  using assms by (auto simp: dseg_append)

lemma dseg_reprev:
  assumes "dseg h q p (y # ys) n" "distinct (map fst (y # ys))" "h (fst y) = Some r"
  shows "dseg (h(fst y \<mapsto> r\<lparr>n_prev := p'\<rparr>)) q p' (y # ys) n"
  using assms by (auto simp: dseg_append)

lemma dseg_last: "dseg h q p (xs @ [x]) n \<Longrightarrow> \<exists>r. h (fst x) = Some r"
  by (simp add: dseg_append)

lemma set_node_Some: "nodes s a = Some n \<Longrightarrow>
    set_node s (Some a) f = Some (s\<lparr>nodes := (nodes s)(a \<mapsto> f n)\<rparr>)"
  by (simp add: set_node_def)

lemma set_dq_Some: "dqs s a = Some n \<Longrightarrow>
    set_dq s (Some a) f = Some (s\<lparr>dqs := (dqs s)(a \<mapsto> f n)\<rparr>)"
  by (simp add: set_dq_def)

definition only_at :: "dstate \<Rightarrow> dstate \<Rightarrow> addr set \<Rightarrow> addr \<Rightarrow> bool" where
  "only_at s s' A q \<longleftrightarrow> (\<forall>a. a \<notin> A \<longrightarrow> nodes s' a = nodes s a) \<and> (\<forall>r. r \<noteq> q \<longrightarrow> dqs s' r = dqs s r)"

lemma drop_effect:
  assumes h: "dseg (nodes s) q None (xs @ e # ys) None" "distinct (map fst (xs @ e # ys))"
    and d: "dqs s q = Some d" "dq_first d = hdp (xs @ e # ys) None"
      "dq_last d = lastp None (xs @ e # ys)"
  obtains s' where "HXdeque_drop s (Some q) (Some (fst e)) = Some s'"
    "dseg (nodes s') q None (xs @ ys) None"
    "dqs s' q = Some (d\<lparr>dq_first := hdp (xs @ ys) None, dq_last := lastp None (xs @ ys)\<rparr>)"
    "only_at s s' (fst ` set (xs @ ys)) q"
proof -
  have e: "nodes s (fst e) = Some \<lparr>n_next = hdp ys None, n_ptr = snd e, n_parent = Some q,
      n_prev = lastp None xs\<rparr>"
    and sx: "dseg (nodes s) q None xs (Some (fst e))" and sy: "dseg (nodes s) q (Some (fst e)) ys None"
    using h(1) by (auto simp: dseg_append)
  show thesis
  proof (cases xs rule: rev_cases)
    case Nil
    show thesis
    proof (cases ys)
      case Nil
      then show thesis using \<open>xs = []\<close> e d
        by (intro that [of "s\<lparr>dqs := (dqs s)(q \<mapsto> d\<lparr>dq_first := None, dq_last := None\<rparr>)\<rparr>"])
          (auto simp: HXdeque_drop_def set_dq_Some only_at_def)
    next
      case (Cons y zs)
      obtain r where r: "nodes s (fst y) = Some r" using sy Cons by auto
      have "dseg ((nodes s)(fst y \<mapsto> r\<lparr>n_prev := None\<rparr>)) q None (y # zs) None"
        using dseg_reprev [of "nodes s" q _ y zs None r] sy Cons r h(2) by auto
      then show thesis using \<open>xs = []\<close> e d Cons r
        by (intro that [of "s\<lparr>dqs := (dqs s)(q \<mapsto> d\<lparr>dq_first := Some (fst y)\<rparr>),
              nodes := (nodes s)(fst y \<mapsto> r\<lparr>n_prev := None\<rparr>)\<rparr>"])
          (auto simp: HXdeque_drop_def set_dq_Some set_node_Some only_at_def)
    qed
  next
    case (snoc us x)
    obtain u where u: "nodes s (fst x) = Some u" using sx snoc dseg_last by metis
    have su: "dseg ((nodes s)(fst x \<mapsto> u\<lparr>n_next := m\<rparr>)) q None xs m" for m
      using dseg_renext [of "nodes s" q None us x _ u m] sx snoc u h(2) by auto
    show thesis
    proof (cases ys)
      case Nil
      then show thesis using snoc e d u su [of None]
        by (intro that [of "s\<lparr>nodes := (nodes s)(fst x \<mapsto> u\<lparr>n_next := None\<rparr>),
              dqs := (dqs s)(q \<mapsto> d\<lparr>dq_last := Some (fst x)\<rparr>)\<rparr>"])
          (auto simp: HXdeque_drop_def set_dq_Some set_node_Some only_at_def hdp_append)
    next
      case (Cons y zs)
      let ?h = "(nodes s)(fst x \<mapsto> u\<lparr>n_next := Some (fst y)\<rparr>)"
      have ne: "fst x \<notin> fst ` set ys" "fst y \<notin> fst ` set xs"
        using h(2) snoc Cons by (auto simp: image_iff)
      obtain r where r: "nodes s (fst y) = Some r" using sy Cons by auto
      then have r': "?h (fst y) = Some r" using ne Cons by auto
      have "dseg ?h q (Some (fst e)) (y # zs) None" using sy Cons ne by auto
      then have "dseg (?h(fst y \<mapsto> r\<lparr>n_prev := Some (fst x)\<rparr>)) q (lastp None xs) ys None"
        using dseg_reprev [of ?h q "Some (fst e)" y zs None r "Some (fst x)"] r' h(2) snoc Cons by simp
      moreover have "dseg (?h(fst y \<mapsto> r\<lparr>n_prev := Some (fst x)\<rparr>)) q None xs (hdp ys None)"
        using su [of "Some (fst y)"] ne Cons by simp
      ultimately have "dseg (?h(fst y \<mapsto> r\<lparr>n_prev := Some (fst x)\<rparr>)) q None (xs @ ys) None"
        using dseg_append by blast
      then show thesis using snoc e d Cons r' u
        by (intro that [of "s\<lparr>nodes := ?h(fst y \<mapsto> r\<lparr>n_prev := Some (fst x)\<rparr>)\<rparr>"])
          (auto simp: HXdeque_drop_def set_dq_Some set_node_Some only_at_def hdp_append lastp_def)
    qed
  qed
qed

section \<open>The operations on a represented list\<close>

lemma drepD:
  assumes "drep q s es"
  obtains d where "distinct (map fst es)" "dseg (nodes s) q None es None" "dqs s q = Some d"
    "dq_first d = hdp es None" "dq_last d = lastp None es" "dq_items d = of_nat (length es)"
  using assms by (auto simp: drep_def)

lemma deque_init:
  "HXdeque_init s (Some q) = (Some q, s') \<Longrightarrow> drep q s' []"
  by (auto simp: HXdeque_init_def drep_def)

lemma deque_push:
  assumes r: "drep q s es" and f: "nodes s a = None"
  shows "\<exists>s'. HXdeque_push s (Some q) p (Some a) = Some (Some a, s') \<and> drep q s' (es @ [(a, p)]) \<and>
    only_at s s' (insert a (fst ` set es)) q"
proof -
  obtain d where d: "distinct (map fst es)" "dseg (nodes s) q None es None" "dqs s q = Some d"
    "dq_first d = hdp es None" "dq_last d = lastp None es" "dq_items d = of_nat (length es)"
    using drepD [OF r] .
  have a: "a \<notin> fst ` set es" using dseg_dom [OF d(2)] f by auto
  let ?n = "\<lparr>n_next = None, n_ptr = p, n_parent = Some q, n_prev = lastp None es\<rparr>"
  show ?thesis
  proof (cases es rule: rev_cases)
    case Nil
    with d show ?thesis
      by (auto simp: HXdeque_push_def set_dq_Some drep_def only_at_def)
  next
    case (snoc us x)
    obtain u where u: "nodes s (fst x) = Some u" using d(2) snoc dseg_last by metis
    let ?h = "(nodes s)(a \<mapsto> ?n)"
    have u': "?h (fst x) = Some u" using u a snoc by auto
    have "dseg ?h q None es None" using d(2) a by simp
    then have "dseg (?h(fst x \<mapsto> u\<lparr>n_next := Some a\<rparr>)) q None es (hdp [(a, p)] None)"
      using dseg_renext [of ?h q None us x None u] snoc d(1) u' by simp
    moreover have "dseg (?h(fst x \<mapsto> u\<lparr>n_next := Some a\<rparr>)) q (lastp None es) [(a, p)] None"
      using a snoc by auto
    ultimately have "dseg (?h(fst x \<mapsto> u\<lparr>n_next := Some a\<rparr>)) q None (es @ [(a, p)]) None"
      using dseg_append by blast
    then show ?thesis using d a snoc u' hdp_None [of es]
      by (auto simp: HXdeque_push_def set_dq_Some set_node_Some drep_def only_at_def hdp_append
          lastp_def)
  qed
qed

lemma deque_unshift:
  assumes r: "drep q s es" and f: "nodes s a = None"
  shows "\<exists>s'. HXdeque_unshift s (Some q) p (Some a) = Some (Some a, s') \<and> drep q s' ((a, p) # es) \<and>
    only_at s s' (insert a (fst ` set es)) q"
proof -
  obtain d where d: "distinct (map fst es)" "dseg (nodes s) q None es None" "dqs s q = Some d"
    "dq_first d = hdp es None" "dq_last d = lastp None es" "dq_items d = of_nat (length es)"
    using drepD [OF r] .
  have a: "a \<notin> fst ` set es" using dseg_dom [OF d(2)] f by auto
  show ?thesis
  proof (cases es)
    case Nil
    with d show ?thesis using deque_push [OF r f, of p] by (simp add: HXdeque_unshift_def)
  next
    case (Cons y ys)
    obtain u where u: "nodes s (fst y) = Some u" using d(2) Cons by auto
    let ?h = "(nodes s)(a \<mapsto> \<lparr>n_next = Some (fst y), n_ptr = p, n_parent = Some q, n_prev = None\<rparr>)"
    have u': "?h (fst y) = Some u" using u a Cons by auto
    have "dseg ?h q None es None" using d(2) a by simp
    then have "dseg (?h(fst y \<mapsto> u\<lparr>n_prev := Some a\<rparr>)) q (Some a) es None"
      using dseg_reprev [of ?h q None y ys None u] Cons d(1) u' by simp
    then have "dseg (?h(fst y \<mapsto> u\<lparr>n_prev := Some a\<rparr>)) q None ((a, p) # es) None"
      using a Cons by auto
    then show ?thesis using d a Cons u'
      by (auto simp: HXdeque_unshift_def set_dq_Some set_node_Some drep_def only_at_def)
  qed
qed

lemma deque_nomem:
  assumes "drep q s es"
  shows "HXdeque_push s (Some q) p None = Some (None, s)"
    "HXdeque_unshift s (Some q) p None = Some (None, s)"
  using assms by (auto simp: HXdeque_push_def HXdeque_unshift_def drep_def)

lemma deque_del:
  assumes r: "drep q s (xs @ e # ys)"
  shows "\<exists>s'. HXdeque_del s (Some (fst e)) = Some (snd e, s') \<and> drep q s' (xs @ ys) \<and>
    nodes s' (fst e) = None \<and> only_at s s' (fst ` set (xs @ e # ys)) q"
proof -
  obtain d where d: "distinct (map fst (xs @ e # ys))" "dseg (nodes s) q None (xs @ e # ys) None"
    "dqs s q = Some d" "dq_first d = hdp (xs @ e # ys) None" "dq_last d = lastp None (xs @ e # ys)"
    "dq_items d = of_nat (length (xs @ e # ys))"
    using drepD [OF r] .
  obtain s' where s': "HXdeque_drop s (Some q) (Some (fst e)) = Some s'"
    "dseg (nodes s') q None (xs @ ys) None"
    "dqs s' q = Some (d\<lparr>dq_first := hdp (xs @ ys) None, dq_last := lastp None (xs @ ys)\<rparr>)"
    "only_at s s' (fst ` set (xs @ ys)) q"
    using drop_effect [OF d(2,1,3,4,5)] .
  have ne: "fst e \<notin> fst ` set (xs @ ys)" using d(1) by auto
  have e: "nodes s (fst e) = Some \<lparr>n_next = hdp ys None, n_ptr = snd e, n_parent = Some q,
      n_prev = lastp None xs\<rparr>"
    using d(2) by (simp add: dseg_append)
  then have e': "nodes s' (fst e) = nodes s (fst e)" using s'(4) ne by (auto simp: only_at_def)
  let ?d = "d\<lparr>dq_first := hdp (xs @ ys) None, dq_last := lastp None (xs @ ys),
    dq_items := dq_items d - 1\<rparr>"
  let ?s = "s'\<lparr>dqs := (dqs s')(q \<mapsto> ?d), nodes := (nodes s')(fst e := None)\<rparr>"
  have "HXdeque_del s (Some (fst e)) = Some (snd e, ?s)"
    using s'(1,3) e e' by (simp add: HXdeque_del_def set_dq_Some free_node_def)
  moreover have "drep q ?s (xs @ ys)"
  proof -
    have "distinct (map fst (xs @ ys))" using d(1) by simp
    moreover have "dq_items ?d = of_nat (length (xs @ ys))" using d(6) by simp
    moreover have "dseg (nodes ?s) q None (xs @ ys) None" using s'(2) ne by simp
    ultimately show ?thesis by (simp add: drep_def)
  qed
  moreover have "only_at s ?s (fst ` set (xs @ e # ys)) q"
    using s'(4) by (simp add: only_at_def)
  moreover have "nodes ?s (fst e) = None" by simp
  ultimately show ?thesis by blast
qed

lemma deque_pop:
  assumes r: "drep q s (es @ [e])"
  shows "\<exists>s'. HXdeque_pop s (Some q) = Some (snd e, s') \<and> drep q s' es \<and>
    nodes s' (fst e) = None \<and> only_at s s' (fst ` set (es @ [e])) q"
proof -
  have "HXdeque_pop s (Some q) = HXdeque_del s (Some (fst e))"
    using r by (auto simp: HXdeque_pop_def drep_def)
  then show ?thesis using deque_del [of q s es e "[]"] r by simp
qed

lemma deque_shift:
  assumes r: "drep q s (e # es)"
  shows "\<exists>s'. HXdeque_shift s (Some q) = Some (snd e, s') \<and> drep q s' es \<and>
    nodes s' (fst e) = None \<and> only_at s s' (fst ` set (e # es)) q"
proof -
  have "HXdeque_shift s (Some q) = HXdeque_del s (Some (fst e))"
    using r by (auto simp: HXdeque_shift_def drep_def)
  then show ?thesis using deque_del [of q s "[]" e es] r by simp
qed

lemma deque_empty:
  assumes "drep q s []"
  shows "HXdeque_pop s (Some q) = Some (None, s)" "HXdeque_shift s (Some q) = Some (None, s)"
  using assms by (auto simp: HXdeque_pop_def HXdeque_shift_def elim!: drepD)

definition dfresh :: "dstate \<Rightarrow> addr \<times> ptr \<Rightarrow> bool" where
  "dfresh s e \<longleftrightarrow> nodes s (fst e) = None"

definition dpush :: "addr \<Rightarrow> dstate \<Rightarrow> addr \<times> ptr \<Rightarrow> dstate option" where
  "dpush q s e = map_option snd (HXdeque_push s (Some q) (snd e) (Some (fst e)))"

definition dunshift :: "addr \<Rightarrow> dstate \<Rightarrow> addr \<times> ptr \<Rightarrow> dstate option" where
  "dunshift q s e = map_option snd (HXdeque_unshift s (Some q) (snd e) (Some (fst e)))"

lemma dfresh_step:
  assumes r: "drep q s es" and o: "only_at s s' (insert a (fst ` set es)) q"
    and e: "dfresh s e'" "a \<noteq> fst e'"
  shows "dfresh s' e'"
proof -
  have "fst e' \<notin> fst ` set es"
    using r e(1) dseg_dom [of "nodes s" q None es None] by (auto simp: drep_def dfresh_def)
  then show ?thesis using o e by (auto simp: only_at_def dfresh_def)
qed

interpretation deque: dq_contract "drep q" dfresh snd None "dpush q" "dunshift q"
  "\<lambda>s. HXdeque_pop s (Some q)" "\<lambda>s. HXdeque_shift s (Some q)" "\<lambda>e e'. fst e \<noteq> fst e'" for q
proof unfold_locales
  show "\<exists>s'. dpush q s e = Some s' \<and> drep q s' (es @ [e]) \<and>
      (\<forall>e'. dfresh s e' \<longrightarrow> fst e \<noteq> fst e' \<longrightarrow> dfresh s' e')"
    if "drep q s es" "dfresh s e" for s es e
    using deque_push [OF that(1), of "fst e" "snd e"] that dfresh_step [OF that(1)]
    by (force simp: dpush_def dfresh_def)
  show "\<exists>s'. dunshift q s e = Some s' \<and> drep q s' (e # es) \<and>
      (\<forall>e'. dfresh s e' \<longrightarrow> fst e \<noteq> fst e' \<longrightarrow> dfresh s' e')"
    if "drep q s es" "dfresh s e" for s es e
    using deque_unshift [OF that(1), of "fst e" "snd e"] that dfresh_step [OF that(1)]
    by (force simp: dunshift_def dfresh_def)
qed (use deque_pop deque_shift deque_empty in blast)+

section \<open>Walks over a represented list\<close>

lemma vec_chain_step [simp]:
  "vec_chain s None cap = Some []"
  "nodes s a = Some n \<Longrightarrow> vec_chain s (Some a) cap =
    (if cap = 0 then None else map_option ((#) (n_ptr n)) (vec_chain s (n_next n) (cap - 1)))"
  by (subst vec_chain.simps; cases "vec_chain s (n_next n) (cap - 1)"; simp)+

lemma vec_chain_dseg:
  "dseg (nodes s) q p es None \<Longrightarrow> length es \<le> cap \<Longrightarrow>
    vec_chain s (hdp es None) cap = Some (map snd es)"
proof (induction es arbitrary: p cap)
  case (Cons e es)
  then show ?case using Cons.IH [of "Some (fst e)" "cap - 1"] by auto
qed simp

lemma vec_chain_overflow:
  "dseg (nodes s) q p es None \<Longrightarrow> cap < length es \<Longrightarrow> vec_chain s (hdp es None) cap = None"
proof (induction es arbitrary: p cap)
  case (Cons e es)
  then show ?case using Cons.IH [of "Some (fst e)" "cap - 1"] by auto
qed simp

lemma find_chain_dseg:
  "dseg (nodes s) q p es None \<Longrightarrow>
    find_chain s (hdp es None) v = Some (hdp (dropWhile (\<lambda>e. snd e \<noteq> v) es) None)"
  by (induction es arbitrary: p) (auto simp: find_chain.simps)

lemma free_chain_dseg:
  assumes "dseg (nodes s) q p es None" "distinct (map fst es)"
  shows "free_chain s (hdp es None) =
    Some (map snd es, s\<lparr>nodes := (\<lambda>a. if a \<in> fst ` set es then None else nodes s a)\<rparr>)"
  using assms
proof (induction es arbitrary: p s)
  case (Cons e es)
  let ?s = "free_node s (fst e)"
  have "dseg (nodes ?s) q (Some (fst e)) es None" using Cons.prems by (auto simp: free_node_def)
  from Cons.IH [OF this] Cons.prems show ?case
    by (subst free_chain.simps) (auto simp: free_node_def fun_eq_iff)
qed (simp add: free_chain.simps)

lemma dup_chain_dseg:
  assumes "dseg (nodes s) q p es None" "length es + i < cap"
  shows "dup_chain dup s (hdp es None) i cap acc =
    (let ds = map (\<lambda>j. dup (i + j) (snd (es ! j))) [0..<length es] in
     Some (if None \<in> set ds then Inl (acc @ takeWhile (\<lambda>d. d \<noteq> None) ds) else Inr (acc @ ds @ [None])))"
  using assms
proof (induction es arbitrary: p i acc)
  case (Cons e es)
  have up: "map (\<lambda>j. dup (i + j) (snd ((e # es) ! j))) [0..<length (e # es)] =
      dup i (snd e) # map (\<lambda>j. dup (Suc i + j) (snd (es ! j))) [0..<length es]"
    by (simp add: upt_conv_Cons del: upt_Suc flip: map_Suc_upt)
  show ?case
  proof (cases "dup i (snd e)")
    case None
    then show ?thesis unfolding up using Cons.prems by (subst dup_chain.simps) simp
  next
    case (Some d)
    then show ?thesis
      unfolding up using Cons.prems Cons.IH [of "Some (fst e)" "Suc i" "acc @ [Some d]"]
      by (subst dup_chain.simps) (simp add: Let_def)
  qed
qed (simp add: dup_chain.simps)

lemma vec_cap_exact:
  "n + of_bool b < 2 ^ 61 \<Longrightarrow> vec_cap (of_nat n) b = n + of_bool b"
  by (cases b) (simp_all add: vec_cap_def unat_word_ariths unat_of_nat take_bit_nat_eq_self)

section \<open>Properties\<close>

text \<open>a deque is a queue and a stack, for any number of fresh nodes and any data pointers; its
  counter is exact and the emptied deque answers \<^verbatim>\<open>NULL\<close>.\<close>

theorem HXdeque_fifo_lifo:
  assumes "drep q s []" and "distinct (map fst es)" and "\<forall>e \<in> set es. nodes s (fst e) = None"
  shows "\<exists>s1 s2 s3. add_all (dpush q) s es = Some s1 \<and> drep q s1 es \<and>
    take_n (\<lambda>s. HXdeque_shift s (Some q)) (length es) s1 = Some (map snd es, s2) \<and> drep q s2 [] \<and>
    HXdeque_shift s2 (Some q) = Some (None, s2) \<and>
    take_n (\<lambda>s. HXdeque_pop s (Some q)) (length es) s1 = Some (rev (map snd es), s3) \<and> drep q s3 [] \<and>
    HXdeque_pop s3 (Some q) = Some (None, s3)"
proof -
  have f: "\<forall>e \<in> set es. dfresh s e" "sorted_wrt (\<lambda>e e'. fst e \<noteq> fst e') es"
    using assms(2,3) by (auto simp: dfresh_def sorted_wrt_map simp flip: sorted_wrt_neq)
  show ?thesis
    using deque.push_all [OF assms(1) f] deque.fifo [OF assms(1) f] deque.lifo [OF assms(1) f]
    by fastforce
qed

definition one_deque :: dstate where
  "one_deque = \<lparr>nodes = Map.empty,
     dqs = [7 \<mapsto> \<lparr>dq_first = None, dq_ptr = None, dq_last = None, dq_items = 0\<rparr>]\<rparr>"

lemma one_deque_rep: "drep 7 one_deque []"
  by (simp add: drep_def one_deque_def)

theorem HXdeque_fifo_lifo_witness:
  "\<exists>s1 s2 s3. add_all (dpush 7) one_deque [(1, Some 10), (2, None)] = Some s1 \<and>
    drep 7 s1 [(1, Some 10), (2, None)] \<and>
    take_n (\<lambda>s. HXdeque_shift s (Some 7)) 2 s1 = Some ([Some 10, None], s2) \<and> drep 7 s2 [] \<and>
    HXdeque_shift s2 (Some 7) = Some (None, s2) \<and>
    take_n (\<lambda>s. HXdeque_pop s (Some 7)) 2 s1 = Some ([None, Some 10], s3) \<and> drep 7 s3 [] \<and>
    HXdeque_pop s3 (Some 7) = Some (None, s3)"
  using HXdeque_fifo_lifo [OF one_deque_rep, of "[(1, Some 10), (2, None)]"]
  by (simp add: one_deque_def numeral_2_eq_2)

text \<open>\<open>HXdeque_to_vec\<close> and \<open>HXdeque_to_vecx\<close> return the data pointers in list order, with and
  without the closing \<^verbatim>\<open>NULL\<close>, never write behind the block they allocate, and report the exact
  count; a failed allocation gives \<^verbatim>\<open>NULL\<close>.\<close>

theorem HXdeque_to_vec_exact:
  assumes "drep q s es" and "length es < 2 ^ 61 - 1"
  shows "HXdeque_to_vec s (Some q) True = Some (Some (map snd es @ [None], of_nat (length es))) \<and>
    HXdeque_to_vecx s (Some q) True = Some (Some (map snd es, of_nat (length es))) \<and>
    HXdeque_to_vec s (Some q) False = Some None"
  using assms vec_cap_exact [of "length es" True] vec_cap_exact [of "length es" False]
  by (auto simp: HXdeque_to_vec_def HXdeque_to_vecx_def HXdeque_to_veci_def drep_def
      vec_chain_dseg elim!: drepD)

definition abc_deque :: dstate where
  "abc_deque = \<lparr>nodes = [1 \<mapsto> \<lparr>n_next = Some 2, n_ptr = Some 11, n_parent = Some 7, n_prev = None\<rparr>,
      2 \<mapsto> \<lparr>n_next = Some 3, n_ptr = Some 12, n_parent = Some 7, n_prev = Some 1\<rparr>,
      3 \<mapsto> \<lparr>n_next = None, n_ptr = Some 13, n_parent = Some 7, n_prev = Some 2\<rparr>],
     dqs = [7 \<mapsto> \<lparr>dq_first = Some 1, dq_ptr = None, dq_last = Some 3, dq_items = 3\<rparr>]\<rparr>"

definition abc :: "(addr \<times> ptr) list" where
  "abc = [(1, Some 11), (2, Some 12), (3, Some 13)]"

lemma abc_rep: "drep 7 abc_deque abc"
  by (simp add: drep_def abc_deque_def abc_def)

theorem HXdeque_to_vec_exact_witness:
  "HXdeque_to_vec abc_deque (Some 7) True = Some (Some ([Some 11, Some 12, Some 13, None], 3)) \<and>
    HXdeque_to_vecx abc_deque (Some 7) True = Some (Some ([Some 11, Some 12, Some 13], 3)) \<and>
    HXdeque_to_vec abc_deque (Some 7) False = Some None"
  using HXdeque_to_vec_exact [OF abc_rep] by (simp add: abc_def)

text \<open>\<open>HXdeque_find\<close> returns the first node that carries the data pointer, \<open>HXdeque_get\<close> its data,
  and deleting that node takes exactly it out of the list and releases its cell; a pointer the list
  does not hold is reported as \<^verbatim>\<open>NULL\<close>.\<close>

theorem HXdeque_find_del:
  assumes "drep q s es"
  shows "if v \<in> snd ` set es
    then \<exists>a s'. HXdeque_find s (Some q) v = Some (Some a) \<and> HXdeque_get s (Some q) v = Some v \<and>
      HXdeque_del s (Some a) = Some (v, s') \<and> nodes s' a = None \<and>
      drep q s' (takeWhile (\<lambda>e. snd e \<noteq> v) es @ tl (dropWhile (\<lambda>e. snd e \<noteq> v) es))
    else HXdeque_find s (Some q) v = Some None \<and> HXdeque_get s (Some q) v = Some None"
proof (cases "dropWhile (\<lambda>e. snd e \<noteq> v) es")
  case Nil
  then have "v \<notin> snd ` set es" by (auto simp: dropWhile_eq_Nil_conv)
  moreover have "find_chain s (hdp es None) v = Some None"
    using find_chain_dseg [of s q None es v] assms Nil by (simp add: drep_def)
  ultimately show ?thesis using assms
    by (auto simp: drep_def HXdeque_find_def HXdeque_get_def)
next
  case (Cons e zs)
  let ?xs = "takeWhile (\<lambda>e. snd e \<noteq> v) es"
  have es: "es = ?xs @ e # zs" using Cons by (metis takeWhile_dropWhile_id)
  have e: "snd e = v" using dropWhile_eq_Cons_hd [OF Cons] by simp
  have "v \<in> snd ` set es" using es e by (metis in_set_conv_decomp image_eqI)
  moreover have "HXdeque_find s (Some q) v = Some (Some (fst e))"
    using assms Cons by (auto simp: drep_def HXdeque_find_def find_chain_dseg)
  moreover have "nodes s (fst e) \<noteq> None \<and> (\<forall>n. nodes s (fst e) = Some n \<longrightarrow> n_ptr n = v)"
  proof -
    have "dseg (nodes s) q None (?xs @ e # zs) None" using assms es by (simp add: drep_def)
    then show ?thesis using e by (simp add: dseg_append)
  qed
  then have "HXdeque_get s (Some q) v = Some v"
    using assms Cons by (auto simp: drep_def HXdeque_get_def find_chain_dseg)
  moreover obtain s' where "HXdeque_del s (Some (fst e)) = Some (v, s')" "drep q s' (?xs @ zs)"
    "nodes s' (fst e) = None"
    using deque_del [of q s ?xs e zs] assms es e by metis
  ultimately show ?thesis using Cons by auto
qed

theorem HXdeque_find_del_witness:
  "\<exists>a s'. HXdeque_find abc_deque (Some 7) (Some 12) = Some (Some a) \<and>
    HXdeque_get abc_deque (Some 7) (Some 12) = Some (Some 12) \<and>
    HXdeque_del abc_deque (Some a) = Some (Some 12, s') \<and> nodes s' a = None \<and>
    drep 7 s' [(1, Some 11), (3, Some 13)]"
  using HXdeque_find_del [OF abc_rep, of "Some 12"] by (simp add: abc_def)

text \<open>\<open>HXdeque_free\<close> and \<open>HXdeque_genocide2\<close> release every node of the list and the root, nothing
  else, and the latter passes each data pointer to the callback once, in list order.\<close>

theorem HXdeque_free_all:
  assumes "drep q s es"
  shows "let s' = s\<lparr>nodes := (\<lambda>a. if a \<in> fst ` set es then None else nodes s a),
      dqs := (dqs s)(q := None)\<rparr> in
    HXdeque_free s (Some q) = Some s' \<and> HXdeque_genocide2 s (Some q) = Some (map snd es, s')"
proof -
  have "distinct (map fst es)" "dseg (nodes s) q None es None" using assms by (auto simp: drep_def)
  from free_chain_dseg [OF this(2,1)] show ?thesis
    using assms by (auto simp: drep_def HXdeque_free_def HXdeque_genocide2_def free_dq_def)
qed

theorem HXdeque_free_all_witness:
  "HXdeque_genocide2 abc_deque (Some 7) = Some ([Some 11, Some 12, Some 13],
     \<lparr>nodes = (\<lambda>a. if a \<in> {1, 2, 3} then None else nodes abc_deque a), dqs = (dqs abc_deque)(7 := None)\<rparr>)"
proof -
  have "fst ` set abc = {1, 2, 3}" "map snd abc = [Some 11, Some 12, Some 13]"
    by (simp_all add: abc_def)
  then show ?thesis using HXdeque_free_all [OF abc_rep] by (simp add: Let_def abc_deque_def)
qed

text \<open>Copying strings: one failing duplication releases exactly the copies made before it.\<close>

text \<open>\<open>HXdeque_to_vec_strdup\<close> returns one duplicate per node, in list order and closed by
  \<^verbatim>\<open>NULL\<close>; when a duplication fails it returns nothing and has released exactly the duplicates
  made before it.\<close>

theorem HXdeque_to_vec_strdup_exact:
  assumes "drep q s es" and "length es < 2 ^ 61 - 1"
  shows "HXdeque_to_vec_strdup dup s (Some q) True =
    (let ds = map (\<lambda>j. dup j (snd (es ! j))) [0..<length es] in
     Some (if None \<in> set ds then Inl (takeWhile (\<lambda>d. d \<noteq> None) ds)
           else Inr (ds @ [None], of_nat (length es))))"
proof -
  have "dseg (nodes s) q None es None" "length es + 0 < vec_cap (of_nat (length es)) True"
    using assms vec_cap_exact [of "length es" True] by (auto simp: drep_def)
  from dup_chain_dseg [OF this, of dup "[]"] show ?thesis
    using assms(1) by (auto simp: HXdeque_to_vec_strdup_def drep_def Let_def)
qed

theorem HXdeque_to_vec_strdup_exact_witness:
  "HXdeque_to_vec_strdup (\<lambda>i p. map_option (\<lambda>a. a + 100) p) abc_deque (Some 7) True =
     Some (Inr ([Some 111, Some 112, Some 113, None], 3)) \<and>
   HXdeque_to_vec_strdup (\<lambda>i p. if i = 2 then None else p) abc_deque (Some 7) True =
     Some (Inl [Some 11, Some 12])"
proof -
  have "[0..<3] = [0, 1, 2 :: nat]" by (simp add: upt_rec)
  then show ?thesis
    using HXdeque_to_vec_strdup_exact [OF abc_rep] by (simp add: abc_def Let_def)
qed

section \<open>Moving a node\<close>

lemma vec_chain_through:
  "dseg (nodes s) q p es n \<Longrightarrow> length es \<le> cap \<Longrightarrow>
    vec_chain s (hdp es n) cap = map_option ((@) (map snd es)) (vec_chain s n (cap - length es))"
proof (induction es arbitrary: p cap)
  case (Cons e es)
  then show ?case using Cons.IH [of "Some (fst e)" "cap - 1"]
    by (auto simp: option.map_comp comp_def)
qed (simp add: map_option_case split: option.split)

lemma add_effect:
  assumes h: "dseg (nodes s) q None (us @ f # vs) None" "distinct (map fst (us @ f # vs))"
    and e: "nodes s a = Some n" "a \<notin> fst ` set (us @ f # vs)"
    and d: "dqs s q = Some d" "dq_last d = lastp None (us @ f # vs)"
  obtains s' where "HXdeque_add s (Some (fst f)) (Some a) = Some s'"
    "dseg (nodes s') q None (us @ [f]) (Some a)"
    "nodes s' a = Some \<lparr>n_next = hdp vs None, n_ptr = n_ptr n, n_parent = Some q, n_prev = Some (fst f)\<rparr>"
    "dseg (nodes s') q (Some (fst f)) vs None"
    "dqs s' q = Some (d\<lparr>dq_last := (if vs = [] then Some a else dq_last d)\<rparr>)"
proof -
  let ?f = "\<lparr>n_next = hdp vs None, n_ptr = snd f, n_parent = Some q, n_prev = lastp None us\<rparr>"
  let ?n = "n\<lparr>n_next := hdp vs None, n_prev := Some (fst f), n_parent := Some q\<rparr>"
  have f: "nodes s (fst f) = Some ?f" using h(1) by (simp add: dseg_append)
  let ?h = "(nodes s)(fst f \<mapsto> ?f\<lparr>n_next := Some a\<rparr>, a \<mapsto> ?n)"
  let ?s = "s\<lparr>nodes := ?h, dqs := (dqs s)(q \<mapsto> d\<lparr>dq_last := (if vs = [] then Some a else dq_last d)\<rparr>)\<rparr>"
  have af: "a \<noteq> fst f" "fst f \<notin> fst ` set us" "fst f \<notin> fst ` set vs"
    "a \<notin> fst ` set us" "a \<notin> fst ` set vs" using e h(2) by auto
  have last: "dq_last d = Some (fst f) \<longleftrightarrow> vs = []"
    using d(2) af(3) by (cases vs rule: rev_cases) (auto simp: lastp_def)
  have dd: "d\<lparr>dq_last := dq_last d\<rparr> = d" by simp
  have "HXdeque_add s (Some (fst f)) (Some a) = Some ?s"
    using f e d(1) af last dd
    by (auto simp: HXdeque_add_def set_node_Some set_dq_Some Let_def fun_upd_twist fun_upd_idem)
  moreover have "dseg ?h q None (us @ [f]) (Some a)" "dseg ?h q (Some (fst f)) vs None"
    using h(1) af by (auto simp: dseg_append)
  ultimately show thesis using that [of ?s] by simp
qed

text \<open>what \<open>HXdeque_move\<close> does: read forwards, the node now stands right behind its target, nothing
  is lost and the counter is unchanged; behind the last node the whole list is consistent. Before any
  other node the list is not: the follower of the moved node still names the target as its
  predecessor.\<close>

theorem HXdeque_move_effect:
  assumes r: "drep q s (xs @ e # ys)" and t: "xs @ ys = us @ f # vs"
    and b: "length (xs @ e # ys) < 2 ^ 61 - 1"
  shows "\<exists>s'. HXdeque_move s (Some (fst e)) (Some (fst f)) = Some s' \<and>
    HXdeque_to_vec s' (Some q) True =
      Some (Some (map snd (us @ f # e # vs) @ [None], of_nat (length (xs @ e # ys)))) \<and>
    (vs = [] \<longrightarrow> drep q s' (us @ [f, e])) \<and>
    (\<forall>z zs. vs = z # zs \<longrightarrow> map_option n_prev (nodes s' (fst z)) = Some (Some (fst f)))"
proof -
  obtain d where d: "distinct (map fst (xs @ e # ys))" "dseg (nodes s) q None (xs @ e # ys) None"
    "dqs s q = Some d" "dq_first d = hdp (xs @ e # ys) None" "dq_last d = lastp None (xs @ e # ys)"
    "dq_items d = of_nat (length (xs @ e # ys))"
    using drepD [OF r] .
  obtain s1 where s1: "HXdeque_drop s (Some q) (Some (fst e)) = Some s1"
    "dseg (nodes s1) q None (us @ f # vs) None"
    "dqs s1 q = Some (d\<lparr>dq_first := hdp (us @ f # vs) None, dq_last := lastp None (us @ f # vs)\<rparr>)"
    "only_at s s1 (fst ` set (us @ f # vs)) q"
    using drop_effect [OF d(2,1,3,4,5)] unfolding t .
  have ne: "fst e \<notin> fst ` set (us @ f # vs)" "distinct (map fst (us @ f # vs))"
    using d(1) unfolding t [symmetric] by auto
  have e: "nodes s (fst e) = Some \<lparr>n_next = hdp ys None, n_ptr = snd e, n_parent = Some q,
      n_prev = lastp None xs\<rparr>"
    using d(2) by (simp add: dseg_append)
  then have e1: "nodes s1 (fst e) = Some \<lparr>n_next = hdp ys None, n_ptr = snd e, n_parent = Some q,
      n_prev = lastp None xs\<rparr>" using s1(4) ne(1) by (auto simp: only_at_def)
  obtain s' where s': "HXdeque_add s1 (Some (fst f)) (Some (fst e)) = Some s'"
    "dseg (nodes s') q None (us @ [f]) (Some (fst e))"
    "nodes s' (fst e) = Some \<lparr>n_next = hdp vs None, n_ptr = snd e, n_parent = Some q, n_prev = Some (fst f)\<rparr>"
    "dseg (nodes s') q (Some (fst f)) vs None"
    "dqs s' q = Some (d\<lparr>dq_first := hdp (us @ f # vs) None,
       dq_last := (if vs = [] then Some (fst e) else lastp None (us @ f # vs))\<rparr>)"
    using add_effect [OF s1(2) ne(2) e1 ne(1) s1(3)] by force
  have m: "HXdeque_move s (Some (fst e)) (Some (fst f)) = Some s'"
    using e s1(1) s'(1) by (simp add: HXdeque_move_def)
  have len: "length (xs @ e # ys) = length us + length vs + 2"
    using arg_cong [OF t, of length] by simp
  let ?cap = "vec_cap (of_nat (length (xs @ e # ys))) True"
  have cap: "?cap = length us + length vs + 3" 
    using vec_cap_exact [of "length (xs @ e # ys)" True] b unfolding len by simp
  have "vec_chain s' (hdp (us @ [f]) (Some (fst e))) ?cap = Some (map snd (us @ f # e # vs))"
    using vec_chain_through [OF s'(2), of ?cap] vec_chain_dseg [OF s'(4)] s'(3) cap by simp
  then have v: "HXdeque_to_vec s' (Some q) True =
      Some (Some (map snd (us @ f # e # vs) @ [None], of_nat (length (xs @ e # ys))))"
    using s'(5) d(6) cap
    by (simp add: HXdeque_to_vec_def HXdeque_to_veci_def hdp_append)
  have items: "dq_items d = of_nat (length us + length vs + 2)" using d(6) unfolding len .
  have "drep q s' (us @ [f, e])" if "vs = []"
    using that s'(2,3,5) items ne by (auto simp: drep_def dseg_append hdp_append lastp_def)
  moreover have "map_option n_prev (nodes s' (fst z)) = Some (Some (fst f))" if "vs = z # zs" for z zs
    using that s'(4) by simp
  ultimately show ?thesis using m v by blast
qed

theorem HXdeque_move_effect_witness:
  "\<exists>s'. HXdeque_move abc_deque (Some 1) (Some 2) = Some s' \<and>
    HXdeque_to_vec s' (Some 7) True = Some (Some ([Some 12, Some 11, Some 13, None], 3)) \<and>
    map_option n_prev (nodes s' 3) = Some (Some 2)"
proof -
  have "drep 7 abc_deque ([] @ (1, Some 11) # [(2, Some 12), (3, Some 13)])"
    using abc_rep by (simp add: abc_def)
  from HXdeque_move_effect [OF this, of "[]" "(2, Some 12)" "[(3, Some 13)]"] show ?thesis by auto
qed

text \<open>the stale predecessor matters. In the list A, B, C, moving A behind B and popping three
  times hands out C, then B, then \<^verbatim>\<open>NULL\<close>: A is never returned, although its cell is still
  allocated and the counter says that one node is left.\<close>

theorem HXdeque_move_then_pop_skips:
  "\<exists>s1 s2 s3. HXdeque_move abc_deque (Some 1) (Some 2) = Some s1 \<and>
    HXdeque_to_vec s1 (Some 7) True = Some (Some ([Some 12, Some 11, Some 13, None], 3)) \<and>
    HXdeque_pop s1 (Some 7) = Some (Some 13, s2) \<and> HXdeque_pop s2 (Some 7) = Some (Some 12, s3) \<and>
    HXdeque_pop s3 (Some 7) = Some (None, s3) \<and> map_option dq_items (dqs s3 7) = Some 1 \<and>
    map_option n_ptr (nodes s3 1) = Some (Some 11)"
proof -
  obtain s1 where s1: "HXdeque_move abc_deque (Some 1) (Some 2) = Some s1"
    by (simp add: HXdeque_move_def HXdeque_drop_def HXdeque_add_def set_node_def set_dq_def abc_deque_def Let_def)
  then have n: "s1 = \<lparr>nodes = [1 \<mapsto> \<lparr>n_next = Some 3, n_ptr = Some 11, n_parent = Some 7, n_prev = Some 2\<rparr>,
      2 \<mapsto> \<lparr>n_next = Some 1, n_ptr = Some 12, n_parent = Some 7, n_prev = None\<rparr>,
      3 \<mapsto> \<lparr>n_next = None, n_ptr = Some 13, n_parent = Some 7, n_prev = Some 2\<rparr>],
     dqs = [7 \<mapsto> \<lparr>dq_first = Some 2, dq_ptr = None, dq_last = Some 3, dq_items = 3\<rparr>]\<rparr>"
    by (auto simp: HXdeque_move_def HXdeque_drop_def HXdeque_add_def set_node_def set_dq_def
        abc_deque_def fun_eq_iff Let_def)
  have v: "HXdeque_to_vec s1 (Some 7) True = Some (Some ([Some 12, Some 11, Some 13, None], 3))"
    by (simp add: n HXdeque_to_vec_def HXdeque_to_veci_def vec_cap_def Let_def)
  show ?thesis using s1 v
    by (simp add: n HXdeque_pop_def HXdeque_del_def HXdeque_drop_def set_node_def set_dq_def free_node_def
        Let_def)
qed

end
