(* ===== verification/HX_Mc.thy ===== *)
theory HX_Mc
  imports HX_Prelude
begin

text \<open>
  The auto-sizing memory containers of \<^verbatim>\<open>src/mc.c\<close>. A \<^verbatim>\<open>hxmc_t\<close> pointer designates the data
  region of a \<open>memcont\<close>; the model names the container itself, and \<open>None\<close> is \<^verbatim>\<open>NULL\<close>. A
  function that takes \<^verbatim>\<open>hxmc_t **vp\<close> receives what \<^verbatim>\<open>*vp\<close> designates and returns whether its
  result is non-\<^verbatim>\<open>NULL\<close> together with what \<^verbatim>\<open>*vp\<close> designates afterwards.

  \<open>mc_data\<close> holds every byte of the block from the data region on. What \<^verbatim>\<open>malloc\<close> and
  \<^verbatim>\<open>realloc\<close> deliver is an argument: \<open>None\<close> is failure, \<open>Some junk\<close> success, with
  \<open>junk i\<close> the undetermined byte at offset \<open>i\<close>. Sizes are 64-bit words and wrap. A source
  pointer is \<open>None\<close> for \<^verbatim>\<open>NULL\<close> or the bytes readable behind it.
\<close>

section \<open>Containers\<close>

record memcont =
  mc_alloc :: u64
  mc_length :: u64
  mc_id :: u32
  mc_data :: "char list"

type_synonym mem = "(nat \<Rightarrow> char) option"
type_synonym mcres = "(bool \<times> memcont option) option"

definition HXMC_IDENT :: u32 where
  "HXMC_IDENT = 0x200571AF"

text \<open>\<^verbatim>\<open>sizeof(struct memcont)\<close> is 24 and the data region starts at offset 20.\<close>

definition HXmc_request :: "u64 \<Rightarrow> u64" where
  "HXmc_request len = 24 + len + 1"

definition HXmc_check :: "memcont \<Rightarrow> bool" where
  "HXmc_check c \<longleftrightarrow> mc_id c \<noteq> HXMC_IDENT"

definition mc_malloc :: "(nat \<Rightarrow> char) \<Rightarrow> u64 \<Rightarrow> memcont option" where
  "mc_malloc junk req =
     (if unat req < 20 then None
      else Some \<lparr>mc_alloc = 0, mc_length = 0, mc_id = 0, mc_data = map junk [0..<unat req - 20]\<rparr>)"

definition mc_realloc :: "(nat \<Rightarrow> char) \<Rightarrow> memcont \<Rightarrow> u64 \<Rightarrow> memcont option" where
  "mc_realloc junk c req =
     (if unat req < 20 then None
      else Some (c\<lparr>mc_data := take (unat req - 20) (mc_data c) @
        map junk [length (mc_data c)..<unat req - 20]\<rparr>))"

section \<open>Operations\<close>

definition HXmc_memcpy :: "mem \<Rightarrow> memcont option \<Rightarrow> char list option \<Rightarrow> u64 \<Rightarrow> mcres" where
  "HXmc_memcpy mem vp ptr len =
     (let fill = (\<lambda>ctx. case ptr of
          None \<Rightarrow> do {
            d \<leftarrow> wr (mc_data ctx) 0 NUL;
            Some (True, Some (ctx\<lparr>mc_length := 0, mc_data := d\<rparr>))
          }
        | Some src \<Rightarrow> do {
            bs \<leftarrow> rdn src 0 (unat len);
            d \<leftarrow> wrn (mc_data ctx) 0 bs;
            d \<leftarrow> wr d (unat len) NUL;
            Some (True, Some (ctx\<lparr>mc_length := len, mc_data := d\<rparr>))
          })
      in case vp of
        Some ctx \<Rightarrow>
          if HXmc_check ctx then Some (False, vp)
          else if mc_alloc ctx < len then
            (case mem of None \<Rightarrow> Some (False, vp)
             | Some junk \<Rightarrow> do {
                 ctx \<leftarrow> mc_realloc junk ctx (HXmc_request len);
                 fill (ctx\<lparr>mc_alloc := len\<rparr>)
               })
          else fill ctx
      | None \<Rightarrow>
          (case mem of None \<Rightarrow> Some (False, None)
           | Some junk \<Rightarrow> do {
               ctx \<leftarrow> mc_malloc junk (HXmc_request len);
               fill (ctx\<lparr>mc_id := HXMC_IDENT, mc_alloc := len\<rparr>)
             }))"

definition HXmc_meminit :: "mem \<Rightarrow> char list option \<Rightarrow> u64 \<Rightarrow> memcont option option" where
  "HXmc_meminit mem ptr len = do {
     (ok, t) \<leftarrow> HXmc_memcpy mem None ptr len;
     Some (if ok then t else None)
   }"

text \<open>A C string argument is given without its \<open>NUL\<close>; the block that holds it is \<open>s @ [NUL]\<close>.\<close>

definition HXmc_strinit :: "mem \<Rightarrow> mem \<Rightarrow> char list \<Rightarrow> memcont option option" where
  "HXmc_strinit mem1 mem2 s =
     (let z = (of_nat (length s) :: u64) in
      do {
        (ok, t) \<leftarrow> (if z < 23 then HXmc_memcpy mem1 None None 23 else Some (True, None));
        if \<not> ok then Some None
        else do {
          (ok, t) \<leftarrow> HXmc_memcpy mem2 t (Some (s @ [NUL])) z;
          Some (if ok then t else None)
        }
      })"

definition HXmc_free :: "memcont option \<Rightarrow> bool" where
  "HXmc_free vp = (case vp of None \<Rightarrow> False | Some ctx \<Rightarrow> \<not> HXmc_check ctx)"

definition HXmc_strcpy :: "mem \<Rightarrow> memcont option \<Rightarrow> char list option \<Rightarrow> mcres" where
  "HXmc_strcpy mem vp s =
     (case s of None \<Rightarrow> Some (False, None)
      | Some s \<Rightarrow> HXmc_memcpy mem vp (Some (s @ [NUL])) (of_nat (length s)))"

definition HXmc_length :: "memcont option \<Rightarrow> u64" where
  "HXmc_length vp =
     (case vp of None \<Rightarrow> 0 | Some ctx \<Rightarrow> if HXmc_check ctx then - 1 else mc_length ctx)"

definition HXmc_trunc :: "mem \<Rightarrow> memcont option \<Rightarrow> u64 \<Rightarrow> mcres" where
  "HXmc_trunc mem vp len = do {
     ctx \<leftarrow> vp;
     if HXmc_check ctx then Some (False, vp)
     else if mc_alloc ctx < len then
       (case mem of None \<Rightarrow> Some (False, vp)
        | Some junk \<Rightarrow> do {
            ctx \<leftarrow> mc_realloc junk ctx (HXmc_request len);
            Some (True, Some (ctx\<lparr>mc_alloc := len\<rparr>))
          })
     else do {
       d \<leftarrow> wr (mc_data ctx) (unat len) NUL;
       Some (True, Some (ctx\<lparr>mc_data := d, mc_length := len\<rparr>))
     }
   }"

definition HXmc_setlen :: "mem \<Rightarrow> memcont option \<Rightarrow> u64 \<Rightarrow> mcres" where
  "HXmc_setlen mem vp len = do {
     (ok, vp) \<leftarrow> HXmc_trunc mem vp len;
     if \<not> ok then Some (False, vp)
     else do { ctx \<leftarrow> vp; Some (True, Some (ctx\<lparr>mc_length := len\<rparr>)) }
   }"

text \<open>The growth step shared by the two insertions: \<open>Inl\<close> is a failed allocation.\<close>

definition mc_grow :: "mem \<Rightarrow> memcont \<Rightarrow> u64 \<Rightarrow> (unit + memcont) option" where
  "mc_grow mem ctx nl =
     (if mc_alloc ctx < nl then
        (case mem of None \<Rightarrow> Some (Inl ())
         | Some junk \<Rightarrow> do {
             ctx \<leftarrow> mc_realloc junk ctx (HXmc_request nl);
             Some (Inr (ctx\<lparr>mc_alloc := nl\<rparr>))
           })
      else Some (Inr ctx))"

definition HXmc_memcat :: "mem \<Rightarrow> memcont option \<Rightarrow> char list option \<Rightarrow> u64 \<Rightarrow> mcres" where
  "HXmc_memcat mem vp ptr len = do {
     ctx \<leftarrow> vp;
     let nl = mc_length ctx + len;
     if HXmc_check ctx then Some (False, vp)
     else do {
       g \<leftarrow> mc_grow mem ctx nl;
       case g of Inl _ \<Rightarrow> Some (False, vp)
       | Inr ctx \<Rightarrow>
           (case ptr of None \<Rightarrow> Some (True, Some ctx)
            | Some src \<Rightarrow> do {
                bs \<leftarrow> rdn src 0 (unat len);
                d \<leftarrow> wrn (mc_data ctx) (unat (mc_length ctx)) bs;
                d \<leftarrow> wr d (unat nl) NUL;
                Some (True, Some (ctx\<lparr>mc_length := nl, mc_data := d\<rparr>))
              })
     }
   }"

definition HXmc_strcat :: "mem \<Rightarrow> memcont option \<Rightarrow> char list option \<Rightarrow> mcres" where
  "HXmc_strcat mem vp s =
     (case s of None \<Rightarrow> Some (vp \<noteq> None, vp)
      | Some s \<Rightarrow> HXmc_memcat mem vp (Some (s @ [NUL])) (of_nat (length s)))"

definition HXmc_memins :: "mem \<Rightarrow> memcont option \<Rightarrow> u64 \<Rightarrow> char list option \<Rightarrow> u64 \<Rightarrow> mcres" where
  "HXmc_memins mem vp pos ptr len = do {
     ctx \<leftarrow> vp;
     let nl = mc_length ctx + len;
     if HXmc_check ctx then Some (False, vp)
     else do {
       g \<leftarrow> mc_grow mem ctx nl;
       case g of Inl _ \<Rightarrow> Some (False, vp)
       | Inr ctx \<Rightarrow>
           (case ptr of None \<Rightarrow> Some (True, Some ctx)
            | Some src \<Rightarrow> do {
                mv \<leftarrow> rdn (mc_data ctx) (unat pos) (unat (mc_length ctx - pos));
                d \<leftarrow> wrn (mc_data ctx) (unat (pos + len)) mv;
                bs \<leftarrow> rdn src 0 (unat len);
                d \<leftarrow> wrn d (unat pos) bs;
                d \<leftarrow> wr d (unat (mc_length ctx + len)) NUL;
                Some (True, Some (ctx\<lparr>mc_length := mc_length ctx + len, mc_data := d\<rparr>))
              })
     }
   }"

definition HXmc_strpcat :: "mem \<Rightarrow> memcont option \<Rightarrow> char list option \<Rightarrow> mcres" where
  "HXmc_strpcat mem vp s =
     (case s of None \<Rightarrow> Some (vp \<noteq> None, vp)
      | Some s \<Rightarrow> HXmc_memins mem vp 0 (Some (s @ [NUL])) (of_nat (length s)))"

definition HXmc_mempcat :: "mem \<Rightarrow> memcont option \<Rightarrow> char list option \<Rightarrow> u64 \<Rightarrow> mcres" where
  "HXmc_mempcat mem vp ptr len = HXmc_memins mem vp 0 ptr len"

definition HXmc_strins :: "mem \<Rightarrow> memcont option \<Rightarrow> u64 \<Rightarrow> char list option \<Rightarrow> mcres" where
  "HXmc_strins mem vp pos s =
     (case s of None \<Rightarrow> Some (vp \<noteq> None, vp)
      | Some s \<Rightarrow> HXmc_memins mem vp pos (Some (s @ [NUL])) (of_nat (length s)))"

definition HXmc_memdel :: "memcont option \<Rightarrow> u64 \<Rightarrow> u64 \<Rightarrow> mcres" where
  "HXmc_memdel vp pos len = do {
     ctx \<leftarrow> vp;
     if HXmc_check ctx then Some (False, vp)
     else do {
       let len = (if mc_length ctx < pos + len then mc_length ctx - pos else len);
       mv \<leftarrow> rdn (mc_data ctx) (unat (pos + len)) (unat (mc_length ctx - pos - len));
       d \<leftarrow> wrn (mc_data ctx) (unat pos) mv;
       d \<leftarrow> wr d (unat (mc_length ctx - len)) NUL;
       Some (True, Some (ctx\<lparr>mc_length := mc_length ctx - len, mc_data := d\<rparr>))
     }
   }"

text \<open>The vector ends at its first \<^verbatim>\<open>NULL\<close>; the result lists which containers were released.\<close>

fun HXmc_zvecfree :: "memcont option list \<Rightarrow> memcont list option" where
  "HXmc_zvecfree [] = None"
| "HXmc_zvecfree (None # _) = Some []"
| "HXmc_zvecfree (Some c # cs) =
     map_option (\<lambda>r. if HXmc_free (Some c) then c # r else r) (HXmc_zvecfree cs)"

section \<open>Well-formed containers\<close>

definition mc_ok :: "memcont \<Rightarrow> bool" where
  "mc_ok c \<longleftrightarrow> mc_id c = HXMC_IDENT \<and> mc_length c \<le> mc_alloc c \<and>
     unat (mc_alloc c) + 1 \<le> length (mc_data c) \<and> mc_data c ! unat (mc_length c) = NUL"

definition mc_content :: "memcont \<Rightarrow> char list" where
  "mc_content c = take (unat (mc_length c)) (mc_data c)"

text \<open>The largest request that does not wrap.\<close>

abbreviation mc_max :: nat where "mc_max \<equiv> 2 ^ 64 - 26"

lemma mc_okD:
  assumes "mc_ok c"
  shows "\<not> HXmc_check c" "unat (mc_length c) \<le> unat (mc_alloc c)"
    "unat (mc_length c) + 1 \<le> length (mc_data c)" "unat (mc_alloc c) + 1 \<le> length (mc_data c)"
    "length (mc_content c) = unat (mc_length c)" "mc_data c ! unat (mc_length c) = NUL"
  using assms by (auto simp: mc_ok_def HXmc_check_def mc_content_def word_le_nat_alt)

lemma mc_okI:
  assumes "mc_id c = HXMC_IDENT" "unat (mc_length c) \<le> unat (mc_alloc c)"
    "unat (mc_alloc c) + 1 \<le> length (mc_data c)" "mc_data c ! unat (mc_length c) = NUL"
  shows "mc_ok c"
  using assms by (simp add: mc_ok_def word_le_nat_alt)

lemma request_exact: "unat len \<le> mc_max \<Longrightarrow> unat (HXmc_request len) = 25 + unat len"
proof -
  assume "unat len \<le> mc_max"
  moreover have "HXmc_request len = of_nat (25 + unat len)" by (simp add: HXmc_request_def)
  ultimately show ?thesis by (simp only: unat_of_nat) (simp add: take_bit_nat_eq_self)
qed

lemma unat_add_exact: "unat (a :: u64) + unat b \<le> mc_max \<Longrightarrow> unat (a + b) = unat a + unat b"
  by (rule unat_add_lem [THEN iffD1]) simp

lemma mc_content_upd: "mc_content (c\<lparr>mc_length := l, mc_data := d\<rparr>) = take (unat l) d"
  by (simp add: mc_content_def)

lemma mc_grow_fail: "mc_alloc c < nl \<Longrightarrow> mc_grow None c nl = Some (Inl ())"
  by (simp add: mc_grow_def)

lemma mc_grow_ok:
  assumes c: "mc_ok c" and n: "mc_length c \<le> nl" "unat nl \<le> mc_max"
    and m: "mem \<noteq> None \<or> nl \<le> mc_alloc c"
  obtains c' where "mc_grow mem c nl = Some (Inr c')" "mc_ok c'" "mc_content c' = mc_content c"
    "mc_length c' = mc_length c" "nl \<le> mc_alloc c'" "unat nl + 1 \<le> length (mc_data c')"
proof (cases "mc_alloc c < nl")
  case False
  with c show thesis
    by (intro that [of c]) (auto simp: mc_grow_def mc_ok_def word_le_nat_alt word_less_nat_alt)
next
  case True
  then obtain junk where j: "mem = Some junk" using m by auto
  let ?n = "unat (HXmc_request nl) - 20"
  have n': "?n = unat nl + 5" using request_exact [OF n(2)] by simp
  let ?d = "take ?n (mc_data c) @ map junk [length (mc_data c)..<?n]"
  let ?c = "c\<lparr>mc_data := ?d, mc_alloc := nl\<rparr>"
  have len: "unat (mc_length c) + 1 \<le> ?n" using n(1) n' by (simp add: word_le_nat_alt)
  have nth: "?d ! i = mc_data c ! i" if "i \<le> unat (mc_length c)" for i
    using that len mc_okD(3) [OF c] by (simp add: nth_append)
  have ld: "unat nl + 5 \<le> length ?d" using n' by simp
  have "mc_ok ?c"
    using c n(1) ld nth by (intro mc_okI) (simp_all add: mc_ok_def word_le_nat_alt del: length_append)
  moreover have "mc_content ?c = mc_content c"
    unfolding mc_content_def using nth len ld mc_okD(3) [OF c]
    by (intro nth_equalityI) (simp_all del: length_append)
  moreover have "mc_grow mem c nl = Some (Inr ?c)"
    using True j n' request_exact [OF n(2)] by (simp add: mc_grow_def mc_realloc_def)
  ultimately show thesis using ld by (intro that [of ?c]) (simp_all del: length_append)
qed

section \<open>Contents\<close>

lemma mc_splice:
  assumes "mc_ok c" "nl \<le> mc_alloc c" "d = pre @ NUL # post" "length d = length (mc_data c)"
    "length pre = unat nl"
  shows "mc_ok (c\<lparr>mc_length := nl, mc_data := d\<rparr>) \<and> mc_content (c\<lparr>mc_length := nl, mc_data := d\<rparr>) = pre"
  using assms by (auto simp: mc_ok_def mc_content_def nth_append word_le_nat_alt)

lemma memins_effect:
  assumes c: "mc_ok c" and l: "unat len \<le> length src"
    and p: "pos \<le> mc_length c" and n: "length (mc_content c) + unat len \<le> mc_max"
    and m: "mem \<noteq> None \<or> mc_length c + len \<le> mc_alloc c"
  obtains c' where "HXmc_memins mem (Some c) pos (Some src) len = Some (True, Some c')" "mc_ok c'"
    "mc_content c' = take (unat pos) (mc_content c) @ take (unat len) src @ drop (unat pos) (mc_content c)"
proof -
  let ?L = "unat (mc_length c)" and ?P = "unat pos" and ?N = "unat len"
  have nl: "unat (mc_length c + len) = ?L + ?N"
    using n mc_okD(5) [OF c] by (intro unat_add_exact) simp
  have pl: "?P \<le> ?L" using p by (simp add: word_le_nat_alt)
  have pn: "unat (pos + len) = ?P + ?N" using n pl mc_okD(5) [OF c] by (intro unat_add_exact) simp
  have "mc_length c \<le> mc_length c + len" "unat (mc_length c + len) \<le> mc_max"
    using nl n mc_okD(5) [OF c] by (simp_all add: word_le_nat_alt)
  then obtain g where g: "mc_grow mem c (mc_length c + len) = Some (Inr g)" "mc_ok g"
    "mc_content g = mc_content c" "mc_length g = mc_length c" "mc_length c + len \<le> mc_alloc g"
    "?L + ?N + 1 \<le> length (mc_data g)"
    using mc_grow_ok [OF c _ _ m] nl by metis
  let ?mv = "take (?L - ?P) (drop ?P (mc_data g))"
  have lmv: "length ?mv = ?L - ?P" using g(6) pl by simp
  let ?d1 = "take (?P + ?N) (mc_data g) @ ?mv @ drop (?P + ?N + (?L - ?P)) (mc_data g)"
  have d1: "wrn (mc_data g) (?P + ?N) ?mv = Some ?d1" using g(6) pl lmv by (simp add: wrn_def)
  define pre where "pre = take ?P (mc_data g) @ take ?N src @ ?mv"
  have ld1: "length ?d1 = length (mc_data g)" using g(6) pl by simp
  have d2: "wrn ?d1 ?P (take ?N src) = Some (pre @ drop (?L + ?N) (mc_data g))"
    using g(6) pl l ld1 by (simp add: wrn_def add.commute pre_def)
  obtain x post where post: "drop (?L + ?N) (mc_data g) = x # post"
    using g(6) by (metis Suc_eq_plus1 Suc_le_lessD drop_eq_Cons_nth)
  have lpre: "length pre = ?L + ?N" using g(6) pl l lmv by (simp add: pre_def)
  have d3: "wr (pre @ drop (?L + ?N) (mc_data g)) (?L + ?N) NUL = Some (pre @ NUL # post)"
    unfolding post using wr_at [OF lpre] by simp
  let ?c = "g\<lparr>mc_length := mc_length c + len, mc_data := pre @ NUL # post\<rparr>"
  have "length (pre @ NUL # post) = length (mc_data g)"
    using wrn_length [OF d2] wr_length [OF d3] ld1 by (simp only:)
  from mc_splice [OF g(2,5) refl this] lpre nl have ok: "mc_ok ?c" "mc_content ?c = pre" by simp_all
  have "HXmc_memins mem (Some c) pos (Some src) len = Some (True, Some ?c)"
  proof -
    have "unat (mc_length g - pos) = ?L - ?P" using g(4) p by (simp add: unat_sub)
    moreover have "rdn (mc_data g) ?P (?L - ?P) = Some ?mv" using g(6) pl by (simp add: rdn_def)
    moreover have "rdn src 0 ?N = Some (take ?N src)" using l by (simp add: rdn_def)
    ultimately show ?thesis
      using mc_okD(1) [OF c] g(1,4) pn d1 d2 d3 nl by (simp add: HXmc_memins_def Let_def)
  qed
  moreover have "pre = take ?P (mc_content c) @ take ?N src @ drop ?P (mc_content c)"
    unfolding g(3) [symmetric] using g(4) pl by (simp add: pre_def mc_content_def drop_take min_def)
  ultimately show thesis using ok that [of ?c] by simp
qed

lemma memcat_is_memins:
  assumes c: "mc_ok c" and n: "length (mc_content c) + unat len \<le> mc_max"
  shows "HXmc_memcat mem (Some c) (Some src) len = HXmc_memins mem (Some c) (mc_length c) (Some src) len"
proof -
  have nl: "unat (mc_length c + len) = unat (mc_length c) + unat len"
    using n mc_okD(5) [OF c] by (intro unat_add_exact) simp
  show ?thesis
  proof (cases "mem = None \<and> mc_alloc c < mc_length c + len")
    case True
    then show ?thesis by (simp add: HXmc_memcat_def HXmc_memins_def mc_grow_fail Let_def)
  next
    case False
    have "mc_length c \<le> mc_length c + len" "unat (mc_length c + len) \<le> mc_max"
      using nl n mc_okD(5) [OF c] by (simp_all add: word_le_nat_alt)
    moreover have "mem \<noteq> None \<or> mc_length c + len \<le> mc_alloc c" using False by auto
    ultimately obtain g where g: "mc_grow mem c (mc_length c + len) = Some (Inr g)"
      "mc_length g = mc_length c" "unat (mc_length c + len) + 1 \<le> length (mc_data g)"
      using mc_grow_ok [OF c] by metis
    then have "rdn (mc_data g) (unat (mc_length c)) 0 = Some []"
      "wrn (mc_data g) (unat (mc_length c + len)) [] = Some (mc_data g)"
      using nl by (simp_all add: rdn_def wrn_def)
    then show ?thesis using g by (simp add: HXmc_memcat_def HXmc_memins_def Let_def)
  qed
qed

text \<open>The two ways a container is emptied, and appending a string, for later use.\<close>

lemma meminit_empty:
  "\<exists>c. HXmc_meminit (Some junk) None 0 = Some (Some c) \<and> mc_ok c \<and> mc_content c = []"
  by (auto simp: HXmc_meminit_def HXmc_memcpy_def mc_malloc_def HXmc_request_def wr_def mc_ok_def
      mc_content_def Let_def upt_rec)

lemma trunc_empty:
  assumes "mc_ok c"
  shows "\<exists>c'. HXmc_trunc mem (Some c) 0 = Some (True, Some c') \<and> mc_ok c' \<and> mc_content c' = []"
  using assms by (cases "mc_data c")
    (auto simp: HXmc_trunc_def HXmc_check_def mc_ok_def wr_def mc_content_def word_less_nat_alt)

lemma strcat_append:
  assumes "mc_ok c" "length (mc_content c) + length s \<le> mc_max"
  shows "\<exists>c'. HXmc_strcat (Some junk) (Some c) (Some s) = Some (True, Some c') \<and> mc_ok c' \<and>
    mc_content c' = mc_content c @ s"
proof -
  have u: "unat (of_nat (length s) :: u64) = length s"
    using assms(2) by (simp add: unat_of_nat take_bit_nat_eq_self)
  have n: "length (mc_content c) + unat (of_nat (length s) :: u64) \<le> mc_max"
    "unat (of_nat (length s) :: u64) \<le> length (s @ [NUL])"
    using assms(2) unfolding u by simp_all
  obtain c' where "HXmc_memins (Some junk) (Some c) (mc_length c) (Some (s @ [NUL])) (of_nat (length s)) =
        Some (True, Some c')" "mc_ok c'" "mc_content c' =
        take (unat (mc_length c)) (mc_content c) @ take (unat (of_nat (length s) :: u64)) (s @ [NUL]) @
          drop (unat (mc_length c)) (mc_content c)"
    using memins_effect [OF assms(1) n(2) order_refl n(1), of "Some junk"] by blast
  then show ?thesis
    using mc_okD(5) [OF assms(1)] by (simp add: HXmc_strcat_def memcat_is_memins [OF assms(1) n(1)] u)
qed

section \<open>Properties\<close>

text \<open>inserting \<open>len\<close> bytes at a position inside the container splices exactly these bytes into
  its content, growing the block when needed, and keeps the container well formed and terminated; when
  the growth fails the result is \<^verbatim>\<open>NULL\<close> and the container is untouched. No access leaves the block.\<close>

theorem HXmc_memins_splices:
  assumes "mc_ok c" and "pos \<le> mc_length c" and "unat len \<le> length src"
    and "length (mc_content c) + unat len \<le> mc_max"
  shows "if mem = None \<and> mc_alloc c < mc_length c + len
    then HXmc_memins mem (Some c) pos (Some src) len = Some (False, Some c)
    else \<exists>c'. HXmc_memins mem (Some c) pos (Some src) len = Some (True, Some c') \<and> mc_ok c' \<and>
      mc_content c' = take (unat pos) (mc_content c) @ take (unat len) src @ drop (unat pos) (mc_content c)"
proof (cases "mem = None \<and> mc_alloc c < mc_length c + len")
  case True
  then show ?thesis using mc_okD(1) [OF assms(1)] by (simp add: HXmc_memins_def mc_grow_fail Let_def)
next
  case False
  then have "mem \<noteq> None \<or> mc_length c + len \<le> mc_alloc c" by auto
  from memins_effect [OF assms(1,3,2,4) this] show ?thesis using False by metis
qed

definition abc_mc :: memcont where
  "abc_mc = \<lparr>mc_alloc = 4, mc_length = 3, mc_id = HXMC_IDENT, mc_data = ''abc'' @ [NUL] @ ''zyxwv''\<rparr>"

lemma abc_mc_ok: "mc_ok abc_mc" "mc_content abc_mc = ''abc''" "mc_length abc_mc = 3" "mc_alloc abc_mc = 4"
  by (simp_all add: abc_mc_def mc_ok_def mc_content_def)

theorem HXmc_memins_splices_witness:
  "\<exists>c'. HXmc_memins (Some (\<lambda>_. CHR ''?'')) (Some abc_mc) 1 (Some ''1234'') 2 = Some (True, Some c') \<and>
    mc_ok c' \<and> mc_content c' = ''a12bc''"
  using HXmc_memins_splices [OF abc_mc_ok(1), of 1 2 "''1234''" "Some (\<lambda>_. CHR ''?'')"]
  by (simp add: abc_mc_ok(2,3))

text \<open>appending, prepending and inserting C strings do what their names say: the content becomes
  old followed by new, new followed by old, and the string spliced in at the position.\<close>

theorem HXmc_str_ops:
  assumes "mc_ok c" and "length (mc_content c) + length s \<le> mc_max" and "pos \<le> mc_length c"
  shows "\<exists>c1 c2 c3. HXmc_strcat (Some junk) (Some c) (Some s) = Some (True, Some c1) \<and> mc_ok c1 \<and>
      mc_content c1 = mc_content c @ s \<and>
    HXmc_strpcat (Some junk) (Some c) (Some s) = Some (True, Some c2) \<and> mc_ok c2 \<and>
      mc_content c2 = s @ mc_content c \<and>
    HXmc_strins (Some junk) (Some c) pos (Some s) = Some (True, Some c3) \<and> mc_ok c3 \<and>
      mc_content c3 = take (unat pos) (mc_content c) @ s @ drop (unat pos) (mc_content c)"
proof -
  have u: "unat (of_nat (length s) :: u64) = length s"
    using assms(2) by (simp add: unat_of_nat take_bit_nat_eq_self)
  have n: "length (mc_content c) + unat (of_nat (length s) :: u64) \<le> mc_max"
    "unat (of_nat (length s) :: u64) \<le> length (s @ [NUL])"
    using assms(2) unfolding u by simp_all
  have ins: "\<exists>c'. HXmc_memins (Some junk) (Some c) p (Some (s @ [NUL])) (of_nat (length s)) =
      Some (True, Some c') \<and> mc_ok c' \<and>
      mc_content c' = take (unat p) (mc_content c) @ s @ drop (unat p) (mc_content c)"
    if p: "p \<le> mc_length c" for p
  proof -
    obtain c' where "HXmc_memins (Some junk) (Some c) p (Some (s @ [NUL])) (of_nat (length s)) =
        Some (True, Some c')" "mc_ok c'" "mc_content c' =
        take (unat p) (mc_content c) @ take (unat (of_nat (length s) :: u64)) (s @ [NUL]) @
          drop (unat p) (mc_content c)"
      using memins_effect [OF assms(1) n(2) p n(1), of "Some junk"] by blast
    then show ?thesis by (simp add: u)
  qed
  from ins [of 0] ins [OF assms(3)] ins [of "mc_length c"] mc_okD(5) [OF assms(1)] show ?thesis
    by (auto simp: HXmc_strcat_def HXmc_strpcat_def HXmc_strins_def memcat_is_memins [OF assms(1) n(1)])
qed

theorem HXmc_str_ops_witness:
  "\<exists>c1 c2 c3. HXmc_strcat (Some (\<lambda>_. NUL)) (Some abc_mc) (Some ''xy'') = Some (True, Some c1) \<and> mc_ok c1 \<and>
      mc_content c1 = ''abcxy'' \<and>
    HXmc_strpcat (Some (\<lambda>_. NUL)) (Some abc_mc) (Some ''xy'') = Some (True, Some c2) \<and> mc_ok c2 \<and>
      mc_content c2 = ''xyabc'' \<and>
    HXmc_strins (Some (\<lambda>_. NUL)) (Some abc_mc) 1 (Some ''xy'') = Some (True, Some c3) \<and> mc_ok c3 \<and>
      mc_content c3 = ''axybc''"
  using HXmc_str_ops [OF abc_mc_ok(1), of "''xy''" 1 "\<lambda>_. NUL"] by (simp add: abc_mc_ok(2,3))

text \<open>deleting a range that starts inside the container and whose end does not wrap removes exactly
  that range, cut off at the end of the content, and keeps the container well formed.\<close>

theorem HXmc_memdel_removes:
  assumes c: "mc_ok c" and p: "pos \<le> mc_length c" and w: "unat pos + unat len < 2 ^ 64"
  shows "\<exists>c'. HXmc_memdel (Some c) pos len = Some (True, Some c') \<and> mc_ok c' \<and>
    mc_content c' = take (unat pos) (mc_content c) @ drop (unat pos + unat len) (mc_content c)"
proof -
  let ?L = "unat (mc_length c)" and ?P = "unat pos"
  have pl: "?P \<le> ?L" using p by (simp add: word_le_nat_alt)
  have pn: "unat (pos + len) = ?P + unat len" using w by (intro unat_add_lem [THEN iffD1]) simp
  define k where "k = (if mc_length c < pos + len then mc_length c - pos else len)"
  let ?K = "unat k"
  have K: "?K = min (unat len) (?L - ?P)"
    using p pn pl by (auto simp: k_def word_less_nat_alt unat_sub)
  have pk: "unat (pos + k) = ?P + ?K" using K pn pl w by (intro unat_add_lem [THEN iffD1]) simp
  have lk: "unat (mc_length c - k) = ?L - ?K" using K pl by (intro unat_sub) (simp add: word_le_nat_alt)
  have lpk: "unat (mc_length c - pos - k) = ?L - ?P - ?K"
    using K p by (subst unat_sub; simp add: word_le_nat_alt unat_sub)
  let ?mv = "take (?L - ?P - ?K) (drop (?P + ?K) (mc_data c))"
  have D: "?L + 1 \<le> length (mc_data c)" using mc_okD(3) [OF c] .
  have lmv: "length ?mv = ?L - ?P - ?K" using D K by simp
  have r: "rdn (mc_data c) (?P + ?K) (?L - ?P - ?K) = Some ?mv" using D K pl by (simp add: rdn_def)
  let ?rest = "drop (?L - ?K) (mc_data c)"
  have d1: "wrn (mc_data c) ?P ?mv = Some (take ?P (mc_data c) @ ?mv @ ?rest)"
  proof -
    have "?P + length ?mv = ?L - ?K" "?L - ?K \<le> length (mc_data c)" using D K pl lmv by simp_all
    then show ?thesis by (simp add: wrn_def del: length_take length_drop)
  qed
  obtain x post where post: "?rest = x # post"
    using D by (metis Suc_eq_plus1 Suc_le_lessD drop_eq_Cons_nth less_imp_diff_less)
  define pre where "pre = take ?P (mc_data c) @ ?mv"
  have lpre: "length pre = ?L - ?K" using D K pl lmv by (simp add: pre_def)
  have d2: "wr (take ?P (mc_data c) @ ?mv @ ?rest) (?L - ?K) NUL = Some (pre @ NUL # post)"
    unfolding post using wr_at [OF lpre] by (simp add: pre_def)
  let ?c = "c\<lparr>mc_length := mc_length c - k, mc_data := pre @ NUL # post\<rparr>"
  have "length (pre @ NUL # post) = length (mc_data c)"
    using wrn_length [OF d1] wr_length [OF d2] by (simp only:)
  moreover have "mc_length c - k \<le> mc_alloc c" using lk mc_okD(2) [OF c] by (simp add: word_le_nat_alt)
  ultimately have ok: "mc_ok ?c" "mc_content ?c = pre"
    using mc_splice [OF c _ refl _ lpre [folded lk]] by simp_all
  have "HXmc_memdel (Some c) pos len = Some (True, Some ?c)"
    using mc_okD(1) [OF c] r d1 d2
    by (simp add: HXmc_memdel_def Let_def pk lpk lk flip: k_def)
  moreover have "pre = take ?P (mc_content c) @ drop (?P + unat len) (mc_content c)"
    using K pl D by (auto simp: pre_def mc_content_def drop_take min_def)
  ultimately show ?thesis using ok by (intro exI [of _ ?c]) simp
qed

theorem HXmc_memdel_removes_witness:
  "\<exists>c'. HXmc_memdel (Some abc_mc) 1 1 = Some (True, Some c') \<and> mc_ok c' \<and> mc_content c' = ''ac''"
  using HXmc_memdel_removes [OF abc_mc_ok(1), of 1 1] by (simp add: abc_mc_ok(2,3))

text \<open>a deletion length whose end wraps around, such as \<^verbatim>\<open>SIZE_MAX\<close> for ``up to the end'',
  is not cut off: deleting from position 1 of \<^verbatim>\<open>abc\<close> leaves the longer string \<^verbatim>\<open>aabc\<close>. A
  start behind the end raises the length to that start, even above the allocation.\<close>

theorem HXmc_memdel_wraps:
  "(\<exists>c'. HXmc_memdel (Some abc_mc) 1 (- 1) = Some (True, Some c') \<and> mc_content c' = ''aabc'') \<and>
   (\<exists>c'. HXmc_memdel (Some abc_mc) 5 1 = Some (True, Some c') \<and> mc_length c' = 5 \<and> mc_alloc c' = 4)"
  by (simp add: HXmc_memdel_def HXmc_check_def mc_content_def abc_mc_def rdn_def wrn_def wr_def Let_def)

lemma memcpy_fill:
  assumes i: "mc_id g = HXMC_IDENT" and l: "unat len \<le> length src" and a: "len \<le> mc_alloc g"
    and d: "unat (mc_alloc g) + 1 \<le> length (mc_data g)"
  obtains g' where "do { bs \<leftarrow> rdn src 0 (unat len); d \<leftarrow> wrn (mc_data g) 0 bs; d \<leftarrow> wr d (unat len) NUL;
      Some (True, Some (g\<lparr>mc_length := len, mc_data := d\<rparr>)) } = Some (True, Some g')"
    "mc_ok g'" "mc_content g' = take (unat len) src"
proof -
  have n: "unat len + 1 \<le> length (mc_data g)" using a d by (simp add: word_le_nat_alt)
  obtain x post where post: "drop (unat len) (mc_data g) = x # post"
    using n by (metis Suc_eq_plus1 Suc_le_lessD drop_eq_Cons_nth)
  let ?pre = "take (unat len) src"
  have lp: "length ?pre = unat len" using l by simp
  have "rdn src 0 (unat len) = Some ?pre" using l by (simp add: rdn_def)
  moreover have w: "wrn (mc_data g) 0 ?pre = Some (?pre @ x # post)" using n l post by (simp add: wrn_def)
  moreover have w': "wr (?pre @ x # post) (unat len) NUL = Some (?pre @ NUL # post)"
    using wr_at [OF lp] .
  moreover have "length (?pre @ NUL # post) = length (mc_data g)"
    using wrn_length [OF w] wr_length [OF w'] by (simp only:)
  then have "mc_ok (g\<lparr>mc_length := len, mc_data := ?pre @ NUL # post\<rparr>)"
    "mc_content (g\<lparr>mc_length := len, mc_data := ?pre @ NUL # post\<rparr>) = ?pre"
    using i a d lp by (simp_all add: mc_ok_def mc_content_def nth_append)
  ultimately show thesis using that by simp
qed

text \<open>copying into a container replaces its content by exactly the copied bytes, whether the block
  is new, large enough or has to grow; a failed allocation gives \<^verbatim>\<open>NULL\<close> and keeps what was there;
  a foreign object is refused.\<close>

theorem HXmc_memcpy_replaces:
  assumes "vp = None \<or> (\<exists>c. vp = Some c \<and> (mc_ok c \<or> mc_id c \<noteq> HXMC_IDENT))"
    and "unat len \<le> length src" and "unat len \<le> mc_max"
  shows "if (\<exists>c. vp = Some c \<and> mc_id c \<noteq> HXMC_IDENT) \<or>
      mem = None \<and> (\<forall>c. vp = Some c \<longrightarrow> mc_alloc c < len)
    then HXmc_memcpy mem vp (Some src) len = Some (False, vp)
    else \<exists>c'. HXmc_memcpy mem vp (Some src) len = Some (True, Some c') \<and> mc_ok c' \<and>
      mc_content c' = take (unat len) src"
proof (cases vp)
  case None
  show ?thesis
  proof (cases mem)
    case (Some junk)
    let ?g = "\<lparr>mc_alloc = len, mc_length = 0, mc_id = HXMC_IDENT,
      mc_data = map junk [0..<unat (HXmc_request len) - 20]\<rparr>"
    have "unat (mc_alloc ?g) + 1 \<le> length (mc_data ?g)" using request_exact [OF assms(3)] by simp
    from memcpy_fill [of ?g, OF _ assms(2) _ this] show ?thesis
      using None Some request_exact [OF assms(3)]
      by (auto simp: HXmc_memcpy_def mc_malloc_def Let_def)
  qed (simp add: None HXmc_memcpy_def Let_def)
next
  case (Some c)
  show ?thesis
  proof (cases "mc_id c \<noteq> HXMC_IDENT \<or> mem = None \<and> mc_alloc c < len")
    case True
    then show ?thesis using Some by (auto simp: HXmc_memcpy_def HXmc_check_def Let_def)
  next
    case False
    then have c: "mc_ok c" using Some assms(1) by auto
    obtain g where g: "mc_id g = HXMC_IDENT" "len \<le> mc_alloc g" "unat (mc_alloc g) + 1 \<le> length (mc_data g)"
      "HXmc_memcpy mem vp (Some src) len = do { bs \<leftarrow> rdn src 0 (unat len);
        d \<leftarrow> wrn (mc_data g) 0 bs; d \<leftarrow> wr d (unat len) NUL;
        Some (True, Some (g\<lparr>mc_length := len, mc_data := d\<rparr>)) }"
    proof (cases "mc_alloc c < len")
      case small: True
      then obtain junk where "mem = Some junk" using False by auto
      then show thesis
        using small c Some request_exact [OF assms(3)]
        by (intro that [of "c\<lparr>mc_data := take (unat (HXmc_request len) - 20) (mc_data c) @
              map junk [length (mc_data c)..<unat (HXmc_request len) - 20], mc_alloc := len\<rparr>"])
          (auto simp: HXmc_memcpy_def HXmc_check_def mc_ok_def mc_realloc_def Let_def)
    next
      case enough: False
      then show thesis using c Some
        by (intro that [of c]) (auto simp: HXmc_memcpy_def HXmc_check_def mc_ok_def Let_def)
    qed
    from memcpy_fill [OF g(1) assms(2) g(2,3)] show ?thesis using False Some g(4) by auto
  qed
qed

theorem HXmc_memcpy_replaces_witness:
  "\<exists>c'. HXmc_memcpy (Some (\<lambda>_. CHR ''?'')) (Some abc_mc) (Some ''longer text'') 11 = Some (True, Some c') \<and>
    mc_ok c' \<and> mc_content c' = ''longer text''"
  using HXmc_memcpy_replaces [of "Some abc_mc" 11 "''longer text''" "Some (\<lambda>_. CHR ''?'')"] abc_mc_ok(1)
  by (simp add: abc_mc_def)

text \<open>what \<open>HXmc_trunc\<close> does with the three kinds of length. Up to the current length it cuts the
  content; above the allocation it only reserves space; in between it does change the length, and the
  content is extended by the old terminator and by undetermined bytes.\<close>

theorem HXmc_trunc_cases:
  assumes c: "mc_ok c" and n: "unat len \<le> mc_max" and m: "mem \<noteq> None"
  shows "\<exists>c'. HXmc_trunc mem (Some c) len = Some (True, Some c') \<and> mc_ok c' \<and>
    (if mc_alloc c < len then mc_content c' = mc_content c \<and> mc_alloc c' = len
     else mc_length c' = len \<and> mc_alloc c' = mc_alloc c \<and>
       (if len \<le> mc_length c then mc_content c' = take (unat len) (mc_content c)
        else mc_content c' = mc_content c @ NUL #
          take (unat len - unat (mc_length c) - 1) (drop (unat (mc_length c) + 1) (mc_data c))))"
proof (cases "mc_alloc c < len")
  case True
  have le: "mc_length c \<le> len" using c True unfolding mc_ok_def by (meson less_imp_le order.trans)
  obtain g where g: "mc_grow mem c len = Some (Inr g)" "mc_ok g" "mc_content g = mc_content c"
    using mc_grow_ok [OF c le n, of mem] m by blast
  obtain junk where j: "mem = Some junk" using m by auto
  obtain r where r: "mc_realloc junk c (HXmc_request len) = Some r" "g = r\<lparr>mc_alloc := len\<rparr>"
    using g(1) True j by (cases "mc_realloc junk c (HXmc_request len)") (auto simp: mc_grow_def)
  have "HXmc_trunc mem (Some c) len = Some (True, Some g)" "mc_alloc g = len"
    using True mc_okD(1) [OF c] j r by (simp_all add: HXmc_trunc_def)
  then show ?thesis using True g(2,3) by (intro exI [of _ g]) simp
next
  case False
  let ?d = "(mc_data c)[unat len := NUL]"
  let ?c = "c\<lparr>mc_data := ?d, mc_length := len\<rparr>"
  have l: "unat len < length (mc_data c)"
    using False mc_okD(4) [OF c] by (simp add: word_less_nat_alt)
  have "HXmc_trunc mem (Some c) len = Some (True, Some ?c)"
    using False l mc_okD(1) [OF c] by (simp add: HXmc_trunc_def wr_def)
  moreover have "mc_ok ?c" using c False l by (simp add: mc_ok_def not_less)
  moreover have "mc_content ?c = take (unat len) (mc_data c)" by (simp add: mc_content_def)
  moreover have "take (unat len) (mc_data c) = take (unat len) (mc_content c)" if "len \<le> mc_length c"
    using that by (simp add: mc_content_def word_le_nat_alt min_def)
  moreover have "take (unat len) (mc_data c) = mc_content c @ NUL #
      take (unat len - unat (mc_length c) - 1) (drop (unat (mc_length c) + 1) (mc_data c))"
    if "\<not> len \<le> mc_length c"
  proof -
    have "drop (unat (mc_length c)) (mc_data c) = NUL # drop (unat (mc_length c) + 1) (mc_data c)"
      using drop_eq_Cons_nth [of "unat (mc_length c)" "mc_data c"] mc_okD(3,6) [OF c] by simp
    moreover have "take (unat len) (mc_data c) = mc_content c @
        take (unat len - unat (mc_length c)) (drop (unat (mc_length c)) (mc_data c))"
      using that by (simp add: mc_content_def word_le_nat_alt flip: take_add)
    moreover have "0 < unat len - unat (mc_length c)" using that by (simp add: word_le_nat_alt)
    then obtain k where "unat len - unat (mc_length c) = Suc k" using gr0_implies_Suc by blast
    ultimately show ?thesis by simp
  qed
  ultimately show ?thesis using False by (intro exI [of _ ?c]) simp
qed

theorem HXmc_trunc_cases_witness:
  "\<exists>c'. HXmc_trunc (Some (\<lambda>_. NUL)) (Some abc_mc) 4 = Some (True, Some c') \<and> mc_ok c' \<and>
    mc_length c' = 4 \<and> mc_content c' = ''abc'' @ [NUL]"
proof -
  have n: "unat (4 :: u64) \<le> mc_max" by simp
  show ?thesis
    using HXmc_trunc_cases [OF abc_mc_ok(1) n, of "Some (\<lambda>_. NUL)"] by (auto simp: abc_mc_ok)
qed

text \<open>growing a container with \<open>HXmc_setlen\<close> leaves it without its terminator: the byte behind the
  new length is whatever the allocator delivered.\<close>

theorem HXmc_setlen_unterminated:
  "\<exists>c'. HXmc_setlen (Some (\<lambda>_. CHR ''?'')) (Some abc_mc) 9 = Some (True, Some c') \<and>
    mc_length c' = 9 \<and> mc_data c' ! 9 = CHR ''?'' \<and> \<not> mc_ok c'"
  by (simp add: HXmc_setlen_def HXmc_trunc_def HXmc_check_def mc_realloc_def HXmc_request_def abc_mc_def
      mc_ok_def upt_rec)

end
