(* ===== verification/HX_Cstring.thy ===== *)
theory HX_Cstring
  imports HX_Prelude
begin

text \<open>
  The parts of \<^verbatim>\<open>string.h\<close> and \<^verbatim>\<open>ctype.h\<close> (in the C locale) that libHX uses, on C strings.
  A C string is the list of its bytes before the terminating \<open>NUL\<close>; a position in it is its
  index, and a pointer result \<open>None\<close> is \<^verbatim>\<open>NULL\<close>.
\<close>

section \<open>Character classes\<close>

definition isspace :: "char \<Rightarrow> bool" where
  "isspace c \<longleftrightarrow> c = CHR '' '' \<or> (9 \<le> (of_char c :: nat) \<and> (of_char c :: nat) \<le> 13)"

definition isdigit :: "char \<Rightarrow> bool" where
  "isdigit c \<longleftrightarrow> 48 \<le> (of_char c :: nat) \<and> (of_char c :: nat) \<le> 57"

definition isupper :: "char \<Rightarrow> bool" where
  "isupper c \<longleftrightarrow> 65 \<le> (of_char c :: nat) \<and> (of_char c :: nat) \<le> 90"

definition islower :: "char \<Rightarrow> bool" where
  "islower c \<longleftrightarrow> 97 \<le> (of_char c :: nat) \<and> (of_char c :: nat) \<le> 122"

definition isalpha :: "char \<Rightarrow> bool" where
  "isalpha c \<longleftrightarrow> isupper c \<or> islower c"

definition tolower :: "char \<Rightarrow> char" where
  "tolower c = (if isupper c then char_of ((of_char c :: nat) + 32) else c)"

definition toupper :: "char \<Rightarrow> char" where
  "toupper c = (if islower c then char_of ((of_char c :: nat) - 32) else c)"

text \<open>The size of the buffers for the names of files.\<close>

definition MAXFNLEN :: nat where "MAXFNLEN = 256"

section \<open>Searching\<close>

definition strspn :: "char list \<Rightarrow> char list \<Rightarrow> nat" where
  "strspn s acc = length (takeWhile (\<lambda>c. c \<in> set acc) s)"

definition strcspn :: "char list \<Rightarrow> char list \<Rightarrow> nat" where
  "strcspn s rej = length (takeWhile (\<lambda>c. c \<notin> set rej) s)"

definition strpbrk :: "char list \<Rightarrow> char list \<Rightarrow> nat option" where
  "strpbrk s acc = (let n = strcspn s acc in if n < length s then Some n else None)"

definition strchr :: "char list \<Rightarrow> char \<Rightarrow> nat option" where
  "strchr s c = (let n = length (takeWhile (\<lambda>d. d \<noteq> c) s) in
     if n < length s then Some n else if c = NUL then Some (length s) else None)"

text \<open>The length of the C string that starts a block, when the block holds a terminator.\<close>

definition strlen_block :: "char list \<Rightarrow> nat option" where
  "strlen_block b = (let n = length (takeWhile (\<lambda>c. c \<noteq> NUL) b) in if n < length b then Some n else None)"

definition cstr :: "char list \<Rightarrow> char list" where
  "cstr b = takeWhile (\<lambda>c. c \<noteq> NUL) b"

fun is_prefix :: "char list \<Rightarrow> char list \<Rightarrow> bool" where
  "is_prefix [] s = True"
| "is_prefix (p # ps) [] = False"
| "is_prefix (p # ps) (c # cs) = (p = c \<and> is_prefix ps cs)"

fun strstr :: "char list \<Rightarrow> char list \<Rightarrow> nat option" where
  "strstr [] needle = (if needle = [] then Some 0 else None)"
| "strstr (c # cs) needle =
     (if is_prefix needle (c # cs) then Some 0 else map_option Suc (strstr cs needle))"

definition memchr :: "char list \<Rightarrow> nat \<Rightarrow> char \<Rightarrow> nat \<Rightarrow> nat option" where
  "memchr b from c n = (let k = length (takeWhile (\<lambda>d. d \<noteq> c) (take n (drop from b))) in
     if k < length (take n (drop from b)) then Some (from + k) else None)"

text \<open>\<open>strtok_r(NULL, delim, &wp)\<close>: the token, if any, and the new \<open>wp\<close>.\<close>

definition strtok_r :: "char list \<Rightarrow> char list \<Rightarrow> char list option \<times> char list" where
  "strtok_r wp delim =
     (let s = dropWhile (\<lambda>c. c \<in> set delim) wp in
      if s = [] then (None, [])
      else (Some (takeWhile (\<lambda>c. c \<notin> set delim) s), drop 1 (dropWhile (\<lambda>c. c \<notin> set delim) s)))"

section \<open>Facts\<close>

lemma strpbrk_None: "strpbrk s d = None \<longleftrightarrow> set s \<inter> set d = {}"
proof -
  have "length (takeWhile P xs) < length xs \<longleftrightarrow> \<not> (\<forall>x \<in> set xs. P x)" for P and xs :: "char list"
    by (induction xs) auto
  then show ?thesis by (auto simp: strpbrk_def strcspn_def Let_def)
qed

lemma strpbrk_Some:
  assumes "strpbrk s d = Some i"
  shows "i < length s" "s ! i \<in> set d" "set (take i s) \<inter> set d = {}"
    "s = take i s @ s ! i # drop (Suc i) s"
proof -
  have i: "i = length (takeWhile (\<lambda>c. c \<notin> set d) s)" and l: "i < length s"
    using assms by (auto simp: strpbrk_def strcspn_def Let_def split: if_splits)
  have t: "take i s = takeWhile (\<lambda>c. c \<notin> set d) s" unfolding i by (rule takeWhile_eq_take [symmetric])
  show "i < length s" by (rule l)
  show "s ! i \<in> set d" using i l nth_length_takeWhile [of "\<lambda>c. c \<notin> set d" s] by auto
  show "set (take i s) \<inter> set d = {}" unfolding t by (auto dest: set_takeWhileD)
  show "s = take i s @ s ! i # drop (Suc i) s" by (rule id_take_nth_drop [OF l])
qed

lemma strpbrk_append:
  "set xs \<inter> set d = {} \<Longrightarrow> c \<in> set d \<Longrightarrow> strpbrk (xs @ c # ys) d = Some (length xs)"
proof -
  assume a: "set xs \<inter> set d = {}" "c \<in> set d"
  then have "takeWhile (\<lambda>c. c \<notin> set d) (xs @ c # ys) = xs"
    by (intro takeWhile_append_stop) auto
  then show ?thesis by (simp add: strpbrk_def strcspn_def)
qed

lemma strlen_block_Some:
  assumes "strlen_block b = Some n"
  shows "n < length b" "b ! n = NUL" "take n b = cstr b" "length (cstr b) = n"
    "b = cstr b @ NUL # drop (Suc n) b"
proof -
  have n: "n = length (cstr b)" and l: "n < length b"
    using assms by (auto simp: strlen_block_def cstr_def Let_def split: if_splits)
  show "n < length b" "length (cstr b) = n" using n l by simp_all
  show z: "b ! n = NUL" using n l nth_length_takeWhile [of "\<lambda>c. c \<noteq> NUL" b] by (auto simp: cstr_def)
  show t: "take n b = cstr b" unfolding n cstr_def by (rule takeWhile_eq_take [symmetric])
  show "b = cstr b @ NUL # drop (Suc n) b" using id_take_nth_drop [OF l] unfolding t z .
qed

lemma cstr_append: "NUL \<notin> set s \<Longrightarrow> cstr (s @ NUL # t) = s"
  by (auto simp: cstr_def intro!: takeWhile_append_stop)

lemma strlen_block_append: "NUL \<notin> set s \<Longrightarrow> strlen_block (s @ NUL # t) = Some (length s)"
  using cstr_append [of s t] by (simp add: strlen_block_def cstr_def)

lemma NUL_notin_cstr: "NUL \<notin> set (cstr b)"
  by (auto simp: cstr_def dest: set_takeWhileD)

lemma is_prefix_iff: "is_prefix p s \<longleftrightarrow> take (length p) s = p"
  by (induction p s rule: is_prefix.induct) auto

lemma strstr_Some: "strstr s p = Some i \<Longrightarrow>
    is_prefix p (drop i s) \<and> i \<le> length s \<and> (\<forall>j < i. \<not> is_prefix p (drop j s))"
proof (induction s arbitrary: i)
  case (Cons c cs)
  show ?case
  proof (cases "is_prefix p (c # cs)")
    case False
    then obtain k where k: "strstr cs p = Some k" "i = Suc k" using Cons.prems by auto
    have "\<not> is_prefix p (drop j (c # cs))" if "j < i" for j
      using that False Cons.IH [OF k(1)] k(2) by (cases j) auto
    then show ?thesis using Cons.IH [OF k(1)] k(2) by simp
  qed (use Cons.prems in auto)
qed (auto split: if_splits)

lemma strstr_None: "strstr s p = None \<Longrightarrow> i \<le> length s \<Longrightarrow> \<not> is_prefix p (drop i s)"
proof (induction s arbitrary: i)
  case Nil
  then show ?case by (cases p) (auto split: if_splits)
next
  case (Cons c cs)
  then show ?case by (cases i) (auto split: if_splits)
qed

end
