(* ===== verification/HX_String.thy ===== *)
theory HX_String
  imports HX_Cstring HX_Mc
begin

text \<open>
  The string functions of \<^verbatim>\<open>src/string.c\<close>: paths, trimming, splitting, bounded copies and
  searching. A string argument that is only read is its byte list
  (without the \<open>NUL\<close>); a destination that is written is a block. Positions are indices, \<^verbatim>\<open>size_t\<close>
  and \<^verbatim>\<open>ssize_t\<close> values are 64-bit words where their wrap-around matters. A flag \<open>ok\<close> says
  whether an allocation succeeds.
\<close>

section \<open>Searching backwards, paths\<close>

text \<open>\<open>e\<close> is the distance from \<^verbatim>\<open>start\<close> to one past \<^verbatim>\<open>now\<close>.\<close>

primrec HX_strbchr :: "char list \<Rightarrow> nat \<Rightarrow> char \<Rightarrow> nat option" where
  "HX_strbchr s 0 d = None"
| "HX_strbchr s (Suc i) d = (if s ! i = d then Some i else HX_strbchr s i d)"

text \<open>The loops that step back over trailing slashes: to before the start, or up to the start.\<close>

primrec skip_back :: "char list \<Rightarrow> nat \<Rightarrow> nat" where
  "skip_back s 0 = 0"
| "skip_back s (Suc i) = (if s ! i = CHR ''/'' then skip_back s i else Suc i)"

primrec skip_back1 :: "char list \<Rightarrow> nat \<Rightarrow> nat" where
  "skip_back1 s 0 = 0"
| "skip_back1 s (Suc i) = (if s ! Suc i = CHR ''/'' then skip_back1 s i else Suc i)"

text \<open>The returned pointer, as an offset from \<open>s\<close>.\<close>

definition HX_basename :: "char list \<Rightarrow> int" where
  "HX_basename s =
     (let e = skip_back s (length s) in
      if e = 0 then int (length s) - 1
      else case HX_strbchr s e CHR ''/'' of Some p \<Rightarrow> int p + 1 | None \<Rightarrow> 0)"

definition HX_strdup :: "bool \<Rightarrow> char list option \<Rightarrow> char list option" where
  "HX_strdup ok src = (case src of None \<Rightarrow> None | Some s \<Rightarrow> if ok then Some s else None)"

definition HX_basename_exact :: "bool \<Rightarrow> char list \<Rightarrow> char list option" where
  "HX_basename_exact ok s =
     (if s = [] then HX_strdup ok (Some ''.'')
      else let e = skip_back s (length s) in
        if e = 0 then HX_strdup ok (Some ''/'')
        else case HX_strbchr s e CHR ''/'' of
            None \<Rightarrow> (if ok then Some (take e s) else None)
          | Some p \<Rightarrow> (if ok then Some (take (e - (p + 1)) (drop (p + 1) s)) else None))"

definition HX_dirname :: "bool \<Rightarrow> char list \<Rightarrow> char list option option" where
  "HX_dirname ok s =
     (if s = [] then Some (HX_strdup ok (Some ''.''))
      else let last = skip_back1 s (length s - 1) in
        case HX_strbchr s (last + 1) CHR ''/'' of
          None \<Rightarrow> Some (HX_strdup ok (Some ''.''))
        | Some stop \<Rightarrow>
            (let stop = skip_back1 s stop in
             if ok then Some (Some (take (stop + 1) s)) else None))"

section \<open>Trimming and case\<close>

primrec chomp_end :: "char list \<Rightarrow> nat \<Rightarrow> nat" where
  "chomp_end s 0 = 0"
| "chomp_end s (Suc i) = (if s ! i \<noteq> CHR 0x0A \<and> s ! i \<noteq> CHR 0x0D then Suc i else chomp_end s i)"

definition HX_chomp :: "char list \<Rightarrow> char list" where
  "HX_chomp s = take (chomp_end s (length s)) s"

definition HX_strltrim :: "char list \<Rightarrow> nat \<times> char list" where
  "HX_strltrim expr =
     (let diff = length (takeWhile isspace expr) in
      (diff, if diff > 0 then drop diff expr else expr))"

primrec rtrim_loop :: "char list \<Rightarrow> nat \<Rightarrow> nat \<Rightarrow> nat \<times> nat" where
  "rtrim_loop expr 0 n = (0, n)"
| "rtrim_loop expr (Suc i) n = (if isspace (expr ! i) then rtrim_loop expr i (n + 1) else (Suc i, n))"

definition HX_strrtrim :: "char list \<Rightarrow> nat \<times> char list" where
  "HX_strrtrim expr = (let (i, n) = rtrim_loop expr (length expr) 0 in (n, take i expr))"

fun HX_strlower :: "char list \<Rightarrow> char list" where
  "HX_strlower [] = []"
| "HX_strlower (c # cs) = tolower c # HX_strlower cs"

fun HX_strupper :: "char list \<Rightarrow> char list" where
  "HX_strupper [] = []"
| "HX_strupper (c # cs) = toupper c # HX_strupper cs"

text \<open>The swapping loop, on the block that holds the string.\<close>

function rev_loop :: "char list \<Rightarrow> u64 \<Rightarrow> nat \<Rightarrow> nat \<Rightarrow> char list option" where
  "rev_loop b z i z2 =
     (if i < z2 then do {
        temp \<leftarrow> rd b i;
        x \<leftarrow> rd b (unat (z - of_nat i));
        b \<leftarrow> wr b i x;
        b \<leftarrow> wr b (unat (z - of_nat i)) temp;
        rev_loop b z (Suc i) z2
      } else Some b)"
  by pat_completeness auto
termination by (relation "measure (\<lambda>(b, z, i, z2). z2 - i)") auto

declare rev_loop.simps [simp del]

definition HX_strrev :: "char list \<Rightarrow> char list option" where
  "HX_strrev s =
     (let z = (of_nat (length s) :: u64) - 1 in
      map_option cstr (rev_loop (s @ [NUL]) z 0 (unat (z div 2))))"

section \<open>Searching\<close>

function memmem_loop :: "char list \<Rightarrow> char list \<Rightarrow> nat \<Rightarrow> nat option" where
  "memmem_loop space point tail =
     (let head = tail + 1 - length point in
      if take (length point) (drop head space) = point then Some head
      else case memchr space (tail + 1) (point ! (length point - 1)) (length space - (tail + 1)) of
          None \<Rightarrow> None
        | Some t \<Rightarrow> memmem_loop space point t)"
  by pat_completeness auto
termination
  by (relation "measure (\<lambda>(space, point, tail). length space - tail)")
    (auto simp: memchr_def Let_def split: if_splits)

declare memmem_loop.simps [simp del]

definition HX_memmem :: "char list \<Rightarrow> char list \<Rightarrow> nat option" where
  "HX_memmem space point =
     (let m = length point in
      if m = 0 then Some 0
      else if m > length space then None
      else case memchr space (m - 1) (point ! (m - 1)) (length space - (m - 1)) of
          None \<Rightarrow> None
        | Some tail \<Rightarrow> if m = 1 then Some tail else memmem_loop space point tail)"

definition HX_strchr2 :: "char list \<Rightarrow> char list \<Rightarrow> nat option" where
  "HX_strchr2 s accept = (let seg = strspn s accept in if seg = length s then None else Some seg)"

primrec rcspn_loop :: "char list \<Rightarrow> char list \<Rightarrow> nat \<Rightarrow> nat option" where
  "rcspn_loop s rej 0 = None"
| "rcspn_loop s rej (Suc i) = (if strchr rej (s ! i) \<noteq> None then Some i else rcspn_loop s rej i)"

definition HX_strrcspn :: "char list \<Rightarrow> char list \<Rightarrow> nat" where
  "HX_strrcspn s rej = (case rcspn_loop s rej (length s) of Some i \<Rightarrow> i | None \<Rightarrow> length s)"

section \<open>Splitting\<close>

function count_fields :: "int \<Rightarrow> char list \<Rightarrow> char list \<Rightarrow> int \<Rightarrow> int" where
  "count_fields n wp delim mx =
     (case strpbrk wp delim of
        None \<Rightarrow> n
      | Some i \<Rightarrow> if n + 1 \<ge> mx \<and> mx > 0 then mx else count_fields (n + 1) (drop (Suc i) wp) delim mx)"
  by pat_completeness auto
termination
  by (relation "measure (\<lambda>(n, wp, delim, mx). length wp)") (auto dest: strpbrk_Some(1))

declare count_fields.simps [simp del]

primrec split_loop :: "nat \<Rightarrow> char list \<Rightarrow> char list \<Rightarrow> char list list" where
  "split_loop 0 s delim = [s]"
| "split_loop (Suc k) s delim =
     (case strpbrk s delim of
        None \<Rightarrow> [s]
      | Some i \<Rightarrow> take i s # split_loop k (drop (Suc i) s) delim)"

text \<open>The loop \<^verbatim>\<open>while (--max > 0)\<close> runs at most \<open>mx - 1\<close> times.\<close>

definition HX_split_fixed :: "char list \<Rightarrow> char list \<Rightarrow> int \<Rightarrow> char list list" where
  "HX_split_fixed s delim mx = split_loop (nat (mx - 1)) s delim"

text \<open>The vector has \<open>count + 1\<close> slots; \<open>None\<close> inside it is \<^verbatim>\<open>NULL\<close>. More fields than slots,
  or a negative count, is a write out of bounds.\<close>

definition HX_split_inplace ::
  "bool \<Rightarrow> char list \<Rightarrow> char list \<Rightarrow> int \<Rightarrow> (int \<times> char list option list) option option" where
  "HX_split_inplace ok s delim mx =
     (let count = count_fields 1 s delim mx in
      if \<not> ok then Some None
      else if count < 0 then None
      else let fs = HX_split_fixed s delim count in
        if length fs > nat count + 1 then None
        else Some (Some (int (length fs), take (nat count + 1) (map Some fs @ [None]))))"

primrec tok_loop :: "(nat \<Rightarrow> bool) \<Rightarrow> nat \<Rightarrow> nat \<Rightarrow> char list \<Rightarrow> char list \<Rightarrow> char list option list \<times> char list" where
  "tok_loop dup i 0 wp delim = ([], wp)"
| "tok_loop dup i (Suc k) wp delim =
     (let (tok, wp) = strtok_r wp delim;
          (rest, wp) = tok_loop dup (Suc i) k wp delim
      in (HX_strdup (dup i) tok # rest, wp))"

text \<open>\<open>ok\<close> is the vector's allocation, \<open>okw\<close> that of the working copy (tokenising \<^verbatim>\<open>NULL\<close> is a
  fault), \<open>dup i\<close> that of field \<open>i\<close>.\<close>

definition HX_split ::
  "bool \<Rightarrow> bool \<Rightarrow> (nat \<Rightarrow> bool) \<Rightarrow> char list \<Rightarrow> char list \<Rightarrow> int \<Rightarrow>
     (int \<times> char list option list) option option" where
  "HX_split ok okw dup str delim mx =
     (let cp = count_fields 1 str delim mx;
          cp' = (if mx = 0 \<or> cp < mx then cp else if cp > mx then mx else cp);
          mx' = (if mx = 0 \<or> cp < mx then cp else mx) in
      if \<not> ok then Some None
      else if cp' < 0 then None
      else if \<not> okw then (if mx' \<le> 1 then Some (Some (cp', [None, None])) else None)
      else let (fs, wp) = tok_loop dup 0 (nat (mx' - 1)) str delim in
        if length fs + 1 > nat cp' + 1 then None
        else Some (Some (cp', fs @ [HX_strdup (dup (length fs)) (Some wp), None])))"

definition HX_strsep2 :: "char list option \<Rightarrow> char list \<Rightarrow> char list option \<times> char list option" where
  "HX_strsep2 wp str =
     (case wp of
        None \<Rightarrow> (None, None)
      | Some s \<Rightarrow>
          (case strstr s str of
             None \<Rightarrow> (Some s, None)
           | Some i \<Rightarrow> (Some (take i s), Some (drop (i + length str) s))))"

section \<open>Bounded copies\<close>

text \<open>
  Destinations are blocks; \<^verbatim>\<open>strncpy\<close> fills up with \<open>NUL\<close>, \<^verbatim>\<open>strncat\<close> appends at most
  \<open>n\<close> bytes and a \<open>NUL\<close>.
\<close>

definition strncpy :: "char list \<Rightarrow> char list \<Rightarrow> nat \<Rightarrow> char list option" where
  "strncpy dest src n = wrn dest 0 (take n src @ replicate (n - length src) NUL)"

definition strncat :: "char list \<Rightarrow> char list \<Rightarrow> nat \<Rightarrow> char list option" where
  "strncat dest src n = do { k \<leftarrow> strlen_block dest; wrn dest k (take n src @ [NUL]) }"

definition HX_strlcpy :: "char list \<Rightarrow> char list \<Rightarrow> u64 \<Rightarrow> char list option" where
  "HX_strlcpy dest src n =
     (if n = 0 then Some dest
      else do { dest \<leftarrow> strncpy dest src (unat n); wr dest (unat (n - 1)) NUL })"

definition HX_strlcat :: "char list \<Rightarrow> char list \<Rightarrow> u64 \<Rightarrow> char list option" where
  "HX_strlcat dest src len = do {
     k \<leftarrow> strlen_block dest;
     let x = len - of_nat k - 1;
     if sint x \<le> 0 then Some dest else strncat dest src (unat x)
   }"

definition HX_strlncat :: "char list \<Rightarrow> char list \<Rightarrow> u64 \<Rightarrow> u64 \<Rightarrow> char list option" where
  "HX_strlncat dest src dlen slen = do {
     k \<leftarrow> strlen_block dest;
     let x = dlen - of_nat k - 1;
     if sint x \<le> 0 then Some dest
     else do {
       let x = (if sint slen < sint x then slen else x);
       strncat dest src (unat x)
     }
   }"

text \<open>\<open>HX_strclone\<close> works on heap strings: it releases what \<^verbatim>\<open>*pa\<close> designates and allocates a
  copy of \<open>pb\<close>; \<open>mem\<close> is the address \<^verbatim>\<open>malloc\<close> returns. The result is the returned pointer (also
  the new \<^verbatim>\<open>*pa\<close>) and the heap.\<close>

definition HX_strclone :: "(addr \<rightharpoonup> char list) \<Rightarrow> ptr \<Rightarrow> ptr \<Rightarrow> ptr \<Rightarrow> (ptr \<times> (addr \<rightharpoonup> char list)) option" where
  "HX_strclone h pa pb mem =
     (if pa = pb then Some (pa, h)
      else do {
        h \<leftarrow> (case pa of None \<Rightarrow> Some h | Some a \<Rightarrow> if h a = None then None else Some (h(a := None)));
        if pb = None then Some (None, h)
        else do {
          s \<leftarrow> deref h pb;
          case mem of None \<Rightarrow> Some (None, h) | Some m \<Rightarrow> Some (Some m, h(m \<mapsto> s))
        }
      })"

definition HX_strndup :: "bool \<Rightarrow> char list option \<Rightarrow> u64 \<Rightarrow> char list option" where
  "HX_strndup ok src sz =
     (case src of None \<Rightarrow> None
      | Some s \<Rightarrow>
          (let z = (of_nat (length s) :: u64); sz = (if z < sz then z else sz) in
           if ok then Some (take (unat sz) s) else None))"

section \<open>Paths: facts\<close>

abbreviation SLASH :: char where "SLASH \<equiv> CHR ''/''"

definition path_body :: "char list \<Rightarrow> char list" where
  "path_body s = rev (dropWhile (\<lambda>c. c = SLASH) (rev s))"

definition last_component :: "char list \<Rightarrow> char list" where
  "last_component s = rev (takeWhile (\<lambda>c. c \<noteq> SLASH) (rev (path_body s)))"

lemma skip_back_body:
  "i \<le> length s \<Longrightarrow> skip_back s i \<le> i \<and> take (skip_back s i) s = path_body (take i s)"
  by (induction i) (auto simp: path_body_def take_Suc_conv_app_nth)

lemma strbchr_Some:
  "HX_strbchr s e d = Some p \<Longrightarrow> e \<le> length s \<Longrightarrow>
    p < e \<and> s ! p = d \<and> take e s = take p s @ d # drop (Suc p) (take e s) \<and> d \<notin> set (drop (Suc p) (take e s))"
proof (induction e)
  case (Suc e)
  show ?case
  proof (cases "s ! e = d")
    case True
    then have "p = e" using Suc.prems by simp
    then show ?thesis using Suc.prems True by (simp add: take_Suc_conv_app_nth)
  next
    case False
    then have IH: "p < e" "s ! p = d" "take e s = take p s @ d # drop (Suc p) (take e s)"
      "d \<notin> set (drop (Suc p) (take e s))"
      using Suc.IH Suc.prems by auto
    have "take (Suc e) s = take e s @ [s ! e]" using Suc.prems by (simp add: take_Suc_conv_app_nth)
    moreover from this have "drop (Suc p) (take (Suc e) s) = drop (Suc p) (take e s) @ [s ! e]"
      using IH(1) Suc.prems by simp
    ultimately show ?thesis using IH False
      by (metis Un_iff append.assoc append_Cons empty_iff empty_set less_SucI list.set_intros(1) set_ConsD set_append)
  qed
qed simp

lemma strbchr_None: "HX_strbchr s e d = None \<longleftrightarrow> (\<forall>i < e. s ! i \<noteq> d)"
  by (induction e) (auto simp: less_Suc_eq)

lemma strbchr_None_set: "e \<le> length s \<Longrightarrow> HX_strbchr s e d = None \<longleftrightarrow> d \<notin> set (take e s)"
  by (auto simp: strbchr_None in_set_conv_nth)

lemma last_comp_none:
  assumes "SLASH \<notin> set b"
  shows "rev (takeWhile (\<lambda>c. c \<noteq> SLASH) (rev b)) = b"
proof -
  have "takeWhile (\<lambda>c. c \<noteq> SLASH) (rev b) = rev b"
    using assms by (intro takeWhile_eq_all_conv [THEN iffD2]) auto
  then show ?thesis by (simp only: rev_rev_ident)
qed

lemma last_comp_split:
  assumes "b = us @ SLASH # v" "SLASH \<notin> set v"
  shows "rev (takeWhile (\<lambda>c. c \<noteq> SLASH) (rev b)) = v"
proof -
  have "takeWhile (\<lambda>c. c \<noteq> SLASH) (rev v @ SLASH # rev us) = rev v"
    using assms(2) by (intro takeWhile_append_stop) auto
  then show ?thesis using assms(1) by simp
qed

lemma path_body_decomp: "s = path_body s @ replicate (length s - length (path_body s)) SLASH"
proof -
  have "rev s = takeWhile (\<lambda>c. c = SLASH) (rev s) @ dropWhile (\<lambda>c. c = SLASH) (rev s)" by simp
  then have s: "s = path_body s @ rev (takeWhile (\<lambda>c. c = SLASH) (rev s))"
    unfolding path_body_def by (metis rev_append rev_rev_ident)
  have "takeWhile (\<lambda>c. c = SLASH) (rev s) = replicate (length (takeWhile (\<lambda>c. c = SLASH) (rev s))) SLASH"
    by (rule replicate_eqI) (auto dest: set_takeWhileD)
  then have "rev (takeWhile (\<lambda>c. c = SLASH) (rev s)) =
      replicate (length (takeWhile (\<lambda>c. c = SLASH) (rev s))) SLASH"
    by (metis rev_replicate)
  moreover have "length (takeWhile (\<lambda>c. c = SLASH) (rev s)) = length s - length (path_body s)"
    using arg_cong [OF s, of length] by simp
  ultimately show ?thesis using s by simp
qed

lemma path_body_last: "path_body s \<noteq> [] \<Longrightarrow> last (path_body s) \<noteq> SLASH"
  unfolding path_body_def using hd_dropWhile [of "\<lambda>c. c = SLASH" "rev s"] by (simp add: last_rev)

lemma last_component_cases:
  assumes "s \<noteq> []" "path_body s \<noteq> []"
  defines "e \<equiv> skip_back s (length s)"
  shows "e = length (path_body s)" "take e s = path_body s"
    "HX_strbchr s e SLASH = None \<Longrightarrow> last_component s = path_body s \<and> SLASH \<notin> set (path_body s)"
    "HX_strbchr s e SLASH = Some p \<Longrightarrow> p < e \<and> last_component s = drop (Suc p) (path_body s) \<and>
      path_body s = take p s @ SLASH # last_component s \<and> SLASH \<notin> set (last_component s)"
proof -
  have e: "e \<le> length s" "take e s = path_body s" using skip_back_body [of "length s" s] by (auto simp: e_def)
  show t: "take e s = path_body s" by (rule e(2))
  show l: "e = length (path_body s)" using e by (metis length_take min.absorb2)
  show "HX_strbchr s e SLASH = None \<Longrightarrow> last_component s = path_body s \<and> SLASH \<notin> set (path_body s)"
    using strbchr_None_set [OF e(1)] last_comp_none [of "path_body s"] e(2) by (simp add: last_component_def)
  assume "HX_strbchr s e SLASH = Some p"
  from strbchr_Some [OF this e(1)] have p: "p < e"
    "path_body s = take p s @ SLASH # drop (Suc p) (path_body s)" "SLASH \<notin> set (drop (Suc p) (path_body s))"
    unfolding e(2) by blast+
  then show "p < e \<and> last_component s = drop (Suc p) (path_body s) \<and>
      path_body s = take p s @ SLASH # last_component s \<and> SLASH \<notin> set (last_component s)"
    using last_comp_split [OF p(2,3)] by (simp add: last_component_def)
qed

lemma last_component_facts:
  "path_body s \<noteq> [] \<Longrightarrow> last_component s \<noteq> [] \<and> SLASH \<notin> set (last_component s)"
proof -
  assume a: "path_body s \<noteq> []"
  have "SLASH \<notin> set (last_component s)" by (auto simp: last_component_def dest: set_takeWhileD)
  moreover have "hd (rev (path_body s)) \<noteq> SLASH" using path_body_last [OF a] a by (simp add: hd_rev)
  then have "takeWhile (\<lambda>c. c \<noteq> SLASH) (rev (path_body s)) \<noteq> []"
    using a by (cases "rev (path_body s)") auto
  ultimately show ?thesis by (simp add: last_component_def)
qed

lemma path_body_Nil_iff: "path_body s = [] \<longleftrightarrow> set s \<subseteq> {SLASH}"
  by (auto simp: path_body_def)

text \<open>\<open>HX_basename_exact\<close> returns the last component of a path, without trailing slashes (a dot for
  the empty path, a slash for the root), and \<open>HX_basename\<close> points at that component inside the path:
  what follows it there are only the trailing slashes.\<close>

theorem HX_basename_component:
  "HX_basename_exact True s = Some (if s = [] then ''.'' else if path_body s = [] then ''/'' else last_component s) \<and>
   (s = [] \<and> HX_basename s = -1 \<or> s \<noteq> [] \<and> 0 \<le> HX_basename s \<and>
     drop (nat (HX_basename s)) s =
       (if path_body s = [] then ''/'' else last_component s @ replicate (length s - length (path_body s)) SLASH))"
proof (cases "s = []")
  case True
  then show ?thesis by (simp add: HX_basename_exact_def HX_basename_def HX_strdup_def)
next
  case ne: False
  show ?thesis
  proof (cases "path_body s = []")
    case True
    have z: "skip_back s (length s) = 0"
      using skip_back_body [of "length s" s] True ne by auto
    obtain n where n: "s = replicate (Suc n) SLASH"
      using path_body_decomp [of s] True ne by (metis append_Nil length_0_conv list.size(3) minus_nat.diff_0 not0_implies_Suc)
    have "drop (length s - 1) s = [SLASH]"
      unfolding n by (simp only: drop_replicate length_replicate) simp
    moreover have "nat (int (length s) - 1) = length s - 1" by simp
    ultimately show ?thesis using z ne True
      by (simp add: HX_basename_exact_def HX_basename_def HX_strdup_def)
  next
    case False
    note lc = last_component_cases [OF ne False]
    let ?e = "skip_back s (length s)" and ?r = "replicate (length s - length (path_body s)) SLASH"
    have e0: "?e \<noteq> 0" using lc(1) False by simp
    show ?thesis
    proof (cases "HX_strbchr s ?e SLASH")
      case None
      then show ?thesis using lc(1,2) lc(3) [OF None] e0 ne False path_body_decomp [of s, symmetric]
        by (simp add: HX_basename_exact_def HX_basename_def Let_def)
    next
      case (Some p)
      have "p < length (path_body s)" using lc(1) lc(4) [OF Some] by linarith
      then have d: "drop (Suc p) s = drop (Suc p) (path_body s) @ ?r"
        using arg_cong [OF path_body_decomp [of s], of "drop (Suc p)"] by simp
      have l: "last_component s = drop (Suc p) (path_body s)" using lc(4) [OF Some] by blast
      have "take (?e - Suc p) (drop (Suc p) s) = last_component s"
        using lc(2) l by (metis drop_take)
      moreover have "nat (int p + 1) = Suc p" by simp
      moreover have "drop (Suc p) s = last_component s @ ?r" using d l by simp
      ultimately show ?thesis using e0 ne False Some
        by (simp add: HX_basename_exact_def HX_basename_def Let_def)
    qed
  qed
qed

text \<open>What precedes the last component, and \<open>HX_dirname\<close>.\<close>

lemma skip_back1_body:
  "i < length s \<Longrightarrow> skip_back1 s i \<le> i \<and>
    take (skip_back1 s i + 1) s = (if path_body (take (i + 1) s) = [] then [s ! 0] else path_body (take (i + 1) s)) \<and>
    (skip_back1 s i = 0 \<or> s ! skip_back1 s i \<noteq> SLASH)"
proof (induction i)
  case 0
  then show ?case by (cases s) (auto simp: path_body_def)
next
  case (Suc i)
  show ?case
  proof (cases "s ! Suc i = SLASH")
    case True
    have "path_body (take (Suc i + 1) s) = path_body (take (i + 1) s)"
      using True Suc.prems by (simp add: path_body_def take_Suc_conv_app_nth)
    then show ?thesis using Suc True by auto
  next
    case False
    then have "path_body (take (Suc i + 1) s) = take (Suc i + 1) s"
      using Suc.prems by (simp add: path_body_def take_Suc_conv_app_nth)
    then show ?thesis using False Suc.prems by auto
  qed
qed

lemma path_body_all: "path_body (xs @ [c]) = (if c = SLASH then path_body xs else xs @ [c])"
  by (simp add: path_body_def)

lemma path_body_append: "path_body (xs @ replicate n SLASH) = path_body xs"
proof (induction n)
  case (Suc n)
  have "xs @ replicate (Suc n) SLASH = (xs @ replicate n SLASH) @ [SLASH]"
    by (simp add: replicate_append_same)
  then show ?case using Suc by (simp only: path_body_all) simp
qed simp



section \<open>Splitting: facts\<close>

definition ndelims :: "char list \<Rightarrow> char list \<Rightarrow> nat" where
  "ndelims s delim = length (filter (\<lambda>c. c \<in> set delim) s)"

fun interleave :: "char list list \<Rightarrow> char list \<Rightarrow> char list" where
  "interleave [] ds = []"
| "interleave (f # fs) [] = f @ concat fs"
| "interleave (f # fs) (d # ds) = f @ d # interleave fs ds"

lemma ndelims_None: "strpbrk s delim = None \<longleftrightarrow> ndelims s delim = 0"
  unfolding strpbrk_None ndelims_def by (auto simp: filter_empty_conv)

lemma ndelims_Some: "strpbrk s delim = Some i \<Longrightarrow> ndelims s delim = Suc (ndelims (drop (Suc i) s) delim)"
proof -
  assume a: "strpbrk s delim = Some i"
  have "filter (\<lambda>c. c \<in> set delim) s =
      filter (\<lambda>c. c \<in> set delim) (take i s @ s ! i # drop (Suc i) s)"
    using strpbrk_Some(4) [OF a] by simp
  moreover have "filter (\<lambda>c. c \<in> set delim) (take i s) = []"
    using strpbrk_Some(3) [OF a] by (auto simp: filter_empty_conv)
  ultimately show ?thesis using strpbrk_Some(2) [OF a] by (simp add: ndelims_def)
qed

lemma count_fields_eq:
  "1 \<le> n \<Longrightarrow> mx \<le> 0 \<or> n \<le> mx \<Longrightarrow> count_fields n wp delim mx =
    (if mx > 0 then min (n + int (ndelims wp delim)) mx else n + int (ndelims wp delim))"
proof (induction n wp delim mx rule: count_fields.induct)
  case (1 n wp delim mx)
  show ?case
  proof (cases "strpbrk wp delim")
    case None
    then have "ndelims wp delim = 0" using ndelims_None by blast
    then show ?thesis using 1(2,3) None by (subst count_fields.simps) auto
  next
    case (Some i)
    note nd = ndelims_Some [OF Some]
    show ?thesis
    proof (cases "n + 1 \<ge> mx \<and> mx > 0")
      case True
      then show ?thesis using Some nd 1(2,3) by (subst count_fields.simps) auto
    next
      case False
      have "count_fields n wp delim mx = count_fields (n + 1) (drop (Suc i) wp) delim mx"
        using False Some by (subst count_fields.simps) auto
      then show ?thesis using 1(1) [OF Some False] 1(2,3) False nd by auto
    qed
  qed
qed

lemma split_loop_spec:
  obtains ds where "length (split_loop k s delim) = Suc (min k (ndelims s delim))"
    "Suc (length ds) = length (split_loop k s delim)" "set ds \<subseteq> set delim"
    "s = interleave (split_loop k s delim) ds"
    "set (concat (butlast (split_loop k s delim))) \<inter> set delim = {}"
    "ndelims (last (split_loop k s delim)) delim = ndelims s delim - k"
proof (induction k arbitrary: s thesis)
  case 0
  show ?case by (rule 0 [of "[]"]) simp_all
next
  case (Suc k)
  show ?case
  proof (cases "strpbrk s delim")
    case None
    then have "ndelims s delim = 0" using ndelims_None by blast
    then show ?thesis using None by (intro Suc.prems [of "[]"]) simp_all
  next
    case (Some i)
    let ?r = "split_loop k (drop (Suc i) s) delim"
    obtain ds where ds: "length ?r = Suc (min k (ndelims (drop (Suc i) s) delim))"
      "Suc (length ds) = length ?r" "set ds \<subseteq> set delim" "drop (Suc i) s = interleave ?r ds"
      "set (concat (butlast ?r)) \<inter> set delim = {}"
      "ndelims (last ?r) delim = ndelims (drop (Suc i) s) delim - k"
      using Suc.IH [of "drop (Suc i) s"] by metis
    have ne: "?r \<noteq> []" using ds(1) by auto
    have "s = take i s @ s ! i # drop (Suc i) s" by (rule strpbrk_Some(4) [OF Some])
    then have "s = interleave (take i s # ?r) (s ! i # ds)" using ds(4) by simp
    moreover have "split_loop (Suc k) s delim = take i s # ?r" using Some by simp
    ultimately show ?thesis
      using ds ne Some strpbrk_Some(2,3) [OF Some] ndelims_Some [OF Some]
      by (intro Suc.prems [of "s ! i # ds"]) auto
  qed
qed

lemma split_loop_length: "length (split_loop k s delim) = Suc (min k (ndelims s delim))"
  by (rule split_loop_spec)

text \<open>\<open>HX_split_inplace\<close> cuts the string at its delimiters: the fields and the delimiters between
  them, put together again, are the string; no field but the last holds a delimiter, the last one holds
  those that the limit left over; their number is the number of delimiters plus one, cut off at a
  positive limit. The vector is \<^verbatim>\<open>NULL\<close>-terminated, the reported count is exact, and no write
  leaves it.\<close>

theorem HX_split_inplace_fields:
  defines "n s delim mx \<equiv> (if mx > 0 then min (Suc (ndelims s delim)) (nat mx) else Suc (ndelims s delim))"
  shows "\<exists>fs ds. HX_split_inplace True s delim mx = Some (Some (int (n s delim mx), map Some fs @ [None])) \<and>
    length fs = n s delim mx \<and> Suc (length ds) = length fs \<and> set ds \<subseteq> set delim \<and> s = interleave fs ds \<and>
    set (concat (butlast fs)) \<inter> set delim = {} \<and>
    ndelims (last fs) delim + n s delim mx = Suc (ndelims s delim)"
proof -
  let ?n = "n s delim mx"
  have c: "count_fields 1 s delim mx = int ?n"
    using count_fields_eq [of 1 mx s delim] by (auto simp: n_def)
  have n1: "1 \<le> ?n" "?n \<le> Suc (ndelims s delim)" by (auto simp: n_def)
  let ?fs = "split_loop (nat (int ?n - 1)) s delim"
  obtain ds where ds: "length ?fs = Suc (min (nat (int ?n - 1)) (ndelims s delim))"
    "Suc (length ds) = length ?fs" "set ds \<subseteq> set delim" "s = interleave ?fs ds"
    "set (concat (butlast ?fs)) \<inter> set delim = {}"
    "ndelims (last ?fs) delim = ndelims s delim - nat (int ?n - 1)"
    using split_loop_spec [of "nat (int ?n - 1)" s delim] by metis
  have l: "length ?fs = ?n" using ds(1) n1 by simp
  have "HX_split_inplace True s delim mx = Some (Some (int ?n, map Some ?fs @ [None]))"
    using c l by (simp add: HX_split_inplace_def HX_split_fixed_def Let_def)
  moreover have "ndelims (last ?fs) delim + ?n = Suc (ndelims s delim)" using ds(6) n1 by simp
  ultimately show ?thesis using l ds by blast
qed

lemma strtok_field:
  assumes "strpbrk s delim = Some i" "take i s \<noteq> []"
  shows "strtok_r s delim = (Some (take i s), drop (Suc i) s)"
proof -
  have s: "s = take i s @ s ! i # drop (Suc i) s" by (rule strpbrk_Some(4) [OF assms(1)])
  have a: "\<forall>c \<in> set (take i s). c \<notin> set delim" using strpbrk_Some(3) [OF assms(1)] by auto
  obtain x xs where x: "take i s = x # xs" using assms(2) by (cases "take i s") auto
  have "dropWhile (\<lambda>c. c \<in> set delim) s = s" using a x s
    by (metis append_Cons dropWhile.simps(2) list.set_intros(1))
  moreover have "takeWhile (\<lambda>c. c \<notin> set delim) s = take i s"
    using takeWhile_append_stop [OF a, of "s ! i"] strpbrk_Some(2) [OF assms(1)] s by metis
  moreover have "dropWhile (\<lambda>c. c \<notin> set delim) s = s ! i # drop (Suc i) s"
    using dropWhile_append_stop [OF a, of "s ! i"] strpbrk_Some(2) [OF assms(1)] s by metis
  moreover have "s \<noteq> []" using x by auto
  ultimately show ?thesis by (simp add: strtok_r_def)
qed

lemma tok_loop_fields:
  "k \<le> ndelims s delim \<Longrightarrow> [] \<notin> set (butlast (split_loop k s delim)) \<Longrightarrow>
    tok_loop (\<lambda>_. True) i k s delim =
      (map Some (butlast (split_loop k s delim)), last (split_loop k s delim))"
proof (induction k arbitrary: s i)
  case (Suc k)
  obtain j where j: "strpbrk s delim = Some j"
    using Suc.prems(1) ndelims_None [of s delim] by (cases "strpbrk s delim") auto
  let ?r = "split_loop k (drop (Suc j) s) delim"
  have ne: "?r \<noteq> []" by (cases k) (auto split: option.split)
  have sl: "split_loop (Suc k) s delim = take j s # ?r" using j by simp
  then have nt: "take j s \<noteq> []" "[] \<notin> set (butlast ?r)" using Suc.prems(2) ne by auto
  have "k \<le> ndelims (drop (Suc j) s) delim" using Suc.prems(1) ndelims_Some [OF j] by simp
  from Suc.IH [OF this nt(2), of "Suc i"] show ?case
    unfolding sl using strtok_field [OF j nt(1)] ne by (simp add: HX_strdup_def)
qed simp

text \<open>with a limit that is not negative, \<open>HX_split\<close> agrees with \<open>HX_split_inplace\<close> on every string
  none of whose cut-off fields is empty.\<close>

theorem HX_split_nonempty_fields:
  assumes "mx \<ge> 0" and "[] \<notin> set (butlast (HX_split_fixed s delim (count_fields 1 s delim mx)))"
  shows "HX_split True True (\<lambda>_. True) s delim mx = HX_split_inplace True s delim mx"
proof -
  let ?c = "count_fields 1 s delim mx"
  have c: "?c = (if mx > 0 then min (1 + int (ndelims s delim)) mx else 1 + int (ndelims s delim))"
    using count_fields_eq [of 1 mx s delim] by auto
  have c1: "?c \<ge> 1" "mx = 0 \<or> ?c \<le> mx" using c assms(1) by (auto simp: min_def)
  have k: "nat (?c - 1) \<le> ndelims s delim" using c by auto
  let ?fs = "split_loop (nat (?c - 1)) s delim"
  have t: "tok_loop (\<lambda>_. True) 0 (nat (?c - 1)) s delim = (map Some (butlast ?fs), last ?fs)"
    using tok_loop_fields [OF k] assms(2) by (simp add: HX_split_fixed_def)
  have l: "length ?fs = nat ?c" using split_loop_length [of "nat (?c - 1)" s delim] k c1 by simp
  then have ne: "?fs \<noteq> []" using c1(1) by auto
  have mxc: "(if mx = 0 \<or> ?c < mx then ?c else mx) = ?c"
    "(if mx = 0 \<or> ?c < mx then ?c else if ?c > mx then mx else ?c) = ?c" using c1(2) by auto
  have "map Some (butlast ?fs) @ [Some (last ?fs), None] = map Some ?fs @ [None]"
    using ne by (cases ?fs rule: rev_cases) simp_all
  then show ?thesis unfolding HX_split_def HX_split_inplace_def HX_split_fixed_def Let_def mxc
    using t l c1 ne by (simp add: HX_strdup_def)
qed

theorem HX_split_nonempty_fields_witness:
  "HX_split True True (\<lambda>_. True) ''a:bc:d'' '':'' 0 = HX_split_inplace True ''a:bc:d'' '':'' 0"
proof -
  have "count_fields 1 ''a:bc:d'' '':'' 0 = 3"
    by (simp add: count_fields.simps strpbrk_def strcspn_def)
  then show ?thesis
    by (intro HX_split_nonempty_fields)
      (simp_all add: HX_split_fixed_def numeral_2_eq_2 strpbrk_def strcspn_def)
qed

text \<open>where they disagree. \<open>HX_split\<close> drops empty fields although it has counted them, so fields
  move to the left and the missing ones become \<^verbatim>\<open>NULL\<close> inside the vector; and a negative limit is a
  write in front of the vector for \<open>HX_split\<close>, no limit for \<open>HX_split_inplace\<close>.\<close>

theorem HX_split_empty_fields:
  "HX_split True True (\<lambda>_. True) ''a::b'' '':'' 0 = Some (Some (3, [Some ''a'', Some ''b'', Some [], None])) \<and>
   HX_split_inplace True ''a::b'' '':'' 0 = Some (Some (3, [Some ''a'', Some [], Some ''b'', None])) \<and>
   HX_split True True (\<lambda>_. True) ''::'' '':'' 0 = Some (Some (3, [None, None, Some [], None])) \<and>
   HX_split True True (\<lambda>_. True) ''a'' '':'' (-1) = None \<and>
   HX_split_inplace True ''a'' '':'' (-1) = Some (Some (1, [Some ''a'', None]))"
  by (simp add: HX_split_def HX_split_inplace_def HX_split_fixed_def count_fields.simps strpbrk_def
      strcspn_def strtok_r_def HX_strdup_def numeral_2_eq_2)

section \<open>Trimming and reversing: facts\<close>

lemma rtrim_loop_spec:
  "i \<le> length s \<Longrightarrow> rtrim_loop s i n = (j, m) \<Longrightarrow>
    j \<le> i \<and> m = n + (i - j) \<and> (\<forall>c \<in> set (drop j (take i s)). isspace c) \<and> (j = 0 \<or> \<not> isspace (s ! (j - 1)))"
proof (induction i arbitrary: n)
  case (Suc i)
  show ?case
  proof (cases "isspace (s ! i)")
    case True
    then have IH: "j \<le> i" "m = Suc n + (i - j)" "\<forall>c \<in> set (drop j (take i s)). isspace c"
      "j = 0 \<or> \<not> isspace (s ! (j - 1))"
      using Suc.IH [of "Suc n"] Suc.prems by auto
    have "drop j (take (Suc i) s) = drop j (take i s) @ [s ! i]"
      using Suc.prems(1) IH(1) by (simp add: take_Suc_conv_app_nth)
    then show ?thesis using IH True by auto
  qed (use Suc.prems in auto)
qed simp

lemma chomp_end_spec:
  "i \<le> length s \<Longrightarrow> chomp_end s i \<le> i \<and>
    (\<forall>c \<in> set (drop (chomp_end s i) (take i s)). c = CHR 0x0A \<or> c = CHR 0x0D) \<and>
    (chomp_end s i = 0 \<or> s ! (chomp_end s i - 1) \<notin> {CHR 0x0A, CHR 0x0D})"
proof (induction i)
  case (Suc i)
  show ?case
  proof (cases "s ! i \<noteq> CHR 0x0A \<and> s ! i \<noteq> CHR 0x0D")
    case False
    then have IH: "chomp_end s i \<le> i" "\<forall>c \<in> set (drop (chomp_end s i) (take i s)). c = CHR 0x0A \<or> c = CHR 0x0D"
      "chomp_end s i = 0 \<or> s ! (chomp_end s i - 1) \<notin> {CHR 0x0A, CHR 0x0D}"
      using Suc by auto
    have "drop (chomp_end s i) (take (Suc i) s) = drop (chomp_end s i) (take i s) @ [s ! i]"
      using Suc.prems(1) IH(1) by (simp add: take_Suc_conv_app_nth)
    moreover have "chomp_end s (Suc i) = chomp_end s i" using False by auto
    ultimately show ?thesis using IH False by auto
  qed (use Suc.prems in auto)
qed simp

text \<open>the three trimming functions cut off exactly a maximal run: \<open>HX_strltrim\<close> the leading white
  space, \<open>HX_strrtrim\<close> the trailing white space, \<open>HX_chomp\<close> the trailing line terminators; the first two
  return its length.\<close>

theorem HX_trim_maximal:
  "(\<exists>w. s = w @ snd (HX_strltrim s) \<and> length w = fst (HX_strltrim s) \<and> filter isspace w = w \<and>
      (snd (HX_strltrim s) = [] \<or> \<not> isspace (hd (snd (HX_strltrim s))))) \<and>
   (\<exists>w. s = snd (HX_strrtrim s) @ w \<and> length w = fst (HX_strrtrim s) \<and> filter isspace w = w \<and>
      (snd (HX_strrtrim s) = [] \<or> \<not> isspace (last (snd (HX_strrtrim s))))) \<and>
   (\<exists>w. s = HX_chomp s @ w \<and> set w \<subseteq> {CHR 0x0A, CHR 0x0D} \<and>
      (HX_chomp s = [] \<or> last (HX_chomp s) \<notin> {CHR 0x0A, CHR 0x0D}))"
proof (intro conjI)
  have d: "drop (length (takeWhile isspace s)) s = dropWhile isspace s" by (simp add: dropWhile_eq_drop)
  have l: "snd (HX_strltrim s) = dropWhile isspace s" "fst (HX_strltrim s) = length (takeWhile isspace s)"
    using d by (auto simp: HX_strltrim_def Let_def)
  show "\<exists>w. s = w @ snd (HX_strltrim s) \<and> length w = fst (HX_strltrim s) \<and> filter isspace w = w \<and>
      (snd (HX_strltrim s) = [] \<or> \<not> isspace (hd (snd (HX_strltrim s))))"
    unfolding l using hd_dropWhile [of isspace s]
    by (intro exI [of _ "takeWhile isspace s"]) (auto simp: filter_id_conv dest: set_takeWhileD)
  obtain j m where r: "rtrim_loop s (length s) 0 = (j, m)" by fastforce
  from rtrim_loop_spec [OF order_refl this] have j: "j \<le> length s" "m = length s - j"
    "\<forall>c \<in> set (drop j s). isspace c" "j = 0 \<or> \<not> isspace (s ! (j - 1))" by auto
  have t: "snd (HX_strrtrim s) = take j s" "fst (HX_strrtrim s) = m" using r by (auto simp: HX_strrtrim_def)
  have "take j s = [] \<or> \<not> isspace (last (take j s))" using j by (auto simp: last_conv_nth min_def split: if_splits)
  then show "\<exists>w. s = snd (HX_strrtrim s) @ w \<and> length w = fst (HX_strrtrim s) \<and> filter isspace w = w \<and>
      (snd (HX_strrtrim s) = [] \<or> \<not> isspace (last (snd (HX_strrtrim s))))"
    unfolding t using j by (intro exI [of _ "drop j s"]) (auto simp: filter_id_conv)
  let ?e = "chomp_end s (length s)"
  have e: "?e \<le> length s" "\<forall>c \<in> set (drop ?e s). c = CHR 0x0A \<or> c = CHR 0x0D"
    "?e = 0 \<or> s ! (?e - 1) \<notin> {CHR 0x0A, CHR 0x0D}"
    using chomp_end_spec [of "length s" s] by auto
  have "take ?e s = [] \<or> last (take ?e s) \<notin> {CHR 0x0A, CHR 0x0D}"
    using e(1,3) by (auto simp: last_conv_nth min_def split: if_splits)
  then show "\<exists>w. s = HX_chomp s @ w \<and> set w \<subseteq> {CHR 0x0A, CHR 0x0D} \<and>
      (HX_chomp s = [] \<or> last (HX_chomp s) \<notin> {CHR 0x0A, CHR 0x0D})"
    unfolding HX_chomp_def using e by (intro exI [of _ "drop ?e s"]) auto
qed

theorem HX_trim_maximal_witness:
  "(\<exists>w. ''  a b '' = w @ snd (HX_strltrim ''  a b '') \<and> length w = fst (HX_strltrim ''  a b '')) \<and>
    HX_strltrim ''  a b '' = (2, ''a b '')"
  using HX_trim_maximal [of "''  a b ''"] by (auto simp: HX_strltrim_def isspace_def Let_def)

text \<open>\<open>rev_loop\<close> exchanges the outermost \<open>z2\<close> pairs.\<close>

lemma rev_loop_spec:
  assumes "unat z < length b" "2 * z2 \<le> unat z + 1" "i \<le> z2"
  shows "\<exists>r. rev_loop b z i z2 = Some r \<and> length r = length b \<and>
    (\<forall>k < length b. r ! k =
      (if i \<le> k \<and> k < z2 \<or> unat z - z2 < k \<and> k \<le> unat z - i then b ! (unat z - k) else b ! k))"
  using assms
proof (induction "z2 - i" arbitrary: b i)
  case 0
  then have "i = z2" by simp
  then show ?case using 0 by (subst rev_loop.simps) auto
next
  case (Suc d)
  have i: "i < z2" using Suc.hyps(2) by simp
  let ?Z = "unat z"
  have zi: "unat (z - of_nat i) = ?Z - i"
  proof -
    have l: "i \<le> ?Z" using i Suc.prems(2) by linarith
    have "i < 2 ^ 64" using l unat_bound [of z] by simp
    then have "unat (of_nat i :: u64) = i" by (simp add: unat_of_nat take_bit_nat_eq_self)
    then show ?thesis using l by (subst unat_sub) (simp_all add: word_le_nat_alt)
  qed
  have lt: "i < length b" "?Z - i < length b" "i < ?Z - i"
    using i Suc.prems(1,2) by linarith+
  let ?b = "b[i := b ! (?Z - i), ?Z - i := b ! i]"
  obtain r where r: "rev_loop ?b z (Suc i) z2 = Some r" "length r = length ?b"
    "\<And>k. k < length ?b \<Longrightarrow> r ! k =
      (if Suc i \<le> k \<and> k < z2 \<or> ?Z - z2 < k \<and> k \<le> ?Z - Suc i then ?b ! (?Z - k) else ?b ! k)"
    using Suc.hyps(1) [of "Suc i" ?b] Suc.hyps(2) Suc.prems i by fastforce
  have "rev_loop b z i z2 = Some r"
    using i lt zi r(1) by (subst rev_loop.simps) (simp add: rd_def wr_def)
  moreover have "r ! k = (if i \<le> k \<and> k < z2 \<or> ?Z - z2 < k \<and> k \<le> ?Z - i then b ! (?Z - k) else b ! k)"
    if k: "k < length b" for k
  proof -
    consider "k = i" | "k = ?Z - i" | "k \<noteq> i" "k \<noteq> ?Z - i" by blast
    then show ?thesis
    proof cases
      case 1
      have "\<not> ?Z - z2 < i" using i Suc.prems(2) by linarith
      then show ?thesis using 1 r(3) [of k] k i lt by (simp add: nth_list_update)
    next
      case 2
      then have "?Z - k = i" "\<not> k < z2" "?Z - z2 < k" "\<not> k \<le> ?Z - Suc i"
        using lt i Suc.prems(2) by linarith+
      then show ?thesis using 2 r(3) [of k] k lt by (simp add: nth_list_update)
    next
      case 3
      then have n: "?Z - k \<noteq> i \<or> k > ?Z" "?b ! k = b ! k" using lt by (auto simp: nth_list_update)
      show ?thesis
      proof (cases "i < k \<and> k < z2 \<or> ?Z - z2 < k \<and> k < ?Z - i")
        case True
        then have "?Z - k \<noteq> ?Z - i" "?Z - k \<noteq> i" using 3 lt i Suc.prems(2) by linarith+
        then have "?b ! (?Z - k) = b ! (?Z - k)" by (simp add: nth_list_update)
        then show ?thesis using r(3) [of k] k True 3 by auto
      next
        case False
        then have "\<not> (Suc i \<le> k \<and> k < z2 \<or> ?Z - z2 < k \<and> k \<le> ?Z - Suc i)"
          "\<not> (i \<le> k \<and> k < z2 \<or> ?Z - z2 < k \<and> k \<le> ?Z - i)" using 3 by linarith+
        then show ?thesis using r(3) [of k] k n(2) by (simp only: if_False length_list_update)
      qed
    qed
  qed
  ultimately show ?case using r(2) by auto
qed

text \<open>what \<open>HX_strrev\<close> computes. A string of odd length is reversed; of a string of even length the
  two bytes in the middle keep their places; on the empty string the index computation wraps and the
  function writes out of bounds.\<close>

theorem HX_strrev_effect:
  assumes "length s < 2 ^ 63" and "NUL \<notin> set s"
  shows "if s = [] then HX_strrev s = None
    else if odd (length s) then HX_strrev s = Some (rev s)
    else let h = length s div 2 in
      HX_strrev s = Some (take (h - 1) (rev s) @ [s ! (h - 1), s ! h] @ drop (h + 1) (rev s))"
proof (cases "s = []")
  case True
  have "unat (- 1 :: u64) = 2 ^ 64 - 1"
    by (simp add: unsigned_minus_1_eq_mask mask_eq_exp_minus_1)
  then have "unat (- 1 div 2 :: u64) = 2 ^ 63 - 1" "rd [NUL] (unat (- 1 :: u64)) = None"
    by (simp_all add: unat_div rd_def)
  then show ?thesis using True
    by (simp add: HX_strrev_def rev_loop.simps [of "[NUL]"])
next
  case False
  let ?L = "length s"
  let ?z = "(of_nat ?L :: u64) - 1"
  have z: "unat ?z = ?L - 1"
  proof -
    have "?z = of_nat (?L - 1)" using False by (cases s) simp_all
    then show ?thesis using assms(1) by (simp add: unat_of_nat take_bit_nat_eq_self)
  qed
  have z2: "unat (?z div 2) = (?L - 1) div 2" by (simp add: unat_div z)
  obtain r where r: "rev_loop (s @ [NUL]) ?z 0 ((?L - 1) div 2) = Some r" "length r = Suc ?L"
    "\<And>k. k < Suc ?L \<Longrightarrow> r ! k = (if k < (?L - 1) div 2 \<or> ?L - 1 - (?L - 1) div 2 < k \<and> k \<le> ?L - 1
      then (s @ [NUL]) ! (?L - 1 - k) else (s @ [NUL]) ! k)"
  proof -
    have "\<exists>r. rev_loop (s @ [NUL]) ?z 0 ((?L - 1) div 2) = Some r \<and> length r = length (s @ [NUL]) \<and>
      (\<forall>k < length (s @ [NUL]). r ! k =
        (if 0 \<le> k \<and> k < (?L - 1) div 2 \<or> ?L - 1 - (?L - 1) div 2 < k \<and> k \<le> ?L - 1 - 0
         then (s @ [NUL]) ! (?L - 1 - k) else (s @ [NUL]) ! k))"
      by (rule rev_loop_spec [of ?z "s @ [NUL]" "(?L - 1) div 2" 0, unfolded z]) auto
    then show thesis using that by auto
  qed
  define t where "t = take ?L r"
  have lt: "length t = ?L" using r(2) by (simp add: t_def)
  have rt: "r = t @ [NUL]"
  proof -
    have "\<not> ?L < (?L - 1) div 2" "\<not> ?L \<le> ?L - 1" 
      using False by (linarith, cases s, simp_all)
    then have "r ! ?L = NUL" using r(3) [of ?L] by (simp add: nth_append)
    then show ?thesis using r(2) take_Suc_conv_app_nth [of ?L r] by (simp add: t_def)
  qed
  have tn: "t ! k = (if k < (?L - 1) div 2 \<or> ?L - 1 - (?L - 1) div 2 < k then s ! (?L - 1 - k) else s ! k)"
    if "k < ?L" for k
    using r(3) [of k] that False by (auto simp: t_def nth_append)
  have "set t \<subseteq> set s"
  proof
    fix x assume "x \<in> set t"
    then obtain k where "k < ?L" "x = t ! k" by (auto simp: in_set_conv_nth lt)
    then show "x \<in> set s" using tn [of k] False by (auto split: if_splits)
  qed
  then have "cstr r = t" using rt cstr_append [of t "[]"] assms(2) by auto
  then have st: "HX_strrev s = Some t" using r(1) by (simp add: HX_strrev_def Let_def z2)
  show ?thesis
  proof (cases "odd ?L")
    case True
    have "t = rev s"
      using True tn by (intro nth_equalityI) (auto simp: lt rev_nth elim!: oddE)
    then show ?thesis using st True False by simp
  next
    case ev: False
    then obtain h where h: "?L = 2 * h" by auto
    then have hp: "h \<ge> 1" using False by (cases h) auto
    have "t = take (h - 1) (rev s) @ [s ! (h - 1), s ! h] @ drop (h + 1) (rev s)"
    proof (intro nth_equalityI)
      fix k assume "k < length t"
      then have k: "k < 2 * h" using lt h by simp
      have d: "(2 * h - 1) div 2 = h - 1" "2 * h - 1 - (h - 1) = h" using hp by auto
      have tk: "t ! k = (if k < h - 1 \<or> h < k then s ! (2 * h - 1 - k) else s ! k)"
        using tn [of k] k unfolding h d by simp
      consider "k < h - 1" | "k = h - 1" | "k = h" | "h < k" by linarith
      then show "t ! k = (take (h - 1) (rev s) @ [s ! (h - 1), s ! h] @ drop (h + 1) (rev s)) ! k"
        using tk k h hp by cases (auto simp: nth_append rev_nth)
    qed (use lt h hp in auto)
    then show ?thesis using st ev False h by (simp add: Let_def)
  qed
qed

theorem HX_strrev_effect_witness:
  "HX_strrev ''abc'' = Some ''cba'' \<and> HX_strrev ''ab'' = Some ''ab'' \<and> HX_strrev [] = None"
  using HX_strrev_effect [of "''abc''"] HX_strrev_effect [of "''ab''"] HX_strrev_effect [of "[]"]
  by (simp add: Let_def)

section \<open>Searching memory: facts\<close>

lemma memchr_Some:
  assumes "memchr b from c n = Some t"
  shows "from \<le> t" "t < length b" "t < from + n" "b ! t = c" "from \<le> j \<Longrightarrow> j < t \<Longrightarrow> b ! j \<noteq> c"
proof -
  let ?xs = "take n (drop from b)"
  let ?k = "length (takeWhile (\<lambda>d. d \<noteq> c) ?xs)"
  have k: "?k < length ?xs" "t = from + ?k"
    using assms by (auto simp: memchr_def Let_def split: if_splits)
  then show "from \<le> t" "t < length b" "t < from + n" by auto
  have "from \<le> length b" using k(1) by auto
  then show "b ! t = c" using nth_length_takeWhile [OF k(1)] k by simp
  show "b ! j \<noteq> c" if "from \<le> j" "j < t"
  proof -
    have "j - from < ?k" using that k(2) by linarith
    then show ?thesis using takeWhile_index [of "j - from" "\<lambda>d. d \<noteq> c" ?xs] that k by auto
  qed
qed

lemma memchr_None:
  assumes "memchr b from c n = None" "from \<le> j" "j < from + n" "j < length b"
  shows "b ! j \<noteq> c"
proof -
  let ?xs = "take n (drop from b)"
  have "\<not> length (takeWhile (\<lambda>d. d \<noteq> c) ?xs) < length ?xs"
    using assms(1) by (auto simp: memchr_def Let_def split: if_splits)
  moreover have "j - from < length ?xs" using assms(2-4) by auto
  ultimately have "?xs ! (j - from) \<noteq> c"
    using takeWhile_whole [of "\<lambda>d. d \<noteq> c" ?xs "?xs ! (j - from)"] nth_mem [of "j - from" ?xs] by blast
  then show ?thesis using assms(2-4) by auto
qed

text \<open>\<open>occurs_at\<close> is what a search for a needle looks for.\<close>

definition occurs_at :: "'a list \<Rightarrow> 'a list \<Rightarrow> nat \<Rightarrow> bool" where
  "occurs_at space point i \<longleftrightarrow> i + length point \<le> length space \<and> take (length point) (drop i space) = point"

lemma occurs_last:
  assumes "occurs_at space point i" "point \<noteq> []"
  shows "space ! (i + length point - 1) = point ! (length point - 1)"
proof -
  let ?m = "length point"
  have p: "take ?m (drop i space) = point" "i + ?m \<le> length space" "?m \<ge> 1"
    using assms by (auto simp: occurs_at_def Suc_le_eq)
  have "take ?m (drop i space) ! (?m - 1) = space ! (i + (?m - 1))" using p(2,3) by simp
  moreover have "i + (?m - 1) = i + ?m - 1" using p(3) by simp
  ultimately show ?thesis using p(1) by simp
qed

lemma memmem_loop_spec:
  assumes "point \<noteq> []" "length point - 1 \<le> tail" "tail < length space"
    "\<forall>j < tail + 1 - length point. \<not> occurs_at space point j"
  shows "case memmem_loop space point tail of
      None \<Rightarrow> \<forall>j. \<not> occurs_at space point j
    | Some i \<Rightarrow> occurs_at space point i \<and> (\<forall>j < i. \<not> occurs_at space point j)"
  using assms
proof (induction space point tail rule: memmem_loop.induct)
  case (1 space point tail)
  let ?m = "length point" and ?h = "tail + 1 - length point" and ?n = "length space - (tail + 1)"
  have m: "?m \<ge> 1" using 1(2) by (cases point) auto
  then have h: "?h + ?m = tail + 1" using 1(3) by auto
  show ?case
  proof (cases "take ?m (drop ?h space) = point")
    case True
    then have "occurs_at space point ?h" using h 1(4) by (simp add: occurs_at_def)
    then show ?thesis using True 1(5) by (subst memmem_loop.simps) (simp add: Let_def)
  next
    case False
    have no: "\<not> occurs_at space point ?h" using False by (simp add: occurs_at_def)
    have skip: "\<not> occurs_at space point j" if "j + ?m - 1 \<le> tail" for j
      using that no 1(5) h by (cases "j = ?h") auto
    show ?thesis
    proof (cases "memchr space (tail + 1) (point ! (?m - 1)) ?n")
      case None
      have "\<not> occurs_at space point j" for j
      proof (cases "j + ?m - 1 \<le> tail")
        case after: False
        show ?thesis
        proof
          assume o: "occurs_at space point j"
          then have "j + ?m - 1 < length space" using m by (auto simp: occurs_at_def)
          moreover have "tail + 1 \<le> j + ?m - 1" "tail + 1 + ?n = length space" using after 1(4) by auto
          ultimately have "space ! (j + ?m - 1) \<noteq> point ! (?m - 1)"
            by (intro memchr_None [OF None]) linarith+
          then show False using occurs_last [OF o 1(2)] by simp
        qed
      qed (rule skip)
      then show ?thesis using False None by (subst memmem_loop.simps) (simp add: Let_def)
    next
      case (Some t)
      note t = memchr_Some [OF Some]
      have "\<not> occurs_at space point j" if "j < t + 1 - ?m" for j
      proof (cases "j + ?m - 1 \<le> tail")
        case after: False
        show ?thesis
        proof
          assume o: "occurs_at space point j"
          show False using occurs_last [OF o 1(2)] t after that m by auto
        qed
      qed (rule skip)
      then have "case memmem_loop space point t of
          None \<Rightarrow> \<forall>j. \<not> occurs_at space point j
        | Some i \<Rightarrow> occurs_at space point i \<and> (\<forall>j < i. \<not> occurs_at space point j)"
        using 1(1) [OF refl False Some 1(2)] t 1(3) by auto
      then show ?thesis using False Some by (subst memmem_loop.simps) (simp add: Let_def)
    qed
  qed
qed

text \<open>\<open>HX_memmem\<close>, which jumps from one occurrence of the needle's last byte to the next, finds the
  first occurrence of the needle, and reports \<^verbatim>\<open>NULL\<close> exactly when there is none.\<close>

theorem HX_memmem_first:
  "case HX_memmem space point of
      None \<Rightarrow> {j. occurs_at space point j} = {}
    | Some i \<Rightarrow> occurs_at space point i \<and> {j. j < i \<and> occurs_at space point j} = {}"
proof (cases "length point = 0 \<or> length point > length space")
  case True
  then show ?thesis by (auto simp: HX_memmem_def occurs_at_def Let_def)
next
  case False
  let ?m = "length point"
  have m: "1 \<le> ?m" "?m \<le> length space" "point \<noteq> []" using False by (auto simp: Suc_le_eq)
  let ?c = "memchr space (?m - 1) (point ! (?m - 1)) (length space - (?m - 1))"
  have before: "\<not> occurs_at space point j" if "?c = Some t" "j < t + 1 - ?m" for t j
  proof
    assume o: "occurs_at space point j"
    show False using occurs_last [OF o m(3)] memchr_Some [OF that(1)] that(2) m(1) by auto
  qed
  show ?thesis
  proof (cases ?c)
    case None
    have "\<not> occurs_at space point j" for j
    proof
      assume o: "occurs_at space point j"
      then have "j + ?m - 1 < length space" using m(1) by (auto simp: occurs_at_def)
      moreover have "?m - 1 \<le> j + ?m - 1" "?m - 1 + (length space - (?m - 1)) = length space"
        using m by auto
      ultimately have "space ! (j + ?m - 1) \<noteq> point ! (?m - 1)"
        by (intro memchr_None [OF None]) linarith+
      then show False using occurs_last [OF o m(3)] by simp
    qed
    then show ?thesis using False None by (simp add: HX_memmem_def Let_def)
  next
    case (Some t)
    note t = memchr_Some [OF Some]
    show ?thesis
    proof (cases "?m = 1")
      case True
      then obtain c where c: "point = [c]" by (cases point) auto
      then have "occurs_at space point t" using t by (auto simp: occurs_at_def take_Suc_conv_app_nth)
      then show ?thesis using True Some before [OF Some] m by (auto simp: HX_memmem_def Let_def)
    next
      case no: False
      have "HX_memmem space point = memmem_loop space point t"
        using False no Some by (simp add: HX_memmem_def Let_def)
      then show ?thesis
        using memmem_loop_spec [OF m(3), of t space] t before [OF Some]
        by (auto split: option.splits)
    qed
  qed
qed

section \<open>Bounded copies: properties\<close>

text \<open>\<open>HX_strlcpy\<close> writes nothing behind the first \<open>n\<close> bytes of its destination, and leaves there
  the source cut off at \<open>n - 1\<close> bytes, always terminated.\<close>

theorem HX_strlcpy_bounded:
  assumes "0 < n" and "unat n \<le> length dest" and "NUL \<notin> set src"
  shows "\<exists>d. HX_strlcpy dest src n = Some d \<and> length d = length dest \<and> cstr d = take (unat n - 1) src \<and>
    drop (unat n) d = drop (unat n) dest"
proof -
  let ?n = "unat n"
  have n1: "unat (n - 1) = ?n - 1" "1 \<le> ?n"
    using assms(1) by (auto simp: unat_minus_one word_gt_0 Suc_le_eq unat_gt_0)
  let ?w = "take ?n src @ replicate (?n - length src) NUL"
  have w: "length ?w = ?n" by simp
  let ?d = "(?w @ drop ?n dest)[?n - 1 := NUL]"
  have nz: "n \<noteq> 0" using assms(1) by auto
  have "wrn dest 0 ?w = Some (?w @ drop ?n dest)" using w assms(2) by (simp only: wrn_def; simp)
  moreover have "?n - 1 < length (?w @ drop ?n dest)" using w n1(2) by (simp only: length_append; simp)
  then have "wr (?w @ drop ?n dest) (unat (n - 1)) NUL = Some ?d" unfolding n1(1) by (simp only: wr_def if_True)
  ultimately have "HX_strlcpy dest src n = Some ?d" using nz by (simp add: HX_strlcpy_def strncpy_def)
  moreover have "length ?d = length dest" using assms(2) w by simp
  moreover have "cstr ?d = take (?n - 1) src"
  proof (cases "length src < ?n")
    case True
    then obtain k where k: "?n - length src = Suc k" by (metis Suc_diff_Suc)
    then have "?w @ drop ?n dest = src @ NUL # (replicate k NUL @ drop ?n dest)" using True by simp
    moreover have "(src @ NUL # r)[?n - 1 := NUL] = src @ (NUL # r)[?n - 1 - length src := NUL]" for r
    proof -
      have "\<not> ?n - 1 < length src" using True by linarith
      then show ?thesis by (simp add: list_update_append)
    qed
    moreover have "\<exists>r'. (NUL # r)[j := NUL] = NUL # r'" for r and j :: nat by (cases j) auto
    ultimately have "\<exists>r'. ?d = src @ NUL # r'" by metis
    then show ?thesis using cstr_append [OF assms(3)] True by auto
  next
    case False
    have "take ?n src = take (?n - 1) src @ [src ! (?n - 1)]"
      using False n1(2) by (metis Suc_diff_le Suc_eq_plus1 diff_Suc_1 le_add_diff_inverse2 less_le_trans
          lessI not_less plus_1_eq_Suc take_Suc_conv_app_nth)
    then have "?d = take (?n - 1) src @ NUL # drop ?n dest"
      using False n1(2) by (simp add: list_update_append)
    moreover have "NUL \<notin> set (take (?n - 1) src)" using assms(3) by (meson in_set_takeD)
    ultimately show ?thesis using cstr_append by simp
  qed
  moreover have "drop ?n ?d = drop ?n dest" using n1(2) w by simp
  ultimately show ?thesis by blast
qed

theorem HX_strlcpy_bounded_witness:
  "\<exists>d. HX_strlcpy ''......'' ''hello'' 4 = Some d \<and> length d = length ''......'' \<and> cstr d = ''hel'' \<and> drop 4 d = ''..''"
  using HX_strlcpy_bounded [of 4 "''......''" "''hello''"] by simp

lemma strncat_effect:
  assumes "strlen_block dest = Some k" "k + min m (length src) < length dest" "NUL \<notin> set src"
  shows "\<exists>d. strncat dest src m = Some d \<and> length d = length dest \<and> cstr d = cstr dest @ take m src"
proof -
  note k = strlen_block_Some [OF assms(1)]
  let ?d = "cstr dest @ take m src @ [NUL] @ drop (k + length (take m src @ [NUL])) dest"
  have "strncat dest src m = Some ?d"
    using assms(1,2) k(3) by (simp add: strncat_def wrn_def min.commute)
  moreover have "length ?d = length dest" using assms(2) k(4) by (auto simp: min_def split: if_splits)
  moreover have "NUL \<notin> set (cstr dest @ take m src)"
    using NUL_notin_cstr assms(3) by (auto dest: in_set_takeD)
  then have "cstr ?d = cstr dest @ take m src"
    using cstr_append [of "cstr dest @ take m src"] by simp
  ultimately show ?thesis by blast
qed

text \<open>\<open>HX_strlcat\<close> appends to the string in a buffer of \<open>len\<close> bytes as much of the source as fits with
  its terminator, and nothing when the buffer is already full; \<open>HX_strlncat\<close> takes at most \<open>slen\<close> bytes
  of the source in addition, when \<open>slen\<close> is not negative as an \<^verbatim>\<open>ssize_t\<close>.\<close>

theorem HX_strlcat_bounded:
  assumes d: "strlen_block dest = Some k" and l: "unat len \<le> length dest" and b: "length dest < 2 ^ 63"
    and s: "NUL \<notin> set src" and n: "unat slen < 2 ^ 63"
  shows "\<exists>d d'. HX_strlcat dest src len = Some d \<and> length d = length dest \<and>
      cstr d = cstr dest @ take (unat len - 1 - k) src \<and>
    HX_strlncat dest src len slen = Some d' \<and> length d' = length dest \<and>
      cstr d' = cstr dest @ take (min (unat len - 1 - k) (unat slen)) src"
proof -
  note k = strlen_block_Some [OF d]
  let ?x = "len - of_nat k - 1"
  have uk: "unat (of_nat k :: u64) = k" using k(1) b by (simp add: unat_of_nat take_bit_nat_eq_self)
  show ?thesis
  proof (cases "k + 1 < unat len")
    case True
    have le: "(of_nat k :: u64) \<le> len" using True uk by (simp add: word_le_nat_alt)
    have "unat (len - of_nat k) = unat len - k" using le uk by (simp add: unat_sub)
    then have ux: "unat ?x = unat len - 1 - k"
      using True by (subst unat_sub) (simp_all add: word_le_nat_alt)
    have sx: "sint ?x = int (unat len - 1 - k)" using ux l b by (simp add: sint_u64)
    have "k + min (unat len - 1 - k) (length src) < length dest" using True l by linarith
    from strncat_effect [OF d this s] obtain e where e: "strncat dest src (unat ?x) = Some e"
      "length e = length dest" "cstr e = cstr dest @ take (unat len - 1 - k) src" unfolding ux by blast
    have np: "\<not> sint ?x \<le> 0" using sx True by linarith
    have c1: "HX_strlcat dest src len = Some e"
      using d e(1) np by (simp add: HX_strlcat_def Let_def)
    let ?y = "if sint slen < sint ?x then slen else ?x"
    have uy: "unat ?y = min (unat len - 1 - k) (unat slen)"
    proof -
      have "sint slen = int (unat slen)" using n by (simp add: sint_u64)
      then have "sint slen < sint ?x \<longleftrightarrow> unat slen < unat len - 1 - k" by (simp only: sx of_nat_less_iff)
      then show ?thesis using ux by simp
    qed
    have "k + min (unat ?y) (length src) < length dest" using True l uy by linarith
    from strncat_effect [OF d this s] obtain e' where e': "strncat dest src (unat ?y) = Some e'"
      "length e' = length dest" "cstr e' = cstr dest @ take (min (unat len - 1 - k) (unat slen)) src"
      unfolding uy by blast
    have "HX_strlncat dest src len slen = strncat dest src (unat ?y)"
      using d np by (simp add: HX_strlncat_def Let_def)
    then show ?thesis using c1 e e' by auto
  next
    case False
    have "sint ?x \<le> 0"
    proof -
      have "?x = - of_nat (k + 1 - unat len)"
      proof -
        have "(of_nat (k + 1 - unat len) :: u64) = of_nat (k + 1) - of_nat (unat len)"
          using False by (intro of_nat_diff) simp
        then show ?thesis by simp
      qed
      moreover have "sint (- of_nat j :: u64) \<le> 0" if "j < 2 ^ 63" for j
      proof (cases "j = 0")
        case False
        have uj: "unat (of_nat j :: u64) = j" using that by (simp add: unat_of_nat take_bit_nat_eq_self)
        then have "(of_nat j :: u64) \<noteq> 0" using False by (metis unat_0)
        then have "unat (- of_nat j :: u64) = 2 ^ 64 - j" using unat_minus_u64 [of "of_nat j"] uj by simp
        then show ?thesis using that False by (simp add: sint_u64)
      qed simp
      ultimately show ?thesis using k(1) b by simp
    qed
    then show ?thesis using d False by (auto simp: HX_strlcat_def HX_strlncat_def Let_def)
  qed
qed

theorem HX_strlcat_bounded_witness:
  "\<exists>d d'. HX_strlcat (''ab'' @ [NUL] @ ''...'') ''cdefg'' 5 = Some d \<and> length d = length ''ab....'' \<and>
      cstr d = ''abcd'' \<and>
    HX_strlncat (''ab'' @ [NUL] @ ''...'') ''cdefg'' 5 1 = Some d' \<and> length d' = length ''ab....'' \<and>
      cstr d' = ''abc''"
proof -
  have "strlen_block (''ab'' @ [NUL] @ ''...'') = Some 2" "cstr (''ab'' @ [NUL] @ ''...'') = ''ab''"
    by (simp_all add: strlen_block_def cstr_def)
  from HX_strlcat_bounded [OF this(1), of 5 "''cdefg''" 1] this(2) show ?thesis by simp
qed

text \<open>a source limit above \<^verbatim>\<open>SSIZE_MAX\<close> turns negative in \<open>HX_strlncat\<close>, is taken as the smaller
  bound, and becomes unlimited again in \<^verbatim>\<open>strncat\<close>: the destination overflows.\<close>

theorem HX_strlncat_overflows:
  "HX_strlncat (''ab'' @ [NUL] @ ''.'') ''cdefg'' 4 (- 1) = None \<and>
   (\<exists>d. HX_strlcat (''ab'' @ [NUL] @ ''.'') ''cdefg'' 4 = Some d \<and> cstr d = ''abc'')"
proof -
  have "unat (- 1 :: u64) = 2 ^ 64 - 1"
    by (simp add: unsigned_minus_1_eq_mask mask_eq_exp_minus_1)
  then show ?thesis
    by (simp add: HX_strlncat_def HX_strlcat_def strlen_block_def strncat_def wrn_def cstr_def Let_def)
qed

end
