(* ===== verification/HX_Substr.thy ===== *)
theory HX_Substr
  imports HX_Cstring HX_Mc
begin

text \<open>
  Substrings by signed offset and length (\<open>HX_strmid\<close>) and line input into a memory container
  (\<open>HX_getl\<close>), from \<^verbatim>\<open>src/string.c\<close>.
\<close>

section \<open>Substrings\<close>

abbreviation LONG_MIN :: u64 where "LONG_MIN \<equiv> 0x8000000000000000"

text \<open>\<open>offset\<close> and \<open>len\<close> are \<^verbatim>\<open>long\<close>: the words are read with \<^const>\<open>sint\<close>. The result is the
  start and the number of bytes to copy.\<close>

definition HX_substr_helper :: "u64 \<Rightarrow> u64 \<Rightarrow> u64 \<Rightarrow> u64 \<times> u64" where
  "HX_substr_helper z offset len =
     (let start =
        (if sint offset \<ge> 0 then offset
         else if offset = LONG_MIN then z + - LONG_MIN
         else if z \<ge> - offset then z + offset else z);
          en =
        (if sint len \<ge> 0 then (if start < - 1 - len then start + len else - 1)
         else if len = LONG_MIN then z + - LONG_MIN
         else if z \<ge> - len then z + len else 0);
          en = (if en > z then z else en)
      in (start, if en > start then en - start else 0))"

definition HX_strmid :: "bool \<Rightarrow> char list \<Rightarrow> u64 \<Rightarrow> u64 \<Rightarrow> char list option option" where
  "HX_strmid ok expr offset len =
     (let (start, tocopy) = HX_substr_helper (of_nat (length expr)) offset len in
      if \<not> ok then Some None
      else if tocopy = 0 then Some (Some [])
      else do { b \<leftarrow> rdn (expr @ [NUL]) (unat start) (unat tocopy); Some (Some b) })"

section \<open>Reading lines\<close>

text \<open>
  A stream is the list of bytes still to be read. \<open>fgets\<close> delivers at most \<^verbatim>\<open>MAXLNLEN - 1\<close> bytes
  and stops behind a newline; end of file before any byte is \<^verbatim>\<open>NULL\<close>. \<open>mem k\<close> is the outcome of
  the \<open>k\<close>-th allocation.
\<close>

definition MAXLNLEN :: nat where
  "MAXLNLEN = 1024"

definition fgets :: "char list \<Rightarrow> (char list \<times> char list) option" where
  "fgets fp =
     (if fp = [] then None
      else let l = takeWhile (\<lambda>c. c \<noteq> CHR 0x0A) fp;
               line = (if length l < length fp then l @ [CHR 0x0A] else l);
               temp = take (MAXLNLEN - 1) line
        in Some (temp, drop (length temp) fp))"

lemma fgets_shorter: "fgets fp = Some (t, r) \<Longrightarrow> length r < length fp"
  by (cases fp) (auto simp: fgets_def MAXLNLEN_def Let_def split: if_splits)

function getl_loop ::
  "(nat \<Rightarrow> mem) \<Rightarrow> nat \<Rightarrow> memcont option \<Rightarrow> char list \<Rightarrow> char list \<Rightarrow> (memcont option \<times> char list) option" where
  "getl_loop mem k p temp fp = do {
     (ok, p) \<leftarrow> HXmc_strcat (mem k) p (Some (cstr temp));
     if \<not> ok then Some (p, fp)
     else if strchr (cstr temp) (CHR 0x0A) \<noteq> None then Some (p, fp)
     else case fgets fp of
         None \<Rightarrow> Some (p, fp)
       | Some (temp, fp) \<Rightarrow> getl_loop mem (Suc k) p temp fp
   }"
  by pat_completeness auto
termination
  by (relation "measure (\<lambda>(mem, k, p, temp, fp). length fp)") (auto dest: fgets_shorter)

declare getl_loop.simps [simp del]

text \<open>The result: the returned pointer, \<^verbatim>\<open>*ptr\<close> afterwards and the rest of the stream.\<close>

definition HX_getl ::
  "(nat \<Rightarrow> mem) \<Rightarrow> memcont option \<Rightarrow> char list \<Rightarrow> (memcont option \<times> memcont option \<times> char list) option" where
  "HX_getl mem p fp =
     (case fgets fp of
        None \<Rightarrow> Some (None, p, fp)
      | Some (temp, fp) \<Rightarrow> do {
          p \<leftarrow> (if p = None then HXmc_meminit (mem 0) None 0
               else map_option snd (HXmc_trunc (mem 0) p 0));
          if p = None then Some (None, None, fp)
          else do {
            (p, fp) \<leftarrow> getl_loop mem 1 p temp fp;
            Some (p, p, fp)
          }
        })"

section \<open>Substrings: properties\<close>

text \<open>The meaning of offset and length on the integers: counted from the start, or from the end when
  negative.\<close>

definition sub_start :: "int \<Rightarrow> int \<Rightarrow> int" where
  "sub_start n off = (if off \<ge> 0 then off else if - off \<le> n then n + off else n)"

definition sub_end :: "int \<Rightarrow> int \<Rightarrow> int \<Rightarrow> int" where
  "sub_end n off len =
     min n (if len \<ge> 0 then sub_start n off + len else if - len \<le> n then n + len else 0)"

lemma unat_len: "n < 2 ^ 63 \<Longrightarrow> unat (of_nat n :: u64) = n"
  by (simp add: unat_of_nat take_bit_nat_eq_self)

lemma neg_arg:
  assumes n: "n < 2 ^ 63" and s: "sint (w :: u64) < 0" "w \<noteq> LONG_MIN"
  shows "of_nat n \<ge> - w \<longleftrightarrow> - sint w \<le> int n"
    "- sint w \<le> int n \<Longrightarrow> int (unat (of_nat n + w)) = int n + sint w"
proof -
  have w: "sint w = int (unat w) - 2 ^ 64" by (rule sint_neg [OF s(1)])
  have "w \<noteq> 0" using s(1) by auto
  note m = unat_minus_u64 [OF this]
  have lt: "unat w < 2 ^ 64" using unat_bound [of w] by simp
  show "of_nat n \<ge> - w \<longleftrightarrow> - sint w \<le> int n"
  proof -
    have "(2 ^ 64 - k \<le> n) = (- (int k - 2 ^ 64) \<le> int n)" if "k < 2 ^ 64" for k
      using that by auto
    then show ?thesis unfolding word_le_nat_alt m unat_len [OF n] w using lt by blast
  qed
  assume "- sint w \<le> int n"
  moreover have "2 ^ 64 \<le> n + k" if "- (int k - 2 ^ 64) \<le> int n" for k using that by simp
  ultimately have g: "2 ^ 64 \<le> n + unat w" using w by metis
  have "unat (of_nat n + w) = n + unat w - 2 ^ 64"
    using g unat_plus_if' [of "of_nat n :: u64" w] unat_len [OF n] by simp
  moreover have "int (n + k - 2 ^ 64) = int n + (int k - 2 ^ 64)" if "2 ^ 64 \<le> n + k" for k
    using that by simp
  ultimately show "int (unat (of_nat n + w)) = int n + sint w" using g w by metis
qed

lemma substr_start:
  assumes n: "n < 2 ^ 63" and o: "off \<noteq> LONG_MIN"
  shows "int (unat (if sint off \<ge> 0 then off else if off = LONG_MIN then of_nat n + - LONG_MIN
     else if of_nat n \<ge> - off then of_nat n + off else of_nat n)) = sub_start (int n) (sint off)"
proof (cases "sint off \<ge> 0")
  case True
  then have "int (unat off) = sint off" using sint_nonneg by simp
  then show ?thesis using True by (simp add: sub_start_def)
next
  case False
  have "int (unat (of_nat n :: u64)) = int n" by (simp only: unat_len [OF n])
  then show ?thesis using False neg_arg [OF n _ o] o by (auto simp: sub_start_def)
qed

lemma substr_end:
  assumes n: "n < 2 ^ 63" and l: "len \<noteq> LONG_MIN" and st: "int (unat start) = sub_start (int n) off"
    and off: "off < 2 ^ 63"
  shows "int (unat (if sint len \<ge> 0 then (if start < - 1 - len then start + len else - 1)
      else if len = LONG_MIN then of_nat n + - LONG_MIN
      else if of_nat n \<ge> - len then of_nat n + len else 0)) =
    (if sint len \<ge> 0 then sub_start (int n) off + sint len
     else if - sint len \<le> int n then int n + sint len else 0)"
proof (cases "sint len \<ge> 0")
  case True
  have L: "sint len = int (unat len)" using sint_nonneg [OF True] .
  have l63: "unat len < 2 ^ 63" using sint_lt [of len] unfolding L int_pow63 [symmetric] by simp
  have "sub_start (int n) off < 2 ^ 63" using n off by (auto simp: sub_start_def)
  then have s63: "unat start < 2 ^ 63" unfolding int_pow63 [symmetric] st .
  have m1: "unat (- 1 - len) = 2 ^ 64 - 1 - unat len"
    by (subst unat_sub) (simp_all add: unsigned_minus_1_eq_mask mask_eq_exp_minus_1 word_order.extremum)
  have "start < - 1 - len"
    using s63 l63 unfolding word_less_nat_alt m1 by simp
  moreover have "unat (start + len) = unat start + unat len"
    using s63 l63 by (intro unat_add_lem [THEN iffD1]) simp
  ultimately show ?thesis using True st L by simp
next
  case False
  then show ?thesis using neg_arg [OF n _ l] l by auto
qed

text \<open>\<open>HX_strmid\<close> returns the bytes from the start to the end that its signed arguments denote, cut
  off at the string, for every offset and length but the most negative number.\<close>

theorem HX_strmid_slice:
  assumes n: "length s < 2 ^ 63" and o: "off \<noteq> LONG_MIN" and l: "len \<noteq> LONG_MIN"
  defines "b \<equiv> sub_start (int (length s)) (sint off)"
    and "e \<equiv> sub_end (int (length s)) (sint off) (sint len)"
  shows "HX_strmid True s off len = Some (Some (take (nat (e - b)) (drop (nat (b)) s)))"
proof -
  let ?z = "of_nat (length s) :: u64"
  define st where "st = (if sint off \<ge> 0 then off else if off = LONG_MIN then ?z + - LONG_MIN
     else if ?z \<ge> - off then ?z + off else ?z)"
  define en where "en = (if sint len \<ge> 0 then (if st < - 1 - len then st + len else - 1)
      else if len = LONG_MIN then ?z + - LONG_MIN else if ?z \<ge> - len then ?z + len else 0)"
  have st: "int (unat st) = b" using substr_start [OF n o] by (simp only: st_def b_def)
  have "sint off < 2 ^ 63" using sint_lt [of off] by simp
  from substr_end [OF n l _ this, of st] have en: "int (unat en) =
      (if sint len \<ge> 0 then b + sint len else if - sint len \<le> int (length s) then int (length s) + sint len else 0)"
    using st by (simp only: en_def b_def)
  define en' where "en' = (if en > ?z then ?z else en)"
  have en': "int (unat en') = e"
  proof -
    have "int (unat en') = min (int (length s)) (int (unat en))"
    proof -
      have "unat en' = min (length s) (unat en)"
        using unat_len [OF n] by (auto simp: en'_def word_less_nat_alt)
      then show ?thesis by (simp only: of_nat_min)
    qed
    then show ?thesis unfolding en by (simp only: e_def b_def sub_end_def)
  qed
  have h: "HX_substr_helper ?z off len = (st, if en' > st then en' - st else 0)"
    unfolding HX_substr_helper_def Let_def by (simp only: st_def en_def en'_def)
  have nb: "nat (b) = unat st" using st by (metis nat_int)
  have nc: "unat (if en' > st then en' - st else 0) = nat (e - b)"
  proof (cases "en' > st")
    case True
    then have "unat (en' - st) = unat en' - unat st" by (simp add: unat_sub less_imp_le)
    then show ?thesis unfolding en' [symmetric] st [symmetric]
      by (simp only: True if_True nat_minus_as_int)
  next
    case False
    then have "unat en' \<le> unat st" by (simp add: word_less_nat_alt not_less)
    then have "e - b \<le> 0" using en' st by linarith
    then show ?thesis using False by simp
  qed
  have "int (unat en') \<le> int (length s)" unfolding en' by (simp add: e_def sub_end_def)
  then have le: "unat en' \<le> length s" by (simp only: of_nat_le_iff)
  let ?c = "if en' > st then en' - st else 0"
  show ?thesis
  proof (cases "?c = 0")
    case True
    then have "nat (e - b) = 0" unfolding nc [symmetric] by (simp only: unat_0)
    then show ?thesis using True h by (simp add: HX_strmid_def)
  next
    case False
    have gt: "en' > st" using False by (meson if_False)
    have "unat st + unat ?c \<le> length s"
      using gt le by (simp add: unat_sub less_imp_le word_less_nat_alt)
    then have "rdn (s @ [NUL]) (unat st) (unat ?c) = Some (take (unat ?c) (drop (unat st) s))"
      by (simp add: rdn_def)
    then show ?thesis using False h nb nc by (simp add: HX_strmid_def)
  qed
qed

theorem HX_strmid_slice_witness:
  "HX_strmid True ''foobar'' (- 4) 2 = Some (Some ''ob'') \<and> HX_strmid True ''foobar'' 1 (- 2) = Some (Some ''oob'')"
  using HX_strmid_slice [of "''foobar''" "- 4" 2] HX_strmid_slice [of "''foobar''" 1 "- 2"]
  by (simp add: sub_start_def sub_end_def)

text \<open>the most negative length means ``up to the end'', although every other length below minus the
  string length denotes the empty string.\<close>

theorem HX_strmid_long_min:
  "HX_strmid True ''foobar'' 0 LONG_MIN = Some (Some ''foobar'') \<and>
   HX_strmid True ''foobar'' 0 (LONG_MIN + 1) = Some (Some [])"
  by (simp add: HX_strmid_def HX_substr_helper_def rdn_def sint_u64)

section \<open>Reading lines: properties\<close>

abbreviation NL :: char where "NL \<equiv> CHR 0x0A"

definition line_of :: "char list \<Rightarrow> char list" where
  "line_of s = takeWhile (\<lambda>c. c \<noteq> NL) s @ (if NL \<in> set s then [NL] else [])"

lemma line_of_append: "line_of (a @ b) = (if NL \<in> set a then line_of a else a @ line_of b)"
proof (cases "NL \<in> set a")
  case True
  then have "takeWhile (\<lambda>c. c \<noteq> NL) (a @ b) = takeWhile (\<lambda>c. c \<noteq> NL) a" by (auto intro: takeWhile_append1)
  then show ?thesis using True by (simp add: line_of_def)
next
  case False
  then have "takeWhile (\<lambda>c. c \<noteq> NL) (a @ b) = a @ takeWhile (\<lambda>c. c \<noteq> NL) b"
    by (intro takeWhile_append2) auto
  then show ?thesis using False by (simp add: line_of_def)
qed

lemma line_of_prefix: "s = line_of s @ drop (length (line_of s)) s"
proof (cases "NL \<in> set s")
  case True
  then obtain a b where s: "s = a @ NL # b" "NL \<notin> set a" by (meson split_list_first)
  then have "takeWhile (\<lambda>c. c \<noteq> NL) s = a" by (auto intro!: takeWhile_append_stop)
  then have "line_of s = a @ [NL]" using True by (simp add: line_of_def)
  then show ?thesis using s(1) by simp
next
  case False
  then have tw: "takeWhile (\<lambda>c. c \<noteq> NL) s = s" by (simp add: takeWhile_eq_all_conv) auto
  have "line_of s = s" unfolding line_of_def tw using False by simp
  then show ?thesis by simp
qed

lemma fgets_line:
  assumes "fgets xs = Some (t, r)"
  shows "t \<noteq> []" "xs = t @ r" "line_of xs = (if NL \<in> set t then t else t @ line_of r)"
proof -
  have ne: "xs \<noteq> []" using assms by (auto simp: fgets_def)
  let ?l = "takeWhile (\<lambda>c. c \<noteq> NL) xs"
  have "(if length ?l < length xs then ?l @ [NL] else ?l) = line_of xs"
  proof -
    have "length ?l < length xs \<longleftrightarrow> NL \<in> set xs" by (induction xs) auto
    then show ?thesis by (simp add: line_of_def)
  qed
  then have t: "t = take (MAXLNLEN - 1) (line_of xs)" and r: "r = drop (length t) xs"
    using assms ne by (auto simp: fgets_def Let_def)
  have l: "line_of xs \<noteq> []" using ne by (cases xs) (auto simp: line_of_def)
  then show "t \<noteq> []" using t by (auto simp: MAXLNLEN_def)
  have "take (length t) xs = t"
    using line_of_prefix [of xs] unfolding t by (metis append_take_drop_id append_eq_append_conv_if append_eq_conv_conj take_take
        length_take min.commute)
  then show x: "xs = t @ r" using r by (metis append_take_drop_id)
  show "line_of xs = (if NL \<in> set t then t else t @ line_of r)"
  proof (cases "NL \<in> set t")
    case True
    then have "line_of xs = line_of t" using line_of_append [of t r] x by simp
    moreover have "length (line_of t) \<le> length t" using arg_cong [OF line_of_prefix [of t], of length] by simp
    ultimately have "t = line_of xs" using t by (metis length_take min.absorb1 take_all_iff min.bounded_iff
          linorder_not_le min_def)
    then show ?thesis using True by simp
  next
    case False
    then show ?thesis using line_of_append [of t r] x by simp
  qed
qed

lemma getl_loop_line:
  assumes "\<forall>k. mem k \<noteq> None" "mc_ok c" "NUL \<notin> set xs" "fgets xs = Some (t, r)"
    "length (mc_content c) + length xs \<le> mc_max"
  shows "\<exists>c'. getl_loop mem k (Some c) t r = Some (Some c', drop (length (line_of xs)) xs) \<and> mc_ok c' \<and>
    mc_content c' = mc_content c @ line_of xs"
  using assms
proof (induction "length r" arbitrary: k c xs t r rule: less_induct)
  case less
  note f = fgets_line [OF less.prems(4)]
  obtain junk where j: "mem k = Some junk" using less.prems(1) by blast
  have "NUL \<notin> set t" using less.prems(3) f(2) by simp
  then have ct: "cstr t = t" by (simp add: cstr_def takeWhile_eq_all_conv) auto
  have "length (mc_content c) + length t \<le> mc_max" using less.prems(5) f(2) by simp
  from strcat_append [OF less.prems(2) this, of junk] obtain c1 where c1:
    "HXmc_strcat (mem k) (Some c) (Some t) = Some (True, Some c1)" "mc_ok c1" "mc_content c1 = mc_content c @ t"
    using j by auto
  have nl: "strchr t NL \<noteq> None \<longleftrightarrow> NL \<in> set t"
  proof -
    have "length (takeWhile (\<lambda>d. d \<noteq> NL) t) < length t \<longleftrightarrow> NL \<in> set t" by (induction t) auto
    then show ?thesis by (simp add: strchr_def Let_def)
  qed
  show ?case
  proof (cases "NL \<in> set t")
    case True
    then have "line_of xs = t" "drop (length t) xs = r" using f by auto
    then show ?thesis using True nl c1 ct by (subst getl_loop.simps) simp
  next
    case False
    show ?thesis
    proof (cases "fgets r")
      case None
      then have "r = []" by (auto simp: fgets_def Let_def split: if_splits)
      then have "line_of xs = t" "drop (length t) xs = r" using f False by (auto simp: line_of_def)
      then show ?thesis using False None nl c1 ct by (subst getl_loop.simps) simp
    next
      case (Some tr)
      obtain t2 r2 where tr: "tr = (t2, r2)" by fastforce
      have "fgets r = Some (t2, r2)" using Some tr by simp
      moreover have "length (mc_content c1) + length r \<le> mc_max" using less.prems(5) f(2) c1(3) by simp
      moreover have "NUL \<notin> set r" using less.prems(3) f(2) by simp
      ultimately obtain c' where c': "getl_loop mem (Suc k) (Some c1) t2 r2 = Some (Some c', drop (length (line_of r)) r)"
        "mc_ok c'" "mc_content c' = mc_content c1 @ line_of r"
        using less.hyps [of r2 c1 r t2 "Suc k"] fgets_shorter [of r t2 r2] less.prems(1) c1(2) by blast
      have "getl_loop mem k (Some c) t r = getl_loop mem (Suc k) (Some c1) t2 r2"
        using False nl c1(1) ct Some tr by (subst getl_loop.simps) simp
      moreover have "line_of xs = t @ line_of r" using f(3) False by simp
      moreover have "drop (length (t @ line_of r)) xs = drop (length (line_of r)) r" using f(2) by simp
      ultimately show ?thesis using c' c1(3) by simp
    qed
  qed
qed

lemma getl_line:
  assumes m: "\<forall>k. mem k \<noteq> None" and p: "p = None \<or> (\<exists>c. p = Some c \<and> mc_ok c)"
    and s: "fp \<noteq> []" "NUL \<notin> set fp" "length fp \<le> mc_max"
  shows "\<exists>c. HX_getl mem p fp = Some (Some c, Some c, drop (length (line_of fp)) fp) \<and> mc_ok c \<and>
    mc_content c = line_of fp"
proof -
  obtain t r where f: "fgets fp = Some (t, r)" using s(1) by (simp add: fgets_def Let_def)
  obtain junk where j: "mem 0 = Some junk" using m by blast
  obtain c0 where c0: "(if p = None then HXmc_meminit (mem 0) None 0
      else map_option snd (HXmc_trunc (mem 0) p 0)) = Some (Some c0)" "mc_ok c0" "mc_content c0 = []"
  proof (cases "p = None")
    case True
    then show thesis using meminit_empty [of junk] j that by auto
  next
    case False
    then obtain c where "p = Some c" "mc_ok c" using p by auto
    then show thesis using trunc_empty [of c "mem 0"] that by auto
  qed
  have "length (mc_content c0) + length fp \<le> mc_max" using c0(3) s(3) by simp
  from getl_loop_line [OF m c0(2) s(2) f this, of 1] obtain c' where
    "getl_loop mem 1 (Some c0) t r = Some (Some c', drop (length (line_of fp)) fp)" "mc_ok c'"
    "mc_content c' = line_of fp" using c0(3) by auto
  then show ?thesis using f c0(1) by (simp add: HX_getl_def)
qed

text \<open>reading a line assembles exactly the next line of the stream, newline included, whatever its
  length and although it arrives in pieces of at most 1023 bytes; the stream is left behind that line,
  and the container ends up well formed. (No byte of the stream is \<open>NUL\<close> and no allocation fails.)\<close>

theorem HX_getl_line:
  assumes m: "\<forall>k. mem k \<noteq> None" and p: "p = None \<or> (\<exists>c. p = Some c \<and> mc_ok c)"
    and s: "fp \<noteq> []" "NUL \<notin> set fp" "length fp \<le> mc_max"
  shows "\<exists>c. HX_getl mem p fp = Some (Some c, Some c, drop (length (line_of fp)) fp) \<and> mc_ok c \<and>
    mc_content c = line_of fp"
  by (rule getl_line [OF assms])

theorem HX_getl_line_witness:
  "\<exists>c. HX_getl (\<lambda>_. Some (\<lambda>_. NUL)) None (''one'' @ [NL] @ ''two'') = Some (Some c, Some c, ''two'') \<and>
    mc_ok c \<and> mc_content c = ''one'' @ [NL]"
  using HX_getl_line [of "\<lambda>_. Some (\<lambda>_. NUL)" None "''one'' @ [NL] @ ''two''"]
  by (simp add: line_of_def)

end
