(* ===== verification/HX_Quote.thy ===== *)
theory HX_Quote
  imports HX_String
begin

text \<open>
  Quoting, from \<^verbatim>\<open>src/string.c\<close>: the rule table, the size computations, the six encoders and
  \<open>HX_strquote\<close>. An encoder writes its output sequentially from the start of the destination; the
  model gives the bytes written before the \<open>NUL\<close>, and \<open>HX_strquote\<close> compares their number with the
  block it has allocated. Source bytes are C \<^verbatim>\<open>char\<close>s; every use masks the sign extension away.
\<close>

unbundle bit_operations_syntax

section \<open>Types and rules\<close>

definition HXQUOTE_SQUOTE :: nat where "HXQUOTE_SQUOTE = 1"
definition HXQUOTE_DQUOTE :: nat where "HXQUOTE_DQUOTE = 2"
definition HXQUOTE_HTML :: nat where "HXQUOTE_HTML = 3"
definition HXQUOTE_LDAPFLT :: nat where "HXQUOTE_LDAPFLT = 4"
definition HXQUOTE_LDAPRDN :: nat where "HXQUOTE_LDAPRDN = 5"
definition HXQUOTE_BASE64 :: nat where "HXQUOTE_BASE64 = 6"
definition HXQUOTE_URIENC :: nat where "HXQUOTE_URIENC = 7"
definition HXQUOTE_BASE64URL :: nat where "HXQUOTE_BASE64URL = 8"
definition HXQUOTE_BASE64IMAP :: nat where "HXQUOTE_BASE64IMAP = 9"
definition HXQUOTE_MAX :: nat where "HXQUOTE_MAX = 10"

lemmas quote_types = HXQUOTE_SQUOTE_def HXQUOTE_DQUOTE_def HXQUOTE_HTML_def HXQUOTE_LDAPFLT_def
  HXQUOTE_LDAPRDN_def HXQUOTE_BASE64_def HXQUOTE_URIENC_def HXQUOTE_BASE64URL_def
  HXQUOTE_BASE64IMAP_def HXQUOTE_MAX_def

datatype HX_quote_selector = QUOTE_ALWAYS | QUOTE_ACCEPT | QUOTE_REJECT

record HX_quote_rule =
  selector :: HX_quote_selector
  qchars :: "char list"

definition uri_chars :: "char list" where
  "uri_chars = ''-.0123456789ABCDEFGHIJKLMNOPQRSTUVWXYZ_abcdefghijklmnopqrstuvwxyz~''"

text \<open>The table has eight entries; those without an initializer are zero, which is \<open>QUOTE_ALWAYS\<close>.\<close>

definition HX_quote_rules :: "HX_quote_rule list" where
  "HX_quote_rules = [
     \<lparr>selector = QUOTE_ALWAYS, qchars = []\<rparr>,
     \<lparr>selector = QUOTE_REJECT, qchars = [CHR 0x27, CHR 0x5C]\<rparr>,
     \<lparr>selector = QUOTE_REJECT, qchars = [CHR 0x22, CHR 0x5C]\<rparr>,
     \<lparr>selector = QUOTE_REJECT, qchars = [CHR 0x22, CHR ''&'', CHR ''<'', CHR ''>'']\<rparr>,
     \<lparr>selector = QUOTE_REJECT, qchars = [CHR 0x0A, CHR ''*'', CHR ''('', CHR '')'', CHR 0x5C]\<rparr>,
     \<lparr>selector = QUOTE_REJECT, qchars = [CHR 0x0A, CHR '' '', CHR 0x22, CHR ''#'', CHR ''+'', CHR '','',
        CHR '';'', CHR ''<'', CHR ''='', CHR ''>'', CHR 0x5C]\<rparr>,
     \<lparr>selector = QUOTE_ALWAYS, qchars = []\<rparr>,
     \<lparr>selector = QUOTE_ACCEPT, qchars = uri_chars\<rparr>]"

definition HX_hexenc :: "char list" where
  "HX_hexenc = ''0123456789ABCDEF''"

section \<open>Sizes\<close>

function qsize_bsa_loop :: "char list \<Rightarrow> char list \<Rightarrow> nat \<Rightarrow> nat \<Rightarrow> nat" where
  "qsize_bsa_loop p q cost n =
     (case HX_strchr2 p q of None \<Rightarrow> n | Some i \<Rightarrow> qsize_bsa_loop (drop (Suc i) p) q cost (n + cost))"
  by pat_completeness auto
termination
proof (relation "measure (\<lambda>(p, q, cost, n). length p)")
  fix p q i
  assume "HX_strchr2 p q = Some i"
  then have "p \<noteq> []" by (auto simp: HX_strchr2_def strspn_def)
  then show "((drop (Suc i) p, q, cost, n + cost), p, q, cost, n) \<in> measure (\<lambda>(p, q, cost, n). length p)" for cost n :: nat
    by (cases p) auto
qed simp

declare qsize_bsa_loop.simps [simp del]

definition HX_qsize_bsa :: "char list \<Rightarrow> char list \<Rightarrow> nat \<Rightarrow> nat" where
  "HX_qsize_bsa s q cost = qsize_bsa_loop s q cost (length s)"

function qsize_bsr_loop :: "char list \<Rightarrow> char list \<Rightarrow> nat \<Rightarrow> nat \<Rightarrow> nat" where
  "qsize_bsr_loop p q cost n =
     (case strpbrk p q of None \<Rightarrow> n | Some i \<Rightarrow> qsize_bsr_loop (drop (Suc i) p) q cost (n + cost))"
  by pat_completeness auto
termination
  by (relation "measure (\<lambda>(p, q, cost, n). length p)") (auto dest: strpbrk_Some(1))

declare qsize_bsr_loop.simps [simp del]

definition HX_qsize_bsr :: "char list \<Rightarrow> char list \<Rightarrow> nat \<Rightarrow> nat" where
  "HX_qsize_bsr s q cost = qsize_bsr_loop s q cost (length s)"

definition html_chars :: "char list" where
  "html_chars = qchars (HX_quote_rules ! HXQUOTE_HTML)"

text \<open>\<^verbatim>\<open>sizeof("&quot;") - 2\<close> is 5, \<^verbatim>\<open>sizeof("&amp;") - 2\<close> is 4, \<^verbatim>\<open>sizeof("&lt;") - 2\<close> is 3.\<close>

function qsize_html_loop :: "char list \<Rightarrow> nat \<Rightarrow> nat" where
  "qsize_html_loop p n =
     (case strpbrk p html_chars of None \<Rightarrow> n
      | Some i \<Rightarrow>
          (let n = (if p ! i = CHR 0x22 then n + 5
                    else if p ! i = CHR ''&'' then n + 4
                    else if p ! i = CHR ''<'' \<or> p ! i = CHR ''>'' then n + 3
                    else n)
           in qsize_html_loop (drop (Suc i) p) n))"
  by pat_completeness auto
termination
  by (relation "measure (\<lambda>(p, n). length p)") (auto dest: strpbrk_Some(1))

declare qsize_html_loop.simps [simp del]

definition HX_qsize_html :: "char list \<Rightarrow> nat" where
  "HX_qsize_html s = qsize_html_loop s (length s)"

definition HX_quoted_size :: "char list \<Rightarrow> nat \<Rightarrow> nat" where
  "HX_quoted_size s type =
     (if type = HXQUOTE_SQUOTE \<or> type = HXQUOTE_DQUOTE then
        HX_qsize_bsr s (qchars (HX_quote_rules ! type)) 1
      else if type = HXQUOTE_HTML then HX_qsize_html s
      else if type = HXQUOTE_LDAPFLT \<or> type = HXQUOTE_LDAPRDN then
        HX_qsize_bsr s (qchars (HX_quote_rules ! type)) 2
      else if type = HXQUOTE_BASE64 \<or> type = HXQUOTE_BASE64URL \<or> type = HXQUOTE_BASE64IMAP then
        (length s + 2) div 3 * 4
      else if type = HXQUOTE_URIENC then HX_qsize_bsa s (qchars (HX_quote_rules ! type)) 2
      else length s)"

section \<open>Encoders\<close>

text \<open>
  The encoders copy the longest run of characters that stand for themselves, then encode one
  character. \<open>run\<close> computes the length of that run, \<open>enc\<close> what is written for a character.
\<close>

function enc_loop :: "(char list \<Rightarrow> nat) \<Rightarrow> (char \<Rightarrow> char list) \<Rightarrow> char list \<Rightarrow> char list" where
  "enc_loop run enc src =
     (if src = [] then []
      else let len = run src; rest = drop len src in
        if rest = [] then take len src
        else take len src @ enc (hd rest) @ enc_loop run enc (tl rest))"
  by pat_completeness auto
termination
  by (relation "measure (\<lambda>(run, enc, src). length src)") (auto simp: less_diff_conv)

declare enc_loop.simps [simp del]

definition HX_quote_backslash :: "char list \<Rightarrow> char list \<Rightarrow> char list" where
  "HX_quote_backslash src qc = enc_loop (\<lambda>s. strcspn s qc) (\<lambda>c. [CHR 0x5C, c]) src"

definition hex2 :: "char \<Rightarrow> char list" where
  "hex2 c = [HX_hexenc ! (drop_bit 4 (of_char c) AND 0x0F), HX_hexenc ! (of_char c AND 0x0F)]"

definition HX_quote_ldap :: "char list \<Rightarrow> char list \<Rightarrow> char list" where
  "HX_quote_ldap src qc = enc_loop (\<lambda>s. strcspn s qc) (\<lambda>c. CHR 0x5C # hex2 c) src"

definition HX_quote_urlenc :: "char list \<Rightarrow> char list" where
  "HX_quote_urlenc src =
     enc_loop (\<lambda>s. strspn s (qchars (HX_quote_rules ! HXQUOTE_URIENC))) (\<lambda>c. CHR ''%'' # hex2 c) src"

definition html_entity :: "char \<Rightarrow> char list" where
  "html_entity c =
     (if c = CHR 0x22 then ''&quot;''
      else if c = CHR ''&'' then ''&amp;''
      else if c = CHR ''<'' then ''&lt;''
      else if c = CHR ''>'' then ''&gt;''
      else [])"

definition HX_quote_html :: "char list \<Rightarrow> char list" where
  "HX_quote_html src = enc_loop (\<lambda>s. strcspn s html_chars) html_entity src"

definition base64_alphabet :: "char \<Rightarrow> char \<Rightarrow> char list" where
  "base64_alphabet x1 x2 =
     ''ABCDEFGHIJKLMNOPQRSTUVWXYZ'' @ ''abcdefghijklmnopqrstuvwxyz0123456789'' @ [x1, x2]"

fun base64_loop :: "char list \<Rightarrow> char list \<Rightarrow> char list" where
  "base64_loop a [] = []"
| "base64_loop a [s0] =
     [a ! drop_bit 2 (of_char s0 AND 0xFC), a ! push_bit 4 (of_char s0 AND 0x03), CHR ''='', CHR ''='']"
| "base64_loop a [s0, s1] =
     [a ! drop_bit 2 (of_char s0 AND 0xFC),
      a ! (push_bit 4 (of_char s0 AND 0x03) OR drop_bit 4 (of_char s1 AND 0xF0)),
      a ! push_bit 2 (of_char s1 AND 0x0F), CHR ''='']"
| "base64_loop a (s0 # s1 # s2 # s) =
     [a ! drop_bit 2 (of_char s0 AND 0xFC),
      a ! (push_bit 4 (of_char s0 AND 0x03) OR drop_bit 4 (of_char s1 AND 0xF0)),
      a ! (push_bit 2 (of_char s1 AND 0x0F) OR drop_bit 6 (of_char s2 AND 0xC0)),
      a ! (of_char s2 AND 0x3F)] @ base64_loop a s"

definition HX_quote_base64 :: "char list \<Rightarrow> char \<Rightarrow> char \<Rightarrow> char list" where
  "HX_quote_base64 s x1 x2 = base64_loop (base64_alphabet x1 x2) s"

section \<open>The dispatcher\<close>

text \<open>
  The outcomes of \<open>HX_strquote\<close>: the type is refused with \<^verbatim>\<open>EINVAL\<close>; an allocation failed; the
  source pointer itself; a new string; \<^verbatim>\<open>NULL\<close> although a block was allocated (type 0, which no
  case of the switch handles). \<open>given\<close> says whether the caller passed a \<^verbatim>\<open>free_me\<close> slot.
\<close>

datatype qres = QInval | QNoMem | QSrc | QNew "char list" | QLost

definition quote_needed :: "char list \<Rightarrow> nat \<Rightarrow> bool" where
  "quote_needed src type =
     (if type \<ge> length HX_quote_rules then True
      else let rule = HX_quote_rules ! type in
        case selector rule of
          QUOTE_ALWAYS \<Rightarrow> True
        | QUOTE_REJECT \<Rightarrow> strpbrk src (qchars rule) \<noteq> None
        | QUOTE_ACCEPT \<Rightarrow> HX_strchr2 src (qchars rule) \<noteq> None)"

definition quote_text :: "char list \<Rightarrow> nat \<Rightarrow> char list option" where
  "quote_text src type =
     (if type = HXQUOTE_SQUOTE \<or> type = HXQUOTE_DQUOTE then
        Some (HX_quote_backslash src (qchars (HX_quote_rules ! type)))
      else if type = HXQUOTE_HTML then Some (HX_quote_html src)
      else if type = HXQUOTE_LDAPFLT \<or> type = HXQUOTE_LDAPRDN then
        Some (HX_quote_ldap src (qchars (HX_quote_rules ! type)))
      else if type = HXQUOTE_BASE64 then Some (HX_quote_base64 src (CHR ''+'') (CHR ''/''))
      else if type = HXQUOTE_BASE64URL then Some (HX_quote_base64 src (CHR ''-'') (CHR ''_''))
      else if type = HXQUOTE_BASE64IMAP then Some (HX_quote_base64 src (CHR ''+'') (CHR '',''))
      else if type = HXQUOTE_URIENC then Some (HX_quote_urlenc src)
      else None)"

definition HX_strquote :: "bool \<Rightarrow> bool \<Rightarrow> char list \<Rightarrow> nat \<Rightarrow> qres option" where
  "HX_strquote ok given src type =
     (if type \<ge> HXQUOTE_MAX then Some QInval
      else if \<not> quote_needed src type then
        Some (if given then QSrc else if ok then QNew src else QNoMem)
      else if \<not> ok then Some QNoMem
      else let size = HX_quoted_size src type + 1 in
        case quote_text src type of
          None \<Rightarrow> Some QLost
        | Some out \<Rightarrow> if length out + 1 > size then None else Some (QNew out))"

section \<open>What the encoders compute\<close>

definition enc_all :: "(char \<Rightarrow> bool) \<Rightarrow> (char \<Rightarrow> char list) \<Rightarrow> char list \<Rightarrow> char list" where
  "enc_all plain enc src = concat (map (\<lambda>c. if plain c then [c] else enc c) src)"

lemma enc_loop_all:
  assumes "\<And>s. run s = length (takeWhile plain s)"
  shows "enc_loop run enc src = enc_all plain enc src"
proof (induction "length src" arbitrary: src rule: less_induct)
  case less
  have p: "enc_all plain enc (takeWhile plain xs) = takeWhile plain xs" for xs
    by (induction xs) (auto simp: enc_all_def)
  have app: "enc_all plain enc (xs @ ys) = enc_all plain enc xs @ enc_all plain enc ys" for xs ys
    by (simp add: enc_all_def)
  have d: "drop (run src) src = dropWhile plain src" "take (run src) src = takeWhile plain src"
    unfolding assms by (rule dropWhile_eq_drop [symmetric], rule takeWhile_eq_take [symmetric])
  show ?case
  proof (cases "dropWhile plain src")
    case Nil
    then have "takeWhile plain src = src" by (metis append_Nil2 takeWhile_dropWhile_id)
    then show ?thesis using d Nil p [of src] by (subst enc_loop.simps) (simp add: Let_def)
  next
    case (Cons c r)
    have c: "\<not> plain c" using dropWhile_eq_Cons_hd [OF Cons] .
    have "takeWhile plain src @ c # r = src" using Cons by (metis takeWhile_dropWhile_id)
    moreover have "enc_all plain enc (takeWhile plain src @ c # r) =
        takeWhile plain src @ enc c @ enc_all plain enc r"
      unfolding app p using c by (simp add: enc_all_def)
    ultimately have e: "enc_all plain enc src = takeWhile plain src @ enc c @ enc_all plain enc r"
      by (simp only:)
    have "length (dropWhile plain src) \<le> length src" by (simp add: length_dropWhile_le)
    then have "length r < length src" using Cons by simp
    from less [OF this] show ?thesis using d Cons e
      by (subst enc_loop.simps) (auto simp: Let_def)
  qed
qed

lemmas enc_eqs =
  HX_quote_backslash_def HX_quote_ldap_def HX_quote_urlenc_def HX_quote_html_def

lemma backslash_all: "HX_quote_backslash src qc = enc_all (\<lambda>c. c \<notin> set qc) (\<lambda>c. [CHR 0x5C, c]) src"
  unfolding HX_quote_backslash_def by (rule enc_loop_all) (simp add: strcspn_def)

lemma ldap_all: "HX_quote_ldap src qc = enc_all (\<lambda>c. c \<notin> set qc) (\<lambda>c. CHR 0x5C # hex2 c) src"
  unfolding HX_quote_ldap_def by (rule enc_loop_all) (simp add: strcspn_def)

lemma html_all: "HX_quote_html src = enc_all (\<lambda>c. c \<notin> set html_chars) html_entity src"
  unfolding HX_quote_html_def by (rule enc_loop_all) (simp add: strcspn_def)

lemma urlenc_all: "HX_quote_urlenc src = enc_all (\<lambda>c. c \<in> set uri_chars) (\<lambda>c. CHR ''%'' # hex2 c) src"
  unfolding HX_quote_urlenc_def
  by (rule enc_loop_all) (simp add: strspn_def HX_quote_rules_def HXQUOTE_URIENC_def)

section \<open>Sizes: facts\<close>

lemma bsr_loop_eq: "qsize_bsr_loop p q cost n = n + cost * ndelims p q"
proof (induction p q cost n rule: qsize_bsr_loop.induct)
  case (1 p q cost n)
  show ?case
  proof (cases "strpbrk p q")
    case None
    then have "ndelims p q = 0" using ndelims_None by blast
    then show ?thesis using None by (subst qsize_bsr_loop.simps) simp
  next
    case (Some i)
    then show ?thesis using 1 [OF Some] ndelims_Some [OF Some]
      by (subst qsize_bsr_loop.simps) (simp add: algebra_simps)
  qed
qed

lemma strchr2_split:
  assumes "HX_strchr2 p q = Some i"
  shows "i < length p" "p ! i \<notin> set q" "\<forall>c \<in> set (take i p). c \<in> set q" "p = take i p @ p ! i # drop (Suc i) p"
proof -
  have i: "i = length (takeWhile (\<lambda>c. c \<in> set q) p)" and l: "i < length p"
    using assms length_takeWhile_le [of "\<lambda>c. c \<in> set q" p]
    by (auto simp: HX_strchr2_def strspn_def Let_def split: if_splits)
  show "i < length p" by (rule l)
  show "p ! i \<notin> set q" using i l nth_length_takeWhile [of "\<lambda>c. c \<in> set q" p] by auto
  have "take i p = takeWhile (\<lambda>c. c \<in> set q) p" unfolding i by (rule takeWhile_eq_take [symmetric])
  then show "\<forall>c \<in> set (take i p). c \<in> set q" by (auto dest: set_takeWhileD)
  show "p = take i p @ p ! i # drop (Suc i) p" by (rule id_take_nth_drop [OF l])
qed

lemma strchr2_None: "HX_strchr2 p q = None \<Longrightarrow> set p \<subseteq> set q"
proof -
  assume "HX_strchr2 p q = None"
  then have "length (takeWhile (\<lambda>c. c \<in> set q) p) = length p"
    by (simp add: HX_strchr2_def strspn_def Let_def split: if_splits)
  then have "takeWhile (\<lambda>c. c \<in> set q) p = p" by (metis takeWhile_eq_take take_all order_refl)
  then show ?thesis by (auto simp: takeWhile_eq_all_conv)
qed

abbreviation outside :: "char list \<Rightarrow> char list \<Rightarrow> nat" where
  "outside p q \<equiv> length (filter (\<lambda>c. c \<notin> set q) p)"

lemma outside_Some:
  assumes "HX_strchr2 p q = Some i"
  shows "outside p q = Suc (outside (drop (Suc i) p) q)"
proof -
  have "outside p q = outside (take i p @ p ! i # drop (Suc i) p) q"
    using strchr2_split(4) [OF assms] by simp
  also have "\<dots> = Suc (outside (drop (Suc i) p) q)"
    using strchr2_split(2,3) [OF assms] by (simp add: filter_empty_conv)
  finally show ?thesis .
qed

lemma bsa_loop_eq: "qsize_bsa_loop p q cost n = n + cost * outside p q"
proof (induction p q cost n rule: qsize_bsa_loop.induct)
  case (1 p q cost n)
  show ?case
  proof (cases "HX_strchr2 p q")
    case None
    then have "outside p q = 0" using strchr2_None [OF None] by (auto simp: filter_empty_conv)
    then show ?thesis using None by (subst qsize_bsa_loop.simps) simp
  next
    case (Some i)
    then show ?thesis using 1 [OF Some] outside_Some [OF Some]
      by (subst qsize_bsa_loop.simps) (simp add: algebra_simps)
  qed
qed

definition html_cost :: "char \<Rightarrow> nat" where
  "html_cost c = length (html_entity c) - 1"

lemma html_chars_eq: "html_chars = [CHR 0x22, CHR ''&'', CHR ''<'', CHR ''>'']"
  by (simp add: html_chars_def HX_quote_rules_def HXQUOTE_HTML_def)

lemma html_plain: "c \<notin> set html_chars \<Longrightarrow> html_cost c = 0"
  by (auto simp: html_chars_eq html_cost_def html_entity_def)

lemma html_loop_eq: "qsize_html_loop p n = n + sum_list (map html_cost p)"
proof (induction p n rule: qsize_html_loop.induct)
  case (1 p n)
  show ?case
  proof (cases "strpbrk p html_chars")
    case None
    then have "sum_list (map html_cost p) = 0"
      using html_plain by (simp add: strpbrk_None disjoint_iff)
    then show ?thesis using None by (subst qsize_html_loop.simps) simp
  next
    case (Some i)
    note s = strpbrk_Some [OF Some]
    have "sum_list (map html_cost (take i p)) = 0"
      using html_plain s(3) by (simp add: disjoint_iff)
    moreover have "sum_list (map html_cost p) = sum_list (map html_cost (take i p @ p ! i # drop (Suc i) p))"
      using s(4) by simp
    ultimately have "sum_list (map html_cost p) = html_cost (p ! i) + sum_list (map html_cost (drop (Suc i) p))"
      by simp
    moreover have "(if p ! i = CHR 0x22 then n + 5 else if p ! i = CHR ''&'' then n + 4
        else if p ! i = CHR ''<'' \<or> p ! i = CHR ''>'' then n + 3 else n) = n + html_cost (p ! i)"
      using s(2) by (auto simp: html_chars_eq html_cost_def html_entity_def)
    ultimately show ?thesis using Some 1 [OF Some refl]
      by (subst qsize_html_loop.simps) (simp add: Let_def)
  qed
qed

lemma enc_all_Cons [simp]: "enc_all plain enc (c # s) = (if plain c then [c] else enc c) @ enc_all plain enc s"
  "enc_all plain enc [] = []"
  by (simp_all add: enc_all_def)

lemma length_rej:
  "(\<And>c. length (enc c) = Suc k) \<Longrightarrow>
    length (enc_all (\<lambda>c. c \<notin> set q) enc s) = length s + k * ndelims s q"
  by (induction s) (auto simp: ndelims_def)

lemma length_acc:
  "(\<And>c. length (enc c) = Suc k) \<Longrightarrow>
    length (enc_all (\<lambda>c. c \<in> set q) enc s) = length s + k * outside s q"
  by (induction s) auto

lemma length_html: "length (HX_quote_html s) = length s + sum_list (map html_cost s)"
  unfolding html_all
proof (induction s)
  case (Cons c s)
  have "length (if c \<notin> set html_chars then [c] else html_entity c) = Suc (html_cost c)"
    by (auto simp: html_chars_eq html_cost_def html_entity_def)
  then show ?case using Cons by simp
qed simp

lemma length_base64: "length (base64_loop a s) = (length s + 2) div 3 * 4"
proof (induction a s rule: base64_loop.induct)
  case (4 a s0 s1 s2 s)
  have "(5 + n) div 3 = Suc ((2 + n) div 3)" for n :: nat by presburger
  then show ?case using 4 by simp
qed auto

lemma length_quotes:
  "length (HX_quote_backslash s q) = length s + ndelims s q"
  "length (HX_quote_ldap s q) = length s + 2 * ndelims s q"
  "length (HX_quote_urlenc s) = length s + 2 * outside s uri_chars"
  by (simp_all add: backslash_all ldap_all urlenc_all length_rej [where k = 1] length_rej [where k = 2]
      length_acc [where k = 2] hex2_def)

lemma rule_uri: "qchars (HX_quote_rules ! 7) = uri_chars"
  by (simp add: HX_quote_rules_def)

lemma quote_type_cases:
  "type = 0 \<or> type = 1 \<or> type = 2 \<or> type = 3 \<or> type = 4 \<or> type = 5 \<or> type = 6 \<or> type = 7 \<or>
    type = 8 \<or> type = 9 \<or> HXQUOTE_MAX \<le> type" for type :: nat
  unfolding HXQUOTE_MAX_def by presburger

lemma quote_fits:
  "case quote_text src type of None \<Rightarrow> type = 0 \<or> HXQUOTE_MAX \<le> type
   | Some out \<Rightarrow> length out = HX_quoted_size src type"
proof -
  from quote_type_cases [of type] show ?thesis
    by (elim disjE)
      (simp_all add: quote_text_def HX_quoted_size_def quote_types HX_qsize_bsr_def HX_qsize_bsa_def
        HX_qsize_html_def bsr_loop_eq bsa_loop_eq html_loop_eq length_html length_base64
        HX_quote_base64_def length_quotes rule_uri)
qed

text \<open>C32: every encoder writes exactly as many bytes as \<open>HX_quoted_size\<close> has computed, so the string and
  its terminator fit the allocated block exactly and \<open>HX_strquote\<close> never writes behind it.\<close>

theorem HX_strquote_fits:
  "HX_strquote ok given src type \<noteq> None \<and>
   (case quote_text src type of None \<Rightarrow> type = 0 \<or> HXQUOTE_MAX \<le> type
    | Some out \<Rightarrow> length out = HX_quoted_size src type)"
  using quote_fits [of type src] by (auto simp: HX_strquote_def Let_def split: option.splits)

section \<open>Decoding\<close>

text \<open>The reference decoders: the inverse of each encoding, as its format defines it.\<close>

fun unbackslash :: "char list \<Rightarrow> char list" where
  "unbackslash [] = []"
| "unbackslash [c] = [c]"
| "unbackslash (c # d # s) = (if c = CHR 0x5C then d # unbackslash s else c # unbackslash (d # s))"

definition hexval :: "char \<Rightarrow> nat" where
  "hexval c = (if isdigit c then of_char c - 48 else of_char c - 55)"

fun unhex :: "char \<Rightarrow> char list \<Rightarrow> char list" where
  "unhex e (c # h # l # s) =
     (if c = e then char_of (16 * hexval h + hexval l) # unhex e s else c # unhex e (h # l # s))"
| "unhex e s = s"

definition html_entities :: "(char list \<times> char) list" where
  "html_entities = [(''&quot;'', CHR 0x22), (''&amp;'', CHR ''&''), (''&lt;'', CHR ''<''), (''&gt;'', CHR ''>'')]"

function unhtml :: "char list \<Rightarrow> char list" where
  "unhtml s =
     (if s = [] then []
      else case List.find (\<lambda>(n, c). is_prefix n s) html_entities of
          Some (n, c) \<Rightarrow> c # unhtml (drop (length n) s)
        | None \<Rightarrow> hd s # unhtml (tl s))"
  by pat_completeness auto
termination
proof (relation "measure length")
  fix s x :: "char list" and y :: "char list \<times> char" and n c
  assume "s \<noteq> []" "List.find (\<lambda>(n, c). is_prefix n s) html_entities = Some y" "(n, c) = y"
  then have "n \<noteq> []" by (auto simp: html_entities_def split: if_splits)
  then show "(drop (length n) s, s) \<in> measure length" using \<open>s \<noteq> []\<close> by auto
qed auto

declare unhtml.simps [simp del]

definition index_of :: "char list \<Rightarrow> char \<Rightarrow> nat" where
  "index_of a c = length (takeWhile (\<lambda>d. d \<noteq> c) a)"

fun unbase64 :: "char list \<Rightarrow> char list \<Rightarrow> char list" where
  "unbase64 a (w # x # y # z # s) =
     (let v = index_of a w; i = index_of a x; j = index_of a y; k = index_of a z in
      char_of (4 * v + i div 16) #
      (if y = CHR ''='' then []
       else char_of (16 * (i mod 16) + j div 4) #
        (if z = CHR ''='' then [] else char_of (64 * (j mod 4) + k) # unbase64 a s)))"
| "unbase64 a s = []"

lemma decode_all:
  assumes "dec [] = []" "\<And>c s. plain c \<Longrightarrow> dec (c # enc_all plain enc s) = c # dec (enc_all plain enc s)"
    and "\<And>c s. \<not> plain c \<Longrightarrow> dec (enc c @ enc_all plain enc s) = c # dec (enc_all plain enc s)"
  shows "dec (enc_all plain enc s) = s"
  using assms by (induction s) auto

lemma unbackslash_plain: "c \<noteq> CHR 0x5C \<Longrightarrow> unbackslash (c # s) = c # unbackslash s"
  by (cases s) auto

lemma backslash_roundtrip: "CHR 0x5C \<in> set q \<Longrightarrow> unbackslash (HX_quote_backslash s q) = s"
  unfolding backslash_all
proof (rule decode_all)
  fix c s assume "CHR 0x5C \<in> set q" "c \<notin> set q"
  then show "unbackslash (c # enc_all (\<lambda>c. c \<notin> set q) (\<lambda>c. [CHR 0x5C, c]) s) =
      c # unbackslash (enc_all (\<lambda>c. c \<notin> set q) (\<lambda>c. [CHR 0x5C, c]) s)"
    by (intro unbackslash_plain) auto
qed simp_all

lemma of_char_bound: "(of_char c :: nat) < 256"
  by (rule nat_of_char_less_256)

lemma nibbles: "n < 256 \<Longrightarrow> drop_bit 4 n AND 15 = n div 16 \<and> n AND 15 = n mod 16" for n :: nat
proof -
  assume n: "n < 256"
  have "m AND 15 = m mod 16" for m :: nat
    using take_bit_eq_mask [of 4 m] by (simp add: take_bit_eq_mod mask_eq_exp_minus_1)
  moreover have "drop_bit 4 n = n div 16" by (simp add: drop_bit_eq_div)
  moreover have "n div 16 < 16" using n by simp
  ultimately show ?thesis by simp
qed

lemma hexval_enc: "n < 16 \<Longrightarrow> hexval (HX_hexenc ! n) = n"
proof -
  have "\<forall>n \<in> set [0..<16]. hexval (HX_hexenc ! n) = n"
    by code_simp
  then show "n < 16 \<Longrightarrow> ?thesis" by simp
qed

lemma unhex_enc: "unhex e (e # hex2 c @ s) = c # unhex e s"
proof -
  let ?n = "of_char c :: nat"
  have "hex2 c = [HX_hexenc ! (?n div 16), HX_hexenc ! (?n mod 16)]"
    using nibbles [OF of_char_bound [of c]] by (simp add: hex2_def)
  moreover have "?n div 16 < 16" "?n mod 16 < 16"
    using of_char_bound [of c] by (intro less_mult_imp_div_less, simp, simp)
  then have "hexval (HX_hexenc ! (?n div 16)) = ?n div 16" "hexval (HX_hexenc ! (?n mod 16)) = ?n mod 16"
    by (simp_all only: hexval_enc)
  ultimately show ?thesis by simp
qed

lemma unhex_plain: "c \<noteq> e \<Longrightarrow> unhex e (c # s) = c # unhex e s"
  by (cases s rule: remdups_adj.cases; cases "tl s") auto

lemma urlenc_roundtrip: "unhex (CHR ''%'') (HX_quote_urlenc s) = s"
  unfolding urlenc_all
proof (rule decode_all)
  fix c s assume "c \<in> set uri_chars"
  then have "c \<noteq> CHR ''%''" by (auto simp: uri_chars_def)
  then show "unhex (CHR ''%'') (c # enc_all (\<lambda>c. c \<in> set uri_chars) (\<lambda>c. CHR ''%'' # hex2 c) s) =
      c # unhex (CHR ''%'') (enc_all (\<lambda>c. c \<in> set uri_chars) (\<lambda>c. CHR ''%'' # hex2 c) s)"
    by (rule unhex_plain)
qed (simp_all add: unhex_enc)

lemma ldap_roundtrip: "CHR 0x5C \<in> set q \<Longrightarrow> unhex (CHR 0x5C) (HX_quote_ldap s q) = s"
  unfolding ldap_all
proof (rule decode_all)
  fix c s assume "CHR 0x5C \<in> set q" "c \<notin> set q"
  then show "unhex (CHR 0x5C) (c # enc_all (\<lambda>c. c \<notin> set q) (\<lambda>c. CHR 0x5C # hex2 c) s) =
      c # unhex (CHR 0x5C) (enc_all (\<lambda>c. c \<notin> set q) (\<lambda>c. CHR 0x5C # hex2 c) s)"
    by (intro unhex_plain) auto
qed (simp_all add: unhex_enc)

lemma html_roundtrip: "unhtml (HX_quote_html s) = s"
  unfolding html_all
proof (rule decode_all)
  show "unhtml [] = []" by (simp add: unhtml.simps)
next
  fix c s assume "c \<notin> set html_chars"
  then have "c \<noteq> CHR ''&''" by (auto simp: html_chars_eq)
  then show "unhtml (c # enc_all (\<lambda>c. c \<notin> set html_chars) html_entity s) =
      c # unhtml (enc_all (\<lambda>c. c \<notin> set html_chars) html_entity s)"
    by (subst unhtml.simps) (simp add: html_entities_def)
next
  fix c s assume "\<not> c \<notin> set html_chars"
  then show "unhtml (html_entity c @ enc_all (\<lambda>c. c \<notin> set html_chars) html_entity s) =
      c # unhtml (enc_all (\<lambda>c. c \<notin> set html_chars) html_entity s)"
    by (subst unhtml.simps) (auto simp: html_entities_def html_chars_eq html_entity_def)
qed

lemma low_bits: "m AND 3 = m mod 4" "m AND 15 = m mod 16" "m AND 63 = m mod 64" for m :: nat
  using take_bit_eq_mask [of 2 m] take_bit_eq_mask [of 4 m] take_bit_eq_mask [of 6 m]
  by (simp_all add: take_bit_eq_mod mask_eq_exp_minus_1)

lemma sextets:
  fixes s :: nat
  assumes "s < 256"
  shows "drop_bit 2 (s AND 0xFC) = s div 4" "push_bit 4 (s AND 0x03) = 16 * (s mod 4)"
    "drop_bit 4 (s AND 0xF0) = s div 16" "push_bit 2 (s AND 0x0F) = 4 * (s mod 16)"
    "drop_bit 6 (s AND 0xC0) = s div 64" "s AND 0x3F = s mod 64"
proof -
  have "drop_bit 2 (s AND 0xFC) = drop_bit 2 s AND 63" by (simp add: drop_bit_and)
  moreover have "drop_bit 2 s = s div 4" by (simp add: drop_bit_eq_div)
  moreover have "s div 4 < 64" using assms by simp
  ultimately show "drop_bit 2 (s AND 0xFC) = s div 4" by (simp only: low_bits mod_less)
  have "drop_bit 4 (s AND 0xF0) = drop_bit 4 s AND 15" by (simp add: drop_bit_and)
  moreover have "drop_bit 4 s = s div 16" by (simp add: drop_bit_eq_div)
  moreover have "s div 16 < 16" using assms by simp
  ultimately show "drop_bit 4 (s AND 0xF0) = s div 16" by (simp only: low_bits mod_less)
  have "drop_bit 6 (s AND 0xC0) = drop_bit 6 s AND 3" by (simp add: drop_bit_and)
  moreover have "drop_bit 6 s = s div 64" by (simp add: drop_bit_eq_div)
  moreover have "s div 64 < 4" using assms by simp
  ultimately show "drop_bit 6 (s AND 0xC0) = s div 64" by (simp only: low_bits mod_less)
  show "push_bit 4 (s AND 0x03) = 16 * (s mod 4)" by (simp add: low_bits push_bit_eq_mult)
  show "push_bit 2 (s AND 0x0F) = 4 * (s mod 16)" by (simp add: low_bits push_bit_eq_mult)
  show "s AND 0x3F = s mod 64" by (rule low_bits)
qed

lemma or_disjoint:
  "x < 4 \<Longrightarrow> y < 16 \<Longrightarrow> 16 * x OR y = 16 * x + y"
  "z < 16 \<Longrightarrow> x < 4 \<Longrightarrow> 4 * z OR x = 4 * z + x" for x y z :: nat
proof -
  have "\<forall>x \<in> set [0..<4]. \<forall>y \<in> set [0..<16]. 16 * x OR y = 16 * x + (y :: nat) \<and> 4 * y OR x = 4 * y + x"
    by code_simp
  then show "x < 4 \<Longrightarrow> y < 16 \<Longrightarrow> 16 * x OR y = 16 * x + y" "z < 16 \<Longrightarrow> x < 4 \<Longrightarrow> 4 * z OR x = 4 * z + x"
    by simp_all
qed

definition b64_ok :: "char list \<Rightarrow> bool" where
  "b64_ok a \<longleftrightarrow> length a = 64 \<and> distinct a \<and> CHR ''='' \<notin> set a"

lemma index_of_nth: "distinct a \<Longrightarrow> i < length a \<Longrightarrow> index_of a (a ! i) = i"
proof (induction a arbitrary: i)
  case (Cons x xs)
  then show ?case by (cases i) (auto simp: index_of_def)
qed simp

lemma b64_index: "b64_ok a \<Longrightarrow> i < 64 \<Longrightarrow> index_of a (a ! i) = i \<and> a ! i \<noteq> CHR ''=''"
proof -
  assume a: "b64_ok a" "i < 64"
  then have "a ! i \<in> set a" "CHR ''='' \<notin> set a" by (simp_all add: b64_ok_def)
  then have "a ! i \<noteq> CHR ''=''" by metis
  moreover have "index_of a (a ! i) = i" using a by (intro index_of_nth) (simp_all add: b64_ok_def)
  ultimately show ?thesis by blast
qed

lemma alphabets_ok:
  "b64_ok (base64_alphabet (CHR ''+'') (CHR ''/''))" "b64_ok (base64_alphabet (CHR ''-'') (CHR ''_''))"
  "b64_ok (base64_alphabet (CHR ''+'') (CHR '',''))"
  by (simp_all add: b64_ok_def base64_alphabet_def)

text \<open>The indices of the four output characters, as arithmetic.\<close>

lemma b64_indices:
  fixes p q r :: char
  defines "s \<equiv> of_char p :: nat" and "t \<equiv> of_char q :: nat" and "u \<equiv> of_char r :: nat"
  shows "s div 4 < 64" "16 * (s mod 4) < 64" "16 * (s mod 4) + t div 16 < 64" "4 * (t mod 16) < 64"
    "4 * (t mod 16) + u div 64 < 64" "u mod 64 < 64" "t div 16 < 16" "u div 64 < 4"
    "push_bit 4 (s AND 0x03) OR drop_bit 4 (t AND 0xF0) = 16 * (s mod 4) + t div 16"
    "push_bit 2 (t AND 0x0F) OR drop_bit 6 (u AND 0xC0) = 4 * (t mod 16) + u div 64"
proof -
  have b: "s < 256" "t < 256" "u < 256" using of_char_bound by (simp_all add: s_def t_def u_def)
  show d: "t div 16 < 16" "u div 64 < 4" using b by simp_all
  show "s div 4 < 64" using b by simp
  have m: "s mod 4 \<le> 3" "t mod 16 \<le> 15" by (simp_all flip: less_Suc_eq_le)
  then show "16 * (s mod 4) < 64" "16 * (s mod 4) + t div 16 < 64" "4 * (t mod 16) < 64"
    "4 * (t mod 16) + u div 64 < 64" using d by linarith+
  show "u mod 64 < 64" by simp
  show "push_bit 4 (s AND 0x03) OR drop_bit 4 (t AND 0xF0) = 16 * (s mod 4) + t div 16"
    unfolding sextets [OF b(1)] sextets [OF b(2)] using d by (intro or_disjoint) simp_all
  show "push_bit 2 (t AND 0x0F) OR drop_bit 6 (u AND 0xC0) = 4 * (t mod 16) + u div 64"
    unfolding sextets [OF b(2)] sextets [OF b(3)] using d by (intro or_disjoint) simp_all
qed

lemma b64_join:
  "y < 16 \<Longrightarrow> 4 * (s div 4) + (16 * (s mod 4) + y) div 16 = s"
  "4 * (s div 4) + 16 * (s mod 4) div 16 = s"
  "x < 4 \<Longrightarrow> y < 16 \<Longrightarrow> t div 16 = y \<Longrightarrow> 16 * ((16 * m + y) mod 16) + (4 * (t mod 16) + x) div 4 = t"
  "t div 16 = y \<Longrightarrow> y < 16 \<Longrightarrow> 16 * ((16 * m + y) mod 16) + 4 * (t mod 16) div 4 = t"
  "x < 4 \<Longrightarrow> u div 64 = x \<Longrightarrow> 64 * ((4 * k + x) mod 4) + u mod 64 = u" for s t u x y m k :: nat
  by auto

lemma base64_roundtrip: "b64_ok a \<Longrightarrow> unbase64 a (base64_loop a s) = s"
proof (induction a s rule: base64_loop.induct)
  case (2 a p)
  have i: "index_of a (a ! (of_char p div 4)) = of_char p div 4"
    "index_of a (a ! (16 * (of_char p mod 4))) = 16 * (of_char p mod 4)"
    using b64_index [OF 2] b64_indices(1,2) by blast+
  show ?case
    by (simp only: base64_loop.simps unbase64.simps Let_def sextets [OF of_char_bound] i b64_join) simp
next
  case (3 a p q)
  have i: "index_of a (a ! (of_char p div 4)) = of_char p div 4"
    "index_of a (a ! (16 * (of_char p mod 4) + of_char q div 16)) = 16 * (of_char p mod 4) + of_char q div 16"
    "index_of a (a ! (4 * (of_char q mod 16))) = 4 * (of_char q mod 16)" "a ! (4 * (of_char q mod 16)) \<noteq> CHR ''=''"
    using b64_index [OF 3] b64_indices(1,3,4) by blast+
  show ?case
    by (simp only: base64_loop.simps unbase64.simps Let_def b64_indices(9)
        sextets(1,4) [OF of_char_bound] i b64_join(1) [OF b64_indices(7)] if_False b64_join(4) [OF refl b64_indices(7)]) simp
next
  case (4 a p q r s)
  have i: "index_of a (a ! (of_char p div 4)) = of_char p div 4"
    "index_of a (a ! (16 * (of_char p mod 4) + of_char q div 16)) = 16 * (of_char p mod 4) + of_char q div 16"
    "index_of a (a ! (4 * (of_char q mod 16) + of_char r div 64)) = 4 * (of_char q mod 16) + of_char r div 64"
    "index_of a (a ! (of_char r mod 64)) = of_char r mod 64"
    "a ! (4 * (of_char q mod 16) + of_char r div 64) \<noteq> CHR ''=''" "a ! (of_char r mod 64) \<noteq> CHR ''=''"
    using b64_index [OF 4(2)] b64_indices(1,3,5,6) by blast+
  show ?case
    using 4
    by (simp only: base64_loop.simps unbase64.simps Let_def b64_indices(9,10) append_Cons append_Nil
        sextets(1,6) [OF of_char_bound] i b64_join(1) [OF b64_indices(7)] if_False
        b64_join(3) [OF b64_indices(8,7) refl] b64_join(5) [OF b64_indices(8) refl]) simp
qed simp

definition unquote :: "nat \<Rightarrow> char list \<Rightarrow> char list" where
  "unquote type s =
     (if type = HXQUOTE_SQUOTE \<or> type = HXQUOTE_DQUOTE then unbackslash s
      else if type = HXQUOTE_HTML then unhtml s
      else if type = HXQUOTE_LDAPFLT \<or> type = HXQUOTE_LDAPRDN then unhex (CHR 0x5C) s
      else if type = HXQUOTE_BASE64 then unbase64 (base64_alphabet (CHR ''+'') (CHR ''/'')) s
      else if type = HXQUOTE_BASE64URL then unbase64 (base64_alphabet (CHR ''-'') (CHR ''_'')) s
      else if type = HXQUOTE_BASE64IMAP then unbase64 (base64_alphabet (CHR ''+'') (CHR '','')) s
      else unhex (CHR ''%'') s)"

lemma enc_all_plain: "\<forall>c \<in> set s. plain c \<Longrightarrow> enc_all plain enc s = s"
  by (induction s) auto

lemma unneeded_text:
  assumes "\<not> quote_needed src type"
  shows "quote_text src type = Some src"
proof -
  have r: "type = 1 \<or> type = 2 \<or> type = 3 \<or> type = 4 \<or> type = 5 \<or> type = 7"
    using assms quote_type_cases [of type]
    by (elim disjE) (simp_all add: quote_needed_def HX_quote_rules_def HXQUOTE_MAX_def)
  have n: "strpbrk src (qchars (HX_quote_rules ! type)) = None" if "type \<noteq> 7"
    using assms r that by (elim disjE) (simp_all add: quote_needed_def HX_quote_rules_def)
  have rej: "set src \<inter> set (qchars (HX_quote_rules ! type)) = {}" if "type \<noteq> 7"
    using n [OF that] strpbrk_None by blast
  have acc: "set src \<subseteq> set uri_chars" if "type = 7"
    using assms that strchr2_None [of src uri_chars] by (simp add: quote_needed_def HX_quote_rules_def)
  have e: "enc_all (\<lambda>c. c \<notin> set (qchars (HX_quote_rules ! type))) enc src = src" if "type \<noteq> 7" for enc
    using rej [OF that] by (intro enc_all_plain) auto
  have u: "enc_all (\<lambda>c. c \<in> set uri_chars) enc src = src" if "type = 7" for enc
    using acc [OF that] by (intro enc_all_plain) auto
  show ?thesis
    using r e u
    by (elim disjE)
      (simp_all add: quote_text_def quote_types backslash_all ldap_all html_all urlenc_all html_chars_def)
qed

lemma rules_backslash:
  "CHR 0x5C \<in> set (qchars (HX_quote_rules ! Suc 0))" "CHR 0x5C \<in> set (qchars (HX_quote_rules ! 2))"
  "CHR 0x5C \<in> set (qchars (HX_quote_rules ! 4))" "CHR 0x5C \<in> set (qchars (HX_quote_rules ! 5))"
  by (simp_all add: HX_quote_rules_def)

lemma unquote_text:
  assumes "quote_text src type = Some out"
  shows "unquote type out = src"
proof -
  have "quote_text src type \<noteq> None" using assms by simp
  then have "unquote type (the (quote_text src type)) = src"
    using quote_type_cases [of type]
    by (elim disjE)
      (simp_all add: quote_text_def unquote_def quote_types HX_quote_base64_def backslash_roundtrip
        ldap_roundtrip html_roundtrip urlenc_roundtrip base64_roundtrip alphabets_ok rules_backslash)
  then show ?thesis using assms by simp
qed

text \<open>C31: for each of the nine types, decoding what \<open>HX_strquote\<close> returns gives the source string back,
  also where it returns the source itself because nothing needs quoting (which it does only when the
  caller passed a slot for the allocation).\<close>

theorem HX_strquote_roundtrip:
  assumes "0 < type" and "type < HXQUOTE_MAX"
  shows "\<exists>out. unquote type out = src \<and>
    (HX_strquote True given src type = Some (QNew out) \<or>
     given \<and> HX_strquote True given src type = Some QSrc \<and> out = src)"
proof -
  obtain out where out: "quote_text src type = Some out" "length out = HX_quoted_size src type"
    using quote_fits [of type src] assms by (auto split: option.splits)
  show ?thesis
  proof (cases "quote_needed src type")
    case True
    then have "HX_strquote True given src type = Some (QNew out)"
      using out assms(2) by (simp add: HX_strquote_def)
    then show ?thesis using unquote_text [OF out(1)] by blast
  next
    case False
    then have "unquote type src = src" using unquote_text unneeded_text by blast
    moreover have "HX_strquote True given src type = Some (if given then QSrc else QNew src)"
      using False assms(2) by (simp add: HX_strquote_def)
    ultimately show ?thesis by (cases given) auto
  qed
qed

theorem HX_strquote_roundtrip_witness:
  "\<exists>out. unquote HXQUOTE_HTML out = ''a<b&c'' \<and>
    (HX_strquote True False ''a<b&c'' HXQUOTE_HTML = Some (QNew out) \<or>
     False \<and> HX_strquote True False ''a<b&c'' HXQUOTE_HTML = Some QSrc \<and> out = ''a<b&c'')"
  using HX_strquote_roundtrip [of HXQUOTE_HTML "''a<b&c''" False] by (simp add: quote_types)

end
