(* ===== verification/HX_Num.thy ===== *)
theory HX_Num
  imports HX_Cstring
begin

text \<open>
  Numbers in text: the conversions of \<^verbatim>\<open>stdio.h\<close> and \<^verbatim>\<open>stdlib.h\<close> that libHX uses. \<open>udec\<close> is what
  \<^verbatim>\<open>%llu\<close> prints, \<open>snprintf\<close> puts a formatted text into a block of \<open>n\<close> bytes, and \<open>strtoull\<close> reads
  base 10: white space, a sign and digits. It returns the value, the number of characters up to
  \<^verbatim>\<open>*endptr\<close>, and whether \<^verbatim>\<open>errno\<close> becomes \<open>ERANGE\<close>.

  Floating-point arithmetic is a parameter: the record \<open>fpops\<close> has one entry for every operation that the code
  applies to a \<^verbatim>\<open>double\<close>. No theorem assumes anything of them.
\<close>

section \<open>Printing\<close>

definition digit :: "nat \<Rightarrow> char" where
  "digit d = char_of (48 + d)"

fun udec :: "nat \<Rightarrow> char list" where
  "udec n = (if n < 10 then [digit n] else udec (n div 10) @ [digit (n mod 10)])"

declare udec.simps [simp del]

definition snprintf :: "char list \<Rightarrow> nat \<Rightarrow> char list \<Rightarrow> char list option" where
  "snprintf buf n txt = (if n = 0 then Some buf else wrn buf 0 (take (n - 1) txt @ [NUL]))"

section \<open>Reading\<close>

text \<open>\<^verbatim>\<open>*s\<close>.\<close>

abbreviation at0 :: "char list \<Rightarrow> char" where
  "at0 s \<equiv> (case s of [] \<Rightarrow> NUL | c # _ \<Rightarrow> c)"

definition digit_val :: "char \<Rightarrow> nat" where
  "digit_val c = of_char c - 48"

definition dec_val :: "char list \<Rightarrow> nat" where
  "dec_val ds = foldl (\<lambda>a c. 10 * a + digit_val c) 0 ds"

definition ULLONG_MAX :: u64 where "ULLONG_MAX = - 1"

definition strtoull :: "char list \<Rightarrow> u64 \<times> nat \<times> bool" where
  "strtoull s =
     (let ws = length (takeWhile isspace s);
          t = drop ws s;
          neg = (t \<noteq> [] \<and> hd t = CHR ''-'');
          sg = (if t \<noteq> [] \<and> (hd t = CHR ''-'' \<or> hd t = CHR ''+'') then 1 else 0);
          ds = takeWhile isdigit (drop sg t);
          v = dec_val ds
      in if ds = [] then (0, 0, False)
         else if v \<ge> 2 ^ 64 then (ULLONG_MAX, ws + sg + length ds, True)
         else (if neg then - of_nat v else of_nat v, ws + sg + length ds, False))"

text \<open>
  Base 0: \<^verbatim>\<open>0x\<close> and \<^verbatim>\<open>0\<close> in front select base 16 and 8. The sign, the number and the characters used.
\<close>

definition isxdigit :: "char \<Rightarrow> bool" where
  "isxdigit c \<longleftrightarrow> isdigit c \<or> (97 \<le> (of_char (tolower c) :: nat) \<and> (of_char (tolower c) :: nat) \<le> 102)"

definition xdigit_val :: "char \<Rightarrow> nat" where
  "xdigit_val c = (if isdigit c then of_char c - 48 else of_char (tolower c) - 87)"

definition base_val :: "nat \<Rightarrow> char list \<Rightarrow> nat" where
  "base_val base ds = foldl (\<lambda>a c. base * a + xdigit_val c) 0 ds"

definition strto0 :: "char list \<Rightarrow> bool \<times> nat \<times> nat" where
  "strto0 s =
     (let ws = length (takeWhile isspace s);
          t = drop ws s;
          sg = (if at0 t = CHR ''-'' \<or> at0 t = CHR ''+'' then 1 else 0);
          u = drop sg t;
          (base, pfx) = (if at0 u = CHR ''0'' then
              (if tolower (at0 (drop 1 u)) = CHR ''x'' \<and> isxdigit (at0 (drop 2 u)) then (16, 2) else (8, 0)) else (10, 0));
          ds = takeWhile (\<lambda>c. isxdigit c \<and> xdigit_val c < base) (drop pfx u)
      in if ds = [] then (False, 0, 0) else (at0 t = CHR ''-'', base_val base ds, ws + sg + pfx + length ds))"

text \<open>\<^verbatim>\<open>strtol(s, &end, 0)\<close> and \<^verbatim>\<open>strtoul(s, &end, 0)\<close>, which saturate.\<close>

definition strtol0 :: "char list \<Rightarrow> u64 \<times> nat" where
  "strtol0 s =
     (case strto0 s of (neg, v, k) \<Rightarrow>
        (if neg then (if v > 2 ^ 63 then of_nat (2 ^ 63) else - of_nat v)
         else if v \<ge> 2 ^ 63 then of_nat (2 ^ 63 - 1) else of_nat v, k))"

definition strtoul0 :: "char list \<Rightarrow> u64 \<times> nat" where
  "strtoul0 s =
     (case strto0 s of (neg, v, k) \<Rightarrow>
        (if v \<ge> 2 ^ 64 then ULLONG_MAX else if neg then - of_nat v else of_nat v, k))"

record 'f fpops =
  fp_strtod :: "char list \<Rightarrow> 'f \<times> nat \<times> bool"
  fp_is0 :: "'f \<Rightarrow> bool"
  fp_mul :: "'f \<Rightarrow> u64 \<Rightarrow> 'f"
  fp_mulpow :: "'f \<Rightarrow> u32 \<Rightarrow> nat \<Rightarrow> 'f"
  fp_lo_ok :: "'f \<Rightarrow> bool"
  fp_hi_ok :: "'f \<Rightarrow> bool"
  fp_ge_max :: "'f \<Rightarrow> bool"
  fp_u64 :: "'f \<Rightarrow> u64"
  fp_float :: "'f \<Rightarrow> 'f"

text \<open>An instance for witnesses: a \<^verbatim>\<open>double\<close> that keeps whole numbers only.\<close>

definition whole_fp :: "nat fpops" where
  "whole_fp = \<lparr>fp_strtod = (\<lambda>s. case strtoull s of (v, k, er) \<Rightarrow> (unat v, k, er)),
     fp_is0 = (\<lambda>x. x = 0), fp_mul = (\<lambda>x m. x * unat m), fp_mulpow = (\<lambda>x e p. x * unat e ^ p),
     fp_lo_ok = (\<lambda>x. True), fp_hi_ok = (\<lambda>x. True), fp_ge_max = (\<lambda>x. 2 ^ 64 - 1 \<le> x), fp_u64 = of_nat, fp_float = id\<rparr>"

section \<open>Facts\<close>

lemma digit_facts:
  assumes "d < 10"
  shows "isdigit (digit d)" "digit_val (digit d) = d" "digit d \<noteq> NUL" "\<not> isspace (digit d)" "digit d \<noteq> CHR ''-''"
    "digit d \<noteq> CHR ''+''" "\<not> isalpha (digit d)" "digit d \<noteq> CHR ''.''"
proof -
  have o: "(of_char (digit d) :: nat) = 48 + d" using assms by (simp add: digit_def take_bit_nat_eq_self)
  have n: "digit d \<noteq> c" if "(of_char c :: nat) < 48 \<or> 58 \<le> (of_char c :: nat)" for c using o that assms by auto
  show "isdigit (digit d)" "digit_val (digit d) = d" using o assms by (simp_all add: isdigit_def digit_val_def)
  show "digit d \<noteq> NUL" "digit d \<noteq> CHR ''-''" "digit d \<noteq> CHR ''+''" "digit d \<noteq> CHR ''.''" by (rule n; simp)+
  have "digit d \<noteq> CHR '' ''" by (rule n) simp
  then show "\<not> isspace (digit d)" "\<not> isalpha (digit d)"
    using o assms by (simp_all add: isspace_def isalpha_def isupper_def islower_def)
qed

lemma udec_digits: "c \<in> set (udec n) \<Longrightarrow> \<exists>d < 10. c = digit d"
proof (induction n rule: udec.induct)
  case (1 n)
  have "n mod 10 < 10" by simp
  then show ?case using 1 by (subst (asm) (2) udec.simps) (fastforce split: if_splits)
qed

lemma udec_isdigit: "c \<in> set (udec n) \<Longrightarrow> isdigit c"
  using udec_digits digit_facts(1) by blast

lemma udec_nonempty [simp]: "udec n \<noteq> []"
  by (subst udec.simps) simp

lemma udec_hd: "\<exists>d < 10. hd (udec n) = digit d"
  using udec_digits [of "hd (udec n)" n] by simp

lemma dec_val_snoc: "dec_val (xs @ [c]) = 10 * dec_val xs + digit_val c"
  by (simp add: dec_val_def)

lemma dec_val_udec [simp]: "dec_val (udec n) = n"
proof (induction n rule: udec.induct)
  case (1 n)
  then show ?case
    by (subst udec.simps) (simp add: dec_val_snoc digit_facts, simp add: dec_val_def digit_facts)
qed

lemma udec_length: "n < 10 ^ k \<Longrightarrow> 0 < k \<Longrightarrow> length (udec n) \<le> k"
proof (induction n arbitrary: k rule: udec.induct)
  case (1 n)
  show ?case
  proof (cases "n < 10")
    case False
    then obtain j where j: "k = Suc j" "0 < j"
      using 1(2,3) by (cases k; cases "k - 1") auto
    then have "n div 10 < 10 ^ j" using 1(2) by (simp add: less_mult_imp_div_less)
    then show ?thesis using 1(1) [OF False _ j(2)] False j(1) by (subst udec.simps) simp
  qed (use 1(3) in \<open>subst udec.simps, simp\<close>)
qed

text \<open>Reading a printed number that is not followed by another digit.\<close>

lemma strtoull_udec:
  assumes "n < 2 ^ 64" "rest = [] \<or> \<not> isdigit (hd rest)"
  shows "strtoull (udec n @ rest) = (of_nat n, length (udec n), False)"
proof -
  obtain d where d: "d < 10" "hd (udec n) = digit d" using udec_hd by blast
  obtain c cs where c: "udec n = c # cs" by (cases "udec n") auto
  have h: "c = digit d" using d c by simp
  have ws: "takeWhile isspace (udec n @ rest) = []" using digit_facts(4) [OF d(1)] c h by simp
  have t: "takeWhile isdigit (udec n @ rest) = udec n"
    using assms(2) udec_isdigit by (cases rest) (auto simp: takeWhile_append_stop takeWhile_eq_all_conv)
  have s: "hd (udec n @ rest) \<noteq> CHR ''-''" "hd (udec n @ rest) \<noteq> CHR ''+''"
    using digit_facts(5,6) [OF d(1)] c h by simp_all
  show ?thesis unfolding strtoull_def ws using s t assms(1) by (simp add: Let_def)
qed

lemma strtoull_nonempty: "strtoull s = (v, k, e) \<Longrightarrow> 0 < k \<Longrightarrow> s \<noteq> []"
  by (auto simp: strtoull_def Let_def)

lemma snprintf_fits:
  assumes "length txt < n" "n \<le> length buf" "NUL \<notin> set txt"
  shows "\<exists>b. snprintf buf n txt = Some b \<and> cstr b = txt \<and> length b = length buf"
proof -
  let ?b = "txt @ [NUL] @ drop (length txt + 1) buf"
  have "snprintf buf n txt = Some ?b" using assms(1,2) by (simp add: snprintf_def wrn_def)
  moreover have "cstr ?b = txt" using cstr_append [OF assms(3)] by simp
  ultimately show ?thesis using assms(1,2) by simp
qed

text \<open>In general the text is cut off at \<open>n - 1\<close> characters.\<close>

lemma snprintf_cut:
  assumes "0 < n" "n \<le> length buf" "NUL \<notin> set txt"
  shows "\<exists>b. snprintf buf n txt = Some b \<and> cstr b = take (n - 1) txt \<and> length b = length buf"
proof -
  let ?t = "take (n - 1) txt"
  let ?b = "?t @ [NUL] @ drop (length ?t + 1) buf"
  have l: "length ?t + 1 \<le> length buf" using assms(1,2) by auto
  then have "snprintf buf n txt = Some ?b" using assms(1) by (simp add: snprintf_def wrn_def)
  moreover have "NUL \<notin> set ?t" using assms(3) by (meson in_set_takeD)
  then have "cstr ?b = ?t" using cstr_append by simp
  ultimately show ?thesis using l by simp
qed

lemma udec_no_NUL: "NUL \<notin> set (udec n)"
  using udec_digits digit_facts(3) by metis

text \<open>Base 0 on printed numbers: the first digit selects base 10, or is the only one.\<close>

lemma digit_0: "d < 10 \<Longrightarrow> digit d = CHR ''0'' \<longleftrightarrow> d = 0"
proof -
  assume "d < 10"
  then have "(of_char (digit d) :: nat) = 48 + d" by (simp add: digit_def take_bit_nat_eq_self)
  then have "digit d = CHR ''0'' \<Longrightarrow> d = 0" by simp
  moreover have "digit 0 = CHR ''0''" by code_simp
  ultimately show ?thesis by blast
qed

lemma udec_hd_0: "hd (udec n) = CHR ''0'' \<longleftrightarrow> n = 0"
proof (induction n rule: udec.induct)
  case (1 n)
  show ?case
  proof (cases "n < 10")
    case True
    then show ?thesis by (subst udec.simps) (simp add: digit_0)
  next
    case False
    then show ?thesis using 1 by (subst udec.simps) auto
  qed
qed

lemma xdigit_digit: "d < 10 \<Longrightarrow> isxdigit (digit d) \<and> xdigit_val (digit d) = d"
  using digit_facts(1,2) [of d] by (simp add: isxdigit_def xdigit_val_def digit_val_def)

lemma base_val_udec: "base_val 10 (udec n) = n"
proof -
  have "set xs \<subseteq> digit ` {..<10} \<Longrightarrow> foldl (\<lambda>a c. 10 * a + xdigit_val c) b xs = foldl (\<lambda>a c. 10 * a + digit_val c) b xs" for xs b
    by (induction xs arbitrary: b) (auto simp: xdigit_digit digit_facts(2))
  moreover have "set (udec n) \<subseteq> digit ` {..<10}" using udec_digits by blast
  ultimately show ?thesis using dec_val_udec [of n] by (simp add: base_val_def dec_val_def)
qed

definition sign :: "bool \<Rightarrow> char list" where
  "sign neg = (if neg then ''-'' else [])"

lemma strto0_udec: "snd (strto0 (sign neg @ udec n)) = (n, length (sign neg @ udec n)) \<and> (fst (strto0 (sign neg @ udec n)) \<longleftrightarrow> neg)"
proof -
  obtain d where d: "d < 10" "hd (udec n) = digit d" using udec_hd by blast
  obtain c cs where c: "udec n = c # cs" by (cases "udec n") auto
  have h: "c = digit d" using d c by simp
  note f = digit_facts [OF d(1)]
  have ns: "\<not> isspace (CHR ''-'')" by code_simp
  have ws: "takeWhile isspace (sign neg @ udec n) = []" using f(4) c h ns by (simp add: sign_def)
  define sg :: nat where "sg = (if neg then 1 else 0)"
  have sg: "(if at0 (sign neg @ udec n) = CHR ''-'' \<or> at0 (sign neg @ udec n) = CHR ''+'' then 1 else 0) = sg"
    "at0 (sign neg @ udec n) = CHR ''-'' \<longleftrightarrow> neg" "drop sg (sign neg @ udec n) = udec n" "length (sign neg) = sg"
    using f(5,6) c h by (auto simp: sign_def sg_def)
  have n10: "takeWhile (\<lambda>c. isxdigit c \<and> xdigit_val c < 10) (udec n) = udec n"
    unfolding takeWhile_eq_all_conv
  proof
    fix c assume "c \<in> set (udec n)"
    then obtain d where "d < 10" "c = digit d" using udec_digits by blast
    then show "isxdigit c \<and> xdigit_val c < 10" using xdigit_digit by simp
  qed
  show ?thesis
  proof (cases "n = 0")
    case True
    have z: "udec n = ''0''" unfolding True by code_simp
    have t: "takeWhile (\<lambda>c. isxdigit c \<and> xdigit_val c < 8) ''0'' = ''0''" "base_val 8 ''0'' = 0" by code_simp+
    have "tolower NUL \<noteq> CHR ''x''" by code_simp
    then show ?thesis using sg z t True unfolding strto0_def ws by (simp add: Let_def)
  next
    case False
    then have "at0 (udec n) \<noteq> CHR ''0''" using udec_hd_0 [of n] c by simp
    then show ?thesis using sg unfolding strto0_def ws by (simp add: Let_def base_val_udec n10)
  qed
qed

text \<open>The number that the saturating conversion gives, as an integer.\<close>

definition saturate :: "bool \<Rightarrow> bool \<Rightarrow> nat \<Rightarrow> int" where
  "saturate sg neg n =
     (if sg then (if neg then - int (min n (2 ^ 63)) else int (min n (2 ^ 63 - 1)))
      else if 2 ^ 64 \<le> n then 2 ^ 64 - 1 else if neg then - int n else int n)"

lemma strto_udec:
  "strtol0 (sign neg @ udec n) = (word_of_int (saturate True neg n), length (sign neg @ udec n))"
  "strtoul0 (sign neg @ udec n) = (word_of_int (saturate False neg n), length (sign neg @ udec n))"
proof -
  obtain g v k where s: "strto0 (sign neg @ udec n) = (g, v, k)" by (cases "strto0 (sign neg @ udec n)") auto
  then have g: "g = neg" "v = n" "k = length (sign neg @ udec n)" using strto0_udec [of neg n] by simp_all
  show "strtol0 (sign neg @ udec n) = (word_of_int (saturate True neg n), length (sign neg @ udec n))"
    unfolding strtol0_def s split g saturate_def by (auto simp: min_def)
  show "strtoul0 (sign neg @ udec n) = (word_of_int (saturate False neg n), length (sign neg @ udec n))"
    unfolding strtoul0_def s split g saturate_def by (auto simp: ULLONG_MAX_def)
qed

end
