(* ===== verification/HX_Units.thy ===== *)
theory HX_Units
  imports HX_Num HX_String
begin

unbundle bit_operations_syntax

text \<open>
  Numbers with units (the last part of \<^verbatim>\<open>src/string.c\<close>): \<open>HX_unit_size\<close>, \<open>HX_unit_size_cu\<close>,
  \<open>HX_strtoull_unit\<close>, the durations read by \<open>HX_strtoull_sec\<close> and \<open>HX_strtoull_nsec\<close> in both syntaxes, and
  \<open>HX_unit_seconds\<close>, which prints them.

  A position in the text that is read is the text from there on. A reader returns the number, what
  it stores through \<^verbatim>\<open>out_end\<close> (\<open>None\<close>: nothing), and \<^verbatim>\<open>errno\<close>.
\<close>

section \<open>Shortened numbers\<close>

definition unit_names :: "char list" where
  "unit_names = NUL # ''kMGTPEZYRQ'' @ [NUL]"

text \<open>\<^verbatim>\<open>%.1s\<close> at \<^verbatim>\<open>&unit_names[unit_idx]\<close>.\<close>

definition unit_text :: "nat \<Rightarrow> char list" where
  "unit_text i = take 1 (cstr (drop i unit_names))"

function usize_loop :: "u32 \<Rightarrow> u32 \<Rightarrow> u64 \<Rightarrow> nat \<Rightarrow> u64 \<times> nat" where
  "usize_loop divisor cutoff sz unit_idx =
     (if unit_idx < length unit_names - 1 \<and> ucast cutoff \<le> sz
      then usize_loop divisor cutoff (sz div ucast divisor) (unit_idx + 1)
      else (sz, unit_idx))"
  by pat_completeness auto
termination by (relation "measure (\<lambda>(_, _, _, i). length unit_names - i)") auto

declare usize_loop.simps [simp del]

definition HX_unit_size :: "char list \<Rightarrow> nat \<Rightarrow> u64 \<Rightarrow> u32 \<Rightarrow> u32 \<Rightarrow> char list option" where
  "HX_unit_size buf bufsize sz divisor cutoff =
     (let divisor = (if divisor = 0 then 1000 else divisor);
          cutoff = (if cutoff = 0 then (if 10000 < divisor then divisor else 10000) else cutoff);
          (sz, unit_idx) = usize_loop divisor cutoff sz 0
      in snprintf buf bufsize (udec (unat sz) @ unit_text unit_idx))"

definition p_90 :: "u64 \<Rightarrow> u64" where
  "p_90 x = x - x div 10 - (if x mod 10 \<noteq> 0 then 1 else 0)"

text \<open>The loop of \<open>HX_unit_size_cu\<close>: the quotient, the last remainder, the power and the unit.\<close>

function cu_loop :: "u32 \<Rightarrow> u64 \<Rightarrow> u32 \<Rightarrow> u64 \<Rightarrow> nat \<Rightarrow> u64 \<times> u32 \<times> u64 \<times> nat" where
  "cu_loop divisor sz last_rem gpow unit_idx =
     (if unit_idx < length unit_names - 1 \<and> ucast divisor \<le> sz
      then cu_loop divisor (sz div ucast divisor) (ucast (sz mod ucast divisor)) (gpow * ucast divisor) (unit_idx + 1)
      else (sz, last_rem, gpow, unit_idx))"
  by pat_completeness auto
termination by (relation "measure (\<lambda>(_, _, _, _, i). length unit_names - i)") auto

declare cu_loop.simps [simp del]

text \<open>The rounding of the quotient, upwards: the new quotient and the tenths.\<close>

definition cu_round :: "u32 \<Rightarrow> u64 \<Rightarrow> u32 \<Rightarrow> u64 \<Rightarrow> u64 \<Rightarrow> u64 \<times> u32" where
  "cu_round divisor sz last_rem gpow grand_rem =
     (if grand_rem > p_90 gpow then (sz + 1, 0)
      else let last_rem = (last_rem * 10) div divisor + 1
        in if last_rem = 10 \<or> (sz \<ge> 10 \<and> last_rem > 0) then (sz + 1, 0) else (sz, last_rem))"

text \<open>The parts that are printed: the quotient, the tenths and the unit.\<close>

definition cu_parts :: "u32 \<Rightarrow> u64 \<Rightarrow> u64 \<times> u32 \<times> nat" where
  "cu_parts divisor orig_size =
     (let (sz, last_rem, gpow, unit_idx) = cu_loop divisor orig_size 0 1 0;
          grand_rem = orig_size - sz * gpow
      in if unit_idx \<noteq> 0 \<and> grand_rem \<noteq> 0
         then (let (sz, last_rem) = cu_round divisor sz last_rem gpow grand_rem in
           if unit_idx < length unit_names - 1 \<and> sz = ucast divisor
           then (sz div ucast divisor, last_rem, unit_idx + 1) else (sz, last_rem, unit_idx))
         else (sz, last_rem, unit_idx))"

definition HX_unit_size_cu :: "char list \<Rightarrow> nat \<Rightarrow> u64 \<Rightarrow> u32 \<Rightarrow> char list option" where
  "HX_unit_size_cu buf bufsize orig_size divisor =
     (let divisor = (if divisor = 0 then 1000 else divisor);
          (sz, last_rem, unit_idx) = cu_parts divisor orig_size
      in if unit_idx = 0 \<or> (sz \<ge> 10 \<and> last_rem = 0)
         then snprintf buf bufsize (udec (unat sz) @ unit_text unit_idx)
         else snprintf buf bufsize (udec (unat sz) @ ''.'' @ udec (unat last_rem) @ unit_text unit_idx))"

section \<open>Numbers with a unit suffix\<close>

definition suffix_power :: "char \<Rightarrow> nat" where
  "suffix_power u =
     (let c = toupper u in
      if c = CHR ''K'' then 1 else if c = CHR ''M'' then 2 else if c = CHR ''G'' then 3
      else if c = CHR ''T'' then 4 else if c = CHR ''P'' then 5 else if c = CHR ''E'' then 6
      else if c = CHR ''Z'' then 7 else if c = CHR ''Y'' then 8 else if c = CHR ''R'' then 9
      else if c = CHR ''Q'' then 10 else 0)"

definition HX_strtod_unit :: "'f fpops \<Rightarrow> char list \<Rightarrow> u32 \<Rightarrow> 'f \<times> char list" where
  "HX_strtod_unit fp s exponent =
     (let s = dropWhile isspace s;
          (q, k, _) = fp_strtod fp s;
          exponent = (if exponent = 0 then 1000 else exponent)
      in if k = 0 then (q, s)
      else let e = dropWhile isspace (drop k s);
               pwr = suffix_power (at0 e)
        in if pwr = 0 then (q, e) else (fp_mulpow fp q exponent pwr, drop 1 e))"

text \<open>The multiplications; \<open>None\<close> is the overflow exit.\<close>

primrec unit_mul :: "nat \<Rightarrow> u64 \<Rightarrow> u32 \<Rightarrow> u64 option" where
  "unit_mul 0 ipart exponent = Some ipart"
| "unit_mul (Suc pwr) ipart exponent =
     (if ipart \<ge> ULLONG_MAX div ucast exponent then None else unit_mul pwr (ipart * ucast exponent) exponent)"

definition HX_strtoull_unit :: "'f fpops \<Rightarrow> char list \<Rightarrow> u32 \<Rightarrow> u64 \<times> char list option \<times> errno option" where
  "HX_strtoull_unit fp s exponent =
     (let s = dropWhile isspace s;
          neg = (at0 s = CHR ''-'');
          s = (if neg then drop 1 s else s);
          (ipart, k, er) = strtoull s;
          e = drop k s
      in if ipart = ULLONG_MAX \<and> er then (ipart, None, Some ERANGE)
      else if at0 e = CHR ''.'' then
        (let (q, e) = HX_strtod_unit fp s exponent in
         if \<not> fp_hi_ok fp q \<or> \<not> fp_lo_ok fp q then (ULLONG_MAX, Some e, Some ERANGE)
         else if fp_ge_max fp q then (ULLONG_MAX, Some e, Some ERANGE)
         else let r = fp_u64 fp q in (if neg then - r else r, Some e, None))
      else
        (let exponent = (if exponent = 0 then 1000 else exponent);
             e = dropWhile isspace e;
             pwr = suffix_power (at0 e)
         in if pwr = 0 then (if neg then - ipart else ipart, Some e, None)
         else (case unit_mul pwr ipart exponent of
             None \<Rightarrow> (ULLONG_MAX, Some (drop 1 e), Some ERANGE)
           | Some v \<Rightarrow> (if neg then - v else v, Some (drop 1 e), None))))"

section \<open>Tables of durations\<close>

datatype period_idx = PERIDX_YEARS | PERIDX_MONTHS | PERIDX_WEEKS | PERIDX_DAYS | PERIDX_HOURS | PERIDX_MIN
  | PERIDX_SEC | PERIDX_MSEC | PERIDX_MUSEC | PERIDX_NSEC

type_synonym HX_unit_desc = "char list \<times> period_idx"

definition mu :: "char list" where "mu = [CHR 0xC2, CHR 0xB5]"

definition txtperiod_utab :: "HX_unit_desc list" where
  "txtperiod_utab = [
     (''seconds'', PERIDX_SEC), (''second'', PERIDX_SEC), (''sec'', PERIDX_SEC), (''s'', PERIDX_SEC),
     (''minutes'', PERIDX_MIN), (''minute'', PERIDX_MIN), (''min'', PERIDX_MIN),
     (''hours'', PERIDX_HOURS), (''hour'', PERIDX_HOURS), (''h'', PERIDX_HOURS),
     (''days'', PERIDX_DAYS), (''day'', PERIDX_DAYS), (''d'', PERIDX_DAYS),
     (''weeks'', PERIDX_WEEKS), (''week'', PERIDX_WEEKS),
     (''months'', PERIDX_MONTHS), (''month'', PERIDX_MONTHS),
     (''years'', PERIDX_YEARS), (''year'', PERIDX_YEARS), (''y'', PERIDX_YEARS),
     (''msec'', PERIDX_MSEC), (''ms'', PERIDX_MSEC),
     (mu @ ''sec'', PERIDX_MUSEC), (mu @ ''s'', PERIDX_MUSEC),
     (''nsec'', PERIDX_NSEC), (''ns'', PERIDX_NSEC)]"

definition iso8601p_dtab :: "HX_unit_desc list" where
  "iso8601p_dtab = [(''D'', PERIDX_DAYS), (''M'', PERIDX_MONTHS), (''Y'', PERIDX_YEARS)]"

definition iso8601p_ttab :: "HX_unit_desc list" where
  "iso8601p_ttab = [(''S'', PERIDX_SEC), (''M'', PERIDX_MIN), (''H'', PERIDX_HOURS)]"

definition SECONDS_PER_YEAR :: u64 where "SECONDS_PER_YEAR = 31557600"
definition SECONDS_PER_MONTH :: u64 where "SECONDS_PER_MONTH = 2629800"
definition NSEC_PER_SECOND :: u64 where "NSEC_PER_SECOND = 1000000000"

fun sec_mult :: "period_idx \<Rightarrow> u64" where
  "sec_mult PERIDX_YEARS = SECONDS_PER_YEAR"
| "sec_mult PERIDX_MONTHS = SECONDS_PER_MONTH"
| "sec_mult PERIDX_WEEKS = 604800"
| "sec_mult PERIDX_DAYS = 86400"
| "sec_mult PERIDX_HOURS = 3600"
| "sec_mult PERIDX_MIN = 60"
| "sec_mult PERIDX_SEC = 1"
| "sec_mult PERIDX_MSEC = 0"
| "sec_mult PERIDX_MUSEC = 0"
| "sec_mult PERIDX_NSEC = 0"

fun nsec_mult :: "period_idx \<Rightarrow> u64" where
  "nsec_mult PERIDX_YEARS = NSEC_PER_SECOND * SECONDS_PER_YEAR"
| "nsec_mult PERIDX_MONTHS = NSEC_PER_SECOND * SECONDS_PER_MONTH"
| "nsec_mult PERIDX_WEEKS = NSEC_PER_SECOND * 604800"
| "nsec_mult PERIDX_DAYS = NSEC_PER_SECOND * 86400"
| "nsec_mult PERIDX_HOURS = NSEC_PER_SECOND * 3600"
| "nsec_mult PERIDX_MIN = NSEC_PER_SECOND * 60"
| "nsec_mult PERIDX_SEC = NSEC_PER_SECOND"
| "nsec_mult PERIDX_MSEC = 1000000"
| "nsec_mult PERIDX_MUSEC = 1000"
| "nsec_mult PERIDX_NSEC = 1"

section \<open>Reading durations\<close>

text \<open>One entry of a table against the text. In the textual syntax case does not matter and a letter must
  not follow.\<close>

definition txt_matches :: "char list \<Rightarrow> HX_unit_desc \<Rightarrow> bool" where
  "txt_matches s u \<longleftrightarrow> map tolower (take (length (fst u)) s) = map tolower (fst u) \<and>
     \<not> isalpha (at0 (drop (length (fst u)) s))"

definition iso_matches :: "char list \<Rightarrow> HX_unit_desc \<Rightarrow> bool" where
  "iso_matches s u \<longleftrightarrow> take (length (fst u)) s = fst u"

text \<open>The number before a unit: \<^verbatim>\<open>num\<close> and whether it was out of range, whether it has a fraction, the
  fraction, its end, and whether reading the fraction set \<open>ERANGE\<close>. The fraction is only looked at when there is
  one.\<close>

definition period_num :: "'f fpops \<Rightarrow> char list \<Rightarrow> u64 \<times> bool \<times> bool \<times> 'f \<times> nat \<times> bool" where
  "period_num fp s =
     (let (num, k, er) = strtoull s;
          have_frac = (at0 (drop k s) = CHR ''.'');
          (frac, j, fer) = fp_strtod fp s
      in (num, er, have_frac, frac, if have_frac then j else k, have_frac \<and> fer))"

text \<open>The multiplication by the unit; \<open>None\<close> is overflow.\<close>

definition period_scale :: "'f fpops \<Rightarrow> bool \<Rightarrow> 'f \<Rightarrow> u64 \<Rightarrow> u64 \<Rightarrow> u64 option" where
  "period_scale fp have_frac frac num mult =
     (if have_frac then
        (let v = fp_mul fp frac mult in if fp_ge_max fp v then None else Some (fp_u64 fp v))
      else if mult > 0 \<and> num > ULLONG_MAX div mult then None else Some (num * mult))"

lemma drop_white_less:
  assumes "dropWhile P s \<noteq> []" "k \<noteq> 0"
  shows "length (dropWhile Q (drop k (dropWhile P s))) < length s"
proof -
  have "length (dropWhile Q (drop k (dropWhile P s))) \<le> length (drop k (dropWhile P s))" by (rule length_dropWhile_le)
  also have "\<dots> < length (dropWhile P s)" using assms by simp
  also have "\<dots> \<le> length s" by (rule length_dropWhile_le)
  finally show ?thesis .
qed

lemma drop_drop_white_less:
  "dropWhile P s \<noteq> [] \<Longrightarrow> k \<noteq> 0 \<Longrightarrow> length (drop m (dropWhile Q (drop k (dropWhile P s)))) < length s"
  using drop_white_less [of P s k Q] by simp

lemma drop1_white_less: "dropWhile P s \<noteq> [] \<Longrightarrow> length (drop 1 (dropWhile P s)) < length s"
  using length_dropWhile_le [of P s] by (cases "dropWhile P s") simp_all

function period_loop ::
  "'f fpops \<Rightarrow> HX_unit_desc list \<Rightarrow> (period_idx \<Rightarrow> u64) \<Rightarrow> char list \<Rightarrow> u64 \<Rightarrow> errno option \<Rightarrow>
     u64 \<times> char list option \<times> errno option" where
  "period_loop fp utab mtab s quant err =
     (if s = [] then (quant, Some s, None)
      else let s = dropWhile isspace s; numbegin = s in
      if at0 s = CHR ''-'' then (quant, Some s, None)
      else let (num, er, have_frac, frac, k, fer) = period_num fp s;
               err = (if er then Some ERANGE else err)
      in if num = ULLONG_MAX \<and> err = Some ERANGE then (num, None, err)
      else if k = 0 \<or> s = [] then (quant, Some s, None)
      else let s = dropWhile isspace (drop k s); err = (if fer then Some ERANGE else err) in
        (case List.find (txt_matches s) utab of
           None \<Rightarrow>
             if (\<not> have_frac \<and> num = 0) \<or> (have_frac \<and> fp_is0 fp frac)
             then period_loop fp utab mtab s quant err
             else (quant, Some numbegin, None)
         | Some u \<Rightarrow>
             (case period_scale fp have_frac frac num (mtab (snd u)) of
                None \<Rightarrow> (ULLONG_MAX, Some numbegin, Some ERANGE)
              | Some num \<Rightarrow>
                  if num > ULLONG_MAX - quant then (ULLONG_MAX, Some numbegin, Some ERANGE)
                  else period_loop fp utab mtab (drop (length (fst u)) s) (quant + num) err)))"
  by pat_completeness auto

termination
proof (relation "measure (\<lambda>(_, _, _, s, _, _). length s)", simp, simp_all only: in_measure split, goal_cases)
  case 1
  show ?case by (rule drop_white_less) (use 1 in \<open>blast | simp\<close>)+
next
  case 2
  show ?case by (rule drop_drop_white_less) (use 2 in \<open>blast | simp\<close>)+
qed

declare period_loop.simps [simp del]

definition HX_strtoull_period ::
  "'f fpops \<Rightarrow> char list \<Rightarrow> HX_unit_desc list \<Rightarrow> (period_idx \<Rightarrow> u64) \<Rightarrow> errno option \<Rightarrow>
     u64 \<times> char list option \<times> errno option" where
  "HX_strtoull_period fp s utab mtab err = period_loop fp utab mtab s 0 err"

text \<open>The ISO 8601 syntax: \<open>date\<close> is \<^verbatim>\<open>utab == iso8601p_dtab\<close>.\<close>

function iso_loop ::
  "'f fpops \<Rightarrow> (period_idx \<Rightarrow> u64) \<Rightarrow> bool \<Rightarrow> char list \<Rightarrow> u64 \<Rightarrow> errno option \<Rightarrow>
     u64 \<times> char list option \<times> errno option" where
  "iso_loop fp mtab date s quant err =
     (if s = [] then (quant, Some s, None)
      else let s = dropWhile isspace s; numbegin = s in
      if at0 s = CHR ''-'' then (quant, Some s, None)
      else if s \<noteq> [] \<and> toupper (at0 s) = CHR ''T'' then
        (if \<not> date then (quant, Some s, None) else iso_loop fp mtab False (drop 1 s) quant err)
      else let (num, er, have_frac, frac, k, fer) = period_num fp s;
               err = (if er then Some ERANGE else err)
      in if num = ULLONG_MAX \<and> err = Some ERANGE then (num, None, err)
      else if k = 0 \<or> s = [] then (quant, Some s, None)
      else let s = dropWhile isspace (drop k s); err = (if fer then Some ERANGE else err) in
        (case List.find (iso_matches s) (if date then iso8601p_dtab else iso8601p_ttab) of
           None \<Rightarrow>
             if (\<not> have_frac \<and> num = 0) \<or> (have_frac \<and> fp_is0 fp frac)
             then iso_loop fp mtab date s quant err
             else (quant, Some numbegin, None)
         | Some u \<Rightarrow>
             (case period_scale fp have_frac frac num (mtab (snd u)) of
                None \<Rightarrow> (ULLONG_MAX, Some numbegin, Some ERANGE)
              | Some num \<Rightarrow>
                  if num > ULLONG_MAX - quant then (ULLONG_MAX, Some numbegin, Some ERANGE)
                  else iso_loop fp mtab date (drop (length (fst u)) s) (quant + num) err)))"
  by pat_completeness auto

termination
proof (relation "measure (\<lambda>(_, _, _, s, _, _). length s)", simp, simp_all only: in_measure split, goal_cases)
  case 1
  show ?case by (rule drop1_white_less) (use 1 in \<open>blast | simp\<close>)+
next
  case 2
  show ?case by (rule drop_white_less) (use 2 in \<open>blast | simp\<close>)+
next
  case 3
  show ?case by (rule drop_drop_white_less) (use 3 in \<open>blast | simp\<close>)+
qed

declare iso_loop.simps [simp del]

definition HX_strtoull_iso8601p_2 ::
  "'f fpops \<Rightarrow> char list \<Rightarrow> (period_idx \<Rightarrow> u64) \<Rightarrow> errno option \<Rightarrow> u64 \<times> char list option \<times> errno option" where
  "HX_strtoull_iso8601p_2 fp s mtab err = iso_loop fp mtab True s 0 err"

definition looks_like_iso8601 :: "char list \<Rightarrow> bool" where
  "looks_like_iso8601 s =
     (if at0 s \<noteq> CHR ''P'' then False
      else if isdigit (at0 (drop 1 s)) then True
      else if at0 (drop 1 s) = CHR ''T'' \<and> isdigit (at0 (drop 2 s)) then True else False)"

definition HX_strtoull_sec :: "'f fpops \<Rightarrow> char list \<Rightarrow> errno option \<Rightarrow> u64 \<times> char list option \<times> errno option" where
  "HX_strtoull_sec fp s err =
     (if looks_like_iso8601 s then HX_strtoull_iso8601p_2 fp (drop 1 s) sec_mult err
      else HX_strtoull_period fp s txtperiod_utab sec_mult err)"

definition HX_strtoull_nsec :: "'f fpops \<Rightarrow> char list \<Rightarrow> errno option \<Rightarrow> u64 \<times> char list option \<times> errno option" where
  "HX_strtoull_nsec fp s err =
     (if looks_like_iso8601 s then HX_strtoull_iso8601p_2 fp (drop 1 s) nsec_mult err
      else HX_strtoull_period fp s txtperiod_utab nsec_mult err)"

definition HX_strtoull8601p_sec :: "'f fpops \<Rightarrow> char list \<Rightarrow> errno option \<Rightarrow> u64 \<times> char list option \<times> errno option" where
  "HX_strtoull8601p_sec fp s err =
     (if at0 s = CHR ''P'' then HX_strtoull_iso8601p_2 fp (drop 1 s) sec_mult err
      else (0, Some s, err))"

section \<open>Printing durations\<close>

definition HXUNIT_YEARS :: u32 where "HXUNIT_YEARS = 1"
definition HXUNIT_MONTHS :: u32 where "HXUNIT_MONTHS = 2"
definition HXUNIT_WEEKS :: u32 where "HXUNIT_WEEKS = 4"

text \<open>One step of the decomposition, the count and the rest; and the whole: years, months, weeks, days, hours,
  minutes and seconds.\<close>

definition take_unit :: "bool \<Rightarrow> u64 \<Rightarrow> u64 \<Rightarrow> u64 \<times> u64" where
  "take_unit wanted secs unit = (if wanted then (secs div unit, secs mod unit) else (0, secs))"

definition split_secs :: "u32 \<Rightarrow> u64 \<Rightarrow> u64 \<times> u64 \<times> u64 \<times> u64 \<times> u64 \<times> u64 \<times> u64" where
  "split_secs flags secs =
     (let (years, secs) = take_unit (flags AND HXUNIT_YEARS \<noteq> 0) secs SECONDS_PER_YEAR;
          (months, secs) = take_unit (flags AND HXUNIT_MONTHS \<noteq> 0) secs SECONDS_PER_MONTH;
          (weeks, secs) = take_unit (flags AND HXUNIT_WEEKS \<noteq> 0) secs 604800;
          (days, secs) = take_unit True secs 86400;
          (hours, secs) = take_unit True secs 3600;
          (mins, secs) = take_unit True secs 60
      in (years, months, weeks, days, hours, mins, secs))"

text \<open>One unit: a text that goes through \<^verbatim>\<open>buf\<close>, which has \<^verbatim>\<open>HXSIZEOF_Z64+4\<close> bytes, and is appended.\<close>

definition cat_unit :: "char list \<Rightarrow> u64 \<Rightarrow> u64 \<Rightarrow> char list \<Rightarrow> char list option" where
  "cat_unit out outsize n unit = do {
     buf \<leftarrow> snprintf (replicate (21 + 4) NUL) (21 + 4) (udec (unat n) @ unit);
     HX_strlcat out (cstr buf) outsize
   }"

definition HX_unit_seconds :: "char list \<Rightarrow> u64 \<Rightarrow> u64 \<Rightarrow> u32 \<Rightarrow> char list option" where
  "HX_unit_seconds out outsize secs flags =
     (let (years, months, weeks, days, hours, mins, secs) = split_secs flags secs in do {
        out \<leftarrow> wr out 0 NUL;
        out \<leftarrow> (if years > 0 then cat_unit out outsize years ''y'' else Some out);
        out \<leftarrow> (if months = 1 then HX_strlcat out ''1month'' outsize
               else if months > 0 then cat_unit out outsize months ''months'' else Some out);
        out \<leftarrow> (if weeks = 1 then HX_strlcat out ''1week'' outsize
               else if weeks > 0 then cat_unit out outsize weeks ''weeks'' else Some out);
        out \<leftarrow> (if days > 0 then cat_unit out outsize days ''d'' else Some out);
        out \<leftarrow> (if hours > 0 then cat_unit out outsize hours ''h'' else Some out);
        out \<leftarrow> (if mins > 0 then cat_unit out outsize mins ''min'' else Some out);
        (if secs > 0 \<or> (years = 0 \<and> months = 0 \<and> weeks = 0 \<and> days = 0 \<and> hours = 0 \<and> mins = 0)
         then cat_unit out outsize secs ''s'' else Some out)
      })"

section \<open>Reading back\<close>

text \<open>A unit name that a digit or the end follows matches exactly the entry with that name.\<close>

lemma tolower_fix: "islower c \<Longrightarrow> tolower c = c" "isdigit c \<Longrightarrow> tolower c = c"
  by (auto simp: tolower_def isupper_def islower_def isdigit_def)

lemma txt_matches_name:
  assumes n: "\<forall>c \<in> set name. islower c" and u: "map tolower (fst u) = fst u" "\<forall>c \<in> set (fst u). \<not> isdigit c"
    and r: "rest = [] \<or> isdigit (at0 rest)"
  shows "txt_matches (name @ rest) u \<longleftrightarrow> fst u = name"
proof -
  let ?k = "length (fst u)"
  have ln: "map tolower name = name" using n tolower_fix(1) by (simp add: map_idI)
  consider "?k < length name" | "?k = length name" | "length name < ?k" by linarith
  then show ?thesis
  proof cases
    case 1
    then have "drop ?k (name @ rest) = name ! ?k # drop (Suc ?k) name @ rest" by (simp add: Cons_nth_drop_Suc)
    moreover have "isalpha (name ! ?k)" using n nth_mem [OF 1] by (simp add: isalpha_def)
    ultimately show ?thesis using 1 by (auto simp: txt_matches_def)
  next
    case 2
    have "\<not> isalpha (at0 rest)" using r by (auto simp: isdigit_def isalpha_def isupper_def islower_def)
    then show ?thesis using 2 ln u(1) by (auto simp: txt_matches_def)
  next
    case 3
    have "map tolower (take ?k (name @ rest)) \<noteq> fst u"
    proof
      assume e: "map tolower (take ?k (name @ rest)) = fst u"
      then have "length (name @ rest) \<ge> ?k" by (metis length_map length_take min.cobounded1)
      then obtain c cs where c: "rest = c # cs" using 3 by (cases rest) auto
      have "fst u ! length name = tolower c"
        using arg_cong [OF e, of "\<lambda>x. x ! length name"] 3 c by (simp add: nth_append)
      then have "isdigit (fst u ! length name)" using r c tolower_fix(2) by simp
      then show False using u(2) nth_mem [OF 3] by blast
    qed
    then show ?thesis using 3 u(1) by (auto simp: txt_matches_def)
  qed
qed

text \<open>The units that are printed, with their place in the table.\<close>

definition out_units :: "HX_unit_desc list" where
  "out_units = [(''y'', PERIDX_YEARS), (''month'', PERIDX_MONTHS), (''months'', PERIDX_MONTHS), (''week'', PERIDX_WEEKS),
     (''weeks'', PERIDX_WEEKS), (''d'', PERIDX_DAYS), (''h'', PERIDX_HOURS), (''min'', PERIDX_MIN), (''s'', PERIDX_SEC)]"

lemma utab_names: "u \<in> set txtperiod_utab \<Longrightarrow> map tolower (fst u) = fst u \<and> (\<forall>c \<in> set (fst u). \<not> isdigit c)"
  by (auto simp: txtperiod_utab_def mu_def tolower_def isupper_def isdigit_def)

lemma find_cong_set: "(\<And>x. x \<in> set xs \<Longrightarrow> P x = Q x) \<Longrightarrow> List.find P xs = List.find Q xs"
  by (induction xs) auto

lemma find_out_names: "\<forall>u \<in> set out_units. List.find (\<lambda>v. fst v = fst u) txtperiod_utab = Some u"
  by code_simp

lemma find_out_unit:
  assumes "u \<in> set out_units" "rest = [] \<or> isdigit (at0 rest)"
  shows "List.find (txt_matches (fst u @ rest)) txtperiod_utab = Some u"
proof -
  have n: "\<forall>c \<in> set (fst u). islower c" using assms(1) by (auto simp: out_units_def islower_def)
  have "List.find (txt_matches (fst u @ rest)) txtperiod_utab = List.find (\<lambda>v. fst v = fst u) txtperiod_utab"
    using txt_matches_name [OF n _ _ assms(2)] utab_names by (intro find_cong_set) blast
  also have "\<dots> = Some u" using find_out_names assms(1) by blast
  finally show ?thesis .
qed

lemma out_unit_hd:
  assumes "u \<in> set out_units"
  shows "fst u \<noteq> []" "\<not> isdigit (at0 (fst u @ rest))" "at0 (fst u @ rest) \<noteq> CHR ''.''" "\<not> isspace (at0 (fst u @ rest))"
    "NUL \<notin> set (fst u)"
  using assms by (auto simp: out_units_def isdigit_def isspace_def)

text \<open>\<open>render\<close> writes a list of numbers with units; \<open>render_val\<close> is its value.\<close>

primrec render :: "(nat \<times> HX_unit_desc) list \<Rightarrow> char list" where
  "render [] = []"
| "render (p # ps) = udec (fst p) @ fst (snd p) @ render ps"

primrec render_val :: "(period_idx \<Rightarrow> u64) \<Rightarrow> (nat \<times> HX_unit_desc) list \<Rightarrow> nat" where
  "render_val mtab [] = 0"
| "render_val mtab (p # ps) = fst p * unat (mtab (snd (snd p))) + render_val mtab ps"

lemma render_hd: "render ps = [] \<or> isdigit (at0 (render ps))"
proof (cases ps)
  case (Cons p qs)
  obtain c cs where c: "udec (fst p) = c # cs" by (cases "udec (fst p)") auto
  then have "isdigit c" using udec_isdigit [of c "fst p"] by simp
  then show ?thesis using Cons c by simp
qed simp

lemma digit_not:
  assumes "isdigit c"
  shows "\<not> isspace c" "c \<noteq> CHR ''-''" "c \<noteq> NUL" "c \<noteq> CHR ''P''"
  using assms by (auto simp: isdigit_def isspace_def)

lemma period_num_udec:
  assumes "n < 2 ^ 64" "t \<noteq> []" "\<not> isdigit (at0 t)" "at0 t \<noteq> CHR ''.''"
  shows "\<exists>frac. period_num fp (udec n @ t) = (of_nat n, False, False, frac, length (udec n), False)"
proof -
  have "strtoull (udec n @ t) = (of_nat n, length (udec n), False)"
    using assms by (intro strtoull_udec) (auto split: list.splits)
  then show ?thesis using assms(4) by (auto simp: period_num_def Let_def split: prod.splits)
qed

lemma period_loop_render:
  "\<forall>p \<in> set ps. snd p \<in> set out_units \<and> fst p < 2 ^ 64 - 1 \<Longrightarrow> unat quant + render_val mtab ps < 2 ^ 64 \<Longrightarrow>
    period_loop fp txtperiod_utab mtab (render ps) quant err = (quant + of_nat (render_val mtab ps), Some [], None)"
proof (induction ps arbitrary: quant)
  case Nil
  then show ?case by (simp add: period_loop.simps)
next
  case (Cons p ps)
  obtain n u where p: "p = (n, u)" by (cases p)
  let ?t = "fst u @ render ps" and ?m = "mtab (snd u)"
  have u: "u \<in> set out_units" "n < 2 ^ 64 - 1" using Cons.prems(1) p by simp_all
  have hd: "\<not> isspace (at0 (udec n @ ?t))" "at0 (udec n @ ?t) \<noteq> CHR ''-''"
    using digit_not render_hd [of "(n, u) # ps"] by auto
  have ws: "dropWhile isspace (udec n @ ?t) = udec n @ ?t" "dropWhile isspace ?t = ?t"
    using hd(1) out_unit_hd(1) [OF u(1)] out_unit_hd(4) [OF u(1), of "render ps"] by (auto split: list.splits)
  obtain frac where num: "period_num fp (udec n @ ?t) = (of_nat n, False, False, frac, length (udec n), False)"
    using period_num_udec [of n ?t fp] u(2) out_unit_hd [OF u(1)] by auto
  have nm: "(of_nat n :: u64) \<noteq> ULLONG_MAX"
  proof
    assume "(of_nat n :: u64) = ULLONG_MAX"
    then have "unat (of_nat n :: u64) = 2 ^ 64 - 1"
      by (simp add: ULLONG_MAX_def unsigned_minus_1_eq_mask mask_eq_exp_minus_1)
    then show False using u(2) by (simp add: unat_of_nat take_bit_nat_eq_self)
  qed
  have un: "unat (of_nat n :: u64) = n" using u(2) by (simp add: unat_of_nat take_bit_nat_eq_self)
  have f: "List.find (txt_matches ?t) txtperiod_utab = Some u" by (rule find_out_unit [OF u(1) render_hd])
  have sum: "unat quant + (n * unat ?m + render_val mtab ps) < 2 ^ 64" using Cons.prems(2) p by simp
  have pr: "unat (of_nat n * ?m) = n * unat ?m"
  proof -
    have "n * unat ?m < 2 ^ 64" using sum by linarith
    then show ?thesis using un by (simp add: unat_word_ariths)
  qed
  have big: "unat ULLONG_MAX = 2 ^ 64 - 1"
    by (simp add: ULLONG_MAX_def unsigned_minus_1_eq_mask mask_eq_exp_minus_1)
  have sc: "period_scale fp False frac (of_nat n) ?m = Some (of_nat n * ?m)"
  proof -
    have "n \<le> (2 ^ 64 - 1) div unat ?m" if "0 < ?m"
    proof -
      have "0 < unat ?m" using that by (simp add: unat_gt_0 word_gt_0)
      moreover have "n * unat ?m \<le> 2 ^ 64 - 1" using sum by linarith
      ultimately show ?thesis by (simp add: less_eq_div_iff_mult_less_eq)
    qed
    then have "\<not> (0 < ?m \<and> ULLONG_MAX div ?m < of_nat n)"
      using un big by (auto simp: word_less_nat_alt unat_div)
    then show ?thesis by (simp add: period_scale_def)
  qed
  have le: "\<not> ULLONG_MAX - quant < of_nat n * ?m"
  proof -
    have "quant \<le> ULLONG_MAX" using big unat_bound [of quant] by (simp add: word_le_nat_alt)
    then have "unat (ULLONG_MAX - quant) = 2 ^ 64 - 1 - unat quant" using big by (simp add: unat_sub word_le_nat_alt)
    then show ?thesis using pr sum by (simp add: word_less_nat_alt)
  qed
  have uq: "unat (quant + of_nat n * ?m) = unat quant + n * unat ?m"
  proof -
    have "unat quant + unat (of_nat n * ?m) < 2 ^ 64" using pr sum by linarith
    then show ?thesis using pr by (simp add: unat_word_ariths)
  qed
  have "period_loop fp txtperiod_utab mtab (udec n @ ?t) quant err =
      period_loop fp txtperiod_utab mtab (drop (length (fst u)) ?t) (quant + of_nat n * ?m) err"
    by (subst period_loop.simps) (simp only: Let_def ws num split_conv if_False append_is_Nil_conv udec_nonempty
        simp_thms hd(2) nm append_eq_conv_conj drop_append diff_self_eq_0 drop_0 drop_all order_refl append_Nil f sc le
        option.case prod.case length_0_conv; simp add: hd(2) nm f sc le ws(2))
  also have "\<dots> = (quant + of_nat n * ?m + of_nat (render_val mtab ps), Some [], None)"
    using Cons.IH [of "quant + of_nat n * ?m"] Cons.prems(1) uq sum by simp
  also have "quant + of_nat n * ?m + of_nat (render_val mtab ps) = quant + of_nat (render_val mtab (p # ps))"
    using p by simp
  finally show ?case using p by simp
qed

section \<open>What is printed\<close>

lemma strlcat_fits:
  assumes c: "length (cstr out) + length txt < unat outsize" and l: "unat outsize \<le> length out" "length out < 2 ^ 63"
    and t: "NUL \<notin> set txt"
  shows "\<exists>o'. HX_strlcat out txt outsize = Some o' \<and> cstr o' = cstr out @ txt \<and> length o' = length out"
proof -
  let ?k = "length (cstr out)"
  have d: "strlen_block out = Some ?k" using c l(1) by (simp add: strlen_block_def cstr_def Let_def)
  let ?x = "outsize - of_nat ?k - 1"
  have uk: "unat (of_nat ?k :: u64) = ?k" using c l by (simp add: unat_of_nat take_bit_nat_eq_self)
  have le: "(of_nat ?k :: u64) \<le> outsize" using c uk by (simp add: word_le_nat_alt)
  have "unat (outsize - of_nat ?k) = unat outsize - ?k" using le uk by (simp add: unat_sub)
  then have ux: "unat ?x = unat outsize - ?k - 1" using c by (subst unat_sub) (simp_all add: word_le_nat_alt)
  have sx: "sint ?x = int (unat outsize - ?k - 1)" using ux l by (simp add: sint_u64)
  show ?thesis
  proof (cases "sint ?x \<le> 0")
    case True
    then have "unat outsize - ?k - 1 = 0" using sx by linarith
    then have "txt = []" using c by (cases "txt") simp_all
    then show ?thesis using True d by (auto simp: HX_strlcat_def Let_def)
  next
    case False
    have m: "?k + min (unat ?x) (length txt) < length out" using c l by linarith
    have "HX_strlcat out txt outsize = strncat out txt (unat ?x)" using False d by (simp add: HX_strlcat_def Let_def)
    moreover have "take (unat ?x) txt = txt" using ux c by simp
    ultimately show ?thesis using strncat_effect [OF d m t] by auto
  qed
qed

text \<open>A sequence of appended texts, the empty ones being left out.\<close>

primrec cat_all :: "char list \<Rightarrow> u64 \<Rightarrow> char list list \<Rightarrow> char list option" where
  "cat_all out outsize [] = Some out"
| "cat_all out outsize (t # ts) = do {
     out \<leftarrow> (if t = [] then Some out else HX_strlcat out t outsize);
     cat_all out outsize ts
   }"

lemma cat_all_fits:
  "length (cstr out) + length (concat ts) < unat outsize \<Longrightarrow> unat outsize \<le> length out \<Longrightarrow> length out < 2 ^ 63 \<Longrightarrow>
    NUL \<notin> set (concat ts) \<Longrightarrow>
    \<exists>o'. cat_all out outsize ts = Some o' \<and> cstr o' = cstr out @ concat ts \<and> length o' = length out"
proof (induction ts arbitrary: out)
  case (Cons t ts)
  obtain o1 where o1: "(if t = [] then Some out else HX_strlcat out t outsize) = Some o1" "cstr o1 = cstr out @ t"
    "length o1 = length out"
    using strlcat_fits [of out t outsize] Cons.prems by (cases "t = []") auto
  obtain o2 where "cat_all o1 outsize ts = Some o2" "cstr o2 = cstr o1 @ concat ts" "length o2 = length o1"
    using Cons.IH [of o1] Cons.prems o1(2,3) by auto
  then show ?case using o1 by auto
qed simp

lemma cat_unit_fits:
  assumes "length (udec (unat n) @ unit) < 25" "NUL \<notin> set unit"
  shows "cat_unit out outsize n unit = HX_strlcat out (udec (unat n) @ unit) outsize"
proof -
  have nn: "NUL \<notin> set (udec (unat n) @ unit)" using assms(2) udec_no_NUL [of "unat n"] by simp
  have l: "25 \<le> length (replicate (21 + 4) NUL)" by simp
  from snprintf_fits [OF assms(1) l nn] show ?thesis by (auto simp: cat_unit_def)
qed

text \<open>The parts of a duration.\<close>

definition part :: "nat \<Rightarrow> char list \<Rightarrow> char list \<Rightarrow> period_idx \<Rightarrow> (nat \<times> HX_unit_desc) list" where
  "part n one many i = (if n = 0 then [] else [(n, (if n = 1 then one else many, i))])"

definition parts :: "u32 \<Rightarrow> u64 \<Rightarrow> (nat \<times> HX_unit_desc) list" where
  "parts flags secs =
     (let (y, mo, w, d, h, mi, s) = split_secs flags secs;
          ps = part (unat y) ''y'' ''y'' PERIDX_YEARS @ part (unat mo) ''month'' ''months'' PERIDX_MONTHS @
            part (unat w) ''week'' ''weeks'' PERIDX_WEEKS @ part (unat d) ''d'' ''d'' PERIDX_DAYS @
            part (unat h) ''h'' ''h'' PERIDX_HOURS @ part (unat mi) ''min'' ''min'' PERIDX_MIN @
            part (unat s) ''s'' ''s'' PERIDX_SEC
      in if ps = [] then [(0, (''s'', PERIDX_SEC))] else ps)"

lemma render_append [simp]: "render (xs @ ys) = render xs @ render ys"
  by (induction xs) simp_all

lemma render_val_append [simp]: "render_val m (xs @ ys) = render_val m xs + render_val m ys"
  by (induction xs) simp_all

lemma render_part: "render (part n one many i) = (if n = 0 then [] else udec n @ (if n = 1 then one else many))"
  by (simp add: part_def)

lemma render_val_part: "render_val m (part n one many i) = n * unat (m i)"
  by (simp add: part_def)

lemma udec_1: "udec 1 = ''1''"
  by code_simp

text \<open>The bounds of the parts. The first unit that is not split further takes most of the digits.\<close>

lemma split_bounds:
  assumes "split_secs flags secs = (y, mo, w, d, h, mi, s)"
  shows "unat y * 31557600 + unat mo * 2629800 + unat w * 604800 + unat d * 86400 + unat h * 3600 + unat mi * 60 + unat s =
      unat secs"
    and "unat h < 100" "unat mi < 100" "unat s < 100"
    and "unat y < 10 ^ 12 \<and> unat mo < 100 \<and> unat w < 10 \<and> unat d < 10 \<or>
      unat y < 10 ^ 12 \<and> unat mo < 100 \<and> w = 0 \<and> unat d < 100 \<or>
      unat y < 10 ^ 12 \<and> mo = 0 \<and> unat w < 100 \<and> unat d < 10 \<or>
      unat y < 10 ^ 12 \<and> mo = 0 \<and> w = 0 \<and> unat d < 1000 \<or>
      y = 0 \<and> unat mo < 10 ^ 13 \<and> unat w < 10 \<and> unat d < 10 \<or>
      y = 0 \<and> unat mo < 10 ^ 13 \<and> w = 0 \<and> unat d < 100 \<or>
      y = 0 \<and> mo = 0 \<and> unat w < 10 ^ 14 \<and> unat d < 10 \<or>
      y = 0 \<and> mo = 0 \<and> w = 0 \<and> unat d < 10 ^ 15"
proof -
  obtain r1 where a1: "take_unit (flags AND HXUNIT_YEARS \<noteq> 0) secs SECONDS_PER_YEAR = (y, r1)"
    and b1: "split_secs flags secs = (let (months, secs) = take_unit (flags AND HXUNIT_MONTHS \<noteq> 0) r1 SECONDS_PER_MONTH;
          (weeks, secs) = take_unit (flags AND HXUNIT_WEEKS \<noteq> 0) secs 604800;
          (days, secs) = take_unit True secs 86400;
          (hours, secs) = take_unit True secs 3600;
          (mins, secs) = take_unit True secs 60
      in (y, months, weeks, days, hours, mins, secs))"
    using assms unfolding split_secs_def Let_def by (auto split: prod.splits)
  obtain r2 where a2: "take_unit (flags AND HXUNIT_MONTHS \<noteq> 0) r1 SECONDS_PER_MONTH = (mo, r2)"
    and b2: "split_secs flags secs = (let (weeks, secs) = take_unit (flags AND HXUNIT_WEEKS \<noteq> 0) r2 604800;
          (days, secs) = take_unit True secs 86400;
          (hours, secs) = take_unit True secs 3600;
          (mins, secs) = take_unit True secs 60
      in (y, mo, weeks, days, hours, mins, secs))"
    using assms unfolding b1 Let_def by (auto split: prod.splits)
  obtain r3 where a3: "take_unit (flags AND HXUNIT_WEEKS \<noteq> 0) r2 604800 = (w, r3)"
    and b3: "d = r3 div 86400" "h = r3 mod 86400 div 3600" "mi = r3 mod 86400 mod 3600 div 60" "s = r3 mod 86400 mod 3600 mod 60"
    using assms unfolding b2 Let_def by (auto simp: take_unit_def split: prod.splits)
  have st: "unat q * unat c + unat r = unat x" "wanted \<Longrightarrow> unat q < k \<longleftrightarrow> unat x div unat c < k"
    "wanted \<Longrightarrow> c \<noteq> 0 \<Longrightarrow> unat r < unat c" "\<not> wanted \<Longrightarrow> q = 0 \<and> r = x"
    if "take_unit wanted x c = (q, r)" for wanted x c q r k
    using that by (auto simp: take_unit_def unat_div unat_mod unat_gt_0 split: if_splits)
  have S: "unat secs < 18446744073709551616" using unat_bound [of secs] by simp
  have c: "unat SECONDS_PER_YEAR = 31557600" "unat SECONDS_PER_MONTH = 2629800" "SECONDS_PER_YEAR \<noteq> 0" "SECONDS_PER_MONTH \<noteq> 0"
    by (simp_all add: SECONDS_PER_YEAR_def SECONDS_PER_MONTH_def)
  have u: "unat d = unat r3 div 86400" "unat h = unat r3 mod 86400 div 3600" "unat mi = unat r3 mod 86400 mod 3600 div 60"
    "unat s = unat r3 mod 86400 mod 3600 mod 60"
    by (simp_all add: b3 unat_div unat_mod)
  have b: "a mod 3600 div 60 < 100" "a mod 86400 div 3600 < 100" "a mod 60 < 100" for a :: nat
  proof -
    have "a mod 3600 < 3600" "a mod 86400 < 86400" "a mod 60 < 60" by simp_all
    then show "a mod 3600 div 60 < 100" "a mod 86400 div 3600 < 100" "a mod 60 < 100"
      by (auto intro: less_mult_imp_div_less)
  qed
  show "unat h < 100" "unat mi < 100" "unat s < 100" unfolding u by (rule b)+
  have r3: "unat d * 86400 + unat h * 3600 + unat mi * 60 + unat s = unat r3" unfolding u by presburger
  show "unat y * 31557600 + unat mo * 2629800 + unat w * 604800 + unat d * 86400 + unat h * 3600 + unat mi * 60 + unat s =
      unat secs"
    using st(1) [OF a1] st(1) [OF a2] st(1) [OF a3] r3 unfolding c by simp
  have dd: "unat d < k \<longleftrightarrow> unat r3 < k * 86400" for k unfolding u(1) by (rule div_less_iff_less_mult) simp
  have ww: "unat w < k" if "flags AND HXUNIT_WEEKS \<noteq> 0" "unat r2 < k * 604800" for k
    using st(2) [OF a3 that(1), of k] that(2) by (simp add: div_less_iff_less_mult)
  have mm: "unat mo < k" if "flags AND HXUNIT_MONTHS \<noteq> 0" "unat r1 < k * 2629800" for k
    using st(2) [OF a2 that(1), of k] that(2) c by (simp add: div_less_iff_less_mult)
  have yy: "unat y < 10 ^ 12" using S st(1) [OF a1] unfolding c by simp
  have rr: "flags AND HXUNIT_YEARS \<noteq> 0 \<Longrightarrow> unat r1 < 31557600" "flags AND HXUNIT_MONTHS \<noteq> 0 \<Longrightarrow> unat r2 < 2629800"
    "flags AND HXUNIT_WEEKS \<noteq> 0 \<Longrightarrow> unat r3 < 604800"
    using st(3) [OF a1] st(3) [OF a2] st(3) [OF a3] c by simp_all
  note nn = st(4) [OF a1] st(4) [OF a2] st(4) [OF a3]
  show "unat y < 10 ^ 12 \<and> unat mo < 100 \<and> unat w < 10 \<and> unat d < 10 \<or>
      unat y < 10 ^ 12 \<and> unat mo < 100 \<and> w = 0 \<and> unat d < 100 \<or>
      unat y < 10 ^ 12 \<and> mo = 0 \<and> unat w < 100 \<and> unat d < 10 \<or>
      unat y < 10 ^ 12 \<and> mo = 0 \<and> w = 0 \<and> unat d < 1000 \<or>
      y = 0 \<and> unat mo < 10 ^ 13 \<and> unat w < 10 \<and> unat d < 10 \<or>
      y = 0 \<and> unat mo < 10 ^ 13 \<and> w = 0 \<and> unat d < 100 \<or>
      y = 0 \<and> mo = 0 \<and> unat w < 10 ^ 14 \<and> unat d < 10 \<or>
      y = 0 \<and> mo = 0 \<and> w = 0 \<and> unat d < 10 ^ 15"
  proof (cases "flags AND HXUNIT_YEARS \<noteq> 0")
    case Y: True
    show ?thesis
    proof (cases "flags AND HXUNIT_MONTHS \<noteq> 0")
      case M: True
      have m: "unat mo < 100" by (rule mm [OF M]) (use rr(1) [OF Y] in simp)
      show ?thesis
      proof (cases "flags AND HXUNIT_WEEKS \<noteq> 0")
        case W: True
        have "unat w < 10" by (rule ww [OF W]) (use rr(2) [OF M] in simp)
        then show ?thesis using yy m dd [of 10] rr(3) [OF W] by simp
      next
        case W: False
        then show ?thesis using yy m dd [of 100] nn(3) rr(2) [OF M] by simp
      qed
    next
      case M: False
      then have m: "mo = 0" "r2 = r1" using nn(2) by simp_all
      show ?thesis
      proof (cases "flags AND HXUNIT_WEEKS \<noteq> 0")
        case W: True
        have "unat w < 100" by (rule ww [OF W]) (use rr(1) [OF Y] m in simp)
        then show ?thesis using yy m(1) dd [of 10] rr(3) [OF W] by simp
      next
        case W: False
        then show ?thesis using yy m dd [of 1000] nn(3) rr(1) [OF Y] by simp
      qed
    qed
  next
    case Y: False
    then have y: "y = 0" "r1 = secs" using nn(1) by simp_all
    show ?thesis
    proof (cases "flags AND HXUNIT_MONTHS \<noteq> 0")
      case M: True
      have m: "unat mo < 10 ^ 13" by (rule mm [OF M]) (use S y in simp)
      show ?thesis
      proof (cases "flags AND HXUNIT_WEEKS \<noteq> 0")
        case W: True
        have "unat w < 10" by (rule ww [OF W]) (use rr(2) [OF M] in simp)
        then show ?thesis using y(1) m dd [of 10] rr(3) [OF W] by simp
      next
        case W: False
        then show ?thesis using y(1) m dd [of 100] nn(3) rr(2) [OF M] by simp
      qed
    next
      case M: False
      then have m: "mo = 0" "r2 = secs" using nn(2) y by simp_all
      show ?thesis
      proof (cases "flags AND HXUNIT_WEEKS \<noteq> 0")
        case W: True
        have "unat w < 10 ^ 14" by (rule ww [OF W]) (use S m in simp)
        then show ?thesis using y(1) m(1) dd [of 10] rr(3) [OF W] by simp
      next
        case W: False
        then show ?thesis using y(1) m dd [of "10 ^ 15"] nn(3) S by simp
      qed
    qed
  qed
qed

lemma udec_le: "n < 10 ^ k \<Longrightarrow> 0 < k \<Longrightarrow> length (udec n) \<le> k"
  by (rule udec_length)

text \<open>Each printing step appends the text of its part.\<close>

lemma step_unit:
  assumes "length (udec (unat n)) \<le> 20" "length unit \<le> 4" "NUL \<notin> set unit"
  shows "(if n > 0 then cat_unit out outsize n unit else Some out) =
    (if render (part (unat n) unit unit i) = [] then Some out else HX_strlcat out (render (part (unat n) unit unit i)) outsize)"
  using assms cat_unit_fits [of n unit out outsize] by (simp add: render_part word_gt_0 unat_eq_0)

lemma step_units:
  assumes "length (udec (unat n)) \<le> 18" "length one \<le> 6" "length many \<le> 6" "NUL \<notin> set many"
  shows "(if n = 1 then HX_strlcat out (CHR ''1'' # one) outsize
      else if n > 0 then cat_unit out outsize n many else Some out) =
    (if render (part (unat n) one many i) = [] then Some out else HX_strlcat out (render (part (unat n) one many i)) outsize)"
proof -
  have "unat n = 1 \<longleftrightarrow> n = 1" by (metis unat_1 unsigned_word_eqI)
  then show ?thesis
    using assms cat_unit_fits [of n many out outsize] udec_1 by (simp add: render_part word_gt_0 unat_eq_0)
qed

text \<open>The number of characters of a part.\<close>

lemma part_length:
  assumes "n < 10 ^ k" "length one \<le> j" "length many \<le> j"
  shows "length (render (part n one many i)) \<le> k + j"
proof (cases "n = 0")
  case False
  then have "0 < k" using assms(1) by (cases k) auto
  then have "length (udec n) \<le> k" using udec_length [OF assms(1)] by simp
  then show ?thesis using assms(2,3) by (auto simp: render_part)
qed (simp add: render_part)

lemma month_length: "n < 100 \<Longrightarrow> length (render (part n ''month'' ''months'' i)) \<le> 8"
proof (cases "n < 10")
  case False
  moreover assume "n < 100"
  ultimately show ?thesis using udec_length [of n 2] by (simp add: render_part)
qed (use part_length [of n 1 "''month''" 6 "''months''" i] in simp)

text \<open>The texts of the parts, the seconds being printed also when there is nothing else.\<close>

definition sec_texts :: "u32 \<Rightarrow> u64 \<Rightarrow> char list list" where
  "sec_texts flags secs =
     (let (y, mo, w, d, h, mi, s) = split_secs flags secs in
      [render (part (unat y) ''y'' ''y'' PERIDX_YEARS), render (part (unat mo) ''month'' ''months'' PERIDX_MONTHS),
       render (part (unat w) ''week'' ''weeks'' PERIDX_WEEKS), render (part (unat d) ''d'' ''d'' PERIDX_DAYS),
       render (part (unat h) ''h'' ''h'' PERIDX_HOURS), render (part (unat mi) ''min'' ''min'' PERIDX_MIN),
       if s > 0 \<or> (y = 0 \<and> mo = 0 \<and> w = 0 \<and> d = 0 \<and> h = 0 \<and> mi = 0) then udec (unat s) @ ''s'' else []])"

lemma texts_parts: "concat (sec_texts flags secs) = render (parts flags secs)"
proof -
  obtain y mo w d h mi s where sp: "split_secs flags secs = (y, mo, w, d, h, mi, s)" by (metis prod_cases7)
  have e: "part n x z i = [] \<longleftrightarrow> n = 0" for n x z i by (simp add: part_def)
  show ?thesis
  proof (cases "y = 0 \<and> mo = 0 \<and> w = 0 \<and> d = 0 \<and> h = 0 \<and> mi = 0 \<and> s = 0")
    case False
    then have ps: "parts flags secs = part (unat y) ''y'' ''y'' PERIDX_YEARS @ part (unat mo) ''month'' ''months'' PERIDX_MONTHS @
        part (unat w) ''week'' ''weeks'' PERIDX_WEEKS @ part (unat d) ''d'' ''d'' PERIDX_DAYS @
        part (unat h) ''h'' ''h'' PERIDX_HOURS @ part (unat mi) ''min'' ''min'' PERIDX_MIN @
        part (unat s) ''s'' ''s'' PERIDX_SEC"
      by (auto simp: parts_def sp e unat_eq_0)
    have l: "(if s > 0 \<or> (y = 0 \<and> mo = 0 \<and> w = 0 \<and> d = 0 \<and> h = 0 \<and> mi = 0) then udec (unat s) @ ''s'' else []) =
        render (part (unat s) ''s'' ''s'' PERIDX_SEC)"
      using False by (auto simp: render_part unat_eq_0 word_gt_0)
    show ?thesis unfolding ps sec_texts_def sp by (simp add: l)
  qed (simp add: sec_texts_def parts_def sp part_def)
qed

lemma part_units:
  "n < 2 ^ 64 - 1 \<Longrightarrow> (one, i) \<in> set out_units \<Longrightarrow> (many, i) \<in> set out_units \<Longrightarrow>
    \<forall>p \<in> set (part n one many i). snd p \<in> set out_units \<and> fst p < 2 ^ 64 - 1"
  by (simp add: part_def)

lemma texts_length: "length (concat (sec_texts flags secs)) \<le> 40"
proof -
  obtain y mo w d h mi s where sp: "split_secs flags secs = (y, mo, w, d, h, mi, s)" by (metis prod_cases7)
  note b = split_bounds [OF sp]
  let ?y = "length (render (part (unat y) ''y'' ''y'' PERIDX_YEARS))"
    and ?mo = "length (render (part (unat mo) ''month'' ''months'' PERIDX_MONTHS))"
    and ?w = "length (render (part (unat w) ''week'' ''weeks'' PERIDX_WEEKS))"
    and ?d = "length (render (part (unat d) ''d'' ''d'' PERIDX_DAYS))"
    and ?h = "length (render (part (unat h) ''h'' ''h'' PERIDX_HOURS))"
    and ?mi = "length (render (part (unat mi) ''min'' ''min'' PERIDX_MIN))"
    and ?s = "length (if s > 0 \<or> (y = 0 \<and> mo = 0 \<and> w = 0 \<and> d = 0 \<and> h = 0 \<and> mi = 0) then udec (unat s) @ ''s'' else [])"
  have z: "length (render (part 0 x z i)) = 0" for x z i by (simp add: render_part)
  have h: "?h \<le> 3" "?mi \<le> 5" "?s \<le> 3"
    using part_length [of "unat h" 2 "''h''" 1 "''h''" PERIDX_HOURS] part_length [of "unat mi" 2 "''min''" 3 "''min''" PERIDX_MIN]
      udec_length [of "unat s" 2] b(2-4) by simp_all
  have py: "unat y < 10 ^ 12 \<Longrightarrow> ?y \<le> 13" using part_length [of "unat y" 12 "''y''" 1 "''y''" PERIDX_YEARS] by simp
  have pm: "unat mo < 100 \<Longrightarrow> ?mo \<le> 8" "unat mo < 10 ^ 13 \<Longrightarrow> ?mo \<le> 19"
    using month_length part_length [of "unat mo" 13 "''month''" 6 "''months''" PERIDX_MONTHS] by simp_all
  have pw: "unat w < 10 \<Longrightarrow> ?w \<le> 6" "unat w < 100 \<Longrightarrow> ?w \<le> 7" "unat w < 10 ^ 14 \<Longrightarrow> ?w \<le> 19"
    using part_length [of "unat w" 1 "''week''" 5 "''weeks''" PERIDX_WEEKS] part_length [of "unat w" 2 "''week''" 5 "''weeks''" PERIDX_WEEKS]
      part_length [of "unat w" 14 "''week''" 5 "''weeks''" PERIDX_WEEKS] by simp_all
  have pd: "unat d < 10 \<Longrightarrow> ?d \<le> 2" "unat d < 100 \<Longrightarrow> ?d \<le> 3" "unat d < 1000 \<Longrightarrow> ?d \<le> 4" "unat d < 10 ^ 15 \<Longrightarrow> ?d \<le> 16"
    using part_length [of "unat d" 1 "''d''" 1 "''d''" PERIDX_DAYS] part_length [of "unat d" 2 "''d''" 1 "''d''" PERIDX_DAYS]
      part_length [of "unat d" 3 "''d''" 1 "''d''" PERIDX_DAYS] part_length [of "unat d" 15 "''d''" 1 "''d''" PERIDX_DAYS] by simp_all

  have "?y \<le> 13 \<and> ?mo \<le> 8 \<and> ?w \<le> 6 \<and> ?d \<le> 2 \<or> ?y \<le> 13 \<and> ?mo \<le> 8 \<and> ?w = 0 \<and> ?d \<le> 3 \<or>
      ?y \<le> 13 \<and> ?mo = 0 \<and> ?w \<le> 7 \<and> ?d \<le> 2 \<or> ?y \<le> 13 \<and> ?mo = 0 \<and> ?w = 0 \<and> ?d \<le> 4 \<or>
      ?y = 0 \<and> ?mo \<le> 19 \<and> ?w \<le> 6 \<and> ?d \<le> 2 \<or> ?y = 0 \<and> ?mo \<le> 19 \<and> ?w = 0 \<and> ?d \<le> 3 \<or>
      ?y = 0 \<and> ?mo = 0 \<and> ?w \<le> 19 \<and> ?d \<le> 2 \<or> ?y = 0 \<and> ?mo = 0 \<and> ?w = 0 \<and> ?d \<le> 16"
    using b(5) by (elim disjE conjE; simp only: py pm pw pd z unat_0 le0 simp_thms)
  then have "?y + ?mo + ?w + ?d \<le> 29" by linarith
  then show ?thesis using h unfolding sec_texts_def sp by simp
qed

lemma parts_units: "\<forall>p \<in> set (parts flags secs). snd p \<in> set out_units \<and> fst p < 2 ^ 64 - 1"
proof -
  obtain y mo w d h mi s where sp: "split_secs flags secs = (y, mo, w, d, h, mi, s)" by (metis prod_cases7)
  note b = split_bounds [OF sp]
  have "unat y < 2 ^ 64 - 1" "unat mo < 2 ^ 64 - 1" "unat w < 2 ^ 64 - 1" "unat d < 2 ^ 64 - 1" "unat h < 2 ^ 64 - 1"
    "unat mi < 2 ^ 64 - 1" "unat s < 2 ^ 64 - 1"
    using b(2-5) by (elim disjE conjE; simp)+
  note part_units [OF this(1), of "''y''" PERIDX_YEARS "''y''"] part_units [OF this(2), of "''month''" PERIDX_MONTHS "''months''"]
    part_units [OF this(3), of "''week''" PERIDX_WEEKS "''weeks''"] part_units [OF this(4), of "''d''" PERIDX_DAYS "''d''"]
    part_units [OF this(5), of "''h''" PERIDX_HOURS "''h''"] part_units [OF this(6), of "''min''" PERIDX_MIN "''min''"]
    part_units [OF this(7), of "''s''" PERIDX_SEC "''s''"]
  then show ?thesis unfolding parts_def sp Let_def prod.case
    by (simp add: out_units_def ball_Un del: split_paired_All)
qed

lemma parts_val: "render_val sec_mult (parts flags secs) = unat secs"
proof -
  obtain y mo w d h mi s where sp: "split_secs flags secs = (y, mo, w, d, h, mi, s)" by (metis prod_cases7)
  let ?ps = "part (unat y) ''y'' ''y'' PERIDX_YEARS @ part (unat mo) ''month'' ''months'' PERIDX_MONTHS @
    part (unat w) ''week'' ''weeks'' PERIDX_WEEKS @ part (unat d) ''d'' ''d'' PERIDX_DAYS @
    part (unat h) ''h'' ''h'' PERIDX_HOURS @ part (unat mi) ''min'' ''min'' PERIDX_MIN @ part (unat s) ''s'' ''s'' PERIDX_SEC"
  have v: "render_val sec_mult ?ps = unat secs"
    using split_bounds(1) [OF sp] by (simp add: render_val_part SECONDS_PER_YEAR_def SECONDS_PER_MONTH_def)
  show ?thesis
  proof (cases "?ps = []")
    case True
    then have "unat secs = 0" using v by (metis render_val.simps(1))
    then show ?thesis using True by (simp add: parts_def sp)
  next
    case False
    then have "parts flags secs = ?ps" unfolding parts_def sp Let_def prod.case by (simp only: if_False)
    then show ?thesis using v by simp
  qed
qed

lemma render_no_NUL: "\<forall>p \<in> set ps. snd p \<in> set out_units \<Longrightarrow> NUL \<notin> set (render ps)"
  using out_unit_hd(5) udec_no_NUL by (induction ps) auto

lemma seconds_run: "HX_unit_seconds out outsize secs flags = (do { out \<leftarrow> wr out 0 NUL; cat_all out outsize (sec_texts flags secs) })"
proof -
  obtain y mo w d h mi s where sp: "split_secs flags secs = (y, mo, w, d, h, mi, s)" by (metis prod_cases7)
  note b = split_bounds [OF sp]
  have dig: "length (udec n) \<le> 18" if "n < 10 ^ 15" for n using udec_length [OF that] by simp
  have "unat y < 10 ^ 15" "unat mo < 10 ^ 15" "unat w < 10 ^ 15" "unat d < 10 ^ 15" "unat h < 10 ^ 15"
    "unat mi < 10 ^ 15" "unat s < 10 ^ 15"
    using b(2-5) by (elim disjE conjE; simp)+
  note l = this [THEN dig]
  have l': "length (udec (unat n)) \<le> 20" if "length (udec (unat n)) \<le> 18" for n :: u64 using that by simp
  have st: "(if n > 0 then cat_unit out outsize n unit else Some out) =
      (if render (part (unat n) unit unit i) = [] then Some out else HX_strlcat out (render (part (unat n) unit unit i)) outsize)"
    if "length (udec (unat n)) \<le> 18" "length unit \<le> 4" "NUL \<notin> set unit" for n :: u64 and unit i out
    by (rule step_unit) (use that in simp_all)
  have last: "(if s > 0 \<or> z then cat_unit out outsize s ''s'' else Some out) =
      (let t = (if s > 0 \<or> z then udec (unat s) @ ''s'' else []) in if t = [] then Some out else HX_strlcat out t outsize)" for z out
    using cat_unit_fits [of s "''s''" out outsize] l(7) by simp
  note mo = step_units [OF l(2), of "''month''" "''months''" _ outsize PERIDX_MONTHS]
    and w = step_units [OF l(3), of "''week''" "''weeks''" _ outsize PERIDX_WEEKS]
  show ?thesis
    unfolding HX_unit_seconds_def sec_texts_def sp Let_def prod.case cat_all.simps
      st [OF l(1), of "''y''" _ PERIDX_YEARS, simplified] st [OF l(4), of "''d''" _ PERIDX_DAYS, simplified]
      st [OF l(5), of "''h''" _ PERIDX_HOURS, simplified] st [OF l(6), of "''min''" _ PERIDX_MIN, simplified]
      last [unfolded Let_def]
    using mo w by simp
qed

text \<open>C33: \<open>HX_unit_seconds\<close> and \<open>HX_strtoull_sec\<close> are inverse: for any number of seconds and any choice of units
  the text printed into a buffer of at least \<^verbatim>\<open>HXSIZEOF_UNITSEC64\<close> bytes has at most 40 characters, as the
  documentation promises, and reading it back gives the number again, all of the text being used up.\<close>

theorem HX_unit_seconds_roundtrip:
  assumes o: "41 \<le> unat outsize" "unat outsize \<le> length out" "length out < 2 ^ 63"
  shows "\<exists>o'. HX_unit_seconds out outsize secs flags = Some o' \<and> length (cstr o') \<le> 40 \<and>
    HX_strtoull_sec fp (cstr o') err = (secs, Some [], None)"
proof -
  let ?ts = "sec_texts flags secs" and ?ps = "parts flags secs" and ?o = "out[0 := NUL]"
  note ok = parts_units [of flags secs]
  have n0: "0 < length out" using o(1,2) by linarith
  have c0: "cstr ?o = []" "length ?o = length out" using n0 by (cases out; simp add: cstr_def)+
  have nul: "NUL \<notin> set (concat ?ts)" unfolding texts_parts using ok by (intro render_no_NUL) blast
  have "length (cstr ?o) + length (concat ?ts) < unat outsize" using texts_length [of flags secs] o(1) c0(1) by simp
  from cat_all_fits [OF this _ _ nul] o(2,3) c0 obtain o' where o': "cat_all ?o outsize ?ts = Some o'" "cstr o' = concat ?ts"
    by auto
  have run: "HX_unit_seconds out outsize secs flags = Some o'" using seconds_run [of out outsize secs flags] o'(1) n0 by (simp add: wr_in)
  have "at0 (render ?ps) \<noteq> CHR ''P''" using render_hd [of ?ps] digit_not(4) by auto
  then have "HX_strtoull_sec fp (render ?ps) err = period_loop fp txtperiod_utab sec_mult (render ?ps) 0 err"
    by (simp add: HX_strtoull_sec_def looks_like_iso8601_def HX_strtoull_period_def)
  also have "\<dots> = (0 + of_nat (render_val sec_mult ?ps), Some [], None)"
    by (rule period_loop_render [OF ok]) (use parts_val unat_bound [of secs] in simp)
  also have "\<dots> = (secs, Some [], None)" by (simp add: parts_val)
  finally have "HX_strtoull_sec fp (cstr o') err = (secs, Some [], None)" unfolding o'(2) texts_parts .
  then show ?thesis using run texts_length [of flags secs] unfolding o'(2) [symmetric] by blast
qed

theorem HX_unit_seconds_roundtrip_witness:
  "\<exists>o'. HX_unit_seconds (replicate 41 NUL) 41 90061 0 = Some o' \<and> length (cstr o') \<le> 40 \<and>
    HX_strtoull_sec whole_fp (cstr o') None = (90061, Some [], None)"
  by (rule HX_unit_seconds_roundtrip) simp_all

section \<open>Shortened numbers: properties\<close>

lemma usize_loop_spec:
  "i \<le> 11 \<Longrightarrow> \<exists>k. i \<le> k \<and> k \<le> 11 \<and> snd (usize_loop d c sz i) = k \<and>
    unat (fst (usize_loop d c sz i)) = unat sz div unat d ^ (k - i) \<and>
    (k < 11 \<longrightarrow> unat sz div unat d ^ (k - i) < unat c) \<and> (\<forall>j < k - i. unat c \<le> unat sz div unat d ^ j)"
proof (induction d c sz i rule: usize_loop.induct)
  case (1 d c sz i)
  have l: "length unit_names - 1 = 11" by (simp add: unit_names_def)
  show ?case
  proof (cases "i < 11 \<and> ucast c \<le> sz")
    case True
    then obtain k where k: "i + 1 \<le> k" "k \<le> 11" "snd (usize_loop d c (sz div ucast d) (i + 1)) = k"
      "unat (fst (usize_loop d c (sz div ucast d) (i + 1))) = unat (sz div ucast d) div unat d ^ (k - (i + 1))"
      "k < 11 \<longrightarrow> unat (sz div ucast d) div unat d ^ (k - (i + 1)) < unat c"
      "\<forall>j < k - (i + 1). unat c \<le> unat (sz div ucast d) div unat d ^ j"
      using "1.IH" l by auto
    have s: "unat (sz div ucast d) div unat d ^ j = unat sz div unat d ^ Suc j" for j
      by (simp add: unat_div div_mult2_eq)
    have e: "k - i = Suc (k - (i + 1))" using k(1) by simp
    have "unat c \<le> unat sz"
    proof -
      show ?thesis using True by (simp add: word_le_nat_alt)
    qed
    then have "\<forall>j < k - i. unat c \<le> unat sz div unat d ^ j"
      using k(6) s unfolding e by (auto simp: less_Suc_eq_0_disj)
    moreover have "usize_loop d c sz i = usize_loop d c (sz div ucast d) (i + 1)"
      using True l by (subst usize_loop.simps) simp
    moreover note k(2,3) k(4,5) [unfolded s e [symmetric]]
    moreover have "i \<le> k" using k(1) by simp
    ultimately show ?thesis by (intro exI [of _ k]) (simp only: simp_thms)
  next
    case False
    have "i < 11 \<longrightarrow> unat sz < unat c" using False by (auto simp: word_le_nat_alt)
    then show ?thesis using False l 1(2) by (subst (1 2) usize_loop.simps) auto
  qed
qed

text \<open>\<open>HX_unit_size\<close> divides by the divisor until the quotient is below the cutoff, at most eleven times, and
  prints the quotient of the last division with the prefix of that power, cut off to the size of the buffer; at the
  eleventh power there is no prefix left to print.\<close>

theorem HX_unit_size_quotient:
  assumes "0 < bufsize" "bufsize \<le> length buf" and d: "0 < divisor" and c: "0 < cutoff"
  shows "\<exists>b k. HX_unit_size buf bufsize sz divisor cutoff = Some b \<and> k \<le> 11 \<and>
    cstr b = take (bufsize - 1) (udec (unat sz div unat divisor ^ k) @ (if k = 0 \<or> k = 11 then [] else [''kMGTPEZYRQ'' ! (k - 1)])) \<and>
    (k = 11 \<or> unat sz div unat divisor ^ k < unat cutoff) \<and> {j. j < k \<and> unat sz div unat divisor ^ j < unat cutoff} = {}"
proof -
  obtain k where k: "k \<le> 11" "snd (usize_loop divisor cutoff sz 0) = k"
    "unat (fst (usize_loop divisor cutoff sz 0)) = unat sz div unat divisor ^ k"
    "k < 11 \<longrightarrow> unat sz div unat divisor ^ k < unat cutoff" "\<forall>j < k. unat cutoff \<le> unat sz div unat divisor ^ j"
    using usize_loop_spec [of 0 divisor cutoff sz] by auto
  let ?t = "udec (unat sz div unat divisor ^ k) @ unit_text k"
  have u: "unit_text i = (if i = 0 \<or> i = 11 then [] else [''kMGTPEZYRQ'' ! (i - 1)])" if "i \<le> 11" for i
  proof -
    have "i = 0 \<or> i = 1 \<or> i = 2 \<or> i = 3 \<or> i = 4 \<or> i = 5 \<or> i = 6 \<or> i = 7 \<or> i = 8 \<or> i = 9 \<or> i = 10 \<or> i = 11"
      using that by arith
    then show ?thesis by (elim disjE) (simp_all add: unit_text_def unit_names_def cstr_def)
  qed
  have nn: "NUL \<notin> set ?t" using udec_no_NUL by (auto simp: u [OF k(1)] unit_text_def cstr_def dest: in_set_takeD set_takeWhileD)
  have nz: "divisor \<noteq> 0" "cutoff \<noteq> 0" using d c by auto
  have "HX_unit_size buf bufsize sz divisor cutoff = snprintf buf bufsize ?t"
    using nz k(2,3) by (simp add: HX_unit_size_def Let_def case_prod_unfold)
  moreover obtain b where "snprintf buf bufsize ?t = Some b" "cstr b = take (bufsize - 1) ?t"
    using snprintf_cut [OF assms(1,2) nn] by blast
  ultimately show ?thesis using k(1,4,5) u [OF k(1)] by (intro exI [of _ b] exI [of _ k]) (auto simp: not_less)
qed

theorem HX_unit_size_quotient_witness:
  "\<exists>b k. HX_unit_size (replicate 8 NUL) 8 1048576 1024 8192 = Some b \<and> k \<le> 11 \<and>
    cstr b = take (8 - 1) (udec (unat (1048576 :: u64) div unat (1024 :: u32) ^ k) @
      (if k = 0 \<or> k = 11 then [] else [''kMGTPEZYRQ'' ! (k - 1)])) \<and>
    (k = 11 \<or> unat (1048576 :: u64) div unat (1024 :: u32) ^ k < unat (8192 :: u32)) \<and>
    {j. j < k \<and> unat (1048576 :: u64) div unat (1024 :: u32) ^ j < unat (8192 :: u32)} = {}"
  by (rule HX_unit_size_quotient) simp_all

lemma unat_less_u32: "unat (w :: u32) < 2 ^ 32"
  using unat_bound [of w] by simp

lemma nine_tenths: "9 * n div 10 = n - n div 10 - (if n mod 10 = 0 then 0 else 1)" for n :: nat
proof -
  obtain a b where ab: "n = 10 * a + b" "b < 10" by (metis mod_less_divisor mult_div_mod_eq zero_less_numeral)
  have b: "9 * b div 10 = b - (if b = 0 then 0 else 1)"
  proof -
    have "b = 0 \<or> b = 1 \<or> b = 2 \<or> b = 3 \<or> b = 4 \<or> b = 5 \<or> b = 6 \<or> b = 7 \<or> b = 8 \<or> b = 9" using ab(2) by arith
    then show ?thesis by (elim disjE) simp_all
  qed
  have "9 * n = 10 * (9 * a) + 9 * b" using ab(1) by simp
  then have "9 * n div 10 = 9 * a + 9 * b div 10" by (simp only: div_mult_self4 zero_neq_numeral simp_thms)
  moreover have "n div 10 = a" "n mod 10 = b" using ab by simp_all
  ultimately show ?thesis using b ab by auto
qed

lemma p_90_nat: "unat (p_90 g) = 9 * unat g div 10"
proof -
  let ?n = "unat g"
  have d: "unat (g div 10) = ?n div 10" by (simp add: unat_div)
  have m: "g mod 10 = 0 \<longleftrightarrow> ?n mod 10 = 0"
  proof -
    have "unat (g mod 10) = ?n mod 10" by (simp add: unat_mod)
    then show ?thesis by (metis unat_eq_0)
  qed
  have le: "g div 10 \<le> g" unfolding word_le_nat_alt d by simp
  have a: "unat (g - g div 10) = ?n - ?n div 10" using d unat_sub [OF le] by simp
  show ?thesis
  proof (cases "?n mod 10 = 0")
    case True
    then show ?thesis using a m nine_tenths [of ?n] by (simp add: p_90_def)
  next
    case False
    then have "0 < ?n" by (cases "?n = 0") simp_all
    then have "?n div 10 < ?n" by simp
    then have le1: "1 \<le> g - g div 10" unfolding word_le_nat_alt a by simp
    show ?thesis using False a m unat_sub [OF le1] nine_tenths [of ?n] by (simp add: p_90_def)
  qed
qed

text \<open>The loop in terms of the original number.\<close>

lemma cu_loop_spec:
  "0 < unat d \<Longrightarrow> unat sz = n div unat d ^ i \<Longrightarrow> unat g = unat d ^ i \<Longrightarrow> n < 2 ^ 64 \<Longrightarrow> i \<le> 11 \<Longrightarrow>
    unat r = (if i = 0 then 0 else n div unat d ^ (i - 1) mod unat d) \<Longrightarrow>
    \<exists>q s h k. cu_loop d sz r g i = (q, s, h, k) \<and> k \<le> 11 \<and> unat q = n div unat d ^ k \<and> unat h = unat d ^ k \<and>
      unat s = (if k = 0 then 0 else n div unat d ^ (k - 1) mod unat d) \<and> (k < 11 \<longrightarrow> unat q < unat d) \<and> (0 < i \<longrightarrow> 0 < k)"
proof (induction d sz r g i rule: cu_loop.induct)
  case (1 d sz r g i)
  have l: "length unit_names - 1 = 11" by (simp add: unit_names_def)
  show ?case
  proof (cases "i < 11 \<and> ucast d \<le> sz")
    case True
    then have ds: "unat d \<le> unat sz" by (simp add: word_le_nat_alt)
    have step: "cu_loop d sz r g i = cu_loop d (sz div ucast d) (ucast (sz mod ucast d)) (g * ucast d) (i + 1)"
      using True l by (subst cu_loop.simps) simp
    have q: "unat (sz div ucast d) = n div unat d ^ (i + 1)"
      using "1.prems"(2) unfolding power_add power_one_right div_mult2_eq by (simp add: unat_div)
    have "unat d * unat d ^ i \<le> unat sz * unat d ^ i" using ds by simp
    also have "\<dots> \<le> n" using "1.prems"(2) by simp
    finally have "unat d ^ i * unat d < 2 ^ 64" using "1.prems"(4) by (simp add: mult.commute)
    then have g: "unat (g * ucast d) = unat d ^ (i + 1)" using "1.prems"(3) by (simp add: unat_word_ariths mult.commute)
    have "unat sz mod unat d < 2 ^ 32"
      using order_less_trans [OF mod_less_divisor [OF "1.prems"(1)] unat_less_u32] .
    then have r: "unat (ucast (sz mod ucast d) :: u32) = (if i + 1 = 0 then 0 else n div unat d ^ (i + 1 - 1) mod unat d)"
      using "1.prems"(2) by (simp add: unsigned_ucast_eq unat_mod take_bit_nat_eq_self)
    have c: "i < length unit_names - 1 \<and> ucast d \<le> sz" "i + 1 \<le> 11" using True l by simp_all
    obtain q' s' h' k where k: "cu_loop d (sz div ucast d) (ucast (sz mod ucast d)) (g * ucast d) (i + 1) = (q', s', h', k) \<and>
        k \<le> 11 \<and> unat q' = n div unat d ^ k \<and> unat h' = unat d ^ k \<and>
        unat s' = (if k = 0 then 0 else n div unat d ^ (k - 1) mod unat d) \<and> (k < 11 \<longrightarrow> unat q' < unat d) \<and>
        (0 < i + 1 \<longrightarrow> 0 < k)"
      using "1.IH" [OF c(1) "1.prems"(1) q g "1.prems"(4) c(2) r] by (elim exE)
    then have "0 < k" by simp
    with k show ?thesis unfolding step by (intro exI [of _ q'] exI [of _ s'] exI [of _ h'] exI [of _ k]) blast
  next
    case False
    then have "i < 11 \<longrightarrow> unat sz < unat d" by (auto simp: word_le_nat_alt)
    then show ?thesis using False l "1.prems" by (subst cu_loop.simps) auto
  qed
qed

text \<open>The rounding, with \<open>D = 10 * m\<close> the divisor, \<open>h\<close> the power below and \<open>R\<close> the remainder.\<close>

lemma tenths_bounds:
  fixes R h m r :: nat
  assumes "0 < m" "0 < h" and r: "r = R div h"
  shows "10 * R \<le> (r div m + 1) * (10 * m * h)" "(r div m + 1) * (10 * m * h) \<le> 10 * R + 10 * m * h"
proof -
  have "R < (r + 1) * h" using r assms(2) by (metis add.commute dividend_less_times_div mult.commute plus_1_eq_Suc mult_Suc_right)
  moreover have "r + 1 \<le> (r div m + 1) * m"
    using dividend_less_times_div [OF assms(1), of r] by (simp add: algebra_simps)
  then have "(r + 1) * h \<le> (r div m + 1) * m * h" by (rule mult_le_mono1)
  ultimately show "10 * R \<le> (r div m + 1) * (10 * m * h)" by (simp add: algebra_simps)
  have "r div m * m \<le> r" by simp
  then have "r div m * m * h \<le> r * h" by (rule mult_le_mono1)
  also have "r * h \<le> R" using r by simp
  finally show "(r div m + 1) * (10 * m * h) \<le> 10 * R + 10 * m * h" by (simp add: algebra_simps)
qed

lemma cu_round_spec:
  assumes D: "unat d = 10 * m" "0 < m" "10 * unat d \<le> 2 ^ 32" and g: "unat g = unat d * h" "0 < h"
    and R: "unat R < unat g" and r: "unat r = unat R div h" and q: "unat q < 2 ^ 64 - 1"
    and c: "cu_round d q r g R = (q', r')"
  shows "unat r' < 10" "10 * (unat q * unat g + unat R) \<le> (10 * unat q' + unat r') * unat g"
    "(10 * unat q' + unat r') * unat g \<le> 10 * (unat q * unat g + unat R) + (if unat q' < 10 then 1 else 10) * unat g"
    "unat q \<le> unat q' \<and> unat q' \<le> unat q + 1" "unat q' = unat q + 1 \<longrightarrow> r' = 0"
proof -
  let ?q = "unat q" and ?g = "unat g" and ?R = "unat R" and ?r = "unat r"
  have p9: "p_90 g < R \<longleftrightarrow> 9 * ?g div 10 < ?R" by (simp add: word_less_nat_alt p_90_nat)
  have g10: "?g = 10 * m * h" using D(1) g(1) by simp
  have q1: "unat (q + 1) = ?q + 1" using q by (simp add: unat_word_ariths)
  have rd: "?r < unat d" using r R g by (simp add: less_mult_imp_div_less)
  then have r10: "unat (r * 10) = ?r * 10" using D(3) by (simp add: unat_word_ariths)
  have dr: "?r * 10 div unat d = ?r div m" unfolding D(1) by (simp add: mult.commute)
  have le: "?r div m < 10" using rd D(1,2) by (simp add: less_mult_imp_div_less)
  have t: "unat ((r * 10) div d + 1) = ?r div m + 1"
  proof -
    have "unat ((r * 10) div d) = ?r div m" using r10 dr by (simp add: unat_div)
    then show ?thesis using le by (simp add: unat_word_ariths)
  qed
  note tb = tenths_bounds [OF D(2) g(2) r]
  have up: "10 * (?q * ?g + ?R) \<le> 10 * (?q + 1) * ?g" using R by (simp add: algebra_simps)
  have "unat r' < 10 \<and> 10 * (?q * ?g + ?R) \<le> (10 * unat q' + unat r') * ?g \<and>
      (10 * unat q' + unat r') * ?g \<le> 10 * (?q * ?g + ?R) + (if unat q' < 10 then 1 else 10) * ?g \<and>
      (?q \<le> unat q' \<and> unat q' \<le> ?q + 1) \<and> (unat q' = ?q + 1 \<longrightarrow> r' = 0)"
  proof (cases "p_90 g < R")
    case True
    then have e: "q' = q + 1" "r' = 0" using c by (simp_all add: cu_round_def)
    have "9 * ?g div 10 < ?R" using True p9 by simp
    then have "9 * ?g < 10 * ?R" using g10 by simp
    then have "10 * (?q + 1) * ?g \<le> 10 * (?q * ?g + ?R) + 1 * ?g" by (simp add: algebra_simps)
    moreover have "1 * ?g \<le> (if x < 10 then 1 else 10) * ?g" for x :: nat by simp
    ultimately show ?thesis using up q1 e by (auto intro: order_trans)
  next
    case False
    let ?t = "(r * 10) div d + 1"
    have c': "(q', r') = (if ?t = 10 \<or> (q \<ge> 10 \<and> ?t > 0) then (q + 1, 0) else (q, ?t))"
      using False c by (simp add: cu_round_def Let_def)
    have t0: "?t > 0" unfolding word_less_nat_alt t by simp
    have t10: "?t = 10 \<longleftrightarrow> ?r div m = 9" unfolding word_unat_eq_iff t by simp
    have q10: "q \<ge> 10 \<longleftrightarrow> 10 \<le> ?q" by (simp add: word_le_nat_alt)
    consider (a) "?r div m = 9" | (b) "?r div m \<noteq> 9" "10 \<le> ?q" | (c) "?r div m \<noteq> 9" "?q < 10" by linarith
    then show ?thesis
    proof cases
      case a
      then have e: "q' = q + 1" "r' = 0" using c' t10 by simp_all
      have "10 * (?q + 1) * ?g \<le> 10 * (?q * ?g + ?R) + 1 * ?g" using tb(2) a g10 by (simp add: algebra_simps)
      moreover have "1 * ?g \<le> (if x < 10 then 1 else 10) * ?g" for x :: nat by simp
      ultimately show ?thesis using up q1 e by (auto intro: order_trans)
    next
      case b
      then have e: "q' = q + 1" "r' = 0" using c' t10 t0 q10 by simp_all
      show ?thesis using up q1 e b(2) by (simp add: algebra_simps)
    next
      case c
      then have e: "q' = q" "r' = ?t" using c' t10 q10 by simp_all
      have "10 * ?R \<le> (?r div m + 1) * ?g" "(?r div m + 1) * ?g \<le> 10 * ?R + ?g" using tb g10 by simp_all
      then show ?thesis using e(1) c le t unfolding e(2) by (simp add: algebra_simps)
    qed
  qed
  then show "unat r' < 10" "10 * (?q * ?g + ?R) \<le> (10 * unat q' + unat r') * ?g"
    "(10 * unat q' + unat r') * ?g \<le> 10 * (?q * ?g + ?R) + (if unat q' < 10 then 1 else 10) * ?g"
    "?q \<le> unat q' \<and> unat q' \<le> ?q + 1" "unat q' = ?q + 1 \<longrightarrow> r' = 0" by blast+
qed

lemma cu_parts_spec:
  assumes D: "unat d = 10 * m" "0 < m" "10 * unat d \<le> 2 ^ 32" and p: "cu_parts d orig = (q, r, k)"
  shows "k \<le> 11 \<and> unat r < 10 \<and> (k < 11 \<longrightarrow> unat q < unat d) \<and> 10 * unat orig \<le> (10 * unat q + unat r) * unat d ^ k \<and>
    (10 * unat q + unat r) * unat d ^ k \<le> 10 * unat orig + (if unat q < 10 then 1 else 10) * unat d ^ k"
proof -
  let ?n = "unat orig" and ?D = "unat d"
  have n64: "?n < 2 ^ 64" using unat_bound [of orig] by simp
  have d0: "0 < ?D" using D(1,2) by simp
  obtain q0 s g j where l: "cu_loop d orig 0 1 0 = (q0, s, g, j)" and j: "j \<le> 11" "unat q0 = ?n div ?D ^ j" "unat g = ?D ^ j"
    "unat s = (if j = 0 then 0 else ?n div ?D ^ (j - 1) mod ?D)" "j < 11 \<longrightarrow> unat q0 < ?D"
    using cu_loop_spec [OF d0, of orig ?n 0 1 0] n64 by auto
  let ?R = "orig - q0 * g"
  have qg: "unat (q0 * g) = ?n div ?D ^ j * ?D ^ j"
  proof -
    have "?n div ?D ^ j * ?D ^ j \<le> ?n" by simp
    then have "?n div ?D ^ j * ?D ^ j < 2 ^ 64" using n64 by linarith
    then show ?thesis using j(2,3) by (simp add: unat_word_ariths)
  qed
  then have "q0 * g \<le> orig" by (simp add: word_le_nat_alt)
  then have R: "unat ?R = ?n mod ?D ^ j" using qg by (simp add: unat_sub minus_div_mult_eq_mod)
  have n: "?n = unat q0 * unat g + unat ?R" unfolding R j(2,3) by (rule div_mult_mod_eq [symmetric])
  have l11: "length unit_names - 1 = 11" by (simp add: unit_names_def)
  show ?thesis
  proof (cases "j \<noteq> 0 \<and> ?R \<noteq> 0")
    case False
    then have e: "q = q0" "r = s" "k = j" using p l by (simp_all add: cu_parts_def Let_def split: if_splits)
    have "unat s = 0"
    proof (cases "j = 0")
      case no: False
      then have "?n mod ?D ^ j = 0" using False R by simp
      moreover have "?D ^ j = ?D ^ (j - 1) * ?D" using no by (cases j) (simp_all add: mult.commute)
      ultimately have "?n mod (?D ^ (j - 1) * ?D) = 0" by simp
      then have "?n div ?D ^ (j - 1) mod ?D = 0" unfolding mod_mult2_eq using d0 by simp
      then show ?thesis using j(4) no by simp
    qed (use j(4) in simp)
    moreover have "unat ?R = 0" using False R by (cases "j = 0") simp_all
    ultimately show ?thesis using e j(1,3,5) n by simp
  next
    case True
    obtain q1 r1 where c: "cu_round d q0 s g ?R = (q1, r1)" by fastforce
    let ?h = "?D ^ (j - 1)"
    have gh: "unat g = ?D * ?h" "0 < ?h" using j(3) True d0 by (cases j; simp)+
    have Rg: "unat ?R < unat g" using R j(3) d0 by simp
    have s: "unat s = unat ?R div ?h"
    proof -
      have "unat ?R = ?h * (?n div ?h mod ?D) + ?n mod ?h" unfolding R gh(1) [unfolded j(3)] mult.commute [of ?D] by (rule mod_mult2_eq)
      moreover have hz: "?h \<noteq> 0" using gh(2) by linarith
      have "(?h * x + ?n mod ?h) div ?h = x" for x unfolding div_mult_self4 [OF hz] by (simp only: mod_div_trivial add_0_right)
      ultimately show ?thesis using j(4) True by simp
    qed
    have q64: "unat q0 < 2 ^ 64 - 1"
    proof -
      have "?n div ?D ^ j \<le> ?n div ?D" using True d0 by (intro div_le_mono2) (auto simp: self_le_power)
      also have "\<dots> \<le> ?n div 10" using D(1,2) by (intro div_le_mono2) auto
      finally have "unat q0 \<le> ?n div 10" using j(2) by simp
      moreover have "?n div 10 * 10 \<le> ?n" by simp
      ultimately show ?thesis using n64 by simp
    qed
    note c5 = cu_round_spec [OF D gh Rg s q64 c]
    show ?thesis
    proof (cases "j < 11 \<and> q1 = ucast d")
      case carry: True
      then have e: "q = q1 div ucast d" "r = r1" "k = j + 1" using p l True c l11 by (simp_all add: cu_parts_def Let_def)
      have u: "unat q1 = ?D" using carry by simp
      then have "unat q0 + 1 = ?D" using c5(4) j(5) carry by linarith
      then have "r1 = 0" using c5(5) u by simp
      have "unat q = 1" using e(1) u d0 by (simp add: unat_div)
      have "?D ^ (j + 1) = ?D * unat g" using j(3) by simp
      moreover have "(if unat q1 < 10 then 1 else 10) * unat g \<le> ?D * unat g"
      proof -
        have "(if unat q1 < 10 then 1 else 10) \<le> ?D" using D(1,2) by auto
        then show ?thesis by (rule mult_le_mono1)
      qed
      moreover have "10 * ?n \<le> 10 * (?D * unat g)" "10 * (?D * unat g) \<le> 10 * ?n + (if unat q1 < 10 then 1 else 10) * unat g"
        using c5(2,3) u n \<open>r1 = 0\<close> by (simp_all add: algebra_simps)
      ultimately have a: "10 * ?D ^ (j + 1) \<le> 10 * ?n + ?D ^ (j + 1)" "10 * ?n \<le> 10 * ?D ^ (j + 1)" by linarith+
      have "1 < ?D" using D(1,2) by simp
      moreover have qr: "10 * unat q + unat r = 10" using \<open>unat q = 1\<close> \<open>r1 = 0\<close> e(2) by simp
      ultimately show ?thesis using a carry \<open>unat q = 1\<close> \<open>r1 = 0\<close> unfolding qr e(3) by (simp add: e(2))
    next
      case no: False
      then have e: "q = q1" "r = r1" "k = j" using p l True c l11 by (auto simp: cu_parts_def Let_def split: if_splits)
      have "j < 11 \<longrightarrow> unat q1 < ?D"
      proof
        assume a: "j < 11"
        then have "q1 \<noteq> ucast d" using no by simp
        then have "unat q1 \<noteq> ?D" by (metis unat_ucast_u32 word_unat_eq_iff)
        then show "unat q1 < ?D" using c5(4) j(5) a by linarith
      qed
      then show ?thesis using e c5(1-3) n j(1,3) by simp
    qed
  qed
qed

text \<open>\<open>HX_unit_size_cu\<close> rounds up, as its documentation says: for a divisor that is a multiple of ten
  the quotient with one decimal that it prints, times the power of its prefix, is never below the number, and above it
  by at most a tenth of that power, or by one whole when the quotient has two digits. The quotient is below the
  divisor as long as there are prefixes left.\<close>

theorem HX_unit_size_cu_rounds:
  assumes "0 < bufsize" "bufsize \<le> length buf" and D: "unat divisor = 10 * m" "0 < m" "10 * unat divisor \<le> 2 ^ 32"
  shows "\<exists>b q r k. HX_unit_size_cu buf bufsize orig divisor = Some b \<and>
    cstr b = take (bufsize - 1) (udec q @ (if k = 0 \<or> 10 \<le> q \<and> r = 0 then [] else ''.'' @ udec r) @ unit_text k) \<and>
    k \<le> 11 \<and> r < 10 \<and> (q < unat divisor \<or> k = 11) \<and> 10 * unat orig \<le> (10 * q + r) * unat divisor ^ k \<and>
    (10 * q + r) * unat divisor ^ k \<le> 10 * unat orig + (if q < 10 then 1 else 10) * unat divisor ^ k"
proof -
  obtain q r k where p: "cu_parts divisor orig = (q, r, k)" by (metis prod_cases3)
  note s = cu_parts_spec [OF D p]
  let ?t = "udec (unat q) @ (if k = 0 \<or> 10 \<le> unat q \<and> unat r = 0 then [] else ''.'' @ udec (unat r)) @ unit_text k"
  have dz: "divisor \<noteq> 0" using D(1,2) by (metis mult_is_0 neq0_conv unat_0 zero_neq_numeral)
  have "10 \<le> q \<longleftrightarrow> 10 \<le> unat q" "r = 0 \<longleftrightarrow> unat r = 0" by (simp_all add: word_le_nat_alt unat_eq_0)
  then have "HX_unit_size_cu buf bufsize orig divisor = snprintf buf bufsize ?t"
    using dz p by (auto simp: HX_unit_size_cu_def Let_def)
  moreover have "NUL \<notin> set ?t" using udec_no_NUL by (auto simp: unit_text_def cstr_def dest: in_set_takeD set_takeWhileD)
  then obtain b where "snprintf buf bufsize ?t = Some b" "cstr b = take (bufsize - 1) ?t"
    using snprintf_cut [OF assms(1,2)] by blast
  moreover have "unat q < unat divisor \<or> k = 11" using s by linarith
  ultimately show ?thesis using s
    by (intro exI [of _ b] exI [of _ "unat q"] exI [of _ "unat r"] exI [of _ k]) (simp only: simp_thms)
qed

theorem HX_unit_size_cu_rounds_witness:
  "\<exists>b q r k. HX_unit_size_cu (replicate 8 NUL) 8 1945 1000 = Some b \<and>
    cstr b = take (8 - 1) (udec q @ (if k = 0 \<or> 10 \<le> q \<and> r = 0 then [] else ''.'' @ udec r) @ unit_text k) \<and>
    k \<le> 11 \<and> r < 10 \<and> (q < unat (1000 :: u32) \<or> k = 11) \<and> 10 * unat (1945 :: u64) \<le> (10 * q + r) * unat (1000 :: u32) ^ k \<and>
    (10 * q + r) * unat (1000 :: u32) ^ k \<le> 10 * unat (1945 :: u64) + (if q < 10 then 1 else 10) * unat (1000 :: u32) ^ k"
  by (rule HX_unit_size_cu_rounds [where m = 100]) simp_all

section \<open>Numbers with a unit suffix: properties\<close>

lemma unat_MAX: "unat ULLONG_MAX = 2 ^ 64 - 1"
  by (simp add: ULLONG_MAX_def unsigned_minus_1_eq_mask mask_eq_exp_minus_1)

lemma unit_mul_fits:
  "0 < unat e \<Longrightarrow> unat x * unat e ^ p + unat e < 2 ^ 64 \<Longrightarrow> \<exists>v. unit_mul p x e = Some v \<and> unat v = unat x * unat e ^ p"
proof (induction p arbitrary: x)
  case (Suc p)
  let ?e = "unat e"
  have "?e * 1 \<le> ?e * ?e ^ p" using Suc.prems(1) by (intro mult_le_mono2) simp
  then have le: "unat x * ?e \<le> unat x * ?e ^ Suc p" by simp
  then have l: "unat x * ?e + ?e \<le> 2 ^ 64 - 1" using Suc.prems(2) by linarith
  then have "(unat x + 1) * ?e \<le> 2 ^ 64 - 1" by simp
  then have "unat x + 1 \<le> (2 ^ 64 - 1) div ?e" using Suc.prems(1) by (simp only: less_eq_div_iff_mult_less_eq)
  then have n: "\<not> ULLONG_MAX div ucast e \<le> x" by (simp add: word_le_nat_alt unat_div unat_MAX)
  have m: "unat (x * ucast e) = unat x * ?e" using l by (simp add: unat_word_ariths)
  have "\<exists>v. unit_mul p (x * ucast e) e = Some v \<and> unat v = unat (x * ucast e) * ?e ^ p"
    using Suc.IH [of "x * ucast e"] Suc.prems m by (simp add: mult.assoc)
  then show ?case using n m by (auto simp: mult.assoc)
qed simp

lemma unit_mul_overflow:
  "0 < unat e \<Longrightarrow> 2 ^ 64 \<le> unat x * unat e ^ p \<Longrightarrow> unit_mul p x e = None"
proof (induction p arbitrary: x)
  case 0
  then show ?case using unat_bound [of x] by simp
next
  case (Suc p)
  let ?e = "unat e"
  show ?case
  proof (cases "ULLONG_MAX div ucast e \<le> x")
    case False
    then have "unat x < (2 ^ 64 - 1) div ?e" by (simp add: word_le_nat_alt unat_div unat_MAX)
    then have "unat x * ?e \<le> (2 ^ 64 - 1) div ?e * ?e" by (intro mult_le_mono1) simp
    also have "\<dots> \<le> 2 ^ 64 - 1" by (rule div_times_less_eq_dividend)
    finally have "unat (x * ucast e) = unat x * ?e" by (simp add: unat_word_ariths)
    then show ?thesis using False Suc by (simp add: mult.assoc)
  qed simp
qed

text \<open>\<open>HX_strtoull_unit\<close> on a number with a unit: whatever the exponent, an overflow of the product is
  reported as \<open>ERANGE\<close>, and a product that stays below the limit by at least the exponent is returned. In between the
  test \<open>>=\<close> refuses products that fit: already the first one when the number is the limit divided by the exponent.\<close>

theorem HX_strtoull_unit_overflow:
  assumes n: "n < 2 ^ 64" and e: "0 < e" and p: "0 < suffix_power u"
  shows "(if n * unat e ^ suffix_power u + unat e < 2 ^ 64
     then HX_strtoull_unit fp (udec n @ u # rest) e = (of_nat (n * unat e ^ suffix_power u), Some rest, None) else True) \<and>
    (if 2 ^ 64 \<le> n * unat e ^ suffix_power u \<or> (2 ^ 64 - 1) div unat e \<le> n
     then HX_strtoull_unit fp (udec n @ u # rest) e = (ULLONG_MAX, Some rest, Some ERANGE) else True)"
proof -
  have a: "isalpha u"
  proof -
    have "toupper u \<in> set ''KMGTPEZYRQ''" using p by (auto simp: suffix_power_def Let_def split: if_splits)
    then show ?thesis by (auto simp: toupper_def isalpha_def isupper_def islower_def split: if_splits)
  qed
  then have u: "\<not> isdigit u" "\<not> isspace u" "u \<noteq> CHR ''.''"
    by (auto simp: isalpha_def isupper_def islower_def isdigit_def isspace_def)
  obtain c cs where c: "udec n = c # cs" by (cases "udec n") auto
  then have "isdigit c" using udec_isdigit [of c n] by simp
  note c' = digit_not [OF this]
  have s: "strtoull (udec n @ u # rest) = (of_nat n, length (udec n), False)" by (rule strtoull_udec [OF n]) (use u(1) in simp)
  have nz: "e \<noteq> 0" using e by auto
  have r: "HX_strtoull_unit fp (udec n @ u # rest) e = (case unit_mul (suffix_power u) (of_nat n) e of
      None \<Rightarrow> (ULLONG_MAX, Some rest, Some ERANGE) | Some v \<Rightarrow> (v, Some rest, None))"
    using s c c' u p nz by (simp add: HX_strtoull_unit_def Let_def split: option.split)
  have un: "unat (of_nat n :: u64) = n" using n by (simp add: unat_of_nat take_bit_nat_eq_self)
  have ue: "0 < unat e" using nz by (simp add: unat_gt_0)
  obtain j where j: "suffix_power u = Suc j" using p by (cases "suffix_power u") auto
  have "unit_mul (suffix_power u) (of_nat n) e = None" if "(2 ^ 64 - 1) div unat e \<le> n"
    using that un unfolding j by (simp add: word_le_nat_alt unat_div unat_MAX)
  moreover have "\<exists>v. unit_mul (suffix_power u) (of_nat n) e = Some v \<and> unat v = n * unat e ^ suffix_power u"
    if "n * unat e ^ suffix_power u + unat e < 2 ^ 64" using unit_mul_fits [OF ue, of "of_nat n"] that un by simp
  moreover have "unit_mul (suffix_power u) (of_nat n) e = None" if "2 ^ 64 \<le> n * unat e ^ suffix_power u"
    using unit_mul_overflow [OF ue, of "of_nat n"] that un by simp
  moreover have "v = of_nat k" if "unat v = k" for v :: u64 and k using that by auto
  ultimately have a: "unit_mul (suffix_power u) (of_nat n) e = Some (of_nat (n * unat e ^ suffix_power u))"
    if "n * unat e ^ suffix_power u + unat e < 2 ^ 64" using that by metis
  note b = \<open>2 ^ 64 \<le> n * unat e ^ suffix_power u \<Longrightarrow> unit_mul (suffix_power u) (of_nat n) e = None\<close>
    \<open>(2 ^ 64 - 1) div unat e \<le> n \<Longrightarrow> unit_mul (suffix_power u) (of_nat n) e = None\<close>
  show ?thesis
  proof (rule conjI)
    show "if n * unat e ^ suffix_power u + unat e < 2 ^ 64
      then HX_strtoull_unit fp (udec n @ u # rest) e = (of_nat (n * unat e ^ suffix_power u), Some rest, None) else True"
      unfolding r using a by (simp only: option.case split: if_split) simp
    show "if 2 ^ 64 \<le> n * unat e ^ suffix_power u \<or> (2 ^ 64 - 1) div unat e \<le> n
      then HX_strtoull_unit fp (udec n @ u # rest) e = (ULLONG_MAX, Some rest, Some ERANGE) else True"
    proof (cases "2 ^ 64 \<le> n * unat e ^ suffix_power u \<or> (2 ^ 64 - 1) div unat e \<le> n")
      case True
      then have "unit_mul (suffix_power u) (of_nat n) e = None" using b by blast
      then show ?thesis unfolding r by simp
    qed (simp only: if_False)
  qed
qed

theorem HX_strtoull_unit_overflow_witness:
  "HX_strtoull_unit whole_fp (udec 18446744073709551 @ CHR ''k'' # []) 1000 = (ULLONG_MAX, Some [], Some ERANGE) \<and>
    HX_strtoull_unit whole_fp (udec 5 @ CHR ''M'' # []) 1024 = (of_nat (5 * 1024 ^ 2), Some [], None)"
proof -
  have s: "suffix_power CHR ''k'' = 1" "suffix_power CHR ''M'' = 2"
    by code_simp+
  from HX_strtoull_unit_overflow [of 18446744073709551 1000 "CHR ''k''" whole_fp "[]"]
    HX_strtoull_unit_overflow [of 5 1024 "CHR ''M''" whole_fp "[]"]
  show ?thesis unfolding s by simp
qed

end
