(* ===== verification/HX_Hash.thy ===== *)
theory HX_Hash
  imports HX_Cstring
begin

text \<open>
  The arithmetic of the hash map in \<^verbatim>\<open>src/map.c\<close>: the table of bucket numbers, the load
  fraction, and the two hash functions. \<^verbatim>\<open>unsigned int\<close> is a 32-bit word, \<^verbatim>\<open>unsigned long\<close> a
  64-bit word; a byte key is a list of 8-bit words.
\<close>

unbundle bit_operations_syntax

section \<open>Sizes\<close>

definition HXhash_primes :: "nat list" where
  "HXhash_primes = [23, 53, 97, 193, 389, 769, 1543, 3079, 6151, 12289, 24593, 49157,
     98317, 196613, 393241, 786433, 1572869, 3145739, 6291469, 12582917,
     25165843, 50331653, 100663319, 201326611, 402653189, 805306457,
     1610612741, 3221225473]"

definition x_frac :: "u32 \<Rightarrow> u32 \<Rightarrow> u32 \<Rightarrow> u32" where
  "x_frac n d v = (v div d) * n + (v mod d) * n div d"

section \<open>Jenkins lookup3\<close>

definition jrot :: "u32 \<Rightarrow> nat \<Rightarrow> u32" where
  "jrot x k = (push_bit k x OR drop_bit (32 - k) x)"

definition b32 :: "u8 \<Rightarrow> nat \<Rightarrow> u32" where
  "b32 k s = push_bit s (ucast k)"

type_synonym abc = "u32 \<times> u32 \<times> u32"

text \<open>One line of the mixing step, \<^verbatim>\<open>x -= z; x ^= jrot(z, k); z += y\<close>, gives the new \<open>x\<close> and
  \<open>z\<close>; one of the final step, \<^verbatim>\<open>x ^= y; x -= jrot(y, k)\<close>, the new \<open>x\<close>.\<close>

definition jmix :: "nat \<Rightarrow> u32 \<Rightarrow> u32 \<Rightarrow> u32 \<Rightarrow> u32 \<times> u32" where
  "jmix k x y z = ((x - z) XOR jrot z k, z + y)"

definition jfin :: "nat \<Rightarrow> u32 \<Rightarrow> u32 \<Rightarrow> u32" where
  "jfin k x y = (x XOR y) - jrot y k"

definition jhash_mix :: "abc \<Rightarrow> abc" where
  "jhash_mix abc =
     (let (a, b, c) = abc;
        (a, c) = jmix 4 a b c;
        (b, a) = jmix 6 b c a;
        (c, b) = jmix 8 c a b;
        (a, c) = jmix 16 a b c;
        (b, a) = jmix 19 b c a;
        (c, b) = jmix 4 c a b
      in (a, b, c))"

definition jhash_final :: "abc \<Rightarrow> abc" where
  "jhash_final abc =
     (let (a, b, c) = abc;
        c = jfin 14 c b;
        a = jfin 11 a c;
        b = jfin 25 b a;
        c = jfin 16 c b;
        a = jfin 4 a c;
        b = jfin 14 b a;
        c = jfin 24 c b
      in (a, b, c))"

text \<open>The loop over blocks of twelve bytes; it leaves at most twelve.\<close>

function jlookup3_blocks :: "u8 list \<Rightarrow> abc \<Rightarrow> u8 list \<times> abc" where
  "jlookup3_blocks key abc =
     (if 12 < length key then
        let (a, b, c) = abc;
            a = a + (ucast (key ! 0) + b32 (key ! 1) 8 + b32 (key ! 2) 16 + b32 (key ! 3) 24);
            b = b + (ucast (key ! 4) + b32 (key ! 5) 8 + b32 (key ! 6) 16 + b32 (key ! 7) 24);
            c = c + (ucast (key ! 8) + b32 (key ! 9) 8 + b32 (key ! 10) 16 + b32 (key ! 11) 24)
        in jlookup3_blocks (drop 12 key) (jhash_mix (a, b, c))
      else (key, abc))"
  by pat_completeness auto
termination by (relation "measure (\<lambda>(key, abc). length key)") auto

declare jlookup3_blocks.simps [simp del]

text \<open>The fall-through switch adds every remaining byte; with none left it returns \<open>c\<close> at once.\<close>

definition HXhash_jlookup3 :: "u8 list \<Rightarrow> u64" where
  "HXhash_jlookup3 key0 =
     (let i = (ucast (0x9e3779b9 + (of_nat (length key0) :: u64)) :: u32);
          (key, (a, b, c)) = jlookup3_blocks key0 (i, i, i);
          n = length key
      in if n = 0 then ucast c
      else let
        c = (if 12 \<le> n then c + b32 (key ! 11) 24 else c);
        c = (if 11 \<le> n then c + b32 (key ! 10) 16 else c);
        c = (if 10 \<le> n then c + b32 (key ! 9) 8 else c);
        c = (if 9 \<le> n then c + ucast (key ! 8) else c);
        b = (if 8 \<le> n then b + b32 (key ! 7) 24 else b);
        b = (if 7 \<le> n then b + b32 (key ! 6) 16 else b);
        b = (if 6 \<le> n then b + b32 (key ! 5) 8 else b);
        b = (if 5 \<le> n then b + ucast (key ! 4) else b);
        a = (if 4 \<le> n then a + b32 (key ! 3) 24 else a);
        a = (if 3 \<le> n then a + b32 (key ! 2) 16 else a);
        a = (if 2 \<le> n then a + b32 (key ! 1) 8 else a);
        a = (if 1 \<le> n then a + ucast (key ! 0) else a);
        (_, _, c) = jhash_final (a, b, c)
      in ucast c)"

definition char_byte :: "char \<Rightarrow> u8" where
  "char_byte c = of_nat (of_char c)"

definition HXhash_jlookup3s :: "char list \<Rightarrow> u64" where
  "HXhash_jlookup3s p = HXhash_jlookup3 (map char_byte p)"

text \<open>\<open>HXhash_jlookup3v\<close> hashes the eight bytes of the key pointer itself (little endian).\<close>

definition HXhash_jlookup3v :: "u64 \<Rightarrow> u64" where
  "HXhash_jlookup3v p = HXhash_jlookup3 (map (\<lambda>i. ucast (drop_bit (8 * i) p)) [0..<8])"

section \<open>djb2\<close>

text \<open>The byte is a signed \<^verbatim>\<open>char\<close>: it is sign-extended to 64 bits before the exclusive or.\<close>

fun djb2_loop :: "u64 \<Rightarrow> char list \<Rightarrow> u64" where
  "djb2_loop v [] = v"
| "djb2_loop v (c # cs) = djb2_loop ((push_bit 5 v + v) XOR scast (char_byte c)) cs"

definition HXhash_djb2 :: "char list \<Rightarrow> u64" where
  "HXhash_djb2 p = djb2_loop 5381 p"

section \<open>Facts\<close>

lemma primes_length [simp]: "length HXhash_primes = 28"
  by (simp add: HXhash_primes_def)

lemma primes_range: "p < 28 \<Longrightarrow> 23 \<le> HXhash_primes ! p \<and> HXhash_primes ! p < 2 ^ 32"
proof -
  have "\<forall>x \<in> set HXhash_primes. 23 \<le> x \<and> x < 2 ^ 32" by (simp add: HXhash_primes_def)
  then show "p < 28 \<Longrightarrow> ?thesis" by (simp add: list_all_iff)
qed

lemma frac_nat: "0 < d \<Longrightarrow> (v div d) * n + (v mod d) * n div d = v * n div d" for v d n :: nat
proof -
  assume d: "0 < d"
  have "v * n = (v div d) * n * d + (v mod d) * n"
    by (metis add_mult_distrib div_mult_mod_eq mult.assoc mult.commute)
  then show ?thesis using d by simp
qed

text \<open>the load fraction is computed exactly and without overflow: \<open>x_frac n d v\<close> is \<open>v * n / d\<close>
  rounded down, for every \<open>v\<close>, when \<open>n \<le> d\<close> and \<open>d * n\<close> fits 32 bits (the code uses 7 and 10).\<close>

theorem x_frac_exact:
  assumes "0 < d" and "n \<le> d" and "unat d * unat n < 2 ^ 32"
  shows "unat (x_frac n d v) = unat v * unat n div unat d"
proof -
  let ?n = "unat n" and ?d = "unat d" and ?v = "unat v"
  have d: "0 < ?d" and nd: "?n \<le> ?d" using assms(1,2) by (simp_all add: word_gt_0 unat_gt_0 word_le_nat_alt)
  have v: "?v < 2 ^ 32" using unat_bound [of v] by simp
  have q: "(?v div ?d) * ?n \<le> ?v"
    using nd by (metis div_times_less_eq_dividend mult_le_mono2 order.trans)
  have "(?v mod ?d) * ?n \<le> ?d * ?n" using d by (simp add: less_imp_le)
  then have m: "(?v mod ?d) * ?n < 2 ^ 32" using assms(3) by linarith
  have "unat ((v div d) * n) = (?v div ?d) * ?n"
    using q v by (subst unat_mult_lem [THEN iffD1]) (simp_all add: unat_div)
  moreover have "unat ((v mod d) * n div d) = (?v mod ?d) * ?n div ?d"
  proof -
    have "unat ((v mod d) * n) = (?v mod ?d) * ?n"
      using m by (subst unat_mult_lem [THEN iffD1]) (simp_all add: unat_mod)
    then show ?thesis by (simp add: unat_div)
  qed
  moreover have "(?v div ?d) * ?n + (?v mod ?d) * ?n div ?d < 2 ^ 32"
  proof -
    have "?v * ?n div ?d \<le> ?v"
      using nd d by (metis div_le_mono mult_le_mono2 nonzero_mult_div_cancel_right not_gr_zero)
    then show ?thesis using v frac_nat [OF d, of ?v ?n] by linarith
  qed
  ultimately have "unat (x_frac n d v) = (?v div ?d) * ?n + (?v mod ?d) * ?n div ?d"
    unfolding x_frac_def by (subst unat_add_lem [THEN iffD1]) simp_all
  then show ?thesis using frac_nat [OF d] by simp
qed

theorem x_frac_exact_witness: "unat (x_frac 7 10 3221225473) = 3221225473 * 7 div 10"
  using x_frac_exact [of 10 7 3221225473] by simp

definition junmix :: "nat \<Rightarrow> u32 \<Rightarrow> u32 \<Rightarrow> u32 \<Rightarrow> u32 \<times> u32" where
  "junmix k x y z = ((x XOR jrot (z - y) k) + (z - y), z - y)"

definition junfin :: "nat \<Rightarrow> u32 \<Rightarrow> u32 \<Rightarrow> u32" where
  "junfin k x y = (x + jrot y k) XOR y"

definition jhash_unmix :: "abc \<Rightarrow> abc" where
  "jhash_unmix abc =
     (let (a, b, c) = abc;
        (c, b) = junmix 4 c a b;
        (b, a) = junmix 19 b c a;
        (a, c) = junmix 16 a b c;
        (c, b) = junmix 8 c a b;
        (b, a) = junmix 6 b c a;
        (a, c) = junmix 4 a b c
      in (a, b, c))"

definition jhash_unfinal :: "abc \<Rightarrow> abc" where
  "jhash_unfinal abc =
     (let (a, b, c) = abc;
        c = junfin 24 c b;
        b = junfin 14 b a;
        a = junfin 4 a c;
        c = junfin 16 c b;
        b = junfin 25 b a;
        a = junfin 11 a c;
        c = junfin 14 c b
      in (a, b, c))"

lemma xor_cancel: "(x XOR y) XOR y = x" for x y :: "'a :: len word"
  by (simp add: xor.assoc)

lemma jmix_unmix: "jmix k x y z = (x', z') \<longleftrightarrow> junmix k x' y z' = (x, z)"
  by (auto simp: jmix_def junmix_def xor_cancel)

lemma jfin_unfin [simp]: "junfin k (jfin k x y) y = x" "jfin k (junfin k x y) y = x"
  by (simp_all add: jfin_def junfin_def xor_cancel)

lemma unmix_mix: "jhash_unmix (jhash_mix abc) = abc"
proof -
  obtain a b c where abc: "abc = (a, b, c)" by (cases abc) auto
  obtain a1 c1 where 1: "jmix 4 a b c = (a1, c1)" by fastforce
  obtain b2 a2 where 2: "jmix 6 b c1 a1 = (b2, a2)" by fastforce
  obtain c3 b3 where 3: "jmix 8 c1 a2 b2 = (c3, b3)" by fastforce
  obtain a4 c4 where 4: "jmix 16 a2 b3 c3 = (a4, c4)" by fastforce
  obtain b5 a5 where 5: "jmix 19 b3 c4 a4 = (b5, a5)" by fastforce
  obtain c6 b6 where 6: "jmix 4 c4 a5 b5 = (c6, b6)" by fastforce
  have "jhash_mix abc = (a5, b6, c6)" by (simp add: jhash_mix_def abc 1 2 3 4 5 6)
  then show ?thesis using 1 2 3 4 5 6 by (simp add: jhash_unmix_def abc jmix_unmix)
qed

lemma mix_unmix: "jhash_mix (jhash_unmix abc) = abc"
proof -
  obtain a b c where abc: "abc = (a, b, c)" by (cases abc) auto
  obtain c1 b1 where 1: "junmix 4 c a b = (c1, b1)" by fastforce
  obtain b2 a2 where 2: "junmix 19 b1 c1 a = (b2, a2)" by fastforce
  obtain a3 c3 where 3: "junmix 16 a2 b2 c1 = (a3, c3)" by fastforce
  obtain c4 b4 where 4: "junmix 8 c3 a3 b2 = (c4, b4)" by fastforce
  obtain b5 a5 where 5: "junmix 6 b4 c4 a3 = (b5, a5)" by fastforce
  obtain a6 c6 where 6: "junmix 4 a5 b5 c4 = (a6, c6)" by fastforce
  have "jhash_unmix abc = (a6, b5, c6)" by (simp add: jhash_unmix_def abc 1 2 3 4 5 6)
  then show ?thesis using 1 2 3 4 5 6 by (simp add: jhash_mix_def abc flip: jmix_unmix)
qed

text \<open>the mixing step of lookup3 and its final step lose nothing, as the comment on the former
  promises: both are bijections of the three state words.\<close>

theorem jhash_mix_bijective:
  "jhash_unmix (jhash_mix abc) = abc \<and> jhash_mix (jhash_unmix abc) = abc \<and>
   jhash_unfinal (jhash_final abc) = abc \<and> jhash_final (jhash_unfinal abc) = abc"
  by (cases abc) (simp add: unmix_mix mix_unmix jhash_final_def jhash_unfinal_def Let_def)

section \<open>djb2: facts\<close>

lemma times33: "push_bit 5 v + v = 33 * v" for v :: u64
  by (simp add: push_bit_eq_mult)

lemma times33_inj: "33 * v = 33 * w \<longleftrightarrow> v = w" for v w :: u64
proof
  assume "33 * v = 33 * w"
  then have "(0xF83E0F83E0F83E1 * 33) * v = (0xF83E0F83E0F83E1 * 33) * w" by (simp only: mult.assoc)
  moreover have "0xF83E0F83E0F83E1 * 33 = (1 :: u64)" by code_simp
  ultimately show "v = w" by (simp only: mult_1)
qed simp

lemma djb2_step_inj: "(push_bit 5 v + v) XOR x = (push_bit 5 w + w) XOR x \<longleftrightarrow> v = w" for v w x :: u64
  by (metis times33 times33_inj xor_cancel)

lemma djb2_loop_inj: "djb2_loop v s = djb2_loop w s \<longleftrightarrow> v = w"
proof (induction s arbitrary: v w)
  case (Cons c s)
  then show ?case by (simp add: djb2_step_inj)
qed simp

lemma djb2_loop_append: "djb2_loop v (s @ t) = djb2_loop (djb2_loop v s) t"
  by (induction s arbitrary: v) auto

lemma char_byte_inj: "char_byte c = char_byte d \<longleftrightarrow> c = d"
proof
  assume "char_byte c = char_byte d"
  then have "unat (char_byte c) = unat (char_byte d)" by simp
  then have "of_char c = (of_char d :: nat)" by (simp add: char_byte_def unat_of_nat take_bit_eq_mod)
  then show "c = d" by simp
qed simp

lemma scast_byte_inj: "scast (a :: u8) = (scast (b :: u8) :: u64) \<longleftrightarrow> a = b"
proof
  assume h: "(scast a :: u64) = scast b"
  have u: "ucast (scast x :: u64) = x" for x :: u8
  proof (rule bit_word_eqI)
    fix n assume "n < LENGTH(8)"
    then have "n < 7 \<or> n = 7" by auto
    then show "bit (ucast (scast x :: u64) :: u8) n = bit x n" by (auto simp: bit_simps min_def)
  qed
  have "ucast (scast a :: u64) = (ucast (scast b :: u64) :: u8)" using h by simp
  then show "a = b" unfolding u .
qed simp

text \<open>djb2 never forgets: appending the same suffix keeps different hashes different, and two strings
  that differ in one byte only have different hashes, whatever the byte's position.\<close>

theorem HXhash_djb2_one_byte:
  "(HXhash_djb2 (p @ s) = HXhash_djb2 (q @ s) \<longleftrightarrow> HXhash_djb2 p = HXhash_djb2 q) \<and>
   (HXhash_djb2 (p @ c # s) = HXhash_djb2 (p @ d # s) \<longleftrightarrow> c = d)"
proof -
  have "(x XOR y = x XOR z) = (y = z)" for x y z :: u64
    by (metis xor.assoc xor.commute xor_cancel)
  then show ?thesis
    by (simp add: HXhash_djb2_def djb2_loop_append djb2_loop_inj scast_byte_inj char_byte_inj)
qed

end
