(* ===== verification/HX_Mapops.thy ===== *)
theory HX_Mapops
  imports HX_Hash
begin

text \<open>
  What both map implementations of \<^verbatim>\<open>src/map.c\<close> share: the flags, the table of operations on keys
  and data with its set-up, and the record of what has been released.

  A key or data pointer is an \<open>option\<close>, \<open>None\<close> being \<^verbatim>\<open>NULL\<close>; what it designates is the type
  parameter. The element sizes that the code passes to every operation are constant for a map, so the
  functions of the table are taken to be applied to them already. A destructor is present or
  absent; the values it receives are recorded as events.
\<close>

section \<open>Flags\<close>

definition HXMAP_NOREPLACE :: u32 where "HXMAP_NOREPLACE = 1"
definition HXMAP_SINGULAR :: u32 where "HXMAP_SINGULAR = 2"
definition HXMAP_SKEY :: u32 where "HXMAP_SKEY = 4"
definition HXMAP_CKEY :: u32 where "HXMAP_CKEY = 8"
definition HXMAP_SDATA :: u32 where "HXMAP_SDATA = 16"
definition HXMAP_CDATA :: u32 where "HXMAP_CDATA = 32"
definition HXMAP_SCKEY :: u32 where "HXMAP_SCKEY = HXMAP_SKEY OR HXMAP_CKEY"
definition HXMAP_SCDATA :: u32 where "HXMAP_SCDATA = HXMAP_SDATA OR HXMAP_CDATA"
definition HXMAP_DTRAV :: u32 where "HXMAP_DTRAV = 1"

lemmas map_flags = HXMAP_NOREPLACE_def HXMAP_SINGULAR_def HXMAP_SKEY_def HXMAP_CKEY_def
  HXMAP_SDATA_def HXMAP_CDATA_def HXMAP_SCKEY_def HXMAP_SCDATA_def HXMAP_DTRAV_def

definition has_flag :: "u32 \<Rightarrow> u32 \<Rightarrow> bool" where
  "has_flag flags f \<longleftrightarrow> flags AND f \<noteq> 0"

section \<open>Operation table\<close>

record ('k, 'd) HXmap_ops =
  k_compare :: "'k option \<Rightarrow> 'k option \<Rightarrow> int"
  k_clone :: "'k option \<Rightarrow> 'k option"
  k_free :: bool
  d_clone :: "'d option \<Rightarrow> 'd option"
  d_free :: bool
  k_hash :: "'k option \<Rightarrow> u64"

text \<open>The caller's table, in which every entry may be \<^verbatim>\<open>NULL\<close>, and the functions of the library and
  of the C library among which the set-up chooses.\<close>

record ('k, 'd) user_ops =
  n_compare :: "('k option \<Rightarrow> 'k option \<Rightarrow> int) option"
  n_kclone :: "('k option \<Rightarrow> 'k option) option"
  n_kfree :: bool
  n_dclone :: "('d option \<Rightarrow> 'd option) option"
  n_dfree :: bool
  n_hash :: "('k option \<Rightarrow> u64) option"

record ('k, 'd) std_fns =
  f_strcmp :: "'k option \<Rightarrow> 'k option \<Rightarrow> int"
  f_memcmp :: "'k option \<Rightarrow> 'k option \<Rightarrow> int"
  f_valuecmp :: "'k option \<Rightarrow> 'k option \<Rightarrow> int"
  f_kstrdup :: "'k option \<Rightarrow> 'k option"
  f_kmemdup :: "'k option \<Rightarrow> 'k option"
  f_dstrdup :: "'d option \<Rightarrow> 'd option"
  f_dmemdup :: "'d option \<Rightarrow> 'd option"
  f_djb2 :: "'k option \<Rightarrow> u64"
  f_jlookup3 :: "'k option \<Rightarrow> u64"
  f_jlookup3v :: "'k option \<Rightarrow> u64"

definition HXmap_valuecpy :: "'a option \<Rightarrow> 'a option" where
  "HXmap_valuecpy p = p"

definition HXmap_valuecmp :: "u64 option \<Rightarrow> u64 option \<Rightarrow> int" where
  "HXmap_valuecmp pa pb =
     (let a = (case pa of None \<Rightarrow> 0 | Some a \<Rightarrow> a); b = (case pb of None \<Rightarrow> 0 | Some b \<Rightarrow> b) in
      if a > b then 1 else if a < b then -1 else 0)"

definition or_user :: "'a \<Rightarrow> 'a option \<Rightarrow> 'a" where
  "or_user f g = (case g of None \<Rightarrow> f | Some h \<Rightarrow> h)"

definition HXmap_ops_setup ::
  "('k, 'd) std_fns \<Rightarrow> bool \<Rightarrow> u32 \<Rightarrow> u64 \<Rightarrow> ('k, 'd) user_ops option \<Rightarrow> ('k, 'd) HXmap_ops" where
  "HXmap_ops_setup std is_hash flags key_size new_ops =
     (let ops = \<lparr>
        k_compare = (if has_flag flags HXMAP_SKEY then f_strcmp std
          else if key_size = 0 then f_valuecmp std else f_memcmp std),
        k_clone = (if has_flag flags HXMAP_CKEY
          then (if has_flag flags HXMAP_SKEY then f_kstrdup std else f_kmemdup std)
          else HXmap_valuecpy),
        k_free = has_flag flags HXMAP_CKEY,
        d_clone = (if has_flag flags HXMAP_CDATA
          then (if has_flag flags HXMAP_SDATA then f_dstrdup std else f_dmemdup std)
          else HXmap_valuecpy),
        d_free = has_flag flags HXMAP_CDATA,
        k_hash = (if is_hash
          then (if has_flag flags HXMAP_SKEY then f_djb2 std
            else if key_size \<noteq> 0 then f_jlookup3 std else f_jlookup3v std)
          else (\<lambda>_. 0)) \<rparr>
      in case new_ops of
        None \<Rightarrow> ops
      | Some n \<Rightarrow> \<lparr>
          k_compare = or_user (k_compare ops) (n_compare n),
          k_clone = or_user (k_clone ops) (n_kclone n),
          k_free = (k_free ops \<or> n_kfree n),
          d_clone = or_user (d_clone ops) (n_dclone n),
          d_free = (d_free ops \<or> n_dfree n),
          k_hash = (if is_hash then or_user (k_hash ops) (n_hash n) else k_hash ops) \<rparr>)"

section \<open>Released storage\<close>

text \<open>\<open>EvDFreeKey\<close> is the data destructor applied to a key pointer.\<close>

datatype ('k, 'd) ev =
    EvKFree "'k option" | EvDFree "'d option" | EvDFreeKey "'k option" | EvNode addr

definition kfree :: "('k, 'd) HXmap_ops \<Rightarrow> 'k option \<Rightarrow> ('k, 'd) ev list" where
  "kfree ops k = (if k_free ops then [EvKFree k] else [])"

definition dfree :: "('k, 'd) HXmap_ops \<Rightarrow> 'd option \<Rightarrow> ('k, 'd) ev list" where
  "dfree ops d = (if d_free ops then [EvDFree d] else [])"

text \<open>A clone failed when it is \<^verbatim>\<open>NULL\<close> and its original is not.\<close>

definition clone_failed :: "'a option \<Rightarrow> 'a option \<Rightarrow> bool" where
  "clone_failed c orig \<longleftrightarrow> c = None \<and> orig \<noteq> None"

section \<open>What the maps rely on\<close>

text \<open>
  \<open>key_eq\<close> is the equality the comparison function induces. \<open>hash_laws\<close>: on valid keys it is an
  equivalence, the hash function respects it, and a successful clone is valid and equal to its original.
  \<open>order_laws\<close>: the comparison is a total preorder with a consistent sign.
\<close>

definition key_eq :: "('k, 'd) HXmap_ops \<Rightarrow> 'k option \<Rightarrow> 'k option \<Rightarrow> bool" where
  "key_eq ops a b \<longleftrightarrow> k_compare ops a b = 0"

definition clone_law :: "('k, 'd) HXmap_ops \<Rightarrow> ('k option \<Rightarrow> bool) \<Rightarrow> bool" where
  "clone_law ops V \<longleftrightarrow>
     (\<forall>a. V a \<longrightarrow> \<not> clone_failed (k_clone ops a) a \<longrightarrow> V (k_clone ops a) \<and> k_compare ops (k_clone ops a) a = 0)"

definition hash_laws :: "('k, 'd) HXmap_ops \<Rightarrow> ('k option \<Rightarrow> bool) \<Rightarrow> bool" where
  "hash_laws ops V \<longleftrightarrow>
     (\<forall>a. V a \<longrightarrow> k_compare ops a a = 0) \<and>
     (\<forall>a b. V a \<longrightarrow> V b \<longrightarrow> k_compare ops a b = 0 \<longrightarrow> k_compare ops b a = 0 \<and> k_hash ops a = k_hash ops b) \<and>
     (\<forall>a b c. V a \<longrightarrow> V b \<longrightarrow> V c \<longrightarrow> k_compare ops a b = 0 \<longrightarrow> k_compare ops b c = 0 \<longrightarrow> k_compare ops a c = 0) \<and>
     clone_law ops V"

definition order_laws :: "('k, 'd) HXmap_ops \<Rightarrow> ('k option \<Rightarrow> bool) \<Rightarrow> bool" where
  "order_laws ops V \<longleftrightarrow>
     (\<forall>a b. V a \<longrightarrow> V b \<longrightarrow> (k_compare ops a b > 0 \<longleftrightarrow> k_compare ops b a < 0)) \<and>
     (\<forall>a b c. V a \<longrightarrow> V b \<longrightarrow> V c \<longrightarrow> k_compare ops a b \<le> 0 \<longrightarrow> k_compare ops b c \<le> 0 \<longrightarrow> k_compare ops a c \<le> 0) \<and>
     clone_law ops V"

section \<open>Lookups over a set of entries\<close>

text \<open>\<open>lookup_in\<close>: the entries have valid keys, no two of them equal ones, and \<open>g\<close> answers a valid key with the
  data of the entry that carries an equal key. An operation on \<open>k\<close> that leaves the entries with other keys
  alone changes \<open>g\<close> at the keys equal to \<open>k\<close> only.\<close>

definition eq_laws :: "('k, 'd) HXmap_ops \<Rightarrow> ('k option \<Rightarrow> bool) \<Rightarrow> bool" where
  "eq_laws ops V \<longleftrightarrow> (\<forall>a. V a \<longrightarrow> key_eq ops a a) \<and>
     (\<forall>a b. V a \<longrightarrow> V b \<longrightarrow> key_eq ops a b \<longrightarrow> key_eq ops b a) \<and>
     (\<forall>a b c. V a \<longrightarrow> V b \<longrightarrow> V c \<longrightarrow> key_eq ops a b \<longrightarrow> key_eq ops b c \<longrightarrow> key_eq ops a c)"

lemma eq_lawsD:
  assumes "eq_laws ops V" "V a" "V b"
  shows "key_eq ops a a" "key_eq ops a b \<Longrightarrow> key_eq ops b a"
    "V c \<Longrightarrow> key_eq ops a b \<Longrightarrow> key_eq ops b c \<Longrightarrow> key_eq ops a c"
  using assms unfolding eq_laws_def by meson+

definition lookup_in ::
  "('k, 'd) HXmap_ops \<Rightarrow> ('k option \<Rightarrow> bool) \<Rightarrow> ('e \<Rightarrow> 'k option) \<Rightarrow> ('e \<Rightarrow> 'd option) \<Rightarrow> 'e set \<Rightarrow>
     ('k option \<Rightarrow> 'd option option) \<Rightarrow> bool" where
  "lookup_in ops V key data E g \<longleftrightarrow> (\<forall>e \<in> E. V (key e)) \<and>
     (\<forall>e \<in> E. \<forall>e' \<in> E. key_eq ops (key e) (key e') \<longrightarrow> e = e') \<and>
     (\<forall>e \<in> E. \<forall>k. V k \<longrightarrow> key_eq ops k (key e) \<longrightarrow> g k = Some (data e)) \<and>
     (\<forall>k. V k \<longrightarrow> (\<forall>e \<in> E. \<not> key_eq ops k (key e)) \<longrightarrow> g k = None)"

lemma lookup_inD:
  assumes "lookup_in ops V key data E g"
  shows "e \<in> E \<Longrightarrow> V (key e)" "e \<in> E \<Longrightarrow> V k \<Longrightarrow> key_eq ops k (key e) \<Longrightarrow> g k = Some (data e)"
    "V k \<Longrightarrow> \<forall>e \<in> E. \<not> key_eq ops k (key e) \<Longrightarrow> g k = None"
proof -
  note l = assms [unfolded lookup_in_def]
  show "e \<in> E \<Longrightarrow> V (key e)" by (rule l [THEN conjunct1, rule_format])
  show "e \<in> E \<Longrightarrow> V k \<Longrightarrow> key_eq ops k (key e) \<Longrightarrow> g k = Some (data e)"
    by (rule l [THEN conjunct2, THEN conjunct2, THEN conjunct1, rule_format])
  show "V k \<Longrightarrow> \<forall>e \<in> E. \<not> key_eq ops k (key e) \<Longrightarrow> g k = None"
    by (rule l [THEN conjunct2, THEN conjunct2, THEN conjunct2, rule_format]) blast+
qed

lemma lookup_other:
  assumes q: "eq_laws ops V" and l: "lookup_in ops V key data E g" "lookup_in ops V key data E' g'"
    and k: "V k" "V x" and o: "{e \<in> E'. \<not> key_eq ops k (key e)} = {e \<in> E. \<not> key_eq ops k (key e)}"
    and x: "\<not> key_eq ops x k"
  shows "g' x = g x"
proof -
  have no: "\<not> key_eq ops k (key e)" if e: "key_eq ops x (key e)" "V (key e)" for e
  proof
    assume "key_eq ops k (key e)"
    then have "key_eq ops (key e) k" by (rule eq_lawsD(2) [OF q k(1) e(2)])
    then show False using x eq_lawsD(3) [OF q k(2) e(2) k(1) e(1)] by blast
  qed
  have V: "V (key e)" if "e \<in> E \<or> e \<in> E'" for e using lookup_inD(1) [OF l(1)] lookup_inD(1) [OF l(2)] that by blast
  show ?thesis
  proof (cases "\<exists>e \<in> E. key_eq ops x (key e)")
    case True
    then obtain e where e: "e \<in> E" "key_eq ops x (key e)" by blast
    then have "e \<in> E'" using no [OF e(2)] V o by blast
    then show ?thesis using lookup_inD(2) [OF l(1) e(1) k(2) e(2)] lookup_inD(2) [OF l(2) _ k(2) e(2)] by simp
  next
    case False
    then have "\<forall>e \<in> E'. \<not> key_eq ops x (key e)" using no V o by blast
    then show ?thesis using False lookup_inD(3) [OF l(1) k(2)] lookup_inD(3) [OF l(2) k(2)] by simp
  qed
qed

lemma lookup_set:
  assumes q: "eq_laws ops V" and l: "lookup_in ops V key data E g" "lookup_in ops V key data E' g'"
    and k: "V k" "V x" and o: "{e \<in> E'. \<not> key_eq ops k (key e)} = {e \<in> E. \<not> key_eq ops k (key e)}"
    and n: "n \<in> E'" "key_eq ops k (key n)"
  shows "g' x = (if key_eq ops x k then Some (data n) else g x)"
proof (cases "key_eq ops x k")
  case True
  have "V (key n)" by (rule lookup_inD(1) [OF l(2) n(1)])
  then have "key_eq ops x (key n)" using eq_lawsD(3) [OF q k(2,1)] True n(2) by blast
  then show ?thesis using True lookup_inD(2) [OF l(2) n(1) k(2)] by simp
next
  case False
  then show ?thesis using lookup_other [OF q l k o False] by simp
qed

lemma lookup_unset:
  assumes q: "eq_laws ops V" and l: "lookup_in ops V key data E g" "lookup_in ops V key data E' g'"
    and k: "V k" "V x" and o: "{e \<in> E. \<not> key_eq ops k (key e)} = E'"
  shows "g' x = (if key_eq ops x k then None else g x)"
proof (cases "key_eq ops x k")
  case True
  have "\<not> key_eq ops x (key e)" if e: "e \<in> E'" for e
  proof
    assume xe: "key_eq ops x (key e)"
    have "V (key e)" by (rule lookup_inD(1) [OF l(2) e])
    then have "key_eq ops k (key e)" using eq_lawsD(3) [OF q k(1,2)] eq_lawsD(2) [OF q k(2,1) True] xe by blast
    then show False using e o by blast
  qed
  then show ?thesis using True lookup_inD(3) [OF l(2) k(2)] by simp
next
  case False
  have "{e \<in> E'. \<not> key_eq ops k (key e)} = {e \<in> E. \<not> key_eq ops k (key e)}" using o by blast
  from lookup_other [OF q l k this False] show ?thesis using False by simp
qed

section \<open>Maps of pointer values\<close>

text \<open>Maps whose keys and data are the pointer values themselves, as with \<^verbatim>\<open>HXmap_init (type, 0)\<close>: the entries
  that take what a pointer designates are not selected.\<close>

definition val_std :: "(u64, u64) std_fns" where
  "val_std = \<lparr>
     f_strcmp = HXmap_valuecmp, f_memcmp = HXmap_valuecmp, f_valuecmp = HXmap_valuecmp,
     f_kstrdup = HXmap_valuecpy, f_kmemdup = HXmap_valuecpy, f_dstrdup = HXmap_valuecpy, f_dmemdup = HXmap_valuecpy,
     f_djb2 = (\<lambda>_. 0), f_jlookup3 = (\<lambda>_. 0),
     f_jlookup3v = (\<lambda>k. HXhash_jlookup3v (case k of None \<Rightarrow> 0 | Some w \<Rightarrow> w)) \<rparr>"

abbreviation pval :: "u64 option \<Rightarrow> u64" where
  "pval p \<equiv> (case p of None \<Rightarrow> 0 | Some w \<Rightarrow> w)"

lemma valuecmp_eq: "HXmap_valuecmp a b = 0 \<longleftrightarrow> pval a = pval b"
proof -
  have "(if y < x then 1 else if x < y then -1 else (0 :: int)) = 0 \<longleftrightarrow> x = y" for x y :: u64 by auto
  then show ?thesis by (simp add: HXmap_valuecmp_def Let_def)
qed

lemma valuecmp_sign: "HXmap_valuecmp a b > 0 \<longleftrightarrow> pval b < pval a" "HXmap_valuecmp a b < 0 \<longleftrightarrow> pval a < pval b"
  "HXmap_valuecmp a b \<le> 0 \<longleftrightarrow> pval a \<le> pval b"
  by (auto simp: HXmap_valuecmp_def Let_def)

lemma val_hash_laws: "hash_laws (HXmap_ops_setup val_std True 0 0 None) (\<lambda>_. True)"
  by (simp add: hash_laws_def clone_law_def HXmap_ops_setup_def val_std_def has_flag_def valuecmp_eq HXmap_valuecpy_def
      Let_def map_flags)

lemma val_order_laws: "order_laws (HXmap_ops_setup val_std False 0 0 None) (\<lambda>_. True)"
  by (auto simp: order_laws_def clone_law_def HXmap_ops_setup_def val_std_def has_flag_def HXmap_valuecpy_def
      valuecmp_sign valuecmp_eq Let_def map_flags)

end
