(* ===== verification/HX_Umap.thy ===== *)
theory HX_Umap
  imports HX_Contracts HX_Mapops "HOL-Library.Multiset"
begin

text \<open>
  The hash map of \<^verbatim>\<open>src/map.c\<close> (\<^verbatim>\<open>HXumap_*\<close>): chained buckets whose number is a prime from
  \<open>HXhash_primes\<close>, enlarged and shrunk with the load.

  A bucket is the list of its nodes, in ring order: by the lemmas of \<open>HX_List\<close>, \<open>HXlist_add_tail\<close>
  appends, \<open>HXlist_del\<close> takes out the designated node, and the safe iteration visits every node also
  when the body unlinks it. A node carries its address, which is its identity for deletion and for
  traversal. Allocation results are arguments; an operation returns \<open>None\<close> when it reads a bucket
  that does not exist, otherwise its result, the map afterwards and the storage released.
\<close>

section \<open>Nodes and maps\<close>

record ('k, 'd) HXumap_node =
  u_addr :: addr
  u_key :: "'k option"
  u_data :: "'d option"

record ('k, 'd) HXumap =
  u_items :: u64
  u_flags :: u32
  u_ops :: "('k, 'd) HXmap_ops"
  bk_array :: "('k, 'd) HXumap_node list list option"
  power :: nat
  max_load :: u32
  min_load :: u32
  u_tid :: u32

text \<open>The buckets a loop \<^verbatim>\<open>for (i = 0; i < HXhash_primes[hmap->power]; ++i)\<close> visits.\<close>

definition buckets :: "('k, 'd) HXumap \<Rightarrow> ('k, 'd) HXumap_node list list option" where
  "buckets m =
     (case bk_array m of None \<Rightarrow> None
      | Some bs \<Rightarrow>
          if power m < length HXhash_primes \<and> HXhash_primes ! power m \<le> length bs
          then Some (take (HXhash_primes ! power m) bs) else None)"

definition bk_index :: "('k, 'd) HXmap_ops \<Rightarrow> nat \<Rightarrow> 'k option \<Rightarrow> nat" where
  "bk_index ops n key = unat (k_hash ops key) mod n"

section \<open>Laying out the buckets\<close>

definition bk_add_tail :: "('k, 'd) HXumap_node list list \<Rightarrow> nat \<Rightarrow> ('k, 'd) HXumap_node \<Rightarrow> ('k, 'd) HXumap_node list list" where
  "bk_add_tail bs i n = bs[i := bs ! i @ [n]]"

text \<open>Every node of the old buckets, in order, goes to the end of its new bucket.\<close>

definition HXumap_move ::
  "('k, 'd) HXumap_node list list \<Rightarrow> nat \<Rightarrow> ('k, 'd) HXmap_ops \<Rightarrow> ('k, 'd) HXumap_node list list \<Rightarrow>
     ('k, 'd) HXumap_node list list" where
  "HXumap_move bk bk_number ops old =
     foldl (\<lambda>bk nd. bk_add_tail bk (bk_index ops bk_number (u_key nd)) nd) bk (concat old)"

definition HXumap_layout ::
  "bool \<Rightarrow> ('k, 'd) HXumap \<Rightarrow> nat \<Rightarrow> ((errno + unit) \<times> ('k, 'd) HXumap) option" where
  "HXumap_layout ok m p =
     (let bk_number = HXhash_primes ! p in
      if \<not> ok then Some (Inl ENOMEM, m)
      else do {
        m \<leftarrow> (if bk_array m = None then Some (m\<lparr>bk_array := Some (replicate bk_number [])\<rparr>)
             else do {
               old \<leftarrow> buckets m;
               Some (m\<lparr>bk_array := Some (HXumap_move (replicate bk_number []) bk_number (u_ops m) old),
                       u_tid := u_tid m + 1\<rparr>)
             });
        Some (Inr (), m\<lparr>
          power := p,
          min_load := (if p \<noteq> 0 then of_nat (HXhash_primes ! p) div 4 else 0),
          max_load := x_frac 7 10 (of_nat (HXhash_primes ! p)) \<rparr>)
      })"

section \<open>Destruction and construction\<close>

definition HXumap_free :: "('k, 'd) HXumap \<Rightarrow> ('k, 'd) ev list option" where
  "HXumap_free m = do {
     bs \<leftarrow> buckets m;
     Some (concat (map (\<lambda>n. kfree (u_ops m) (u_key n) @ dfree (u_ops m) (u_data n) @ [EvNode (u_addr n)])
       (concat bs)))
   }"

text \<open>\<open>Some None\<close> is \<^verbatim>\<open>NULL\<close>. When the bucket array cannot be allocated the error path destroys the
  half-made map.\<close>

definition HXhashmap_init4 ::
  "('k, 'd) std_fns \<Rightarrow> bool \<Rightarrow> bool \<Rightarrow> u32 \<Rightarrow> ('k, 'd) user_ops option \<Rightarrow> u64 \<Rightarrow> ('k, 'd) HXumap option option" where
  "HXhashmap_init4 std ok lay_ok flags ops key_size =
     (if \<not> ok then Some None
      else let m = \<lparr>u_items = 0, u_flags = flags, u_ops = HXmap_ops_setup std True flags key_size ops,
             bk_array = None, power = 0, max_load = 0, min_load = 0, u_tid = 1\<rparr> in
      do {
        (_, m) \<leftarrow> HXumap_layout lay_ok m 0;
        if bk_array m = None then do { _ \<leftarrow> HXumap_free m; Some None }
        else Some (Some m)
      })"

section \<open>Lookup\<close>

definition HXumap_find :: "('k, 'd) HXumap \<Rightarrow> 'k option \<Rightarrow> ('k, 'd) HXumap_node option option" where
  "HXumap_find m key = do {
     bs \<leftarrow> buckets m;
     b \<leftarrow> rd bs (bk_index (u_ops m) (HXhash_primes ! power m) key);
     Some (List.find (\<lambda>nd. k_compare (u_ops m) key (u_key nd) = 0) b)
   }"

section \<open>Addition\<close>

definition set_data :: "addr \<Rightarrow> 'd option \<Rightarrow> ('k, 'd) HXumap_node list list \<Rightarrow> ('k, 'd) HXumap_node list list" where
  "set_data a d bs = map (map (\<lambda>n. if u_addr n = a then n\<lparr>u_data := d\<rparr> else n)) bs"

definition HXumap_replace ::
  "('k, 'd) HXumap \<Rightarrow> ('k, 'd) HXumap_node \<Rightarrow> 'd option \<Rightarrow> (errno + unit) \<times> ('k, 'd) HXumap \<times> ('k, 'd) ev list" where
  "HXumap_replace m nd val =
     (if has_flag (u_flags m) HXMAP_NOREPLACE then (Inl EEXIST, m, [])
      else let new_value = d_clone (u_ops m) val in
        if clone_failed new_value val then (Inl ENOMEM, m, [])
        else (Inr (), m\<lparr>bk_array := map_option (set_data (u_addr nd) new_value) (bk_array m)\<rparr>,
              dfree (u_ops m) (u_data nd)))"

text \<open>\<open>lay_ok\<close> is the allocation of a new bucket array, if one is wanted, \<open>mem\<close> that of the node.
  \<open>HXumap_resize\<close> is the load test at the start of an addition.\<close>

definition HXumap_resize :: "bool \<Rightarrow> ('k, 'd) HXumap \<Rightarrow> ((errno + unit) \<times> ('k, 'd) HXumap) option" where
  "HXumap_resize lay_ok m =
     (if unat (u_items m) \<ge> unat (max_load m) \<and> power m < length HXhash_primes - 1
      then HXumap_layout lay_ok m (power m + 1)
      else if unat (u_items m) < unat (min_load m) \<and> power m > 0
      then HXumap_layout lay_ok m (power m - 1)
      else Some (Inr (), m))"

definition HXumap_add ::
  "('k, 'd) HXumap \<Rightarrow> 'k option \<Rightarrow> 'd option \<Rightarrow> bool \<Rightarrow> ptr \<Rightarrow>
     ((errno + unit) \<times> ('k, 'd) HXumap \<times> ('k, 'd) ev list) option" where
  "HXumap_add m key val lay_ok mem = do {
     f \<leftarrow> HXumap_find m key;
     case f of
       Some nd \<Rightarrow> Some (HXumap_replace m nd val)
     | None \<Rightarrow> do {
         (r, m) \<leftarrow> HXumap_resize lay_ok m;
         case r of
           Inl e \<Rightarrow> Some (Inl e, m, [])
         | Inr _ \<Rightarrow>
             (case mem of
                None \<Rightarrow> Some (Inl ENOMEM, m, [])
              | Some a \<Rightarrow>
                  (let k = k_clone (u_ops m) key in
                   if clone_failed k key then Some (Inl ENOMEM, m, kfree (u_ops m) k @ [EvNode a])
                   else let d = d_clone (u_ops m) val in
                   if clone_failed d val then Some (Inl ENOMEM, m, kfree (u_ops m) k @ [EvNode a])
                   else do {
                     bs \<leftarrow> bk_array m;
                     _ \<leftarrow> rd bs (bk_index (u_ops m) (HXhash_primes ! power m) key);
                     Some (Inr (), m\<lparr>
                       bk_array := Some (bk_add_tail bs (bk_index (u_ops m) (HXhash_primes ! power m) key)
                         \<lparr>u_addr = a, u_key = k, u_data = d\<rparr>),
                       u_items := u_items m + 1 \<rparr>, [])
                   }))
       }
   }"

section \<open>Deletion\<close>

definition bk_del :: "addr \<Rightarrow> ('k, 'd) HXumap_node list list \<Rightarrow> ('k, 'd) HXumap_node list list" where
  "bk_del a bs = map (filter (\<lambda>n. u_addr n \<noteq> a)) bs"

text \<open>A deletion shrinks the table when it can; when it cannot, it goes on with the present one.\<close>

definition HXumap_shrink :: "bool \<Rightarrow> ('k, 'd) HXumap \<Rightarrow> ((errno + unit) \<times> ('k, 'd) HXumap) option" where
  "HXumap_shrink lay_ok m =
     (if unat (u_items m) < unat (min_load m) \<and> power m > 0
      then HXumap_layout lay_ok m (power m - 1) else Some (Inr (), m))"

text \<open>The result: the data pointer, \<^verbatim>\<open>errno\<close> (\<open>None\<close> for 0), the map and what was released.\<close>

definition HXumap_del ::
  "('k, 'd) HXumap \<Rightarrow> 'k option \<Rightarrow> bool \<Rightarrow>
     ('d option \<times> errno option \<times> ('k, 'd) HXumap \<times> ('k, 'd) ev list) option" where
  "HXumap_del m key lay_ok = do {
     f \<leftarrow> HXumap_find m key;
     case f of
       None \<Rightarrow> Some (None, Some ENOENT, m, [])
     | Some nd \<Rightarrow> do {
         let m = m\<lparr>bk_array := map_option (bk_del (u_addr nd)) (bk_array m),
                   u_tid := u_tid m + 1, u_items := u_items m - 1\<rparr>;
         (_, m) \<leftarrow> HXumap_shrink lay_ok m;
         Some (u_data nd, None, m,
           kfree (u_ops m) (u_key nd) @ dfree (u_ops m) (u_data nd) @ [EvNode (u_addr nd)])
       }
   }"

section \<open>Enumeration\<close>

text \<open>The array of \<open>HXmap_keysvalues\<close> has as many slots as the map claims items.\<close>

definition HXumap_keysvalues :: "('k, 'd) HXumap \<Rightarrow> ('k option \<times> 'd option) list option" where
  "HXumap_keysvalues m = do {
     bs \<leftarrow> buckets m;
     let kv = map (\<lambda>n. (u_key n, u_data n)) (concat bs);
     if length kv > unat (u_items m) then None else Some kv
   }"

fun qfe_loop :: "('n \<Rightarrow> 's \<Rightarrow> bool \<times> 's) \<Rightarrow> 'n list \<Rightarrow> 's \<Rightarrow> 's" where
  "qfe_loop fn [] arg = arg"
| "qfe_loop fn (n # ns) arg = (let (c, arg) = fn n arg in if c then qfe_loop fn ns arg else arg)"

definition HXumap_qfe ::
  "('k, 'd) HXumap \<Rightarrow> ('k option \<times> 'd option \<Rightarrow> 's \<Rightarrow> bool \<times> 's) \<Rightarrow> 's \<Rightarrow> 's option" where
  "HXumap_qfe m fn arg = do {
     bs \<leftarrow> buckets m;
     Some (qfe_loop (\<lambda>n. fn (u_key n, u_data n)) (concat bs) arg)
   }"

section \<open>Traversal\<close>

text \<open>\<open>trav->head\<close> is \<^verbatim>\<open>NULL\<close>, the head of a bucket, or a node.\<close>

datatype hd_ptr = H_null | H_bucket nat | H_node addr

record HXumap_trav =
  t_flags :: u32
  t_head :: hd_ptr
  bk_current :: nat
  t_tid :: u32

definition HXumap_travinit :: "bool \<Rightarrow> ('k, 'd) HXumap \<Rightarrow> u32 \<Rightarrow> HXumap_trav option" where
  "HXumap_travinit ok m flags =
     (if ok then Some \<lparr>t_flags = flags AND NOT HXMAP_DTRAV, t_head = H_null, bk_current = 0, t_tid = u_tid m\<rparr>
      else None)"

text \<open>The \<^verbatim>\<open>next\<close> pointer of a bucket head, and of a node inside its bucket (a node that is in no
  bucket has been released).\<close>

definition bk_first :: "('k, 'd) HXumap_node list list \<Rightarrow> nat \<Rightarrow> hd_ptr option" where
  "bk_first bs i = do {
     b \<leftarrow> rd bs i;
     Some (case b of [] \<Rightarrow> H_bucket i | n # _ \<Rightarrow> H_node (u_addr n))
   }"

fun node_next :: "addr \<Rightarrow> hd_ptr \<Rightarrow> ('k, 'd) HXumap_node list \<Rightarrow> hd_ptr option" where
  "node_next a end [] = None"
| "node_next a end (n # ns) =
     (if u_addr n = a then Some (case ns of [] \<Rightarrow> end | n' # _ \<Rightarrow> H_node (u_addr n'))
      else node_next a end ns)"

definition head_next :: "('k, 'd) HXumap_node list list \<Rightarrow> hd_ptr \<Rightarrow> nat \<Rightarrow> hd_ptr option" where
  "head_next bs h cur =
     (case h of H_null \<Rightarrow> None
      | H_bucket i \<Rightarrow> bk_first bs i
      | H_node a \<Rightarrow> (case rd bs cur of None \<Rightarrow> None | Some b \<Rightarrow> node_next a (H_bucket cur) b))"

text \<open>The inner loop over empty buckets, and one step of the traverser. The second component of the
  result is the node the caller sees.\<close>

function trav_skip ::
  "('k, 'd) HXumap_node list list \<Rightarrow> nat \<Rightarrow> HXumap_trav \<Rightarrow> (HXumap_trav \<times> bool) option" where
  "trav_skip bs n t =
     (if t_head t = H_bucket (bk_current t) then
        let t = t\<lparr>bk_current := bk_current t + 1\<rparr> in
        if bk_current t \<ge> n then Some (t, False)
        else (case bk_first bs (bk_current t) of None \<Rightarrow> None
              | Some h \<Rightarrow> trav_skip bs n (t\<lparr>t_head := h\<rparr>))
      else Some (t, True))"
  by pat_completeness auto
termination by (relation "measure (\<lambda>(bs, n, t). n - bk_current t)") auto

declare trav_skip.simps [simp del]

definition find_addr :: "('k, 'd) HXumap_node list list \<Rightarrow> addr \<Rightarrow> ('k, 'd) HXumap_node option" where
  "find_addr bs a = List.find (\<lambda>n. u_addr n = a) (concat bs)"

definition trav_out ::
  "('k, 'd) HXumap_node list list \<Rightarrow> nat \<Rightarrow> HXumap_trav \<Rightarrow> (HXumap_trav \<times> ('k, 'd) HXumap_node option) option" where
  "trav_out bs n t = do {
     (t, more) \<leftarrow> trav_skip bs n t;
     if \<not> more then Some (t, None)
     else (case t_head t of
         H_node a \<Rightarrow> (case find_addr bs a of None \<Rightarrow> None | Some nd \<Rightarrow> Some (t, Some nd))
       | _ \<Rightarrow> None)
   }"

definition HXumap_traverse ::
  "('k, 'd) HXumap \<Rightarrow> HXumap_trav \<Rightarrow> (HXumap_trav \<times> ('k, 'd) HXumap_node option) option" where
  "HXumap_traverse m t = do {
     bs \<leftarrow> buckets m;
     let n = HXhash_primes ! power m;
     (if t_head t = H_null then do {
        h \<leftarrow> bk_first bs (bk_current t);
        trav_out bs n (t\<lparr>t_head := h\<rparr>)
      }
      else if t_tid t \<noteq> u_tid m then
        (if bk_current t \<ge> n then Some (t, None)
         else trav_out bs n (t\<lparr>t_head := H_bucket (bk_current t), t_tid := u_tid m\<rparr>))
      else do {
        h \<leftarrow> head_next bs (t_head t) (bk_current t);
        trav_out bs n (t\<lparr>t_head := h\<rparr>)
      })
   }"

section \<open>Well-formed maps\<close>

definition u_nodes :: "('k, 'd) HXumap \<Rightarrow> ('k, 'd) HXumap_node list" where
  "u_nodes m = (case bk_array m of None \<Rightarrow> [] | Some bs \<Rightarrow> concat bs)"

definition nodes_ok :: "('k option \<Rightarrow> bool) \<Rightarrow> ('k, 'd) HXmap_ops \<Rightarrow> ('k, 'd) HXumap_node list \<Rightarrow> bool" where
  "nodes_ok V ops xs \<longleftrightarrow> (\<forall>n \<in> set xs. V (u_key n)) \<and> distinct (map u_addr xs) \<and>
     (\<forall>x \<in> set xs. \<forall>y \<in> set xs. key_eq ops (u_key x) (u_key y) \<longrightarrow> x = y)"

definition bk_ok :: "('k, 'd) HXmap_ops \<Rightarrow> nat \<Rightarrow> ('k, 'd) HXumap_node list list \<Rightarrow> bool" where
  "bk_ok ops p bs \<longleftrightarrow> p < length HXhash_primes \<and> length bs = HXhash_primes ! p \<and>
     (\<forall>i < length bs. \<forall>n \<in> set (bs ! i). bk_index ops (length bs) (u_key n) = i)"

definition umap_ok :: "('k option \<Rightarrow> bool) \<Rightarrow> ('k, 'd) HXumap \<Rightarrow> bool" where
  "umap_ok V m \<longleftrightarrow> hash_laws (u_ops m) V \<and>
     (\<exists>bs. bk_array m = Some bs \<and> bk_ok (u_ops m) (power m) bs \<and> nodes_ok V (u_ops m) (concat bs) \<and>
       u_items m = of_nat (length (concat bs)) \<and> length (concat bs) < 2 ^ 64) \<and>
     max_load m = x_frac 7 10 (of_nat (HXhash_primes ! power m)) \<and>
     min_load m = (if power m \<noteq> 0 then of_nat (HXhash_primes ! power m) div 4 else 0)"

definition HXumap_get :: "('k, 'd) HXumap \<Rightarrow> 'k option \<Rightarrow> 'd option option" where
  "HXumap_get m k = (case HXumap_find m k of Some (Some n) \<Rightarrow> Some (u_data n) | _ \<Rightarrow> None)"

lemma nodes_ok_mset: "mset xs = mset ys \<Longrightarrow> nodes_ok V ops xs \<longleftrightarrow> nodes_ok V ops ys"
proof -
  assume m: "mset xs = mset ys"
  then have "mset (map u_addr xs) = mset (map u_addr ys)" by simp
  then have "distinct (map u_addr xs) \<longleftrightarrow> distinct (map u_addr ys)" by (metis mset_eq_imp_distinct_iff)
  moreover have "set xs = set ys" using m by (metis set_mset_mset)
  ultimately show ?thesis by (simp add: nodes_ok_def)
qed

lemma prime_pos: "p < length HXhash_primes \<Longrightarrow> 0 < HXhash_primes ! p"
  using primes_range [of p] by simp

lemma bk_index_less: "p < length HXhash_primes \<Longrightarrow> bk_index ops (HXhash_primes ! p) k < HXhash_primes ! p"
  using prime_pos by (simp add: bk_index_def)

lemma buckets_ok: "bk_array m = Some bs \<Longrightarrow> bk_ok (u_ops m) (power m) bs \<Longrightarrow> buckets m = Some bs"
  by (simp add: buckets_def bk_ok_def)

lemma concat_update:
  "i < length bs \<Longrightarrow> mset (concat (bs[i := x])) + mset (bs ! i) = mset (concat bs) + mset x"
proof -
  assume i: "i < length bs"
  have "mset (concat bs) = mset (concat (take i bs @ bs ! i # drop (Suc i) bs))"
    using id_take_nth_drop [OF i] by simp
  moreover have "bs[i := x] = take i bs @ x # drop (Suc i) bs" by (rule upd_conv_take_nth_drop [OF i])
  ultimately show ?thesis by simp
qed

lemma add_tail_mset: "i < length bs \<Longrightarrow> mset (concat (bk_add_tail bs i n)) = add_mset n (mset (concat bs))"
  using concat_update [of i bs "bs ! i @ [n]"] by (simp add: bk_add_tail_def)

lemma move_spec:
  assumes "\<forall>n \<in> set ns. f n < length bk"
  shows "length (foldl (\<lambda>bk n. bk_add_tail bk (f n) n) bk ns) = length bk \<and>
    (\<forall>i < length bk. foldl (\<lambda>bk n. bk_add_tail bk (f n) n) bk ns ! i = bk ! i @ filter (\<lambda>n. f n = i) ns) \<and>
    mset (concat (foldl (\<lambda>bk n. bk_add_tail bk (f n) n) bk ns)) = mset (concat bk) + mset ns"
  using assms
proof (induction ns arbitrary: bk)
  case (Cons n ns)
  let ?b = "bk_add_tail bk (f n) n"
  have l: "length ?b = length bk" by (simp add: bk_add_tail_def)
  have IH: "length (foldl (\<lambda>bk n. bk_add_tail bk (f n) n) ?b ns) = length ?b"
    "\<And>i. i < length ?b \<Longrightarrow> foldl (\<lambda>bk n. bk_add_tail bk (f n) n) ?b ns ! i = ?b ! i @ filter (\<lambda>n. f n = i) ns"
    "mset (concat (foldl (\<lambda>bk n. bk_add_tail bk (f n) n) ?b ns)) = mset (concat ?b) + mset ns"
    using Cons.IH [of ?b] Cons.prems l by auto
  have "?b ! i = bk ! i @ (if f n = i then [n] else [])" if "i < length bk" for i
    using that by (simp add: bk_add_tail_def nth_list_update)
  then have "foldl (\<lambda>bk n. bk_add_tail bk (f n) n) bk (n # ns) ! i = bk ! i @ filter (\<lambda>n. f n = i) (n # ns)"
    if "i < length bk" for i
    using that IH(2) [of i] l by auto
  moreover have "mset (concat ?b) = add_mset n (mset (concat bk))"
    using Cons.prems by (intro add_tail_mset) simp
  ultimately show ?case using IH(1,3) l by simp
qed simp

lemma concat_replicate_Nil: "concat (replicate n []) = []"
  by (induction n) auto

text \<open>Rehashing keeps every node and puts each where a lookup will search for it.\<close>

lemma layout_ok:
  assumes m: "umap_ok V m" and p: "p < length HXhash_primes"
  obtains m' where "HXumap_layout True m p = Some (Inr (), m')" "umap_ok V m'"
    "mset (u_nodes m') = mset (u_nodes m)" "u_ops m' = u_ops m" "u_flags m' = u_flags m"
    "u_items m' = u_items m" "power m' = p"
proof -
  obtain bs where bs: "bk_array m = Some bs" "bk_ok (u_ops m) (power m) bs" "nodes_ok V (u_ops m) (concat bs)"
    "u_items m = of_nat (length (concat bs))" "length (concat bs) < 2 ^ 64"
    and l: "hash_laws (u_ops m) V" using m by (auto simp: umap_ok_def)
  let ?n = "HXhash_primes ! p"
  let ?f = "\<lambda>nd. bk_index (u_ops m) ?n (u_key nd)"
  let ?b = "HXumap_move (replicate ?n []) ?n (u_ops m) bs"
  have mv: "length ?b = ?n" "\<And>i. i < ?n \<Longrightarrow> ?b ! i = filter (\<lambda>n. ?f n = i) (concat bs)"
    "mset (concat ?b) = mset (concat bs)"
    using move_spec [of "concat bs" ?f "replicate ?n []"] bk_index_less [OF p]
    by (auto simp: HXumap_move_def concat_replicate_Nil)
  let ?m = "m\<lparr>bk_array := Some ?b, u_tid := u_tid m + 1, power := p,
    min_load := (if p \<noteq> 0 then of_nat ?n div 4 else 0), max_load := x_frac 7 10 (of_nat ?n)\<rparr>"
  have "bk_ok (u_ops m) p ?b" using mv(1,2) p by (auto simp: bk_ok_def)
  moreover have "nodes_ok V (u_ops m) (concat ?b)" using bs(3) nodes_ok_mset [OF mv(3)] by blast
  moreover have "length (concat ?b) = length (concat bs)" using mv(3) by (metis size_mset)
  ultimately have "umap_ok V ?m" using l bs(4,5) by (simp add: umap_ok_def)
  moreover have "HXumap_layout True m p = Some (Inr (), ?m)"
    using bs(1) buckets_ok [OF bs(1,2)] by (simp add: HXumap_layout_def Let_def)
  moreover have "mset (u_nodes ?m) = mset (u_nodes m)" using mv(3) bs(1) by (simp add: u_nodes_def)
  ultimately show thesis by (intro that [of ?m]) simp_all
qed

lemma layout_fail: "HXumap_layout False m p = Some (Inl ENOMEM, m)"
  by (simp add: HXumap_layout_def Let_def)

section \<open>Lookup\<close>

lemma bk_mem:
  assumes "bk_ok ops p bs" "n \<in> set (concat bs)"
  shows "n \<in> set (bs ! bk_index ops (length bs) (u_key n))"
proof -
  obtain b where "b \<in> set bs" "n \<in> set b" using assms(2) by auto
  then obtain i where "i < length bs" "n \<in> set (bs ! i)" by (metis in_set_conv_nth)
  then show ?thesis using assms(1) by (auto simp: bk_ok_def)
qed

lemma umapD:
  assumes "umap_ok V m"
  obtains bs where "bk_array m = Some bs" "bk_ok (u_ops m) (power m) bs" "nodes_ok V (u_ops m) (concat bs)"
    "u_items m = of_nat (length (concat bs))" "length (concat bs) < 2 ^ 64" "hash_laws (u_ops m) V"
    "u_nodes m = concat bs" "power m < length HXhash_primes" "length bs = HXhash_primes ! power m"
proof -
  obtain bs where bs: "bk_array m = Some bs" "bk_ok (u_ops m) (power m) bs" "nodes_ok V (u_ops m) (concat bs)"
    "u_items m = of_nat (length (concat bs))" "length (concat bs) < 2 ^ 64"
    and h: "hash_laws (u_ops m) V"
    using assms unfolding umap_ok_def by blast
  have "u_nodes m = concat bs" using bs(1) by (simp add: u_nodes_def)
  moreover have "power m < length HXhash_primes" "length bs = HXhash_primes ! power m"
    by (rule bs(2) [unfolded bk_ok_def, THEN conjunct1])
      (rule bs(2) [unfolded bk_ok_def, THEN conjunct2, THEN conjunct1])
  ultimately show thesis by (rule that [OF bs h])
qed

lemma hash_lawsD:
  assumes "hash_laws ops V" "V a" "V b"
  shows "key_eq ops a b \<Longrightarrow> key_eq ops b a" "key_eq ops a b \<Longrightarrow> k_hash ops a = k_hash ops b"
    "key_eq ops a a"
    "V c \<Longrightarrow> key_eq ops a b \<Longrightarrow> key_eq ops b c \<Longrightarrow> key_eq ops a c"
proof -
  note l = assms(1) [unfolded hash_laws_def]
  show "key_eq ops a b \<Longrightarrow> key_eq ops b a" "key_eq ops a b \<Longrightarrow> k_hash ops a = k_hash ops b" "key_eq ops a a"
    using l assms(2,3) unfolding key_eq_def by meson+
  show "V c \<Longrightarrow> key_eq ops a b \<Longrightarrow> key_eq ops b c \<Longrightarrow> key_eq ops a c"
    using l [THEN conjunct2, THEN conjunct2, THEN conjunct1, rule_format] assms(2,3) unfolding key_eq_def by blast
qed

lemma nodes_okD:
  assumes "nodes_ok V ops xs" "x \<in> set xs"
  shows "V (u_key x)" "y \<in> set xs \<Longrightarrow> key_eq ops (u_key x) (u_key y) \<Longrightarrow> y = x"
  using assms by (auto simp: nodes_ok_def)

lemma umap_nodes: "umap_ok V m \<Longrightarrow> nodes_ok V (u_ops m) (u_nodes m)"
  by (erule umapD) simp

lemma find_eq:
  assumes "bk_array m = Some bs" "bk_ok (u_ops m) (power m) bs"
  shows "HXumap_find m k = Some (List.find (\<lambda>nd. k_compare (u_ops m) k (u_key nd) = 0)
    (bs ! bk_index (u_ops m) (length bs) k))"
proof -
  have p: "power m < length HXhash_primes" "length bs = HXhash_primes ! power m"
    by (rule assms(2) [unfolded bk_ok_def, THEN conjunct1])
      (rule assms(2) [unfolded bk_ok_def, THEN conjunct2, THEN conjunct1])
  then have "bk_index (u_ops m) (length bs) k < length bs" using bk_index_less by metis
  then show ?thesis by (simp add: HXumap_find_def buckets_ok [OF assms] p(2) [symmetric] rd_in)
qed

lemma find_some_mem: "List.find P xs = Some x \<Longrightarrow> x \<in> set xs \<and> P x"
  by (induction xs) (auto split: if_splits)

lemma find_spec:
  assumes m: "umap_ok V m" and k: "V k"
  obtains (hit) n where "HXumap_find m k = Some (Some n)" "n \<in> set (u_nodes m)" "key_eq (u_ops m) k (u_key n)"
    "\<And>n'. n' \<in> set (u_nodes m) \<Longrightarrow> key_eq (u_ops m) k (u_key n') \<Longrightarrow> n' = n"
  | (miss) "HXumap_find m k = Some None" "\<And>n. n \<in> set (u_nodes m) \<Longrightarrow> \<not> key_eq (u_ops m) k (u_key n)"
proof -
  obtain bs where bs: "bk_array m = Some bs" "bk_ok (u_ops m) (power m) bs" "nodes_ok V (u_ops m) (concat bs)"
    "u_items m = of_nat (length (concat bs))" "length (concat bs) < 2 ^ 64" "hash_laws (u_ops m) V"
    "u_nodes m = concat bs" "power m < length HXhash_primes" "length bs = HXhash_primes ! power m"
    by (rule umapD [OF m])
  define B where "B = bs ! bk_index (u_ops m) (length bs) k"
  have f: "HXumap_find m k = Some (List.find (\<lambda>nd. k_compare (u_ops m) k (u_key nd) = 0) B)"
    unfolding B_def by (rule find_eq [OF bs(1,2)])
  have here: "n \<in> set B" if n: "n \<in> set (concat bs)" "key_eq (u_ops m) k (u_key n)" for n
    using bk_mem [OF bs(2) n(1)] hash_lawsD(2) [OF bs(6) k nodes_okD(1) [OF bs(3) n(1)] n(2)]
    by (simp add: B_def bk_index_def)
  have sub: "set B \<subseteq> set (concat bs)"
  proof -
    have "bk_index (u_ops m) (length bs) k < length bs" unfolding bs(9) by (rule bk_index_less [OF bs(8)])
    then have "B \<in> set bs" unfolding B_def by (rule nth_mem)
    then show ?thesis by auto
  qed
  show thesis
  proof (cases "List.find (\<lambda>nd. k_compare (u_ops m) k (u_key nd) = 0) B")
    case None
    then have no: "x \<in> set B \<Longrightarrow> \<not> key_eq (u_ops m) k (u_key x)" for x
      by (auto simp: find_None_iff key_eq_def)
    have f': "HXumap_find m k = Some None" unfolding f None ..
    show thesis
    proof (rule miss [OF f'])
      fix n assume "n \<in> set (u_nodes m)"
      then have "n \<in> set (concat bs)" unfolding bs(7) .
      then show "\<not> key_eq (u_ops m) k (u_key n)" using here no by blast
    qed
  next
    case (Some n)
    then have n: "n \<in> set B" "key_eq (u_ops m) k (u_key n)"
      using find_some_mem [OF Some] by (simp_all add: key_eq_def)
    then have nc: "n \<in> set (concat bs)" using sub by blast
    have f': "HXumap_find m k = Some (Some n)" unfolding f Some ..
    have u: "n' = n" if n': "n' \<in> set (concat bs)" "key_eq (u_ops m) k (u_key n')" for n'
    proof (rule nodes_okD(2) [OF bs(3) nc n'(1)])
      note v = nodes_okD(1) [OF bs(3) nc] nodes_okD(1) [OF bs(3) n'(1)]
      show "key_eq (u_ops m) (u_key n) (u_key n')"
        by (rule hash_lawsD(4) [OF bs(6) v(1) k v(2)]) (rule hash_lawsD(1) [OF bs(6) k v(1) n(2)], rule n'(2))
    qed
    show thesis using nc u unfolding bs(7) [symmetric] by (intro hit [OF f' _ n(2)])
  qed
qed

lemma get_hit:
  assumes m: "umap_ok V m" "V k" and n: "n \<in> set (u_nodes m)" "key_eq (u_ops m) k (u_key n)"
  shows "HXumap_get m k = Some (u_data n)"
proof (rule find_spec [OF m])
  fix n' assume f: "HXumap_find m k = Some (Some n')"
    and u: "\<And>x. x \<in> set (u_nodes m) \<Longrightarrow> key_eq (u_ops m) k (u_key x) \<Longrightarrow> x = n'"
  have "n = n'" by (rule u [OF n])
  then show ?thesis by (simp add: HXumap_get_def f)
next
  assume "\<And>x. x \<in> set (u_nodes m) \<Longrightarrow> \<not> key_eq (u_ops m) k (u_key x)"
  then show ?thesis using n by blast
qed

lemma get_miss:
  assumes m: "umap_ok V m" "V k" and n: "\<And>n. n \<in> set (u_nodes m) \<Longrightarrow> \<not> key_eq (u_ops m) k (u_key n)"
  shows "HXumap_get m k = None"
proof (rule find_spec [OF m])
  fix n' assume "n' \<in> set (u_nodes m)" "key_eq (u_ops m) k (u_key n')"
  then show ?thesis using n by blast
next
  assume "HXumap_find m k = Some None"
  then show ?thesis by (simp add: HXumap_get_def)
qed

lemma get_cases:
  assumes m: "umap_ok V m" "V k"
  obtains n where "n \<in> set (u_nodes m)" "key_eq (u_ops m) k (u_key n)" "HXumap_get m k = Some (u_data n)"
    "HXumap_find m k = Some (Some n)"
  | "HXumap_get m k = None" "\<And>n. n \<in> set (u_nodes m) \<Longrightarrow> \<not> key_eq (u_ops m) k (u_key n)"
    "HXumap_find m k = Some None"
proof (rule find_spec [OF m])
  fix n assume n: "HXumap_find m k = Some (Some n)" "n \<in> set (u_nodes m)" "key_eq (u_ops m) k (u_key n)"
  show thesis by (rule that(1) [OF n(2,3) get_hit [OF m n(2,3)] n(1)])
next
  assume n: "HXumap_find m k = Some None" "\<And>x. x \<in> set (u_nodes m) \<Longrightarrow> \<not> key_eq (u_ops m) k (u_key x)"
  show thesis by (rule that(2) [OF get_miss [OF m n(2)] n(2,1)])
qed

section \<open>Operations preserve well-formedness\<close>

lemma umap_okI:
  assumes "hash_laws (u_ops m) V" "bk_array m = Some bs" "bk_ok (u_ops m) (power m) bs"
    "nodes_ok V (u_ops m) (concat bs)" "u_items m = of_nat (length (concat bs))" "length (concat bs) < 2 ^ 64"
    "max_load m = x_frac 7 10 (of_nat (HXhash_primes ! power m))"
    "min_load m = (if power m \<noteq> 0 then of_nat (HXhash_primes ! power m) div 4 else 0)"
  shows "umap_ok V m"
  unfolding umap_ok_def using assms by blast

lemma umap_loads:
  assumes "umap_ok V m"
  shows "max_load m = x_frac 7 10 (of_nat (HXhash_primes ! power m))"
    "min_load m = (if power m \<noteq> 0 then of_nat (HXhash_primes ! power m) div 4 else 0)"
  using assms unfolding umap_ok_def by blast+

lemma nodes_ok_map:
  assumes "nodes_ok V ops xs" "\<And>n. u_key (g n) = u_key n" "\<And>n. u_addr (g n) = u_addr n"
  shows "nodes_ok V ops (map g xs)"
proof -
  have "map u_addr (map g xs) = map u_addr xs" using assms(3) by simp
  then show ?thesis using assms unfolding nodes_ok_def by (auto simp del: map_map)
qed

lemma bk_ok_map:
  assumes "bk_ok ops p bs" "\<And>n. u_key (g n) = u_key n"
  shows "bk_ok ops p (map (map g) bs)"
  using assms by (auto simp: bk_ok_def)

lemma ok_map:
  assumes m: "umap_ok V m" and g: "\<And>n. u_key (g n) = u_key n" "\<And>n. u_addr (g n) = u_addr n"
  defines "m' \<equiv> m\<lparr>bk_array := map_option (map (map g)) (bk_array m)\<rparr>"
  shows "umap_ok V m'" "u_nodes m' = map g (u_nodes m)"
proof -
  obtain bs where bs: "bk_array m = Some bs" "bk_ok (u_ops m) (power m) bs" "nodes_ok V (u_ops m) (concat bs)"
    "u_items m = of_nat (length (concat bs))" "length (concat bs) < 2 ^ 64" "hash_laws (u_ops m) V"
    "u_nodes m = concat bs" "power m < length HXhash_primes" "length bs = HXhash_primes ! power m"
    by (rule umapD [OF m])
  have c: "concat (map (map g) bs) = map g (concat bs)" by (simp add: map_concat)
  show "umap_ok V m'"
    by (rule umap_okI [of _ _ "map (map g) bs"])
      (use bs(1,6) bk_ok_map [OF bs(2) g(1)] nodes_ok_map [OF bs(3) g] bs(4,5) umap_loads [OF m] in
        \<open>simp_all add: m'_def c\<close>)
  show "u_nodes m' = map g (u_nodes m)" using bs(1) by (simp add: m'_def u_nodes_def c)
qed

lemma ok_tid: "umap_ok V (m\<lparr>u_tid := t\<rparr>) = umap_ok V m"
  by (simp add: umap_ok_def)

lemma image_one:
  assumes "n \<in> S" "\<And>x. x \<in> S - {n} \<Longrightarrow> g x = x"
  shows "g ` S = insert (g n) (S - {n})"
proof -
  have "S = insert n (S - {n})" using assms(1) by blast
  moreover have "g ` (S - {n}) = S - {n}" using assms(2) by simp
  ultimately show ?thesis by (metis image_insert)
qed

lemma same_addr: "umap_ok V m \<Longrightarrow> n \<in> set (u_nodes m) \<Longrightarrow> x \<in> set (u_nodes m) \<Longrightarrow> u_addr x = u_addr n \<Longrightarrow> x = n"
proof -
  assume m: "umap_ok V m" and n: "n \<in> set (u_nodes m)" "x \<in> set (u_nodes m)" and a: "u_addr x = u_addr n"
  have "inj_on u_addr (set (u_nodes m))"
    using umap_nodes [OF m] unfolding nodes_ok_def distinct_map by blast
  then show "x = n" by (rule inj_onD [OF _ a n(2,1)])
qed

lemma replace_spec:
  assumes m: "umap_ok V m" and n: "n \<in> set (u_nodes m)" and f: "\<not> has_flag (u_flags m) HXMAP_NOREPLACE"
    and c: "\<not> clone_failed (d_clone (u_ops m) v) v"
  obtains m' where "HXumap_replace m n v = (Inr (), m', dfree (u_ops m) (u_data n))" "umap_ok V m'"
    "u_ops m' = u_ops m" "u_flags m' = u_flags m" "u_items m' = u_items m"
    "set (u_nodes m') = insert (n\<lparr>u_data := d_clone (u_ops m) v\<rparr>) (set (u_nodes m) - {n})"
proof -
  define d where "d = d_clone (u_ops m) v"
  define g where "g = (\<lambda>x :: ('a, 'b) HXumap_node. if u_addr x = u_addr n then x\<lparr>u_data := d\<rparr> else x)"
  define m' where "m' = m\<lparr>bk_array := map_option (map (map g)) (bk_array m)\<rparr>"
  have sd: "set_data (u_addr n) d = map (map g)" unfolding set_data_def g_def by (rule ext) simp
  have g: "u_key (g x) = u_key x" "u_addr (g x) = u_addr x" for x by (simp_all add: g_def)
  have "g x = x" if "x \<in> set (u_nodes m) - {n}" for x
    using same_addr [OF m n] that by (auto simp: g_def)
  then have "g ` set (u_nodes m) = insert (g n) (set (u_nodes m) - {n})" by (rule image_one [OF n])
  then have s: "set (u_nodes m') = insert (n\<lparr>u_data := d\<rparr>) (set (u_nodes m) - {n})"
    using ok_map(2) [OF m, of g] g by (simp add: m'_def g_def)
  have ok: "umap_ok V m'" using ok_map(1) [OF m, of g] g by (simp add: m'_def)
  have r: "HXumap_replace m n v = (Inr (), m', dfree (u_ops m) (u_data n))"
    using f c by (simp add: HXumap_replace_def Let_def sd [unfolded d_def] m'_def)
  show thesis by (rule that [OF r ok _ _ _ s [unfolded d_def]]) (simp_all add: m'_def)
qed

lemma umap_power: "umap_ok V m \<Longrightarrow> power m < length HXhash_primes"
  by (erule umapD)

lemma layout_any:
  assumes m: "umap_ok V m" and p: "p < length HXhash_primes"
  obtains r m' where "HXumap_layout l m p = Some (r, m')" "umap_ok V m'" "mset (u_nodes m') = mset (u_nodes m)"
    "u_ops m' = u_ops m" "u_flags m' = u_flags m" "u_items m' = u_items m"
    "if l then r = Inr () \<and> power m' = p else r = Inl ENOMEM \<and> m' = m"
proof (cases l)
  case True
  show thesis by (rule layout_ok [OF m p]) (use that True in simp)
next
  case False
  show thesis by (rule that [of "Inl ENOMEM" m]) (use m False layout_fail in simp_all)
qed

lemma resize_spec:
  assumes m: "umap_ok V m"
  obtains r m' where "HXumap_resize l m = Some (r, m')" "umap_ok V m'"
    "mset (u_nodes m') = mset (u_nodes m)" "u_ops m' = u_ops m" "u_flags m' = u_flags m" "u_items m' = u_items m"
    "l \<Longrightarrow> r = Inr ()" "r = Inr () \<or> r = Inl ENOMEM"
proof (cases "HXumap_resize l m = Some (Inr (), m)")
  case True
  show thesis by (rule that [OF True m]) simp_all
next
  case False
  then obtain p where p: "HXumap_resize l m = HXumap_layout l m p" "p < length HXhash_primes"
    using umap_power [OF m] by (auto simp: HXumap_resize_def split: if_splits)
  obtain r m' where r: "HXumap_layout l m p = Some (r, m')" "umap_ok V m'" "mset (u_nodes m') = mset (u_nodes m)"
    "u_ops m' = u_ops m" "u_flags m' = u_flags m" "u_items m' = u_items m"
    "if l then r = Inr () \<and> power m' = p else r = Inl ENOMEM \<and> m' = m"
    by (rule layout_any [OF m p(2)])
  show thesis by (rule that [of r m']) (use r p(1) in \<open>auto split: if_splits\<close>)
qed

lemma add_bucket_ok:
  fixes d :: "'d option"
  assumes m: "umap_ok V m" and k: "V k" and n: "\<And>x. x \<in> set (u_nodes m) \<Longrightarrow> \<not> key_eq (u_ops m) k (u_key x)"
    and a: "a \<notin> u_addr ` set (u_nodes m)" and l: "unat (u_items m) < 2 ^ 64 - 1"
    and nk: "\<not> clone_failed (k_clone (u_ops m) k) k"
    and i_def: "i = bk_index (u_ops m) (HXhash_primes ! power m) k"
    and nd_def: "nd = \<lparr>u_addr = a, u_key = k_clone (u_ops m) k, u_data = d\<rparr>"
  obtains bs where "bk_array m = Some bs" "i < length bs"
    "umap_ok V (m\<lparr>bk_array := Some (bk_add_tail bs i nd), u_items := u_items m + 1\<rparr>)"
    "mset (concat (bk_add_tail bs i nd)) = add_mset nd (mset (concat bs))"
proof -
  obtain bs where bs: "bk_array m = Some bs" "bk_ok (u_ops m) (power m) bs" "nodes_ok V (u_ops m) (concat bs)"
    "u_items m = of_nat (length (concat bs))" "length (concat bs) < 2 ^ 64" "hash_laws (u_ops m) V"
    "u_nodes m = concat bs" "power m < length HXhash_primes" "length bs = HXhash_primes ! power m"
    by (rule umapD [OF m])
  have i: "i < length bs" unfolding i_def bs(9) by (rule bk_index_less [OF bs(8)])
  have K: "V (u_key nd)" "key_eq (u_ops m) (u_key nd) k"
    using bs(6) k nk by (auto simp: nd_def hash_laws_def clone_law_def key_eq_def)
  have h: "bk_index (u_ops m) (length bs) (u_key nd) = i"
    using hash_lawsD(2) [OF bs(6) K(1) k K(2)] bs(9) by (simp add: bk_index_def i_def)
  have mm: "mset (concat (bk_add_tail bs i nd)) = mset (nd # concat bs)" using add_tail_mset [OF i] by simp
  have len: "length (concat (bk_add_tail bs i nd)) = Suc (length (concat bs))"
    using mm by (metis length_Cons size_mset)
  have nk: "\<not> key_eq (u_ops m) (u_key nd) (u_key x)" "\<not> key_eq (u_ops m) (u_key x) (u_key nd)"
    if x: "x \<in> set (concat bs)" for x
  proof -
    note v = nodes_okD(1) [OF bs(3) x]
    have no: "\<not> key_eq (u_ops m) k (u_key x)" using n x unfolding bs(7) by blast
    have k': "key_eq (u_ops m) k (u_key nd)" by (rule hash_lawsD(1) [OF bs(6) K(1) k K(2)])
    show 1: "\<not> key_eq (u_ops m) (u_key nd) (u_key x)"
      using no hash_lawsD(4) [OF bs(6) k K(1) v k'] by blast
    show "\<not> key_eq (u_ops m) (u_key x) (u_key nd)"
      using 1 hash_lawsD(1) [OF bs(6) v K(1)] by blast
  qed
  have "nodes_ok V (u_ops m) (nd # concat bs)"
  proof -
    have "u_addr nd = a" by (simp add: nd_def)
    then show ?thesis using bs(3) K(1) nk a unfolding nodes_ok_def bs(7) set_simps list.map distinct.simps
      by (metis insert_iff list.set_map)
  qed
  then have no: "nodes_ok V (u_ops m) (concat (bk_add_tail bs i nd))" using nodes_ok_mset [OF mm] by blast
  have bo: "bk_ok (u_ops m) (power m) (bk_add_tail bs i nd)"
    using bs(2) h i by (auto simp: bk_ok_def bk_add_tail_def nth_list_update)
  have "length (concat bs) < 2 ^ 64 - 1" using l bs(4,5) by (simp add: unat_of_nat take_bit_nat_eq_self)
  then have "umap_ok V (m\<lparr>bk_array := Some (bk_add_tail bs i nd), u_items := u_items m + 1\<rparr>)"
    by (intro umap_okI [of _ _ "bk_add_tail bs i nd"])
      (use bs(4,6) no bo len umap_loads [OF m] in simp_all)
  then show thesis using that bs(1) i mm by simp
qed

text \<open>The nodes whose key is not equal to \<open>k\<close>: what an operation on \<open>k\<close> leaves alone.\<close>

definition others :: "('k, 'd) HXumap \<Rightarrow> 'k option \<Rightarrow> ('k, 'd) HXumap_node set" where
  "others m k = {n \<in> set (u_nodes m). \<not> key_eq (u_ops m) k (u_key n)}"

lemma get_other:
  assumes m: "umap_ok V m" "umap_ok V m'" and o: "u_ops m' = u_ops m" and k: "V k" "V x"
    and e: "others m' k = others m k" and x: "\<not> key_eq (u_ops m) x k"
  shows "HXumap_get m' x = HXumap_get m x"
proof -
  have h: "hash_laws (u_ops m) V" by (rule umapD [OF m(1)])
  have no: "\<not> key_eq (u_ops m) k (u_key n)" if n: "key_eq (u_ops m) x (u_key n)" "V (u_key n)" for n
  proof
    assume "key_eq (u_ops m) k (u_key n)"
    then have "key_eq (u_ops m) (u_key n) k" by (rule hash_lawsD(1) [OF h k(1) n(2)])
    then show False using x hash_lawsD(4) [OF h k(2) n(2) k(1) n(1)] by blast
  qed
  show ?thesis
  proof (rule get_cases [OF m(1) k(2)])
    fix n assume n: "n \<in> set (u_nodes m)" "key_eq (u_ops m) x (u_key n)" and g: "HXumap_get m x = Some (u_data n)"
    have "n \<in> others m k" using n no nodes_okD(1) [OF umap_nodes [OF m(1)] n(1)] by (simp add: others_def)
    then have "n \<in> set (u_nodes m')" unfolding e [symmetric] by (simp add: others_def)
    then show ?thesis using get_hit [OF m(2) k(2), of n] n(2) g unfolding o by simp
  next
    assume n: "\<And>n. n \<in> set (u_nodes m) \<Longrightarrow> \<not> key_eq (u_ops m) x (u_key n)" and g: "HXumap_get m x = None"
    have "\<not> key_eq (u_ops m') x (u_key n')" if n': "n' \<in> set (u_nodes m')" for n'
    proof
      assume q: "key_eq (u_ops m') x (u_key n')"
      then have "n' \<in> others m' k"
        using n' no nodes_okD(1) [OF umap_nodes [OF m(2)] n'] unfolding o by (simp add: others_def o)
      then have "n' \<in> set (u_nodes m)" unfolding e by (simp add: others_def)
      then show False using n q unfolding o by blast
    qed
    then show ?thesis using get_miss [OF m(2) k(2)] g by simp
  qed
qed

lemma get_present:
  assumes m: "umap_ok V m" and k: "V k" "V x" and n: "n \<in> set (u_nodes m)" "key_eq (u_ops m) k (u_key n)"
    and x: "key_eq (u_ops m) x k"
  shows "HXumap_get m x = Some (u_data n)"
proof -
  have h: "hash_laws (u_ops m) V" by (rule umapD [OF m])
  show ?thesis
    by (rule get_hit [OF m k(2) n(1)])
      (rule hash_lawsD(4) [OF h k(2,1) nodes_okD(1) [OF umap_nodes [OF m] n(1)] x n(2)])
qed

lemma get_absent:
  assumes m: "umap_ok V m" and k: "V k" "V x" and n: "\<And>n. n \<in> set (u_nodes m) \<Longrightarrow> \<not> key_eq (u_ops m) k (u_key n)"
    and x: "key_eq (u_ops m) x k"
  shows "HXumap_get m x = None"
proof (rule get_miss [OF m k(2)])
  fix n assume n': "n \<in> set (u_nodes m)"
  have h: "hash_laws (u_ops m) V" by (rule umapD [OF m])
  have "key_eq (u_ops m) k x" by (rule hash_lawsD(1) [OF h k(2,1) x])
  then show "\<not> key_eq (u_ops m) x (u_key n)"
    using n [OF n'] hash_lawsD(4) [OF h k nodes_okD(1) [OF umap_nodes [OF m] n']] by blast
qed

lemma add_new_spec:
  assumes m: "umap_ok V m" and k: "V k" and f: "HXumap_get m k = None"
    and a: "a \<notin> u_addr ` set (u_nodes m)" and l: "unat (u_items m) < 2 ^ 64 - 1"
    and nk: "\<not> clone_failed (k_clone (u_ops m) k) k" and nv: "\<not> clone_failed (d_clone (u_ops m) v) v"
  obtains m' where "HXumap_add m k v True (Some a) = Some (Inr (), m', [])" "umap_ok V m'"
    "u_ops m' = u_ops m" "u_flags m' = u_flags m" "u_items m' = u_items m + 1"
    "mset (u_nodes m') = add_mset \<lparr>u_addr = a, u_key = k_clone (u_ops m) k, u_data = d_clone (u_ops m) v\<rparr> (mset (u_nodes m))"
proof -
  obtain m1 where m1: "HXumap_resize True m = Some (Inr (), m1)" "umap_ok V m1"
    "mset (u_nodes m1) = mset (u_nodes m)" "u_ops m1 = u_ops m" "u_flags m1 = u_flags m" "u_items m1 = u_items m"
    by (rule resize_spec [OF m, of True]) blast
  have st: "set (u_nodes m1) = set (u_nodes m)" by (rule mset_eq_setD [OF m1(3)])
  have miss: "HXumap_find m k = Some None" "\<And>x. x \<in> set (u_nodes m) \<Longrightarrow> \<not> key_eq (u_ops m) k (u_key x)"
    using f get_cases [OF m k] by (metis option.distinct(1))+
  define i where "i = bk_index (u_ops m1) (HXhash_primes ! power m1) k"
  define nd where "nd = \<lparr>u_addr = a, u_key = k_clone (u_ops m1) k, u_data = d_clone (u_ops m) v\<rparr>"
  have no: "\<And>x. x \<in> set (u_nodes m1) \<Longrightarrow> \<not> key_eq (u_ops m1) k (u_key x)"
    using miss(2) unfolding st m1(4) .
  obtain bs where bs: "bk_array m1 = Some bs" "i < length bs"
    "umap_ok V (m1\<lparr>bk_array := Some (bk_add_tail bs i nd), u_items := u_items m1 + 1\<rparr>)"
    "mset (concat (bk_add_tail bs i nd)) = add_mset nd (mset (concat bs))"
    using add_bucket_ok [OF m1(2) k no _ _ _ i_def nd_def] a l nk unfolding st m1(4,6) by blast
  let ?m = "m1\<lparr>bk_array := Some (bk_add_tail bs i nd), u_items := u_items m1 + 1\<rparr>"
  have "mset (u_nodes ?m) = add_mset nd (mset (u_nodes m))"
    using bs(4) m1(3) by (simp add: u_nodes_def bs(1))
  moreover have "HXumap_add m k v True (Some a) = Some (Inr (), ?m, [])"
    using bs(1,2) nk nv by (simp add: HXumap_add_def miss(1) m1(1,4) rd_in i_def nd_def)
  ultimately show thesis using that bs(3) m1(4-6) by (simp add: nd_def)
qed

lemma filter_addr:
  assumes "distinct (map u_addr xs)" "n \<in> set xs"
  shows "mset xs = add_mset n (mset (filter (\<lambda>x. u_addr x \<noteq> u_addr n) xs))"
  using assms
proof (induction xs)
  case (Cons x xs)
  show ?case
  proof (cases "x = n")
    case True
    then have "filter (\<lambda>y. u_addr y \<noteq> u_addr n) xs = xs" using Cons.prems(1)
      by (intro filter_True) (auto simp: image_iff)
    then show ?thesis using True by simp
  next
    case False
    then have "u_addr x \<noteq> u_addr n" "n \<in> set xs" using Cons.prems by auto
    then show ?thesis using Cons by simp
  qed
qed simp

lemma nodes_ok_subset:
  assumes "nodes_ok V ops xs"
  shows "nodes_ok V ops (filter P xs)"
  using assms distinct_map_filter [of u_addr xs P] unfolding nodes_ok_def by simp

lemma unlink_spec:
  assumes m: "umap_ok V m" and n: "n \<in> set (u_nodes m)"
  defines "m' \<equiv> m\<lparr>bk_array := map_option (bk_del (u_addr n)) (bk_array m), u_tid := u_tid m + 1, u_items := u_items m - 1\<rparr>"
  shows "umap_ok V m'" "mset (u_nodes m) = add_mset n (mset (u_nodes m'))"
proof -
  obtain bs where bs: "bk_array m = Some bs" "bk_ok (u_ops m) (power m) bs" "nodes_ok V (u_ops m) (concat bs)"
    "u_items m = of_nat (length (concat bs))" "length (concat bs) < 2 ^ 64" "hash_laws (u_ops m) V"
    "u_nodes m = concat bs" "power m < length HXhash_primes" "length bs = HXhash_primes ! power m"
    by (rule umapD [OF m])
  let ?P = "\<lambda>x. u_addr x \<noteq> u_addr n"
  have c: "concat (bk_del (u_addr n) bs) = filter ?P (concat bs)" by (simp add: bk_del_def filter_concat)
  have d: "distinct (map u_addr (concat bs))" using bs(3) unfolding nodes_ok_def by blast
  have mm: "mset (concat bs) = add_mset n (mset (filter ?P (concat bs)))"
    by (rule filter_addr [OF d]) (use n bs(7) in simp)
  have len: "length (concat bs) = Suc (length (filter ?P (concat bs)))"
    using mm by (metis size_add_mset size_mset)
  have bo: "bk_ok (u_ops m) (power m) (bk_del (u_addr n) bs)"
    using bs(2) by (auto simp: bk_ok_def bk_del_def)
  show "umap_ok V m'"
    by (rule umap_okI [of _ _ "bk_del (u_addr n) bs"])
      (use bs(1,4,5,6) bo nodes_ok_subset [OF bs(3)] umap_loads [OF m] in \<open>simp_all add: m'_def c len\<close>)
  show "mset (u_nodes m) = add_mset n (mset (u_nodes m'))"
    using mm by (simp add: bs(7)) (simp add: m'_def u_nodes_def bs(1) c)
qed

lemma shrink_spec:
  assumes m: "umap_ok V m"
  obtains r m' where "HXumap_shrink l m = Some (r, m')" "umap_ok V m'"
    "mset (u_nodes m') = mset (u_nodes m)" "u_ops m' = u_ops m" "u_flags m' = u_flags m" "u_items m' = u_items m"
proof (cases "HXumap_shrink l m = Some (Inr (), m)")
  case True
  show thesis by (rule that [OF True m]) simp_all
next
  case False
  then have p: "HXumap_shrink l m = HXumap_layout l m (power m - 1)" "power m - 1 < length HXhash_primes"
    using umap_power [OF m] by (auto simp: HXumap_shrink_def split: if_splits)
  obtain r m' where r: "HXumap_layout l m (power m - 1) = Some (r, m')" "umap_ok V m'"
    "mset (u_nodes m') = mset (u_nodes m)" "u_ops m' = u_ops m" "u_flags m' = u_flags m" "u_items m' = u_items m"
    by (rule layout_any [OF m p(2)])
  show thesis by (rule that [of r m']) (use r p(1) in simp_all)
qed

lemma del_hit_spec:
  assumes m: "umap_ok V m" and n: "n \<in> set (u_nodes m)" and f: "HXumap_find m k = Some (Some n)"
  obtains m' where "HXumap_del m k l = Some (u_data n, None, m',
      kfree (u_ops m) (u_key n) @ dfree (u_ops m) (u_data n) @ [EvNode (u_addr n)])"
    "umap_ok V m'" "u_ops m' = u_ops m" "u_flags m' = u_flags m" "u_items m' = u_items m - 1"
    "mset (u_nodes m) = add_mset n (mset (u_nodes m'))"
proof -
  let ?m = "m\<lparr>bk_array := map_option (bk_del (u_addr n)) (bk_array m), u_tid := u_tid m + 1, u_items := u_items m - 1\<rparr>"
  note u = unlink_spec [OF m n]
  obtain r m1 where m1: "HXumap_shrink l ?m = Some (r, m1)" "umap_ok V m1"
    "mset (u_nodes m1) = mset (u_nodes ?m)" "u_ops m1 = u_ops ?m" "u_flags m1 = u_flags ?m" "u_items m1 = u_items ?m"
    by (rule shrink_spec [OF u(1)])
  have "HXumap_del m k l = Some (u_data n, None, m1,
      kfree (u_ops m) (u_key n) @ dfree (u_ops m) (u_data n) @ [EvNode (u_addr n)])"
    using m1(1,4) by (simp add: HXumap_del_def f)
  then show thesis by (rule that [OF _ m1(2)]) (use m1(3-6) u(2) in simp_all)
qed

section \<open>The map contract\<close>

text \<open>Additions and deletions as state transformers. The resources of a step are the allocation of a
  bucket array and that of a node.\<close>

definition umap_add :: "('k, 'd) HXumap \<Rightarrow> 'k option \<Rightarrow> 'd option \<Rightarrow> bool \<times> ptr \<Rightarrow> ('k, 'd) HXumap" where
  "umap_add m k v r = (case HXumap_add m k v (fst r) (snd r) of Some (_, m', _) \<Rightarrow> m' | None \<Rightarrow> m)"

definition umap_del :: "('k, 'd) HXumap \<Rightarrow> 'k option \<Rightarrow> bool \<times> ptr \<Rightarrow> ('k, 'd) HXumap" where
  "umap_del m k r = (case HXumap_del m k (fst r) of Some (_, _, m', _) \<Rightarrow> m' | None \<Rightarrow> m)"

definition umap_may :: "('k, 'd) HXumap \<Rightarrow> bool" where
  "umap_may m \<longleftrightarrow> \<not> has_flag (u_flags m) HXMAP_NOREPLACE"

definition umap_good :: "('k, 'd) HXumap \<Rightarrow> 'k option \<Rightarrow> 'd option \<Rightarrow> bool \<times> ptr \<Rightarrow> bool" where
  "umap_good m k v r \<longleftrightarrow> fst r \<and> (case snd r of None \<Rightarrow> False | Some a \<Rightarrow> a \<notin> u_addr ` set (u_nodes m)) \<and>
     unat (u_items m) < 2 ^ 64 - 1 \<and> \<not> clone_failed (k_clone (u_ops m) k) k \<and> \<not> clone_failed (d_clone (u_ops m) v) v"

definition umap_inv :: "('k option \<Rightarrow> bool) \<Rightarrow> ('k, 'd) HXmap_ops \<Rightarrow> ('k, 'd) HXumap \<Rightarrow> bool" where
  "umap_inv V ops m \<longleftrightarrow> umap_ok V m \<and> u_ops m = ops"

lemma umap_add_law:
  assumes m: "umap_ok V m" and k: "V k" and g: "umap_good m k v r" and c: "HXumap_get m k = None \<or> umap_may m"
  shows "umap_ok V (umap_add m k v r) \<and> u_ops (umap_add m k v r) = u_ops m \<and>
    u_flags (umap_add m k v r) = u_flags m \<and>
    (\<forall>x. V x \<longrightarrow> HXumap_get (umap_add m k v r) x =
      (if key_eq (u_ops m) x k then Some (d_clone (u_ops m) v) else HXumap_get m x))"
proof -
  obtain a where a: "fst r" "snd r = Some a" "a \<notin> u_addr ` set (u_nodes m)" "unat (u_items m) < 2 ^ 64 - 1"
    "\<not> clone_failed (k_clone (u_ops m) k) k" "\<not> clone_failed (d_clone (u_ops m) v) v"
    using g unfolding umap_good_def by (cases "snd r") auto
  have h: "hash_laws (u_ops m) V" by (rule umapD [OF m])
  have "\<exists>m' n ev. HXumap_add m k v (fst r) (snd r) = Some (Inr (), m', ev) \<and> umap_ok V m' \<and> u_ops m' = u_ops m \<and>
    u_flags m' = u_flags m \<and> others m' k = others m k \<and> n \<in> set (u_nodes m') \<and> key_eq (u_ops m) k (u_key n) \<and>
    u_data n = d_clone (u_ops m) v"
  proof (rule get_cases [OF m k])
    fix n assume n: "n \<in> set (u_nodes m)" "key_eq (u_ops m) k (u_key n)" "HXumap_get m k = Some (u_data n)"
      "HXumap_find m k = Some (Some n)"
    have f: "\<not> has_flag (u_flags m) HXMAP_NOREPLACE" using c n(3) by (simp add: umap_may_def)
    obtain m' where m': "HXumap_replace m n v = (Inr (), m', dfree (u_ops m) (u_data n))" "umap_ok V m'"
      "u_ops m' = u_ops m" "u_flags m' = u_flags m" "u_items m' = u_items m"
      "set (u_nodes m') = insert (n\<lparr>u_data := d_clone (u_ops m) v\<rparr>) (set (u_nodes m) - {n})"
      by (rule replace_spec [OF m n(1) f a(6)])
    have "others m' k = others m k" using n(2) unfolding others_def m'(3,6) by auto
    then show ?thesis using m' n(2,4) by (intro exI [of _ m'] exI [of _ "n\<lparr>u_data := d_clone (u_ops m) v\<rparr>"])
      (simp add: HXumap_add_def)
  next
    assume n: "HXumap_get m k = None"
    let ?n = "\<lparr>u_addr = a, u_key = k_clone (u_ops m) k, u_data = d_clone (u_ops m) v\<rparr>"
    obtain m' where m': "HXumap_add m k v True (Some a) = Some (Inr (), m', [])" "umap_ok V m'"
      "u_ops m' = u_ops m" "u_flags m' = u_flags m" "u_items m' = u_items m + 1"
      "mset (u_nodes m') = add_mset ?n (mset (u_nodes m))"
      by (rule add_new_spec [OF m k n a(3-6)])
    have st: "set (u_nodes m') = insert ?n (set (u_nodes m))"
      using m'(6) by (metis set_mset_add_mset_insert set_mset_mset)
    have "V (k_clone (u_ops m) k)" "key_eq (u_ops m) (k_clone (u_ops m) k) k"
      using h k a(5) by (auto simp: hash_laws_def clone_law_def key_eq_def)
    then have kk: "key_eq (u_ops m) k (u_key ?n)" using hash_lawsD(1) [OF h _ k] by simp
    then have "others m' k = others m k" unfolding others_def m'(3) st by auto
    then show ?thesis using m' a(1,2) kk st by (intro exI [of _ m'] exI [of _ ?n]) simp
  qed
  then obtain m' n ev where *: "HXumap_add m k v (fst r) (snd r) = Some (Inr (), m', ev)" "umap_ok V m'"
    "u_ops m' = u_ops m" "u_flags m' = u_flags m" "others m' k = others m k" "n \<in> set (u_nodes m')"
    "key_eq (u_ops m) k (u_key n)" "u_data n = d_clone (u_ops m) v" by blast
  have e: "umap_add m k v r = m'" by (simp add: umap_add_def *(1))
  have "HXumap_get m' x = (if key_eq (u_ops m) x k then Some (d_clone (u_ops m) v) else HXumap_get m x)" if x: "V x" for x
    using get_other [OF m *(2,3) k x *(5)] get_present [OF *(2) k x *(6), unfolded *(3), OF *(7)] *(8) by simp
  then show ?thesis unfolding e using *(2-4) by blast
qed

lemma umap_del_law:
  assumes m: "umap_ok V m" and k: "V k"
  shows "umap_ok V (umap_del m k r) \<and> u_ops (umap_del m k r) = u_ops m \<and>
    u_flags (umap_del m k r) = u_flags m \<and>
    (\<forall>x. V x \<longrightarrow> HXumap_get (umap_del m k r) x = (if key_eq (u_ops m) x k then None else HXumap_get m x))"
proof (rule get_cases [OF m k])
  fix n assume n: "n \<in> set (u_nodes m)" "key_eq (u_ops m) k (u_key n)" "HXumap_find m k = Some (Some n)"
  obtain m' ev where m': "HXumap_del m k (fst r) = Some (u_data n, None, m', ev)"
    "umap_ok V m'" "u_ops m' = u_ops m" "u_flags m' = u_flags m"
    "mset (u_nodes m) = add_mset n (mset (u_nodes m'))"
    by (rule del_hit_spec [OF m n(1,3), of "fst r"]) blast
  have e: "umap_del m k r = m'" by (simp add: umap_del_def m'(1))
  have st: "set (u_nodes m) = insert n (set (u_nodes m'))"
    using m'(5) by (metis set_mset_add_mset_insert set_mset_mset)
  have o: "others m' k = others m k" using n(2) unfolding others_def m'(3) st by auto
  have no: "\<not> key_eq (u_ops m') k (u_key y)" if y: "y \<in> set (u_nodes m')" for y
  proof
    assume ky: "key_eq (u_ops m') k (u_key y)"
    have h: "hash_laws (u_ops m) V" by (rule umapD [OF m])
    have y': "y \<in> set (u_nodes m)" using y st by blast
    note v = nodes_okD(1) [OF umap_nodes [OF m] y'] nodes_okD(1) [OF umap_nodes [OF m] n(1)]
    have "key_eq (u_ops m) (u_key y) (u_key n)"
      by (rule hash_lawsD(4) [OF h v(1) k v(2) hash_lawsD(1) [OF h k v(1)] n(2)]) (use ky m'(3) in simp)
    then have "n = y" by (rule nodes_okD(2) [OF umap_nodes [OF m] y' n(1)])
    moreover have "distinct (map u_addr (u_nodes m))" using umap_nodes [OF m] unfolding nodes_ok_def by blast
    then have "distinct (u_nodes m)" by (simp add: distinct_map)
    then have "n \<notin> set (u_nodes m')"
      using m'(5) by (metis distinct.simps(2) mset.simps(2) mset_eq_imp_distinct_iff)
    ultimately show False using y by blast
  qed
  have "HXumap_get m' x = (if key_eq (u_ops m) x k then None else HXumap_get m x)" if x: "V x" for x
    using get_other [OF m m'(2,3) k x o] get_absent [OF m'(2) k x no, unfolded m'(3)] by simp
  then show ?thesis unfolding e using m'(2-4) by blast
next
  assume n: "\<And>n. n \<in> set (u_nodes m) \<Longrightarrow> \<not> key_eq (u_ops m) k (u_key n)" and f: "HXumap_find m k = Some None"
  have e: "umap_del m k r = m" by (simp add: umap_del_def HXumap_del_def f)
  show ?thesis unfolding e using m get_absent [OF m k _ n] by simp
qed

lemma umap_refuse_law:
  assumes "umap_ok V m" "V k" "HXumap_get m k \<noteq> None" "\<not> umap_may m"
  shows "umap_add m k v r = m"
  by (rule get_cases [OF assms(1,2)])
    (use assms(3,4) in \<open>simp_all add: umap_add_def HXumap_add_def HXumap_replace_def umap_may_def\<close>)

interpretation hashmap: map_contract "umap_inv V ops" V "key_eq ops" "d_clone ops" HXumap_get
  umap_add umap_del umap_may umap_good
  for V :: "'k option \<Rightarrow> bool" and ops :: "('k, 'd) HXmap_ops"
proof (unfold_locales, goal_cases)
  case (1 s k v m)
  then show ?case using umap_add_law [of V s k v m] by (simp add: umap_inv_def umap_may_def)
next
  case (2 s k v m)
  then show ?case using umap_refuse_law [of V s k v m] by (simp add: umap_inv_def)
next
  case (3 s k m)
  then show ?case using umap_del_law [of V s k m] by (simp add: umap_inv_def umap_may_def)
qed

section \<open>Traversal of an unmodified map\<close>

definition trav_step :: "('k, 'd) HXumap \<Rightarrow> HXumap_trav \<Rightarrow> (('k, 'd) HXumap_node option \<times> HXumap_trav) option" where
  "trav_step m t = map_option (\<lambda>(t', r). (r, t')) (HXumap_traverse m t)"

lemma umap_bs:
  assumes m: "umap_ok V m" and a: "bk_array m = Some bs"
  shows "bk_ok (u_ops m) (power m) bs" "distinct (map u_addr (concat bs))" "HXhash_primes ! power m = length bs"
    "0 < length bs" "u_nodes m = concat bs"
proof -
  obtain bs' where b: "bk_array m = Some bs'" "bk_ok (u_ops m) (power m) bs'" "nodes_ok V (u_ops m) (concat bs')"
    "u_items m = of_nat (length (concat bs'))" "length (concat bs') < 2 ^ 64" "hash_laws (u_ops m) V"
    "u_nodes m = concat bs'" "power m < length HXhash_primes" "length bs' = HXhash_primes ! power m"
    by (rule umapD [OF m])
  have e: "bs' = bs" using a b(1) by simp
  show "bk_ok (u_ops m) (power m) bs" "u_nodes m = concat bs" "HXhash_primes ! power m = length bs"
    using b(2,7,9) unfolding e by simp_all
  show "distinct (map u_addr (concat bs))" using b(3) unfolding e nodes_ok_def by blast
  show "0 < length bs" using prime_pos [OF b(8)] b(9) unfolding e by simp
qed

text \<open>The traverser stands at a node, with \<open>xs\<close> still to come.\<close>

definition trav_at :: "('k, 'd) HXumap_node list list \<Rightarrow> HXumap_trav \<Rightarrow> ('k, 'd) HXumap_node list \<Rightarrow> bool" where
  "trav_at bs t xs \<longleftrightarrow> bk_current t < length bs \<and>
     (\<exists>pre nd post. bs ! bk_current t = pre @ nd # post \<and> t_head t = H_node (u_addr nd) \<and>
       xs = post @ concat (drop (Suc (bk_current t)) bs))"

lemma find_addr_in:
  assumes "distinct (map u_addr (concat bs))" "nd \<in> set (concat bs)"
  shows "find_addr bs (u_addr nd) = Some nd"
proof -
  have "List.find (\<lambda>n. u_addr n = u_addr nd) xs = Some nd" if "distinct (map u_addr xs)" "nd \<in> set xs" for xs
    using that by (induction xs) (auto simp: image_iff)
  then show ?thesis unfolding find_addr_def using assms by blast
qed

lemma node_next_split:
  assumes "distinct (map u_addr (pre @ nd # post))"
  shows "node_next (u_addr nd) e (pre @ nd # post) = Some (case post of [] \<Rightarrow> e | n # _ \<Rightarrow> H_node (u_addr n))"
  using assms by (induction pre) auto

lemma trav_out_node:
  assumes d: "distinct (map u_addr (concat bs))" and i: "i < length bs" and b: "bs ! i = pre @ nd # post"
    and t: "bk_current t = i" "t_head t = H_node (u_addr nd)"
  shows "trav_out bs n t = Some (t, Some nd) \<and> trav_at bs t (post @ concat (drop (Suc i) bs))"
proof -
  have "bs ! i \<in> set bs" using i by simp
  then have "nd \<in> set (concat bs)" using b by (metis UnionI image_eqI in_set_conv_decomp set_concat)
  then have "find_addr bs (u_addr nd) = Some nd" by (rule find_addr_in [OF d])
  then have "trav_out bs n t = Some (t, Some nd)" using t(2) by (simp add: trav_out_def trav_skip.simps)
  moreover have "trav_at bs t (post @ concat (drop (Suc i) bs))" using i b t unfolding trav_at_def by blast
  ultimately show ?thesis by blast
qed

text \<open>Entering bucket \<open>i\<close> at its first node, or going on from its head, yields the next node of the
  buckets from \<open>i\<close>, respectively after \<open>i\<close>.\<close>

lemma trav_out_bucket:
  assumes d: "distinct (map u_addr (concat bs))"
  shows "i < length bs \<Longrightarrow> bk_current t = i \<Longrightarrow> t_head t = H_bucket i \<Longrightarrow>
    (case concat (drop (Suc i) bs) of
       [] \<Rightarrow> \<exists>t'. trav_out bs (length bs) t = Some (t', None)
     | nd # xs \<Rightarrow> \<exists>t'. trav_out bs (length bs) t = Some (t', Some nd) \<and> trav_at bs t' xs \<and> t_tid t' = t_tid t)"
proof (induction "length bs - i" arbitrary: i t)
  case 0
  then show ?case by simp
next
  case (Suc k)
  show ?case
  proof (cases "Suc i < length bs")
    case False
    then have "trav_out bs (length bs) t = Some (t\<lparr>bk_current := Suc i\<rparr>, None)"
      using Suc.prems by (simp add: trav_out_def trav_skip.simps)
    then show ?thesis using False Suc.prems by simp
  next
    case True
    have dr: "drop (Suc i) bs = bs ! Suc i # drop (Suc (Suc i)) bs" by (rule drop_eq_Cons_nth [OF True])
    show ?thesis
    proof (cases "bs ! Suc i")
      case Nil
      let ?t = "t\<lparr>bk_current := Suc i, t_head := H_bucket (Suc i)\<rparr>"
      have "trav_skip bs (length bs) t = trav_skip bs (length bs) ?t"
        using Suc.prems True Nil by (subst trav_skip.simps) (simp add: bk_first_def rd_in)
      then have "trav_out bs (length bs) t = trav_out bs (length bs) ?t" by (simp add: trav_out_def)
      moreover have "concat (drop (Suc i) bs) = concat (drop (Suc (Suc i)) bs)" by (simp add: dr Nil)
      moreover have "k = length bs - Suc i" using Suc.hyps(2) by simp
      ultimately show ?thesis using Suc.hyps(1) [of "Suc i" ?t] True
        by (simp del: concat_eq_Nil_conv split: list.splits)
    next
      case (Cons nd post)
      let ?t = "t\<lparr>bk_current := Suc i, t_head := H_node (u_addr nd)\<rparr>"
      have "trav_skip bs (length bs) t = trav_skip bs (length bs) ?t"
        using Suc.prems True Cons by (subst trav_skip.simps) (simp add: bk_first_def rd_in)
      then have "trav_out bs (length bs) t = trav_out bs (length bs) ?t" by (simp add: trav_out_def)
      then show ?thesis
        using trav_out_node [OF d True, of "[]" nd post ?t] Cons by (simp add: dr)
    qed
  qed
qed

lemma traverse_next:
  assumes m: "umap_ok V m" and a: "bk_array m = Some bs" and t: "trav_at bs t xs" "t_tid t = u_tid m"
  shows "case xs of
       [] \<Rightarrow> \<exists>t'. trav_step m t = Some (None, t')
     | nd # ys \<Rightarrow> \<exists>t'. trav_step m t = Some (Some nd, t') \<and> trav_at bs t' ys \<and> t_tid t' = u_tid m"
proof -
  note bk = umap_bs [OF m a]
  obtain pre nd post where t': "bk_current t < length bs" "bs ! bk_current t = pre @ nd # post"
    "t_head t = H_node (u_addr nd)" "xs = post @ concat (drop (Suc (bk_current t)) bs)"
    using t(1) unfolding trav_at_def by blast
  have db: "distinct (map u_addr (pre @ nd # post))"
  proof -
    have "bs = take (bk_current t) bs @ (pre @ nd # post) # drop (Suc (bk_current t)) bs"
      using id_take_nth_drop [OF t'(1)] t'(2) by simp
    then have "concat bs = concat (take (bk_current t) bs) @ (pre @ nd # post) @ concat (drop (Suc (bk_current t)) bs)"
      by (metis concat.simps(2) concat_append)
    then show ?thesis using bk(2) by (simp only: map_append distinct_append)
  qed
  show ?thesis
  proof (cases post)
    case Nil
    let ?t = "t\<lparr>t_head := H_bucket (bk_current t)\<rparr>"
    have "HXumap_traverse m t = trav_out bs (length bs) ?t"
      using t' t(2) node_next_split [OF db] Nil
      by (simp add: HXumap_traverse_def buckets_ok [OF a bk(1)] bk(3) head_next_def rd_in)
    then show ?thesis
      using trav_out_bucket [OF bk(2) t'(1), of ?t] t'(4) t(2) Nil
      by (auto simp: trav_step_def simp del: concat_eq_Nil_conv split: list.splits)
  next
    case (Cons n' post')
    let ?t = "t\<lparr>t_head := H_node (u_addr n')\<rparr>"
    have "HXumap_traverse m t = trav_out bs (length bs) ?t"
      using t' t(2) node_next_split [OF db] Cons
      by (simp add: HXumap_traverse_def buckets_ok [OF a bk(1)] bk(3) head_next_def rd_in)
    then show ?thesis
      using trav_out_node [OF bk(2) t'(1), of "pre @ [nd]" n' post' ?t] t'(2,4) t(2) Cons
      by (auto simp: trav_step_def)
  qed
qed

lemma traverse_first:
  assumes m: "umap_ok V m" and a: "bk_array m = Some bs"
    and t: "t_head t = H_null" "bk_current t = 0" "t_tid t = u_tid m"
  shows "case concat bs of
       [] \<Rightarrow> \<exists>t'. trav_step m t = Some (None, t')
     | nd # ys \<Rightarrow> \<exists>t'. trav_step m t = Some (Some nd, t') \<and> trav_at bs t' ys \<and> t_tid t' = u_tid m"
proof -
  note bk = umap_bs [OF m a]
  then obtain b rest where b: "bs = b # rest" by (cases bs) auto
  show ?thesis
  proof (cases b)
    case Nil
    let ?t = "t\<lparr>t_head := H_bucket 0\<rparr>"
    have "HXumap_traverse m t = trav_out bs (length bs) ?t"
      using t Nil b by (simp add: HXumap_traverse_def buckets_ok [OF a bk(1)] bk(3) bk_first_def rd_def)
    then show ?thesis
      using trav_out_bucket [OF bk(2), of 0 ?t] t Nil b by (auto simp: trav_step_def simp del: concat_eq_Nil_conv split: list.splits)
  next
    case (Cons n' post')
    let ?t = "t\<lparr>t_head := H_node (u_addr n')\<rparr>"
    have "HXumap_traverse m t = trav_out bs (length bs) ?t"
      using t Cons b by (simp add: HXumap_traverse_def buckets_ok [OF a bk(1)] bk(3) bk_first_def rd_def)
    then show ?thesis
      using trav_out_node [OF bk(2), of 0 "[]" n' post' ?t] t Cons b by (auto simp: trav_step_def)
  qed
qed

lemma trav_rest:
  assumes m: "umap_ok V m" and a: "bk_array m = Some bs"
  shows "trav_at bs t xs \<Longrightarrow> t_tid t = u_tid m \<Longrightarrow>
    \<exists>t1 t2. take_n (trav_step m) (length xs) t = Some (map Some xs, t1) \<and> trav_step m t1 = Some (None, t2)"
proof (induction xs arbitrary: t)
  case Nil
  then show ?case using traverse_next [OF m a Nil] by simp
next
  case (Cons x xs)
  then obtain t' where t': "trav_step m t = Some (Some x, t')" "trav_at bs t' xs" "t_tid t' = u_tid m"
    using traverse_next [OF m a Cons.prems] by auto
  then show ?case using Cons.IH [OF t'(2,3)] by auto
qed

section \<open>Properties\<close>

lemma init_ok:
  assumes "hash_laws (HXmap_ops_setup std True flags ks ops) V"
  obtains m where "HXhashmap_init4 std True True flags ops ks = Some (Some m)" "umap_ok V m"
    "u_ops m = HXmap_ops_setup std True flags ks ops" "u_nodes m = []" "u_flags m = flags" "power m = 0"
    "u_items m = 0"
proof -
  let ?o = "HXmap_ops_setup std True flags ks ops"
  let ?m = "\<lparr>u_items = 0, u_flags = flags, u_ops = ?o, bk_array = Some (replicate (HXhash_primes ! 0) []), power = 0,
    max_load = x_frac 7 10 (of_nat (HXhash_primes ! 0)), min_load = 0, u_tid = 1\<rparr>"
  have c: "concat (replicate n []) = ([] :: ('a, 'b) HXumap_node list)" for n by (rule concat_replicate_Nil)
  have "umap_ok V ?m"
    by (rule umap_okI [of _ _ "replicate (HXhash_primes ! 0) []"])
      (use assms in \<open>simp_all add: bk_ok_def nodes_ok_def c\<close>)
  then show thesis
    by (intro that [of ?m]) (simp_all add: HXhashmap_init4_def HXumap_layout_def Let_def u_nodes_def c)
qed

text \<open>A map of pointer values, hashed by their value, for the instances below.\<close>

definition val_user :: "(u64, u64) user_ops option" where
  "val_user = Some \<lparr>n_compare = None, n_kclone = None, n_kfree = False, n_dclone = None, n_dfree = False,
     n_hash = Some pval\<rparr>"

definition val_ops :: "(u64, u64) HXmap_ops" where
  "val_ops = HXmap_ops_setup val_std True 0 0 val_user"

definition val_map :: "(u64, u64) HXumap" where
  "val_map = \<lparr>u_items = 0, u_flags = 0, u_ops = val_ops, bk_array = Some (replicate 23 []), power = 0,
     max_load = 16, min_load = 0, u_tid = 1\<rparr>"

definition val_node :: "(u64, u64) HXumap_node" where
  "val_node = \<lparr>u_addr = 1, u_key = Some 5, u_data = Some 7\<rparr>"

definition val_map1 :: "(u64, u64) HXumap" where
  "val_map1 = val_map\<lparr>u_items := 1, bk_array := Some ((replicate 23 [])[5 := [val_node]])\<rparr>"

lemma val_ops_simps:
  "k_compare val_ops = HXmap_valuecmp" "k_clone val_ops = HXmap_valuecpy" "d_clone val_ops = HXmap_valuecpy"
  "k_hash val_ops = pval" "k_free val_ops = False" "d_free val_ops = False"
  by (simp_all add: val_ops_def HXmap_ops_setup_def val_std_def val_user_def or_user_def map_flags has_flag_def Let_def)

lemma val_laws: "hash_laws (HXmap_ops_setup val_std True 0 0 val_user) (\<lambda>_. True)"
  unfolding val_ops_def [symmetric]
  by (simp add: hash_laws_def clone_law_def val_ops_simps valuecmp_eq HXmap_valuecpy_def)

lemma val_init: "HXhashmap_init4 val_std True True 0 val_user 0 = Some (Some val_map)"
  by (simp add: val_map_def HXhashmap_init4_def HXumap_layout_def val_ops_def HXhash_primes_def x_frac_def)

lemma val_map_ok: "umap_ok (\<lambda>_. True) val_map" "u_nodes val_map = []"
  by (rule init_ok [OF val_laws]; simp add: val_init)+

lemma val_add: "HXumap_add val_map (Some 5) (Some 7) True (Some 1) = Some (Inr (), val_map1, [])"
  by (simp add: val_map1_def val_node_def val_map_def HXumap_add_def HXumap_find_def buckets_def HXhash_primes_def
      rd_def bk_index_def val_ops_simps HXumap_resize_def HXmap_valuecpy_def clone_failed_def bk_add_tail_def Let_def)

lemma val_good: "umap_good val_map (Some 5) (Some 7) (True, Some 1)"
  by (simp add: umap_good_def val_map_ok(2)) (simp add: val_map_def val_ops_simps clone_failed_def HXmap_valuecpy_def)

lemma val_map1_ok: "umap_ok (\<lambda>_. True) val_map1"
proof -
  have "umap_may val_map" by (simp add: umap_may_def val_map_def map_flags has_flag_def)
  moreover have "umap_add val_map (Some 5) (Some 7) (True, Some 1) = val_map1"
    unfolding umap_add_def fst_conv snd_conv val_add by simp
  ultimately show ?thesis using umap_add_law [OF val_map_ok(1) TrueI val_good] by metis
qed

lemma val_find: "HXumap_find val_map1 (Some k) = Some (if k = 5 then Some val_node else None)"
proof -
  have "unat k mod 23 < 23" by simp
  then show ?thesis
    by (simp add: HXumap_find_def buckets_def val_map1_def val_map_def HXhash_primes_def rd_def bk_index_def val_ops_simps
        nth_list_update val_node_def valuecmp_eq)
qed





text \<open>A deletion of an absent key sets \<open>ENOENT\<close> and changes nothing. A deletion of a present key
  returns its data, takes exactly that node out, whether or not the table could be shrunk, and releases the
  node's key, its data and the node, each once.\<close>

theorem HXumap_del_effect:
  assumes m: "umap_ok V m" and k: "V k"
  shows "\<exists>d err m' ev. HXumap_del m k l = Some (d, err, m', ev) \<and> umap_ok V m' \<and>
    (case HXumap_get m k of
       None \<Rightarrow> d = None \<and> err = Some ENOENT \<and> m' = m \<and> ev = []
     | Some x \<Rightarrow> d = x \<and> err = None \<and> u_items m' = u_items m - 1 \<and>
         (\<exists>n. key_eq (u_ops m) k (u_key n) \<and> mset (u_nodes m) = add_mset n (mset (u_nodes m')) \<and>
            ev = kfree (u_ops m) (u_key n) @ dfree (u_ops m) (u_data n) @ [EvNode (u_addr n)]))"
proof (rule get_cases [OF m k])
  fix n assume n: "n \<in> set (u_nodes m)" "key_eq (u_ops m) k (u_key n)" "HXumap_find m k = Some (Some n)"
    "HXumap_get m k = Some (u_data n)"
  show ?thesis by (rule del_hit_spec [OF m n(1,3), of l]) (use n(2,4) in auto)
next
  assume "HXumap_find m k = Some None" "HXumap_get m k = None"
  then show ?thesis using m by (simp add: HXumap_del_def)
qed

theorem HXumap_del_effect_witness:
  "\<exists>m' ev. HXumap_del val_map1 (Some 5) False = Some (Some 7, None, m', ev)"
  using HXumap_del_effect [OF val_map1_ok TrueI, of "Some 5" False]
  by (auto simp: HXumap_get_def val_find val_node_def)

text \<open>A traverser over an unmodified map returns every node of the map, bucket by bucket, once, and
  then \<^verbatim>\<open>NULL\<close>.\<close>

theorem HXumap_traverse_all:
  assumes m: "umap_ok V m" and t: "HXumap_travinit True m flags = Some t"
  shows "\<exists>t1 t2. take_n (trav_step m) (length (u_nodes m)) t = Some (map Some (u_nodes m), t1) \<and>
    trav_step m t1 = Some (None, t2)"
proof -
  obtain bs where a: "bk_array m = Some bs" by (rule umapD [OF m])
  have t0: "t_head t = H_null" "bk_current t = 0" "t_tid t = u_tid m"
    using t by (auto simp: HXumap_travinit_def)
  note u = umap_bs(5) [OF m a]
  show ?thesis
  proof (cases "concat bs")
    case Nil
    then show ?thesis using traverse_first [OF m a t0] unfolding u Nil by simp
  next
    case (Cons nd ys)
    then obtain t' where t': "trav_step m t = Some (Some nd, t')" "trav_at bs t' ys" "t_tid t' = u_tid m"
      using traverse_first [OF m a t0] by auto
    show ?thesis using trav_rest [OF m a t'(2,3)] t'(1) u Cons by auto
  qed
qed

theorem HXumap_traverse_all_witness:
  "\<exists>t1 t2. take_n (trav_step val_map1) (length (u_nodes val_map1))
       (the (HXumap_travinit True val_map1 0)) = Some (map Some (u_nodes val_map1), t1) \<and>
     trav_step val_map1 t1 = Some (None, t2)"
  by (rule HXumap_traverse_all [OF val_map1_ok, where flags = 0]) (simp add: HXumap_travinit_def)

text \<open>\<open>HXmap_keysvalues\<close> stays within its array and lists the same nodes in the same order;
  \<open>HXmap_qfe\<close> feeds them to the callback until it declines; \<open>HXmap_free\<close> releases the key, the
  data and the storage of each of them.\<close>

theorem HXumap_enumerations:
  assumes m: "umap_ok V m"
  shows "HXumap_keysvalues m = Some (map (\<lambda>n. (u_key n, u_data n)) (u_nodes m)) \<and>
    HXumap_qfe m (\<lambda>(k, d) s. (\<not> P k, s @ [(k, d)])) [] =
      Some (let kv = map (\<lambda>n. (u_key n, u_data n)) (u_nodes m)
            in take (Suc (length (takeWhile (\<lambda>(k, d). \<not> P k) kv))) kv) \<and>
    HXumap_free m = Some (concat (map (\<lambda>n. kfree (u_ops m) (u_key n) @ dfree (u_ops m) (u_data n) @ [EvNode (u_addr n)])
      (u_nodes m)))"
proof -
  obtain bs where bs: "bk_array m = Some bs" "bk_ok (u_ops m) (power m) bs" "nodes_ok V (u_ops m) (concat bs)"
    "u_items m = of_nat (length (concat bs))" "length (concat bs) < 2 ^ 64" "hash_laws (u_ops m) V"
    "u_nodes m = concat bs" "power m < length HXhash_primes" "length bs = HXhash_primes ! power m"
    by (rule umapD [OF m])
  have b: "buckets m = Some bs" by (rule buckets_ok [OF bs(1,2)])
  have n: "unat (u_items m) = length (concat bs)"
    unfolding bs(4) using bs(5) by (simp add: unat_of_nat take_bit_nat_eq_self)
  have q: "qfe_loop (\<lambda>n. (\<lambda>(k, d) s. (\<not> P k, s @ [(k, d)])) (u_key n, u_data n)) xs s =
    s @ (let kv = map (\<lambda>n. (u_key n, u_data n)) xs in take (Suc (length (takeWhile (\<lambda>(k, d). \<not> P k) kv))) kv)"
    for xs :: "('a, 'b) HXumap_node list" and s
    by (induction xs arbitrary: s) (auto simp: Let_def)
  show ?thesis unfolding HXumap_keysvalues_def HXumap_qfe_def HXumap_free_def b bs(7)
    using n q [of "concat bs" "[]"] by (simp add: Let_def)
qed

theorem HXumap_enumerations_witness:
  "HXumap_keysvalues val_map1 = Some (map (\<lambda>n. (u_key n, u_data n)) (u_nodes val_map1))"
  using HXumap_enumerations [OF val_map1_ok] by blast

text \<open>When the bucket array of a new map cannot be allocated, \<open>HXhashmap_init4\<close> does not return
  \<^verbatim>\<open>NULL\<close>: its error path hands the map without buckets to \<open>HXumap_free\<close>, which reads the
  buckets.\<close>

theorem HXhashmap_init4_null_buckets:
  "HXhashmap_init4 std True False flags ops ks = None"
  by (simp add: HXhashmap_init4_def HXumap_layout_def HXumap_free_def buckets_def Let_def)

end
