(* ===== verification/HX_Rbtree.thy ===== *)
theory HX_Rbtree
  imports HX_Contracts HX_Mapops
begin

text \<open>
  The red-black tree of \<^verbatim>\<open>src/map.c\<close> (\<^verbatim>\<open>HXrbtree_*\<close>): search, insertion with \<open>HXrbtree_amov\<close>,
  deletion with \<open>HXrbtree_del_mm\<close> and \<open>HXrbtree_dmov\<close>.

  The tree is a value. The arrays \<^verbatim>\<open>path\<close> and \<^verbatim>\<open>dir\<close> that the code fills on the way down are a list of
  frames, innermost first: frame \<^verbatim>\<open>i\<close> holds the direction taken at node \<^verbatim>\<open>path[i]\<close>, that node's data and
  colour, and its other subtree; \<^verbatim>\<open>depth\<close> is the number of frames plus one, the place of \<^verbatim>\<open>path[0]\<close> being
  taken by the root pointer of the map. An assignment through \<^verbatim>\<open>path[i]->sub[..]\<close> replaces what is put
  into the frame when the tree is put together again (\<open>plug\<close>). A direction is a \<open>bool\<close>, \<open>True\<close> being
  \<^verbatim>\<open>RBT_RIGHT\<close>. \<open>None\<close> is a dereference of \<^verbatim>\<open>NULL\<close> or a write behind the \<^verbatim>\<open>RBT_MAXDEP\<close> entries of the
  arrays.
\<close>

section \<open>Trees\<close>

datatype color = RBT_RED | RBT_BLACK

record ('k, 'd) rbinfo =
  rb_addr :: addr
  rb_key :: "'k option"
  rb_data :: "'d option"

datatype ('k, 'd) HXrbnode =
    RNull
  | RNode "('k, 'd) HXrbnode" "('k, 'd) rbinfo" color "('k, 'd) HXrbnode"

definition RBT_MAXDEP :: nat where "RBT_MAXDEP = 48"

type_synonym ('k, 'd) frame = "bool \<times> ('k, 'd) rbinfo \<times> color \<times> ('k, 'd) HXrbnode"

text \<open>\<open>mk d n c x y\<close> is the node with \<^verbatim>\<open>sub[d] = x\<close> and \<^verbatim>\<open>sub[!d] = y\<close>.\<close>

definition mk :: "bool \<Rightarrow> ('k, 'd) rbinfo \<Rightarrow> color \<Rightarrow> ('k, 'd) HXrbnode \<Rightarrow> ('k, 'd) HXrbnode \<Rightarrow> ('k, 'd) HXrbnode" where
  "mk d n c x y = (if d then RNode y n c x else RNode x n c y)"

fun sub :: "bool \<Rightarrow> ('k, 'd) HXrbnode \<Rightarrow> ('k, 'd) HXrbnode" where
  "sub d RNull = RNull"
| "sub d (RNode l n c r) = (if d then r else l)"

fun is_red :: "('k, 'd) HXrbnode \<Rightarrow> bool" where
  "is_red RNull = False"
| "is_red (RNode l n c r) = (c = RBT_RED)"

fun paint :: "color \<Rightarrow> ('k, 'd) HXrbnode \<Rightarrow> ('k, 'd) HXrbnode" where
  "paint c RNull = RNull"
| "paint c (RNode l n _ r) = RNode l n c r"

fun plug :: "('k, 'd) HXrbnode \<Rightarrow> ('k, 'd) frame list \<Rightarrow> ('k, 'd) HXrbnode" where
  "plug t [] = t"
| "plug t ((d, n, c, y) # fs) = plug (mk d n c t y) fs"

section \<open>Search\<close>

fun HXrbtree_find :: "('k, 'd) HXmap_ops \<Rightarrow> 'k option \<Rightarrow> ('k, 'd) HXrbnode \<Rightarrow> ('k, 'd) rbinfo option" where
  "HXrbtree_find ops key RNull = None"
| "HXrbtree_find ops key (RNode l n c r) =
     (let res = k_compare ops key (rb_key n) in
      if res = 0 then Some n
      else HXrbtree_find ops key (if res > 0 then r else l))"

text \<open>The loop that records the path; it writes entry \<^verbatim>\<open>depth\<close> of both arrays at every node that it passes.\<close>

fun rb_walk ::
  "('k, 'd) HXmap_ops \<Rightarrow> 'k option \<Rightarrow> ('k, 'd) HXrbnode \<Rightarrow> ('k, 'd) frame list \<Rightarrow>
     (('k, 'd) HXrbnode \<times> ('k, 'd) frame list) option" where
  "rb_walk ops key RNull fs = Some (RNull, fs)"
| "rb_walk ops key (RNode l n c r) fs =
     (let res = k_compare ops key (rb_key n) in
      if res = 0 then Some (RNode l n c r, fs)
      else if length fs + 1 \<ge> RBT_MAXDEP then None
      else if res > 0 then rb_walk ops key r ((True, n, c, l) # fs)
      else rb_walk ops key l ((False, n, c, r) # fs))"

section \<open>Rebalancing after an addition\<close>

text \<open>Case 4: \<^verbatim>\<open>newnode\<close> is the inner grandchild; a rotation at its parent puts it into the parent's place.\<close>

definition amov_rotate ::
  "bool \<Rightarrow> bool \<Rightarrow> ('k, 'd) rbinfo \<Rightarrow> color \<Rightarrow> ('k, 'd) HXrbnode \<Rightarrow> ('k, 'd) HXrbnode \<Rightarrow> ('k, 'd) HXrbnode option" where
  "amov_rotate LR d p pc newnode other =
     (if d \<noteq> LR then
        (case newnode of RNull \<Rightarrow> None
         | RNode _ n c _ \<Rightarrow>
             Some (mk LR n c (mk LR p pc other (sub LR newnode)) (sub (\<not> LR) newnode)))
      else Some (mk LR p pc newnode other))"

function HXrbtree_amov ::
  "('k, 'd) HXrbnode \<Rightarrow> ('k, 'd) frame list \<Rightarrow> u32 \<Rightarrow> (('k, 'd) HXrbnode \<times> u32) option" where
  "HXrbtree_amov z ((d, p, pc, s) # (LR, g, gc, uncle) # rest) tid =
     (if is_red uncle then
        let t = mk LR g RBT_RED (mk d p RBT_BLACK z s) (paint RBT_BLACK uncle) in
        (case rest of
           (_, _, RBT_RED, _) # _ # _ \<Rightarrow> HXrbtree_amov t rest tid
         | _ \<Rightarrow> Some (plug t rest, tid))
      else
        (case amov_rotate LR d p pc z s of
           Some (RNode pl pn _ pr) \<Rightarrow>
             let parent = RNode pl pn RBT_BLACK pr in
             Some (plug (mk LR pn RBT_BLACK (sub LR parent)
                           (mk LR g RBT_RED (sub (\<not> LR) parent) uncle)) rest, tid + 1)
         | _ \<Rightarrow> None))"
| "HXrbtree_amov z [] tid = None"
| "HXrbtree_amov z [f] tid = None"
  by pat_completeness auto
termination by (relation "measure (\<lambda>(z, fs, tid). length fs)") auto

section \<open>Addition\<close>

record ('k, 'd) HXrbtree =
  r_items :: u64
  r_flags :: u32
  r_ops :: "('k, 'd) HXmap_ops"
  rb_root :: "('k, 'd) HXrbnode"
  r_tid :: u32

definition HXrbtree_init4 ::
  "('k, 'd) std_fns \<Rightarrow> bool \<Rightarrow> u32 \<Rightarrow> ('k, 'd) user_ops option \<Rightarrow> u64 \<Rightarrow> ('k, 'd) HXrbtree option" where
  "HXrbtree_init4 std ok flags ops key_size =
     (if ok then Some \<lparr>r_items = 0, r_flags = flags, r_ops = HXmap_ops_setup std False flags key_size ops,
        rb_root = RNull, r_tid = 1\<rparr>
      else None)"

text \<open>\<open>replace_at\<close> is the node with its data replaced.\<close>

fun set_rb_data :: "'d option \<Rightarrow> ('k, 'd) HXrbnode \<Rightarrow> ('k, 'd) HXrbnode" where
  "set_rb_data v RNull = RNull"
| "set_rb_data v (RNode l n c r) = RNode l (n\<lparr>rb_data := v\<rparr>) c r"

definition HXrbtree_replace ::
  "('k, 'd) HXrbtree \<Rightarrow> ('k, 'd) HXrbnode \<Rightarrow> ('k, 'd) frame list \<Rightarrow> ('k, 'd) rbinfo \<Rightarrow> 'd option \<Rightarrow>
     (errno + unit) \<times> ('k, 'd) HXrbtree \<times> ('k, 'd) ev list" where
  "HXrbtree_replace b node fs n val =
     (if \<not> has_flag (r_flags b) HXMAP_NOREPLACE then (Inl EEXIST, b, [])
      else let new_value = d_clone (r_ops b) val in
        if clone_failed new_value val then (Inl ENOMEM, b, [])
        else (Inr (), b\<lparr>rb_root := plug (set_rb_data new_value node) fs\<rparr>, dfree (r_ops b) (rb_data n)))"

text \<open>The error path of an addition applies \<^verbatim>\<open>d_free\<close> to the new node's key.\<close>

definition add_undo :: "('k, 'd) HXmap_ops \<Rightarrow> 'k option \<Rightarrow> addr \<Rightarrow> ('k, 'd) ev list" where
  "add_undo ops k a = kfree ops k @ (if d_free ops then [EvDFreeKey k] else []) @ [EvNode a]"

definition HXrbtree_add ::
  "('k, 'd) HXrbtree \<Rightarrow> 'k option \<Rightarrow> 'd option \<Rightarrow> ptr \<Rightarrow>
     ((errno + unit) \<times> ('k, 'd) HXrbtree \<times> ('k, 'd) ev list) option" where
  "HXrbtree_add b key val mem = do {
     (node, fs) \<leftarrow> rb_walk (r_ops b) key (rb_root b) [];
     case node of
       RNode l n c r \<Rightarrow> Some (HXrbtree_replace b node fs n val)
     | RNull \<Rightarrow>
         (case mem of
            None \<Rightarrow> Some (Inl ENOMEM, b, [])
          | Some a \<Rightarrow>
              (let k = k_clone (r_ops b) key in
               if clone_failed k key then Some (Inl ENOMEM, b, add_undo (r_ops b) k a)
               else let d = d_clone (r_ops b) val in
               if clone_failed d val then Some (Inl ENOMEM, b, add_undo (r_ops b) k a)
               else let new = RNode RNull \<lparr>rb_addr = a, rb_key = k, rb_data = d\<rparr> RBT_RED RNull in
               do {
                 (root, tid) \<leftarrow>
                   (case fs of
                      (_, _, RBT_RED, _) # _ # _ \<Rightarrow> HXrbtree_amov new fs (r_tid b)
                    | _ \<Rightarrow> Some (plug new fs, r_tid b));
                 Some (Inr (), b\<lparr>r_items := r_items b + 1, rb_root := paint RBT_BLACK root, r_tid := tid\<rparr>, [])
               }))
   }"

section \<open>Rebalancing after a deletion\<close>

text \<open>\<open>del_min\<close> is the walk to the leftmost node below \<^verbatim>\<open>io_node\<close>, which has a left child: the node, and the
  frames of the parents passed. \<open>HXrbtree_del_mm\<close> puts that node, with the colour of the deleted one, into the
  place of the deleted one; the result is the subtree that takes the moved node's old place, the frames
  above it and the moved node's old colour.\<close>

fun del_min ::
  "('k, 'd) HXrbnode \<Rightarrow> ('k, 'd) frame list \<Rightarrow> nat \<Rightarrow>
     (('k, 'd) HXrbnode \<times> ('k, 'd) rbinfo \<times> color \<times> ('k, 'd) frame list) option" where
  "del_min RNull fs depth = None"
| "del_min (RNode l n c r) fs depth =
     (case l of
        RNull \<Rightarrow> Some (r, n, c, fs)
      | _ \<Rightarrow> if depth \<ge> RBT_MAXDEP then None else del_min l ((False, n, c, r) # fs) (depth + 1))"

definition HXrbtree_del_mm ::
  "('k, 'd) HXrbnode \<Rightarrow> color \<Rightarrow> ('k, 'd) HXrbnode \<Rightarrow> ('k, 'd) frame list \<Rightarrow>
     (('k, 'd) HXrbnode \<times> ('k, 'd) frame list \<times> color) option" where
  "HXrbtree_del_mm left c right fs =
     (case right of
        RNull \<Rightarrow> None
      | RNode RNull n ioc r \<Rightarrow> Some (r, (True, n, c, left) # fs, ioc)
      | _ \<Rightarrow> do {
          (x, n, ioc, below) \<leftarrow> del_min right [] (length fs + 2);
          Some (x, below @ (True, n, c, left) # fs, ioc)
        })"

text \<open>Case 2 turns the sibling black by a rotation at the parent, which moves one level down.\<close>

definition dmov_case2 :: "('k, 'd) frame list \<Rightarrow> ('k, 'd) frame list option" where
  "dmov_case2 fs =
     (case fs of
        (LR, p, pc, RNode l n RBT_RED r) # rest \<Rightarrow>
          if length fs + 1 \<ge> RBT_MAXDEP then None
          else let w = RNode l n RBT_BLACK r in
            Some ((LR, p, RBT_RED, sub LR w) # (LR, n, RBT_BLACK, sub (\<not> LR) w) # rest)
      | (_, _, _, RNull) # _ \<Rightarrow> None
      | _ \<Rightarrow> Some fs)"

text \<open>Case 5 turns a red inner nephew into a red outer one.\<close>

definition dmov_case5 :: "bool \<Rightarrow> ('k, 'd) HXrbnode \<Rightarrow> ('k, 'd) HXrbnode option" where
  "dmov_case5 LR w =
     (case w of
        RNull \<Rightarrow> None
      | RNode _ wn _ _ \<Rightarrow>
          if is_red (sub (\<not> LR) w) then Some w
          else (case sub LR w of
              RNull \<Rightarrow> None
            | RNode yl yn _ yr \<Rightarrow>
                let y = RNode yl yn RBT_BLACK yr in
                Some (mk LR yn RBT_BLACK (sub LR y) (mk LR wn RBT_RED (sub (\<not> LR) y) (sub (\<not> LR) w)))))"

definition dmov_case6 ::
  "bool \<Rightarrow> ('k, 'd) rbinfo \<Rightarrow> color \<Rightarrow> ('k, 'd) HXrbnode \<Rightarrow> ('k, 'd) HXrbnode \<Rightarrow> ('k, 'd) HXrbnode option" where
  "dmov_case6 LR p pc x w =
     (case w of
        RNull \<Rightarrow> None
      | RNode _ wn _ _ \<Rightarrow>
          (case sub (\<not> LR) w of
             RNull \<Rightarrow> None
           | outer \<Rightarrow> Some (mk LR wn pc (mk LR p RBT_BLACK x (sub LR w)) (paint RBT_BLACK outer))))"

function HXrbtree_dmov :: "('k, 'd) HXrbnode \<Rightarrow> ('k, 'd) frame list \<Rightarrow> ('k, 'd) HXrbnode option" where
  "HXrbtree_dmov x fs =
     (if is_red x then Some (plug (paint RBT_BLACK x) fs)
      else if fs = [] then Some x
      else (case dmov_case2 fs of
          Some ((LR, p, pc, w) # rest) \<Rightarrow>
            if w = RNull then None
            else if \<not> is_red (sub LR w) \<and> \<not> is_red (sub (\<not> LR) w)
            then HXrbtree_dmov (mk LR p pc x (paint RBT_RED w)) rest
            else do {
              w \<leftarrow> dmov_case5 LR w;
              t \<leftarrow> dmov_case6 LR p pc x w;
              Some (plug t rest)
            }
        | _ \<Rightarrow> None))"
  by pat_completeness auto
termination
proof (relation "measure (\<lambda>(x, fs). 2 * length fs + (if is_red x then 0 else 1))", simp_all, goal_cases)
  case (1 x fs LR p pc w rest)
  then show ?case
    by (auto simp: dmov_case2_def mk_def Let_def split: list.splits HXrbnode.splits color.splits if_splits)
qed

declare HXrbtree_dmov.simps [simp del]

section \<open>Deletion\<close>

text \<open>An empty tree is left without setting \<^verbatim>\<open>errno\<close>: \<open>old\<close> is its value before the call.\<close>

definition HXrbtree_del ::
  "('k, 'd) HXrbtree \<Rightarrow> 'k option \<Rightarrow> errno option \<Rightarrow>
     ('d option \<times> errno option \<times> ('k, 'd) HXrbtree \<times> ('k, 'd) ev list) option" where
  "HXrbtree_del b key old =
     (if rb_root b = RNull then Some (None, old, b, [])
      else do {
        (node, fs) \<leftarrow> rb_walk (r_ops b) key (rb_root b) [];
        case node of
          RNull \<Rightarrow> Some (None, Some ENOENT, b, [])
        | RNode l n c r \<Rightarrow>
            if length fs + 1 \<ge> RBT_MAXDEP then None
            else do {
              (x, fs, col) \<leftarrow> (if r = RNull then Some (l, fs, c) else if l = RNull then Some (r, fs, c)
                              else HXrbtree_del_mm l c r fs);
              root \<leftarrow> (if col = RBT_BLACK then HXrbtree_dmov x fs else Some (plug x fs));
              Some (rb_data n, None, b\<lparr>r_items := r_items b - 1, r_tid := r_tid b + 1, rb_root := root\<rparr>,
                kfree (r_ops b) (rb_key n) @ dfree (r_ops b) (rb_data n) @ [EvNode (rb_addr n)])
            }
      })"

end
