(* ===== verification/HX_Rbinv.thy ===== *)
theory HX_Rbinv
  imports HX_Rbtree
begin

text \<open>
  The structural invariants of the red-black tree and the proof that rebalancing restores them.

  \<open>bal\<close> is the colour rule together with the black-height rule. A list of frames is a \<open>context\<close> of black
  height \<open>h\<close> when every balanced subtree of that height with a suitable root colour can be put into it.
  Rebalancing after an addition starts from a red node in a context whose innermost node is red;
  rebalancing after a deletion from a subtree that is one black node short of its context.
\<close>

section \<open>Invariants\<close>

fun inorder :: "('k, 'd) HXrbnode \<Rightarrow> ('k, 'd) rbinfo list" where
  "inorder RNull = []"
| "inorder (RNode l n c r) = inorder l @ n # inorder r"

fun bheight :: "('k, 'd) HXrbnode \<Rightarrow> nat" where
  "bheight RNull = 0"
| "bheight (RNode l n c r) = bheight l + (if c = RBT_BLACK then 1 else 0)"

fun bal :: "('k, 'd) HXrbnode \<Rightarrow> bool" where
  "bal RNull = True"
| "bal (RNode l n c r) =
     (bal l \<and> bal r \<and> bheight l = bheight r \<and> (c = RBT_RED \<longrightarrow> \<not> is_red l \<and> \<not> is_red r))"

definition rb_ok :: "('k, 'd) HXrbnode \<Rightarrow> bool" where
  "rb_ok t \<longleftrightarrow> bal t \<and> \<not> is_red t"

fun top_black :: "('k, 'd) frame list \<Rightarrow> bool" where
  "top_black [] = False"
| "top_black ((d, n, c, y) # fs) = (c = RBT_BLACK)"

text \<open>A red node is not at the root and has a black sibling subtree and a black parent.\<close>

fun ctx :: "('k, 'd) frame list \<Rightarrow> nat \<Rightarrow> bool" where
  "ctx [] h = True"
| "ctx ((d, n, c, y) # fs) h =
     (bal y \<and> bheight y = h \<and> (c = RBT_RED \<longrightarrow> \<not> is_red y \<and> top_black fs) \<and>
      ctx fs (h + (if c = RBT_BLACK then 1 else 0)))"

fun linor :: "('k, 'd) frame list \<Rightarrow> ('k, 'd) rbinfo list" where
  "linor [] = []"
| "linor ((d, n, c, y) # fs) = (if d then linor fs @ inorder y @ [n] else linor fs)"

fun rinor :: "('k, 'd) frame list \<Rightarrow> ('k, 'd) rbinfo list" where
  "rinor [] = []"
| "rinor ((d, n, c, y) # fs) = (if d then rinor fs else n # inorder y @ rinor fs)"

section \<open>Nodes and contexts\<close>

named_theorems rb_simps "evaluation of directed nodes"

lemma mk_simps [rb_simps]:
  "sub d (mk d n c x y) = x" "sub (\<not> d) (mk d n c x y) = y" "is_red (mk d n c x y) = (c = RBT_RED)"
  "mk d n c x y \<noteq> RNull" "paint c' (mk d n c x y) = mk d n c' x y"
  "inorder (mk d n c x y) = (if d then inorder y @ n # inorder x else inorder x @ n # inorder y)"
  by (auto simp: mk_def)

lemma mk_bal [rb_simps]:
  "bal (mk d n c x y) \<longleftrightarrow>
     bal x \<and> bal y \<and> bheight x = bheight y \<and> (c = RBT_RED \<longrightarrow> \<not> is_red x \<and> \<not> is_red y)"
  by (auto simp: mk_def)

lemma mk_bheight: "bheight x = bheight y \<Longrightarrow> bheight (mk d n c x y) = bheight x + (if c = RBT_BLACK then 1 else 0)"
  by (auto simp: mk_def)

lemma mk_of: "RNode l n c r = mk d n c (sub d (RNode l n c r)) (sub (\<not> d) (RNode l n c r))"
  by (auto simp: mk_def)

lemma color_cases [simp]: "c \<noteq> RBT_RED \<longleftrightarrow> c = RBT_BLACK" "c \<noteq> RBT_BLACK \<longleftrightarrow> c = RBT_RED"
  by (cases c; simp)+

lemma paint_simps [simp]:
  "inorder (paint c t) = inorder t" "paint c t = RNull \<longleftrightarrow> t = RNull" "is_red (paint RBT_BLACK t) = False"
  by (cases t; simp)+

lemma bal_paint_black: "bal t \<Longrightarrow> bal (paint RBT_BLACK t)"
  by (cases t) auto

lemma rb_ok_paint: "bal t \<Longrightarrow> rb_ok (paint RBT_BLACK t)"
  by (simp add: rb_ok_def bal_paint_black)

lemma bheight_paint: "is_red t \<Longrightarrow> bheight (paint RBT_BLACK t) = Suc (bheight t)"
  by (cases t) auto

lemma bheight_paint_red: "\<not> is_red t \<Longrightarrow> t \<noteq> RNull \<Longrightarrow> Suc (bheight (paint RBT_RED t)) = bheight t"
  by (cases t) auto

lemma plug_inorder [simp]: "inorder (plug t fs) = linor fs @ inorder t @ rinor fs"
  by (induction t fs rule: plug.induct) (auto simp: rb_simps)

lemma plug_bal: "ctx fs (bheight t) \<Longrightarrow> bal t \<Longrightarrow> is_red t \<Longrightarrow> top_black fs \<or> fs = [] \<Longrightarrow> bal (plug t fs)"
  "ctx fs (bheight t) \<Longrightarrow> bal t \<Longrightarrow> \<not> is_red t \<Longrightarrow> bal (plug t fs)"
proof -
  have "bal (plug t fs)" if "ctx fs (bheight t)" "bal t" "is_red t \<longrightarrow> top_black fs \<or> fs = []"
    using that
  proof (induction t fs rule: plug.induct)
    case (2 t d n c y fs)
    then have p: "bheight y = bheight t" "bal y" "c = RBT_RED \<longrightarrow> \<not> is_red y \<and> top_black fs"
      "ctx fs (bheight t + (if c = RBT_BLACK then 1 else 0))" by simp_all
    have h: "bheight (mk d n c t y) = bheight t + (if c = RBT_BLACK then 1 else 0)"
      by (rule mk_bheight [OF p(1) [symmetric]])
    have "bal (mk d n c t y)" using 2(3,4) p(1-3) by (auto simp: mk_bal)
    then show ?case using 2(1) p(3,4) h by (simp add: mk_simps)
  qed simp
  then show "ctx fs (bheight t) \<Longrightarrow> bal t \<Longrightarrow> is_red t \<Longrightarrow> top_black fs \<or> fs = [] \<Longrightarrow> bal (plug t fs)"
    "ctx fs (bheight t) \<Longrightarrow> bal t \<Longrightarrow> \<not> is_red t \<Longrightarrow> bal (plug t fs)" by blast+
qed

lemma plug_red: "ctx fs h \<Longrightarrow> fs \<noteq> [] \<Longrightarrow> \<not> is_red (plug t fs)"
proof (induction t fs arbitrary: h rule: plug.induct)
  case (2 t d n c y fs)
  then show ?case by (cases fs) (auto simp: rb_simps)
qed simp

lemma plug_rb_ok: "ctx fs (bheight t) \<Longrightarrow> bal t \<Longrightarrow> \<not> is_red t \<Longrightarrow> rb_ok (plug t fs)"
proof (cases "fs = []")
  case False
  assume "ctx fs (bheight t)" "bal t" "\<not> is_red t"
  then show "rb_ok (plug t fs)" using plug_bal(2) plug_red [OF _ False] unfolding rb_ok_def by blast
qed (simp add: rb_ok_def)

section \<open>The walk\<close>

text \<open>What a walk from the root leaves: the subtree and its context are balanced.\<close>

lemma walk_ctx:
  assumes "rb_walk ops key t fs = Some (u, fs')" "bal t" "ctx fs (bheight t)" "is_red t \<longrightarrow> top_black fs"
  shows "bal u \<and> ctx fs' (bheight u) \<and> (is_red u \<longrightarrow> top_black fs') \<and> plug u fs' = plug t fs"
  using assms
proof (induction ops key t fs rule: rb_walk.induct)
  case (2 ops key l n c r fs)
  let ?h = "bheight l + (if c = RBT_BLACK then 1 else 0)"
  have b: "bal l" "bal r" "bheight r = bheight l" "c = RBT_RED \<longrightarrow> \<not> is_red l \<and> \<not> is_red r" "ctx fs ?h"
    "c = RBT_RED \<longrightarrow> top_black fs" using "2.prems"(2-4) by simp_all
  have c: "is_red l \<longrightarrow> c = RBT_BLACK" "is_red r \<longrightarrow> c = RBT_BLACK" using b(4) by (cases c; simp)+
  let ?res = "k_compare ops key (rb_key n)"
  consider "?res = 0" | "?res > 0" | "?res < 0" by linarith
  then show ?case
  proof cases
    case 1
    then have "u = RNode l n c r" "fs' = fs" using "2.prems"(1) by (simp_all add: Let_def)
    then show ?thesis using "2.prems"(2-4) by blast
  next
    case 2
    then have w: "rb_walk ops key r ((True, n, c, l) # fs) = Some (u, fs')" "\<not> RBT_MAXDEP \<le> length fs + 1"
      using "2.prems"(1) by (simp_all add: Let_def split: if_splits)
    have x: "ctx ((True, n, c, l) # fs) (bheight r)" "is_red r \<longrightarrow> top_black ((True, n, c, l) # fs)"
      unfolding ctx.simps top_black.simps b(3) using b c(2) by blast+
    have "bal u \<and> ctx fs' (bheight u) \<and> (is_red u \<longrightarrow> top_black fs') \<and> plug u fs' = plug r ((True, n, c, l) # fs)"
      by (rule "2.IH"(1) [OF refl _ w(2) _ w(1) b(2) x]) (use 2 in simp_all)
    then show ?thesis by (simp add: mk_def)
  next
    case 3
    then have w: "rb_walk ops key l ((False, n, c, r) # fs) = Some (u, fs')" "\<not> RBT_MAXDEP \<le> length fs + 1"
      using "2.prems"(1) by (simp_all add: Let_def split: if_splits)
    have x: "ctx ((False, n, c, r) # fs) (bheight l)" "is_red l \<longrightarrow> top_black ((False, n, c, r) # fs)"
      unfolding ctx.simps top_black.simps b(3) using b c(1) by blast+
    have "bal u \<and> ctx fs' (bheight u) \<and> (is_red u \<longrightarrow> top_black fs') \<and> plug u fs' = plug l ((False, n, c, r) # fs)"
      by (rule "2.IH"(2) [OF refl _ w(2) _ w(1) b(1) x]) (use 3 in simp_all)
    then show ?thesis by (simp add: mk_def)
  qed
qed auto

lemma walk_length: "rb_walk ops key t fs = Some (u, fs') \<Longrightarrow> length fs \<le> length fs'"
  by (induction ops key t fs rule: rb_walk.induct) (auto simp: Let_def split: if_splits)

section \<open>Addition\<close>

lemma amov_rotate_spec:
  assumes z: "is_red z" "bal z" and s: "bal s" "bheight s = bheight z" "\<not> is_red s"
  obtains x y n where "amov_rotate LR d p RBT_RED z s = Some (mk LR n RBT_RED x y)"
    "bal x" "bal y" "bheight x = bheight z" "bheight y = bheight z" "is_red x" "\<not> is_red y"
    "(if LR then inorder y @ n # inorder x else inorder x @ n # inorder y) =
     (if d then inorder s @ p # inorder z else inorder z @ p # inorder s)"
proof (cases "d = LR")
  case True
  then show thesis using assms by (intro that [of p z s]) (auto simp: amov_rotate_def)
next
  case False
  obtain l n c r where zz: "z = RNode l n c r" using z(1) by (cases z) auto
  show thesis
    by (rule that [of n "mk LR p RBT_RED s (sub LR z)" "sub (\<not> LR) z"])
      (use False zz assms in \<open>auto simp: amov_rotate_def rb_simps mk_bheight\<close>)
qed

lemma amov_ok:
  "is_red z \<Longrightarrow> bal z \<Longrightarrow> ctx fs (bheight z) \<Longrightarrow> fs \<noteq> [] \<Longrightarrow> \<not> top_black fs \<Longrightarrow>
   \<exists>t tid'. HXrbtree_amov z fs tid = Some (t, tid') \<and> rb_ok (paint RBT_BLACK t) \<and>
     inorder t = linor fs @ inorder z @ rinor fs"
proof (induction z fs tid rule: HXrbtree_amov.induct)
  case (1 z d p pc s LR g gc uncle rest tid)
  have pc: "pc = RBT_RED" "gc = RBT_BLACK" "bal s" "bheight s = bheight z" "\<not> is_red s"
    "bal uncle" "bheight uncle = bheight z" "ctx rest (Suc (bheight z))"
    using "1.prems" by (auto split: if_splits)
  show ?case
  proof (cases "is_red uncle")
    case True
    let ?t = "mk LR g RBT_RED (mk d p RBT_BLACK z s) (paint RBT_BLACK uncle)"
    have t: "is_red ?t" "bal ?t" "bheight ?t = Suc (bheight z)"
      using pc True "1.prems" by (auto simp: rb_simps mk_bheight bheight_paint bal_paint_black)
    have io: "linor rest @ inorder ?t @ rinor rest =
        linor ((d, p, pc, s) # (LR, g, gc, uncle) # rest) @ inorder z @ rinor ((d, p, pc, s) # (LR, g, gc, uncle) # rest)"
      by (auto simp: rb_simps)
    show ?thesis
    proof (cases "rest = [] \<or> top_black rest")
      case T: True
      then have "HXrbtree_amov z ((d, p, pc, s) # (LR, g, gc, uncle) # rest) tid = Some (plug ?t rest, tid)"
        using True by (cases rest rule: top_black.cases) (auto simp: Let_def split: list.splits)
      moreover have "bal (plug ?t rest)" using t pc(8) T by (intro plug_bal(1)) auto
      ultimately show ?thesis using io by (simp add: rb_ok_paint)
    next
      case F: False
      then obtain e n y f fs where r: "rest = (e, n, RBT_RED, y) # f # fs"
        using pc(8) by (cases rest rule: top_black.cases) (auto elim: top_black.elims)
      have "HXrbtree_amov z ((d, p, pc, s) # (LR, g, gc, uncle) # rest) tid = HXrbtree_amov ?t rest tid"
        using True r by (simp add: Let_def)
      moreover have "\<exists>t' tid'. HXrbtree_amov ?t rest tid = Some (t', tid') \<and> rb_ok (paint RBT_BLACK t') \<and>
          inorder t' = linor rest @ inorder ?t @ rinor rest"
        by (rule "1.IH" [OF True refl r refl refl refl refl refl]) (use t pc(8) r in auto)
      ultimately show ?thesis using io by simp
    qed
  next
    case False
    obtain x y n where ro: "amov_rotate LR d p RBT_RED z s = Some (mk LR n RBT_RED x y)"
      "bal x" "bal y" "bheight x = bheight z" "bheight y = bheight z" "is_red x" "\<not> is_red y"
      "(if LR then inorder y @ n # inorder x else inorder x @ n # inorder y) =
       (if d then inorder s @ p # inorder z else inorder z @ p # inorder s)"
      by (rule amov_rotate_spec [OF "1.prems"(1,2) pc(3-5)])
    let ?t = "mk LR n RBT_BLACK x (mk LR g RBT_RED y uncle)"
    have a: "HXrbtree_amov z ((d, p, pc, s) # (LR, g, gc, uncle) # rest) tid = Some (plug ?t rest, tid + 1)"
      using False ro(1) pc(1) by (simp add: Let_def mk_def split: if_splits)
    have "bal ?t" "bheight ?t = Suc (bheight z)" "\<not> is_red ?t"
      using ro pc False by (auto simp: rb_simps mk_bheight)
    then have "rb_ok (plug ?t rest)" using pc(8) by (intro plug_rb_ok) auto
    then have "rb_ok (paint RBT_BLACK (plug ?t rest))" by (simp add: rb_ok_def bal_paint_black)
    moreover have "inorder (plug ?t rest) =
        linor ((d, p, pc, s) # (LR, g, gc, uncle) # rest) @ inorder z @ rinor ((d, p, pc, s) # (LR, g, gc, uncle) # rest)"
      using ro(8) by (auto simp: rb_simps split: if_splits)
    ultimately show ?thesis using a by simp
  qed
qed auto

section \<open>Deletion\<close>

lemma plug_rb_ok': "ctx fs (bheight t) \<Longrightarrow> bal t \<Longrightarrow> is_red t \<longrightarrow> top_black fs \<Longrightarrow> rb_ok (plug t fs)"
proof (cases "is_red t")
  case True
  assume "ctx fs (bheight t)" "bal t" "is_red t \<longrightarrow> top_black fs"
  moreover then have "fs \<noteq> []" using True by auto
  ultimately show "rb_ok (plug t fs)" using plug_bal(1) plug_red True unfolding rb_ok_def by blast
qed (rule plug_rb_ok)

lemma case2_spec:
  assumes "ctx ((LR, p, pc, w) # rest) h" "0 < h" "length rest + 2 < RBT_MAXDEP"
  obtains pc' w' rest' where "dmov_case2 ((LR, p, pc, w) # rest) = Some ((LR, p, pc', w') # rest')"
    "ctx ((LR, p, pc', w') # rest') h" "\<not> is_red w'" "w' \<noteq> RNull" "length rest' \<le> Suc (length rest)"
    "is_red w \<longrightarrow> pc' = RBT_RED" "\<not> is_red w \<longrightarrow> rest' = rest"
    "linor ((LR, p, pc', w') # rest') = linor ((LR, p, pc, w) # rest)"
    "rinor ((LR, p, pc', w') # rest') = rinor ((LR, p, pc, w) # rest)"
proof -
  have w: "bal w" "bheight w = h" "pc = RBT_RED \<longrightarrow> \<not> is_red w \<and> top_black rest"
    "ctx rest (h + (if pc = RBT_BLACK then 1 else 0))" using assms(1) by simp_all
  show thesis
  proof (cases "is_red w")
    case True
    then obtain l n r where ww: "w = RNode l n RBT_RED r" by (cases w) auto
    have pb: "pc = RBT_BLACK" using True w(3) by (cases pc) auto
    let ?a = "sub LR (RNode l n RBT_BLACK r)" and ?b = "sub (\<not> LR) (RNode l n RBT_BLACK r)"
    have ch: "bal l" "bal r" "bheight l = h" "bheight r = h" "\<not> is_red l" "\<not> is_red r"
      using w(1,2) unfolding ww by simp_all
    then have c: "bal ?a" "bal ?b" "bheight ?a = h" "bheight ?b = h" "\<not> is_red ?a" "\<not> is_red ?b" by simp_all
    have "?a \<noteq> RNull" using c(3) assms(2) by (metis bheight.simps(1) less_numeral_extra(3))
    moreover have "ctx ((LR, p, RBT_RED, ?a) # (LR, n, RBT_BLACK, ?b) # rest) h"
      using c w(4) pb unfolding ctx.simps top_black.simps by simp
    moreover have "dmov_case2 ((LR, p, pc, w) # rest) = Some ((LR, p, RBT_RED, ?a) # (LR, n, RBT_BLACK, ?b) # rest)"
      using assms(3) by (simp add: dmov_case2_def ww Let_def)
    ultimately show thesis using c(5) True by (intro that [of RBT_RED ?a "(LR, n, RBT_BLACK, ?b) # rest"]) (auto simp: ww)
  next
    case False
    have "w \<noteq> RNull" using w(2) assms(2) by auto
    moreover have "dmov_case2 ((LR, p, pc, w) # rest) = Some ((LR, p, pc, w) # rest)"
      using False \<open>w \<noteq> RNull\<close> by (cases w) (auto simp: dmov_case2_def split: color.splits)
    ultimately show thesis using False assms(1) by (intro that [of pc w rest]) auto
  qed
qed

lemma case5_spec:
  assumes "bal w" "\<not> is_red w" "w \<noteq> RNull" "is_red (sub LR w) \<or> is_red (sub (\<not> LR) w)"
  obtains n a b where "dmov_case5 LR w = Some (mk LR n RBT_BLACK a b)" "is_red b" "bal a" "bal b"
    "bheight a = bheight b" "bheight w = Suc (bheight a)"
    "(if LR then inorder b @ n # inorder a else inorder a @ n # inorder b) = inorder w"
proof -
  obtain l wn r where w: "w = RNode l wn RBT_BLACK r" using assms(2,3) by (cases w) auto
  let ?i = "sub LR w" and ?o = "sub (\<not> LR) w"
  have c: "bal ?i" "bal ?o" "bheight ?i = bheight ?o" "bheight w = Suc (bheight ?i)"
    "inorder w = (if LR then inorder ?o @ wn # inorder ?i else inorder ?i @ wn # inorder ?o)"
    using assms(1) unfolding w by auto
  show thesis
  proof (cases "is_red ?o")
    case True
    have d0: "dmov_case5 LR w = Some w" using True by (simp add: dmov_case5_def w)
    have e: "w = mk LR wn RBT_BLACK ?i ?o" unfolding w by (rule mk_of)
    have d: "dmov_case5 LR w = Some (mk LR wn RBT_BLACK ?i ?o)"
      by (rule trans [OF d0 arg_cong [OF e, where f = Some]])
    show thesis by (rule that [OF d True c(1-4)]) (rule c(5) [symmetric])
  next
    case False
    then obtain yl yn yr where y: "?i = RNode yl yn RBT_RED yr" using assms(4) by (cases ?i) auto
    let ?y = "RNode yl yn RBT_BLACK yr"
    have yc: "bal (sub LR ?y)" "bal (sub (\<not> LR) ?y)" "bheight (sub LR ?y) = bheight ?o"
      "bheight (sub (\<not> LR) ?y) = bheight ?o" "\<not> is_red (sub (\<not> LR) ?y)"
      "inorder ?i = (if LR then inorder (sub (\<not> LR) ?y) @ yn # inorder (sub LR ?y)
         else inorder (sub LR ?y) @ yn # inorder (sub (\<not> LR) ?y))"
      using c(1,3) unfolding y by auto
    have d: "dmov_case5 LR w = Some (mk LR yn RBT_BLACK (sub LR ?y) (mk LR wn RBT_RED (sub (\<not> LR) ?y) ?o))"
      using False y by (simp add: dmov_case5_def w Let_def)
    have h: "bheight (mk LR wn RBT_RED (sub (\<not> LR) ?y) ?o) = bheight ?o" using mk_bheight [OF yc(4)] yc(4) by simp
    show thesis
    proof (rule that [OF d])
      show "is_red (mk LR wn RBT_RED (sub (\<not> LR) ?y) ?o)" by (simp add: rb_simps)
      show "bal (sub LR ?y)" by (rule yc(1))
      show "bal (mk LR wn RBT_RED (sub (\<not> LR) ?y) ?o)" using yc(2,4,5) c(2) False by (simp add: mk_bal)
      show "bheight (sub LR ?y) = bheight (mk LR wn RBT_RED (sub (\<not> LR) ?y) ?o)" using h yc(3) by simp
      show "bheight w = Suc (bheight (sub LR ?y))" using c(3,4) yc(3) by simp
      show "(if LR then inorder (mk LR wn RBT_RED (sub (\<not> LR) ?y) ?o) @ yn # inorder (sub LR ?y)
          else inorder (sub LR ?y) @ yn # inorder (mk LR wn RBT_RED (sub (\<not> LR) ?y) ?o)) = inorder w"
        unfolding c(5) yc(6) by (simp add: mk_simps)
    qed
  qed
qed

lemma dmov_ok:
  "bal (paint RBT_BLACK x) \<Longrightarrow> ctx fs (Suc (bheight x)) \<Longrightarrow> length fs + 1 < RBT_MAXDEP \<Longrightarrow>
   \<exists>t. HXrbtree_dmov x fs = Some t \<and> rb_ok t \<and> inorder t = linor fs @ inorder x @ rinor fs"
proof (induction x fs rule: HXrbtree_dmov.induct)
  case (1 x fs)
  show ?case
  proof (cases "is_red x")
    case True
    have "HXrbtree_dmov x fs = Some (plug (paint RBT_BLACK x) fs)" using True by (simp add: HXrbtree_dmov.simps)
    moreover have "rb_ok (plug (paint RBT_BLACK x) fs)"
      by (rule plug_rb_ok) (use "1.prems" bheight_paint [OF True] in simp_all)
    ultimately show ?thesis by simp
  next
    case xb: False
    have "paint RBT_BLACK x = x" using xb by (cases x) auto
    then have bx: "bal x" using "1.prems"(1) by simp
    show ?thesis
    proof (cases fs)
      case Nil
      then show ?thesis using xb bx by (simp add: HXrbtree_dmov.simps rb_ok_def)
    next
      case (Cons f rest0)
      obtain LR p pc0 w0 where f: "f = (LR, p, pc0, w0)" by (cases f) auto
      have c0: "ctx ((LR, p, pc0, w0) # rest0) (Suc (bheight x))" using "1.prems"(2) unfolding Cons f .
      obtain pc w rest where c2: "dmov_case2 ((LR, p, pc0, w0) # rest0) = Some ((LR, p, pc, w) # rest)"
        "ctx ((LR, p, pc, w) # rest) (Suc (bheight x))" "\<not> is_red w" "w \<noteq> RNull"
        "is_red w0 \<longrightarrow> pc = RBT_RED" "length rest \<le> Suc (length rest0)" "\<not> is_red w0 \<longrightarrow> rest = rest0"
        "linor ((LR, p, pc, w) # rest) = linor ((LR, p, pc0, w0) # rest0)"
        "rinor ((LR, p, pc, w) # rest) = rinor ((LR, p, pc0, w0) # rest0)"
        by (rule case2_spec [OF c0]) (use "1.prems"(3) Cons in auto)
      have w: "bal w" "bheight w = Suc (bheight x)" "pc = RBT_RED \<longrightarrow> top_black rest"
        "ctx rest (Suc (bheight x) + (if pc = RBT_BLACK then 1 else 0))" using c2(2) by simp_all
      have eq: "HXrbtree_dmov x fs =
        (if \<not> is_red (sub LR w) \<and> \<not> is_red (sub (\<not> LR) w)
         then HXrbtree_dmov (mk LR p pc x (paint RBT_RED w)) rest
         else do { w \<leftarrow> dmov_case5 LR w; t \<leftarrow> dmov_case6 LR p pc x w; Some (plug t rest) })"
        using xb c2(1,4) by (subst HXrbtree_dmov.simps) (simp add: Cons f)
      have fio: "linor rest @ inorder (mk LR p pc x w) @ rinor rest = linor fs @ inorder x @ rinor fs"
        using c2(8,9) unfolding Cons f by (cases LR) (auto simp: mk_simps)
      show ?thesis
      proof (cases "\<not> is_red (sub LR w) \<and> \<not> is_red (sub (\<not> LR) w)")
        case True
        let ?t = "mk LR p pc x (paint RBT_RED w)"
        have pw: "bal (paint RBT_RED w)" "bheight (paint RBT_RED w) = bheight x"
          using True w(1,2) bheight_paint_red [OF c2(3,4)] by (cases w; cases LR; simp)+
        have h: "bheight ?t = bheight x + (if pc = RBT_BLACK then 1 else 0)"
          by (rule mk_bheight [OF pw(2) [symmetric]])
        have "\<exists>t. HXrbtree_dmov ?t rest = Some t \<and> rb_ok t \<and> inorder t = linor rest @ inorder ?t @ rinor rest"
        proof (rule "1.IH" [OF xb _ _ refl refl refl refl c2(4) True])
          show "fs \<noteq> []" by (simp add: Cons)
          show "dmov_case2 fs = Some ((LR, p, pc, w) # rest)" using c2(1) by (simp add: Cons f)
          show "bal (paint RBT_BLACK ?t)" using bx pw by (simp add: mk_simps mk_bal)
          show "ctx rest (Suc (bheight ?t))" using w(4) unfolding h by simp
          show "length rest + 1 < RBT_MAXDEP" using "1.prems"(3) c2(6) Cons by simp
        qed
        moreover have "inorder ?t = inorder (mk LR p pc x w)" by (simp add: mk_simps)
        ultimately show ?thesis using eq True fio by simp
      next
        case False
        obtain n a b where c5: "dmov_case5 LR w = Some (mk LR n RBT_BLACK a b)" "is_red b" "bal a" "bal b"
          "bheight a = bheight b" "bheight w = Suc (bheight a)"
          "(if LR then inorder b @ n # inorder a else inorder a @ n # inorder b) = inorder w"
          by (rule case5_spec [OF w(1) c2(3,4)]) (use False in blast)
        let ?t = "mk LR n pc (mk LR p RBT_BLACK x a) (paint RBT_BLACK b)"
        have ha: "bheight a = bheight x" using c5(6) w(2) by simp
        have hp: "bheight (mk LR p RBT_BLACK x a) = Suc (bheight x)" using mk_bheight [OF ha [symmetric]] by simp
        have hb: "bheight (paint RBT_BLACK b) = Suc (bheight x)" using bheight_paint [OF c5(2)] c5(5) ha by simp
        have ht: "bheight ?t = Suc (bheight x) + (if pc = RBT_BLACK then 1 else 0)"
          using mk_bheight [of "mk LR p RBT_BLACK x a" "paint RBT_BLACK b"] hp hb by simp
        have bt: "bal ?t" using bx c5(3) bal_paint_black [OF c5(4)] ha hp hb by (simp add: mk_bal mk_simps)
        have c6: "dmov_case6 LR p pc x (mk LR n RBT_BLACK a b) = Some ?t"
          using c5(2) by (cases b; cases LR) (simp_all add: dmov_case6_def mk_def)
        have "rb_ok (plug ?t rest)"
          by (rule plug_rb_ok') (use w(3,4) ht bt in \<open>simp_all add: mk_simps\<close>)
        moreover have "HXrbtree_dmov x fs = Some (plug ?t rest)" using eq False c5(1) c6 by simp
        moreover have it: "inorder ?t = inorder (mk LR p pc x w)"
          using c5(7) by (auto simp: mk_simps split: if_splits)
        have "inorder (plug ?t rest) = linor fs @ inorder x @ rinor fs"
          unfolding plug_inorder it by (rule fio)
        ultimately show ?thesis by blast
      qed
    qed
  qed
qed

section \<open>Heights\<close>

fun rb_height :: "('k, 'd) HXrbnode \<Rightarrow> nat" where
  "rb_height RNull = 0"
| "rb_height (RNode l n c r) = Suc (max (rb_height l) (rb_height r))"

lemma bal_size: "bal t \<Longrightarrow> 2 ^ bheight t \<le> length (inorder t) + 1"
proof (induction t)
  case (RNode l n c r)
  then have "2 ^ bheight l \<le> length (inorder l) + 1" "2 ^ bheight l \<le> length (inorder r) + 1"
    by (simp_all)
  then show ?case by simp
qed simp

lemma bal_height: "bal t \<Longrightarrow> rb_height t \<le> 2 * bheight t + (if is_red t then 1 else 0)"
proof (induction t)
  case (RNode l n c r)
  then have "rb_height l \<le> 2 * bheight l + (if is_red l then 1 else 0)"
    "rb_height r \<le> 2 * bheight l + (if is_red r then 1 else 0)" "c = RBT_RED \<longrightarrow> \<not> is_red l \<and> \<not> is_red r" by simp_all
  then show ?case by (cases c) (auto split: if_splits)
qed simp

text \<open>A tree of fewer than \<open>2^24 - 1\<close> nodes has height 46 at most, so a path fits its array with room for
  the one entry that rebalancing adds.\<close>

lemma rb_height_46:
  assumes "rb_ok t" "length (inorder t) < 2 ^ 24 - 1"
  shows "rb_height t \<le> 46"
proof -
  have "2 ^ bheight t < (2 :: nat) ^ 24" using bal_size [of t] assms by (simp add: rb_ok_def)
  then have "bheight t < 24" by (rule power_less_imp_less_exp [rotated]) simp
  then show ?thesis using bal_height [of t] assms(1) by (simp add: rb_ok_def)
qed

lemma walk_some:
  "length fs + rb_height t < RBT_MAXDEP \<Longrightarrow>
   \<exists>u fs'. rb_walk ops key t fs = Some (u, fs') \<and> length fs' + rb_height u \<le> length fs + rb_height t"
proof (induction ops key t fs rule: rb_walk.induct)
  case (2 ops key l n c r fs)
  let ?res = "k_compare ops key (rb_key n)"
  have d: "\<not> RBT_MAXDEP \<le> length fs + 1" using "2.prems" by simp
  consider "?res = 0" | "?res > 0" | "?res < 0" by linarith
  then show ?case
  proof cases
    case 1
    then show ?thesis by simp
  next
    case c: 2
    have lr: "length ((True, n, c, l) # fs) + rb_height r < RBT_MAXDEP" using "2.prems" by simp
    obtain u fs' where "rb_walk ops key r ((True, n, c, l) # fs) = Some (u, fs')"
      "length fs' + rb_height u \<le> length fs + 1 + rb_height r"
      using "2.IH"(1) [OF refl _ d c lr] c by auto
    then show ?thesis using c d by (auto simp: Let_def)
  next
    case c: 3
    have ll: "length ((False, n, c, r) # fs) + rb_height l < RBT_MAXDEP" using "2.prems" by simp
    obtain u fs' where "rb_walk ops key l ((False, n, c, r) # fs) = Some (u, fs')"
      "length fs' + rb_height u \<le> length fs + 1 + rb_height l"
      using "2.IH"(2) [OF refl _ d _ ll] c by auto
    then show ?thesis using c d by (auto simp: Let_def)
  qed
qed simp

section \<open>The node that takes a deleted node's place\<close>

lemma linor_append: "linor (fs @ gs) = linor gs @ linor fs"
  by (induction fs rule: linor.induct) auto

lemma rinor_append: "rinor (fs @ gs) = rinor fs @ rinor gs"
  by (induction fs rule: rinor.induct) auto

lemma del_min_spec:
  "t \<noteq> RNull \<Longrightarrow> bal t \<Longrightarrow> ctx (fs @ tp) (bheight t) \<Longrightarrow> is_red t \<longrightarrow> top_black (fs @ tp) \<Longrightarrow>
    depth + rb_height t \<le> RBT_MAXDEP \<Longrightarrow>
   \<exists>x n ioc below. del_min t fs depth = Some (x, n, ioc, below) \<and> bal x \<and>
     ctx (below @ tp) (bheight x + (if ioc = RBT_BLACK then 1 else 0)) \<and> (ioc = RBT_RED \<longrightarrow> \<not> is_red x) \<and>
     linor below = linor fs \<and> n # inorder x @ rinor below = inorder t @ rinor fs \<and>
     length below < length fs + rb_height t"
proof (induction t fs depth rule: del_min.induct)
  case (2 l n c r fs depth)
  have b: "bal l" "bal r" "bheight r = bheight l" "c = RBT_RED \<longrightarrow> \<not> is_red l \<and> \<not> is_red r"
    "ctx (fs @ tp) (bheight l + (if c = RBT_BLACK then 1 else 0))" "c = RBT_RED \<longrightarrow> top_black (fs @ tp)"
    using "2.prems" by simp_all
  show ?case
  proof (cases "l = RNull")
    case True
    then have "bheight r = 0" using b(3) by simp
    then show ?thesis using True b by simp
  next
    case False
    then have h: "0 < rb_height l" by (cases l) auto
    have d: "\<not> RBT_MAXDEP \<le> depth" using "2.prems"(5) h by simp
    have dh: "depth + 1 + rb_height l \<le> RBT_MAXDEP" using "2.prems"(5) by simp
    obtain ll ln lc lr where ll: "l = RNode ll ln lc lr" using False by (cases l) auto
    have c: "ctx (((False, n, c, r) # fs) @ tp) (bheight l)" unfolding append_Cons ctx.simps b(3) using b by blast
    have t: "is_red l \<longrightarrow> top_black (((False, n, c, r) # fs) @ tp)" using b(4) by (cases c) simp_all
    obtain x m ioc below where *: "del_min l ((False, n, c, r) # fs) (depth + 1) = Some (x, m, ioc, below)" "bal x"
      "ctx (below @ tp) (bheight x + (if ioc = RBT_BLACK then 1 else 0))" "ioc = RBT_RED \<longrightarrow> \<not> is_red x"
      "linor below = linor ((False, n, c, r) # fs)" "m # inorder x @ rinor below = inorder l @ rinor ((False, n, c, r) # fs)"
      "length below < length ((False, n, c, r) # fs) + rb_height l"
      using "2.IH" [OF ll d False b(1) c t dh] by blast
    have "del_min (RNode l n c r) fs depth = Some (x, m, ioc, below)" using *(1) d by (simp add: ll)
    then show ?thesis using *(2-7) by (intro exI [of _ x] exI [of _ m] exI [of _ ioc] exI [of _ below]) auto
  qed
qed simp

lemma ctx_info: "ctx (below @ (d, m, c, y) # fs) h = ctx (below @ (d, n, c, y) # fs) h"
proof (induction below arbitrary: h)
  case (Cons f below)
  have "top_black (below @ (d, m, c, y) # fs) = top_black (below @ (d, n, c, y) # fs)"
    by (cases below rule: top_black.cases) auto
  then show ?case using Cons by (cases f) simp
qed simp

lemma del_place:
  assumes b: "bal (RNode l n c r)" "ctx fs (bheight (RNode l n c r))" "is_red (RNode l n c r) \<longrightarrow> top_black fs"
    and d: "length fs + rb_height (RNode l n c r) + 1 < RBT_MAXDEP"
  shows "\<exists>x fs' col.
    (if r = RNull then Some (l, fs, c) else if l = RNull then Some (r, fs, c) else HXrbtree_del_mm l c r fs) =
      Some (x, fs', col) \<and> bal x \<and> ctx fs' (bheight x + (if col = RBT_BLACK then 1 else 0)) \<and>
    (col = RBT_RED \<longrightarrow> \<not> is_red x) \<and> length fs' + 1 < RBT_MAXDEP \<and>
    linor fs' @ inorder x @ rinor fs' = linor fs @ inorder l @ inorder r @ rinor fs"
proof -
  have c: "bal l" "bal r" "bheight r = bheight l" "c = RBT_RED \<longrightarrow> \<not> is_red l \<and> \<not> is_red r"
    "ctx fs (bheight l + (if c = RBT_BLACK then 1 else 0))" "c = RBT_RED \<longrightarrow> top_black fs"
    using b by simp_all
  consider "r = RNull" | "r \<noteq> RNull" "l = RNull" | "r \<noteq> RNull" "l \<noteq> RNull" by blast
  then show ?thesis
  proof cases
    case 1
    then show ?thesis using c d by simp
  next
    case 2
    then have "bheight r = 0" using c(3) by simp
    then show ?thesis using 2 c d by simp
  next
    case 3
    have ct: "ctx ((True, m, c, l) # fs) (bheight r)" for m unfolding ctx.simps c(3) using c by blast
    have rt: "is_red r \<longrightarrow> top_black ((True, m, c, l) # fs)" for m using c(4) by (cases c) simp_all
    obtain rl rn rc rr where r: "r = RNode rl rn rc rr" using 3 by (cases r) auto
    show ?thesis
    proof (cases "rl = RNull")
      case True
      have "HXrbtree_del_mm l c r fs = Some (rr, (True, rn, c, l) # fs, rc)" by (simp add: HXrbtree_del_mm_def r True)
      moreover have "bal rr" "rc = RBT_RED \<longrightarrow> \<not> is_red rr" "bheight r = bheight rr + (if rc = RBT_BLACK then 1 else 0)"
        using c(2) by (auto simp: r True)
      ultimately show ?thesis using 3 ct [of rn] d by (simp add: r True)
    next
      case False
      have rr: "ctx ([] @ (True, rn, c, l) # fs) (bheight r)" "is_red r \<longrightarrow> top_black ([] @ (True, rn, c, l) # fs)"
        using ct rt by simp_all
      have h: "length fs + 2 + rb_height r \<le> RBT_MAXDEP" using d by simp
      obtain x n' ioc below where *: "del_min r [] (length fs + 2) = Some (x, n', ioc, below)" "bal x"
        "ctx (below @ (True, rn, c, l) # fs) (bheight x + (if ioc = RBT_BLACK then 1 else 0))"
        "ioc = RBT_RED \<longrightarrow> \<not> is_red x" "linor below = linor []" "n' # inorder x @ rinor below = inorder r @ rinor []"
        "length below < length ([] :: ('a, 'b) frame list) + rb_height r"
        using del_min_spec [OF 3(1) c(2) rr h] by blast
      have "HXrbtree_del_mm l c r fs = Some (x, below @ (True, n', c, l) # fs, ioc)"
        using False *(1) by (cases rl) (simp_all add: HXrbtree_del_mm_def r)
      moreover have "linor (below @ (True, n', c, l) # fs) @ inorder x @ rinor (below @ (True, n', c, l) # fs) =
          linor fs @ inorder l @ inorder r @ rinor fs"
        using *(5) *(6) [symmetric] by (simp add: linor_append rinor_append)
      moreover have "ctx (below @ (True, n', c, l) # fs) (bheight x + (if ioc = RBT_BLACK then 1 else 0))"
        using *(3) ctx_info by blast
      ultimately show ?thesis using 3 *(2,4,7) d by (intro exI [of _ x] exI [of _ "below @ (True, n', c, l) # fs"] exI [of _ ioc]) auto
    qed
  qed
qed

end
