(* ===== verification/HX_Rbmap.thy ===== *)
theory HX_Rbmap
  imports HX_Rbinv
begin

text \<open>
  The red-black tree as a map. \<open>rbtree_ok\<close> is its invariant: balanced, with a black root, strictly sorted by
  the comparison function, with distinct node addresses, an exact item counter and fewer than
  \<open>2^24 - 1\<close> nodes, the number for which \<^verbatim>\<open>RBT_MAXDEP\<close> is meant. Every operation preserves it and never
  leaves the arrays of the path; the operations interpret \<open>map_contract\<close>.
\<close>

section \<open>Order\<close>

definition rb_sorted :: "('k, 'd) HXmap_ops \<Rightarrow> ('k, 'd) rbinfo list \<Rightarrow> bool" where
  "rb_sorted ops xs \<longleftrightarrow> sorted_wrt (\<lambda>a b. k_compare ops (rb_key a) (rb_key b) < 0) xs"

definition rb_valid :: "('k option \<Rightarrow> bool) \<Rightarrow> ('k, 'd) rbinfo list \<Rightarrow> bool" where
  "rb_valid V xs \<longleftrightarrow> (\<forall>n \<in> set xs. V (rb_key n))"

definition rbtree_ok :: "('k option \<Rightarrow> bool) \<Rightarrow> ('k, 'd) HXrbtree \<Rightarrow> bool" where
  "rbtree_ok V b \<longleftrightarrow> order_laws (r_ops b) V \<and> rb_ok (rb_root b) \<and>
     rb_sorted (r_ops b) (inorder (rb_root b)) \<and> rb_valid V (inorder (rb_root b)) \<and>
     distinct (map rb_addr (inorder (rb_root b))) \<and>
     r_items b = of_nat (length (inorder (rb_root b))) \<and> length (inorder (rb_root b)) < 2 ^ 24 - 1"

lemma order_laws_flip: "order_laws ops V \<Longrightarrow> V a \<Longrightarrow> V b \<Longrightarrow> k_compare ops a b > 0 \<longleftrightarrow> k_compare ops b a < 0"
  unfolding order_laws_def by blast

lemma order_laws_le:
  "order_laws ops V \<Longrightarrow> V a \<Longrightarrow> V b \<Longrightarrow> V c \<Longrightarrow> k_compare ops a b \<le> 0 \<Longrightarrow> k_compare ops b c \<le> 0 \<Longrightarrow>
    k_compare ops a c \<le> 0"
  unfolding order_laws_def by blast

lemma order_laws_lt:
  assumes o: "order_laws ops V" and v: "V a" "V b" "V c"
  shows "k_compare ops a b < 0 \<Longrightarrow> k_compare ops b c \<le> 0 \<Longrightarrow> k_compare ops a c < 0"
    and "k_compare ops a b \<le> 0 \<Longrightarrow> k_compare ops b c < 0 \<Longrightarrow> k_compare ops a c < 0"
proof -
  note f = order_laws_flip [OF o]
  have le: "k_compare ops x y \<le> 0 \<longleftrightarrow> \<not> k_compare ops y x < 0" if "V x" "V y" for x y
    using f [OF that] by linarith
  show "k_compare ops a b < 0 \<Longrightarrow> k_compare ops b c \<le> 0 \<Longrightarrow> k_compare ops a c < 0"
    using order_laws_le [OF o v(2,3,1)] le [OF v(3,1)] le [OF v(2,1)] f v by (meson not_less)
  show "k_compare ops a b \<le> 0 \<Longrightarrow> k_compare ops b c < 0 \<Longrightarrow> k_compare ops a c < 0"
    using order_laws_le [OF o v(3,1,2)] le [OF v(3,1)] le [OF v(3,2)] f v by (meson not_less)
qed

lemma order_eq_laws:
  assumes o: "order_laws ops V"
  shows "eq_laws ops V"
proof -
  have s: "k_compare ops a b = 0 \<longleftrightarrow> k_compare ops b a = 0" if "V a" "V b" for a b
    using order_laws_flip [OF o that] order_laws_flip [OF o that(2,1)] by linarith
  have "k_compare ops a c = 0" if "V a" "V b" "V c" "k_compare ops a b = 0" "k_compare ops b c = 0" for a b c
    using order_laws_le [OF o that(1-3)] order_laws_le [OF o that(3,2,1)] s that order_laws_flip [OF o that(1,3)]
    by (smt (verit))
  moreover have "k_compare ops a a = 0" if "V a" for a using order_laws_flip [OF o that that] by linarith
  ultimately show ?thesis using s unfolding eq_laws_def key_eq_def by blast
qed

lemma rb_sorted_append:
  "rb_sorted ops (xs @ ys) \<longleftrightarrow> rb_sorted ops xs \<and> rb_sorted ops ys \<and>
    (\<forall>x \<in> set xs. \<forall>y \<in> set ys. k_compare ops (rb_key x) (rb_key y) < 0)"
  by (simp add: rb_sorted_def sorted_wrt_append)

lemma rb_sorted_Cons:
  "rb_sorted ops (x # xs) \<longleftrightarrow> (\<forall>y \<in> set xs. k_compare ops (rb_key x) (rb_key y) < 0) \<and> rb_sorted ops xs"
  by (simp add: rb_sorted_def)

lemma rb_sorted_Nil [simp]: "rb_sorted ops []"
  by (simp add: rb_sorted_def)

lemma rb_valid_append [simp]: "rb_valid V (xs @ ys) \<longleftrightarrow> rb_valid V xs \<and> rb_valid V ys"
  by (auto simp: rb_valid_def)

lemma rb_valid_Cons [simp]: "rb_valid V (x # xs) \<longleftrightarrow> V (rb_key x) \<and> rb_valid V xs"
  by (auto simp: rb_valid_def)

section \<open>Where the walk ends\<close>

text \<open>\<open>above\<close>: the key is greater than all of the list; \<open>below\<close>: smaller.\<close>

definition above :: "('k, 'd) HXmap_ops \<Rightarrow> 'k option \<Rightarrow> ('k, 'd) rbinfo list \<Rightarrow> bool" where
  "above ops k xs \<longleftrightarrow> (\<forall>n \<in> set xs. k_compare ops k (rb_key n) > 0)"

definition below :: "('k, 'd) HXmap_ops \<Rightarrow> 'k option \<Rightarrow> ('k, 'd) rbinfo list \<Rightarrow> bool" where
  "below ops k xs \<longleftrightarrow> (\<forall>n \<in> set xs. k_compare ops k (rb_key n) < 0)"

lemma above_step:
  assumes "order_laws ops V" "V k" "rb_valid V (xs @ [n])" "rb_sorted ops (xs @ [n])" "k_compare ops k (rb_key n) > 0"
  shows "above ops k (xs @ [n])"
  unfolding above_def
proof
  fix m assume m: "m \<in> set (xs @ [n])"
  have v: "V (rb_key n)" "V (rb_key m)" using assms(3) m by (auto simp: rb_valid_def)
  show "k_compare ops k (rb_key m) > 0"
  proof (cases "m = n")
    case False
    then have "k_compare ops (rb_key m) (rb_key n) < 0" using assms(4) m by (auto simp: rb_sorted_append)
    moreover have "k_compare ops (rb_key n) k < 0" using order_laws_flip [OF assms(1,2) v(1)] assms(5) by blast
    ultimately have "k_compare ops (rb_key m) k < 0" using order_laws_lt(1) [OF assms(1) v(2,1) assms(2)] by simp
    then show ?thesis using order_laws_flip [OF assms(1,2) v(2)] by blast
  qed (use assms(5) in simp)
qed

lemma below_step:
  assumes "order_laws ops V" "V k" "rb_valid V (n # xs)" "rb_sorted ops (n # xs)" "k_compare ops k (rb_key n) < 0"
  shows "below ops k (n # xs)"
  unfolding below_def
proof
  fix m assume m: "m \<in> set (n # xs)"
  have v: "V (rb_key n)" "V (rb_key m)" using assms(3) m by (auto simp: rb_valid_def)
  show "k_compare ops k (rb_key m) < 0"
  proof (cases "m = n")
    case False
    then have "k_compare ops (rb_key n) (rb_key m) < 0" using assms(4) m by (auto simp: rb_sorted_Cons)
    then show ?thesis using order_laws_lt(1) [OF assms(1,2) v] assms(5) by simp
  qed (use assms(5) in simp)
qed

lemma above_append: "above ops k (xs @ ys) \<longleftrightarrow> above ops k xs \<and> above ops k ys"
  by (auto simp: above_def)

lemma below_append: "below ops k (xs @ ys) \<longleftrightarrow> below ops k xs \<and> below ops k ys"
  by (auto simp: below_def)

lemma walk_order:
  "order_laws ops V \<Longrightarrow> V k \<Longrightarrow> rb_walk ops k t fs = Some (u, fs') \<Longrightarrow> rb_sorted ops (inorder t) \<Longrightarrow> rb_valid V (inorder t) \<Longrightarrow>
    above ops k (linor fs) \<Longrightarrow> below ops k (rinor fs) \<Longrightarrow>
    above ops k (linor fs') \<and> below ops k (rinor fs') \<and>
    linor fs' @ inorder u @ rinor fs' = linor fs @ inorder t @ rinor fs \<and>
    (\<forall>l n c r. u = RNode l n c r \<longrightarrow> k_compare ops k (rb_key n) = 0)"
proof (induction ops k t fs rule: rb_walk.induct)
  case (2 ops key l n c r fs)
  have so: "rb_sorted ops (inorder l @ [n])" "rb_sorted ops (n # inorder r)" "rb_sorted ops (inorder l)" "rb_sorted ops (inorder r)"
    using "2.prems"(4) by (simp_all add: rb_sorted_append rb_sorted_Cons)
  have va: "rb_valid V (inorder l @ [n])" "rb_valid V (n # inorder r)" "rb_valid V (inorder l)" "rb_valid V (inorder r)"
    using "2.prems"(5) by (simp_all add: rb_valid_def)
  let ?res = "k_compare ops key (rb_key n)"
  consider "?res = 0" | "?res > 0" | "?res < 0" by linarith
  then show ?case
  proof cases
    case 1
    then show ?thesis using "2.prems" by (auto simp: Let_def)
  next
    case c: 2
    then have w: "\<not> RBT_MAXDEP \<le> length fs + 1" "rb_walk ops key r ((True, n, c, l) # fs) = Some (u, fs')"
      using "2.prems"(3) by (simp_all add: Let_def split: if_splits)
    have nz: "?res \<noteq> 0" using c by simp
    have "above ops key (linor ((True, n, c, l) # fs))"
      using above_step [OF "2.prems"(1,2) va(1) so(1) c] "2.prems"(6) by (simp add: above_append)
    from "2.IH"(1) [OF refl nz w(1) c "2.prems"(1,2) w(2) so(4) va(4) this] "2.prems"(7) show ?thesis by simp
  next
    case c: 3
    then have w: "\<not> RBT_MAXDEP \<le> length fs + 1" "rb_walk ops key l ((False, n, c, r) # fs) = Some (u, fs')"
      using "2.prems"(3) by (simp_all add: Let_def split: if_splits)
    have nz: "?res \<noteq> 0" "\<not> ?res > 0" using c by simp_all
    have "below ops key (rinor ((False, n, c, r) # fs))"
      using below_step [OF "2.prems"(1,2) va(2) so(2) c] "2.prems"(7) below_append [of ops key "n # inorder r" "rinor fs"] by simp
    from "2.IH"(2) [OF refl nz(1) w(1) nz(2) "2.prems"(1,2) w(2) so(3) va(3) _ this] "2.prems"(6) show ?thesis by simp
  qed
qed auto

lemma find_walk:
  "rb_walk ops k t fs = Some (u, fs') \<Longrightarrow>
    HXrbtree_find ops k t = (case u of RNull \<Rightarrow> None | RNode l n c r \<Rightarrow> Some n)"
  by (induction ops k t fs rule: rb_walk.induct) (auto simp: Let_def split: if_splits)

section \<open>Lookups\<close>

definition HXrbtree_get :: "('k, 'd) HXrbtree \<Rightarrow> 'k option \<Rightarrow> 'd option option" where
  "HXrbtree_get b k = map_option rb_data (HXrbtree_find (r_ops b) k (rb_root b))"

lemma rbtree_okD:
  assumes "rbtree_ok V b"
  shows "order_laws (r_ops b) V" "rb_ok (rb_root b)" "rb_sorted (r_ops b) (inorder (rb_root b))"
    "rb_valid V (inorder (rb_root b))" "distinct (map rb_addr (inorder (rb_root b)))"
    "r_items b = of_nat (length (inorder (rb_root b)))" "length (inorder (rb_root b)) < 2 ^ 24 - 1"
  using assms unfolding rbtree_ok_def by blast+

lemma rbtree_okI:
  assumes "order_laws (r_ops b) V" "rb_ok (rb_root b)" "rb_sorted (r_ops b) (inorder (rb_root b))"
    "rb_valid V (inorder (rb_root b))" "distinct (map rb_addr (inorder (rb_root b)))"
    "r_items b = of_nat (length (inorder (rb_root b)))" "length (inorder (rb_root b)) < 2 ^ 24 - 1"
  shows "rbtree_ok V b"
  unfolding rbtree_ok_def using assms by blast

text \<open>The walk of an operation on a well-formed tree: it ends, in a balanced context that separates the smaller
  from the greater nodes, and at the node with an equal key or at none.\<close>

lemma walk_spec:
  assumes b: "rbtree_ok V b" and k: "V k"
  obtains u fs where "rb_walk (r_ops b) k (rb_root b) [] = Some (u, fs)" "bal u" "ctx fs (bheight u)"
    "is_red u \<longrightarrow> top_black fs" "plug u fs = rb_root b" "length fs + rb_height u \<le> 46"
    "above (r_ops b) k (linor fs)" "below (r_ops b) k (rinor fs)"
    "linor fs @ inorder u @ rinor fs = inorder (rb_root b)"
    "HXrbtree_find (r_ops b) k (rb_root b) = (case u of RNull \<Rightarrow> None | RNode l n c r \<Rightarrow> Some n)"
    "\<And>l n c r. u = RNode l n c r \<Longrightarrow> k_compare (r_ops b) k (rb_key n) = 0"
proof -
  note o = rbtree_okD [OF b]
  have h: "rb_height (rb_root b) \<le> 46" by (rule rb_height_46 [OF o(2,7)])
  then have "length ([] :: ('a, 'b) frame list) + rb_height (rb_root b) < RBT_MAXDEP" by (simp add: RBT_MAXDEP_def)
  from walk_some [OF this, of "r_ops b" k] obtain u fs where w: "rb_walk (r_ops b) k (rb_root b) [] = Some (u, fs)"
    "length fs + rb_height u \<le> rb_height (rb_root b)" by auto
  have c: "bal u \<and> ctx fs (bheight u) \<and> (is_red u \<longrightarrow> top_black fs) \<and> plug u fs = plug (rb_root b) []"
    by (rule walk_ctx [OF w(1)]) (use o(2) in \<open>simp_all add: rb_ok_def\<close>)
  have s: "above (r_ops b) k (linor fs) \<and> below (r_ops b) k (rinor fs) \<and>
      linor fs @ inorder u @ rinor fs = linor [] @ inorder (rb_root b) @ rinor [] \<and>
      (\<forall>l n c r. u = RNode l n c r \<longrightarrow> k_compare (r_ops b) k (rb_key n) = 0)"
    by (rule walk_order [OF o(1) k w(1) o(3,4)]) (simp_all add: above_def below_def)
  show thesis by (rule that [OF w(1)]) (use c s w(2) h find_walk [OF w(1)] in simp_all)
qed

lemma sorted_eq:
  assumes "order_laws ops V" "rb_valid V xs" "rb_sorted ops xs" "a \<in> set xs" "b \<in> set xs" "key_eq ops (rb_key a) (rb_key b)"
  shows "a = b"
  using assms(2-)
proof (induction xs)
  case (Cons x xs)
  have v: "V (rb_key a)" "V (rb_key b)" using Cons.prems by (auto simp: rb_valid_def)
  have no: "\<not> key_eq ops (rb_key c) (rb_key d)" if "k_compare ops (rb_key c) (rb_key d) < 0 \<or> k_compare ops (rb_key d) (rb_key c) < 0"
    "V (rb_key c)" "V (rb_key d)" for c d :: "('a, 'b) rbinfo"
    using that order_laws_flip [OF assms(1) that(2,3)] by (auto simp: key_eq_def)
  show ?case
  proof (cases "a = x \<or> b = x")
    case True
    then show ?thesis using Cons.prems no [OF _ v] by (auto simp: rb_sorted_Cons)
  next
    case False
    then show ?thesis using Cons by (auto simp: rb_sorted_Cons)
  qed
qed simp

lemma rb_lookup:
  assumes b: "rbtree_ok V b"
  shows "lookup_in (r_ops b) V rb_key rb_data (set (inorder (rb_root b))) (HXrbtree_get b)"
proof -
  note o = rbtree_okD [OF b]
  have "HXrbtree_get b k = Some (rb_data e)" if k: "V k" and e: "e \<in> set (inorder (rb_root b))" "key_eq (r_ops b) k (rb_key e)" for k e
  proof (rule walk_spec [OF b k])
    fix u fs
    assume w: "above (r_ops b) k (linor fs)" "below (r_ops b) k (rinor fs)" "linor fs @ inorder u @ rinor fs = inorder (rb_root b)"
      "HXrbtree_find (r_ops b) k (rb_root b) = (case u of RNull \<Rightarrow> None | RNode l n c r \<Rightarrow> Some n)"
      and q: "\<And>l n c r. u = RNode l n c r \<Longrightarrow> k_compare (r_ops b) k (rb_key n) = 0"
    have nn: "e \<notin> set (linor fs)" "e \<notin> set (rinor fs)" using w(1,2) e(2) by (auto simp: above_def below_def key_eq_def)
    then have eu: "e \<in> set (inorder u)" using e(1) unfolding w(3) [symmetric] by simp
    then obtain l n c r where u: "u = RNode l n c r" by (cases u) auto
    have ni: "n \<in> set (inorder (rb_root b))" unfolding w(3) [symmetric] u by simp
    have v: "V (rb_key n)" "V (rb_key e)" using o(4) ni e(1) by (auto simp: rb_valid_def)
    have "key_eq (r_ops b) (rb_key n) (rb_key e)"
      using eq_lawsD(3) [OF order_eq_laws [OF o(1)] v(1) k v(2)] eq_lawsD(2) [OF order_eq_laws [OF o(1)] k v(1)] q [OF u] e(2)
      by (simp add: key_eq_def)
    then have "n = e" by (rule sorted_eq [OF o(1,4,3) ni e(1)])
    then show ?thesis using w(4) u by (simp add: HXrbtree_get_def)
  qed
  moreover have "HXrbtree_get b k = None" if k: "V k" and no: "\<forall>e \<in> set (inorder (rb_root b)). \<not> key_eq (r_ops b) k (rb_key e)" for k
  proof (rule walk_spec [OF b k])
    fix u fs
    assume w: "linor fs @ inorder u @ rinor fs = inorder (rb_root b)"
      "HXrbtree_find (r_ops b) k (rb_root b) = (case u of RNull \<Rightarrow> None | RNode l n c r \<Rightarrow> Some n)"
      and q: "\<And>l n c r. u = RNode l n c r \<Longrightarrow> k_compare (r_ops b) k (rb_key n) = 0"
    have "u = RNull"
    proof (cases u)
      case (RNode l n c r)
      then have "n \<in> set (inorder (rb_root b))" unfolding w(1) [symmetric] by simp
      then show ?thesis using no q [OF RNode] by (auto simp: key_eq_def)
    qed
    then show ?thesis using w(2) by (simp add: HXrbtree_get_def)
  qed
  moreover have "\<forall>e \<in> set (inorder (rb_root b)). V (rb_key e)" using o(4) by (simp add: rb_valid_def)
  ultimately show ?thesis unfolding lookup_in_def using sorted_eq [OF o(1,4,3)] by blast
qed

section \<open>Addition\<close>

lemma sorted_insert:
  assumes o: "order_laws ops V" and v: "V k" "V k'" and e: "k_compare ops k' k = 0"
    and s: "rb_sorted ops (ls @ rs)" "rb_valid V (ls @ rs)" and a: "above ops k ls" "below ops k rs" and n: "rb_key n = k'"
  shows "rb_sorted ops (ls @ n # rs)"
proof -
  have e': "k_compare ops k k' \<le> 0" "k_compare ops k' k \<le> 0"
    using e eq_lawsD(2) [OF order_eq_laws [OF o] v(2,1)] by (simp_all add: key_eq_def)
  have "k_compare ops (rb_key x) k' < 0" if x: "x \<in> set ls" for x
  proof -
    have vx: "V (rb_key x)" using s(2) x by (auto simp: rb_valid_def)
    have "k_compare ops (rb_key x) k < 0" using a(1) x order_laws_flip [OF o v(1) vx] by (auto simp: above_def)
    then show ?thesis using order_laws_lt(1) [OF o vx v] e'(1) by blast
  qed
  moreover have "k_compare ops k' (rb_key y) < 0" if y: "y \<in> set rs" for y
  proof -
    have vy: "V (rb_key y)" using s(2) y by (auto simp: rb_valid_def)
    have "k_compare ops k (rb_key y) < 0" using a(2) y by (auto simp: below_def)
    then show ?thesis using order_laws_lt(2) [OF o v(2,1) vy] e'(2) by blast
  qed
  ultimately show ?thesis using s(1) n by (simp add: rb_sorted_append rb_sorted_Cons)
qed

lemma rb_replace_spec:
  assumes b: "rbtree_ok V b" and k: "V k" and f: "has_flag (r_flags b) HXMAP_NOREPLACE"
    and c: "\<not> clone_failed (d_clone (r_ops b) v) v" and g: "HXrbtree_get b k \<noteq> None"
  obtains b' n where "HXrbtree_add b k v mem = Some (Inr (), b', dfree (r_ops b) (rb_data n))" "rbtree_ok V b'"
    "r_ops b' = r_ops b" "r_flags b' = r_flags b" "r_items b' = r_items b" "key_eq (r_ops b) k (rb_key n)"
    "n \<in> set (inorder (rb_root b))"
    "set (inorder (rb_root b')) = insert (n\<lparr>rb_data := d_clone (r_ops b) v\<rparr>) (set (inorder (rb_root b)) - {n})"
proof (rule walk_spec [OF b k])
  note o = rbtree_okD [OF b]
  fix u fs
  assume w: "rb_walk (r_ops b) k (rb_root b) [] = Some (u, fs)" "bal u" "ctx fs (bheight u)"
    "is_red u \<longrightarrow> top_black fs" "linor fs @ inorder u @ rinor fs = inorder (rb_root b)"
    "HXrbtree_find (r_ops b) k (rb_root b) = (case u of RNull \<Rightarrow> None | RNode l n c r \<Rightarrow> Some n)"
    and q: "\<And>l n c r. u = RNode l n c r \<Longrightarrow> k_compare (r_ops b) k (rb_key n) = 0"
  obtain l n co r where u: "u = RNode l n co r" using g w(6) by (cases u) (auto simp: HXrbtree_get_def)
  let ?n = "n\<lparr>rb_data := d_clone (r_ops b) v\<rparr>"
  let ?b = "b\<lparr>rb_root := plug (RNode l ?n co r) fs\<rparr>"
  have io: "inorder (rb_root ?b) = linor fs @ inorder l @ ?n # inorder r @ rinor fs"
    "inorder (rb_root b) = linor fs @ inorder l @ n # inorder r @ rinor fs"
    using w(5) by (simp_all add: u)
  have "rb_ok (rb_root ?b)" using plug_rb_ok' [of fs "RNode l ?n co r"] w(2-4) by (simp add: u)
  moreover have "rb_sorted (r_ops b) (inorder (rb_root ?b))" using o(3) unfolding io by (simp add: rb_sorted_append rb_sorted_Cons)
  moreover have "rb_valid V (inorder (rb_root ?b))" using o(4) unfolding io by simp
  moreover have "distinct (map rb_addr (inorder (rb_root ?b)))" using o(5) unfolding io by simp
  moreover have "length (inorder (rb_root ?b)) = length (inorder (rb_root b))" unfolding io by simp
  ultimately have ok: "rbtree_ok V ?b" using o(1,6,7) by (intro rbtree_okI) simp_all
  have "HXrbtree_add b k v mem = Some (Inr (), ?b, dfree (r_ops b) (rb_data n))"
    using f c w(1) by (simp add: HXrbtree_add_def u HXrbtree_replace_def Let_def)
  moreover have "set (inorder (rb_root ?b)) = insert ?n (set (inorder (rb_root b)) - {n})"
  proof -
    have "distinct (inorder (rb_root b))" using o(5) by (simp add: distinct_map)
    then show ?thesis unfolding io by auto
  qed
  ultimately show thesis using that [of ?b n] ok q [OF u] io(2) by (simp add: key_eq_def)
qed

lemma rb_insert_spec:
  assumes b: "rbtree_ok V b" and k: "V k" and g: "HXrbtree_get b k = None"
    and a: "a \<notin> rb_addr ` set (inorder (rb_root b))" and l: "unat (r_items b) < 2 ^ 24 - 2"
    and nk: "\<not> clone_failed (k_clone (r_ops b) k) k" and nv: "\<not> clone_failed (d_clone (r_ops b) v) v"
  obtains b' where "HXrbtree_add b k v (Some a) = Some (Inr (), b', [])" "rbtree_ok V b'"
    "r_ops b' = r_ops b" "r_flags b' = r_flags b" "r_items b' = r_items b + 1"
    "set (inorder (rb_root b')) =
      insert \<lparr>rb_addr = a, rb_key = k_clone (r_ops b) k, rb_data = d_clone (r_ops b) v\<rparr> (set (inorder (rb_root b)))"
proof (rule walk_spec [OF b k])
  note o = rbtree_okD [OF b]
  fix u fs
  assume w: "rb_walk (r_ops b) k (rb_root b) [] = Some (u, fs)" "bal u" "ctx fs (bheight u)"
    "above (r_ops b) k (linor fs)" "below (r_ops b) k (rinor fs)" "linor fs @ inorder u @ rinor fs = inorder (rb_root b)"
    "HXrbtree_find (r_ops b) k (rb_root b) = (case u of RNull \<Rightarrow> None | RNode l n c r \<Rightarrow> Some n)"
  have u: "u = RNull" using g w(7) by (cases u) (auto simp: HXrbtree_get_def)
  let ?n = "\<lparr>rb_addr = a, rb_key = k_clone (r_ops b) k, rb_data = d_clone (r_ops b) v\<rparr>"
  let ?z = "RNode RNull ?n RBT_RED RNull"
  have io: "inorder (rb_root b) = linor fs @ rinor fs" using w(6) u by simp
  have c0: "ctx fs (bheight ?z)" using w(3) u by simp
  have "\<exists>t tid. (case fs of (_, _, RBT_RED, _) # _ # _ \<Rightarrow> HXrbtree_amov ?z fs (r_tid b) | _ \<Rightarrow> Some (plug ?z fs, r_tid b)) = Some (t, tid) \<and>
      rb_ok (paint RBT_BLACK t) \<and> inorder t = linor fs @ inorder ?z @ rinor fs"
  proof (cases "fs = [] \<or> top_black fs")
    case True
    then have "(case fs of (_, _, RBT_RED, _) # _ # _ \<Rightarrow> HXrbtree_amov ?z fs (r_tid b) | _ \<Rightarrow> Some (plug ?z fs, r_tid b)) = Some (plug ?z fs, r_tid b)"
      by (cases fs rule: top_black.cases) (auto split: list.splits)
    moreover have "bal (plug ?z fs)" using plug_bal(1) [OF c0] True by auto
    ultimately show ?thesis using rb_ok_paint by fastforce
  next
    case False
    then obtain d n y f gs where fs: "fs = (d, n, RBT_RED, y) # f # gs"
      using w(3) by (cases fs rule: top_black.cases) (auto elim: top_black.elims)
    have "\<exists>t tid'. HXrbtree_amov ?z fs (r_tid b) = Some (t, tid') \<and> rb_ok (paint RBT_BLACK t) \<and>
        inorder t = linor fs @ inorder ?z @ rinor fs"
      by (rule amov_ok) (use c0 fs in auto)
    then show ?thesis by (simp add: fs)
  qed
  then obtain t tid where t: "(case fs of (_, _, RBT_RED, _) # _ # _ \<Rightarrow> HXrbtree_amov ?z fs (r_tid b) | _ \<Rightarrow> Some (plug ?z fs, r_tid b)) = Some (t, tid)"
    "rb_ok (paint RBT_BLACK t)" "inorder t = linor fs @ [?n] @ rinor fs" by auto
  let ?b = "b\<lparr>r_items := r_items b + 1, rb_root := paint RBT_BLACK t, r_tid := tid\<rparr>"
  have io': "inorder (rb_root ?b) = linor fs @ ?n # rinor fs" using t(3) by simp
  have kc: "V (k_clone (r_ops b) k)" "k_compare (r_ops b) (k_clone (r_ops b) k) k = 0"
    using o(1) k nk unfolding order_laws_def clone_law_def by blast+
  have "rb_sorted (r_ops b) (inorder (rb_root ?b))" unfolding io'
    by (rule sorted_insert [OF o(1) k kc _ _ w(4,5)]) (use o(3,4) io in simp_all)
  moreover have "rb_valid V (inorder (rb_root ?b))" using o(4) kc(1) unfolding io' io by simp
  moreover have "distinct (map rb_addr (inorder (rb_root ?b)))" using o(5) a unfolding io' io by auto
  moreover have len: "length (inorder (rb_root ?b)) = Suc (length (inorder (rb_root b)))" unfolding io' io by simp
  moreover have "length (inorder (rb_root b)) < 2 ^ 24 - 2"
    using l o(6,7) by (simp add: unat_of_nat take_bit_nat_eq_self)
  ultimately have ok: "rbtree_ok V ?b" using o(1,6) t(2) by (intro rbtree_okI) simp_all
  have "HXrbtree_add b k v (Some a) = Some (Inr (), ?b, [])"
    using w(1) nk nv t(1) by (simp add: HXrbtree_add_def u Let_def)
  then show thesis using that [of ?b] ok io' io by simp
qed

section \<open>Deletion\<close>

lemma rb_delete_spec:
  assumes b: "rbtree_ok V b" and k: "V k" and g: "HXrbtree_get b k = Some d"
  obtains b' n where "HXrbtree_del b k old = Some (d, None, b',
      kfree (r_ops b) (rb_key n) @ dfree (r_ops b) (rb_data n) @ [EvNode (rb_addr n)])" "rbtree_ok V b'"
    "r_ops b' = r_ops b" "r_flags b' = r_flags b" "r_items b' = r_items b - 1" "key_eq (r_ops b) k (rb_key n)"
    "n \<in> set (inorder (rb_root b))" "inorder (rb_root b') = filter (\<lambda>x. x \<noteq> n) (inorder (rb_root b))" "rb_data n = d"
proof (rule walk_spec [OF b k])
  note o = rbtree_okD [OF b]
  fix u fs
  assume w: "rb_walk (r_ops b) k (rb_root b) [] = Some (u, fs)" "bal u" "ctx fs (bheight u)"
    "is_red u \<longrightarrow> top_black fs" "length fs + rb_height u \<le> 46" "linor fs @ inorder u @ rinor fs = inorder (rb_root b)"
    "HXrbtree_find (r_ops b) k (rb_root b) = (case u of RNull \<Rightarrow> None | RNode l n c r \<Rightarrow> Some n)"
    and q: "\<And>l n c r. u = RNode l n c r \<Longrightarrow> k_compare (r_ops b) k (rb_key n) = 0"
  obtain l n c r where u: "u = RNode l n c r" using g w(7) by (cases u) (auto simp: HXrbtree_get_def)
  have dn: "rb_data n = d" using g w(7) by (simp add: HXrbtree_get_def u)
  have dep: "length fs + rb_height (RNode l n c r) + 1 < RBT_MAXDEP" "length fs + 1 < RBT_MAXDEP"
    using w(5) by (simp_all add: RBT_MAXDEP_def u)
  obtain x fs' col where x:
    "(if r = RNull then Some (l, fs, c) else if l = RNull then Some (r, fs, c) else HXrbtree_del_mm l c r fs) = Some (x, fs', col)"
    "bal x" "ctx fs' (bheight x + (if col = RBT_BLACK then 1 else 0))" "col = RBT_RED \<longrightarrow> \<not> is_red x"
    "length fs' + 1 < RBT_MAXDEP" "linor fs' @ inorder x @ rinor fs' = linor fs @ inorder l @ inorder r @ rinor fs"
    using del_place [OF w(2,3,4) [unfolded u] dep(1)] by blast
  have "\<exists>t. (if col = RBT_BLACK then HXrbtree_dmov x fs' else Some (plug x fs')) = Some t \<and> rb_ok t \<and>
      inorder t = linor fs' @ inorder x @ rinor fs'"
  proof (cases col)
    case RBT_BLACK
    then show ?thesis using dmov_ok [OF bal_paint_black [OF x(2)] _ x(5)] x(3) by simp
  next
    case RBT_RED
    then show ?thesis using plug_rb_ok [of fs' x] x(2-4) by simp
  qed
  then obtain t where t: "(if col = RBT_BLACK then HXrbtree_dmov x fs' else Some (plug x fs')) = Some t" "rb_ok t"
    "inorder t = linor fs @ inorder l @ inorder r @ rinor fs" using x(6) by metis
  let ?b = "b\<lparr>r_items := r_items b - 1, r_tid := r_tid b + 1, rb_root := t\<rparr>"
  have io: "inorder (rb_root b) = linor fs @ inorder l @ n # inorder r @ rinor fs" using w(6) u by simp
  have di: "distinct (inorder (rb_root b))" using o(5) by (simp add: distinct_map)
  have fil: "inorder t = filter (\<lambda>x. x \<noteq> n) (inorder (rb_root b))"
  proof -
    have "filter (\<lambda>x. x \<noteq> n) xs = xs" if "n \<notin> set xs" for xs
      using that by (intro filter_True) auto
    then show ?thesis using di unfolding io t(3) by simp
  qed
  have "rb_sorted (r_ops b) (inorder t)" using o(3) unfolding io t(3) by (simp add: rb_sorted_append rb_sorted_Cons)
  moreover have "rb_valid V (inorder t)" using o(4) unfolding io t(3) by simp
  moreover have "distinct (map rb_addr (inorder t))" using o(5) unfolding io t(3) by simp
  moreover have "length (inorder (rb_root b)) = Suc (length (inorder t))" unfolding io t(3) by simp
  ultimately have ok: "rbtree_ok V ?b" using o(1,6,7) t(2) by (intro rbtree_okI) simp_all
  have nn: "rb_root b \<noteq> RNull" using io by (cases "rb_root b") auto
  have "HXrbtree_del b k old = Some (d, None, ?b,
      kfree (r_ops b) (rb_key n) @ dfree (r_ops b) (rb_data n) @ [EvNode (rb_addr n)])"
    using w(1) nn dep(2) x(1) t(1) dn unfolding HXrbtree_del_def by (simp add: u Let_def)
  then show thesis by (rule that [of ?b n]) (use ok q [OF u] io fil dn in \<open>simp_all add: key_eq_def\<close>)
qed

lemma rb_delete_miss:
  assumes b: "rbtree_ok V b" and k: "V k" and g: "HXrbtree_get b k = None"
  shows "HXrbtree_del b k old = Some (None, if rb_root b = RNull then old else Some ENOENT, b, [])"
proof (rule walk_spec [OF b k])
  fix u fs
  assume w: "rb_walk (r_ops b) k (rb_root b) [] = Some (u, fs)"
    "HXrbtree_find (r_ops b) k (rb_root b) = (case u of RNull \<Rightarrow> None | RNode l n c r \<Rightarrow> Some n)"
  then have "u = RNull" using g by (cases u) (auto simp: HXrbtree_get_def)
  then show ?thesis using w(1) by (simp add: HXrbtree_del_def)
qed

section \<open>The map contract\<close>

definition rb_add :: "('k, 'd) HXrbtree \<Rightarrow> 'k option \<Rightarrow> 'd option \<Rightarrow> ptr \<Rightarrow> ('k, 'd) HXrbtree" where
  "rb_add b k v mem = (case HXrbtree_add b k v mem of Some (_, b', _) \<Rightarrow> b' | None \<Rightarrow> b)"

definition rb_del :: "('k, 'd) HXrbtree \<Rightarrow> 'k option \<Rightarrow> ptr \<Rightarrow> ('k, 'd) HXrbtree" where
  "rb_del b k mem = (case HXrbtree_del b k None of Some (_, _, b', _) \<Rightarrow> b' | None \<Rightarrow> b)"

text \<open>This map replaces when \<open>HXMAP_NOREPLACE\<close> is set.\<close>

definition rb_may :: "('k, 'd) HXrbtree \<Rightarrow> bool" where
  "rb_may b \<longleftrightarrow> has_flag (r_flags b) HXMAP_NOREPLACE"

definition rb_good :: "('k, 'd) HXrbtree \<Rightarrow> 'k option \<Rightarrow> 'd option \<Rightarrow> ptr \<Rightarrow> bool" where
  "rb_good b k v mem \<longleftrightarrow> (case mem of None \<Rightarrow> False | Some a \<Rightarrow> a \<notin> rb_addr ` set (inorder (rb_root b))) \<and>
     unat (r_items b) < 2 ^ 24 - 2 \<and> \<not> clone_failed (k_clone (r_ops b) k) k \<and> \<not> clone_failed (d_clone (r_ops b) v) v"

definition rb_inv :: "('k option \<Rightarrow> bool) \<Rightarrow> ('k, 'd) HXmap_ops \<Rightarrow> ('k, 'd) HXrbtree \<Rightarrow> bool" where
  "rb_inv V ops b \<longleftrightarrow> rbtree_ok V b \<and> r_ops b = ops"

lemma rb_add_law:
  assumes b: "rbtree_ok V b" and k: "V k" and g: "rb_good b k v mem" and c: "HXrbtree_get b k = None \<or> rb_may b"
  shows "rbtree_ok V (rb_add b k v mem) \<and> r_ops (rb_add b k v mem) = r_ops b \<and> r_flags (rb_add b k v mem) = r_flags b \<and>
    (\<forall>x. V x \<longrightarrow> HXrbtree_get (rb_add b k v mem) x =
      (if key_eq (r_ops b) x k then Some (d_clone (r_ops b) v) else HXrbtree_get b x))"
proof -
  note o = rbtree_okD [OF b]
  note q = order_eq_laws [OF o(1)]
  obtain a where a: "mem = Some a" "a \<notin> rb_addr ` set (inorder (rb_root b))" "unat (r_items b) < 2 ^ 24 - 2"
    "\<not> clone_failed (k_clone (r_ops b) k) k" "\<not> clone_failed (d_clone (r_ops b) v) v"
    using g unfolding rb_good_def by (cases mem) auto
  let ?E = "set (inorder (rb_root b))"
  have "\<exists>b' n r ev. HXrbtree_add b k v mem = Some (r, b', ev) \<and> rbtree_ok V b' \<and> r_ops b' = r_ops b \<and> r_flags b' = r_flags b \<and>
    {e \<in> set (inorder (rb_root b')). \<not> key_eq (r_ops b) k (rb_key e)} = {e \<in> ?E. \<not> key_eq (r_ops b) k (rb_key e)} \<and>
    n \<in> set (inorder (rb_root b')) \<and> key_eq (r_ops b) k (rb_key n) \<and> rb_data n = d_clone (r_ops b) v"
  proof (cases "HXrbtree_get b k")
    case None
    let ?n = "\<lparr>rb_addr = a, rb_key = k_clone (r_ops b) k, rb_data = d_clone (r_ops b) v\<rparr>"
    obtain b' where b': "HXrbtree_add b k v (Some a) = Some (Inr (), b', [])" "rbtree_ok V b'"
      "r_ops b' = r_ops b" "r_flags b' = r_flags b" "r_items b' = r_items b + 1"
      "set (inorder (rb_root b')) = insert ?n ?E"
      by (rule rb_insert_spec [OF b k None a(2-5)])
    have "V (k_clone (r_ops b) k)" "key_eq (r_ops b) (k_clone (r_ops b) k) k"
      using o(1) k a(4) unfolding order_laws_def clone_law_def key_eq_def by blast+
    then have "key_eq (r_ops b) k (rb_key ?n)" using eq_lawsD(2) [OF q _ k] by simp
    then show ?thesis using b' a(1) by (intro exI [of _ b'] exI [of _ ?n]) auto
  next
    case (Some d)
    then have g': "HXrbtree_get b k \<noteq> None" and f: "has_flag (r_flags b) HXMAP_NOREPLACE" using c by (simp_all add: rb_may_def)
    obtain b' n where b': "HXrbtree_add b k v mem = Some (Inr (), b', dfree (r_ops b) (rb_data n))" "rbtree_ok V b'"
      "r_ops b' = r_ops b" "r_flags b' = r_flags b" "r_items b' = r_items b" "key_eq (r_ops b) k (rb_key n)" "n \<in> ?E"
      "set (inorder (rb_root b')) = insert (n\<lparr>rb_data := d_clone (r_ops b) v\<rparr>) (?E - {n})"
      by (rule rb_replace_spec [OF b k f a(5) g', of mem])
    then show ?thesis by (intro exI [of _ b'] exI [of _ "n\<lparr>rb_data := d_clone (r_ops b) v\<rparr>"]) auto
  qed
  then obtain b' n r ev where *: "HXrbtree_add b k v mem = Some (r, b', ev)" "rbtree_ok V b'" "r_ops b' = r_ops b"
    "r_flags b' = r_flags b"
    "{e \<in> set (inorder (rb_root b')). \<not> key_eq (r_ops b) k (rb_key e)} = {e \<in> ?E. \<not> key_eq (r_ops b) k (rb_key e)}"
    "n \<in> set (inorder (rb_root b'))" "key_eq (r_ops b) k (rb_key n)" "rb_data n = d_clone (r_ops b) v" by blast
  have e: "rb_add b k v mem = b'" by (simp add: rb_add_def *(1))
  have "HXrbtree_get b' x = (if key_eq (r_ops b) x k then Some (rb_data n) else HXrbtree_get b x)" if x: "V x" for x
    by (rule lookup_set [OF q rb_lookup [OF b] rb_lookup [OF *(2), unfolded *(3)] k x *(5,6,7)])
  then show ?thesis unfolding e using *(2-4,8) by simp
qed

lemma rb_del_law:
  assumes b: "rbtree_ok V b" and k: "V k"
  shows "rbtree_ok V (rb_del b k m) \<and> r_ops (rb_del b k m) = r_ops b \<and> r_flags (rb_del b k m) = r_flags b \<and>
    (\<forall>x. V x \<longrightarrow> HXrbtree_get (rb_del b k m) x = (if key_eq (r_ops b) x k then None else HXrbtree_get b x))"
proof -
  note o = rbtree_okD [OF b]
  note q = order_eq_laws [OF o(1)]
  let ?E = "set (inorder (rb_root b))"
  have "\<exists>b' d err ev. HXrbtree_del b k None = Some (d, err, b', ev) \<and> rbtree_ok V b' \<and> r_ops b' = r_ops b \<and> r_flags b' = r_flags b \<and>
    {e \<in> ?E. \<not> key_eq (r_ops b) k (rb_key e)} = set (inorder (rb_root b'))"
  proof (cases "HXrbtree_get b k")
    case None
    have "\<not> key_eq (r_ops b) k (rb_key e)" if "e \<in> ?E" for e
      using lookup_inD(2) [OF rb_lookup [OF b] that k] None by auto
    then show ?thesis using rb_delete_miss [OF b k None, of None] b by auto
  next
    case (Some d)
    obtain b' n where b': "HXrbtree_del b k None = Some (d, None, b',
        kfree (r_ops b) (rb_key n) @ dfree (r_ops b) (rb_data n) @ [EvNode (rb_addr n)])" "rbtree_ok V b'"
      "r_ops b' = r_ops b" "r_flags b' = r_flags b" "r_items b' = r_items b - 1" "key_eq (r_ops b) k (rb_key n)" "n \<in> ?E"
      "inorder (rb_root b') = filter (\<lambda>x. x \<noteq> n) (inorder (rb_root b))" "rb_data n = d"
      by (rule rb_delete_spec [OF b k Some])
    have "x = n" if x: "x \<in> ?E" "key_eq (r_ops b) k (rb_key x)" for x
    proof -
      have v: "V (rb_key x)" "V (rb_key n)" using o(4) x(1) b'(7) by (auto simp: rb_valid_def)
      have "key_eq (r_ops b) (rb_key x) (rb_key n)"
        using eq_lawsD(3) [OF q v(1) k v(2)] eq_lawsD(2) [OF q k v(1) x(2)] b'(6) by blast
      then show ?thesis by (rule sorted_eq [OF o(1,4,3) x(1) b'(7)])
    qed
    then have "{e \<in> ?E. \<not> key_eq (r_ops b) k (rb_key e)} = set (inorder (rb_root b'))"
      using b'(6) unfolding b'(8) by auto
    then show ?thesis using b'(1-4) by blast
  qed
  then obtain b' d err ev where *: "HXrbtree_del b k None = Some (d, err, b', ev)" "rbtree_ok V b'" "r_ops b' = r_ops b"
    "r_flags b' = r_flags b" "{e \<in> ?E. \<not> key_eq (r_ops b) k (rb_key e)} = set (inorder (rb_root b'))" by blast
  have e: "rb_del b k m = b'" by (simp add: rb_del_def *(1))
  have "HXrbtree_get b' x = (if key_eq (r_ops b) x k then None else HXrbtree_get b x)" if x: "V x" for x
    by (rule lookup_unset [OF q rb_lookup [OF b] rb_lookup [OF *(2), unfolded *(3)] k x *(5)])
  then show ?thesis unfolding e using *(2-4) by simp
qed

lemma rb_refuse_law:
  assumes b: "rbtree_ok V b" and k: "V k" and g: "HXrbtree_get b k \<noteq> None" and f: "\<not> rb_may b"
  shows "HXrbtree_add b k v m = Some (Inl EEXIST, b, [])"
proof (rule walk_spec [OF b k])
  fix u fs
  assume w: "rb_walk (r_ops b) k (rb_root b) [] = Some (u, fs)"
    "HXrbtree_find (r_ops b) k (rb_root b) = (case u of RNull \<Rightarrow> None | RNode l n c r \<Rightarrow> Some n)"
  obtain l n c r where u: "u = RNode l n c r" using g w(2) by (cases u) (auto simp: HXrbtree_get_def)
  show ?thesis using w(1) f by (simp add: HXrbtree_add_def u HXrbtree_replace_def rb_may_def)
qed

interpretation rbmap: map_contract "rb_inv V ops" V "key_eq ops" "d_clone ops" HXrbtree_get
  rb_add rb_del rb_may rb_good
  for V :: "'k option \<Rightarrow> bool" and ops :: "('k, 'd) HXmap_ops"
proof (unfold_locales, goal_cases)
  case (1 s k v m)
  then show ?case using rb_add_law [of V s k v m] by (simp add: rb_inv_def rb_may_def)
next
  case (2 s k v m)
  then show ?case using rb_refuse_law [of V s k v m] by (simp add: rb_inv_def rb_add_def)
next
  case (3 s k m)
  then show ?case using rb_del_law [of V s k m] by (simp add: rb_inv_def rb_may_def)
qed

section \<open>Properties\<close>

lemma rb_init_ok:
  assumes "order_laws (HXmap_ops_setup std False flags ks ops) V"
  obtains b where "HXrbtree_init4 std True flags ops ks = Some b" "rbtree_ok V b" "inorder (rb_root b) = []"
    "r_ops b = HXmap_ops_setup std False flags ks ops" "r_flags b = flags"
proof -
  let ?o = "HXmap_ops_setup std False flags ks ops"
  let ?b = "\<lparr>r_items = 0, r_flags = flags, r_ops = ?o, rb_root = RNull, r_tid = 1\<rparr>"
  have "rbtree_ok V ?b" by (rule rbtree_okI) (use assms in \<open>simp_all add: rb_ok_def rb_valid_def\<close>)
  then show thesis by (intro that [of ?b]) (simp_all add: HXrbtree_init4_def)
qed

text \<open>A tree of pointer values, for the instances below.\<close>

definition val_tree :: "(u64, u64) HXrbtree" where
  "val_tree = \<lparr>r_items = 0, r_flags = 0, r_ops = HXmap_ops_setup val_std False 0 0 None, rb_root = RNull, r_tid = 1\<rparr>"

lemma val_tree_init: "HXrbtree_init4 val_std True 0 None 0 = Some val_tree"
  by (simp add: HXrbtree_init4_def val_tree_def)

lemma val_rb_ops:
  "k_compare (HXmap_ops_setup val_std False 0 0 None) = HXmap_valuecmp"
  "k_clone (HXmap_ops_setup val_std False 0 0 None) = HXmap_valuecpy"
  "d_clone (HXmap_ops_setup val_std False 0 0 None) = HXmap_valuecpy"
  by (simp_all add: HXmap_ops_setup_def val_std_def map_flags has_flag_def Let_def)

definition val_info :: "(u64, u64) rbinfo" where
  "val_info = \<lparr>rb_addr = 1, rb_key = Some 5, rb_data = Some 7\<rparr>"

definition val_tree1 :: "(u64, u64) HXrbtree" where
  "val_tree1 = val_tree\<lparr>r_items := 1, rb_root := RNode RNull val_info RBT_BLACK RNull\<rparr>"

lemma val_tree_ok: "rbtree_ok (\<lambda>_. True) val_tree"
  by (rule rb_init_ok [OF val_order_laws]) (use val_tree_init in simp)

lemma val_rb_good: "rb_good val_tree (Some 5) (Some 7) (Some 1)"
  by (simp add: rb_good_def val_tree_def val_rb_ops clone_failed_def HXmap_valuecpy_def)

lemma val_rb_add: "HXrbtree_add val_tree (Some 5) (Some 7) (Some 1) = Some (Inr (), val_tree1, [])"
  by (simp add: HXrbtree_add_def val_tree_def val_tree1_def val_info_def val_rb_ops clone_failed_def HXmap_valuecpy_def Let_def)

lemma val_rb_get: "HXrbtree_get val_tree k = None"
  by (simp add: HXrbtree_get_def val_tree_def)

lemma val_tree1_ok: "rbtree_ok (\<lambda>_. True) val_tree1"
proof -
  have "rb_add val_tree (Some 5) (Some 7) (Some 1) = val_tree1" unfolding rb_add_def val_rb_add by simp
  then show ?thesis using rb_add_law [OF val_tree_ok TrueI val_rb_good] val_rb_get by metis
qed

lemma val_rb_get1: "HXrbtree_get val_tree1 (Some 5) = Some (Some 7)"
  by (simp add: HXrbtree_get_def val_tree1_def val_tree_def val_info_def val_rb_ops valuecmp_eq Let_def)



text \<open>C7: Every operation keeps the colour rule and the black-height rule, so the height stays logarithmic: a
  tree of \<open>n\<close> nodes and height \<open>h\<close> has \<open>2^(h div 2) \<le> n + 1\<close>, and below \<open>2^24 - 1\<close> nodes, the
  ``16 million objects'' of the comment on \<^verbatim>\<open>RBT_MAXDEP\<close>, no path leaves the arrays of 48 entries: additions
  and deletions always return.\<close>

theorem HXrbtree_balanced:
  assumes b: "rbtree_ok V b" and k: "V k" and a: "\<forall>a. mem = Some a \<longrightarrow> a \<notin> rb_addr ` set (inorder (rb_root b))"
    and l: "unat (r_items b) < 2 ^ 24 - 2"
  shows "(\<exists>r b' ev. HXrbtree_add b k v mem = Some (r, b', ev) \<and> rbtree_ok V b' \<and>
      2 ^ (rb_height (rb_root b') div 2) \<le> unat (r_items b') + 1) \<and>
    (\<exists>d err b' ev. HXrbtree_del b k old = Some (d, err, b', ev) \<and> rbtree_ok V b' \<and>
      2 ^ (rb_height (rb_root b') div 2) \<le> unat (r_items b') + 1)"
proof -
  have h: "2 ^ (rb_height (rb_root b') div 2) \<le> unat (r_items b') + 1" if b': "rbtree_ok V b'" for b' :: "('a, 'b) HXrbtree"
  proof -
    note o = rbtree_okD [OF b']
    have "rb_height (rb_root b') div 2 \<le> bheight (rb_root b')"
      using bal_height [of "rb_root b'"] o(2) by (simp add: rb_ok_def)
    then have "2 ^ (rb_height (rb_root b') div 2) \<le> (2 :: nat) ^ bheight (rb_root b')" by simp
    also have "\<dots> \<le> length (inorder (rb_root b')) + 1"
      by (rule bal_size) (use o(2) in \<open>simp add: rb_ok_def\<close>)
    finally show ?thesis using o(6,7) by (simp add: unat_of_nat take_bit_nat_eq_self)
  qed
  have "\<exists>r b' ev. HXrbtree_add b k v mem = Some (r, b', ev) \<and> rbtree_ok V b'"
  proof (cases "HXrbtree_get b k = None")
    case True
    show ?thesis
    proof (cases "rb_good b k v mem")
      case g: True
      then obtain m where m: "mem = Some m" "m \<notin> rb_addr ` set (inorder (rb_root b))" "\<not> clone_failed (k_clone (r_ops b) k) k"
        "\<not> clone_failed (d_clone (r_ops b) v) v" unfolding rb_good_def by (cases mem) auto
      show ?thesis unfolding m(1) by (rule rb_insert_spec [OF b k True m(2) l m(3,4)]) blast
    next
      case False
      then have f: "mem = None \<or> clone_failed (k_clone (r_ops b) k) k \<or> clone_failed (d_clone (r_ops b) v) v"
        using a l by (auto simp: rb_good_def split: option.splits)
      show ?thesis
      proof (rule walk_spec [OF b k])
        fix u fs
        assume w: "rb_walk (r_ops b) k (rb_root b) [] = Some (u, fs)"
          "HXrbtree_find (r_ops b) k (rb_root b) = (case u of RNull \<Rightarrow> None | RNode l n c r \<Rightarrow> Some n)"
        then have "u = RNull" using True by (cases u) (auto simp: HXrbtree_get_def)
        then show ?thesis using f w(1) b by (cases mem) (auto simp: HXrbtree_add_def Let_def)
      qed
    qed
  next
    case False
    show ?thesis
    proof (cases "rb_may b")
      case m: True
      show ?thesis
      proof (cases "clone_failed (d_clone (r_ops b) v) v")
        case True
        show ?thesis
        proof (rule walk_spec [OF b k])
          fix u fs
          assume w: "rb_walk (r_ops b) k (rb_root b) [] = Some (u, fs)"
            "HXrbtree_find (r_ops b) k (rb_root b) = (case u of RNull \<Rightarrow> None | RNode l n c r \<Rightarrow> Some n)"
          then obtain l n c r where "u = RNode l n c r" using False by (cases u) (auto simp: HXrbtree_get_def)
          then show ?thesis using w(1) b m True by (simp add: HXrbtree_add_def HXrbtree_replace_def rb_may_def Let_def)
        qed
      next
        case c: False
        show ?thesis by (rule rb_replace_spec [OF b k m [unfolded rb_may_def] c False, of mem]) blast
      qed
    next
      case r: False
      show ?thesis using rb_refuse_law [OF b k False r] b by blast
    qed
  qed
  moreover have "\<exists>d err b' ev. HXrbtree_del b k old = Some (d, err, b', ev) \<and> rbtree_ok V b'"
  proof (cases "HXrbtree_get b k")
    case None
    then show ?thesis using rb_delete_miss [OF b k None] b by blast
  next
    case (Some d)
    show ?thesis by (rule rb_delete_spec [OF b k Some, of old]) blast
  qed
  ultimately show ?thesis using h by meson
qed

theorem HXrbtree_balanced_witness:
  "\<exists>r b' ev. HXrbtree_add val_tree1 (Some 6) None (Some 2) = Some (r, b', ev) \<and> rbtree_ok (\<lambda>_. True) b'"
proof -
  have "\<forall>a. Some 2 = Some a \<longrightarrow> a \<notin> rb_addr ` set (inorder (rb_root val_tree1))" "unat (r_items val_tree1) < 2 ^ 24 - 2"
    by (simp_all add: val_tree1_def val_tree_def val_info_def)
  from HXrbtree_balanced [OF val_tree1_ok TrueI this, of "Some 6" None] show ?thesis by blast
qed

text \<open>C27: A deletion of an absent key reports \<open>ENOENT\<close> (but leaves \<^verbatim>\<open>errno\<close> as it was when the tree is
  empty) and changes nothing. A deletion of a present key returns its data, takes exactly that node out, the
  order of the others unchanged, and releases the node's key, its data and the node, each once.\<close>

theorem HXrbtree_del_effect:
  assumes b: "rbtree_ok V b" and k: "V k"
  shows "\<exists>d err b' ev. HXrbtree_del b k old = Some (d, err, b', ev) \<and>
    (case HXrbtree_get b k of
       None \<Rightarrow> d = None \<and> b' = b \<and> ev = [] \<and> err = (if rb_root b = RNull then old else Some ENOENT)
     | Some x \<Rightarrow> d = x \<and> err = None \<and> r_items b' = r_items b - 1 \<and>
         (\<exists>n \<in> set (inorder (rb_root b)). key_eq (r_ops b) k (rb_key n) \<and>
            inorder (rb_root b') = filter (\<lambda>x. x \<noteq> n) (inorder (rb_root b)) \<and>
            ev = kfree (r_ops b) (rb_key n) @ dfree (r_ops b) (rb_data n) @ [EvNode (rb_addr n)]))"
proof (cases "HXrbtree_get b k")
  case None
  then show ?thesis using rb_delete_miss [OF b k None] by simp
next
  case (Some d)
  show ?thesis by (rule rb_delete_spec [OF b k Some, of old]) (auto simp: Some)
qed

theorem HXrbtree_del_effect_witness:
  "\<exists>b' ev. HXrbtree_del val_tree1 (Some 5) None = Some (Some 7, None, b', ev)"
  using HXrbtree_del_effect [OF val_tree1_ok TrueI, of "Some 5" None] by (auto simp: val_rb_get1)

end
