(* ===== verification/HX_Rbtrav.thy ===== *)
theory HX_Rbtrav
  imports HX_Rbmap "HOL-Library.Multiset"
begin

text \<open>
  Walking over the red-black tree: destruction, \<open>HXmap_keysvalues\<close>, \<open>HXmap_qfe\<close> and the traverser
  (\<^verbatim>\<open>HXrbtrav_*\<close>), which keeps node pointers across calls and finds its place again by a key, the
  \<^verbatim>\<open>checkpoint\<close>, after the tree has changed.

  A node pointer is an address; it is followed in the tree as it is at that time (\<open>node_at\<close>), so a pointer
  to a node that has left the tree is a dangling one and following it is \<open>None\<close>. The arrays \<^verbatim>\<open>path\<close> and
  \<^verbatim>\<open>dir\<close> have \<^verbatim>\<open>RBT_MAXDEP\<close> entries. The contents of the uninitialised array \<^verbatim>\<open>newpath\<close> are an argument.
\<close>

section \<open>Enumeration\<close>

fun HXrbtree_free_dive :: "('k, 'd) HXmap_ops \<Rightarrow> ('k, 'd) HXrbnode \<Rightarrow> ('k, 'd) ev list" where
  "HXrbtree_free_dive ops RNull = []"
| "HXrbtree_free_dive ops (RNode l n c r) =
     HXrbtree_free_dive ops l @ HXrbtree_free_dive ops r @
     kfree ops (rb_key n) @ dfree ops (rb_data n) @ [EvNode (rb_addr n)]"

definition HXrbtree_free :: "('k, 'd) HXrbtree \<Rightarrow> ('k, 'd) ev list" where
  "HXrbtree_free b = HXrbtree_free_dive (r_ops b) (rb_root b)"

fun HXrbtree_keysvalues :: "('k, 'd) HXrbnode \<Rightarrow> ('k option \<times> 'd option) list \<Rightarrow> ('k option \<times> 'd option) list option" where
  "HXrbtree_keysvalues RNull array = None"
| "HXrbtree_keysvalues (RNode l n c r) array = do {
     array \<leftarrow> (if l \<noteq> RNull then HXrbtree_keysvalues l array else Some array);
     let array = array @ [(rb_key n, rb_data n)];
     (if r \<noteq> RNull then HXrbtree_keysvalues r array else Some array)
   }"

fun HXrbtree_qfe :: "('k, 'd) HXrbnode \<Rightarrow> ('k option \<times> 'd option \<Rightarrow> 's \<Rightarrow> bool \<times> 's) \<Rightarrow> 's \<Rightarrow> 's" where
  "HXrbtree_qfe RNull fn arg = arg"
| "HXrbtree_qfe (RNode l n c r) fn arg =
     (let arg = HXrbtree_qfe l fn arg;
          (continue, arg) = fn (rb_key n, rb_data n) arg
      in if \<not> continue then arg else HXrbtree_qfe r fn arg)"

section \<open>The traverser\<close>

record 'k HXrbtrav =
  v_flags :: u32
  v_tid :: u32
  v_current :: ptr
  v_checkpoint :: "'k option"
  v_path :: "ptr list"
  v_dir :: "bool list"
  v_depth :: nat

definition HXrbtrav_init :: "bool \<Rightarrow> u32 \<Rightarrow> 'k HXrbtrav option" where
  "HXrbtrav_init ok flags =
     (if ok then Some \<lparr>v_flags = flags, v_tid = 0, v_current = None, v_checkpoint = None,
        v_path = replicate RBT_MAXDEP None, v_dir = replicate RBT_MAXDEP False, v_depth = 0\<rparr>
      else None)"

fun node_at :: "addr \<Rightarrow> ('k, 'd) HXrbnode \<Rightarrow> ('k, 'd) HXrbnode option" where
  "node_at a RNull = None"
| "node_at a (RNode l n c r) =
     (if rb_addr n = a then Some (RNode l n c r)
      else case node_at a l of Some t \<Rightarrow> Some t | None \<Rightarrow> node_at a r)"

definition follow :: "('k, 'd) HXrbtree \<Rightarrow> ptr \<Rightarrow> ('k, 'd) HXrbnode option" where
  "follow b p = (case p of None \<Rightarrow> None | Some a \<Rightarrow> node_at a (rb_root b))"

definition HXrbtrav_checkpoint ::
  "('k, 'd) HXrbtree \<Rightarrow> 'k HXrbtrav \<Rightarrow> ('k, 'd) rbinfo \<Rightarrow> 'k HXrbtrav \<times> ('k, 'd) ev list" where
  "HXrbtrav_checkpoint b v n =
     (if has_flag (r_flags b) HXMAP_DTRAV
      then (v\<lparr>v_checkpoint := k_clone (r_ops b) (rb_key n)\<rparr>, kfree (r_ops b) (v_checkpoint v))
      else (v\<lparr>v_checkpoint := rb_key n\<rparr>, []))"

text \<open>The loop down the left branches, and the one up the right turns.\<close>

fun trav_left :: "('k, 'd) HXrbnode \<Rightarrow> 'k HXrbtrav \<Rightarrow> 'k HXrbtrav option" where
  "trav_left RNull v = Some v"
| "trav_left (RNode l n c r) v = do {
     p \<leftarrow> wr (v_path v) (v_depth v) (Some (rb_addr n));
     d \<leftarrow> wr (v_dir v) (v_depth v) False;
     trav_left l (v\<lparr>v_path := p, v_dir := d, v_depth := v_depth v + 1\<rparr>)
   }"

primrec trav_up :: "bool list \<Rightarrow> nat \<Rightarrow> nat option" where
  "trav_up dir 0 = Some 0"
| "trav_up dir (Suc d) = do {
     x \<leftarrow> rd dir d;
     if \<not> x then Some (Suc d) else trav_up dir d
   }"

text \<open>\<^verbatim>\<open>current = path[--depth]\<close>, with the checkpoint that follows.\<close>

definition trav_pop ::
  "('k, 'd) HXrbtree \<Rightarrow> 'k HXrbtrav \<Rightarrow> (('k, 'd) rbinfo option \<times> 'k HXrbtrav \<times> ('k, 'd) ev list) option" where
  "trav_pop b v = do {
     p \<leftarrow> rd (v_path v) (v_depth v - 1);
     let v = v\<lparr>v_depth := v_depth v - 1, v_current := p\<rparr>;
     t \<leftarrow> follow b p;
     case t of RNull \<Rightarrow> None
     | RNode l n c r \<Rightarrow> (let (v, ev) = HXrbtrav_checkpoint b v n in Some (Some n, v, ev))
   }"

definition HXrbtrav_next ::
  "('k, 'd) HXrbtree \<Rightarrow> 'k HXrbtrav \<Rightarrow> (('k, 'd) rbinfo option \<times> 'k HXrbtrav \<times> ('k, 'd) ev list) option" where
  "HXrbtrav_next b v = do {
     t \<leftarrow> follow b (v_current v);
     case t of RNull \<Rightarrow> None
     | RNode l n c r \<Rightarrow>
         if r \<noteq> RNull then do {
           d \<leftarrow> wr (v_dir v) (v_depth v) True;
           v \<leftarrow> trav_left r (v\<lparr>v_dir := d, v_depth := v_depth v + 1\<rparr>);
           trav_pop b v
         }
         else if v_depth v = 0 then Some (None, v\<lparr>v_current := None\<rparr>, [])
         else do {
           d \<leftarrow> rd (v_dir v) (v_depth v - 1);
           if \<not> d then trav_pop b v
           else do {
             up \<leftarrow> trav_up (v_dir v) (v_depth v);
             if up = 0 then Some (None, v\<lparr>v_depth := 0, v_current := None\<rparr>, [])
             else trav_pop b (v\<lparr>v_depth := up\<rparr>)
           }
         }
   }"

text \<open>The search for the checkpoint. Besides the path proper it collects in \<open>np\<close> and \<open>nd\<close> only the nodes
  at which it turned left.\<close>

fun rewalk_loop ::
  "('k, 'd) HXmap_ops \<Rightarrow> ('k, 'd) HXrbnode \<Rightarrow> 'k HXrbtrav \<Rightarrow> ptr list \<Rightarrow> bool list \<Rightarrow> nat \<Rightarrow>
     (bool \<times> 'k HXrbtrav \<times> ptr list \<times> bool list \<times> nat) option" where
  "rewalk_loop ops RNull v np nd newdepth = Some (False, v, np, nd, newdepth)"
| "rewalk_loop ops (RNode l n c r) v np nd newdepth = do {
     p \<leftarrow> wr (v_path v) (v_depth v) (Some (rb_addr n));
     np \<leftarrow> wr np newdepth (Some (rb_addr n));
     let res = k_compare ops (v_checkpoint v) (rb_key n);
     (if res = 0 then Some (True, v\<lparr>v_path := p, v_depth := v_depth v + 1\<rparr>, np, nd, newdepth)
      else do {
        d \<leftarrow> wr (v_dir v) (v_depth v) (res > 0);
        let v = v\<lparr>v_path := p, v_dir := d, v_depth := v_depth v + 1\<rparr>;
        (if res > 0 then rewalk_loop ops r v np nd newdepth
         else do {
           nd \<leftarrow> wr nd newdepth False;
           rewalk_loop ops l v np nd (newdepth + 1)
         })
      })
   }"

definition HXrbtrav_rewalk ::
  "ptr list \<Rightarrow> ('k, 'd) HXrbtree \<Rightarrow> 'k HXrbtrav \<Rightarrow> (('k, 'd) rbinfo option \<times> 'k HXrbtrav \<times> ('k, 'd) ev list) option" where
  "HXrbtrav_rewalk junk b v = do {
     let v = v\<lparr>v_depth := 0\<rparr>;
     (go_next, v) \<leftarrow>
       (if v_current v = None then do { v \<leftarrow> trav_left (rb_root b) v; Some (False, v) }
        else do {
          (found, v, np, nd, newdepth) \<leftarrow> rewalk_loop (r_ops b) (rb_root b) v junk (replicate RBT_MAXDEP False) 0;
          Some (if found then (True, v) else (False, v\<lparr>v_path := np, v_dir := nd, v_depth := newdepth\<rparr>))
        });
     (n, v, ev) \<leftarrow>
       (if v_depth v = 0 then Some (None, v\<lparr>v_current := None\<rparr>, [])
        else do {
          p \<leftarrow> rd (v_path v) (v_depth v - 1);
          (if p = None then Some (None, v\<lparr>v_depth := v_depth v - 1, v_current := None\<rparr>, []) else trav_pop b v)
        });
     let v = v\<lparr>v_tid := r_tid b\<rparr>;
     (if v_current v \<noteq> None \<and> go_next then do {
        (n, v, ev') \<leftarrow> HXrbtrav_next b v;
        Some (n, v, ev @ ev')
      }
      else Some (n, v, ev))
   }"

definition HXrbtree_traverse ::
  "ptr list \<Rightarrow> ('k, 'd) HXrbtree \<Rightarrow> 'k HXrbtrav \<Rightarrow> (('k, 'd) rbinfo option \<times> 'k HXrbtrav \<times> ('k, 'd) ev list) option" where
  "HXrbtree_traverse junk b v =
     (if v_tid v \<noteq> r_tid b \<or> v_current v = None then HXrbtrav_rewalk junk b v else HXrbtrav_next b v)"

definition HXrbtrav_free :: "('k, 'd) HXrbtree \<Rightarrow> 'k HXrbtrav \<Rightarrow> ('k, 'd) ev list" where
  "HXrbtrav_free b v = (if has_flag (r_flags b) HXMAP_DTRAV then kfree (r_ops b) (v_checkpoint v) else [])"

section \<open>Nodes by address\<close>

lemma node_at_None: "node_at a t = None \<longleftrightarrow> a \<notin> rb_addr ` set (inorder t)"
  by (induction t) (auto split: option.splits)

lemma node_at_addr: "node_at a t = Some u \<Longrightarrow> \<exists>l n c r. u = RNode l n c r \<and> rb_addr n = a"
  by (induction t) (auto split: option.splits if_splits)

lemma node_at_sub: "node_at a t = Some u \<Longrightarrow> set (inorder u) \<subseteq> set (inorder t)"
  by (induction t) (auto split: option.splits if_splits)

lemma node_at_left:
  assumes "distinct (map rb_addr (inorder (RNode l n c r)))" "a \<in> rb_addr ` set (inorder l)"
  shows "node_at a (RNode l n c r) = node_at a l"
proof -
  obtain u where "node_at a l = Some u" using assms(2) node_at_None [of a l] by fastforce
  moreover have "rb_addr n \<notin> rb_addr ` set (inorder l)" using assms(1) by auto
  then have "rb_addr n \<noteq> a" using assms(2) by blast
  ultimately show ?thesis by simp
qed

lemma node_at_right:
  assumes "distinct (map rb_addr (inorder (RNode l n c r)))" "a \<in> rb_addr ` set (inorder r)"
  shows "node_at a (RNode l n c r) = node_at a r"
proof -
  have d: "rb_addr n \<notin> rb_addr ` set (inorder r)" "rb_addr ` set (inorder l) \<inter> rb_addr ` set (inorder r) = {}"
    using assms(1) by auto
  have "rb_addr n \<noteq> a" using d(1) assms(2) by blast
  moreover have "a \<notin> rb_addr ` set (inorder l)" using d(2) assms(2) by blast
  then have "node_at a l = None" by (simp only: node_at_None not_False_eq_True)
  ultimately have "rb_addr n \<noteq> a \<and> node_at a l = None" by blast
  then show ?thesis by simp
qed

text \<open>The children of a node of the tree are found by their addresses.\<close>

lemma node_at_child:
  "distinct (map rb_addr (inorder t)) \<Longrightarrow> node_at a t = Some (RNode l n c r) \<Longrightarrow>
    (\<forall>ll m cc rr. l = RNode ll m cc rr \<longrightarrow> node_at (rb_addr m) t = Some l) \<and>
    (\<forall>ll m cc rr. r = RNode ll m cc rr \<longrightarrow> node_at (rb_addr m) t = Some r)"
proof (induction t)
  case (RNode tl tn tc tr)
  let ?t = "RNode tl tn tc tr"
  have d: "distinct (map rb_addr (inorder tl))" "distinct (map rb_addr (inorder tr))" using RNode.prems(1) by auto
  show ?case
  proof (cases "rb_addr tn = a")
    case True
    then have e: "l = tl" "r = tr" using RNode.prems(2) by auto
    have "node_at (rb_addr m) ?t = Some (RNode ll m cc rr)" if "tl = RNode ll m cc rr" for ll m cc rr
      using node_at_left [OF RNode.prems(1), of "rb_addr m"] that by simp
    moreover have "node_at (rb_addr m) ?t = Some (RNode ll m cc rr)" if "tr = RNode ll m cc rr" for ll m cc rr
      using node_at_right [OF RNode.prems(1), of "rb_addr m"] that by simp
    ultimately show ?thesis unfolding e by blast
  next
    case False
    show ?thesis
    proof (cases "node_at a tl")
      case (Some u)
      then have u: "node_at a tl = Some (RNode l n c r)" using RNode.prems(2) False by simp
      note s = node_at_sub [OF u]
      have "node_at (rb_addr m) ?t = node_at (rb_addr m) tl" if "m \<in> set (inorder (RNode l n c r))" for m
        by (rule node_at_left [OF RNode.prems(1)]) (use s that in blast)
      then show ?thesis using RNode.IH(1) [OF d(1) u] by fastforce
    next
      case None
      then have u: "node_at a tr = Some (RNode l n c r)" using RNode.prems(2) False by simp
      note s = node_at_sub [OF u]
      have "node_at (rb_addr m) ?t = node_at (rb_addr m) tr" if "m \<in> set (inorder (RNode l n c r))" for m
        by (rule node_at_right [OF RNode.prems(1)]) (use s that in blast)
      then show ?thesis using RNode.IH(2) [OF d(2) u] by fastforce
    qed
  qed
qed simp

section \<open>What is still to come\<close>

text \<open>\<open>pending t p d i xs\<close>: the first \<open>i\<close> entries of the arrays name ancestors in the tree \<open>t\<close>, and \<open>xs\<close> are the
  nodes that the ancestors left through their left branches still have to deliver.\<close>

primrec pending :: "('k, 'd) HXrbnode \<Rightarrow> ptr list \<Rightarrow> bool list \<Rightarrow> nat \<Rightarrow> ('k, 'd) rbinfo list \<Rightarrow> bool" where
  "pending t p d 0 xs \<longleftrightarrow> xs = []"
| "pending t p d (Suc i) xs \<longleftrightarrow> i < length p \<and> i < length d \<and>
     (if d ! i then pending t p d i xs
      else \<exists>l n c r ys. p ! i = Some (rb_addr n) \<and> node_at (rb_addr n) t = Some (RNode l n c r) \<and>
        i + rb_height (RNode l n c r) \<le> 46 \<and> xs = n # inorder r @ ys \<and> pending t p d i ys)"

definition trav_at ::
  "('k, 'd) HXrbnode \<Rightarrow> 'k HXrbtrav \<Rightarrow> ('k, 'd) rbinfo \<Rightarrow> ('k, 'd) rbinfo list \<Rightarrow> bool" where
  "trav_at t v n xs \<longleftrightarrow> length (v_path v) = RBT_MAXDEP \<and> length (v_dir v) = RBT_MAXDEP \<and>
     v_current v = Some (rb_addr n) \<and>
     (\<exists>l c r ys. node_at (rb_addr n) t = Some (RNode l n c r) \<and> v_depth v + rb_height (RNode l n c r) \<le> 46 \<and>
        xs = inorder r @ ys \<and> pending t (v_path v) (v_dir v) (v_depth v) ys)"

lemma pending_cong:
  "(\<And>j. j < i \<Longrightarrow> p ! j = p' ! j \<and> d ! j = d' ! j) \<Longrightarrow> length p' = length p \<Longrightarrow> length d' = length d \<Longrightarrow>
    pending t p d i xs = pending t p' d' i xs"
proof (induction i arbitrary: xs)
  case (Suc i)
  have "pending t p d i ys = pending t p' d' i ys" for ys using Suc by auto
  moreover have "p ! i = p' ! i" "d ! i = d' ! i" using Suc.prems(1) [of i] by simp_all
  ultimately show ?case using Suc.prems(2,3) by simp
qed simp

lemma pending_update:
  "pending t p d i xs \<Longrightarrow> i \<le> j \<Longrightarrow> i \<le> k \<Longrightarrow> pending t (p[j := x]) (d[k := y]) i xs"
  using pending_cong [of i p "p[j := x]" d "d[k := y]" t xs] by simp

lemma pending_SucI:
  "i < length p \<Longrightarrow> i < length d \<Longrightarrow> \<not> d ! i \<Longrightarrow> p ! i = Some (rb_addr n) \<Longrightarrow>
    node_at (rb_addr n) t = Some (RNode l n c r) \<Longrightarrow> i + rb_height (RNode l n c r) \<le> 46 \<Longrightarrow>
    pending t p d i ys \<Longrightarrow> pending t p d (Suc i) (n # inorder r @ ys)"
  unfolding pending.simps by (simp del: rb_height.simps) blast

declare pending.simps(2) [simp del]

lemma pending_SucD:
  assumes "pending t p d (Suc i) xs"
  shows "i < length p" "i < length d" "d ! i \<Longrightarrow> pending t p d i xs"
    "\<not> d ! i \<Longrightarrow> \<exists>l n c r ys. p ! i = Some (rb_addr n) \<and> node_at (rb_addr n) t = Some (RNode l n c r) \<and>
        i + rb_height (RNode l n c r) \<le> 46 \<and> xs = n # inorder r @ ys \<and> pending t p d i ys"
  using assms unfolding pending.simps(2) by (simp_all del: rb_height.simps)

lemma pending_SucR: "i < length p \<Longrightarrow> i < length d \<Longrightarrow> d ! i \<Longrightarrow> pending t p d i xs \<Longrightarrow> pending t p d (Suc i) xs"
  by (simp add: pending.simps(2))

lemma trav_left_spec:
  assumes dt: "distinct (map rb_addr (inorder t))"
  shows "length (v_path v) = RBT_MAXDEP \<Longrightarrow> length (v_dir v) = RBT_MAXDEP \<Longrightarrow>
    v_depth v + rb_height u \<le> 46 \<Longrightarrow> (\<forall>l n c r. u = RNode l n c r \<longrightarrow> node_at (rb_addr n) t = Some u) \<Longrightarrow>
    pending t (v_path v) (v_dir v) (v_depth v) ys \<Longrightarrow>
    \<exists>p d i. trav_left u v = Some (v\<lparr>v_path := p, v_dir := d, v_depth := i\<rparr>) \<and> length p = RBT_MAXDEP \<and>
      length d = RBT_MAXDEP \<and> pending t p d i (inorder u @ ys) \<and> v_depth v \<le> i \<and>
      (u \<noteq> RNull \<longrightarrow> v_depth v < i \<and> \<not> d ! (i - 1))"
proof (induction u v arbitrary: ys rule: trav_left.induct)
  case (1 v)
  then show ?case by (intro exI [of _ "v_path v"] exI [of _ "v_dir v"] exI [of _ "v_depth v"]) simp
next
  case (2 l n c r v)
  let ?p = "(v_path v)[v_depth v := Some (rb_addr n)]" and ?d = "(v_dir v)[v_depth v := False]"
  let ?v = "v\<lparr>v_path := ?p, v_dir := ?d, v_depth := v_depth v + 1\<rparr>"
  have lt: "v_depth v < RBT_MAXDEP" using "2.prems"(3) by (simp add: RBT_MAXDEP_def)
  have w: "wr (v_path v) (v_depth v) (Some (rb_addr n)) = Some ?p" "wr (v_dir v) (v_depth v) False = Some ?d"
    using lt "2.prems"(1,2) by (simp_all add: wr_in)
  have nt: "node_at (rb_addr n) t = Some (RNode l n c r)" using "2.prems"(4) by simp
  have ch: "\<forall>ll m cc rr. l = RNode ll m cc rr \<longrightarrow> node_at (rb_addr m) t = Some l"
    using node_at_child [OF dt nt] by blast
  have pe: "pending t ?p ?d (v_depth v + 1) (n # inorder r @ ys)"
    unfolding Suc_eq_plus1 [symmetric]
    by (rule pending_SucI [OF _ _ _ _ nt "2.prems"(3) pending_update [OF "2.prems"(5) order_refl order_refl]])
      (use lt "2.prems"(1,2) in simp_all)
  have "\<exists>p d i. trav_left l ?v = Some (?v\<lparr>v_path := p, v_dir := d, v_depth := i\<rparr>) \<and> length p = RBT_MAXDEP \<and>
      length d = RBT_MAXDEP \<and> pending t p d i (inorder l @ n # inorder r @ ys) \<and> v_depth ?v \<le> i \<and>
      (l \<noteq> RNull \<longrightarrow> v_depth ?v < i \<and> \<not> d ! (i - 1))"
    by (rule "2.IH" [OF w]) (use "2.prems"(1-3) ch pe in simp_all)
  then obtain p d i where *: "trav_left l ?v = Some (?v\<lparr>v_path := p, v_dir := d, v_depth := i\<rparr>)" "length p = RBT_MAXDEP"
    "length d = RBT_MAXDEP" "pending t p d i (inorder l @ n # inorder r @ ys)" "v_depth v + 1 \<le> i"
    "l \<noteq> RNull \<longrightarrow> \<not> d ! (i - 1)" by auto
  have "trav_left (RNode l n c r) v = Some (v\<lparr>v_path := p, v_dir := d, v_depth := i\<rparr>)" using *(1) w by simp
  moreover have "\<not> d ! (i - 1)"
  proof (cases "l = RNull")
    case True
    then have e: "?v = ?v\<lparr>v_path := p, v_dir := d, v_depth := i\<rparr>" using *(1) by simp
    have "d = ?d" "i = v_depth v + 1" using arg_cong [OF e, of v_dir] arg_cong [OF e, of v_depth] by simp_all
    then show ?thesis using lt "2.prems"(2) by simp
  qed (use *(6) in simp)
  ultimately show ?case using *(2-5) by (intro exI [of _ p] exI [of _ d] exI [of _ i]) simp
qed

text \<open>Popping an entry that was left through its left branch delivers it.\<close>

lemma checkpoint_fields [simp]:
  "v_path (fst (HXrbtrav_checkpoint b v n)) = v_path v" "v_dir (fst (HXrbtrav_checkpoint b v n)) = v_dir v"
  "v_depth (fst (HXrbtrav_checkpoint b v n)) = v_depth v" "v_current (fst (HXrbtrav_checkpoint b v n)) = v_current v"
  "v_tid (fst (HXrbtrav_checkpoint b v n)) = v_tid v"
  by (simp_all add: HXrbtrav_checkpoint_def)

text \<open>The key kept for a later search.\<close>

definition trav_key :: "('k, 'd) HXrbtree \<Rightarrow> ('k, 'd) rbinfo \<Rightarrow> 'k option" where
  "trav_key b n = (if has_flag (r_flags b) HXMAP_DTRAV then k_clone (r_ops b) (rb_key n) else rb_key n)"

lemma checkpoint_key [simp]: "v_checkpoint (fst (HXrbtrav_checkpoint b v n)) = trav_key b n"
  by (simp add: HXrbtrav_checkpoint_def trav_key_def)

lemma trav_at_update [simp]: "trav_at t (v\<lparr>v_tid := x\<rparr>) n xs = trav_at t v n xs"
  by (simp add: trav_at_def)

lemma trav_pop_spec:
  assumes p: "pending (rb_root b) (v_path v) (v_dir v) (Suc i) xs" "\<not> v_dir v ! i" "v_depth v = Suc i"
    and l: "length (v_path v) = RBT_MAXDEP" "length (v_dir v) = RBT_MAXDEP"
  obtains n ys v' ev where "xs = n # ys" "trav_pop b v = Some (Some n, v', ev)" "trav_at (rb_root b) v' n ys"
    "v_tid v' = v_tid v" "v_checkpoint v' = trav_key b n"
proof -
  obtain l n c r ys where *: "v_path v ! i = Some (rb_addr n)" "node_at (rb_addr n) (rb_root b) = Some (RNode l n c r)"
    "i + rb_height (RNode l n c r) \<le> 46" "xs = n # inorder r @ ys" "pending (rb_root b) (v_path v) (v_dir v) i ys"
    using pending_SucD(4) [OF p(1,2)] by blast
  let ?v = "v\<lparr>v_depth := i, v_current := Some (rb_addr n)\<rparr>"
  let ?c = "HXrbtrav_checkpoint b ?v n"
  have "trav_pop b v = Some (Some n, fst ?c, snd ?c)"
    using *(1,2) pending_SucD(1) [OF p(1)] p(3) by (simp add: trav_pop_def rd_in follow_def Let_def split: prod.splits)
  moreover have "trav_at (rb_root b) (fst ?c) n (inorder r @ ys)"
    unfolding trav_at_def using *(2,3,5) l by (auto simp del: rb_height.simps)
  ultimately show thesis by (intro that [OF *(4), of "fst ?c" "snd ?c"]) simp_all
qed

lemma trav_up_spec:
  "pending t p d i xs \<Longrightarrow>
    \<exists>j \<le> i. trav_up d i = Some j \<and> pending t p d j xs \<and> (j = 0 \<longrightarrow> xs = []) \<and> (0 < j \<longrightarrow> \<not> d ! (j - 1))"
proof (induction i)
  case (Suc i)
  note l = pending_SucD(1,2) [OF Suc.prems]
  show ?case
  proof (cases "d ! i")
    case True
    then show ?thesis using Suc.IH [OF pending_SucD(3) [OF Suc.prems True]] l(2) by (fastforce simp: rd_in)
  next
    case False
    then show ?thesis using Suc.prems l(2) by (intro exI [of _ "Suc i"]) (simp add: rd_in)
  qed
qed simp

lemma next_spec:
  assumes dt: "distinct (map rb_addr (inorder (rb_root b)))" and a: "trav_at (rb_root b) v n xs"
  shows "case xs of
      [] \<Rightarrow> \<exists>v' ev. HXrbtrav_next b v = Some (None, v', ev) \<and> v_current v' = None \<and> v_tid v' = v_tid v
    | m # ys \<Rightarrow> \<exists>v' ev. HXrbtrav_next b v = Some (Some m, v', ev) \<and> trav_at (rb_root b) v' m ys \<and>
        v_tid v' = v_tid v \<and> v_checkpoint v' = trav_key b m"
proof -
  obtain l c r ys where *: "length (v_path v) = RBT_MAXDEP" "length (v_dir v) = RBT_MAXDEP" "v_current v = Some (rb_addr n)"
    "node_at (rb_addr n) (rb_root b) = Some (RNode l n c r)" "v_depth v + rb_height (RNode l n c r) \<le> 46"
    "xs = inorder r @ ys" "pending (rb_root b) (v_path v) (v_dir v) (v_depth v) ys"
    using a unfolding trav_at_def by blast
  have f: "follow b (v_current v) = Some (RNode l n c r)" using *(3,4) by (simp add: follow_def)
  show ?thesis
  proof (cases "r = RNull")
    case False
    let ?v = "v\<lparr>v_dir := (v_dir v)[v_depth v := True], v_depth := v_depth v + 1\<rparr>"
    have lt: "v_depth v < RBT_MAXDEP" using *(5) by (simp add: RBT_MAXDEP_def)
    have hr: "v_depth v + rb_height r \<le> 45" using *(5) by simp
    have ch: "\<forall>ll m cc rr. r = RNode ll m cc rr \<longrightarrow> node_at (rb_addr m) (rb_root b) = Some r"
      using node_at_child [OF dt *(4)] by blast
    have "pending (rb_root b) (v_path v) ((v_dir v)[v_depth v := True]) (v_depth v) ys"
      using pending_update [OF *(7) order_refl order_refl, of "v_path v ! v_depth v" True] by simp
    then have "pending (rb_root b) (v_path ?v) (v_dir ?v) (v_depth ?v) ys"
      using lt *(1,2) by (simp add: pending_SucR)
    then obtain p d i where t: "trav_left r ?v = Some (?v\<lparr>v_path := p, v_dir := d, v_depth := i\<rparr>)" "length p = RBT_MAXDEP"
      "length d = RBT_MAXDEP" "pending (rb_root b) p d i (inorder r @ ys)" "v_depth ?v < i" "\<not> d ! (i - 1)"
      using trav_left_spec [OF dt, of ?v r ys] *(1,2) ch False hr by auto
    let ?w = "?v\<lparr>v_path := p, v_dir := d, v_depth := i\<rparr>"
    obtain j where j: "i = Suc j" using t(5) by (cases i) auto
    have n: "HXrbtrav_next b v = trav_pop b ?w"
      using f False t(1) lt *(2) by (simp add: HXrbtrav_next_def wr_in)
    obtain m zs v' ev where pp: "inorder r @ ys = m # zs" "trav_pop b ?w = Some (Some m, v', ev)"
      "trav_at (rb_root b) v' m zs" "v_tid v' = v_tid ?w" "v_checkpoint v' = trav_key b m"
      by (rule trav_pop_spec [of b ?w j "inorder r @ ys"]) (use t(2-4,6) j in simp_all)
    show ?thesis unfolding *(6) pp(1) n pp(2) using pp(3-5) by simp
  next
    case True
    then have xy: "xs = ys" using *(6) by simp
    show ?thesis
    proof (cases "v_depth v")
      case 0
      then show ?thesis using f True *(7) xy by (simp add: HXrbtrav_next_def)
    next
      case (Suc i)
      have pe: "pending (rb_root b) (v_path v) (v_dir v) (Suc i) ys" using *(7) Suc by simp
      note lt = pending_SucD(1,2) [OF pe]
      show ?thesis
      proof (cases "v_dir v ! i")
        case False
        have n: "HXrbtrav_next b v = trav_pop b v" using f True Suc lt False by (simp add: HXrbtrav_next_def rd_in)
        obtain m zs v' ev where pp: "ys = m # zs" "trav_pop b v = Some (Some m, v', ev)"
          "trav_at (rb_root b) v' m zs" "v_tid v' = v_tid v" "v_checkpoint v' = trav_key b m"
          by (rule trav_pop_spec [OF pe False Suc *(1,2)])
        show ?thesis unfolding xy pp(1) n pp(2) using pp(3-5) by simp
      next
        case d: True
        obtain j where j: "j \<le> Suc i" "trav_up (v_dir v) (Suc i) = Some j" "pending (rb_root b) (v_path v) (v_dir v) j ys"
          "j = 0 \<longrightarrow> ys = []" "0 < j \<longrightarrow> \<not> v_dir v ! (j - 1)" using trav_up_spec [OF pe] by blast
        show ?thesis
        proof (cases j)
          case 0
          then show ?thesis using f True Suc lt d j(2,4) xy by (simp add: HXrbtrav_next_def rd_in)
        next
          case (Suc k)
          let ?w = "v\<lparr>v_depth := j\<rparr>"
          have n: "HXrbtrav_next b v = trav_pop b ?w"
            using f True \<open>v_depth v = Suc i\<close> lt d j(2) Suc by (simp add: HXrbtrav_next_def rd_in)
          obtain m zs v' ev where pp: "ys = m # zs" "trav_pop b ?w = Some (Some m, v', ev)"
            "trav_at (rb_root b) v' m zs" "v_tid v' = v_tid ?w" "v_checkpoint v' = trav_key b m"
            by (rule trav_pop_spec [of b ?w k ys]) (use j(3,5) Suc *(1,2) in simp_all)
          show ?thesis unfolding xy pp(1) n pp(2) using pp(3-5) by simp
        qed
      qed
    qed
  qed
qed

section \<open>Finding the place again\<close>

text \<open>The nodes whose keys are greater than a key.\<close>

definition past_key :: "('k, 'd) HXmap_ops \<Rightarrow> 'k option \<Rightarrow> ('k, 'd) rbinfo list \<Rightarrow> ('k, 'd) rbinfo list" where
  "past_key ops k xs = filter (\<lambda>n. k_compare ops k (rb_key n) < 0) xs"

lemma past_key_append [simp]: "past_key ops k (xs @ ys) = past_key ops k xs @ past_key ops k ys"
  by (simp add: past_key_def)

lemma past_key_Nil [simp]: "past_key ops k [] = []"
  by (simp add: past_key_def)

lemma past_key_above: "above ops k xs \<Longrightarrow> past_key ops k xs = []"
  by (auto simp: past_key_def above_def filter_empty_conv dest: order.asym)

lemma past_key_below: "below ops k xs \<Longrightarrow> past_key ops k xs = xs"
  by (auto simp: past_key_def below_def)

text \<open>The part of a subtree that is greater, by the comparison with its root.\<close>

lemma past_key_node:
  assumes o: "order_laws ops V" and k: "V k" and s: "rb_sorted ops (inorder (RNode l n c r))"
    "rb_valid V (inorder (RNode l n c r))"
  shows "k_compare ops k (rb_key n) > 0 \<Longrightarrow> past_key ops k (inorder (RNode l n c r)) = past_key ops k (inorder r)"
    "k_compare ops k (rb_key n) < 0 \<Longrightarrow>
       past_key ops k (inorder (RNode l n c r)) = past_key ops k (inorder l) @ n # inorder r"
    "k_compare ops k (rb_key n) = 0 \<Longrightarrow> past_key ops k (inorder (RNode l n c r)) = inorder r"
proof -
  have so: "rb_sorted ops (inorder l @ [n])" "rb_sorted ops (n # inorder r)"
    using s(1) by (simp_all add: rb_sorted_append rb_sorted_Cons)
  have va: "rb_valid V (inorder l @ [n])" "rb_valid V (n # inorder r)" using s(2) by (simp_all add: rb_valid_def)
  have e: "inorder (RNode l n c r) = (inorder l @ [n]) @ inorder r" "inorder (RNode l n c r) = inorder l @ (n # inorder r)"
    by simp_all
  show "k_compare ops k (rb_key n) > 0 \<Longrightarrow> past_key ops k (inorder (RNode l n c r)) = past_key ops k (inorder r)"
    unfolding e(1) past_key_append using past_key_above [OF above_step [OF o k va(1) so(1)]] by simp
  show "k_compare ops k (rb_key n) < 0 \<Longrightarrow>
      past_key ops k (inorder (RNode l n c r)) = past_key ops k (inorder l) @ n # inorder r"
    unfolding e(2) past_key_append using past_key_below [OF below_step [OF o k va(2) so(2)]] by simp
  assume z: "k_compare ops k (rb_key n) = 0"
  have vn: "V (rb_key n)" using va(2) by simp
  have z': "k_compare ops (rb_key n) k \<le> 0" using order_laws_flip [OF o vn k] z by linarith
  have "above ops k (inorder l)"
    unfolding above_def
  proof
    fix m assume m: "m \<in> set (inorder l)"
    have vm: "V (rb_key m)" using va(1) m by (auto simp: rb_valid_def)
    have "k_compare ops (rb_key m) (rb_key n) < 0" using so(1) m by (auto simp: rb_sorted_append)
    then have "k_compare ops (rb_key m) k < 0" by (rule order_laws_lt(1) [OF o vm vn k _ z'])
    then show "k_compare ops k (rb_key m) > 0" using order_laws_flip [OF o k vm] by blast
  qed
  moreover have "below ops k (inorder r)"
    unfolding below_def
  proof
    fix m assume m: "m \<in> set (inorder r)"
    have vm: "V (rb_key m)" using va(2) m by (auto simp: rb_valid_def)
    have "k_compare ops (rb_key n) (rb_key m) < 0" using so(2) m by (auto simp: rb_sorted_Cons)
    then show "k_compare ops k (rb_key m) < 0" using order_laws_lt(2) [OF o k vn vm] z by simp
  qed
  moreover have "past_key ops k [n] = []" using z by (simp add: past_key_def)
  ultimately show "past_key ops k (inorder (RNode l n c r)) = inorder r"
    unfolding e(1) past_key_append by (simp add: past_key_above past_key_below)
qed

text \<open>What the search loop leaves: when it finds the checkpoint's node, that node tops the full path and what
  is greater is in its right subtree or pending; otherwise all of it is pending in the collected arrays.\<close>

definition rewalk_post ::
  "('k, 'd) HXrbnode \<Rightarrow> 'k HXrbtrav \<Rightarrow> ('k, 'd) rbinfo list \<Rightarrow> bool \<times> 'k HXrbtrav \<times> ptr list \<times> bool list \<times> nat \<Rightarrow> bool" where
  "rewalk_post t v zs = (\<lambda>(found, v', np, nd, k).
     v' = v\<lparr>v_path := v_path v', v_dir := v_dir v', v_depth := v_depth v'\<rparr> \<and>
     length (v_path v') = RBT_MAXDEP \<and> length (v_dir v') = RBT_MAXDEP \<and> length np = RBT_MAXDEP \<and> length nd = RBT_MAXDEP \<and>
     (if found
      then \<exists>l n c r xs. 0 < v_depth v' \<and> v_path v' ! (v_depth v' - 1) = Some (rb_addr n) \<and>
        node_at (rb_addr n) t = Some (RNode l n c r) \<and> v_depth v' - 1 + rb_height (RNode l n c r) \<le> 46 \<and>
        zs = inorder r @ xs \<and> pending t (v_path v') (v_dir v') (v_depth v' - 1) xs
      else pending t np nd k zs \<and> (0 < k \<longrightarrow> \<not> nd ! (k - 1))))"

lemma rewalk_post_cong:
  "rewalk_post t (v\<lparr>v_path := p, v_dir := d, v_depth := i\<rparr>) zs x \<Longrightarrow> rewalk_post t v zs x"
  unfolding rewalk_post_def by (auto split: prod.splits)

lemma rewalk_loop_spec:
  assumes dt: "distinct (map rb_addr (inorder t))"
  shows "order_laws ops V \<Longrightarrow> V (v_checkpoint v) \<Longrightarrow> rb_sorted ops (inorder u) \<Longrightarrow> rb_valid V (inorder u) \<Longrightarrow>
    (\<forall>l n c r. u = RNode l n c r \<longrightarrow> node_at (rb_addr n) t = Some u) \<Longrightarrow>
    length (v_path v) = RBT_MAXDEP \<Longrightarrow> length (v_dir v) = RBT_MAXDEP \<Longrightarrow> length np = RBT_MAXDEP \<Longrightarrow>
    length nd = RBT_MAXDEP \<Longrightarrow> v_depth v + rb_height u \<le> 46 \<Longrightarrow> k \<le> v_depth v \<Longrightarrow>
    pending t (v_path v) (v_dir v) (v_depth v) ys \<Longrightarrow> pending t np nd k ys \<Longrightarrow> (0 < k \<longrightarrow> \<not> nd ! (k - 1)) \<Longrightarrow>
    \<exists>x. rewalk_loop ops u v np nd k = Some x \<and> rewalk_post t v (past_key ops (v_checkpoint v) (inorder u) @ ys) x"
proof (induction ops u v np nd k arbitrary: ys rule: rewalk_loop.induct)
  case (1 ops v np nd newdepth)
  then show ?case by (simp add: rewalk_post_def)
next
  case (2 ops l n c r v np nd newdepth)
  let ?D = "v_depth v" and ?cp = "v_checkpoint v" and ?a = "Some (rb_addr n)"
  let ?res = "k_compare ops ?cp (rb_key n)"
  let ?p = "(v_path v)[?D := ?a]" and ?np = "np[newdepth := ?a]" and ?d = "(v_dir v)[?D := ?res > 0]"
  let ?v = "v\<lparr>v_path := ?p, v_dir := ?d, v_depth := ?D + 1\<rparr>"
  have lt: "?D < RBT_MAXDEP" "newdepth < RBT_MAXDEP" using "2.prems"(10,11) by (simp_all add: RBT_MAXDEP_def)
  have w: "wr (v_path v) ?D ?a = Some ?p" "wr np newdepth ?a = Some ?np"
    "wr (v_dir v) ?D x = Some ((v_dir v)[?D := x])" "wr nd newdepth False = Some (nd[newdepth := False])" for x
    using lt "2.prems"(6-9) by (simp_all add: wr_in)
  have nt: "node_at (rb_addr n) t = Some (RNode l n c r)" using "2.prems"(5) by simp
  have ch: "\<forall>ll m cc rr. l = RNode ll m cc rr \<longrightarrow> node_at (rb_addr m) t = Some l"
    "\<forall>ll m cc rr. r = RNode ll m cc rr \<longrightarrow> node_at (rb_addr m) t = Some r"
    using node_at_child [OF dt nt] by blast+
  have so: "rb_sorted ops (inorder l)" "rb_sorted ops (inorder r)" "rb_valid V (inorder l)" "rb_valid V (inorder r)"
    using "2.prems"(3,4) by (simp_all add: rb_sorted_append rb_sorted_Cons)
  note gr = past_key_node [OF "2.prems"(1-4)]
  have pp: "pending t ?p ((v_dir v)[?D := x]) ?D ys" for x
    by (rule pending_update [OF "2.prems"(12) order_refl order_refl])
  have pn: "pending t ?np (nd[newdepth := x]) newdepth ys" for x
    by (rule pending_update [OF "2.prems"(13) order_refl order_refl])
  have hl: "?D + 1 + rb_height l \<le> 46" "?D + 1 + rb_height r \<le> 46" using "2.prems"(10) by simp_all
  consider (eq) "?res = 0" | (gt) "?res > 0" | (lt) "?res < 0" by linarith
  then show ?case
  proof cases
    case eq
    let ?w = "v\<lparr>v_path := ?p, v_depth := ?D + 1\<rparr>"
    have *: "rewalk_loop ops (RNode l n c r) v np nd newdepth = Some (True, ?w, ?np, nd, newdepth)" using w eq by simp
    have "pending t ?p (v_dir v) ?D ys" using pp [of "v_dir v ! ?D"] by simp
    then have "\<exists>l n c r' xs. ?p ! ?D = Some (rb_addr n) \<and> node_at (rb_addr n) t = Some (RNode l n c r') \<and>
        ?D + rb_height (RNode l n c r') \<le> 46 \<and> inorder r @ ys = inorder r' @ xs \<and> pending t ?p (v_dir v) ?D xs"
      using nt "2.prems"(6,10) lt(1) by (intro exI [of _ l] exI [of _ n] exI [of _ c] exI [of _ r] exI [of _ ys]) simp
    then have "rewalk_post t v (past_key ops ?cp (inorder (RNode l n c r)) @ ys) (True, ?w, ?np, nd, newdepth)"
      unfolding rewalk_post_def gr(3) [OF eq] using "2.prems"(6-9) by (simp del: rb_height.simps)
    with * show ?thesis by blast
  next
    case gt
    have e: "rewalk_loop ops (RNode l n c r) v np nd newdepth = rewalk_loop ops r ?v ?np nd newdepth" using w gt by simp
    have "pending t ?p ?d (?D + 1) ys" using pending_SucR [of ?D ?p ?d t ys] pp lt "2.prems"(6,7) gt by simp
    moreover have "pending t ?np nd newdepth ys" using pn [of "nd ! newdepth"] by simp
    ultimately have "\<exists>x. rewalk_loop ops r ?v ?np nd newdepth = Some x \<and>
        rewalk_post t ?v (past_key ops (v_checkpoint ?v) (inorder r) @ ys) x"
      by (intro "2.IH"(1) [OF w(1,2) refl _ w(3) refl gt "2.prems"(1)])
        (use gt so ch hl "2.prems"(2,6-9,11,14) in simp_all)
    then show ?thesis unfolding e gr(1) [OF gt] using rewalk_post_cong by fastforce
  next
    case less: lt
    let ?nd = "nd[newdepth := False]"
    have ng: "\<not> ?res > 0" "?res \<noteq> 0" using less by simp_all
    have e: "rewalk_loop ops (RNode l n c r) v np nd newdepth = rewalk_loop ops l ?v ?np ?nd (newdepth + 1)" using w ng by simp
    have "pending t ?p ?d (Suc ?D) (n # inorder r @ ys)"
      by (rule pending_SucI [OF _ _ _ _ nt "2.prems"(10) pp]) (use lt "2.prems"(6,7) ng in simp_all)
    moreover have "pending t ?np ?nd (Suc newdepth) (n # inorder r @ ys)"
      by (rule pending_SucI [OF _ _ _ _ nt _ pn]) (use lt "2.prems"(8-11) in simp_all)
    ultimately have "\<exists>x. rewalk_loop ops l ?v ?np ?nd (newdepth + 1) = Some x \<and>
        rewalk_post t ?v (past_key ops (v_checkpoint ?v) (inorder l) @ n # inorder r @ ys) x"
      by (intro "2.IH"(2) [OF w(1,2) refl _ w(3) refl ng(1) w(4) "2.prems"(1)])
        (use ng so ch hl lt "2.prems"(2,6-9,11) in simp_all)
    then show ?thesis unfolding e gr(2) [OF less] using rewalk_post_cong by fastforce
  qed
qed

section \<open>Whole traversals\<close>

abbreviation arrays_ok :: "'k HXrbtrav \<Rightarrow> bool" where
  "arrays_ok v \<equiv> length (v_path v) = RBT_MAXDEP \<and> length (v_dir v) = RBT_MAXDEP"

text \<open>Rewalking delivers the first node of a fresh traversal, or the first node past the checkpoint.\<close>

lemma rewalk_fresh:
  assumes b: "rbtree_ok V b" and v: "arrays_ok v" "v_current v = None"
  shows "case inorder (rb_root b) of
      [] \<Rightarrow> \<exists>v' ev. HXrbtrav_rewalk junk b v = Some (None, v', ev)
    | m # ys \<Rightarrow> \<exists>v' ev. HXrbtrav_rewalk junk b v = Some (Some m, v', ev) \<and> trav_at (rb_root b) v' m ys \<and>
        v_tid v' = r_tid b \<and> v_checkpoint v' = trav_key b m"
proof (cases "rb_root b = RNull")
  case True
  then show ?thesis using v by (simp add: HXrbtrav_rewalk_def)
next
  case False
  note o = rbtree_okD [OF b]
  have h: "rb_height (rb_root b) \<le> 46" by (rule rb_height_46 [OF o(2,7)])
  have "\<forall>l n c r. rb_root b = RNode l n c r \<longrightarrow> node_at (rb_addr n) (rb_root b) = Some (rb_root b)" by simp
  then obtain p d i where t: "trav_left (rb_root b) (v\<lparr>v_depth := 0\<rparr>) = Some (v\<lparr>v_path := p, v_dir := d, v_depth := i\<rparr>)"
    "length p = RBT_MAXDEP" "length d = RBT_MAXDEP" "pending (rb_root b) p d i (inorder (rb_root b))" "0 < i" "\<not> d ! (i - 1)"
    using trav_left_spec [OF o(5), of "v\<lparr>v_depth := 0\<rparr>" "rb_root b" "[]"] h v False by auto
  let ?w = "v\<lparr>v_path := p, v_dir := d, v_depth := i\<rparr>"
  obtain j where j: "i = Suc j" using t(5) by (cases i) auto
  obtain m zs v' ev where pp: "inorder (rb_root b) = m # zs" "trav_pop b ?w = Some (Some m, v', ev)"
    "trav_at (rb_root b) v' m zs" "v_tid v' = v_tid ?w" "v_checkpoint v' = trav_key b m"
    by (rule trav_pop_spec [of b ?w j "inorder (rb_root b)"]) (use t(2-4,6) j in simp_all)
  have "p ! j \<noteq> None" using pending_SucD(4) [OF t(4) [unfolded j]] t(6) j by auto
  moreover have "j < RBT_MAXDEP" using pending_SucD(1) [OF t(4) [unfolded j]] t(2) by simp
  ultimately have "HXrbtrav_rewalk junk b v = Some (Some m, v'\<lparr>v_tid := r_tid b\<rparr>, ev)"
    using v(2) t(1-3) j pp(2) by (simp add: HXrbtrav_rewalk_def rd_in)
  then show ?thesis using pp(1,3,5) by simp
qed

lemma rewalk_resume:
  assumes b: "rbtree_ok V b" and v: "arrays_ok v" "v_current v \<noteq> None" "V (v_checkpoint v)" and j: "length junk = RBT_MAXDEP"
  shows "case past_key (r_ops b) (v_checkpoint v) (inorder (rb_root b)) of
      [] \<Rightarrow> \<exists>v' ev. HXrbtrav_rewalk junk b v = Some (None, v', ev)
    | m # ys \<Rightarrow> \<exists>v' ev. HXrbtrav_rewalk junk b v = Some (Some m, v', ev) \<and> trav_at (rb_root b) v' m ys \<and>
        v_tid v' = r_tid b \<and> v_checkpoint v' = trav_key b m"
proof -
  note o = rbtree_okD [OF b]
  let ?t = "rb_root b" and ?v = "v\<lparr>v_depth := 0\<rparr>"
  let ?zs = "past_key (r_ops b) (v_checkpoint v) (inorder ?t)"
  have h: "rb_height ?t \<le> 46" by (rule rb_height_46 [OF o(2,7)])
  have "\<exists>x. rewalk_loop (r_ops b) ?t ?v junk (replicate RBT_MAXDEP False) 0 = Some x \<and>
      rewalk_post ?t ?v (past_key (r_ops b) (v_checkpoint ?v) (inorder ?t) @ []) x"
    by (rule rewalk_loop_spec [OF o(5,1) _ o(3,4)]) (use v j h in simp_all)
  then obtain found w np nd k where l: "rewalk_loop (r_ops b) ?t ?v junk (replicate RBT_MAXDEP False) 0 = Some (found, w, np, nd, k)"
    and p: "rewalk_post ?t ?v ?zs (found, w, np, nd, k)" by auto
  have wl: "length (v_path w) = RBT_MAXDEP" "length (v_dir w) = RBT_MAXDEP" "length np = RBT_MAXDEP" "length nd = RBT_MAXDEP"
    using p unfolding rewalk_post_def by simp_all
  obtain y where vy: "v_current v = Some y" using v(2) by blast
  show ?thesis
  proof (cases found)
    case True
    then obtain tl n c r xs where *: "0 < v_depth w" "v_path w ! (v_depth w - 1) = Some (rb_addr n)"
      "node_at (rb_addr n) ?t = Some (RNode tl n c r)" "v_depth w - 1 + rb_height (RNode tl n c r) \<le> 46"
      "?zs = inorder r @ xs" "pending ?t (v_path w) (v_dir w) (v_depth w - 1) xs"
      using p unfolding rewalk_post_def by auto
    let ?w = "w\<lparr>v_depth := v_depth w - 1, v_current := Some (rb_addr n)\<rparr>"
    obtain cv cev where c: "HXrbtrav_checkpoint b ?w n = (cv, cev)" by fastforce
    have cf: "v_path cv = v_path w" "v_dir cv = v_dir w" "v_depth cv = v_depth w - 1" "v_current cv = Some (rb_addr n)"
      using checkpoint_fields [of b ?w n] unfolding c by simp_all
    have lt: "v_depth w - 1 < RBT_MAXDEP" using *(4) by (simp add: RBT_MAXDEP_def)
    have pop: "trav_pop b w = Some (Some n, cv, cev)"
      using *(2,3) lt wl c by (simp add: trav_pop_def rd_in follow_def Let_def)
    have at: "trav_at ?t (cv\<lparr>v_tid := r_tid b\<rparr>) n ?zs"
      unfolding trav_at_def using *(3,4,5,6) wl cf by (auto simp del: rb_height.simps)
    have "HXrbtrav_rewalk junk b v = do {
        (n, v, ev') \<leftarrow> HXrbtrav_next b (cv\<lparr>v_tid := r_tid b\<rparr>);
        Some (n, v, cev @ ev')
      }"
      using vy l True pop *(1,2) lt wl cf(4) by (simp add: HXrbtrav_rewalk_def rd_in Let_def)
    then show ?thesis using next_spec [OF o(5) at] by (auto split: list.splits)
  next
    case False
    let ?w = "w\<lparr>v_path := np, v_dir := nd, v_depth := k\<rparr>"
    have q: "pending ?t np nd k ?zs" "0 < k \<longrightarrow> \<not> nd ! (k - 1)" using p False unfolding rewalk_post_def by simp_all
    show ?thesis
    proof (cases k)
      case 0
      then have "?zs = []" using q(1) by simp
      then show ?thesis using vy l False 0 by (simp add: HXrbtrav_rewalk_def Let_def)
    next
      case (Suc i)
      obtain m zs v' ev where pp: "?zs = m # zs" "trav_pop b ?w = Some (Some m, v', ev)"
        "trav_at ?t v' m zs" "v_tid v' = v_tid ?w" "v_checkpoint v' = trav_key b m"
        by (rule trav_pop_spec [of b ?w i ?zs]) (use q Suc wl in simp_all)
      have "np ! i \<noteq> None" using pending_SucD(4) [OF q(1) [unfolded Suc]] q(2) Suc by auto
      moreover have "i < RBT_MAXDEP" using pending_SucD(1) [OF q(1) [unfolded Suc]] wl by simp
      ultimately have "HXrbtrav_rewalk junk b v = Some (Some m, v'\<lparr>v_tid := r_tid b\<rparr>, ev)"
        using vy l False Suc wl pp(2) by (simp add: HXrbtrav_rewalk_def rd_in Let_def)
      then show ?thesis using pp(1,3,5) by simp
    qed
  qed
qed

definition rbtrav_step :: "ptr list \<Rightarrow> ('k, 'd) HXrbtree \<Rightarrow> 'k HXrbtrav \<Rightarrow> (('k, 'd) rbinfo option \<times> 'k HXrbtrav) option" where
  "rbtrav_step junk b v = map_option (\<lambda>(n, v, ev). (n, v)) (HXrbtree_traverse junk b v)"

text \<open>A traverser in the middle of a tree that has not changed since.\<close>

definition trav_mid ::
  "('k, 'd) HXrbtree \<Rightarrow> 'k HXrbtrav \<Rightarrow> ('k, 'd) rbinfo \<Rightarrow> ('k, 'd) rbinfo list \<Rightarrow> bool" where
  "trav_mid b v n xs \<longleftrightarrow> trav_at (rb_root b) v n xs \<and> v_tid v = r_tid b \<and> v_checkpoint v = trav_key b n"

lemma step_mid:
  assumes dt: "distinct (map rb_addr (inorder (rb_root b)))" and m: "trav_mid b v n xs"
  shows "case xs of
      [] \<Rightarrow> \<exists>v'. rbtrav_step junk b v = Some (None, v')
    | m # ys \<Rightarrow> \<exists>v'. rbtrav_step junk b v = Some (Some m, v') \<and> trav_mid b v' m ys"
proof -
  have a: "trav_at (rb_root b) v n xs" "v_tid v = r_tid b" using m by (simp_all add: trav_mid_def)
  have "rbtrav_step junk b v = map_option (\<lambda>(n, v, ev). (n, v)) (HXrbtrav_next b v)"
    using a by (simp add: rbtrav_step_def HXrbtree_traverse_def trav_at_def)
  then show ?thesis using next_spec [OF dt a(1)] a(2) by (auto simp: trav_mid_def split: list.splits)
qed

lemma take_mid:
  assumes dt: "distinct (map rb_addr (inorder (rb_root b)))"
  shows "trav_mid b v n (xs @ ys) \<Longrightarrow>
    \<exists>v'. take_n (rbtrav_step junk b) (length xs) v = Some (map Some xs, v') \<and> trav_mid b v' (last (n # xs)) ys"
proof (induction xs arbitrary: v n)
  case (Cons x xs)
  obtain v' where v': "rbtrav_step junk b v = Some (Some x, v')" "trav_mid b v' x (xs @ ys)"
    using step_mid [OF dt Cons.prems] by auto
  obtain w where "take_n (rbtrav_step junk b) (length xs) v' = Some (map Some xs, w)" "trav_mid b w (last (x # xs)) ys"
    using Cons.IH [OF v'(2)] by blast
  then show ?case using v'(1) by simp
qed simp

lemma mid_all:
  assumes dt: "distinct (map rb_addr (inorder (rb_root b)))" and m: "trav_mid b v n xs"
  shows "\<exists>v1 v2. take_n (rbtrav_step junk b) (length xs) v = Some (map Some xs, v1) \<and> rbtrav_step junk b v1 = Some (None, v2)"
proof -
  obtain v1 where v1: "take_n (rbtrav_step junk b) (length xs) v = Some (map Some xs, v1)" "trav_mid b v1 (last (n # xs)) []"
    using take_mid [OF dt, of v n xs "[]"] m by auto
  then show ?thesis using step_mid [OF dt v1(2)] by auto
qed

text \<open>What a first step delivers decides the rest.\<close>

lemma first_all:
  assumes dt: "distinct (map rb_addr (inorder (rb_root b)))"
    and s: "case xs of
      [] \<Rightarrow> \<exists>v' ev. HXrbtree_traverse junk b v = Some (None, v', ev)
    | m # ys \<Rightarrow> \<exists>v' ev. HXrbtree_traverse junk b v = Some (Some m, v', ev) \<and> trav_at (rb_root b) v' m ys \<and>
        v_tid v' = r_tid b \<and> v_checkpoint v' = trav_key b m"
  shows "\<exists>v1 v2. take_n (rbtrav_step junk b) (length xs) v = Some (map Some xs, v1) \<and> rbtrav_step junk b v1 = Some (None, v2)"
proof (cases xs)
  case Nil
  then show ?thesis using s by (auto simp: rbtrav_step_def)
next
  case (Cons m ys)
  then obtain v' where "rbtrav_step junk b v = Some (Some m, v')" "trav_mid b v' m ys"
    using s by (auto simp: rbtrav_step_def trav_mid_def)
  then show ?thesis using mid_all [OF dt, of v' m ys junk] Cons by auto
qed

lemma traverse_fresh:
  "v_current v = None \<Longrightarrow> HXrbtree_traverse junk b v = HXrbtrav_rewalk junk b v"
  by (simp add: HXrbtree_traverse_def)

lemma init_fresh: "HXrbtrav_init True flags = Some v \<Longrightarrow> arrays_ok v \<and> v_current v = None"
  by (auto simp: HXrbtrav_init_def)

lemma trav_key_law:
  assumes "order_laws (r_ops b) V" "V (rb_key n)" "\<not> clone_failed (k_clone (r_ops b) (rb_key n)) (rb_key n)"
  shows "V (trav_key b n)" "key_eq (r_ops b) (trav_key b n) (rb_key n)"
  using assms eq_lawsD(1) [OF order_eq_laws [OF assms(1)] assms(2)]
  unfolding trav_key_def order_laws_def clone_law_def key_eq_def by auto

lemma past_key_cong:
  assumes o: "order_laws ops V" and v: "V k" "V k'" "rb_valid V xs" and e: "key_eq ops k k'"
  shows "past_key ops k xs = past_key ops k' xs"
proof -
  have z: "k_compare ops k k' \<le> 0" "k_compare ops k' k \<le> 0"
    using e eq_lawsD(2) [OF order_eq_laws [OF o] v(1,2)] by (simp_all add: key_eq_def)
  have "k_compare ops k (rb_key n) < 0 \<longleftrightarrow> k_compare ops k' (rb_key n) < 0" if n: "n \<in> set xs" for n
  proof -
    have vn: "V (rb_key n)" using v(3) n by (simp add: rb_valid_def)
    show ?thesis using order_laws_lt(2) [OF o v(1,2) vn z(1)] order_laws_lt(2) [OF o v(2,1) vn z(2)] by blast
  qed
  then show ?thesis by (simp add: past_key_def cong: filter_cong)
qed

text \<open>C28: A traverser over an unmodified tree returns its nodes once each in ascending order of their keys, and
  then \<^verbatim>\<open>NULL\<close>; it stays within its arrays.\<close>

theorem HXrbtree_traverse_all:
  assumes b: "rbtree_ok V b" and v: "HXrbtrav_init True flags = Some v"
  shows "\<exists>v1 v2. take_n (rbtrav_step junk b) (length (inorder (rb_root b))) v = Some (map Some (inorder (rb_root b)), v1) \<and>
    rbtrav_step junk b v1 = Some (None, v2)"
  by (rule first_all [OF rbtree_okD(5) [OF b]])
    (use rewalk_fresh [OF b, of v junk] traverse_fresh [of v junk b] init_fresh [OF v] in \<open>simp split: list.splits\<close>)

theorem HXrbtree_traverse_all_witness:
  "\<exists>v1 v2. take_n (rbtrav_step [] val_tree1) 1 (the (HXrbtrav_init True 0)) = Some ([Some val_info], v1) \<and>
    rbtrav_step [] val_tree1 v1 = Some (None, v2)"
  using HXrbtree_traverse_all [OF val_tree1_ok, of 0 "the (HXrbtrav_init True 0)" "[]"]
  by (simp add: HXrbtrav_init_def val_tree1_def)


text \<open>The instance: key 5 is returned, key 6 is added, the traversal goes on with it.\<close>

definition val_info2 :: "(u64, u64) rbinfo" where
  "val_info2 = \<lparr>rb_addr = 2, rb_key = Some 6, rb_data = None\<rparr>"

definition val_tree2 :: "(u64, u64) HXrbtree" where
  "val_tree2 = val_tree1\<lparr>r_items := 2, r_tid := 2,
     rb_root := RNode RNull val_info RBT_BLACK (RNode RNull val_info2 RBT_RED RNull)\<rparr>"

lemma val_tree2_ok: "rbtree_ok (\<lambda>_. True) val_tree2"
proof (rule rbtree_okI)
  have "HXmap_valuecmp (Some 5) (Some 6) < 0" by (simp add: valuecmp_sign)
  then show "rb_sorted (r_ops val_tree2) (inorder (rb_root val_tree2))"
    by (simp add: val_tree2_def val_tree1_def val_tree_def rb_sorted_def val_rb_ops val_info_def val_info2_def)
  show "order_laws (r_ops val_tree2) (\<lambda>_. True)"
    using val_order_laws by (simp add: val_tree2_def val_tree1_def val_tree_def)
qed (simp_all add: val_tree2_def val_tree1_def val_tree_def rb_ok_def rb_valid_def val_info_def val_info2_def)


primrec left_spine :: "('k, 'd) HXrbnode \<Rightarrow> ('k, 'd) rbinfo list" where
  "left_spine RNull = []"
| "left_spine (RNode l n c r) = left_spine l @ [n]"

lemma keysvalues_inorder:
  "t \<noteq> RNull \<Longrightarrow> HXrbtree_keysvalues t xs = Some (xs @ map (\<lambda>n. (rb_key n, rb_data n)) (inorder t))"
proof (induction t arbitrary: xs)
  case (RNode l n c r)
  then show ?case by (cases "l = RNull"; cases "r = RNull") (simp_all add: Let_def)
qed simp

lemma qfe_accepts:
  "HXrbtree_qfe t (\<lambda>kv s. (True, f kv s)) s = fold f (map (\<lambda>n. (rb_key n, rb_data n)) (inorder t)) s"
  by (induction t arbitrary: s) (auto simp: Let_def)

lemma qfe_declines:
  "HXrbtree_qfe t (\<lambda>kv s. (False, f kv s)) s = fold f (map (\<lambda>n. (rb_key n, rb_data n)) (left_spine t)) s"
  by (induction t arbitrary: s) (auto simp: Let_def)

lemma free_dive_all:
  "mset (HXrbtree_free_dive ops t) =
    mset (concat (map (\<lambda>n. kfree ops (rb_key n) @ dfree ops (rb_data n) @ [EvNode (rb_addr n)]) (inorder t)))"
  by (induction t) (simp_all add: ac_simps)

text \<open>On a tree with a root \<open>HXmap_keysvalues\<close> lists key and data of every node in ascending order, and on an
  empty one it follows the null root. \<open>HXmap_qfe\<close> feeds an accepting callback the same sequence; a callback that
  declines at once is still called for the whole left spine, because the result of the recursive call is not
  looked at. Destruction releases the key, the data and the storage of every node exactly once.\<close>

theorem HXrbtree_enumerations:
  "HXrbtree_keysvalues t [] = (if t = RNull then None else Some (map (\<lambda>n. (rb_key n, rb_data n)) (inorder t))) \<and>
   HXrbtree_qfe t (\<lambda>kv s. (True, s @ [kv])) [] = map (\<lambda>n. (rb_key n, rb_data n)) (inorder t) \<and>
   HXrbtree_qfe t (\<lambda>kv s. (False, s @ [kv])) [] = map (\<lambda>n. (rb_key n, rb_data n)) (left_spine t) \<and>
   mset (HXrbtree_free_dive ops t) =
     mset (concat (map (\<lambda>n. kfree ops (rb_key n) @ dfree ops (rb_data n) @ [EvNode (rb_addr n)]) (inorder t)))"
proof -
  have f: "fold (\<lambda>kv s. s @ [kv]) xs s = s @ xs" for xs s :: "('a option \<times> 'b option) list"
    by (induction xs arbitrary: s) simp_all
  have "HXrbtree_keysvalues t [] = (if t = RNull then None else Some (map (\<lambda>n. (rb_key n, rb_data n)) (inorder t)))"
    using keysvalues_inorder [of t "[]"] by simp
  then show ?thesis unfolding qfe_accepts qfe_declines f using free_dive_all by simp
qed

end
