(* ===== verification/HX_Map.thy ===== *)
theory HX_Map
  imports HX_Umap HX_Rbtrav
begin

text \<open>
  The public map interface (\<^verbatim>\<open>HXmap_*\<close>): each function looks at the type of the map and passes on to the hash
  map or to the red-black tree. A map whose \<^verbatim>\<open>type\<close> is neither is \<open>M_other\<close>; it carries its flags.
  \<^verbatim>\<open>errno\<close> is part of the results where a function sets it; \<open>None\<close> there is 0.
\<close>

section \<open>Maps of both types\<close>

datatype HXmap_type = HXMAPT_HASH | HXMAPT_RBTREE | HXMAPT_other u32

datatype ('k, 'd) HXmap = M_hash "('k, 'd) HXumap" | M_rbtree "('k, 'd) HXrbtree" | M_other u32

datatype errno_val = Pos errno | Neg errno

definition map_flags_of :: "('k, 'd) HXmap \<Rightarrow> u32" where
  "map_flags_of xm = (case xm of M_hash m \<Rightarrow> u_flags m | M_rbtree b \<Rightarrow> r_flags b | M_other f \<Rightarrow> f)"

definition map_items :: "('k, 'd) HXmap \<Rightarrow> u64" where
  "map_items xm = (case xm of M_hash m \<Rightarrow> u_items m | M_rbtree b \<Rightarrow> r_items b | M_other f \<Rightarrow> 0)"

text \<open>\<open>Inl (Some e)\<close> is \<^verbatim>\<open>NULL\<close> with \<^verbatim>\<open>errno\<close> set by the function itself, \<open>Inl None\<close> \<^verbatim>\<open>NULL\<close> from an
  allocation.\<close>

definition HXmap_init5 ::
  "('k, 'd) std_fns \<Rightarrow> bool \<Rightarrow> bool \<Rightarrow> HXmap_type \<Rightarrow> u32 \<Rightarrow> ('k, 'd) user_ops option \<Rightarrow> u64 \<Rightarrow>
     (errno_val option + ('k, 'd) HXmap) option" where
  "HXmap_init5 std ok lay_ok type flags ops key_size =
     (case type of
        HXMAPT_HASH \<Rightarrow> do {
          r \<leftarrow> HXhashmap_init4 std ok lay_ok flags ops key_size;
          Some (case r of None \<Rightarrow> Inl None | Some m \<Rightarrow> Inr (M_hash m))
        }
      | HXMAPT_RBTREE \<Rightarrow>
          Some (case HXrbtree_init4 std ok flags ops key_size of None \<Rightarrow> Inl None | Some b \<Rightarrow> Inr (M_rbtree b))
      | HXMAPT_other _ \<Rightarrow> Some (Inl (Some (Neg ENOENT))))"

definition HXmap_init ::
  "('k, 'd) std_fns \<Rightarrow> bool \<Rightarrow> bool \<Rightarrow> HXmap_type \<Rightarrow> u32 \<Rightarrow> (errno_val option + ('k, 'd) HXmap) option" where
  "HXmap_init std ok lay_ok type flags =
     (if flags AND HXMAP_SCKEY = HXMAP_CKEY then Some (Inl (Some (Pos EINVAL)))
      else if flags AND HXMAP_SCDATA = HXMAP_CDATA then Some (Inl (Some (Pos EINVAL)))
      else HXmap_init5 std ok lay_ok type flags None 0)"

definition HXmap_free :: "('k, 'd) HXmap option \<Rightarrow> ('k, 'd) ev list option" where
  "HXmap_free xmap =
     (case xmap of None \<Rightarrow> Some []
      | Some (M_hash m) \<Rightarrow> HXumap_free m
      | Some (M_rbtree b) \<Rightarrow> Some (HXrbtree_free b)
      | Some (M_other _) \<Rightarrow> Some [])"

text \<open>A found node is shown as its key and data.\<close>

definition HXmap_find :: "('k, 'd) HXmap \<Rightarrow> 'k option \<Rightarrow> ('k option \<times> 'd option) option option" where
  "HXmap_find xm key =
     (case xm of
        M_hash m \<Rightarrow> do { r \<leftarrow> HXumap_find m key; Some (map_option (\<lambda>n. (u_key n, u_data n)) r) }
      | M_rbtree b \<Rightarrow> Some (map_option (\<lambda>n. (rb_key n, rb_data n)) (HXrbtree_find (r_ops b) key (rb_root b)))
      | M_other _ \<Rightarrow> Some None)"

definition HXmap_get :: "('k, 'd) HXmap \<Rightarrow> 'k option \<Rightarrow> ('d option \<times> errno option) option" where
  "HXmap_get xm key = do {
     node \<leftarrow> HXmap_find xm key;
     Some (case node of None \<Rightarrow> (None, Some ENOENT) | Some (k, d) \<Rightarrow> (d, None))
   }"

text \<open>\<open>lay_ok\<close> and \<open>mem\<close> are the allocations of the hash map's bucket array and of the node.\<close>

definition HXmap_add ::
  "('k, 'd) HXmap \<Rightarrow> 'k option \<Rightarrow> 'd option \<Rightarrow> bool \<Rightarrow> ptr \<Rightarrow>
     ((errno + unit) \<times> ('k, 'd) HXmap \<times> ('k, 'd) ev list) option" where
  "HXmap_add xm key val lay_ok mem =
     (if has_flag (map_flags_of xm) HXMAP_SINGULAR \<and> val \<noteq> None then Some (Inl EINVAL, xm, [])
      else case xm of
        M_hash m \<Rightarrow> do { (r, m, ev) \<leftarrow> HXumap_add m key val lay_ok mem; Some (r, M_hash m, ev) }
      | M_rbtree b \<Rightarrow> do { (r, b, ev) \<leftarrow> HXrbtree_add b key val mem; Some (r, M_rbtree b, ev) }
      | M_other _ \<Rightarrow> Some (Inl EINVAL, xm, []))"

definition HXmap_del ::
  "('k, 'd) HXmap \<Rightarrow> 'k option \<Rightarrow> bool \<Rightarrow> errno option \<Rightarrow>
     ('d option \<times> errno option \<times> ('k, 'd) HXmap \<times> ('k, 'd) ev list) option" where
  "HXmap_del xm key lay_ok old =
     (case xm of
        M_hash m \<Rightarrow> do { (d, e, m, ev) \<leftarrow> HXumap_del m key lay_ok; Some (d, e, M_hash m, ev) }
      | M_rbtree b \<Rightarrow> do { (d, e, b, ev) \<leftarrow> HXrbtree_del b key old; Some (d, e, M_rbtree b, ev) }
      | M_other _ \<Rightarrow> Some (None, Some EINVAL, xm, []))"

text \<open>The array; \<open>ok\<close> is its allocation. The tree's recursion is entered without a look at the root.\<close>

definition HXmap_keysvalues :: "('k, 'd) HXmap \<Rightarrow> bool \<Rightarrow> ('k option \<times> 'd option) list option option" where
  "HXmap_keysvalues xm ok =
     (case xm of
        M_other _ \<Rightarrow> Some None
      | M_hash m \<Rightarrow> if \<not> ok then Some None else do { kv \<leftarrow> HXumap_keysvalues m; Some (Some kv) }
      | M_rbtree b \<Rightarrow>
          if \<not> ok then Some None
          else do {
            kv \<leftarrow> HXrbtree_keysvalues (rb_root b) [];
            if length kv > unat (r_items b) then None else Some (Some kv)
          })"

definition HXmap_qfe ::
  "('k, 'd) HXmap \<Rightarrow> ('k option \<times> 'd option \<Rightarrow> 's \<Rightarrow> bool \<times> 's) \<Rightarrow> 's \<Rightarrow> ('s \<times> errno option) option" where
  "HXmap_qfe xm fn arg =
     (case xm of
        M_hash m \<Rightarrow> do { s \<leftarrow> HXumap_qfe m fn arg; Some (s, None) }
      | M_rbtree b \<Rightarrow> Some (if rb_root b \<noteq> RNull then HXrbtree_qfe (rb_root b) fn arg else arg, None)
      | M_other _ \<Rightarrow> Some (arg, Some EINVAL))"

section \<open>Traversers of both types\<close>

datatype 'k HXmap_trav = T_hash HXumap_trav | T_rbtree "'k HXrbtrav" | T_other

definition HXmap_travinit :: "bool \<Rightarrow> ('k, 'd) HXmap \<Rightarrow> u32 \<Rightarrow> 'k HXmap_trav option" where
  "HXmap_travinit ok xm flags =
     (case xm of
        M_hash m \<Rightarrow> map_option T_hash (HXumap_travinit ok m flags)
      | M_rbtree b \<Rightarrow> map_option T_rbtree (HXrbtrav_init ok flags)
      | M_other _ \<Rightarrow> None)"

text \<open>A traverser keeps a pointer to its map, which is therefore an argument here; \<open>junk\<close> is the uninitialised
  array of the tree's traverser.\<close>

definition HXmap_traverse ::
  "ptr list \<Rightarrow> ('k, 'd) HXmap \<Rightarrow> 'k HXmap_trav option \<Rightarrow>
     (('k option \<times> 'd option) option \<times> 'k HXmap_trav option) option" where
  "HXmap_traverse junk xm trav =
     (case (trav, xm) of
        (Some (T_hash t), M_hash m) \<Rightarrow> do {
          (t, n) \<leftarrow> HXumap_traverse m t;
          Some (map_option (\<lambda>n. (u_key n, u_data n)) n, Some (T_hash t))
        }
      | (Some (T_rbtree v), M_rbtree b) \<Rightarrow> do {
          (n, v, ev) \<leftarrow> HXrbtree_traverse junk b v;
          Some (map_option (\<lambda>n. (rb_key n, rb_data n)) n, Some (T_rbtree v))
        }
      | (None, _) \<Rightarrow> Some (None, None)
      | (Some T_other, _) \<Rightarrow> Some (None, trav)
      | _ \<Rightarrow> None)"

definition HXmap_travfree :: "('k, 'd) HXmap \<Rightarrow> 'k HXmap_trav option \<Rightarrow> ('k, 'd) ev list" where
  "HXmap_travfree xm trav =
     (case (trav, xm) of (Some (T_rbtree v), M_rbtree b) \<Rightarrow> HXrbtrav_free b v | _ \<Rightarrow> [])"

section \<open>One contract for both\<close>

definition xmap_inv ::
  "('k option \<Rightarrow> bool) \<Rightarrow> ('k option \<Rightarrow> 'k option \<Rightarrow> bool) \<Rightarrow> ('d option \<Rightarrow> 'd option) \<Rightarrow> ('k, 'd) HXmap \<Rightarrow> bool" where
  "xmap_inv V eq copy xm =
     (case xm of
        M_hash m \<Rightarrow> umap_ok V m \<and> key_eq (u_ops m) = eq \<and> d_clone (u_ops m) = copy
      | M_rbtree b \<Rightarrow> rbtree_ok V b \<and> key_eq (r_ops b) = eq \<and> d_clone (r_ops b) = copy
      | M_other _ \<Rightarrow> False)"

definition xmap_get :: "('k, 'd) HXmap \<Rightarrow> 'k option \<Rightarrow> 'd option option" where
  "xmap_get xm key = (case HXmap_find xm key of Some (Some (k, d)) \<Rightarrow> Some d | _ \<Rightarrow> None)"

definition xmap_add :: "('k, 'd) HXmap \<Rightarrow> 'k option \<Rightarrow> 'd option \<Rightarrow> bool \<times> ptr \<Rightarrow> ('k, 'd) HXmap" where
  "xmap_add xm k v r = (case HXmap_add xm k v (fst r) (snd r) of Some (_, m, _) \<Rightarrow> m | None \<Rightarrow> xm)"

definition xmap_del :: "('k, 'd) HXmap \<Rightarrow> 'k option \<Rightarrow> bool \<times> ptr \<Rightarrow> ('k, 'd) HXmap" where
  "xmap_del xm k r = (case HXmap_del xm k (fst r) None of Some (_, _, m, _) \<Rightarrow> m | None \<Rightarrow> xm)"

text \<open>Whether an addition replaces a present key: the two types read \<open>HXMAP_NOREPLACE\<close> in opposite ways.\<close>

definition xmap_may :: "('k, 'd) HXmap \<Rightarrow> bool" where
  "xmap_may xm = (case xm of M_hash m \<Rightarrow> umap_may m | M_rbtree b \<Rightarrow> rb_may b | M_other _ \<Rightarrow> False)"

definition xmap_good :: "('k, 'd) HXmap \<Rightarrow> 'k option \<Rightarrow> 'd option \<Rightarrow> bool \<times> ptr \<Rightarrow> bool" where
  "xmap_good xm k v r \<longleftrightarrow> \<not> (has_flag (map_flags_of xm) HXMAP_SINGULAR \<and> v \<noteq> None) \<and>
     (case xm of M_hash m \<Rightarrow> umap_good m k v r | M_rbtree b \<Rightarrow> rb_good b k v (snd r) | M_other _ \<Rightarrow> False)"

lemma xmap_get_simps [simp]:
  "xmap_get (M_hash m) k = HXumap_get m k" "xmap_get (M_rbtree b) k = HXrbtree_get b k"
  by (auto simp: xmap_get_def HXmap_find_def HXumap_get_def HXrbtree_get_def split: option.splits)

lemma xmap_add_simps:
  "\<not> (has_flag (u_flags m) HXMAP_SINGULAR \<and> v \<noteq> None) \<Longrightarrow> xmap_add (M_hash m) k v r = M_hash (umap_add m k v r)"
  "\<not> (has_flag (r_flags b) HXMAP_SINGULAR \<and> v \<noteq> None) \<Longrightarrow> xmap_add (M_rbtree b) k v r = M_rbtree (rb_add b k v (snd r))"
  by (auto simp: xmap_add_def HXmap_add_def map_flags_of_def umap_add_def rb_add_def bind_eq_None_conv
      split: option.splits Option.bind_splits)

lemma xmap_add_singular: "has_flag (map_flags_of xm) HXMAP_SINGULAR \<Longrightarrow> v \<noteq> None \<Longrightarrow> xmap_add xm k v r = xm"
  by (simp add: xmap_add_def HXmap_add_def)

lemma xmap_del_simps [simp]:
  "xmap_del (M_hash m) k r = M_hash (umap_del m k r)" "xmap_del (M_rbtree b) k r = M_rbtree (rb_del b k (snd r))"
  by (auto simp: xmap_del_def HXmap_del_def umap_del_def rb_del_def split: option.splits Option.bind_splits)

lemma xmap_add_law:
  assumes "xmap_inv V eq copy s" "V k" "xmap_good s k v m" "xmap_get s k = None \<or> xmap_may s"
  shows "xmap_inv V eq copy (xmap_add s k v m) \<and> (xmap_may (xmap_add s k v m) \<longleftrightarrow> xmap_may s) \<and>
    (\<forall>x. V x \<longrightarrow> xmap_get (xmap_add s k v m) x = (if eq x k then Some (copy v) else xmap_get s x))"
proof (cases s)
  case (M_hash h)
  then have g: "\<not> (has_flag (u_flags h) HXMAP_SINGULAR \<and> v \<noteq> None)"
    using assms(3) by (simp add: xmap_good_def map_flags_of_def)
  have "umap_ok V h" "umap_good h k v m" "HXumap_get h k = None \<or> umap_may h"
    using assms M_hash by (simp_all add: xmap_inv_def xmap_good_def xmap_may_def)
  from umap_add_law [OF this(1) assms(2) this(2,3)] assms(1) show ?thesis
    unfolding M_hash xmap_add_simps(1) [OF g] by (auto simp: xmap_inv_def xmap_may_def umap_may_def)
next
  case (M_rbtree h)
  then have g: "\<not> (has_flag (r_flags h) HXMAP_SINGULAR \<and> v \<noteq> None)"
    using assms(3) by (simp add: xmap_good_def map_flags_of_def)
  have "rbtree_ok V h" "rb_good h k v (snd m)" "HXrbtree_get h k = None \<or> rb_may h"
    using assms M_rbtree by (simp_all add: xmap_inv_def xmap_good_def xmap_may_def)
  from rb_add_law [OF this(1) assms(2) this(2,3)] assms(1) show ?thesis
    unfolding M_rbtree xmap_add_simps(2) [OF g] by (auto simp: xmap_inv_def xmap_may_def rb_may_def)
qed (use assms in \<open>simp add: xmap_inv_def\<close>)

lemma xmap_refuse_law:
  assumes "xmap_inv V eq copy s" "V k" "xmap_get s k \<noteq> None" "\<not> xmap_may s"
  shows "xmap_add s k v m = s"
proof (cases "has_flag (map_flags_of s) HXMAP_SINGULAR \<and> v \<noteq> None")
  case False
  show ?thesis
  proof (cases s)
    case (M_hash h)
    then have g: "\<not> (has_flag (u_flags h) HXMAP_SINGULAR \<and> v \<noteq> None)" using False by (simp add: map_flags_of_def)
    show ?thesis using umap_refuse_law [of V h k v m] assms
      unfolding M_hash xmap_add_simps(1) [OF g] by (simp add: xmap_inv_def xmap_may_def)
  next
    case (M_rbtree h)
    then have g: "\<not> (has_flag (r_flags h) HXMAP_SINGULAR \<and> v \<noteq> None)" using False by (simp add: map_flags_of_def)
    show ?thesis using rb_refuse_law [of V h k v "snd m"] assms
      unfolding M_rbtree xmap_add_simps(2) [OF g] by (simp add: xmap_inv_def xmap_may_def rb_add_def)
  qed (use assms in \<open>simp add: xmap_inv_def\<close>)
qed (simp add: xmap_add_singular)

lemma xmap_del_law:
  assumes "xmap_inv V eq copy s" "V k"
  shows "xmap_inv V eq copy (xmap_del s k m) \<and> (xmap_may (xmap_del s k m) \<longleftrightarrow> xmap_may s) \<and>
    (\<forall>x. V x \<longrightarrow> xmap_get (xmap_del s k m) x = (if eq x k then None else xmap_get s x))"
proof (cases s)
  case (M_hash h)
  then show ?thesis using umap_del_law [of V h k m] assms by (auto simp: xmap_inv_def xmap_may_def umap_may_def)
next
  case (M_rbtree h)
  then show ?thesis using rb_del_law [of V h k "snd m"] assms by (auto simp: xmap_inv_def xmap_may_def rb_may_def)
qed (use assms in \<open>simp add: xmap_inv_def\<close>)

interpretation xmap: map_contract "xmap_inv V eq copy" V eq copy xmap_get xmap_add xmap_del xmap_may xmap_good
  for V :: "'k option \<Rightarrow> bool" and eq and copy :: "'d option \<Rightarrow> 'd option"
proof (unfold_locales, goal_cases)
  case (1 s k v m)
  then show ?case by (rule xmap_add_law)
next
  case (2 s k v m)
  then show ?case by (rule xmap_refuse_law)
next
  case (3 s k m)
  then show ?case by (rule xmap_del_law)
qed

section \<open>Properties of the interface\<close>

lemma get_errno:
  assumes "xmap_inv V eq copy m" "V k"
  shows "HXmap_get m k = Some (case xmap_get m k of None \<Rightarrow> (None, Some ENOENT) | Some d \<Rightarrow> (d, None))"
proof (cases m)
  case (M_hash h)
  then have h: "umap_ok V h" using assms(1) by (simp add: xmap_inv_def)
  show ?thesis unfolding M_hash
    by (rule get_cases [OF h assms(2)]) (simp_all add: HXmap_get_def HXmap_find_def)
next
  case (M_rbtree b)
  then show ?thesis
    by (simp add: HXmap_get_def HXmap_find_def HXrbtree_get_def split: option.split)
qed (use assms in \<open>simp add: xmap_inv_def\<close>)

text \<open>What is assumed of the operations for a map type, and the table a map of the type gets.\<close>

definition map_laws :: "HXmap_type \<Rightarrow> ('k, 'd) HXmap_ops \<Rightarrow> ('k option \<Rightarrow> bool) \<Rightarrow> bool" where
  "map_laws type ops V = (case type of HXMAPT_HASH \<Rightarrow> hash_laws ops V | _ \<Rightarrow> order_laws ops V)"

lemma init5_ok:
  assumes l: "map_laws type (HXmap_ops_setup std (type = HXMAPT_HASH) flags ks ops) V"
    and i: "HXmap_init5 std True True type flags ops ks = Some (Inr m)"
  shows "xmap_inv V (key_eq (HXmap_ops_setup std (type = HXMAPT_HASH) flags ks ops))
      (d_clone (HXmap_ops_setup std (type = HXMAPT_HASH) flags ks ops)) m \<and> (\<forall>k. V k \<longrightarrow> xmap_get m k = None)"
proof (cases type)
  case HXMAPT_HASH
  then have l: "hash_laws (HXmap_ops_setup std True flags ks ops) V" using l by (simp add: map_laws_def)
  show ?thesis
  proof (rule init_ok [OF l])
    fix h assume h: "HXhashmap_init4 std True True flags ops ks = Some (Some h)" "umap_ok V h" "u_nodes h = []"
      "u_ops h = HXmap_ops_setup std True flags ks ops"
    have "HXumap_get h k = None" if "V k" for k by (rule get_miss [OF h(2) that]) (simp add: h(3))
    then show ?thesis using h i HXMAPT_HASH by (auto simp: HXmap_init5_def xmap_inv_def)
  qed
next
  case HXMAPT_RBTREE
  then have l: "order_laws (HXmap_ops_setup std False flags ks ops) V" using l by (simp add: map_laws_def)
  obtain b where b: "HXrbtree_init4 std True flags ops ks = Some b" "rbtree_ok V b" "inorder (rb_root b) = []"
    "r_ops b = HXmap_ops_setup std False flags ks ops" "r_flags b = flags" by (rule rb_init_ok [OF l])
  have "HXrbtree_get b k = None" for k using b(3) by (cases "rb_root b") (simp_all add: HXrbtree_get_def)
  then show ?thesis using b i HXMAPT_RBTREE by (auto simp: HXmap_init5_def xmap_inv_def)
qed (use i in \<open>simp add: HXmap_init5_def\<close>)


lemma val_map_init5:
  "HXmap_init5 val_std True True HXMAPT_RBTREE 0 None 0 = Some (Inr (M_rbtree val_tree))"
  by (simp add: HXmap_init5_def val_tree_init)


text \<open>The implementations are interchangeable: two maps, of whatever types, that agree on the valid keys still
  agree after any history that fits both.\<close>

theorem HXmap_types_agree:
  assumes "xmap_inv V eq copy m1" "xmap_inv V eq copy m2" and "\<forall>k. V k \<longrightarrow> xmap_get m1 k = xmap_get m2 k"
    and "fits_ops V xmap_good xmap_get xmap_may xmap_add xmap_del m1 xs"
    and "fits_ops V xmap_good xmap_get xmap_may xmap_add xmap_del m2 xs" and "V k"
  shows "HXmap_get (run_ops xmap_add xmap_del m1 xs) k = HXmap_get (run_ops xmap_add xmap_del m2 xs) k"
proof -
  have "ref_ops eq copy (xmap_get m1) (map fst xs) k = ref_ops eq copy (xmap_get m2) (map fst xs) k"
    using assms(3,6) by (intro ref_ops_cong [where P = V]) auto
  then show ?thesis
    using xmap.run_refines [OF assms(1,4)] xmap.run_refines [OF assms(2,5)] assms(6)
      get_errno [of V eq copy _ k] by simp
qed

lemma val_maps_inv:
  "xmap_inv (\<lambda>_. True) (key_eq val_ops) HXmap_valuecpy (M_hash val_map1)"
  "xmap_inv (\<lambda>_. True) (key_eq val_ops) HXmap_valuecpy (M_rbtree val_tree1)"
  using val_map1_ok val_tree1_ok
  by (auto simp: xmap_inv_def val_map1_def val_map_def val_tree1_def val_tree_def val_ops_simps val_rb_ops key_eq_def fun_eq_iff)

theorem HXmap_types_agree_witness:
  "HXmap_get (run_ops xmap_add xmap_del (M_hash val_map1) [(MDel (Some 6), (True, None))]) (Some 5) =
    HXmap_get (run_ops xmap_add xmap_del (M_rbtree val_tree1) [(MDel (Some 6), (True, None))]) (Some 5)"
proof -
  have g: "HXumap_get val_map1 k = HXrbtree_get val_tree1 k" for k
  proof -
    have u: "u_nodes val_map1 = [val_node]" "u_ops val_map1 = val_ops"
      by (simp_all add: u_nodes_def val_map1_def val_map_def upd_conv_take_nth_drop)
    have "HXumap_get val_map1 k = (if key_eq val_ops k (Some 5) then Some (Some 7) else None)"
      by (rule get_cases [OF val_map1_ok TrueI, of k]) (use u in \<open>auto simp: val_node_def\<close>)
    moreover have "HXrbtree_get val_tree1 k = (if key_eq val_ops k (Some 5) then Some (Some 7) else None)"
      by (simp add: HXrbtree_get_def val_tree1_def val_tree_def val_info_def val_rb_ops key_eq_def val_ops_simps Let_def)
    ultimately show ?thesis by simp
  qed
  show ?thesis
    by (rule HXmap_types_agree [OF val_maps_inv _ _ _ TrueI]) (simp_all add: g)
qed

text \<open>\<open>HXMAP_NOREPLACE\<close> means opposite things: an addition of a present key is refused with \<open>EEXIST\<close> by a hash
  map exactly when the flag is set, and by a red-black tree exactly when it is not set.\<close>

theorem HXmap_noreplace_inverted:
  assumes "xmap_inv V eq copy m" "V k" "xmap_get m k \<noteq> None" "\<not> clone_failed (copy v) v"
    and "\<not> has_flag (map_flags_of m) HXMAP_SINGULAR"
  shows "\<exists>r m' ev. HXmap_add m k v l mem = Some (r, m', ev) \<and>
    (r = Inl EEXIST \<longleftrightarrow>
      (case m of M_hash _ \<Rightarrow> has_flag (map_flags_of m) HXMAP_NOREPLACE
       | _ \<Rightarrow> \<not> has_flag (map_flags_of m) HXMAP_NOREPLACE)) \<and>
    (r = Inl EEXIST \<longrightarrow> m' = m \<and> ev = [])"
proof (cases m)
  case (M_hash h)
  then have h: "umap_ok V h" "d_clone (u_ops h) = copy" "HXumap_get h k \<noteq> None" using assms by (simp_all add: xmap_inv_def)
  show ?thesis unfolding M_hash
    by (rule get_cases [OF h(1) assms(2)])
      (use h assms(4,5) M_hash in \<open>auto simp: HXmap_add_def map_flags_of_def HXumap_add_def HXumap_replace_def Let_def\<close>)
next
  case (M_rbtree b)
  then have h: "rbtree_ok V b" "d_clone (r_ops b) = copy" "HXrbtree_get b k \<noteq> None" using assms by (simp_all add: xmap_inv_def)
  show ?thesis
  proof (cases "has_flag (r_flags b) HXMAP_NOREPLACE")
    case True
    have "\<not> clone_failed (d_clone (r_ops b) v) v" using assms(4) h(2) by simp
    then obtain b' n where "HXrbtree_add b k v mem = Some (Inr (), b', dfree (r_ops b) (rb_data n))" "rbtree_ok V b'"
      "r_ops b' = r_ops b" "r_flags b' = r_flags b" "r_items b' = r_items b" "key_eq (r_ops b) k (rb_key n)"
      "n \<in> set (inorder (rb_root b))"
      "set (inorder (rb_root b')) = insert (n\<lparr>rb_data := d_clone (r_ops b) v\<rparr>) (set (inorder (rb_root b)) - {n})"
      by (rule rb_replace_spec [OF h(1) assms(2) True _ h(3), where mem = mem])
    then show ?thesis using True assms(5) M_rbtree by (simp add: HXmap_add_def map_flags_of_def)
  next
    case False
    then have "\<not> rb_may b" by (simp add: rb_may_def)
    from rb_refuse_law [OF h(1) assms(2) h(3) this] show ?thesis using False assms(5) M_rbtree
      by (simp add: HXmap_add_def map_flags_of_def)
  qed
qed (use assms in \<open>simp add: xmap_inv_def\<close>)

theorem HXmap_noreplace_inverted_witness:
  "\<exists>m' ev. HXmap_add (M_rbtree val_tree1) (Some 5) None True None = Some (Inl EEXIST, m', ev)"
proof -
  have "map_flags_of (M_rbtree val_tree1) = 0" by (simp add: map_flags_of_def val_tree1_def val_tree_def)
  then show ?thesis
    using HXmap_noreplace_inverted [OF val_maps_inv(2) TrueI, of "Some 5" None True None]
    by (auto simp: val_rb_get1 clone_failed_def HXmap_valuecpy_def has_flag_def)
qed

end
