(* ===== verification/HX_Dequote.thy ===== *)
theory HX_Dequote
  imports HX_Quote
begin

text \<open>
  Shell-style unquoting, from \<^verbatim>\<open>src/opt.c\<close>. \<open>HXparse_dequote_int\<close> works in place: it reads a block
  at one index and writes what it has read at another one that never gets ahead of the first.
  \<open>dequote\<close> is its meaning on texts. \<open>HXparse_dequote_fmt\<close> first looks for the end of the text; that
  loop may spin, so that it runs on fuel, and \<open>None\<close> is a loop that has not ended.
\<close>

abbreviation DQ :: char where "DQ \<equiv> CHR 0x22"
abbreviation SQ :: char where "SQ \<equiv> CHR 0x27"
abbreviation BS :: char where "BS \<equiv> CHR 0x5C"

section \<open>In place\<close>

definition stops_at :: "char list option \<Rightarrow> char \<Rightarrow> bool" where
  "stops_at stops c = (case stops of None \<Rightarrow> False | Some e \<Rightarrow> strchr e c \<noteq> None)"

text \<open>The result: the block and the index behind the terminating character, \<open>None\<close> for \<^verbatim>\<open>NULL\<close>.\<close>

function dequote_loop :: "char list option \<Rightarrow> char list \<Rightarrow> nat \<Rightarrow> nat \<Rightarrow> char \<Rightarrow> (char list \<times> nat option) option" where
  "dequote_loop stops b w i quot = do {
     c \<leftarrow> rd b i;
     if c = NUL then do { b \<leftarrow> wr b w NUL; Some (b, None) }
     else if quot = NUL \<and> (c = DQ \<or> c = SQ) then dequote_loop stops b w (i + 1) c
     else if quot \<noteq> NUL \<and> c = quot then dequote_loop stops b w (i + 1) NUL
     else if c = BS then do {
       d \<leftarrow> rd b (i + 1);
       if d = NUL then dequote_loop stops b w (i + 1) quot
       else do { b \<leftarrow> wr b w d; dequote_loop stops b (w + 1) (i + 2) quot }
     }
     else if quot = NUL \<and> stops_at stops c then do { b \<leftarrow> wr b w NUL; Some (b, Some (i + 1)) }
     else do { b \<leftarrow> wr b w c; dequote_loop stops b (w + 1) (i + 1) quot }
   }"
  by pat_completeness auto
termination
  by (relation "measure (\<lambda>(stops, b, w, i, quot). length b - i)") (auto simp: rd_def dest: wr_length split: if_splits)

declare dequote_loop.simps [simp del]

definition HXparse_dequote_int :: "char list \<Rightarrow> nat \<Rightarrow> char list option \<Rightarrow> (char list \<times> nat option) option" where
  "HXparse_dequote_int b p stops = dequote_loop stops b p p NUL"

section \<open>On texts\<close>

text \<open>The text before the terminator with its quotes resolved, and what follows the terminator.\<close>

fun dequote :: "char list option \<Rightarrow> char \<Rightarrow> char list \<Rightarrow> char list \<times> char list option" where
  "dequote stops quot [] = ([], None)"
| "dequote stops quot (c # s) =
     (if quot = NUL \<and> (c = DQ \<or> c = SQ) then dequote stops c s
      else if quot \<noteq> NUL \<and> c = quot then dequote stops NUL s
      else if c = BS then (case s of [] \<Rightarrow> ([], None) | d # s \<Rightarrow> apfst ((#) d) (dequote stops quot s))
      else if quot = NUL \<and> stops_at stops c then ([], Some s)
      else apfst ((#) c) (dequote stops quot s))"

declare dequote.simps [simp del]

lemmas dequote_Nil [simp] = dequote.simps(1)

lemma dequote_induct [case_names Nil Open Close Last Escape Stop Copy]:
  assumes "\<And>quot. P quot []"
    and "\<And>quot c s. quot = NUL \<Longrightarrow> c = DQ \<or> c = SQ \<Longrightarrow> P c s \<Longrightarrow> dequote stops quot (c # s) = dequote stops c s \<Longrightarrow> P quot (c # s)"
    and "\<And>quot s. quot \<noteq> NUL \<Longrightarrow> P NUL s \<Longrightarrow> dequote stops quot (quot # s) = dequote stops NUL s \<Longrightarrow> P quot (quot # s)"
    and "\<And>quot. quot \<noteq> BS \<Longrightarrow> dequote stops quot [BS] = ([], None) \<Longrightarrow> P quot [BS]"
    and "\<And>quot d s. quot \<noteq> BS \<Longrightarrow> P quot s \<Longrightarrow> dequote stops quot (BS # d # s) = apfst ((#) d) (dequote stops quot s) \<Longrightarrow>
      P quot (BS # d # s)"
    and "\<And>quot c s. quot = NUL \<Longrightarrow> c \<notin> {DQ, SQ, BS} \<Longrightarrow> stops_at stops c \<Longrightarrow> dequote stops quot (c # s) = ([], Some s) \<Longrightarrow>
      P quot (c # s)"
    and "\<And>quot c s. c \<noteq> BS \<Longrightarrow> c \<noteq> quot \<or> quot = NUL \<Longrightarrow> \<not> (quot = NUL \<and> (c = DQ \<or> c = SQ \<or> stops_at stops c)) \<Longrightarrow> P quot s \<Longrightarrow>
      dequote stops quot (c # s) = apfst ((#) c) (dequote stops quot s) \<Longrightarrow> P quot (c # s)"
  shows "P quot s"
proof (induction "length s" arbitrary: quot s rule: less_induct)
  case less
  show ?case
  proof (cases s)
    case Nil
    then show ?thesis using assms(1) by simp
  next
    case (Cons c t)
    have ih: "P q u" if "length u \<le> length t" for q u using less [of u q] that Cons by simp
    note eq = dequote.simps(2) [of stops quot c t]
    consider (op) "quot = NUL" "c = DQ \<or> c = SQ" | (cl) "quot \<noteq> NUL" "c = quot"
      | (esc) "c = BS" "quot \<noteq> BS" | (st) "quot = NUL" "c \<notin> {DQ, SQ, BS}" "stops_at stops c"
      | (cp) "c \<noteq> BS" "c \<noteq> quot \<or> quot = NUL" "\<not> (quot = NUL \<and> (c = DQ \<or> c = SQ \<or> stops_at stops c))"
      by blast
    then show ?thesis
    proof cases
      case op
      then show ?thesis unfolding Cons using ih [of t c] eq by (intro assms(2)) auto
    next
      case cl
      then show ?thesis unfolding Cons using ih [of t NUL] eq by (auto intro!: assms(3))
    next
      case esc
      have nq: "\<not> (quot = NUL \<and> (c = DQ \<or> c = SQ))" "\<not> (quot \<noteq> NUL \<and> c = quot)" using esc by auto
      show ?thesis
      proof (cases t)
        case Nil
        then show ?thesis unfolding Cons using eq esc nq by (auto intro!: assms(4))
      next
        case (Cons d u)
        then have "P quot u" by (intro ih) simp
        moreover have "dequote stops quot (c # d # u) = apfst ((#) d) (dequote stops quot u)"
          using eq esc nq unfolding Cons by simp
        ultimately show ?thesis unfolding \<open>s = c # t\<close> Cons using esc assms(5) by blast
      qed
    next
      case st
      then show ?thesis unfolding Cons using eq by (intro assms(6)) auto
    next
      case cp
      have n: "(quot = NUL \<and> (c = DQ \<or> c = SQ)) = False" "(quot \<noteq> NUL \<and> c = quot) = False" "(c = BS) = False"
        "(quot = NUL \<and> stops_at stops c) = False" using cp by blast+
      have "dequote stops quot (c # t) = apfst ((#) c) (dequote stops quot t)" unfolding eq n by simp
      then show ?thesis unfolding Cons using ih [of t quot] assms(7) [OF cp] by blast
    qed
  qed
qed

lemma dequote_rest: "snd (dequote stops quot s) = Some r \<Longrightarrow> \<exists>u. s = u @ r \<and> length (fst (dequote stops quot s)) < length u"
proof (induction quot s rule: dequote_induct [of _ stops])
  case (Escape quot d s)
  then obtain u where "s = u @ r" "length (fst (dequote stops quot s)) < length u" by auto
  then show ?case using Escape by (intro exI [of _ "BS # d # u"]) simp
next
  case (Copy quot c s)
  then obtain u where "s = u @ r" "length (fst (dequote stops quot s)) < length u" by auto
  then show ?case using Copy by (intro exI [of _ "c # u"]) simp
next
  case (Open quot c s)
  then obtain u where "s = u @ r" "length (fst (dequote stops c s)) < length u" by auto
  then show ?case using Open by (intro exI [of _ "c # u"]) simp
next
  case (Close quot s)
  then obtain u where "s = u @ r" "length (fst (dequote stops NUL s)) < length u" by auto
  then show ?case using Close by (intro exI [of _ "quot # u"]) simp
qed simp_all

lemma dequote_no_NUL: "NUL \<notin> set s \<Longrightarrow> NUL \<notin> set (fst (dequote stops quot s))"
  by (induction quot s rule: dequote_induct [of _ stops]) simp_all

text \<open>In the block: \<open>gap\<close> is what lies between the place that is written and the place that is read.\<close>

lemma wr_gap: "wr (pre @ gap @ x # rest) (length pre) v = Some (pre @ v # tl (gap @ [x]) @ rest)"
  by (cases gap) (simp_all add: wr_def)

lemma rd_gap: "rd (pre @ gap @ x # rest) (length pre + length gap) = Some x"
  "rd (pre @ gap @ x # y # rest) (Suc (length pre + length gap)) = Some y"
proof -
  have "(pre @ gap @ x # y # rest) ! (length (pre @ gap @ [x])) = y"
    using nth_append_length [of "pre @ gap @ [x]" y rest] by simp
  then show "rd (pre @ gap @ x # y # rest) (Suc (length pre + length gap)) = Some y" by (simp add: rd_def)
  have "(pre @ gap @ x # rest) ! (length (pre @ gap)) = x" using nth_append_length [of "pre @ gap" x rest] by simp
  then show "rd (pre @ gap @ x # rest) (length pre + length gap) = Some x" by (simp add: rd_def)
qed

definition deq_post :: "char list option \<Rightarrow> char \<Rightarrow> char list \<Rightarrow> char list \<Rightarrow> char list \<Rightarrow> (char list \<times> nat option) option \<Rightarrow> bool" where
  "deq_post stops quot pre s post res \<longleftrightarrow> (\<exists>gap. let (t, rest) = dequote stops quot s in
     res = Some (pre @ t @ NUL # gap @ (case rest of None \<Rightarrow> post | Some r \<Rightarrow> r @ NUL # post),
       map_option (\<lambda>r. length pre + length t + 1 + length gap) rest))"

lemma deq_post_snoc:
  assumes "deq_post stops quot (pre @ [d]) s post res"
    and "dequote stops quot' s' = apfst ((#) d) (dequote stops quot s)"
  shows "deq_post stops quot' pre s' post res"
  using assms by (auto simp: deq_post_def Let_def case_prod_unfold split: option.splits)

lemma dequote_loop_text:
  assumes "NUL \<notin> set s" "quot = NUL \<or> quot = DQ \<or> quot = SQ"
  shows "deq_post stops quot pre s post
    (dequote_loop stops (pre @ gap @ s @ NUL # post) (length pre) (length pre + length gap) quot)"
  using assms
proof (induction quot s arbitrary: pre gap rule: dequote_induct [of _ stops])
  case (Nil quot)
  show ?case
    by (subst dequote_loop.simps) (auto simp: deq_post_def rd_gap wr_gap)
next
  case (Open quot c s)
  let ?b = "pre @ gap @ c # s @ NUL # post"
  have "dequote_loop stops ?b (length pre) (length pre + length gap) quot =
      dequote_loop stops ?b (length pre) (length pre + length gap + 1) c"
    using Open by (subst dequote_loop.simps) (auto simp: rd_gap)
  then show ?case using Open.IH [of pre "gap @ [c]"] Open by (auto simp: deq_post_def)
next
  case (Close quot s)
  let ?b = "pre @ gap @ quot # s @ NUL # post"
  have "dequote_loop stops ?b (length pre) (length pre + length gap) quot =
      dequote_loop stops ?b (length pre) (length pre + length gap + 1) NUL"
    using Close by (subst dequote_loop.simps) (auto simp: rd_gap)
  then show ?case using Close.IH [of pre "gap @ [quot]"] Close by (auto simp: deq_post_def)
next
  case (Last quot)
  let ?b = "pre @ gap @ BS # NUL # post"
  have "dequote_loop stops ?b (length pre) (length pre + length gap) quot =
      dequote_loop stops ?b (length pre) (length pre + length gap + 1) quot"
    using Last by (subst dequote_loop.simps) (auto simp: rd_gap)
  also have "\<dots> = Some (pre @ NUL # tl (gap @ [BS] @ [NUL]) @ post, None)"
    using rd_gap(1) [of pre "gap @ [BS]" NUL post] wr_gap [of pre "gap @ [BS]" NUL post NUL]
    by (subst dequote_loop.simps) simp
  finally show ?case using Last by (auto simp: deq_post_def)
next
  case (Escape quot d s)
  let ?b = "pre @ gap @ BS # d # s @ NUL # post" and ?g = "tl (gap @ [BS, d])"
  have "d \<noteq> NUL" using Escape by auto
  moreover have "wr ?b (length pre) d = Some (pre @ d # ?g @ s @ NUL # post)"
    by (cases gap) (simp_all add: wr_def)
  ultimately have "dequote_loop stops ?b (length pre) (length pre + length gap) quot =
      dequote_loop stops (pre @ d # ?g @ s @ NUL # post) (length pre + 1) (length pre + length gap + 2) quot"
    using Escape by (subst dequote_loop.simps) (auto simp: rd_gap)
  then show ?case using Escape.IH [of "pre @ [d]" ?g] Escape by (auto intro: deq_post_snoc)
next
  case (Stop quot c s)
  then show ?case
    by (subst dequote_loop.simps) (auto simp: rd_gap wr_gap deq_post_def)
next
  case (Copy quot c s)
  let ?b = "pre @ gap @ c # s @ NUL # post" and ?g = "tl (gap @ [c])"
  have "c \<noteq> NUL" using Copy.prems(1) by auto
  have "dequote_loop stops ?b (length pre) (length pre + length gap) quot =
      dequote_loop stops (pre @ c # ?g @ s @ NUL # post) (length pre + 1) (length pre + length gap + 1) quot"
  proof -
    have n: "(quot = NUL \<and> (c = DQ \<or> c = SQ)) = False" "(quot \<noteq> NUL \<and> c = quot) = False" "(c = BS) = False"
      "(quot = NUL \<and> stops_at stops c) = False" "(c = NUL) = False"
      using Copy(1,2,3) \<open>c \<noteq> NUL\<close> by blast+
    show ?thesis by (subst dequote_loop.simps) (simp only: rd_gap wr_gap n if_False Option.bind.simps)
  qed
  then show ?case using Copy.IH [of "pre @ [c]" ?g] Copy by (auto intro: deq_post_snoc)
qed

text \<open>What the function returns as a C string, and where it says that the text goes on.\<close>

lemma dequote_int_text:
  assumes "NUL \<notin> set s"
  shows "\<exists>b nxt. HXparse_dequote_int (pre @ s @ NUL # post) (length pre) stops = Some (b, nxt) \<and>
    take (length pre) b = pre \<and> cstr (drop (length pre) b) = fst (dequote stops NUL s) \<and>
    (case snd (dequote stops NUL s) of None \<Rightarrow> nxt = None
     | Some r \<Rightarrow> (\<exists>j gap. nxt = Some j \<and> b = pre @ fst (dequote stops NUL s) @ NUL # gap @ r @ NUL # post \<and>
         drop j b = r @ NUL # post))"
proof -
  have n: "NUL \<notin> set (fst (dequote stops NUL s))" using dequote_no_NUL assms by blast
  from dequote_loop_text [of s NUL stops pre post "[]"] assms obtain gap where
    "HXparse_dequote_int (pre @ s @ NUL # post) (length pre) stops =
      Some (pre @ fst (dequote stops NUL s) @ NUL # gap @ (case snd (dequote stops NUL s) of None \<Rightarrow> post | Some r \<Rightarrow> r @ NUL # post),
       map_option (\<lambda>r. length pre + length (fst (dequote stops NUL s)) + 1 + length gap) (snd (dequote stops NUL s)))"
    by (auto simp: deq_post_def Let_def case_prod_unfold HXparse_dequote_int_def)
  then show ?thesis using cstr_append [OF n] by (auto split: option.splits)
qed

section \<open>Finding the end\<close>

fun dq_scan :: "nat \<Rightarrow> char list option \<Rightarrow> char list \<Rightarrow> u32 \<Rightarrow> char \<Rightarrow> char list option" where
  "dq_scan 0 stops s level quot = None"
| "dq_scan (Suc n) stops [] level quot = Some []"
| "dq_scan (Suc n) stops (c # t) level quot =
     (if quot = NUL \<and> (c = DQ \<or> c = SQ) then dq_scan n stops t level c
      else if quot \<noteq> NUL \<and> c = quot then dq_scan n stops t level NUL
      else if quot = NUL \<and> c = BS then dq_scan n stops (case t of [] \<Rightarrow> c # t | _ # u \<Rightarrow> u) level quot
      else if c = BS then dq_scan n stops (drop 1 t) level quot
      else if quot = NUL \<and> c = CHR ''('' then dq_scan n stops t (level + 1) quot
      else if quot = NUL \<and> level = 0 \<and> stops_at stops c then Some (c # t)
      else if quot = NUL \<and> c = CHR '')'' \<and> level > 0 then dq_scan n stops t (level - 1) quot
      else dq_scan n stops t level quot)"

text \<open>The result: the new string, \<open>None\<close> for \<^verbatim>\<open>NULL\<close>, and the text that \<^verbatim>\<open>*pptr\<close> points to.\<close>

definition HXparse_dequote_fmt ::
  "nat \<Rightarrow> mem \<Rightarrow> char list \<Rightarrow> char list option \<Rightarrow> (memcont option \<times> char list) option" where
  "HXparse_dequote_fmt fuel mem s stops = do {
     i \<leftarrow> dq_scan fuel stops s 0 NUL;
     tmp \<leftarrow> HXmc_meminit mem (Some s) (of_nat (length s - length i));
     case tmp of None \<Rightarrow> Some (None, i)
     | Some c \<Rightarrow> do {
         (d, _) \<leftarrow> HXparse_dequote_int (mc_data c) 0 None;
         Some (Some (c\<lparr>mc_data := d\<rparr>), i)
       }
   }"

lemmas scan_simps = dq_scan.simps(3)
declare scan_simps [simp del]

text \<open>One round of the loop: it ends, or goes on behind the character, behind two, or at a lone backslash again.\<close>

lemma scan_cases:
  obtains (stop) "\<And>n. dq_scan (Suc n) stops (c # t) level quot = Some (c # t)"
  | (go) l q where "\<And>n. dq_scan (Suc n) stops (c # t) level quot = dq_scan n stops t l q"
  | (two) d u where "c = BS" "t = d # u" "\<And>n. dq_scan (Suc n) stops (c # t) level quot = dq_scan n stops u level quot"
  | (last) "c = BS" "t = []" "quot = NUL" "\<And>n. dq_scan (Suc n) stops (c # t) level quot = dq_scan n stops (c # t) level quot"
  | (open_last) "c = BS" "t = []" "quot \<noteq> NUL" "\<And>n. dq_scan (Suc n) stops (c # t) level quot = dq_scan n stops [] level quot"
proof -
  let ?op = "quot = NUL \<and> (c = DQ \<or> c = SQ)" and ?cl = "quot \<noteq> NUL \<and> c = quot" and ?bs = "quot = NUL \<and> c = BS"
    and ?par = "quot = NUL \<and> c = CHR ''(''" and ?st = "quot = NUL \<and> level = 0 \<and> stops_at stops c"
    and ?rap = "quot = NUL \<and> c = CHR '')'' \<and> level > 0"
  note eq = scan_simps [of _ stops c t level quot]
  consider "?op" | "\<not> ?op" "?cl" | "\<not> ?op" "\<not> ?cl" "c = BS" | "\<not> ?op" "\<not> ?cl" "c \<noteq> BS" "?par"
    | "\<not> ?op" "\<not> ?cl" "c \<noteq> BS" "\<not> ?par" "?st" | "\<not> ?op" "\<not> ?cl" "c \<noteq> BS" "\<not> ?par" "\<not> ?st" "?rap"
    | "\<not> ?op" "\<not> ?cl" "c \<noteq> BS" "\<not> ?par" "\<not> ?st" "\<not> ?rap"
    by argo
  then show thesis
  proof cases
    case 3
    then show ?thesis using eq two last open_last by (cases t; cases "quot = NUL"; simp)
  next
    case 5
    have e: "?op = False" "?cl = False" "(quot = NUL \<and> c = BS) = False" "(c = BS) = False" "?par = False" "?st = True" using 5 by blast+
    have "\<And>n. dq_scan (Suc n) stops (c # t) level quot = Some (c # t)" unfolding eq e by simp
    then show ?thesis by (rule stop)
  next
    case 1
    have e: "?op = True" using 1 by blast+
    have "\<And>n. dq_scan (Suc n) stops (c # t) level quot = dq_scan n stops t level c" unfolding eq e by simp
    then show ?thesis by (rule go)
  next
    case 2
    have e: "?op = False" "?cl = True" using 2 by blast+
    have "\<And>n. dq_scan (Suc n) stops (c # t) level quot = dq_scan n stops t level NUL" unfolding eq e by simp
    then show ?thesis by (rule go)
  next
    case 4
    have e: "?op = False" "?cl = False" "(quot = NUL \<and> c = BS) = False" "(c = BS) = False" "?par = True" using 4 by blast+
    have "\<And>n. dq_scan (Suc n) stops (c # t) level quot = dq_scan n stops t (level + 1) quot" unfolding eq e by simp
    then show ?thesis by (rule go)
  next
    case 6
    have e: "?op = False" "?cl = False" "(quot = NUL \<and> c = BS) = False" "(c = BS) = False" "?par = False" "?st = False" "?rap = True" using 6 by blast+
    have "\<And>n. dq_scan (Suc n) stops (c # t) level quot = dq_scan n stops t (level - 1) quot" unfolding eq e by simp
    then show ?thesis by (rule go)
  next
    case 7
    have e: "?op = False" "?cl = False" "(quot = NUL \<and> c = BS) = False" "(c = BS) = False" "?par = False" "?st = False" "?rap = False" using 7 by blast+
    have "\<And>n. dq_scan (Suc n) stops (c # t) level quot = dq_scan n stops t level quot" unfolding eq e by simp
    then show ?thesis by (rule go)
  qed
qed

lemma scan_rest: "dq_scan n stops s level quot = Some r \<Longrightarrow> \<exists>u. s = u @ r"
proof (induction n arbitrary: s level quot)
  case (Suc n)
  show ?case
  proof (cases s)
    case (Cons c t)
    show ?thesis
    proof (rule scan_cases [of stops c t level quot])
      assume "\<And>n. dq_scan (Suc n) stops (c # t) level quot = Some (c # t)"
      then show ?thesis using Suc.prems Cons by simp
    next
      fix l q assume "\<And>n. dq_scan (Suc n) stops (c # t) level quot = dq_scan n stops t l q"
      then have "\<exists>u. t = u @ r" using Suc Cons by simp
      then show ?thesis unfolding Cons by (metis append_Cons)
    next
      fix d u assume "c = BS" "t = d # u" "\<And>n. dq_scan (Suc n) stops (c # t) level quot = dq_scan n stops u level quot"
      then have "\<exists>v. u = v @ r" using Suc Cons by simp
      then show ?thesis unfolding Cons \<open>t = d # u\<close> by (metis append_Cons)
    next
      assume "c = BS" "t = []" "quot = NUL" "\<And>n. dq_scan (Suc n) stops (c # t) level quot = dq_scan n stops (c # t) level quot"
      then show ?thesis using Suc Cons by metis
    next
      assume "c = BS" "t = []" "quot \<noteq> NUL" "\<And>n. dq_scan (Suc n) stops (c # t) level quot = dq_scan n stops [] level quot"
      then have "dq_scan n stops [] level quot = Some r" using Suc.prems Cons by simp
      then have "r = []" by (cases n) simp_all
      then show ?thesis by simp
    qed
  qed (use Suc in simp)
qed simp

text \<open>The loop makes progress except at a backslash that ends the text outside quotes.\<close>

lemma scan_returns:
  assumes "length s < n" "s = [] \<or> last s \<noteq> BS"
  shows "\<exists>r. dq_scan n stops s level quot = Some r"
  using assms
proof (induction n arbitrary: s level quot)
  case (Suc n)
  show ?case
  proof (cases s)
    case (Cons c t)
    have l: "t = [] \<or> last t \<noteq> BS" "length t < n" using Suc.prems Cons by (auto split: if_splits)
    show ?thesis
    proof (rule scan_cases [of stops c t level quot])
      fix l q assume "\<And>n. dq_scan (Suc n) stops (c # t) level quot = dq_scan n stops t l q"
      then show ?thesis using Suc.IH [OF l(2,1)] Cons by simp
    next
      fix d u assume "c = BS" "t = d # u" "\<And>n. dq_scan (Suc n) stops (c # t) level quot = dq_scan n stops u level quot"
      then show ?thesis using Suc.IH [of u level quot] l Cons by (auto split: if_splits)
    qed (use Suc.prems Cons in auto)
  qed simp
qed simp

lemma scan_spins: "dq_scan n stops [BS] level NUL = None"
  by (induction n) (simp_all add: scan_simps)

lemma scan_stuck:
  assumes "\<forall>c \<in> set u. c \<notin> {DQ, SQ, BS, CHR ''('', CHR '')''} \<and> \<not> stops_at stops c"
  shows "dq_scan n stops (u @ [BS]) 0 NUL = None"
  using assms
proof (induction u arbitrary: n)
  case Nil
  then show ?case by (simp add: scan_spins)
next
  case (Cons c u)
  then show ?case by (cases n) (simp_all add: scan_simps)
qed

section \<open>Properties\<close>

lemma dequote_quoted:
  assumes q: "q = DQ \<or> q = SQ"
  shows "dequote stops q (HX_quote_backslash s [q, BS] @ q # rest) = apfst ((@) s) (dequote stops NUL rest)"
proof (induction s)
  case Nil
  have "(\<lambda>a :: char list. a) = id" by auto
  then show ?case using q by (auto simp: backslash_all dequote.simps(2) apfst_def map_prod_def split: prod.split)
next
  case (Cons c s)
  let ?r = "HX_quote_backslash s [q, BS] @ q # rest"
  have nq: "q \<noteq> NUL" "q \<noteq> BS" using q by auto
  show ?case
  proof (cases "c = q \<or> c = BS")
    case True
    then have "HX_quote_backslash (c # s) [q, BS] @ q # rest = BS # c # ?r" by (auto simp: backslash_all)
    moreover have "dequote stops q (BS # c # ?r) = apfst ((#) c) (dequote stops q ?r)"
      using nq by (simp add: dequote.simps(2))
    ultimately show ?thesis using Cons by (simp add: apfst_compose comp_def)
  next
    case False
    then have "HX_quote_backslash (c # s) [q, BS] @ q # rest = c # ?r" by (auto simp: backslash_all)
    moreover have "dequote stops q (c # ?r) = apfst ((#) c) (dequote stops q ?r)"
      using nq False by (simp add: dequote.simps(2))
    ultimately show ?thesis using Cons by (simp add: apfst_compose comp_def)
  qed
qed

lemma dequote_open:
  "q = DQ \<or> q = SQ \<Longrightarrow> dequote stops NUL (q # HX_quote_backslash s [q, BS] @ q # rest) =
    apfst ((@) s) (dequote stops NUL rest)"
  using dequote_quoted [of q stops s rest] by (auto simp: dequote.simps(2))

lemma dequote_stop:
  "stops_at stops c \<Longrightarrow> c \<notin> {DQ, SQ, BS} \<Longrightarrow> dequote stops NUL (c # rest) = ([], Some rest)"
  by (simp add: dequote.simps(2))

lemma backslash_no_NUL: "NUL \<notin> set s \<Longrightarrow> NUL \<notin> set (HX_quote_backslash s qc)"
  by (induction s) (auto simp: backslash_all)



lemma mc_data_split: "mc_ok c \<Longrightarrow> mc_data c = mc_content c @ NUL # drop (Suc (unat (mc_length c))) (mc_data c)"
  using mc_okD [of c] id_take_nth_drop [of "unat (mc_length c)" "mc_data c"] by (simp add: mc_content_def)

text \<open>What the function does once it has found the end of the text.\<close>

lemma dequote_fmt_found:
  assumes i: "dq_scan fuel stops s 0 NUL = Some i" and s: "NUL \<notin> set s" "length s \<le> mc_max"
  shows "\<exists>t c. s = t @ i \<and> HXparse_dequote_fmt fuel (Some junk) s stops = Some (Some c, i) \<and>
    HXparse_dequote_fmt fuel None s stops = Some (None, i) \<and> cstr (mc_data c) = fst (dequote None NUL t)"
proof -
  obtain t where t: "s = t @ i" using scan_rest [OF i] by blast
  define len where "len = (of_nat (length s - length i) :: u64)"
  have l: "unat len = length t" using s(2) t by (simp add: len_def unat_of_nat take_bit_nat_eq_self)
  then have l': "unat len \<le> length s" "unat len \<le> mc_max" using s(2) t by simp_all
  from HXmc_memcpy_replaces [of None, OF _ l', of "Some junk"] obtain c where
    c: "HXmc_memcpy (Some junk) None (Some s) len = Some (True, Some c)" "mc_ok c" "mc_content c = t"
    using t l by auto
  have f: "HXmc_memcpy None None (Some s) len = Some (False, None)"
    using HXmc_memcpy_replaces [of None, OF _ l', of None] by simp
  have tn: "NUL \<notin> set t" using s(1) t by simp
  from dequote_int_text [OF tn, of "[]" "drop (Suc (unat (mc_length c))) (mc_data c)" None] obtain b nxt where
    "HXparse_dequote_int (mc_data c) 0 None = Some (b, nxt)" "cstr b = fst (dequote None NUL t)"
    using mc_data_split [OF c(2)] unfolding c(3) by auto
  then show ?thesis
    using i t c f unfolding len_def by (intro exI [of _ t] exI [of _ "c\<lparr>mc_data := b\<rparr>"])
      (simp add: HXparse_dequote_fmt_def HXmc_meminit_def)
qed



end
