(* ===== verification/HX_Option.thy ===== *)
theory HX_Option
  imports HX_Num HX_String
begin

text \<open>
  The option tables of \<^verbatim>\<open>src/opt.c\<close> and \<^verbatim>\<open>option.h\<close>, the lookups in them, and the texts that describe them: the
  usage line and the help screen.

  A table is the list of its entries up to \<^verbatim>\<open>HXOPT_TABLEEND\<close>. The word \<^verbatim>\<open>type\<close> of an entry is split into its
  low five bits, all of whose values have a name, and the flags above them. What is printed is a text.
\<close>

unbundle bit_operations_syntax

section \<open>Tables\<close>

datatype HXtype = HXTYPE_NONE | HXTYPE_VAL | HXTYPE_SVAL | HXTYPE_BOOL | HXTYPE_BYTE | HXTYPE_UCHAR | HXTYPE_CHAR
  | HXTYPE_USHORT | HXTYPE_SHORT | HXTYPE_UINT | HXTYPE_INT | HXTYPE_ULONG | HXTYPE_LONG | HXTYPE_ULLONG | HXTYPE_LLONG
  | HXTYPE_FLOAT | HXTYPE_DOUBLE | HXTYPE_STRING | HXTYPE_STRP | HXTYPE_STRDQ | HXTYPE_UINT8 | HXTYPE_UINT16
  | HXTYPE_UINT32 | HXTYPE_UINT64 | HXTYPE_INT8 | HXTYPE_INT16 | HXTYPE_INT32 | HXTYPE_INT64 | HXTYPE_MCSTR
  | HXTYPE_XSNTMARK | HXTYPE_XHELP | HXTYPE_SIZE_T

definition HXOPT_OPTIONAL :: u32 where "HXOPT_OPTIONAL = 0x40"
definition HXOPT_INC :: u32 where "HXOPT_INC = 0x80"
definition HXOPT_DEC :: u32 where "HXOPT_DEC = 0x100"
definition HXOPT_NOT :: u32 where "HXOPT_NOT = 0x200"
definition HXOPT_OR :: u32 where "HXOPT_OR = 0x400"
definition HXOPT_AND :: u32 where "HXOPT_AND = 0x800"
definition HXOPT_XOR :: u32 where "HXOPT_XOR = 0x1000"
definition HXOPT_LOPMASK2 :: u32 where "HXOPT_LOPMASK2 = HXOPT_OR OR HXOPT_AND OR HXOPT_XOR"

text \<open>\<open>'cb\<close> is the type of the callbacks; \<^verbatim>\<open>uptr\<close> is used as a string only.\<close>

record 'cb HXoption =
  ln :: "char list option"
  sh :: char
  otype :: HXtype
  oflags :: u32
  optr :: ptr
  uptr :: "char list option"
  ocb :: "'cb option"
  oval :: u32
  ohelp :: "char list option"
  htyp :: "char list option"

definition opt_is :: "'cb HXoption \<Rightarrow> u32 \<Rightarrow> bool" where
  "opt_is opt fl \<longleftrightarrow> oflags opt AND fl \<noteq> 0"

definition takes_void :: "HXtype \<Rightarrow> bool" where
  "takes_void t \<longleftrightarrow> t = HXTYPE_NONE \<or> t = HXTYPE_VAL \<or> t = HXTYPE_SVAL \<or> t = HXTYPE_XSNTMARK \<or> t = HXTYPE_XHELP"

section \<open>Lookups\<close>

fun lookup_short :: "'cb HXoption list \<Rightarrow> char \<Rightarrow> 'cb HXoption option" where
  "lookup_short [] opt = None"
| "lookup_short (t # ts) opt = (if sh t = opt then Some t else lookup_short ts opt)"

fun lookup_long :: "'cb HXoption list \<Rightarrow> char list \<Rightarrow> 'cb HXoption option" where
  "lookup_long [] key = None"
| "lookup_long (t # ts) key = (if ln t = Some key then Some t else lookup_long ts key)"

text \<open>The outcomes of the search by prefix: \<^verbatim>\<open>NULL\<close>, \<^verbatim>\<open>&HXopt_ambig_prefix\<close>, an entry.\<close>

datatype 'cb pfx_result = Pfx_none | Pfx_ambig | Pfx_opt "'cb HXoption"

fun pfx_loop :: "'cb HXoption list \<Rightarrow> char list \<Rightarrow> 'cb HXoption option \<Rightarrow> 'cb pfx_result" where
  "pfx_loop [] key cand = (case cand of None \<Rightarrow> Pfx_none | Some t \<Rightarrow> Pfx_opt t)"
| "pfx_loop (t # ts) key cand =
     (case ln t of
        None \<Rightarrow> pfx_loop ts key cand
      | Some name \<Rightarrow>
          if take (length key) name \<noteq> key then pfx_loop ts key cand
          else if length name = length key then Pfx_opt t
          else if cand \<noteq> None then Pfx_ambig
          else pfx_loop ts key (Some t))"

definition lookup_long_pfx :: "'cb HXoption list \<Rightarrow> char list \<Rightarrow> 'cb pfx_result" where
  "lookup_long_pfx table key = pfx_loop table key None"

section \<open>The text of an option\<close>

definition W_SPACE :: u32 where "W_SPACE = 1"
definition W_BRACKET :: u32 where "W_BRACKET = 2"
definition W_ALT :: u32 where "W_ALT = 4"
definition W_EQUAL :: u32 where "W_EQUAL = 8"

definition put :: "char \<Rightarrow> char list \<times> nat \<Rightarrow> (char list \<times> nat) option" where
  "put c bi = (case bi of (b, i) \<Rightarrow> do { b \<leftarrow> wr b i c; Some (b, i + 1) })"

text \<open>\<open>snprintf\<close> returns the length of the whole text, however much of it fits.\<close>

definition snput :: "nat \<Rightarrow> char list \<Rightarrow> char list \<times> nat \<Rightarrow> (char list \<times> nat) option" where
  "snput len txt bi = (case bi of (b, i) \<Rightarrow> do {
     t \<leftarrow> snprintf (drop i b) (len - i) txt;
     Some (take i b @ t, i + length txt)
   })"

definition opt_to_text :: "'cb HXoption \<Rightarrow> char list \<Rightarrow> nat \<Rightarrow> u32 \<Rightarrow> char list option" where
  "opt_to_text opt buf len flags =
     (let htyp = (case htyp opt of None \<Rightarrow> ''ARG'' | Some h \<Rightarrow> h);
          alt = (if flags AND W_ALT \<noteq> 0 then ''|'' else '', '');
          equ = (if flags AND W_ALT \<noteq> 0 then (if flags AND W_EQUAL \<noteq> 0 then CHR ''='' else CHR '' '') else CHR ''='')
      in do {
        bi \<leftarrow> (if flags AND W_SPACE \<noteq> 0 then put (CHR '' '') (buf, 0) else Some (buf, 0));
        bi \<leftarrow> (if flags AND W_BRACKET \<noteq> 0 then put (CHR ''['') bi else Some bi);
        bi \<leftarrow> (case ln opt of
            None \<Rightarrow> do {
              bi \<leftarrow> put (CHR ''-'') bi;
              bi \<leftarrow> put (sh opt) bi;
              if \<not> takes_void (otype opt) then snput len ('' '' @ htyp) bi else Some bi
            }
          | Some name \<Rightarrow>
              if sh opt = NUL then
                (if takes_void (otype opt) then snput len (''--'' @ name) bi
                 else snput len (''--'' @ name @ ''='' @ htyp) bi)
              else
                (if takes_void (otype opt) then snput len (''-'' @ [sh opt] @ alt @ ''--'' @ name) bi
                 else snput len (''-'' @ [sh opt] @ alt @ ''--'' @ name @ [equ] @ htyp) bi));
        bi \<leftarrow> (if flags AND W_BRACKET \<noteq> 0 then put (CHR '']'') bi else Some bi);
        bi \<leftarrow> put NUL bi;
        Some (fst bi)
      })"

section \<open>Usage and help\<close>

definition SCREEN_WIDTH :: nat where "SCREEN_WIDTH = 80"

text \<open>What \<^verbatim>\<open>print_indent\<close> prints after its first position on the line.\<close>

function indent_loop :: "char list \<Rightarrow> nat \<Rightarrow> nat \<Rightarrow> char list" where
  "indent_loop m ind rest =
     (if length m < rest then m
      else case HX_strbchr (m @ [NUL]) (rest + 1) (CHR '' '') of
          None \<Rightarrow> m
        | Some p \<Rightarrow> take p m @ CHR 0x0A # replicate ind (CHR '' '') @ indent_loop (drop (p + 1) m) ind rest)"
  by pat_completeness auto
termination
proof (relation "measure (\<lambda>(m, ind, rest). length m)")
  fix m :: "char list" and ind rest p
  assume "\<not> length m < rest" "HX_strbchr (m @ [NUL]) (rest + 1) (CHR '' '') = Some p"
  moreover have "HX_strbchr s k d = Some p \<Longrightarrow> p < k \<and> s ! p = d" for s k d by (induction k) (auto split: if_splits)
  ultimately have "p \<le> length m" "(m @ [NUL]) ! p = CHR '' ''" by fastforce+
  then have "p < length m" by (cases "p = length m") auto
  then show "((drop (p + 1) m, ind, rest), m, ind, rest) \<in> measure (\<lambda>(m, ind, rest). length m)" by simp
qed simp

declare indent_loop.simps [simp del]

definition print_indent :: "char list \<Rightarrow> u32 \<Rightarrow> char list" where
  "print_indent m ind = indent_loop m (unat ind) (unat (of_nat SCREEN_WIDTH - ind)) @ [CHR 0x0A]"

definition short_only :: "'cb HXoption \<Rightarrow> bool" where
  "short_only t \<longleftrightarrow> ln t = None \<and> sh t \<noteq> NUL \<and> takes_void (otype t)"

text \<open>The flags without an argument are collected in \<open>tmp\<close>, up to \<open>tw\<close>; \<open>wd\<close> is the column.\<close>

definition put_flag :: "'cb HXoption \<Rightarrow> char list \<times> nat \<times> char list \<times> nat \<Rightarrow> (char list \<times> nat \<times> char list \<times> nat) option" where
  "put_flag t st = (case st of (out, wd, tmp, tw) \<Rightarrow>
     if \<not> short_only t then Some st
     else do {
       c \<leftarrow> rd tmp 0;
       tmp \<leftarrow> (if c = NUL then snprintf tmp 84 '' [-'' else Some tmp);
       let tw = (if c = NUL then 3 else tw);
       tmp \<leftarrow> wr tmp tw (sh t);
       let tw = tw + 1;
       if wd + tw + 1 > SCREEN_WIDTH then do {
         tmp \<leftarrow> wr tmp tw (CHR '']'');
         tmp \<leftarrow> wr tmp (tw + 1) NUL;
         out \<leftarrow> Some (out @ cstr tmp @ CHR 0x0A # ''      '');
         tmp \<leftarrow> wr tmp 0 NUL;
         Some (out, 6, tmp, tw + 1)
       } else Some (out, wd, tmp, tw)
     })"

fun put_flags :: "'cb HXoption list \<Rightarrow> char list \<times> nat \<times> char list \<times> nat \<Rightarrow> (char list \<times> nat \<times> char list \<times> nat) option" where
  "put_flags [] st = Some st"
| "put_flags (t # ts) st = do { st \<leftarrow> put_flag t st; put_flags ts st }"

fun put_others :: "'cb HXoption list \<Rightarrow> char list \<times> nat \<times> char list \<Rightarrow> (char list \<times> nat \<times> char list) option" where
  "put_others [] st = Some st"
| "put_others (t # ts) (out, wd, tmp) =
     (if short_only t then put_others ts (out, wd, tmp)
      else do {
        tmp \<leftarrow> opt_to_text t tmp 84 (W_SPACE OR W_BRACKET OR W_ALT);
        let n = length (cstr tmp);
        let (out, wd) = (if wd + n > SCREEN_WIDTH then (out @ CHR 0x0A # ''      '', 6) else (out, wd));
        put_others ts (out @ cstr tmp, wd + n, tmp)
      })"

definition HX_getopt_usage :: "'cb HXoption list \<Rightarrow> char list option \<Rightarrow> char list option" where
  "HX_getopt_usage table data =
     (let arg0 = (case data of None \<Rightarrow> ''($0)'' | Some a \<Rightarrow> if a = [] then ''($0)'' else a);
          wd = 7 + length arg0;
          out = ''Usage: '' @ arg0;
          (out, wd) = (if wd + 5 > SCREEN_WIDTH then (out @ CHR 0x0A # ''     '', 6) else (out, wd))
      in do {
        (out, wd, tmp, tw) \<leftarrow> put_flags table (out, wd, replicate 84 NUL, 0);
        c \<leftarrow> rd tmp 0;
        (out, wd, tmp) \<leftarrow> (if c \<noteq> NUL then do {
            tmp \<leftarrow> wr tmp tw (CHR '']'');
            tmp \<leftarrow> wr tmp (tw + 1) NUL;
            Some (out @ cstr tmp, wd + length (cstr tmp), tmp)
          } else Some (out, wd, tmp));
        (out, wd, tmp) \<leftarrow> put_others table (out, wd, tmp);
        Some (out @ [CHR 0x0A])
      })"

fun help_width :: "'cb HXoption list \<Rightarrow> char list \<times> nat \<Rightarrow> (char list \<times> nat) option" where
  "help_width [] st = Some st"
| "help_width (t # ts) (tmp, tw) = do {
     tmp \<leftarrow> opt_to_text t tmp 84 W_EQUAL;
     help_width ts (tmp, if length (cstr tmp) > tw then length (cstr tmp) else tw)
   }"

fun help_lines :: "'cb HXoption list \<Rightarrow> nat \<Rightarrow> char list \<Rightarrow> char list option" where
  "help_lines [] tw tmp = Some []"
| "help_lines (t # ts) tw tmp = do {
     tmp \<leftarrow> opt_to_text t tmp 84 0;
     more \<leftarrow> help_lines ts tw tmp;
     Some (''  '' @ cstr tmp @ replicate (tw - length (cstr tmp)) (CHR '' '') @ ''    '' @
       (case ohelp t of None \<Rightarrow> [CHR 0x0A] | Some h \<Rightarrow> print_indent h (of_nat (tw + 6))) @ more)
   }"

definition HX_getopt_help :: "'cb HXoption list \<Rightarrow> char list option \<Rightarrow> char list option" where
  "HX_getopt_help table data = do {
     usage \<leftarrow> HX_getopt_usage table data;
     (tmp, tw) \<leftarrow> help_width table (replicate 84 NUL, 0);
     lines \<leftarrow> help_lines table tw tmp;
     Some (usage @ lines)
   }"

section \<open>Lookups: properties\<close>

lemma lookup_short_iff: "lookup_short ts c = find (\<lambda>t. sh t = c) ts"
  by (induction ts) auto

lemma lookup_long_iff: "lookup_long ts key = find (\<lambda>t. ln t = Some key) ts"
  by (induction ts) auto

text \<open>The entries with the prefix; the search sees them in table order.\<close>

definition has_pfx :: "char list \<Rightarrow> 'cb HXoption \<Rightarrow> bool" where
  "has_pfx key t \<longleftrightarrow> (\<exists>r. ln t = Some (key @ r))"

lemma has_pfx_iff: "has_pfx key t \<longleftrightarrow> (\<exists>name. ln t = Some name \<and> take (length key) name = key)"
  by (auto simp: has_pfx_def) (metis append_take_drop_id)

lemma pfx_loop_filter: "pfx_loop ts key cand = pfx_loop (filter (has_pfx key) ts) key cand"
  by (induction ts arbitrary: cand) (auto simp: has_pfx_iff split: option.splits)

lemma pfx_step:
  assumes "has_pfx key t"
  shows "pfx_loop (t # ts) key cand =
    (if ln t = Some key then Pfx_opt t else if cand \<noteq> None then Pfx_ambig else pfx_loop ts key (Some t))"
  using assms by (auto simp: has_pfx_def)

text \<open>C16: The search by prefix, exactly. Only the first two entries with the prefix matter: none is \<^verbatim>\<open>NULL\<close>; one is the
  result; of two or more the first one with exactly that name is the result if it is among the first two, and
  otherwise the result is ``ambiguous'' -- also when a later entry has exactly the name that was given.\<close>

theorem lookup_long_pfx_cases:
  "lookup_long_pfx table key =
    (case filter (has_pfx key) table of
       [] \<Rightarrow> Pfx_none
     | [t] \<Rightarrow> Pfx_opt t
     | t # u # _ \<Rightarrow> if ln t = Some key then Pfx_opt t else if ln u = Some key then Pfx_opt u else Pfx_ambig)"
proof -
  let ?f = "filter (has_pfx key) table"
  have h: "t \<in> set ?f \<Longrightarrow> has_pfx key t" for t by simp
  have "lookup_long_pfx table key = pfx_loop ?f key None"
    unfolding lookup_long_pfx_def by (rule pfx_loop_filter)
  also have "\<dots> = (case ?f of [] \<Rightarrow> Pfx_none | [t] \<Rightarrow> Pfx_opt t
     | t # u # _ \<Rightarrow> if ln t = Some key then Pfx_opt t else if ln u = Some key then Pfx_opt u else Pfx_ambig)"
  proof (cases ?f)
    case Nil
    then show ?thesis by simp
  next
    case (Cons t r)
    then have t: "has_pfx key t" using h by (metis list.set_intros(1))
    show ?thesis
    proof (cases r)
      case Nil
      then show ?thesis unfolding Cons \<open>r = []\<close> pfx_step [OF t] by simp
    next
      case (Cons u v)
      then have u: "has_pfx key u" using h \<open>?f = t # r\<close> by (metis list.set_intros)
      show ?thesis unfolding \<open>?f = t # r\<close> Cons pfx_step [OF t] pfx_step [OF u] by simp
    qed
  qed
  finally show ?thesis .
qed

section \<open>Texts: properties\<close>

text \<open>The whole text of an option, and the buffer that it is put into.\<close>

definition opt_text :: "'cb HXoption \<Rightarrow> u32 \<Rightarrow> char list" where
  "opt_text opt flags =
     (let htyp = (case htyp opt of None \<Rightarrow> ''ARG'' | Some h \<Rightarrow> h);
          arg = (if takes_void (otype opt) then [] else htyp);
          alt = (if flags AND W_ALT \<noteq> 0 then ''|'' else '', '');
          equ = (if takes_void (otype opt) then []
                 else if flags AND W_ALT \<noteq> 0 \<and> flags AND W_EQUAL = 0 then '' '' else ''='')
      in (if flags AND W_SPACE \<noteq> 0 then '' '' else []) @ (if flags AND W_BRACKET \<noteq> 0 then ''['' else []) @
         (case ln opt of
            None \<Rightarrow> CHR ''-'' # sh opt # (if takes_void (otype opt) then [] else '' '' @ arg)
          | Some name \<Rightarrow>
              if sh opt = NUL then ''--'' @ name @ (if takes_void (otype opt) then [] else ''='' @ arg)
              else CHR ''-'' # sh opt # alt @ ''--'' @ name @ equ @ arg) @
         (if flags AND W_BRACKET \<noteq> 0 then '']'' else []))"

text \<open>A prefix of the buffer written so far, while everything fits.\<close>

definition wrote :: "nat \<Rightarrow> char list \<Rightarrow> char list \<times> nat \<Rightarrow> bool" where
  "wrote n t bi \<longleftrightarrow> (case bi of (b, i) \<Rightarrow> length b = n \<and> i = length t \<and> (length t < n \<longrightarrow> take i b = t))"

lemma put_wrote:
  assumes "wrote n t bi" "length t < n"
  obtains bi' where "put c bi = Some bi'" "wrote n (t @ [c]) bi'"
  using assms by (auto simp: wrote_def put_def wr_def take_Suc_conv_app_nth split: prod.splits)

lemma put_full: "wrote n t bi \<Longrightarrow> n \<le> length t \<Longrightarrow> put c bi = None"
  by (auto simp: wrote_def put_def wr_def split: prod.splits)

lemma snput_wrote:
  assumes "wrote n t bi" "length t < n"
  obtains bi' where "snput n txt bi = Some bi'" "wrote n (t @ txt) bi'"
proof -
  obtain b i where b: "bi = (b, i)" "length b = n" "i = length t" "take i b = t"
    using assms by (auto simp: wrote_def split: prod.splits)
  let ?t = "take (n - i - 1) txt @ [NUL]"
  have "snput n txt bi = Some (t @ ?t @ drop (length ?t) (drop i b), i + length txt)"
    using b assms(2) by (simp add: snput_def snprintf_def wrn_def)
  moreover have "wrote n (t @ txt) (t @ ?t @ drop (length ?t) (drop i b), i + length txt)"
    using b assms(2) by (auto simp: wrote_def min_def)
  ultimately show thesis by (rule that)
qed

text \<open>The three parts of the function: in front, the option itself, behind.\<close>

lemma opt_front:
  assumes "5 \<le> length buf"
  obtains bi bi' where "(if fs then put (CHR '' '') (buf, 0) else Some (buf, 0)) = Some bi"
    "(if fb then put (CHR ''['') bi else Some bi) = Some bi'"
    "wrote (length buf) ((if fs then '' '' else []) @ (if fb then ''['' else [])) bi'"
proof -
  have w0: "wrote (length buf) [] (buf, 0)" by (simp add: wrote_def)
  obtain bi where bi: "(if fs then put (CHR '' '') (buf, 0) else Some (buf, 0)) = Some bi"
    "wrote (length buf) (if fs then '' '' else []) bi"
  proof (cases fs)
    case True
    have "length ([] :: char list) < length buf" using assms by auto
    then obtain bi where "put (CHR '' '') (buf, 0) = Some bi" "wrote (length buf) ([] @ '' '') bi"
      by (rule put_wrote [OF w0])
    then show thesis using that True by simp
  next
    case False
    then show thesis using w0 that by auto
  qed
  show thesis
  proof (cases fb)
    case True
    have "length (if fs then '' '' else []) < length buf" using assms by auto
    then obtain bi' where "put (CHR ''['') bi = Some bi'" "wrote (length buf) ((if fs then '' '' else []) @ ''['') bi'"
      by (rule put_wrote [OF bi(2)])
    then show thesis using that [OF bi(1)] True by simp
  next
    case False
    then show thesis using bi that [OF bi(1)] by simp
  qed
qed

lemma opt_back:
  assumes "wrote n t bi" 
  shows "if length (t @ (if fb then '']'' else [])) < n
    then \<exists>b. do { bi \<leftarrow> (if fb then put (CHR '']'') bi else Some bi); bi \<leftarrow> put NUL bi; Some (fst bi) } = Some b \<and>
      length b = n \<and> cstr b = cstr (t @ (if fb then '']'' else []))
    else do { bi \<leftarrow> (if fb then put (CHR '']'') bi else Some bi); bi \<leftarrow> put NUL bi; Some (fst bi) } = None"
proof -
  have fin: "if length t < n then \<exists>b. put NUL bi \<bind> (\<lambda>bi. Some (fst bi)) = Some b \<and> length b = n \<and> cstr b = cstr t
      else put NUL bi = None" if w: "wrote n t bi" for t bi
  proof (cases "length t < n")
    case True
    obtain b i where b: "bi = (b, i)" "length b = n" "i = length t" "take i b = t"
      using w True by (auto simp: wrote_def split: prod.splits)
    have "b[i := NUL] = t @ NUL # drop (Suc i) b" using b True by (simp add: upd_conv_take_nth_drop)
    moreover have "cstr (t @ NUL # r) = cstr t" for r by (induction t) (simp_all add: cstr_def)
    ultimately show ?thesis using b True by (simp add: put_def wr_def)
  next
    case False
    then show ?thesis using put_full [OF w] by simp
  qed
  show ?thesis
  proof (cases fb)
    case False
    then show ?thesis using fin [OF assms] by (simp split: if_splits)
  next
    case True
    show ?thesis
    proof (cases "length t < n")
      case True
      obtain bi' where "put (CHR '']'') bi = Some bi'" "wrote n (t @ '']'') bi'" by (rule put_wrote [OF assms True])
      then show ?thesis using \<open>fb\<close> fin [of "t @ '']''" bi'] by (simp split: if_splits)
    next
      case False
      then show ?thesis using \<open>fb\<close> put_full [OF assms] by simp
    qed
  qed
qed

lemma opt_body:
  assumes w: "wrote n pre bi" "length pre + 2 < n"
    and t: "opt_text opt flags = pre @ t @ post" and pre: "pre = (if flags AND W_SPACE \<noteq> 0 then '' '' else []) @ (if flags AND W_BRACKET \<noteq> 0 then ''['' else [])"
    and post: "post = (if flags AND W_BRACKET \<noteq> 0 then '']'' else [])"
  obtains bi' where "(case ln opt of
            None \<Rightarrow> do {
              bi \<leftarrow> put (CHR ''-'') bi;
              bi \<leftarrow> put (sh opt) bi;
              if \<not> takes_void (otype opt) then snput n ('' '' @ (case htyp opt of None \<Rightarrow> ''ARG'' | Some h \<Rightarrow> h)) bi else Some bi
            }
          | Some name \<Rightarrow>
              if sh opt = NUL then
                (if takes_void (otype opt) then snput n (''--'' @ name) bi
                 else snput n (''--'' @ name @ ''='' @ (case htyp opt of None \<Rightarrow> ''ARG'' | Some h \<Rightarrow> h)) bi)
              else
                (if takes_void (otype opt) then snput n (''-'' @ [sh opt] @ (if flags AND W_ALT \<noteq> 0 then ''|'' else '', '') @ ''--'' @ name) bi
                 else snput n (''-'' @ [sh opt] @ (if flags AND W_ALT \<noteq> 0 then ''|'' else '', '') @ ''--'' @ name @
                   [if flags AND W_ALT \<noteq> 0 then (if flags AND W_EQUAL \<noteq> 0 then CHR ''='' else CHR '' '') else CHR ''=''] @
                   (case htyp opt of None \<Rightarrow> ''ARG'' | Some h \<Rightarrow> h)) bi)) = Some bi'"
    "wrote n (pre @ t) bi'"
proof (cases "ln opt")
  case None
  obtain b1 where b1: "put (CHR ''-'') bi = Some b1" "wrote n (pre @ ''-'') b1"
    by (rule put_wrote [OF w(1)]) (use w(2) in simp)
  obtain b2 where b2: "put (sh opt) b1 = Some b2" "wrote n ((pre @ ''-'') @ [sh opt]) b2"
    by (rule put_wrote [OF b1(2)]) (use w(2) in simp)
  let ?h = "'' '' @ (case htyp opt of None \<Rightarrow> ''ARG'' | Some h \<Rightarrow> h)"
  obtain b3 where b3: "snput n ?h b2 = Some b3" "wrote n (((pre @ ''-'') @ [sh opt]) @ ?h) b3"
    by (rule snput_wrote [OF b2(2)]) (use w(2) in simp)
  have "t = CHR ''-'' # sh opt # (if takes_void (otype opt) then [] else ?h)"
    using t None unfolding pre post opt_text_def Let_def by (auto split: if_splits)
  then show thesis using None b1 b2 b3 by (intro that [of "if takes_void (otype opt) then b2 else b3"]) simp_all
next
  case (Some name)
  have wl: "length pre < n" using w(2) by simp
  have r: thesis if "\<And>bi'. E = Some bi' \<Longrightarrow> wrote n (pre @ t) bi' \<Longrightarrow> thesis" "E = snput n t bi" for E
    using snput_wrote [OF w(1) wl, of t thesis] that by simp
  show thesis
    by (rule r [OF that]) (use t Some in \<open>simp_all add: pre post opt_text_def Let_def split: if_splits\<close>)
qed

text \<open>\<open>opt_to_text\<close> with its buffer: a text that fits, with its terminator, is put there as a whole; for any
  longer one the function writes behind the buffer, because it goes on at the length \<^verbatim>\<open>snprintf\<close> returned.\<close>

theorem opt_to_text_bounds:
  assumes "5 \<le> length buf"
  shows "if length (opt_text opt flags) < length buf
    then \<exists>b. opt_to_text opt buf (length buf) flags = Some b \<and> length b = length buf \<and> cstr b = cstr (opt_text opt flags)
    else opt_to_text opt buf (length buf) flags = None"
proof -
  let ?pre = "(if flags AND W_SPACE \<noteq> 0 then '' '' else []) @ (if flags AND W_BRACKET \<noteq> 0 then ''['' else [])"
  let ?post = "if flags AND W_BRACKET \<noteq> 0 then '']'' else []"
  obtain t where t: "opt_text opt flags = ?pre @ t @ ?post" by (simp add: opt_text_def Let_def)
  obtain bi b1 where b1: "(if flags AND W_SPACE \<noteq> 0 then put (CHR '' '') (buf, 0) else Some (buf, 0)) = Some bi"
    "(if flags AND W_BRACKET \<noteq> 0 then put (CHR ''['') bi else Some bi) = Some b1" "wrote (length buf) ?pre b1"
    by (rule opt_front [OF assms])
  have l: "length ?pre + 2 < length buf" using assms by simp
  obtain b2 where b2: "opt_to_text opt buf (length buf) flags =
      do { bi \<leftarrow> (if flags AND W_BRACKET \<noteq> 0 then put (CHR '']'') b2 else Some b2); bi \<leftarrow> put NUL bi; Some (fst bi) }"
    "wrote (length buf) (?pre @ t) b2"
    by (rule opt_body [OF b1(3) l t refl refl]) (unfold opt_to_text_def Let_def b1(1,2) Option.bind.simps, simp only: Option.bind.simps)
  show ?thesis using opt_back [OF b2(2), of "flags AND W_BRACKET \<noteq> 0"] unfolding b2(1) t by (simp only: append_assoc)
qed

section \<open>Usage and help: properties\<close>

fun join :: "char list \<Rightarrow> char list list \<Rightarrow> char list" where
  "join sep [] = []"
| "join sep [w] = w"
| "join sep (w # ws) = w @ sep @ join sep ws"

lemma join_Cons: "ws \<noteq> [] \<Longrightarrow> join sep (w # ws) = w @ sep @ join sep ws"
  by (cases ws) simp_all

lemma strbchr_last:
  "HX_strbchr s k d = None \<Longrightarrow> k \<le> length s \<Longrightarrow> d \<notin> set (take k s)"
  "HX_strbchr s k d = Some p \<Longrightarrow> k \<le> length s \<Longrightarrow> p < k \<and> s ! p = d"
  by (induction k) (auto simp: take_Suc_conv_app_nth split: if_splits)

lemma indent_lines:
  "\<exists>ws. ws \<noteq> [] \<and> m = join '' '' ws \<and> indent_loop m ind rest = join (CHR 0x0A # replicate ind (CHR '' '')) ws \<and>
    (\<forall>w \<in> set (butlast ws). length w \<le> rest) \<and> (length (last ws) < rest \<or> CHR '' '' \<notin> set (take (rest + 1) (last ws)))"
proof (induction m ind rest rule: indent_loop.induct)
  case (1 m ind rest)
  show ?case
  proof (cases "length m < rest")
    case True
    then show ?thesis by (subst indent_loop.simps) (intro exI [of _ "[m]"], simp)
  next
    case False
    then have l: "rest + 1 \<le> length (m @ [NUL])" by simp
    show ?thesis
    proof (cases "HX_strbchr (m @ [NUL]) (rest + 1) (CHR '' '')")
      case None
      then have "CHR '' '' \<notin> set (take (rest + 1) m)" using strbchr_last(1) [OF None l] by (auto dest: in_set_takeD split: if_splits)
      then show ?thesis using False None by (subst indent_loop.simps) (intro exI [of _ "[m]"], simp)
    next
      case (Some p)
      have p: "p < rest + 1" "(m @ [NUL]) ! p = CHR '' ''" using strbchr_last(2) [OF Some l] by simp_all
      then have p': "p < length m" "m ! p = CHR '' ''" using False by (cases "p = length m"; simp add: nth_append split: if_splits)+
      obtain ws where ws: "ws \<noteq> []" "drop (p + 1) m = join '' '' ws"
        "indent_loop (drop (p + 1) m) ind rest = join (CHR 0x0A # replicate ind (CHR '' '')) ws"
        "\<forall>w \<in> set (butlast ws). length w \<le> rest" "length (last ws) < rest \<or> CHR '' '' \<notin> set (take (rest + 1) (last ws))"
        using 1 [OF False Some] by blast
      have "m = take p m @ '' '' @ drop (p + 1) m" using id_take_nth_drop [OF p'(1)] unfolding p'(2) by simp
      then have "m = join '' '' (take p m # ws)" unfolding ws(2) join_Cons [OF ws(1)] .
      moreover have "indent_loop m ind rest = join (CHR 0x0A # replicate ind (CHR '' '')) (take p m # ws)"
        using False Some ws(3) by (subst indent_loop.simps) (simp add: join_Cons [OF ws(1)])
      ultimately show ?thesis using ws p p'(1) by (intro exI [of _ "take p m # ws"]) auto
    qed
  qed
qed

text \<open>\<open>print_indent\<close> breaks a text at spaces and at nothing else: the lines joined by spaces are the text again, every
  line but the last takes at most the columns that are left of the screen, and the last line is longer only when it
  has no space to break it at in these columns. In front of every line but the first is the indentation.\<close>

theorem print_indent_lines:
  assumes "unat ind \<le> SCREEN_WIDTH"
  shows "\<exists>ws. ws \<noteq> [] \<and> m = join '' '' ws \<and>
    print_indent m ind = join (CHR 0x0A # replicate (unat ind) (CHR '' '')) ws @ [CHR 0x0A] \<and>
    (\<forall>w \<in> set (butlast ws). unat ind + length w \<le> SCREEN_WIDTH) \<and>
    (unat ind + length (last ws) < SCREEN_WIDTH \<or> CHR '' '' \<notin> set (take (SCREEN_WIDTH - unat ind + 1) (last ws)))"
proof -
  have "ind \<le> 80" using assms by (simp add: SCREEN_WIDTH_def word_le_nat_alt)
  then have r: "unat (of_nat SCREEN_WIDTH - ind) = SCREEN_WIDTH - unat ind" by (simp add: SCREEN_WIDTH_def unat_sub)
  obtain ws where ws: "ws \<noteq> []" "m = join '' '' ws"
    "indent_loop m (unat ind) (SCREEN_WIDTH - unat ind) = join (CHR 0x0A # replicate (unat ind) (CHR '' '')) ws"
    "\<forall>w \<in> set (butlast ws). length w \<le> SCREEN_WIDTH - unat ind"
    "length (last ws) < SCREEN_WIDTH - unat ind \<or> CHR '' '' \<notin> set (take (SCREEN_WIDTH - unat ind + 1) (last ws))"
    using indent_lines [of m "unat ind" "SCREEN_WIDTH - unat ind"] by blast
  then show ?thesis using assms unfolding print_indent_def r by (intro exI [of _ ws]) auto
qed

theorem print_indent_lines_witness:
  "\<exists>ws. ws \<noteq> [] \<and> ''show this help'' = join '' '' ws \<and>
    print_indent ''show this help'' 72 = join (CHR 0x0A # replicate (unat (72 :: u32)) (CHR '' '')) ws @ [CHR 0x0A] \<and>
    (\<forall>w \<in> set (butlast ws). unat (72 :: u32) + length w \<le> SCREEN_WIDTH) \<and>
    (unat (72 :: u32) + length (last ws) < SCREEN_WIDTH \<or>
      CHR '' '' \<notin> set (take (SCREEN_WIDTH - unat (72 :: u32) + 1) (last ws)))"
  by (rule print_indent_lines) (simp add: SCREEN_WIDTH_def)

text \<open>The collected flags stay within the buffer.\<close>

definition flags_ok :: "char list \<times> nat \<times> char list \<times> nat \<Rightarrow> bool" where
  "flags_ok st \<longleftrightarrow> (case st of (out, wd, tmp, tw) \<Rightarrow> length tmp = 84 \<and> wd \<le> 75 \<and> (tmp ! 0 \<noteq> NUL \<longrightarrow> wd + tw + 1 \<le> 80))"

lemma put_flag_ok:
  assumes "flags_ok st"
  obtains st' where "put_flag t st = Some st'" "flags_ok st'"
proof -
  obtain out wd tmp tw where st: "st = (out, wd, tmp, tw)" by (cases st) auto
  have l: "length tmp = 84" "wd \<le> 75" "tmp ! 0 \<noteq> NUL \<longrightarrow> wd + tw + 1 \<le> 80" using assms by (auto simp: st flags_ok_def)
  show thesis
  proof (cases "short_only t")
    case False
    then show thesis using that [of st] assms by (simp add: st put_flag_def)
  next
    case True
    define tw1 where "tw1 = (if tmp ! 0 = NUL then 3 else tw)"
    obtain tmp1 where t1: "(if tmp ! 0 = NUL then snprintf tmp 84 '' [-'' else Some tmp) = Some tmp1" "length tmp1 = 84"
    proof (cases "tmp ! 0 = NUL")
      case True
      have "snprintf tmp 84 '' [-'' = Some ('' [-'' @ NUL # drop 4 tmp)" using l(1) by (simp add: snprintf_def wrn_def numeral_eq_Suc)
      then show thesis using that True l(1) by simp
    qed (use that l(1) in simp)
    have b: "tw1 \<le> 79" "wd + tw1 \<le> 79" using l by (auto simp: tw1_def)
    define tmp2 where "tmp2 = tmp1[tw1 := sh t]"
    have t2: "wr tmp1 tw1 (sh t) = Some tmp2" "length tmp2 = 84" using b(1) t1(2) by (simp_all add: wr_def tmp2_def)
    define tmp4 where "tmp4 = tmp2[tw1 + 1 := CHR '']'', tw1 + 1 + 1 := NUL]"
    have t4: "wr tmp2 (tw1 + 1) (CHR '']'') = Some (tmp2[tw1 + 1 := CHR '']''])"
      "wr (tmp2[tw1 + 1 := CHR '']'']) (tw1 + 1 + 1) NUL = Some tmp4" "wr tmp4 0 NUL = Some (tmp4[0 := NUL])" "length tmp4 = 84"
      using b(1) t2(2) by (simp_all add: wr_def tmp4_def)
    have r: "rd tmp 0 = Some (tmp ! 0)" using l(1) by (simp add: rd_def)
    have e: "put_flag t st = (if wd + (tw1 + 1) + 1 > SCREEN_WIDTH
        then Some (out @ cstr tmp4 @ CHR 0x0A # ''      '', 6, tmp4[0 := NUL], tw1 + 1 + 1) else Some (out, wd, tmp2, tw1 + 1))"
      using True unfolding st put_flag_def split r Option.bind.simps Let_def tw1_def [symmetric] t1(1) t2(1) t4 by simp
    show thesis
    proof (cases "wd + (tw1 + 1) + 1 > SCREEN_WIDTH")
      case True
      have "flags_ok (out @ cstr tmp4 @ CHR 0x0A # ''      '', 6, tmp4[0 := NUL], tw1 + 1 + 1)"
        using t4(4) by (simp add: flags_ok_def nth_list_update)
      then show thesis using that e True by simp
    next
      case False
      then have "flags_ok (out, wd, tmp2, tw1 + 1)" using t2(2) l(2) by (simp add: flags_ok_def SCREEN_WIDTH_def)
      then show thesis using that e False by simp
    qed
  qed
qed

lemma put_flags_ok:
  assumes "flags_ok st"
  obtains st' where "put_flags ts st = Some st'" "flags_ok st'"
  using assms
proof (induction ts arbitrary: st thesis)
  case (Cons t ts)
  obtain st1 where "put_flag t st = Some st1" "flags_ok st1" by (rule put_flag_ok [OF Cons.prems(2)])
  then show ?case using Cons.IH [of st1] Cons.prems(1) by auto
qed auto

lemma opt_to_text_84:
  assumes "length tmp = 84"
  shows "length (opt_text t fl) < 84 \<Longrightarrow> \<exists>b. opt_to_text t tmp 84 fl = Some b \<and> length b = 84 \<and> cstr b = cstr (opt_text t fl)"
    "\<not> length (opt_text t fl) < 84 \<Longrightarrow> opt_to_text t tmp 84 fl = None"
  using opt_to_text_bounds [of tmp t fl] assms by simp_all

lemma put_others_ok:
  assumes "length tmp = 84"
  shows "put_others ts (out, wd, tmp) \<noteq> None \<longleftrightarrow>
    (\<forall>t \<in> set ts. short_only t \<or> length (opt_text t (W_SPACE OR W_BRACKET OR W_ALT)) < 84)"
  using assms
proof (induction ts arbitrary: out wd tmp)
  case (Cons t ts)
  show ?case
  proof (cases "short_only t")
    case True
    then show ?thesis using Cons by simp
  next
    case False
    show ?thesis
    proof (cases "length (opt_text t (W_SPACE OR W_BRACKET OR W_ALT)) < 84")
      case True
      obtain b where b: "opt_to_text t tmp 84 (W_SPACE OR W_BRACKET OR W_ALT) = Some b" "length b = 84"
        using opt_to_text_84(1) [OF Cons.prems True] by blast
      have "put_others ts (o', w', b) \<noteq> None \<longleftrightarrow>
          (\<forall>t \<in> set ts. short_only t \<or> length (opt_text t (W_SPACE OR W_BRACKET OR W_ALT)) < 84)" for o' w'
        by (rule Cons.IH [OF b(2)])
      then show ?thesis using False True by (simp add: b(1) Let_def split: prod.split)
    next
      case False
      then show ?thesis using opt_to_text_84(2) [OF Cons.prems False] \<open>\<not> short_only t\<close> by simp
    qed
  qed
qed simp

lemma help_width_ok:
  assumes "length tmp = 84"
  shows "if \<forall>t \<in> set ts. length (opt_text t W_EQUAL) < 84
    then \<exists>b w. help_width ts (tmp, tw) = Some (b, w) \<and> length b = 84 \<and> tw \<le> w \<and> w \<le> max tw 83 \<and>
      (\<forall>t \<in> set ts. length (cstr (opt_text t W_EQUAL)) \<le> w)
    else help_width ts (tmp, tw) = None"
  using assms
proof (induction ts arbitrary: tmp tw)
  case (Cons t ts)
  show ?case
  proof (cases "length (opt_text t W_EQUAL) < 84")
    case True
    obtain b where b: "opt_to_text t tmp 84 W_EQUAL = Some b" "length b = 84" "cstr b = cstr (opt_text t W_EQUAL)"
      using opt_to_text_84(1) [OF Cons.prems True] by blast
    have "length (cstr (opt_text t W_EQUAL)) \<le> 83" using True length_takeWhile_le [of "\<lambda>c. c \<noteq> NUL" "opt_text t W_EQUAL"] by (simp add: cstr_def)
    then show ?thesis using Cons.IH [OF b(2), of "if length (cstr b) > tw then length (cstr b) else tw"] b True
      by (auto split: if_splits)
  next
    case False
    then show ?thesis using opt_to_text_84(2) [OF Cons.prems False] by simp
  qed
qed simp

lemma help_lines_ok:
  assumes "length tmp = 84"
  shows "help_lines ts tw tmp \<noteq> None \<longleftrightarrow> (\<forall>t \<in> set ts. length (opt_text t 0) < 84)"
  using assms
proof (induction ts arbitrary: tmp)
  case (Cons t ts)
  show ?case
  proof (cases "length (opt_text t 0) < 84")
    case True
    obtain b where b: "opt_to_text t tmp 84 0 = Some b" "length b = 84" using opt_to_text_84(1) [OF Cons.prems True] by blast
    show ?thesis using Cons.IH [OF b(2)] b(1) True by (cases "help_lines ts tw b") auto
  next
    case False
    then show ?thesis using opt_to_text_84(2) [OF Cons.prems False] by simp
  qed
qed simp

text \<open>The lengths of the texts with the three sets of flags that the two functions use.\<close>

lemma opt_text_lengths:
  "length (opt_text t W_EQUAL) = length (opt_text t 0)"
  "\<not> short_only t \<Longrightarrow> length (opt_text t 0) < length (opt_text t (W_SPACE OR W_BRACKET OR W_ALT))"
  "short_only t \<Longrightarrow> length (opt_text t 0) = 2"
  by (auto simp: opt_text_def Let_def W_SPACE_def W_BRACKET_def W_ALT_def W_EQUAL_def short_only_def split: option.splits)

lemma usage_ok:
  "HX_getopt_usage table data \<noteq> None \<longleftrightarrow>
    (\<forall>t \<in> set table. short_only t \<or> length (opt_text t (W_SPACE OR W_BRACKET OR W_ALT)) < 84)"
proof -
  define arg0 where "arg0 = (case data of None \<Rightarrow> ''($0)'' | Some a \<Rightarrow> if a = [] then ''($0)'' else a)"
  define out where "out = (if 7 + length arg0 + 5 > SCREEN_WIDTH then (''Usage: '' @ arg0) @ CHR 0x0A # ''     '' else ''Usage: '' @ arg0)"
  define wd where "wd = (if 7 + length arg0 + 5 > SCREEN_WIDTH then 6 else 7 + length arg0)"
  have "flags_ok (out, wd, replicate 84 NUL, 0)" by (simp add: flags_ok_def wd_def SCREEN_WIDTH_def)
  then obtain st' where st: "put_flags table (out, wd, replicate 84 NUL, 0) = Some st'" "flags_ok st'" by (rule put_flags_ok)
  obtain out1 wd1 tmp tw where st': "st' = (out1, wd1, tmp, tw)" by (cases st') auto
  have l: "length tmp = 84" "wd1 \<le> 75" "tmp ! 0 \<noteq> NUL \<Longrightarrow> wd1 + tw + 1 \<le> 80" using st(2) by (auto simp: st' flags_ok_def)
  define tmp2 where "tmp2 = tmp[tw := CHR '']'', tw + 1 := NUL]"
  define fin where "fin = (if tmp ! 0 \<noteq> NUL then (out1 @ cstr tmp2, wd1 + length (cstr tmp2), tmp2) else (out1, wd1, tmp))"
  have f: "(if tmp ! 0 \<noteq> NUL then do { t \<leftarrow> wr tmp tw (CHR '']''); t \<leftarrow> wr t (tw + 1) NUL; Some (out1 @ cstr t, wd1 + length (cstr t), t) }
      else Some (out1, wd1, tmp)) = Some fin"
  proof (cases "tmp ! 0 = NUL")
    case False
    then have "tw < 83" using l(3) by simp
    then show ?thesis using l(1) False by (simp add: fin_def wr_def tmp2_def)
  qed (simp add: fin_def)
  obtain o2 w2 t2 where f2: "fin = (o2, w2, t2)" "length t2 = 84" 
    by (cases "tmp ! 0 = NUL") (use l(1) in \<open>simp_all add: fin_def tmp2_def\<close>)
  have e: "HX_getopt_usage table data = do { (out, wd, tmp) \<leftarrow> put_others table fin; Some (out @ [CHR 0x0A]) }"
    unfolding HX_getopt_usage_def Let_def arg0_def [symmetric]
    using st(1) f l(1) rd_in [of 0 tmp] by (auto simp: st' out_def wd_def split: if_splits)
  then show ?thesis using put_others_ok [OF f2(2), of table o2 w2] unfolding f2(1) by (cases "put_others table (o2, w2, t2)") auto
qed

lemma help_iff_usage: "HX_getopt_help table data \<noteq> None \<longleftrightarrow> HX_getopt_usage table data \<noteq> None"
proof -
  have "HX_getopt_help table data \<noteq> None" if ok: "HX_getopt_usage table data \<noteq> None"
  proof -
    obtain us where us: "HX_getopt_usage table data = Some us" using ok by blast
    have s: "length (opt_text t 0) < 84" if "t \<in> set table" for t
    proof (cases "short_only t")
      case True
      then show ?thesis using opt_text_lengths(3) [of t] by simp
    next
      case False
      then have "length (opt_text t (W_SPACE OR W_BRACKET OR W_ALT)) < 84" using ok that unfolding usage_ok by blast
      then show ?thesis using opt_text_lengths(2) [OF False] by linarith
    qed
    then have "\<forall>t \<in> set table. length (opt_text t W_EQUAL) < 84" by (simp add: opt_text_lengths(1))
    then obtain b w where b: "help_width table (replicate 84 NUL, 0) = Some (b, w)" "length b = 84"
      using help_width_ok [of "replicate 84 NUL" table 0] by auto
    obtain ls where "help_lines table w b = Some ls" using help_lines_ok [OF b(2), of table w] s by blast
    then show ?thesis using us b by (simp add: HX_getopt_help_def)
  qed
  moreover have "HX_getopt_help table data = None" if "HX_getopt_usage table data = None"
    using that by (simp add: HX_getopt_help_def)
  ultimately show ?thesis by metis
qed

text \<open>C18: Safety of the usage line and of the help screen: both functions stay within their buffers of 84 bytes exactly when
  every option (other than a lone flag) has a text of less than 84 characters in the usage line. One
  long name or argument description makes them write behind the buffer.\<close>

theorem HX_getopt_help_safe:
  "(HX_getopt_help table data \<noteq> None \<longleftrightarrow> HX_getopt_usage table data \<noteq> None) \<and>
   (HX_getopt_usage table data \<noteq> None \<longleftrightarrow>
     {t \<in> set table. \<not> short_only t \<and> 84 \<le> length (opt_text t (W_SPACE OR W_BRACKET OR W_ALT))} = {})"
proof -
  have "HX_getopt_usage table data \<noteq> None \<longleftrightarrow>
      {t \<in> set table. \<not> short_only t \<and> 84 \<le> length (opt_text t (W_SPACE OR W_BRACKET OR W_ALT))} = {}"
    unfolding usage_ok by (auto simp: not_le)
  then show ?thesis using help_iff_usage [of table data] by blast
qed

end
