(* ===== verification/HX_Assign.thy ===== *)
theory HX_Assign
  imports HX_Option HX_Mc
begin

text \<open>
  The assignment of an option's argument to the variable of its table entry (\<open>do_assign\<close> of \<^verbatim>\<open>src/opt.c\<close>).

  The variables are typed cells of a store. A result \<open>None\<close> is undefined behaviour: a pointer that is
  \<^verbatim>\<open>NULL\<close> or that does not designate a variable of the type in the table is dereferenced. The state also counts the
  allocations; \<open>mem k\<close> is the outcome of the \<open>k\<close>-th one. A callback is a function on states that sees what
  \<^verbatim>\<open>struct HXoptcb\<close> holds for it.
\<close>

unbundle bit_operations_syntax

section \<open>Variables\<close>

text \<open>Integers of either signedness are the word of their width; \<open>CF\<close> and \<open>CD\<close> are \<^verbatim>\<open>float\<close> and \<^verbatim>\<open>double\<close>.\<close>

datatype 'f cell = C8 u8 | C16 u16 | C32 u32 | C64 u64 | CF 'f | CD 'f | CStr "char list option"
  | CDeque "char list option list" | CMc "memcont option"

record 'f opt_state =
  cells :: "addr \<rightharpoonup> 'f cell"
  nalloc :: nat

datatype 'f cb_value = Long u64 | Dbl 'f

record 'f HXoptcb =
  cb_data :: "char list option"
  cb_value :: "'f cb_value"
  cb_flags :: u32

definition HXOPTCB_BY_LONG :: u32 where "HXOPTCB_BY_LONG = 1"
definition HXOPTCB_BY_SHORT :: u32 where "HXOPTCB_BY_SHORT = 2"

type_synonym 'f callback = "'f HXoptcb \<Rightarrow> 'f opt_state \<Rightarrow> 'f opt_state"

text \<open>\<^verbatim>\<open>*ptr = f(*ptr)\<close>; \<open>f\<close> is \<open>None\<close> on a variable of another type.\<close>

definition upd_cell :: "'f opt_state \<Rightarrow> ptr \<Rightarrow> ('f cell \<Rightarrow> 'f cell option) \<Rightarrow> 'f opt_state option" where
  "upd_cell st p f = do {
     a \<leftarrow> p;
     c \<leftarrow> cells st a;
     c \<leftarrow> f c;
     Some (st\<lparr>cells := (cells st)(a \<mapsto> c)\<rparr>)
   }"

section \<open>Integers\<close>

text \<open>The logical operation that the flags select; an illegal combination leaves the variable alone.\<close>

definition opt_lop :: "u32 \<Rightarrow> 'w :: len word \<Rightarrow> 'w word \<Rightarrow> 'w word" where
  "opt_lop fl p v =
     (let m = fl AND HXOPT_LOPMASK2 in
      if m = 0 then v else if m = HXOPT_OR then p OR v else if m = HXOPT_AND then p AND v
      else if m = HXOPT_XOR then p XOR v else p)"

definition opt_neg :: "u32 \<Rightarrow> 'w :: len word \<Rightarrow> 'w word" where
  "opt_neg fl v = (if fl AND HXOPT_NOT \<noteq> 0 then NOT v else v)"

text \<open>Width in bytes and signedness of the integer types.\<close>

definition ntype :: "HXtype \<Rightarrow> (nat \<times> bool) option" where
  "ntype t = (case t of
      HXTYPE_UCHAR \<Rightarrow> Some (1, False) | HXTYPE_CHAR \<Rightarrow> Some (1, True)
    | HXTYPE_USHORT \<Rightarrow> Some (2, False) | HXTYPE_SHORT \<Rightarrow> Some (2, True)
    | HXTYPE_UINT \<Rightarrow> Some (4, False) | HXTYPE_INT \<Rightarrow> Some (4, True)
    | HXTYPE_ULONG \<Rightarrow> Some (8, False) | HXTYPE_LONG \<Rightarrow> Some (8, True)
    | HXTYPE_UINT8 \<Rightarrow> Some (1, False) | HXTYPE_INT8 \<Rightarrow> Some (1, True)
    | HXTYPE_UINT16 \<Rightarrow> Some (2, False) | HXTYPE_INT16 \<Rightarrow> Some (2, True)
    | HXTYPE_UINT32 \<Rightarrow> Some (4, False) | HXTYPE_INT32 \<Rightarrow> Some (4, True)
    | HXTYPE_ULLONG \<Rightarrow> Some (8, False) | HXTYPE_LLONG \<Rightarrow> Some (8, True)
    | HXTYPE_UINT64 \<Rightarrow> Some (8, False) | HXTYPE_INT64 \<Rightarrow> Some (8, True)
    | HXTYPE_SIZE_T \<Rightarrow> Some (8, False)
    | _ \<Rightarrow> None)"

text \<open>The conversion of a word to the type of the variable and back to \<^verbatim>\<open>long\<close>.\<close>

definition as_type :: "nat \<Rightarrow> bool \<Rightarrow> u64 \<Rightarrow> u64" where
  "as_type n sg v =
     (if n = 1 then (if sg then scast (ucast v :: u8) else ucast (ucast v :: u8))
      else if n = 2 then (if sg then scast (ucast v :: u16) else ucast (ucast v :: u16))
      else if n = 4 then (if sg then scast (ucast v :: u32) else ucast (ucast v :: u32))
      else v)"

definition cell_op :: "nat \<Rightarrow> u32 \<Rightarrow> u64 \<Rightarrow> 'f cell \<Rightarrow> 'f cell option" where
  "cell_op n fl v c = (case c of
      C8 p \<Rightarrow> if n = 1 then Some (C8 (opt_lop fl p (ucast v))) else None
    | C16 p \<Rightarrow> if n = 2 then Some (C16 (opt_lop fl p (ucast v))) else None
    | C32 p \<Rightarrow> if n = 4 then Some (C32 (opt_lop fl p (ucast v))) else None
    | C64 p \<Rightarrow> if n = 8 then Some (C64 (opt_lop fl p v)) else None
    | _ \<Rightarrow> None)"

definition NTYPE :: "'cb HXoption \<Rightarrow> nat \<Rightarrow> bool \<Rightarrow> 'f HXoptcb \<Rightarrow> 'f opt_state \<Rightarrow> ('f HXoptcb \<times> 'f opt_state) option" where
  "NTYPE opt n sg cbi st = do {
     s \<leftarrow> cb_data cbi;
     let v = fst (if sg then strtol0 s else strtoul0 s);
     let v = (if optr opt \<noteq> None then opt_neg (oflags opt) v else v);
     st \<leftarrow> (if optr opt \<noteq> None then upd_cell st (optr opt) (cell_op n (oflags opt) v) else Some st);
     Some (cbi\<lparr>cb_value := Long (as_type n sg v)\<rparr>, st)
   }"

section \<open>All types\<close>

definition strcase_eq :: "char list \<Rightarrow> char list \<Rightarrow> bool" where
  "strcase_eq a b \<longleftrightarrow> map tolower a = map tolower b"

definition truth :: "char list \<Rightarrow> bool" where
  "truth s \<longleftrightarrow> strcase_eq s ''yes'' \<or> strcase_eq s ''on'' \<or> strcase_eq s ''true'' \<or>
     (isdigit (at0 s) \<and> fst (strtoul0 s) \<noteq> 0)"

definition assign_float :: "'f fpops \<Rightarrow> ('f \<Rightarrow> 'f cell \<Rightarrow> 'f cell option) \<Rightarrow> 'cb HXoption \<Rightarrow> 'f HXoptcb \<Rightarrow> 'f opt_state \<Rightarrow>
    ('f HXoptcb \<times> 'f opt_state) option" where
  "assign_float fp g opt cbi st = do {
     s \<leftarrow> cb_data cbi;
     let v = fst (fp_strtod fp s);
     st \<leftarrow> (if optr opt \<noteq> None then upd_cell st (optr opt) (g v) else Some st);
     Some (cbi\<lparr>cb_value := Dbl v\<rparr>, st)
   }"

definition put32 :: "(u32 \<Rightarrow> u32) \<Rightarrow> 'f cell \<Rightarrow> 'f cell option" where
  "put32 f c = (case c of C32 p \<Rightarrow> Some (C32 (f p)) | _ \<Rightarrow> None)"

definition put_str :: "char list option \<Rightarrow> 'f cell \<Rightarrow> 'f cell option" where
  "put_str s c = (case c of CStr _ \<Rightarrow> Some (CStr s) | _ \<Rightarrow> None)"

definition assign_none :: "'cb HXoption \<Rightarrow> 'f HXoptcb \<Rightarrow> 'f opt_state \<Rightarrow> ('f HXoptcb \<times> 'f opt_state) option" where
  "assign_none opt cbi st = do {
     st \<leftarrow> (if optr opt \<noteq> None
           then upd_cell st (optr opt) (put32 (\<lambda>p. if opt_is opt HXOPT_INC then p + 1 else if opt_is opt HXOPT_DEC then p - 1 else 1))
           else Some st);
     Some (cbi\<lparr>cb_value := Long 1\<rparr>, st)
   }"

text \<open>A push to the user's deque; a failed push is not noticed.\<close>

definition assign_strdq :: "(nat \<Rightarrow> mem) \<Rightarrow> 'cb HXoption \<Rightarrow> 'f HXoptcb \<Rightarrow> 'f opt_state \<Rightarrow> ('f HXoptcb \<times> 'f opt_state) option" where
  "assign_strdq mem opt cbi st =
     (let k = nalloc st; s = HX_strdup (mem k \<noteq> None) (cb_data cbi);
          k = (if cb_data cbi = None then k else k + 1)
      in do {
        st \<leftarrow> upd_cell st (optr opt) (\<lambda>c. case c of CDeque xs \<Rightarrow> Some (CDeque (if mem k \<noteq> None then xs @ [s] else xs)) | _ \<Rightarrow> None);
        Some (cbi, st\<lparr>nalloc := k + 1\<rparr>)
      })"

definition assign_type :: "'f fpops \<Rightarrow> (nat \<Rightarrow> mem) \<Rightarrow> 'cb HXoption \<Rightarrow> char list option \<Rightarrow> 'f HXoptcb \<Rightarrow> 'f opt_state \<Rightarrow>
    ('f HXoptcb \<times> 'f opt_state) option" where
  "assign_type fp mem opt arg0 cbi st = (case otype opt of
      HXTYPE_NONE \<Rightarrow> assign_none opt cbi st
    | HXTYPE_VAL \<Rightarrow> do {
        st \<leftarrow> upd_cell st (optr opt) (put32 (\<lambda>_. oval opt));
        Some (cbi\<lparr>cb_value := Long (scast (oval opt))\<rparr>, st)
      }
    | HXTYPE_SVAL \<Rightarrow> do {
        st \<leftarrow> upd_cell st (optr opt) (put_str (uptr opt));
        Some (cbi\<lparr>cb_data := uptr opt\<rparr>, st)
      }
    | HXTYPE_BOOL \<Rightarrow>
        if optr opt = None then Some (cbi, st)
        else do {
          s \<leftarrow> cb_data cbi;
          st \<leftarrow> upd_cell st (optr opt) (put32 (\<lambda>_. if truth s then 1 else 0));
          Some (cbi, st)
        }
    | HXTYPE_BYTE \<Rightarrow> do {
        s \<leftarrow> cb_data cbi;
        st \<leftarrow> upd_cell st (optr opt) (\<lambda>c. case c of C8 _ \<Rightarrow> Some (C8 (of_char (at0 s))) | _ \<Rightarrow> None);
        Some (cbi, st)
      }
    | HXTYPE_FLOAT \<Rightarrow> assign_float fp (\<lambda>v c. case c of CF _ \<Rightarrow> Some (CF (fp_float fp v)) | _ \<Rightarrow> None) opt cbi st
    | HXTYPE_DOUBLE \<Rightarrow> assign_float fp (\<lambda>v c. case c of CD _ \<Rightarrow> Some (CD v) | _ \<Rightarrow> None) opt cbi st
    | HXTYPE_STRING \<Rightarrow>
        if optr opt = None then Some (cbi, st)
        else do {
          let s = HX_strdup (mem (nalloc st) \<noteq> None) (cb_data cbi);
          st \<leftarrow> upd_cell st (optr opt) (put_str s);
          Some (cbi, if cb_data cbi = None then st else st\<lparr>nalloc := nalloc st + 1\<rparr>)
        }
    | HXTYPE_STRP \<Rightarrow>
        if optr opt = None then Some (cbi, st)
        else do { st \<leftarrow> upd_cell st (optr opt) (put_str (cb_data cbi)); Some (cbi, st) }
    | HXTYPE_STRDQ \<Rightarrow> assign_strdq mem opt cbi st
    | HXTYPE_MCSTR \<Rightarrow>
        if optr opt = None then Some (cbi, st)
        else do {
          st \<leftarrow> upd_cell st (optr opt) (\<lambda>c. case c of
              CMc m \<Rightarrow> map_option (\<lambda>r. CMc (snd r)) (HXmc_strcpy (mem (nalloc st)) m (cb_data cbi)) | _ \<Rightarrow> None);
          Some (cbi, st\<lparr>nalloc := nalloc st + 1\<rparr>)
        }
    | HXTYPE_XHELP \<Rightarrow> Some (cbi\<lparr>cb_data := arg0\<rparr>, st)
    | HXTYPE_XSNTMARK \<Rightarrow> Some (cbi, st)
    | t \<Rightarrow> (case ntype t of Some (n, sg) \<Rightarrow> NTYPE opt n sg cbi st | None \<Rightarrow> Some (cbi, st)))"

definition do_assign :: "'f fpops \<Rightarrow> (nat \<Rightarrow> mem) \<Rightarrow> 'f callback HXoption \<Rightarrow> char list option \<Rightarrow> 'f HXoptcb \<Rightarrow> 'f opt_state \<Rightarrow>
    ('f HXoptcb \<times> 'f opt_state) option" where
  "do_assign fp mem opt arg0 cbi st = do {
     (cbi, st) \<leftarrow> assign_type fp mem opt arg0 cbi st;
     Some (cbi, case ocb opt of None \<Rightarrow> st | Some f \<Rightarrow> f cbi st)
   }"

section \<open>Properties\<close>

definition cell_size :: "'f cell \<Rightarrow> nat option" where
  "cell_size c = (case c of C8 _ \<Rightarrow> Some 1 | C16 _ \<Rightarrow> Some 2 | C32 _ \<Rightarrow> Some 4 | C64 _ \<Rightarrow> Some 8 | _ \<Rightarrow> None)"

definition cell_bit :: "'f cell \<Rightarrow> nat \<Rightarrow> bool" where
  "cell_bit c i = (case c of C8 p \<Rightarrow> bit p i | C16 p \<Rightarrow> bit p i | C32 p \<Rightarrow> bit p i | C64 p \<Rightarrow> bit p i | _ \<Rightarrow> False)"

definition lop_bit :: "u32 \<Rightarrow> bool \<Rightarrow> bool \<Rightarrow> bool" where
  "lop_bit fl p v =
     (let m = fl AND HXOPT_LOPMASK2 in
      if m = 0 then v else if m = HXOPT_OR then p \<or> v else if m = HXOPT_AND then p \<and> v
      else if m = HXOPT_XOR then p \<noteq> v else p)"

lemma opt_lop_bit: "i < LENGTH('w) \<Longrightarrow> bit (opt_lop fl p (v :: 'w :: len word)) i = lop_bit fl (bit p i) (bit v i)"
  by (simp add: opt_lop_def lop_bit_def Let_def bit_or_iff bit_and_iff bit_xor_iff)

lemma opt_neg_bit: "i < LENGTH('w) \<Longrightarrow> bit (opt_neg fl (v :: 'w :: len word)) i \<longleftrightarrow> (bit v i \<noteq> (fl AND HXOPT_NOT \<noteq> 0))"
  by (auto simp: opt_neg_def bit_not_iff)

lemma cell_op_bits:
  assumes "cell_size c = Some n"
  shows "\<exists>c'. cell_op n fl v c = Some c' \<and> cell_size c' = Some n \<and> (\<forall>i < 8 * n. cell_bit c' i = lop_bit fl (cell_bit c i) (bit v i))"
  using assms by (cases c) (auto simp: cell_size_def cell_op_def cell_bit_def opt_lop_bit bit_ucast_iff)

lemma ntype_sizes: "ntype t = Some (n, sg) \<Longrightarrow> n \<le> 8"
  by (cases t) (auto simp: ntype_def)

text \<open>C17: What an integer option does to its variable, bit by bit, for all nineteen integer types. The printed
  number \<open>k\<close>, with or without a sign, is read with saturation at 64 bits, cut off silently to the width of the
  variable, inverted if the table says so, and combined with the old value by the logical operation of the
  table; nothing else in memory changes. Without flags a number that the type can hold is stored exactly.\<close>

theorem do_assign_integer:
  assumes t: "ntype (otype opt) = Some (n, sg)" and p: "optr opt = Some a" "cells st a = Some c" "cell_size c = Some n"
    and s: "cb_data cbi = Some (sign neg @ udec k)" and cb: "ocb opt = None"
  shows "\<exists>cbi' c'. do_assign fp mem opt arg0 cbi st = Some (cbi', st\<lparr>cells := (cells st)(a \<mapsto> c')\<rparr>) \<and>
    cell_size c' = Some n \<and> {i. i < 8 * n \<and>
      cell_bit c' i \<noteq> lop_bit (oflags opt) (cell_bit c i) (bit (saturate sg neg k) i \<noteq> (oflags opt AND HXOPT_NOT \<noteq> 0))} = {}"
proof -
  have at: "assign_type fp mem opt arg0 cbi st = NTYPE opt n sg cbi st"
    using t by (cases "otype opt") (auto simp: assign_type_def ntype_def)
  define v where "v = opt_neg (oflags opt) (fst (if sg then strtol0 (sign neg @ udec k) else strtoul0 (sign neg @ udec k)))"
  have v: "bit v i \<longleftrightarrow> (bit (saturate sg neg k) i \<noteq> (oflags opt AND HXOPT_NOT \<noteq> 0))" if "i < 64" for i
    using that by (cases sg) (simp_all add: v_def strto_udec opt_neg_bit bit_word_of_int_iff)
  obtain c' where c': "cell_op n (oflags opt) v c = Some c'" "cell_size c' = Some n"
    "\<forall>i < 8 * n. cell_bit c' i = lop_bit (oflags opt) (cell_bit c i) (bit v i)"
    using cell_op_bits [OF p(3)] by blast
  have "do_assign fp mem opt arg0 cbi st = Some (cbi\<lparr>cb_value := Long (as_type n sg v)\<rparr>, st\<lparr>cells := (cells st)(a \<mapsto> c')\<rparr>)"
    using p(1,2) s cb c'(1) by (simp add: do_assign_def at NTYPE_def upd_cell_def v_def [symmetric] Let_def)
  moreover have "cell_bit c' i = lop_bit (oflags opt) (cell_bit c i) (bit (saturate sg neg k) i \<noteq> (oflags opt AND HXOPT_NOT \<noteq> 0))"
    if "i < 8 * n" for i
    using that c'(3) v [of i] ntype_sizes [OF t] by simp
  ultimately show ?thesis using c'(2) by blast
qed

definition level_opt :: "nat callback HXoption" where
  "level_opt = \<lparr>ln = Some ''level'', sh = CHR ''l'', otype = HXTYPE_UINT8, oflags = HXOPT_OR, optr = Some 1, uptr = None,
     ocb = None, oval = 0, ohelp = None, htyp = None\<rparr>"

theorem do_assign_integer_witness:
  "\<exists>cbi' c'. do_assign whole_fp (\<lambda>_. None) level_opt None \<lparr>cb_data = Some (sign False @ udec 300), cb_value = Long 0, cb_flags = 1\<rparr>
      \<lparr>cells = [1 \<mapsto> C8 64], nalloc = 0\<rparr> = Some (cbi', \<lparr>cells = [1 \<mapsto> C8 64], nalloc = 0\<rparr>\<lparr>cells := [1 \<mapsto> C8 64](1 \<mapsto> c')\<rparr>) \<and>
    cell_size c' = Some 1 \<and> {i. i < 8 * 1 \<and>
      cell_bit c' i \<noteq> lop_bit HXOPT_OR (cell_bit (C8 64 :: nat cell) i) (bit (saturate False False 300) i \<noteq> (HXOPT_OR AND HXOPT_NOT \<noteq> 0))} = {}"
  using do_assign_integer [of level_opt 1 False 1 "\<lparr>cells = [1 \<mapsto> C8 64], nalloc = 0\<rparr>" "C8 64"
      "\<lparr>cb_data = Some (sign False @ udec 300), cb_value = Long 0, cb_flags = 1\<rparr>" False 300 whole_fp "\<lambda>_. None" None]
  by (simp add: level_opt_def ntype_def cell_size_def)

end
