(* ===== verification/HX_Getopt.thy ===== *)
theory HX_Getopt
  imports HX_Assign
begin

text \<open>
  The option parser of \<^verbatim>\<open>src/opt.c\<close>: the handlers of its five states, the loop of \<open>HX_getopt6\<close>, and what it
  returns.

  A handler returns the next state, whether to assign (\<^verbatim>\<open>HXOPT_I_ASSIGN\<close>) and how to advance
  (\<^verbatim>\<open>HXOPT_I_ADVARG\<close>, \<^verbatim>\<open>HXOPT_I_ADVARG2\<close>, \<^verbatim>\<open>HXOPT_I_ADVCHAR\<close>), or an error; the code packs these into one word.
  \<^verbatim>\<open>opt\<close> and \<^verbatim>\<open>argc\<close> are the list of the words that are left, \<open>op0\<close> is what is left of the current one. The three
  deques are the lists of what they hold (a push appends, see the theorems on \<^verbatim>\<open>deque.c\<close>); the allocation of a node
  can fail. The argument strings of the program are never copied, so that they are compared by value.
  Messages go to \<open>v_stderr\<close>, except those of \<^verbatim>\<open>strerror\<close>.
\<close>

unbundle bit_operations_syntax

section \<open>Flags, states, results\<close>

definition HXOPT_QUIET :: u32 where "HXOPT_QUIET = 0x4"
definition HXOPT_HELPONERR :: u32 where "HXOPT_HELPONERR = 0x8"
definition HXOPT_USAGEONERR :: u32 where "HXOPT_USAGEONERR = 0x10"
definition HXOPT_RQ_ORDER :: u32 where "HXOPT_RQ_ORDER = 0x20"
definition HXOPT_ANY_ORDER :: u32 where "HXOPT_ANY_ORDER = 0x80"
definition HXOPT_ITER_OPTS :: u32 where "HXOPT_ITER_OPTS = 0x200"
definition HXOPT_ITER_ARGS :: u32 where "HXOPT_ITER_ARGS = 0x400"
definition HXOPT_DUP_ARGS :: u32 where "HXOPT_DUP_ARGS = 0x800"

lemmas getopt_flags = HXOPT_QUIET_def HXOPT_HELPONERR_def HXOPT_USAGEONERR_def HXOPT_RQ_ORDER_def HXOPT_ANY_ORDER_def
  HXOPT_ITER_OPTS_def HXOPT_ITER_ARGS_def HXOPT_DUP_ARGS_def

datatype HX_getopt_state = HXOPT_S_NORMAL | HXOPT_S_SHORT | HXOPT_S_TWOLONG | HXOPT_S_LONG | HXOPT_S_TERMINATED

datatype HX_getopt_err = HXOPT_E_LONG_UNKNOWN | HXOPT_E_LONG_TAKESVOID | HXOPT_E_LONG_MISSING | HXOPT_E_SHORT_UNKNOWN
  | HXOPT_E_SHORT_MISSING | HXOPT_E_AMBIG_PREFIX

text \<open>The return value: \<^verbatim>\<open>HXOPT_ERR_SUCCESS\<close>, one of the positive codes, or a negative error number.\<close>

datatype getopt_ret = HXOPT_ERR_SUCCESS | HXOPT_ERR_UNKN | HXOPT_ERR_VOID | HXOPT_ERR_MIS | HXOPT_ERR_AMBIG | Neg errno

datatype advance = ADV_NONE | ADVARG | ADVARG2 | ADVCHAR

datatype handler = Go HX_getopt_state bool advance | Error getopt_ret

record 'f getopt_vars =
  arg0 :: "char list option"
  desc :: "'f callback HXoption list"
  oarg :: "char list option list"
  uarg :: "char list list"
  v_current :: "'f callback HXoption option"
  v_cbi :: "'f HXoptcb"
  v_flags :: u32
  v_state :: "'f opt_state"
  v_stderr :: "char list"

section \<open>Handlers\<close>

definition HX_getopt_error :: "HX_getopt_err \<Rightarrow> char list \<Rightarrow> 'f getopt_vars \<Rightarrow> handler \<times> 'f getopt_vars" where
  "HX_getopt_error err key par =
     (let (txt, code) = (case err of
          HXOPT_E_LONG_UNKNOWN \<Rightarrow> (''Unknown option: '' @ key, HXOPT_ERR_UNKN)
        | HXOPT_E_LONG_TAKESVOID \<Rightarrow> (''Option '' @ key @ '' does not take any argument'', HXOPT_ERR_VOID)
        | HXOPT_E_LONG_MISSING \<Rightarrow> (''Option '' @ key @ '' requires an argument'', HXOPT_ERR_MIS)
        | HXOPT_E_SHORT_UNKNOWN \<Rightarrow> (''Unknown option: -'' @ take 1 key, HXOPT_ERR_UNKN)
        | HXOPT_E_SHORT_MISSING \<Rightarrow> (''Option -'' @ take 1 key @ '' requires an argument'', HXOPT_ERR_MIS)
        | HXOPT_E_AMBIG_PREFIX \<Rightarrow> (''Option '' @ key @ '' is ambiguous'', HXOPT_ERR_AMBIG))
      in (Error code, if v_flags par AND HXOPT_QUIET \<noteq> 0 then par else par\<lparr>v_stderr := v_stderr par @ txt @ [CHR 0x0A]\<rparr>))"

text \<open>A push to one of the parser's deques: the outcome of the next allocation.\<close>

definition push_ok :: "(nat \<Rightarrow> mem) \<Rightarrow> 'f getopt_vars \<Rightarrow> bool \<times> 'f getopt_vars" where
  "push_ok mem par =
     (let st = v_state par in (mem (nalloc st) \<noteq> None, par\<lparr>v_state := st\<lparr>nalloc := nalloc st + 1\<rparr>\<rparr>))"

definition do_assign_front ::
  "'f fpops \<Rightarrow> (nat \<Rightarrow> mem) \<Rightarrow> 'f callback HXoption \<Rightarrow> 'f getopt_vars \<Rightarrow> (errno option \<times> 'f getopt_vars) option" where
  "do_assign_front fp mem opt par =
     (let (ok, par) = push_ok mem par in
      if \<not> ok then Some (Some ENOMEM, par)
      else let par = par\<lparr>desc := desc par @ [opt]\<rparr>; (ok, par) = push_ok mem par in
      if \<not> ok then Some (Some ENOMEM, par)
      else do {
        let par = par\<lparr>oarg := oarg par @ [cb_data (v_cbi par)]\<rparr>;
        (cbi, st) \<leftarrow> do_assign fp mem opt (arg0 par) (v_cbi par) (v_state par);
        Some (None, par\<lparr>v_cbi := cbi, v_state := st\<rparr>)
      })"

definition set_cbi :: "'f callback HXoption \<Rightarrow> u32 \<Rightarrow> char list option \<Rightarrow> 'f getopt_vars \<Rightarrow> 'f getopt_vars" where
  "set_cbi opt fl data par = par\<lparr>v_current := Some opt, v_cbi := (v_cbi par)\<lparr>cb_flags := fl, cb_data := data\<rparr>\<rparr>"

text \<open>Whether the next word can be an optional argument: it is missing, or not an option.\<close>

definition opt_arg_follows :: "char list option \<Rightarrow> bool" where
  "opt_arg_follows v = (case v of None \<Rightarrow> True | Some w \<Rightarrow> at0 w \<noteq> CHR ''-'' \<or> w = ''-'')"

definition HX_getopt_twolong ::
  "'f callback HXoption list \<Rightarrow> char list \<Rightarrow> char list option \<Rightarrow> 'f getopt_vars \<Rightarrow> handler \<times> 'f getopt_vars" where
  "HX_getopt_twolong table key v par =
     (case lookup_long_pfx table (drop 2 key) of
        Pfx_ambig \<Rightarrow> HX_getopt_error HXOPT_E_AMBIG_PREFIX key (par\<lparr>v_current := None\<rparr>)
      | Pfx_none \<Rightarrow> HX_getopt_error HXOPT_E_LONG_UNKNOWN key (par\<lparr>v_current := None\<rparr>)
      | Pfx_opt opt \<Rightarrow>
          if takes_void (otype opt) then (Go HXOPT_S_NORMAL True ADVARG, set_cbi opt HXOPTCB_BY_LONG None par)
          else if opt_is opt HXOPT_OPTIONAL then
            (if opt_arg_follows v
             then (Go HXOPT_S_NORMAL True ADVARG2, set_cbi opt HXOPTCB_BY_LONG v par)
             else (Go HXOPT_S_NORMAL True ADVARG, set_cbi opt HXOPTCB_BY_LONG None par))
          else if v = None then HX_getopt_error HXOPT_E_LONG_MISSING key (par\<lparr>v_current := Some opt\<rparr>)
          else (Go HXOPT_S_NORMAL True ADVARG2, set_cbi opt HXOPTCB_BY_LONG v par))"

definition HX_getopt_long ::
  "'f fpops \<Rightarrow> (nat \<Rightarrow> mem) \<Rightarrow> 'f callback HXoption list \<Rightarrow> char list \<Rightarrow> 'f getopt_vars \<Rightarrow> (handler \<times> 'f getopt_vars) option" where
  "HX_getopt_long fp mem table cur par =
     (let (ok, par) = push_ok mem par in
      if \<not> ok then Some (Error (Neg ENOMEM), par)
      else (case strchr cur (CHR ''='') of
          None \<Rightarrow> Some (Error (Neg EINVAL), par)
        | Some i \<Rightarrow>
            (let key = take i cur; cvalue = drop (i + 1) cur in
             case lookup_long_pfx table (drop 2 key) of
               Pfx_ambig \<Rightarrow> Some (HX_getopt_error HXOPT_E_AMBIG_PREFIX key (par\<lparr>v_current := None\<rparr>))
             | Pfx_none \<Rightarrow> Some (HX_getopt_error HXOPT_E_LONG_UNKNOWN key (par\<lparr>v_current := None\<rparr>))
             | Pfx_opt opt \<Rightarrow>
                 if takes_void (otype opt) then Some (HX_getopt_error HXOPT_E_LONG_TAKESVOID key (par\<lparr>v_current := Some opt\<rparr>))
                 else do {
                   (err, par) \<leftarrow> do_assign_front fp mem opt (set_cbi opt HXOPTCB_BY_LONG (Some cvalue) par);
                   Some (case err of Some e \<Rightarrow> Error (Neg e) | None \<Rightarrow> Go HXOPT_S_NORMAL False ADVARG, par)
                 })))"

definition HX_getopt_short ::
  "'f callback HXoption list \<Rightarrow> char list \<Rightarrow> char list option \<Rightarrow> 'f getopt_vars \<Rightarrow> handler \<times> 'f getopt_vars" where
  "HX_getopt_short table key v par =
     (let op = at0 key in
      if op = NUL then (Go HXOPT_S_NORMAL False ADVARG, par)
      else case lookup_short table op of
          None \<Rightarrow> HX_getopt_error HXOPT_E_SHORT_UNKNOWN [op] (par\<lparr>v_current := None\<rparr>)
        | Some opt \<Rightarrow>
            if takes_void (otype opt) then (Go HXOPT_S_SHORT True ADVCHAR, set_cbi opt HXOPTCB_BY_SHORT None par)
            else if drop 1 key \<noteq> [] then (Go HXOPT_S_NORMAL True ADVARG, set_cbi opt HXOPTCB_BY_SHORT (Some (drop 1 key)) par)
            else if opt_is opt HXOPT_OPTIONAL then
              (if opt_arg_follows v
               then (Go HXOPT_S_NORMAL True ADVARG2, set_cbi opt HXOPTCB_BY_SHORT v par)
               else (Go HXOPT_S_NORMAL True ADVARG, set_cbi opt HXOPTCB_BY_SHORT None par))
            else if v = None then HX_getopt_error HXOPT_E_SHORT_MISSING [op] (par\<lparr>v_current := Some opt\<rparr>)
            else (Go HXOPT_S_NORMAL True ADVARG2, set_cbi opt HXOPTCB_BY_SHORT v par))"

definition HX_getopt_term :: "(nat \<Rightarrow> mem) \<Rightarrow> char list \<Rightarrow> 'f getopt_vars \<Rightarrow> handler \<times> 'f getopt_vars" where
  "HX_getopt_term mem cur par =
     (let (ok, par) = push_ok mem par in
      if \<not> ok then (Error (Neg ENOMEM), par)
      else (Go HXOPT_S_TERMINATED False ADVARG, par\<lparr>uarg := uarg par @ [cur]\<rparr>))"

text \<open>A failed push of a single dash goes unnoticed.\<close>

definition HX_getopt_normal :: "(nat \<Rightarrow> mem) \<Rightarrow> char list \<Rightarrow> 'f getopt_vars \<Rightarrow> handler \<times> 'f getopt_vars" where
  "HX_getopt_normal mem cur par =
     (if cur = ''-'' then
        (let (ok, par) = push_ok mem par in
         (Go HXOPT_S_NORMAL False ADVARG, if ok then par\<lparr>uarg := uarg par @ [cur]\<rparr> else par))
      else if cur = ''--'' then (Go HXOPT_S_TERMINATED False ADVARG, par)
      else if is_prefix ''--'' cur then
        (if strchr (drop 2 cur) (CHR ''='') = None then (Go HXOPT_S_TWOLONG False ADV_NONE, par)
         else (Go HXOPT_S_LONG False ADV_NONE, par))
      else if at0 cur = CHR ''-'' then (Go HXOPT_S_SHORT False ADVCHAR, par)
      else if v_flags par AND HXOPT_RQ_ORDER \<noteq> 0 then (Go HXOPT_S_TERMINATED False ADV_NONE, par)
      else let (ok, par) = push_ok mem par in
        if \<not> ok then (Error (Neg ENOMEM), par)
        else (Go HXOPT_S_NORMAL False ADVARG, par\<lparr>uarg := uarg par @ [cur]\<rparr>))"

section \<open>The loop\<close>

definition next_word :: "char list list \<Rightarrow> char list option" where
  "next_word ws = (case ws of _ # v # _ \<Rightarrow> Some v | _ \<Rightarrow> None)"

definition getopt_handler :: "'f fpops \<Rightarrow> (nat \<Rightarrow> mem) \<Rightarrow> 'f callback HXoption list \<Rightarrow> HX_getopt_state \<Rightarrow> char list list \<Rightarrow> char list \<Rightarrow>
    'f getopt_vars \<Rightarrow> (handler \<times> 'f getopt_vars) option" where
  "getopt_handler fp mem table state ws op0 par =
     (case state of
        HXOPT_S_TWOLONG \<Rightarrow> Some (HX_getopt_twolong table op0 (next_word ws) par)
      | HXOPT_S_LONG \<Rightarrow> HX_getopt_long fp mem table op0 par
      | HXOPT_S_SHORT \<Rightarrow> Some (HX_getopt_short table op0 (next_word ws) par)
      | HXOPT_S_TERMINATED \<Rightarrow> Some (HX_getopt_term mem op0 par)
      | HXOPT_S_NORMAL \<Rightarrow> Some (HX_getopt_normal mem op0 par))"

text \<open>The words that are left and the current one after a step.\<close>

definition advance_words :: "advance \<Rightarrow> char list list \<Rightarrow> char list \<Rightarrow> char list list \<times> char list" where
  "advance_words adv ws op0 =
     (case adv of
        ADV_NONE \<Rightarrow> (ws, op0)
      | ADVARG \<Rightarrow> (drop 1 ws, case drop 1 ws of [] \<Rightarrow> op0 | w # _ \<Rightarrow> w)
      | ADVARG2 \<Rightarrow> (drop 2 ws, case drop 2 ws of [] \<Rightarrow> op0 | w # _ \<Rightarrow> w)
      | ADVCHAR \<Rightarrow> (ws, drop 1 op0))"

datatype 'f step = Stop getopt_ret "'f getopt_vars" | Cont HX_getopt_state "char list list" "char list" "'f getopt_vars"

definition getopt_step :: "'f fpops \<Rightarrow> (nat \<Rightarrow> mem) \<Rightarrow> 'f callback HXoption list \<Rightarrow> HX_getopt_state \<Rightarrow> char list list \<Rightarrow> char list \<Rightarrow>
    'f getopt_vars \<Rightarrow> 'f step option" where
  "getopt_step fp mem table state ws op0 par = do {
     (h, par) \<leftarrow> getopt_handler fp mem table state ws op0 par;
     (case h of
        Error ret \<Rightarrow> Some (Stop ret par)
      | Go state assign adv \<Rightarrow> do {
          (err, par) \<leftarrow> (if assign then (case v_current par of None \<Rightarrow> None | Some opt \<Rightarrow> do_assign_front fp mem opt par)
            else Some (None, par));
          (case err of
             Some e \<Rightarrow> Some (Stop (Neg e) par)
           | None \<Rightarrow> (let (ws, op0) = advance_words adv ws op0 in Some (Cont state ws op0 par)))
        })
   }"

text \<open>Every round advances, or moves from the normal state to one that will.\<close>

definition getopt_left :: "HX_getopt_state \<Rightarrow> char list list \<Rightarrow> char list \<Rightarrow> (nat \<times> nat) \<times> nat" where
  "getopt_left state ws op0 = ((length ws, if state = HXOPT_S_NORMAL then 1 else 0), length op0)"

lemma error_not_Go [simp]: "HX_getopt_error e key par \<noteq> (Go st a adv, par')"
  by (cases e) (simp_all add: HX_getopt_error_def)

lemma handler_moves:
  assumes "getopt_handler fp mem table state ws op0 par = Some (Go st' a adv, par')"
  shows "adv = ADVARG \<or> adv = ADVARG2 \<or> (state = HXOPT_S_NORMAL \<and> st' \<noteq> HXOPT_S_NORMAL \<and> \<not> a) \<or>
    (state = HXOPT_S_SHORT \<and> st' = HXOPT_S_SHORT \<and> adv = ADVCHAR \<and> op0 \<noteq> [])"
proof (cases state)
  case HXOPT_S_NORMAL
  then show ?thesis using assms
    by (simp add: getopt_handler_def HX_getopt_normal_def push_ok_def Let_def split: if_splits)
next
  case HXOPT_S_SHORT
  then have h: "HX_getopt_short table op0 (next_word ws) par = (Go st' a adv, par')" using assms by (simp add: getopt_handler_def)
  show ?thesis
  proof (cases "at0 op0 = NUL")
    case True
    then show ?thesis using h by (simp add: HX_getopt_short_def)
  next
    case False
    then have "op0 \<noteq> []" by auto
    then show ?thesis using h False HXOPT_S_SHORT
      by (simp add: HX_getopt_short_def Let_def split: option.splits if_splits)
  qed
next
  case HXOPT_S_TWOLONG
  then show ?thesis using assms
    by (simp add: getopt_handler_def HX_getopt_twolong_def split: pfx_result.splits if_splits)
next
  case HXOPT_S_LONG
  then show ?thesis using assms
    by (auto simp: getopt_handler_def HX_getopt_long_def push_ok_def Let_def bind_eq_Some_conv split: pfx_result.splits option.splits if_splits)
next
  case HXOPT_S_TERMINATED
  then show ?thesis using assms
    by (simp add: getopt_handler_def HX_getopt_term_def push_ok_def Let_def split: if_splits)
qed

lemma step_less:
  assumes "getopt_step fp mem table state ws op0 par = Some (Cont state' ws' op0' par')" "ws \<noteq> []"
  shows "(getopt_left state' ws' op0', getopt_left state ws op0) \<in> (less_than <*lex*> less_than) <*lex*> less_than"
proof -
  obtain a adv p1 where h: "getopt_handler fp mem table state ws op0 par = Some (Go state' a adv, p1)"
    and w: "advance_words adv ws op0 = (ws', op0')"
  proof -
    obtain hd p1 where h: "getopt_handler fp mem table state ws op0 par = Some (hd, p1)"
      using assms(1) by (auto simp: getopt_step_def bind_eq_Some_conv)
    show thesis
    proof (cases hd)
      case (Error r)
      then show thesis using assms(1) by (simp add: getopt_step_def h)
    next
      case (Go st a adv)
      obtain err p2 where r: "(if a then case v_current p1 of None \<Rightarrow> None | Some opt \<Rightarrow> do_assign_front fp mem opt p1 else Some (None, p1)) = Some (err, p2)"
        using assms(1) Go by (auto simp: getopt_step_def h bind_eq_Some_conv)
      have e: "getopt_step fp mem table state ws op0 par = (case err of Some e \<Rightarrow> Some (Stop (Neg e) p2)
          | None \<Rightarrow> (let (ws, op0) = advance_words adv ws op0 in Some (Cont st ws op0 p2)))"
        by (simp add: getopt_step_def h Go r)
      obtain ws2 op2 where w: "advance_words adv ws op0 = (ws2, op2)" by fastforce
      show thesis using assms(1) that h Go w unfolding e by (cases err) auto
    qed
  qed
  obtain w ws1 where ws: "ws = w # ws1" using assms(2) by (cases ws) auto
  from handler_moves [OF h] w show ?thesis
    by (cases adv) (auto simp: advance_words_def getopt_left_def ws)
qed

function getopt_loop :: "'f fpops \<Rightarrow> (nat \<Rightarrow> mem) \<Rightarrow> 'f callback HXoption list \<Rightarrow> HX_getopt_state \<Rightarrow> char list list \<Rightarrow> char list \<Rightarrow>
    'f getopt_vars \<Rightarrow> (getopt_ret \<times> 'f getopt_vars) option" where
  "getopt_loop fp mem table state ws op0 par =
     (if ws = [] then Some (HXOPT_ERR_SUCCESS, par)
      else case getopt_step fp mem table state ws op0 par of
          None \<Rightarrow> None
        | Some (Stop ret par) \<Rightarrow> Some (ret, par)
        | Some (Cont state ws op0 par) \<Rightarrow> getopt_loop fp mem table state ws op0 par)"
  by pat_completeness auto
termination
  by (relation "inv_image ((less_than <*lex*> less_than) <*lex*> less_than)
        (\<lambda>(fp, mem, table, state, ws, op0, par). getopt_left state ws op0)")
    (auto intro: wf_inv_image simp: in_inv_image simp del: in_lex_prod dest: step_less)

declare getopt_loop.simps [simp del]

section \<open>HX_getopt6\<close>

text \<open>\<^verbatim>\<open>return res\<close> converts the low 32 bits of the number.\<close>

definition posix_me_harder :: "char list option \<Rightarrow> bool" where
  "posix_me_harder env =
     (case env of
        None \<Rightarrow> False
      | Some s \<Rightarrow> if s = [] then False
          else let (res, k) = strtol0 s in if k \<noteq> 0 then (ucast res :: u32) \<noteq> 0 else True)"

record 'f HXopt6_result =
  nopts :: nat
  nargs :: nat
  r_desc :: "'f callback HXoption list option"
  r_oarg :: "char list option list option"
  r_uarg :: "char list list option"
  dup_argc :: nat
  dup_argv :: "char list list option"

definition HX_getopt6_clean :: "'f HXopt6_result \<Rightarrow> 'f HXopt6_result" where
  "HX_getopt6_clean r = r\<lparr>r_desc := None, r_oarg := None, r_uarg := None, dup_argv := None\<rparr>"

definition result0 :: "'f HXopt6_result" where
  "result0 = \<lparr>nopts = 0, nargs = 0, r_desc = None, r_oarg = None, r_uarg = None, dup_argc = 0, dup_argv = None\<rparr>"

definition INT_MAX :: nat where "INT_MAX = 2 ^ 31 - 1"

definition clamp_int :: "nat \<Rightarrow> nat" where
  "clamp_int n = (if n < INT_MAX then n else INT_MAX)"

text \<open>\<^verbatim>\<open>HXdeque_to_vec\<close> of a list: one allocation. With copies of the strings, one more for each.\<close>

definition to_vec :: "(nat \<Rightarrow> mem) \<Rightarrow> 'a list \<Rightarrow> nat \<Rightarrow> 'a list option \<times> nat" where
  "to_vec mem xs k = (if mem k = None then None else Some xs, k + 1)"

definition to_vec_strdup :: "(nat \<Rightarrow> mem) \<Rightarrow> char list list \<Rightarrow> nat \<Rightarrow> char list list option \<times> nat" where
  "to_vec_strdup mem xs k =
     (let n = length (takeWhile (\<lambda>j. mem j \<noteq> None) [k..<k + 1 + length xs])
      in if n = 1 + length xs then (Some xs, k + n) else (None, k + n + 1))"

text \<open>The vectors that the caller asked for; \<open>False\<close> is the way out for want of memory.\<close>

definition fill_opts :: "(nat \<Rightarrow> mem) \<Rightarrow> 'f getopt_vars \<Rightarrow> nat \<Rightarrow> 'f HXopt6_result \<Rightarrow> bool \<times> 'f HXopt6_result \<times> nat" where
  "fill_opts mem par k r =
     (let (d, k) = to_vec mem (desc par) k; (a, k) = to_vec mem (oarg par) k; r = r\<lparr>r_desc := d, r_oarg := a\<rparr>
      in if d = None \<or> a = None then (False, r, k) else (True, r\<lparr>nopts := clamp_int (length (oarg par))\<rparr>, k))"

definition fill_args :: "(nat \<Rightarrow> mem) \<Rightarrow> 'f getopt_vars \<Rightarrow> nat \<Rightarrow> 'f HXopt6_result \<Rightarrow> bool \<times> 'f HXopt6_result \<times> nat" where
  "fill_args mem par k r =
     (let (u, k) = to_vec mem (uarg par) k; r = r\<lparr>r_uarg := u\<rparr>
      in if u = None then (False, r, k) else (True, r\<lparr>nargs := clamp_int (length (uarg par))\<rparr>, k))"

definition fill_dup :: "(nat \<Rightarrow> mem) \<Rightarrow> 'f getopt_vars \<Rightarrow> nat \<Rightarrow> 'f HXopt6_result \<Rightarrow> bool \<times> 'f HXopt6_result \<times> nat" where
  "fill_dup mem par k r =
     (case arg0 par of
        Some a0 \<Rightarrow>
          if mem k = None then (False, r, k + 1)
          else (let (v, k) = to_vec_strdup mem (a0 # uarg par) (k + 1); r = r\<lparr>dup_argv := v\<rparr>
                in if v = None then (False, r, k) else (True, r\<lparr>dup_argc := clamp_int (length (uarg par) + 1)\<rparr>, k))
      | None \<Rightarrow>
          (let (v, k) = to_vec_strdup mem (uarg par) k; r = r\<lparr>dup_argv := v\<rparr>
           in if v = None then (False, r, k) else (True, r\<lparr>dup_argc := clamp_int (length (uarg par))\<rparr>, k)))"

definition fill_result :: "(nat \<Rightarrow> mem) \<Rightarrow> u32 \<Rightarrow> 'f getopt_vars \<Rightarrow> nat \<Rightarrow> 'f HXopt6_result \<Rightarrow> bool \<times> 'f HXopt6_result \<times> nat" where
  "fill_result mem flags par k r =
     (let (ok, r, k) = (if flags AND HXOPT_ITER_OPTS \<noteq> 0 then fill_opts mem par k r else (True, r, k)) in
      if \<not> ok then (False, r, k)
      else let (ok, r, k) = (if flags AND HXOPT_ITER_ARGS \<noteq> 0 then fill_args mem par k r else (True, r, k)) in
      if \<not> ok then (False, r, k)
      else if flags AND HXOPT_DUP_ARGS \<noteq> 0 then fill_dup mem par k r else (True, r, k))"

definition init_vars :: "char list option \<Rightarrow> u32 \<Rightarrow> 'f opt_state \<Rightarrow> 'f getopt_vars" where
  "init_vars a0 flags st = \<lparr>arg0 = a0, desc = [], oarg = [], uarg = [], v_current = None,
     v_cbi = \<lparr>cb_data = None, cb_value = Long 0, cb_flags = 0\<rparr>, v_flags = flags, v_state = st, v_stderr = []\<rparr>"

text \<open>What is printed after an error in the arguments.\<close>

definition error_help :: "'f callback HXoption list \<Rightarrow> 'f getopt_vars \<Rightarrow> char list option" where
  "error_help table par =
     (if v_flags par AND HXOPT_HELPONERR \<noteq> 0 then HX_getopt_help table (arg0 par)
      else if v_flags par AND HXOPT_USAGEONERR \<noteq> 0 then HX_getopt_usage table (arg0 par)
      else Some [])"

text \<open>
  The arguments: the table, \<^verbatim>\<open>argc\<close> (negative: count the words) and the words of \<^verbatim>\<open>argv\<close>, whether a result is
  wanted, the flags, the value of \<^verbatim>\<open>POSIXLY_CORRECT\<close>, and the variables. The outcome: the return value,
  the result structure (\<open>None\<close> when there is none, or before it is set), the variables and what went to \<^verbatim>\<open>stderr\<close>.
\<close>

definition HX_getopt6 :: "'f fpops \<Rightarrow> (nat \<Rightarrow> mem) \<Rightarrow> 'f callback HXoption list \<Rightarrow> int \<Rightarrow> char list list \<Rightarrow> bool \<Rightarrow> u32 \<Rightarrow>
    char list option \<Rightarrow> 'f opt_state \<Rightarrow> (getopt_ret \<times> 'f HXopt6_result option \<times> 'f opt_state \<times> char list) option" where
  "HX_getopt6 fp mem table argc argv want flags env st =
     (if flags AND HXOPT_RQ_ORDER \<noteq> 0 \<and> flags AND HXOPT_ANY_ORDER \<noteq> 0 then Some (Neg EINVAL, None, st, [])
      else if \<not> want \<and> flags AND (HXOPT_ITER_OPTS OR HXOPT_ITER_ARGS OR HXOPT_DUP_ARGS) \<noteq> 0 then Some (Neg EINVAL, None, st, [])
      else let k = nalloc st; st = st\<lparr>nalloc := k + 3\<rparr> in
      if mem k = None \<or> mem (k + 1) = None \<or> mem (k + 2) = None
      then Some (Neg ENOMEM, if want then Some result0 else None, st, [])
      else let ws = (if argc < 0 then argv else take (nat argc) argv);
               a0 = (case ws of [] \<Rightarrow> None | w # _ \<Rightarrow> Some w);
               vfl = (if flags AND HXOPT_ANY_ORDER = 0 \<and> posix_me_harder env then flags OR HXOPT_RQ_ORDER else flags);
               ws = drop 1 ws
      in do {
        (ret, par) \<leftarrow> getopt_loop fp mem table HXOPT_S_NORMAL ws (case ws of [] \<Rightarrow> [] | w # _ \<Rightarrow> w) (init_vars a0 vfl st);
        (case ret of
           HXOPT_ERR_SUCCESS \<Rightarrow>
             (let (ok, r, k) = fill_result mem flags par (nalloc (v_state par)) result0; st = (v_state par)\<lparr>nalloc := k\<rparr>
              in if ok then Some (HXOPT_ERR_SUCCESS, if want then Some r else None, st, v_stderr par)
                 else Some (Neg ENOMEM, if want then Some (HX_getopt6_clean r) else None, st, v_stderr par))
         | Neg e \<Rightarrow> Some (Neg e, if want then Some (HX_getopt6_clean result0) else None, v_state par, v_stderr par)
         | _ \<Rightarrow> do {
             out \<leftarrow> error_help table par;
             Some (ret, if want then Some (HX_getopt6_clean result0) else None, v_state par, v_stderr par @ out)
           })
      })"

end
