(* ===== verification/HX_Optparse.thy ===== *)
theory HX_Optparse
  imports HX_Getopt "HOL-Library.Sublist"
begin

text \<open>
  What the option parser of \<^verbatim>\<open>HX_Getopt\<close> does with a command line. A command line is built from \<open>item\<close>s, in all the
  spellings the parser knows; \<open>item_words\<close> writes them down, \<open>run_item\<close> is their meaning. The theorems: the
  parser does to a written command line what its items mean, reports the first error, returns for every
  command line, and never invents or reorders an argument.
\<close>

section \<open>The loop, one word at a time\<close>

definition first_word :: "char list list \<Rightarrow> char list" where
  "first_word ws = (case ws of [] \<Rightarrow> [] | w # _ \<Rightarrow> w)"

lemma first_word_simps [simp]: "first_word [] = []" "first_word (w # ws) = w"
  by (simp_all add: first_word_def)

lemma loop_end [simp]: "getopt_loop fp mem table state [] op0 par = Some (HXOPT_ERR_SUCCESS, par)"
  by (subst getopt_loop.simps) simp

lemma loop_end_fun: "getopt_loop fp mem table state [] op0 = (\<lambda>par. Some (HXOPT_ERR_SUCCESS, par))"
  by (rule ext) simp

lemma loop_restart:
  "getopt_loop fp mem table state rest (case rest of [] \<Rightarrow> op0 | w # _ \<Rightarrow> w) par =
    getopt_loop fp mem table state rest (first_word rest) par"
  by (cases rest) simp_all

text \<open>One round, for a handler without and with an assignment.\<close>

lemma loop_go:
  assumes "getopt_handler fp mem table state (w # ws) op0 par = Some (Go state' False adv, par')"
  shows "getopt_loop fp mem table state (w # ws) op0 par =
    (case adv of
       ADV_NONE \<Rightarrow> getopt_loop fp mem table state' (w # ws) op0 par'
     | ADVARG \<Rightarrow> getopt_loop fp mem table state' ws (first_word ws) par'
     | ADVARG2 \<Rightarrow> getopt_loop fp mem table state' (drop 1 ws) (first_word (drop 1 ws)) par'
     | ADVCHAR \<Rightarrow> getopt_loop fp mem table state' (w # ws) (drop 1 op0) par')"
  using assms loop_restart [of fp mem table state' ws op0] loop_restart [of fp mem table state' "drop 1 ws" op0]
  by (subst getopt_loop.simps) (cases adv; simp add: getopt_step_def advance_words_def)

definition assign_next :: "'f fpops \<Rightarrow> (nat \<Rightarrow> mem) \<Rightarrow> 'f callback HXoption \<Rightarrow> u32 \<Rightarrow> char list option \<Rightarrow> 'f getopt_vars \<Rightarrow> 'f getopt_vars option" where
  "assign_next fp mem opt fl data par = do {
     (err, par) \<leftarrow> do_assign_front fp mem opt (set_cbi opt fl data par);
     if err = None then Some par else None
   }"

lemma no_err:
  assumes "\<forall>k. mem k \<noteq> None"
  shows "do_assign_front fp mem opt (set_cbi opt fl data par) = map_option (Pair None) (assign_next fp mem opt fl data par)"
proof -
  have "\<exists>y. mem k = Some y" for k using assms by auto
  then show ?thesis
    by (auto simp: assign_next_def do_assign_front_def push_ok_def Let_def split: Option.bind_split)
qed

lemma loop_assign:
  assumes m: "\<forall>k. mem k \<noteq> None"
    and h: "getopt_handler fp mem table state (w # ws) op0 par = Some (Go state' True adv, set_cbi opt fl data par)"
  shows "getopt_loop fp mem table state (w # ws) op0 par =
    do { par' \<leftarrow> assign_next fp mem opt fl data par;
      (case adv of
         ADV_NONE \<Rightarrow> getopt_loop fp mem table state' (w # ws) op0 par'
       | ADVARG \<Rightarrow> getopt_loop fp mem table state' ws (first_word ws) par'
       | ADVARG2 \<Rightarrow> getopt_loop fp mem table state' (drop 1 ws) (first_word (drop 1 ws)) par'
       | ADVCHAR \<Rightarrow> getopt_loop fp mem table state' (w # ws) (drop 1 op0) par') }"
proof -
  have c: "v_current (set_cbi opt fl data par) = Some opt" by (simp add: set_cbi_def)
  show ?thesis
    using h loop_restart [of fp mem table state' ws op0] loop_restart [of fp mem table state' "drop 1 ws" op0]
    by (subst getopt_loop.simps)
      (cases adv; cases "assign_next fp mem opt fl data par"; simp add: getopt_step_def c no_err [OF m] advance_words_def)
qed

section \<open>Command lines\<close>

datatype 'cb short_end = End_void | End_attached "'cb HXoption" "char list" | End_next "'cb HXoption" "char list" | End_bare "'cb HXoption"

datatype 'cb item =
    Word "char list"
  | Long_eq "char list" "'cb HXoption" "char list"
  | Long_next "char list" "'cb HXoption" "char list"
  | Long_bare "char list" "'cb HXoption"
  | Shorts "'cb HXoption list" "'cb short_end"

text \<open>A long option may be abbreviated: its spelling comes with the entry that it stands for.\<close>

fun end_words :: "'cb short_end \<Rightarrow> char list \<times> char list list" where
  "end_words End_void = ([], [])"
| "end_words (End_attached opt v) = (sh opt # v, [])"
| "end_words (End_next opt v) = ([sh opt], [v])"
| "end_words (End_bare opt) = ([sh opt], [])"

fun item_words :: "'cb item \<Rightarrow> char list list" where
  "item_words (Word w) = [w]"
| "item_words (Long_eq n opt v) = [''--'' @ n @ ''='' @ v]"
| "item_words (Long_next n opt v) = [''--'' @ n, v]"
| "item_words (Long_bare n opt) = [''--'' @ n]"
| "item_words (Shorts os e) = (CHR ''-'' # map sh os @ fst (end_words e)) # snd (end_words e)"

fun end_run :: "'f fpops \<Rightarrow> (nat \<Rightarrow> mem) \<Rightarrow> 'f callback short_end \<Rightarrow> 'f getopt_vars \<Rightarrow> 'f getopt_vars option" where
  "end_run fp mem End_void par = Some par"
| "end_run fp mem (End_attached opt v) par = assign_next fp mem opt HXOPTCB_BY_SHORT (Some v) par"
| "end_run fp mem (End_next opt v) par = assign_next fp mem opt HXOPTCB_BY_SHORT (Some v) par"
| "end_run fp mem (End_bare opt) par = assign_next fp mem opt HXOPTCB_BY_SHORT None par"

fun shorts_run :: "'f fpops \<Rightarrow> (nat \<Rightarrow> mem) \<Rightarrow> 'f callback HXoption list \<Rightarrow> 'f getopt_vars \<Rightarrow> 'f getopt_vars option" where
  "shorts_run fp mem [] par = Some par"
| "shorts_run fp mem (opt # os) par = do { par \<leftarrow> assign_next fp mem opt HXOPTCB_BY_SHORT None par; shorts_run fp mem os par }"

text \<open>One more allocation; one more word.\<close>

definition counted :: "'f getopt_vars \<Rightarrow> 'f getopt_vars" where
  "counted par = par\<lparr>v_state := (v_state par)\<lparr>nalloc := nalloc (v_state par) + 1\<rparr>\<rparr>"

definition push_word :: "char list \<Rightarrow> 'f getopt_vars \<Rightarrow> 'f getopt_vars" where
  "push_word w par = (counted par)\<lparr>uarg := uarg par @ [w]\<rparr>"

fun run_item :: "'f fpops \<Rightarrow> (nat \<Rightarrow> mem) \<Rightarrow> 'f callback item \<Rightarrow> 'f getopt_vars \<Rightarrow> 'f getopt_vars option" where
  "run_item fp mem (Word w) par = Some (push_word w par)"
| "run_item fp mem (Long_eq n opt v) par = assign_next fp mem opt HXOPTCB_BY_LONG (Some v) (counted par)"
| "run_item fp mem (Long_next n opt v) par = assign_next fp mem opt HXOPTCB_BY_LONG (Some v) par"
| "run_item fp mem (Long_bare n opt) par = assign_next fp mem opt HXOPTCB_BY_LONG None par"
| "run_item fp mem (Shorts os e) par = do { par \<leftarrow> shorts_run fp mem os par; end_run fp mem e par }"

fun run_items :: "'f fpops \<Rightarrow> (nat \<Rightarrow> mem) \<Rightarrow> 'f callback item list \<Rightarrow> 'f getopt_vars \<Rightarrow> 'f getopt_vars option" where
  "run_items fp mem [] par = Some par"
| "run_items fp mem (it # its) par = do { par \<leftarrow> run_item fp mem it par; run_items fp mem its par }"

text \<open>Which spellings are allowed. An optional argument that is left out needs a following word that looks like an
  option, or none at all.\<close>

definition long_ok :: "'cb HXoption list \<Rightarrow> char list \<Rightarrow> 'cb HXoption \<Rightarrow> bool" where
  "long_ok table n opt \<longleftrightarrow> n \<noteq> [] \<and> CHR ''='' \<notin> set n \<and> lookup_long_pfx table n = Pfx_opt opt"

definition short_ok :: "'cb HXoption list \<Rightarrow> 'cb HXoption \<Rightarrow> bool" where
  "short_ok table opt \<longleftrightarrow> sh opt \<noteq> NUL \<and> lookup_short table (sh opt) = Some opt"

definition takes_next :: "'cb HXoption \<Rightarrow> char list \<Rightarrow> bool" where
  "takes_next opt v \<longleftrightarrow> \<not> takes_void (otype opt) \<and> (opt_is opt HXOPT_OPTIONAL \<longrightarrow> opt_arg_follows (Some v))"

definition left_out :: "'cb HXoption \<Rightarrow> char list list \<Rightarrow> bool" where
  "left_out opt rest \<longleftrightarrow> \<not> takes_void (otype opt) \<and> opt_is opt HXOPT_OPTIONAL \<and> (rest = [] \<or> \<not> opt_arg_follows (Some (hd rest)))"

fun end_ok :: "'cb HXoption list \<Rightarrow> 'cb short_end \<Rightarrow> char list list \<Rightarrow> bool" where
  "end_ok table End_void rest = True"
| "end_ok table (End_attached opt v) rest = (short_ok table opt \<and> \<not> takes_void (otype opt) \<and> v \<noteq> [])"
| "end_ok table (End_next opt v) rest = (short_ok table opt \<and> takes_next opt v)"
| "end_ok table (End_bare opt) rest = (short_ok table opt \<and> left_out opt rest)"

fun item_ok :: "'cb HXoption list \<Rightarrow> bool \<Rightarrow> 'cb item \<Rightarrow> char list list \<Rightarrow> bool" where
  "item_ok table rq (Word w) rest = (w = ''-'' \<or> at0 w \<noteq> CHR ''-'' \<and> \<not> rq)"
| "item_ok table rq (Long_eq n opt v) rest = (long_ok table n opt \<and> \<not> takes_void (otype opt))"
| "item_ok table rq (Long_next n opt v) rest = (long_ok table n opt \<and> takes_next opt v)"
| "item_ok table rq (Long_bare n opt) rest = (long_ok table n opt \<and> (takes_void (otype opt) \<or> left_out opt rest))"
| "item_ok table rq (Shorts os e) rest =
     (list_all (\<lambda>opt. short_ok table opt \<and> takes_void (otype opt)) os \<and> end_ok table e rest \<and>
      (let w = map sh os @ fst (end_words e) in w \<noteq> [] \<and> at0 w \<noteq> CHR ''-''))"

fun items_ok :: "'cb HXoption list \<Rightarrow> bool \<Rightarrow> 'cb item list \<Rightarrow> char list list \<Rightarrow> bool" where
  "items_ok table rq [] rest = True"
| "items_ok table rq (it # its) rest =
     (item_ok table rq it (concat (map item_words its) @ rest) \<and> items_ok table rq its rest)"

section \<open>Parsing what was written\<close>

lemma strchr_None: "c \<noteq> NUL \<Longrightarrow> strchr s c = None \<longleftrightarrow> c \<notin> set s"
proof -
  assume "c \<noteq> NUL"
  moreover have "length (takeWhile (\<lambda>d. d \<noteq> c) s) < length s \<longleftrightarrow> c \<in> set s" by (induction s) auto
  ultimately show ?thesis by (simp add: strchr_def Let_def)
qed

lemma strchr_append: "c \<notin> set s \<Longrightarrow> strchr (s @ c # t) c = Some (length s)"
proof -
  assume "c \<notin> set s"
  then have "takeWhile (\<lambda>d. d \<noteq> c) (s @ c # t) = s" by (intro takeWhile_append_stop) auto
  then show ?thesis by (simp add: strchr_def)
qed

lemma handler_normal_long:
  assumes "n \<noteq> []"
  shows "getopt_handler fp mem table HXOPT_S_NORMAL (w # ws) (''--'' @ n) par =
    Some (Go (if CHR ''='' \<in> set n then HXOPT_S_LONG else HXOPT_S_TWOLONG) False ADV_NONE, par)"
  using assms strchr_None [of "CHR ''=''" n] by (simp add: getopt_handler_def HX_getopt_normal_def)

lemma handler_normal_short:
  assumes "w \<noteq> []" "at0 w \<noteq> CHR ''-''"
  shows "getopt_handler fp mem table HXOPT_S_NORMAL (v # ws) (CHR ''-'' # w) par = Some (Go HXOPT_S_SHORT False ADVCHAR, par)"
  using assms by (cases w) (auto simp: getopt_handler_def HX_getopt_normal_def)


lemma mem_push: "\<forall>k. mem k \<noteq> None \<Longrightarrow> push_ok mem par = (True, counted par)"
  by (simp add: push_ok_def counted_def Let_def)

lemma parse_word:
  assumes "\<forall>k. mem k \<noteq> None" "w = ''-'' \<or> at0 w \<noteq> CHR ''-'' \<and> v_flags par AND HXOPT_RQ_ORDER = 0"
  shows "getopt_loop fp mem table HXOPT_S_NORMAL (w # rest) w par =
    getopt_loop fp mem table HXOPT_S_NORMAL rest (first_word rest) (push_word w par)"
proof -
  have v: "v_flags (counted par) = v_flags par" "uarg (counted par) = uarg par"
    by (simp_all add: counted_def)
  have "HX_getopt_normal mem w par = (Go HXOPT_S_NORMAL False ADVARG, push_word w par)"
  proof (cases "w = ''-''")
    case True
    show ?thesis unfolding HX_getopt_normal_def True mem_push [OF assms(1)] by (simp add: push_word_def v)
  next
    case False
    then have d: "at0 w \<noteq> CHR ''-''" "(v_flags par AND HXOPT_RQ_ORDER \<noteq> 0) = False" using assms(2) by auto
    then have e: "(w = ''-'') = False" "(w = ''--'') = False" "is_prefix ''--'' w = False" "(at0 w = CHR ''-'') = False"
      by (cases w; simp)+
    show ?thesis unfolding HX_getopt_normal_def e mem_push [OF assms(1)] using d(2) by (simp add: push_word_def v)
  qed
  then have "getopt_handler fp mem table HXOPT_S_NORMAL (w # rest) w par = Some (Go HXOPT_S_NORMAL False ADVARG, push_word w par)"
    by (simp add: getopt_handler_def)
  from loop_go [OF this] show ?thesis by simp
qed

lemma parse_long_eq:
  assumes m: "\<forall>k. mem k \<noteq> None" and o: "long_ok table n opt" "\<not> takes_void (otype opt)"
  shows "getopt_loop fp mem table HXOPT_S_NORMAL ((''--'' @ n @ ''='' @ v) # rest) (''--'' @ n @ ''='' @ v) par =
    do { par \<leftarrow> run_item fp mem (Long_eq n opt v) par; getopt_loop fp mem table HXOPT_S_NORMAL rest (first_word rest) par }"
proof -
  let ?w = "''--'' @ n @ ''='' @ v"
  have n: "n \<noteq> []" "CHR ''='' \<notin> set n" "lookup_long_pfx table n = Pfx_opt opt" using o(1) by (auto simp: long_ok_def)
  have s: "strchr ?w (CHR ''='') = Some (2 + length n)" using strchr_append [of "CHR ''=''" "''--'' @ n" v] n(2) by simp
  have "getopt_loop fp mem table HXOPT_S_NORMAL (?w # rest) ?w par = getopt_loop fp mem table HXOPT_S_LONG (?w # rest) ?w par"
    using loop_go [OF handler_normal_long, of "n @ ''='' @ v" fp mem table ?w rest par] n(1) by simp
  also have "\<dots> = do { par \<leftarrow> run_item fp mem (Long_eq n opt v) par; getopt_loop fp mem table HXOPT_S_NORMAL rest (first_word rest) par }"
  proof (cases "assign_next fp mem opt HXOPTCB_BY_LONG (Some v) (counted par)")
    case None
    then have "getopt_handler fp mem table HXOPT_S_LONG (?w # rest) ?w par = None"
      using s n(3) o(2) by (simp add: getopt_handler_def HX_getopt_long_def mem_push [OF m] no_err [OF m])
    then show ?thesis using None by (subst getopt_loop.simps) (simp add: getopt_step_def)
  next
    case (Some p)
    then have "getopt_handler fp mem table HXOPT_S_LONG (?w # rest) ?w par = Some (Go HXOPT_S_NORMAL False ADVARG, p)"
      using s n(3) o(2) by (simp add: getopt_handler_def HX_getopt_long_def mem_push [OF m] no_err [OF m])
    from loop_go [OF this] show ?thesis using Some by simp
  qed
  finally show ?thesis .
qed

lemma parse_twolong:
  assumes m: "\<forall>k. mem k \<noteq> None" and o: "long_ok table n opt"
    and h: "HX_getopt_twolong table (''--'' @ n) (next_word ((''--'' @ n) # rest)) par =
      (Go HXOPT_S_NORMAL True adv, set_cbi opt HXOPTCB_BY_LONG d par)" "adv = ADVARG \<or> adv = ADVARG2"
  shows "getopt_loop fp mem table HXOPT_S_NORMAL ((''--'' @ n) # rest) (''--'' @ n) par =
    do { par \<leftarrow> assign_next fp mem opt HXOPTCB_BY_LONG d par;
         getopt_loop fp mem table HXOPT_S_NORMAL (if adv = ADVARG then rest else drop 1 rest)
           (first_word (if adv = ADVARG then rest else drop 1 rest)) par }"
proof -
  let ?w = "''--'' @ n"
  have n: "n \<noteq> []" "CHR ''='' \<notin> set n" using o(1) by (auto simp: long_ok_def)
  have "getopt_loop fp mem table HXOPT_S_NORMAL (?w # rest) ?w par = getopt_loop fp mem table HXOPT_S_TWOLONG (?w # rest) ?w par"
    using loop_go [OF handler_normal_long, of n fp mem table ?w rest par] n by simp
  moreover have "getopt_handler fp mem table HXOPT_S_TWOLONG (?w # rest) ?w par =
      Some (Go HXOPT_S_NORMAL True adv, set_cbi opt HXOPTCB_BY_LONG d par)" using h(1) by (simp add: getopt_handler_def)
  ultimately show ?thesis using loop_assign [OF m, of fp table HXOPT_S_TWOLONG ?w rest ?w par] h(2) by auto
qed

lemma parse_long:
  assumes m: "\<forall>k. mem k \<noteq> None"
  shows "long_ok table n opt \<Longrightarrow> takes_next opt v \<Longrightarrow>
    getopt_loop fp mem table HXOPT_S_NORMAL ((''--'' @ n) # v # rest) (''--'' @ n) par =
    do { par \<leftarrow> run_item fp mem (Long_next n opt v) par; getopt_loop fp mem table HXOPT_S_NORMAL rest (first_word rest) par }"
  and "long_ok table n opt \<Longrightarrow> takes_void (otype opt) \<or> left_out opt rest \<Longrightarrow>
    getopt_loop fp mem table HXOPT_S_NORMAL ((''--'' @ n) # rest) (''--'' @ n) par =
    do { par \<leftarrow> run_item fp mem (Long_bare n opt) par; getopt_loop fp mem table HXOPT_S_NORMAL rest (first_word rest) par }"
proof -
  assume o: "long_ok table n opt" and t: "takes_next opt v"
  show "getopt_loop fp mem table HXOPT_S_NORMAL ((''--'' @ n) # v # rest) (''--'' @ n) par =
    do { par \<leftarrow> run_item fp mem (Long_next n opt v) par; getopt_loop fp mem table HXOPT_S_NORMAL rest (first_word rest) par }"
    using parse_twolong [OF m o, of "v # rest" par ADVARG2 "Some v"] o t
    by (simp add: HX_getopt_twolong_def long_ok_def takes_next_def next_word_def)
next
  assume o: "long_ok table n opt" and t: "takes_void (otype opt) \<or> left_out opt rest"
  show "getopt_loop fp mem table HXOPT_S_NORMAL ((''--'' @ n) # rest) (''--'' @ n) par =
    do { par \<leftarrow> run_item fp mem (Long_bare n opt) par; getopt_loop fp mem table HXOPT_S_NORMAL rest (first_word rest) par }"
  proof (cases "takes_void (otype opt) \<or> rest \<noteq> []")
    case True
    then have "HX_getopt_twolong table (''--'' @ n) (next_word ((''--'' @ n) # rest)) par =
        (Go HXOPT_S_NORMAL True ADVARG, set_cbi opt HXOPTCB_BY_LONG None par)"
      using o t by (cases rest) (auto simp: HX_getopt_twolong_def long_ok_def left_out_def next_word_def)
    from parse_twolong [OF m o this] show ?thesis by simp
  next
    case False
    then have "HX_getopt_twolong table (''--'' @ n) (next_word ((''--'' @ n) # rest)) par =
        (Go HXOPT_S_NORMAL True ADVARG2, set_cbi opt HXOPTCB_BY_LONG None par)"
      using o t by (auto simp: HX_getopt_twolong_def long_ok_def left_out_def next_word_def opt_arg_follows_def)
    from parse_twolong [OF m o this] show ?thesis using False by (simp add: loop_end_fun)
  qed
qed

lemma parse_shorts:
  assumes "\<forall>k. mem k \<noteq> None" "list_all (\<lambda>opt. short_ok table opt \<and> takes_void (otype opt)) os"
  shows "getopt_loop fp mem table HXOPT_S_SHORT (w # ws) (map sh os @ t) par =
    do { par \<leftarrow> shorts_run fp mem os par; getopt_loop fp mem table HXOPT_S_SHORT (w # ws) t par }"
  using assms(2)
proof (induction os arbitrary: par)
  case (Cons opt os)
  have "getopt_handler fp mem table HXOPT_S_SHORT (w # ws) (map sh (opt # os) @ t) par =
      Some (Go HXOPT_S_SHORT True ADVCHAR, set_cbi opt HXOPTCB_BY_SHORT None par)"
    using Cons.prems by (simp add: getopt_handler_def HX_getopt_short_def short_ok_def)
  from loop_assign [OF assms(1) this] Cons show ?case by (simp cong: Option.bind_cong)
qed simp

lemma parse_end:
  assumes m: "\<forall>k. mem k \<noteq> None" and e: "end_ok table e rest"
  shows "getopt_loop fp mem table HXOPT_S_SHORT (w # snd (end_words e) @ rest) (fst (end_words e)) par =
    do { par \<leftarrow> end_run fp mem e par; getopt_loop fp mem table HXOPT_S_NORMAL rest (first_word rest) par }"
proof (cases e)
  case End_void
  have "getopt_handler fp mem table HXOPT_S_SHORT (w # rest) [] par = Some (Go HXOPT_S_NORMAL False ADVARG, par)"
    by (simp add: getopt_handler_def HX_getopt_short_def)
  from loop_go [OF this] End_void show ?thesis by simp
next
  case (End_attached opt v)
  then have "getopt_handler fp mem table HXOPT_S_SHORT (w # rest) (sh opt # v) par =
      Some (Go HXOPT_S_NORMAL True ADVARG, set_cbi opt HXOPTCB_BY_SHORT (Some v) par)"
    using e by (simp add: getopt_handler_def HX_getopt_short_def short_ok_def)
  from loop_assign [OF m this] End_attached show ?thesis by simp
next
  case (End_next opt v)
  then have "getopt_handler fp mem table HXOPT_S_SHORT (w # v # rest) [sh opt] par =
      Some (Go HXOPT_S_NORMAL True ADVARG2, set_cbi opt HXOPTCB_BY_SHORT (Some v) par)"
    using e by (simp add: getopt_handler_def HX_getopt_short_def short_ok_def takes_next_def next_word_def)
  from loop_assign [OF m this] End_next show ?thesis by simp
next
  case (End_bare opt)
  then have o: "short_ok table opt" "left_out opt rest" using e by simp_all
  show ?thesis
  proof (cases rest)
    case Nil
    then have "getopt_handler fp mem table HXOPT_S_SHORT (w # rest) [sh opt] par =
        Some (Go HXOPT_S_NORMAL True ADVARG2, set_cbi opt HXOPTCB_BY_SHORT None par)"
      using o by (simp add: getopt_handler_def HX_getopt_short_def short_ok_def left_out_def next_word_def opt_arg_follows_def)
    from loop_assign [OF m this] End_bare Nil show ?thesis by (simp add: loop_end_fun)
  next
    case (Cons v r)
    then have "getopt_handler fp mem table HXOPT_S_SHORT (w # rest) [sh opt] par =
        Some (Go HXOPT_S_NORMAL True ADVARG, set_cbi opt HXOPTCB_BY_SHORT None par)"
      using o by (simp add: getopt_handler_def HX_getopt_short_def short_ok_def left_out_def next_word_def)
    from loop_assign [OF m this] End_bare show ?thesis by simp
  qed
qed

lemma assign_next_flags: "assign_next fp mem opt fl d par = Some par' \<Longrightarrow> v_flags par' = v_flags par"
  by (auto simp: assign_next_def do_assign_front_def push_ok_def set_cbi_def Let_def bind_eq_Some_conv split: if_splits)

lemma run_item_flags: "run_item fp mem it par = Some par' \<Longrightarrow> v_flags par' = v_flags par"
proof -
  have s: "shorts_run fp mem os par = Some par' \<Longrightarrow> v_flags par' = v_flags par" for os and par par' :: "'a getopt_vars"
    by (induction os arbitrary: par) (auto simp: bind_eq_Some_conv dest: assign_next_flags)
  have e: "end_run fp mem e par = Some par' \<Longrightarrow> v_flags par' = v_flags par" for e and par par' :: "'a getopt_vars"
    by (cases e) (auto dest: assign_next_flags)
  assume "run_item fp mem it par = Some par'"
  then show ?thesis using s e
    by (cases it) (auto simp: push_word_def counted_def bind_eq_Some_conv dest!: assign_next_flags)
qed

lemma parse_item:
  assumes m: "\<forall>k. mem k \<noteq> None" and o: "item_ok table (v_flags par AND HXOPT_RQ_ORDER \<noteq> 0) it rest"
  shows "getopt_loop fp mem table HXOPT_S_NORMAL (item_words it @ rest) (first_word (item_words it @ rest)) par =
    do { par \<leftarrow> run_item fp mem it par; getopt_loop fp mem table HXOPT_S_NORMAL rest (first_word rest) par }"
proof (cases it)
  case (Word w)
  then have "w = ''-'' \<or> at0 w \<noteq> CHR ''-'' \<and> v_flags par AND HXOPT_RQ_ORDER = 0" using o by auto
  from parse_word [OF m this] Word show ?thesis by simp
next
  case (Long_eq n opt v)
  then show ?thesis using parse_long_eq [OF m, of table n opt fp v rest par] o by simp
next
  case (Long_next n opt v)
  then show ?thesis using parse_long(1) [OF m, of table n opt v fp rest par] o by simp
next
  case (Long_bare n opt)
  then show ?thesis using parse_long(2) [OF m, of table n opt rest fp par] o by simp
next
  case (Shorts os e)
  let ?t = "map sh os @ fst (end_words e)" and ?ws = "snd (end_words e) @ rest"
  have t: "?t \<noteq> []" "at0 ?t \<noteq> CHR ''-''" "end_ok table e rest" "list_all (\<lambda>opt. short_ok table opt \<and> takes_void (otype opt)) os"
    using o unfolding Shorts by (simp_all add: Let_def)
  have "getopt_loop fp mem table HXOPT_S_NORMAL ((CHR ''-'' # ?t) # ?ws) (CHR ''-'' # ?t) par =
      getopt_loop fp mem table HXOPT_S_SHORT ((CHR ''-'' # ?t) # ?ws) ?t par"
    using loop_go [OF handler_normal_short [OF t(1,2)], of fp mem table "CHR ''-'' # ?t" ?ws par] by simp
  also have "\<dots> = do { par \<leftarrow> run_item fp mem it par; getopt_loop fp mem table HXOPT_S_NORMAL rest (first_word rest) par }"
    unfolding parse_shorts [OF m t(4)] Shorts
    using parse_end [OF m t(3), of fp] by (cases "shorts_run fp mem os par") simp_all
  finally show ?thesis unfolding Shorts by simp
qed

lemma parse_items:
  assumes m: "\<forall>k. mem k \<noteq> None" and o: "items_ok table (v_flags par AND HXOPT_RQ_ORDER \<noteq> 0) its rest"
  shows "getopt_loop fp mem table HXOPT_S_NORMAL (concat (map item_words its) @ rest) (first_word (concat (map item_words its) @ rest)) par =
    do { par \<leftarrow> run_items fp mem its par; getopt_loop fp mem table HXOPT_S_NORMAL rest (first_word rest) par }"
  using o
proof (induction its arbitrary: par)
  case (Cons it its)
  let ?r = "concat (map item_words its) @ rest"
  have i: "item_ok table (v_flags par AND HXOPT_RQ_ORDER \<noteq> 0) it ?r" using Cons.prems by simp
  show ?case
  proof (cases "run_item fp mem it par")
    case None
    then show ?thesis using parse_item [OF m i, of fp] by simp
  next
    case (Some p)
    then show ?thesis using parse_item [OF m i, of fp] Cons.IH [of p] run_item_flags [OF Some] Cons.prems by simp
  qed
qed simp

section \<open>The arguments found\<close>

fun end_opts :: "'cb short_end \<Rightarrow> ('cb HXoption \<times> char list option) list" where
  "end_opts End_void = []"
| "end_opts (End_attached opt v) = [(opt, Some v)]"
| "end_opts (End_next opt v) = [(opt, Some v)]"
| "end_opts (End_bare opt) = [(opt, None)]"

fun item_opts :: "'cb item \<Rightarrow> ('cb HXoption \<times> char list option) list" where
  "item_opts (Word w) = []"
| "item_opts (Long_eq n opt v) = [(opt, Some v)]"
| "item_opts (Long_next n opt v) = [(opt, Some v)]"
| "item_opts (Long_bare n opt) = [(opt, None)]"
| "item_opts (Shorts os e) = map (\<lambda>opt. (opt, None)) os @ end_opts e"

fun item_args :: "'cb item \<Rightarrow> char list list" where
  "item_args (Word w) = [w]"
| "item_args it = []"

definition opts_of :: "'cb item list \<Rightarrow> ('cb HXoption \<times> char list option) list" where
  "opts_of its = concat (map item_opts its)"

definition args_of :: "'cb item list \<Rightarrow> char list list" where
  "args_of its = concat (map item_args its)"

text \<open>What a part of a run adds to the lists.\<close>

definition adds :: "'f getopt_vars \<Rightarrow> ('f callback HXoption \<times> char list option) list \<Rightarrow> char list list \<Rightarrow> 'f getopt_vars \<Rightarrow> bool" where
  "adds par os ws par' \<longleftrightarrow> desc par' = desc par @ map fst os \<and> oarg par' = oarg par @ map snd os \<and>
     uarg par' = uarg par @ ws \<and> arg0 par' = arg0 par \<and> v_flags par' = v_flags par \<and> v_stderr par' = v_stderr par"

lemma adds_refl: "adds par [] [] par"
  by (simp add: adds_def)

lemma adds_trans: "adds p1 os1 ws1 p2 \<Longrightarrow> adds p2 os2 ws2 p3 \<Longrightarrow> adds p1 (os1 @ os2) (ws1 @ ws2) p3"
  by (simp add: adds_def)

lemma assign_next_adds: "assign_next fp mem opt fl d par = Some par' \<Longrightarrow> adds par [(opt, d)] [] par'"
  by (auto simp: assign_next_def do_assign_front_def push_ok_def set_cbi_def adds_def Let_def bind_eq_Some_conv split: if_splits)

lemma shorts_run_adds: "shorts_run fp mem os par = Some par' \<Longrightarrow> adds par (map (\<lambda>opt. (opt, None)) os) [] par'"
proof (induction os arbitrary: par)
  case (Cons opt os)
  then obtain p where p: "assign_next fp mem opt HXOPTCB_BY_SHORT None par = Some p" "shorts_run fp mem os p = Some par'"
    by (auto simp: bind_eq_Some_conv)
  from adds_trans [OF assign_next_adds [OF p(1)] Cons.IH [OF p(2)]] show ?case by simp
qed (simp add: adds_refl)

lemma end_run_adds: "end_run fp mem e par = Some par' \<Longrightarrow> adds par (end_opts e) [] par'"
  by (cases e) (auto simp: adds_refl dest: assign_next_adds)

lemma run_item_adds: "run_item fp mem it par = Some par' \<Longrightarrow> adds par (item_opts it) (item_args it) par'"
proof (cases it)
  case (Word w)
  then show "run_item fp mem it par = Some par' \<Longrightarrow> ?thesis" by (auto simp: push_word_def counted_def adds_def)
next
  case (Long_eq n opt v)
  have "adds (counted par) os ws p \<Longrightarrow> adds par os ws p" for os ws p by (simp add: adds_def counted_def)
  then show "run_item fp mem it par = Some par' \<Longrightarrow> ?thesis" using Long_eq by (auto dest: assign_next_adds)
next
  case (Shorts os e)
  assume "run_item fp mem it par = Some par'"
  then obtain p where p: "shorts_run fp mem os par = Some p" "end_run fp mem e p = Some par'"
    using Shorts by (auto simp: bind_eq_Some_conv)
  from adds_trans [OF shorts_run_adds [OF p(1)] end_run_adds [OF p(2)]] show ?thesis using Shorts by simp
qed (auto dest: assign_next_adds)

lemma run_items_adds: "run_items fp mem its par = Some par' \<Longrightarrow> adds par (opts_of its) (args_of its) par'"
proof (induction its arbitrary: par)
  case (Cons it its)
  then obtain p where p: "run_item fp mem it par = Some p" "run_items fp mem its p = Some par'"
    by (auto simp: bind_eq_Some_conv)
  from adds_trans [OF run_item_adds [OF p(1)] Cons.IH [OF p(2)]] show ?case by (simp add: opts_of_def args_of_def)
qed (simp add: adds_refl opts_of_def args_of_def)

text \<open>The end of a command line: nothing, a double dash and anything, or -- when the first word that is not an option ends
  the options -- that word and anything.\<close>

datatype tail = Tail_none | Tail_dashes "char list list" | Tail_word "char list" "char list list"

fun tail_words :: "tail \<Rightarrow> char list list" where
  "tail_words Tail_none = []"
| "tail_words (Tail_dashes ws) = ''--'' # ws"
| "tail_words (Tail_word w ws) = w # ws"

fun tail_args :: "tail \<Rightarrow> char list list" where
  "tail_args Tail_none = []"
| "tail_args (Tail_dashes ws) = ws"
| "tail_args (Tail_word w ws) = w # ws"

fun tail_ok :: "bool \<Rightarrow> tail \<Rightarrow> bool" where
  "tail_ok rq (Tail_word w ws) = (rq \<and> at0 w \<noteq> CHR ''-'')"
| "tail_ok rq e = True"

lemma parse_term:
  assumes m: "\<forall>k. mem k \<noteq> None"
  shows "getopt_loop fp mem table HXOPT_S_TERMINATED ws (first_word ws) par = Some (HXOPT_ERR_SUCCESS, fold push_word ws par)"
proof (induction ws arbitrary: par)
  case (Cons w ws)
  have "getopt_handler fp mem table HXOPT_S_TERMINATED (w # ws) w par = Some (Go HXOPT_S_TERMINATED False ADVARG, push_word w par)"
    by (simp add: getopt_handler_def HX_getopt_term_def mem_push [OF m] push_word_def) (simp add: counted_def)
  from loop_go [OF this] Cons show ?case by simp
qed simp

lemma parse_tail:
  assumes m: "\<forall>k. mem k \<noteq> None" and t: "tail_ok (v_flags par AND HXOPT_RQ_ORDER \<noteq> 0) endw"
  shows "getopt_loop fp mem table HXOPT_S_NORMAL (tail_words endw) (first_word (tail_words endw)) par =
    Some (HXOPT_ERR_SUCCESS, fold push_word (tail_args endw) par)"
proof (cases endw)
  case (Tail_dashes ws)
  have "getopt_handler fp mem table HXOPT_S_NORMAL (''--'' # ws) ''--'' par = Some (Go HXOPT_S_TERMINATED False ADVARG, par)"
    by (simp add: getopt_handler_def HX_getopt_normal_def)
  from loop_go [OF this] parse_term [OF m] Tail_dashes show ?thesis by simp
next
  case (Tail_word w ws)
  then have d: "at0 w \<noteq> CHR ''-''" "(v_flags par AND HXOPT_RQ_ORDER \<noteq> 0) = True" using t by auto
  then have e: "(w = ''-'') = False" "(w = ''--'') = False" "is_prefix ''--'' w = False" "(at0 w = CHR ''-'') = False"
    by (cases w; simp)+
  have "getopt_handler fp mem table HXOPT_S_NORMAL (w # ws) w par = Some (Go HXOPT_S_TERMINATED False ADV_NONE, par)"
    unfolding getopt_handler_def HX_getopt_normal_def e d by simp
  from loop_go [OF this] parse_term [OF m, of fp table "w # ws" par] Tail_word show ?thesis by simp
qed simp

lemma push_words_adds: "adds par [] ws (fold push_word ws par)"
proof (induction ws arbitrary: par)
  case (Cons w ws)
  have "adds par [] [w] (push_word w par)" by (simp add: adds_def push_word_def counted_def)
  from adds_trans [OF this Cons] show ?case by simp
qed (simp add: adds_refl)

lemma push_words_cells: "cells (v_state (fold push_word ws par)) = cells (v_state par)"
  by (induction ws arbitrary: par) (simp_all add: push_word_def counted_def)

section \<open>HX_getopt6: properties\<close>

lemma to_vec_strdup_all:
  assumes "\<forall>k. mem k \<noteq> None"
  shows "to_vec_strdup mem xs k = (Some xs, k + (1 + length xs))"
proof -
  have "takeWhile (\<lambda>j. mem j \<noteq> None) [k..<k + 1 + length xs] = [k..<k + 1 + length xs]"
    unfolding takeWhile_eq_all_conv using assms by blast
  then show ?thesis by (simp only: to_vec_strdup_def Let_def length_upt) simp
qed

text \<open>The result structure, when memory does not run out.\<close>

definition result_of :: "u32 \<Rightarrow> 'f getopt_vars \<Rightarrow> 'f HXopt6_result \<Rightarrow> bool" where
  "result_of flags par r \<longleftrightarrow>
     r_desc r = (if flags AND HXOPT_ITER_OPTS \<noteq> 0 then Some (desc par) else None) \<and>
     r_oarg r = (if flags AND HXOPT_ITER_OPTS \<noteq> 0 then Some (oarg par) else None) \<and>
     r_uarg r = (if flags AND HXOPT_ITER_ARGS \<noteq> 0 then Some (uarg par) else None) \<and>
     dup_argv r = (if flags AND HXOPT_DUP_ARGS \<noteq> 0 then Some ((case arg0 par of None \<Rightarrow> [] | Some a \<Rightarrow> [a]) @ uarg par) else None) \<and>
     nopts r = (if flags AND HXOPT_ITER_OPTS \<noteq> 0 then clamp_int (length (oarg par)) else 0) \<and>
     nargs r = (if flags AND HXOPT_ITER_ARGS \<noteq> 0 then clamp_int (length (uarg par)) else 0) \<and>
     dup_argc r = (if flags AND HXOPT_DUP_ARGS \<noteq> 0 then clamp_int (length (case arg0 par of None \<Rightarrow> [] | Some a \<Rightarrow> [a]) + length (uarg par)) else 0)"

lemma fill_result_ok:
  assumes m: "\<forall>k. mem k \<noteq> None"
  shows "\<exists>r k'. fill_result mem flags par k result0 = (True, r, k') \<and> result_of flags par r"
proof -
  have "\<exists>y. mem k = Some y" for k using m by auto
  then show ?thesis
    by (cases "arg0 par"; cases "flags AND HXOPT_ITER_OPTS = 0"; cases "flags AND HXOPT_ITER_ARGS = 0"; cases "flags AND HXOPT_DUP_ARGS = 0")
      (simp_all add: fill_result_def fill_opts_def fill_args_def fill_dup_def to_vec_def to_vec_strdup_all [OF m] m result_of_def result0_def Let_def)
qed

definition eff_flags :: "u32 \<Rightarrow> char list option \<Rightarrow> u32" where
  "eff_flags flags env = (if flags AND HXOPT_ANY_ORDER = 0 \<and> posix_me_harder env then flags OR HXOPT_RQ_ORDER else flags)"

definition start_vars :: "char list \<Rightarrow> u32 \<Rightarrow> char list option \<Rightarrow> 'f opt_state \<Rightarrow> 'f getopt_vars" where
  "start_vars prog flags env st = init_vars (Some prog) (eff_flags flags env) (st\<lparr>nalloc := nalloc st + 3\<rparr>)"

lemma getopt6_loop:
  assumes "\<forall>k. mem k \<noteq> None" "flags AND HXOPT_RQ_ORDER = 0 \<or> flags AND HXOPT_ANY_ORDER = 0"
  shows "HX_getopt6 fp mem table (-1) (prog # ws) True flags env st = do {
    (ret, par) \<leftarrow> getopt_loop fp mem table HXOPT_S_NORMAL ws (first_word ws) (start_vars prog flags env st);
    (case ret of
           HXOPT_ERR_SUCCESS \<Rightarrow>
             (let (ok, r, k) = fill_result mem flags par (nalloc (v_state par)) result0; st = (v_state par)\<lparr>nalloc := k\<rparr>
              in if ok then Some (HXOPT_ERR_SUCCESS, Some r, st, v_stderr par)
                 else Some (Neg ENOMEM, Some (HX_getopt6_clean r), st, v_stderr par))
         | Neg e \<Rightarrow> Some (Neg e, Some (HX_getopt6_clean result0), v_state par, v_stderr par)
         | _ \<Rightarrow> do {
             out \<leftarrow> error_help table par;
             Some (ret, Some (HX_getopt6_clean result0), v_state par, v_stderr par @ out)
           }) }"
proof -
  have c: "(flags AND HXOPT_RQ_ORDER \<noteq> 0 \<and> flags AND HXOPT_ANY_ORDER \<noteq> 0) = False" using assms(2) by blast
  have m: "(mem k = None \<or> mem (k + 1) = None \<or> mem (k + 2) = None) = False" for k using assms(1) by blast
  show ?thesis
    unfolding HX_getopt6_def Let_def c m start_vars_def eff_flags_def first_word_def if_True
    by (simp add: if_distrib [of "\<lambda>x. init_vars a x s" for a s])
qed

text \<open>C2: The parser finds what was written. Take any command line made of words, long options with their argument behind an
  equals sign or in the next word, long options without one, clusters of short options of which the last may have an
  argument in the same or in the next word, abbreviations included, and at its end a double dash or -- in POSIX order --
  the first word that is not an option, followed by anything. If the assignments of the options, in the
  order of the items, run without a fault and memory does not run out, the parser succeeds; it has done exactly
  these assignments, and it returns exactly the options, their arguments and the other words, in order.\<close>

theorem HX_getopt6_parses:
  assumes m: "\<forall>k. mem k \<noteq> None" and f: "flags AND HXOPT_RQ_ORDER = 0 \<or> flags AND HXOPT_ANY_ORDER = 0"
    and o: "items_ok table (eff_flags flags env AND HXOPT_RQ_ORDER \<noteq> 0) its (tail_words endw)"
      "tail_ok (eff_flags flags env AND HXOPT_RQ_ORDER \<noteq> 0) endw"
    and run: "run_items fp mem its (start_vars prog flags env st) = Some par"
  shows "\<exists>r st'. HX_getopt6 fp mem table (-1) (prog # concat (map item_words its) @ tail_words endw) True flags env st =
      Some (HXOPT_ERR_SUCCESS, Some r, st', []) \<and>
    cells st' = cells (v_state par) \<and>
    r_desc r = (if flags AND HXOPT_ITER_OPTS \<noteq> 0 then Some (map fst (opts_of its)) else None) \<and>
    r_oarg r = (if flags AND HXOPT_ITER_OPTS \<noteq> 0 then Some (map snd (opts_of its)) else None) \<and>
    r_uarg r = (if flags AND HXOPT_ITER_ARGS \<noteq> 0 then Some (args_of its @ tail_args endw) else None) \<and>
    dup_argv r = (if flags AND HXOPT_DUP_ARGS \<noteq> 0 then Some (prog # args_of its @ tail_args endw) else None)"
proof -
  let ?start = "start_vars prog flags env st" and ?p = "fold push_word (tail_args endw) par"
  have p0: "v_flags ?start = eff_flags flags env" "desc ?start = []" "oarg ?start = []" "uarg ?start = []" "arg0 ?start = Some prog" "v_stderr ?start = []"
    by (simp_all add: start_vars_def init_vars_def)
  have fl: "v_flags par = eff_flags flags env" using run_items_adds [OF run] p0(1) by (simp add: adds_def)
  have "getopt_loop fp mem table HXOPT_S_NORMAL (concat (map item_words its) @ tail_words endw)
      (first_word (concat (map item_words its) @ tail_words endw)) ?start = Some (HXOPT_ERR_SUCCESS, ?p)"
    using parse_items [OF m, of table ?start its "tail_words endw" fp] parse_tail [OF m, of par endw fp table] o run p0(1) fl by simp
  moreover obtain r k' where r: "fill_result mem flags ?p (nalloc (v_state ?p)) result0 = (True, r, k') \<and> result_of flags ?p r"
    using fill_result_ok [OF m] by blast
  moreover have a: "adds ?start (opts_of its) (args_of its @ tail_args endw) ?p"
    using adds_trans [OF run_items_adds [OF run] push_words_adds [of par "tail_args endw"]] by simp
  ultimately show ?thesis
    using getopt6_loop [OF m f, of fp table prog "concat (map item_words its) @ tail_words endw" env st] p0 push_words_cells [of "tail_args endw" par]
    by (intro exI [of _ r] exI [of _ "(v_state ?p)\<lparr>nalloc := k'\<rparr>"]) (simp add: adds_def result_of_def)
qed

text \<open>A small table, for the witnesses: a flag that is counted and a string.\<close>

definition opt_v :: "nat callback HXoption" where
  "opt_v = \<lparr>ln = Some ''verbose'', sh = CHR ''v'', otype = HXTYPE_NONE, oflags = HXOPT_INC, optr = Some 1, uptr = None,
     ocb = None, oval = 0, ohelp = None, htyp = None\<rparr>"

definition opt_o :: "nat callback HXoption" where
  "opt_o = \<lparr>ln = Some ''output'', sh = CHR ''o'', otype = HXTYPE_STRP, oflags = 0, optr = Some 2, uptr = None,
     ocb = None, oval = 0, ohelp = None, htyp = None\<rparr>"

definition vo_state :: "nat opt_state" where
  "vo_state = \<lparr>cells = [1 \<mapsto> C32 0, 2 \<mapsto> CStr None], nalloc = 0\<rparr>"

definition vo_items :: "nat callback item list" where
  "vo_items = [Shorts [opt_v, opt_v] (End_next opt_o ''a''), Word ''x'', Long_eq ''outp'' opt_o ''b'', Long_bare ''verbose'' opt_v]"

lemma vo_lookups:
  "lookup_long_pfx [opt_v, opt_o] ''outp'' = Pfx_opt opt_o" "lookup_long_pfx [opt_v, opt_o] ''verbose'' = Pfx_opt opt_v"
  "short_ok [opt_v, opt_o] opt_v" "short_ok [opt_v, opt_o] opt_o"
  by (simp_all add: lookup_long_pfx_def opt_v_def opt_o_def short_ok_def)

lemma vo_ok: "items_ok [opt_v, opt_o] False vo_items (tail_words (Tail_dashes [''-y'']))"
  using vo_lookups by (simp add: vo_items_def long_ok_def takes_next_def takes_void_def)
    (simp add: opt_v_def opt_o_def opt_is_def)

lemma vo_run: "\<exists>par. run_items whole_fp (\<lambda>_. Some (\<lambda>_. NUL)) vo_items (start_vars ''prog'' 0x600 None vo_state) = Some par \<and>
    cells (v_state par) = [1 \<mapsto> C32 3, 2 \<mapsto> CStr (Some ''b'')]"
  by (simp add: vo_items_def assign_next_def do_assign_front_def push_ok_def set_cbi_def do_assign_def assign_type_def assign_none_def
      upd_cell_def put32_def put_str_def opt_is_def Let_def start_vars_def init_vars_def vo_state_def push_word_def counted_def
      opt_v_def opt_o_def HXOPT_INC_def) auto

theorem HX_getopt6_parses_witness:
  "\<exists>r st'. HX_getopt6 whole_fp (\<lambda>_. Some (\<lambda>_. NUL)) [opt_v, opt_o] (-1)
      (''prog'' # [''-vvo'', ''a'', ''x'', ''--outp=b'', ''--verbose''] @ [''--'', ''-y'']) True 0x600 None vo_state =
      Some (HXOPT_ERR_SUCCESS, Some r, st', []) \<and>
    cells st' = [1 \<mapsto> C32 3, 2 \<mapsto> CStr (Some ''b'')] \<and>
    r_desc r = Some [opt_v, opt_v, opt_o, opt_o, opt_v] \<and>
    r_oarg r = Some [None, None, Some ''a'', Some ''b'', None] \<and> r_uarg r = Some [''x'', ''-y''] \<and> dup_argv r = None"
proof -
  obtain par where par: "run_items whole_fp (\<lambda>_. Some (\<lambda>_. NUL)) vo_items (start_vars ''prog'' 0x600 None vo_state) = Some par"
    "cells (v_state par) = [1 \<mapsto> C32 3, 2 \<mapsto> CStr (Some ''b'')]" using vo_run by blast
  have f: "eff_flags 0x600 None AND HXOPT_RQ_ORDER = 0" "(0x600 :: u32) AND HXOPT_RQ_ORDER = 0" "(0x600 :: u32) AND HXOPT_ITER_OPTS \<noteq> 0"
    "(0x600 :: u32) AND HXOPT_ITER_ARGS \<noteq> 0" "(0x600 :: u32) AND HXOPT_DUP_ARGS = 0"
    by (simp_all add: eff_flags_def posix_me_harder_def getopt_flags)
  have w: "concat (map item_words vo_items) = [''-vvo'', ''a'', ''x'', ''--outp=b'', ''--verbose'']"
    "opts_of vo_items = [(opt_v, None), (opt_v, None), (opt_o, Some ''a''), (opt_o, Some ''b''), (opt_v, None)]" "args_of vo_items = [''x'']"
    by (simp_all add: vo_items_def opts_of_def args_of_def) (simp_all add: opt_v_def opt_o_def)
  show ?thesis
    using HX_getopt6_parses [of "\<lambda>_. Some (\<lambda>_. NUL)" "0x600" "[opt_v, opt_o]" None vo_items "Tail_dashes [''-y'']" whole_fp "''prog''" vo_state par]
      f vo_ok par by (simp add: w)
qed

section \<open>Errors\<close>

text \<open>Words that the parser refuses: with \<open>os\<close>, the flags in front of the bad one in its cluster.\<close>

inductive bad :: "'cb HXoption list \<Rightarrow> 'cb HXoption list \<Rightarrow> char list list \<Rightarrow> getopt_ret \<Rightarrow> bool" for table where
  long_unknown: "n \<noteq> [] \<Longrightarrow> CHR ''='' \<notin> set n \<Longrightarrow> lookup_long_pfx table n = Pfx_none \<Longrightarrow> bad table [] ((''--'' @ n) # rest) HXOPT_ERR_UNKN"
| long_ambig: "n \<noteq> [] \<Longrightarrow> CHR ''='' \<notin> set n \<Longrightarrow> lookup_long_pfx table n = Pfx_ambig \<Longrightarrow> bad table [] ((''--'' @ n) # rest) HXOPT_ERR_AMBIG"
| long_missing: "long_ok table n opt \<Longrightarrow> \<not> takes_void (otype opt) \<Longrightarrow> \<not> opt_is opt HXOPT_OPTIONAL \<Longrightarrow>
    bad table [] [''--'' @ n] HXOPT_ERR_MIS"
| longeq_unknown: "n \<noteq> [] \<Longrightarrow> CHR ''='' \<notin> set n \<Longrightarrow> lookup_long_pfx table n = Pfx_none \<Longrightarrow>
    bad table [] ((''--'' @ n @ ''='' @ v) # rest) HXOPT_ERR_UNKN"
| longeq_ambig: "n \<noteq> [] \<Longrightarrow> CHR ''='' \<notin> set n \<Longrightarrow> lookup_long_pfx table n = Pfx_ambig \<Longrightarrow>
    bad table [] ((''--'' @ n @ ''='' @ v) # rest) HXOPT_ERR_AMBIG"
| longeq_void: "long_ok table n opt \<Longrightarrow> takes_void (otype opt) \<Longrightarrow> bad table [] ((''--'' @ n @ ''='' @ v) # rest) HXOPT_ERR_VOID"
| short_unknown: "list_all (\<lambda>opt. short_ok table opt \<and> takes_void (otype opt)) os \<Longrightarrow> c \<noteq> NUL \<Longrightarrow> lookup_short table c = None \<Longrightarrow>
    at0 (map sh os @ c # t) \<noteq> CHR ''-'' \<Longrightarrow> bad table os ((CHR ''-'' # map sh os @ c # t) # rest) HXOPT_ERR_UNKN"
| short_missing: "list_all (\<lambda>opt. short_ok table opt \<and> takes_void (otype opt)) os \<Longrightarrow> short_ok table opt \<Longrightarrow> \<not> takes_void (otype opt) \<Longrightarrow>
    \<not> opt_is opt HXOPT_OPTIONAL \<Longrightarrow> at0 (map sh os @ [sh opt]) \<noteq> CHR ''-'' \<Longrightarrow>
    bad table os [CHR ''-'' # map sh os @ [sh opt]] HXOPT_ERR_MIS"

fun err_code :: "HX_getopt_err \<Rightarrow> getopt_ret" where
  "err_code HXOPT_E_LONG_UNKNOWN = HXOPT_ERR_UNKN"
| "err_code HXOPT_E_LONG_TAKESVOID = HXOPT_ERR_VOID"
| "err_code HXOPT_E_LONG_MISSING = HXOPT_ERR_MIS"
| "err_code HXOPT_E_SHORT_UNKNOWN = HXOPT_ERR_UNKN"
| "err_code HXOPT_E_SHORT_MISSING = HXOPT_ERR_MIS"
| "err_code HXOPT_E_AMBIG_PREFIX = HXOPT_ERR_AMBIG"

definition after_error :: "'f getopt_vars \<Rightarrow> 'f getopt_vars \<Rightarrow> bool" where
  "after_error par p \<longleftrightarrow> cells (v_state p) = cells (v_state par) \<and> v_flags p = v_flags par \<and> arg0 p = arg0 par"

lemma error_shape:
  obtains p where "HX_getopt_error e key par = (Error (err_code e), p)" "after_error par p"
  by (cases e) (auto simp: HX_getopt_error_def after_error_def)

lemma after_error_upd [simp]:
  "after_error (par\<lparr>v_current := c\<rparr>) p \<longleftrightarrow> after_error par p" "after_error (counted par) p \<longleftrightarrow> after_error par p"
  by (simp_all add: after_error_def counted_def)

lemma loop_error:
  "getopt_handler fp mem table state (w # ws) op0 par = Some (Error r, p) \<Longrightarrow>
    getopt_loop fp mem table state (w # ws) op0 par = Some (r, p)"
  by (subst getopt_loop.simps) (simp add: getopt_step_def)

lemma bad_twolong:
  assumes "n \<noteq> []" "CHR ''='' \<notin> set n"
    and "HX_getopt_twolong table (''--'' @ n) (next_word ((''--'' @ n) # rest)) par = HX_getopt_error e (''--'' @ n) (par\<lparr>v_current := c\<rparr>)"
  shows "\<exists>p. getopt_loop fp mem table HXOPT_S_NORMAL ((''--'' @ n) # rest) (''--'' @ n) par = Some (err_code e, p) \<and> after_error par p"
proof -
  let ?w = "''--'' @ n"
  obtain p where p: "HX_getopt_error e ?w (par\<lparr>v_current := c\<rparr>) = (Error (err_code e), p)" "after_error (par\<lparr>v_current := c\<rparr>) p"
    by (rule error_shape)
  have "getopt_handler fp mem table HXOPT_S_TWOLONG (?w # rest) ?w par = Some (Error (err_code e), p)"
    using assms(3) p(1) by (simp add: getopt_handler_def)
  from loop_error [OF this] loop_go [OF handler_normal_long [OF assms(1)], of fp mem table ?w rest par] assms(2) p(2)
  show ?thesis by simp
qed

lemma bad_long:
  assumes "\<forall>k. mem k \<noteq> None" "n \<noteq> []" "CHR ''='' \<notin> set n"
    and "lookup_long_pfx table n = Pfx_none \<and> e = HXOPT_E_LONG_UNKNOWN \<or> lookup_long_pfx table n = Pfx_ambig \<and> e = HXOPT_E_AMBIG_PREFIX \<or>
      lookup_long_pfx table n = Pfx_opt opt \<and> takes_void (otype opt) \<and> e = HXOPT_E_LONG_TAKESVOID"
  shows "\<exists>p. getopt_loop fp mem table HXOPT_S_NORMAL ((''--'' @ n @ ''='' @ v) # rest) (''--'' @ n @ ''='' @ v) par = Some (err_code e, p) \<and>
    after_error par p"
proof -
  let ?w = "''--'' @ n @ ''='' @ v"
  define c where "c = (case lookup_long_pfx table n of Pfx_opt opt \<Rightarrow> Some opt | _ \<Rightarrow> None)"
  have s: "strchr ?w (CHR ''='') = Some (2 + length n)" using strchr_append [of "CHR ''=''" "''--'' @ n" v] assms(3) by simp
  obtain p where p: "HX_getopt_error e (''--'' @ n) ((counted par)\<lparr>v_current := c\<rparr>) = (Error (err_code e), p)"
    "after_error ((counted par)\<lparr>v_current := c\<rparr>) p" by (rule error_shape)
  have "HX_getopt_long fp mem table ?w par = Some (HX_getopt_error e (''--'' @ n) ((counted par)\<lparr>v_current := c\<rparr>))"
    using assms(4) s by (auto simp: HX_getopt_long_def mem_push [OF assms(1)] c_def)
  then have "getopt_handler fp mem table HXOPT_S_LONG (?w # rest) ?w par = Some (Error (err_code e), p)"
    using p(1) by (simp add: getopt_handler_def)
  from loop_error [OF this] loop_go [OF handler_normal_long, of "n @ ''='' @ v" fp mem table ?w rest par] p(2)
  show ?thesis by simp
qed

lemma bad_short:
  assumes m: "\<forall>k. mem k \<noteq> None" and os: "list_all (\<lambda>opt. short_ok table opt \<and> takes_void (otype opt)) os"
    and run: "shorts_run fp mem os par = Some par1" and t: "t \<noteq> []" "at0 (map sh os @ t) \<noteq> CHR ''-''"
    and h: "HX_getopt_short table t (next_word ((CHR ''-'' # map sh os @ t) # rest)) par1 = HX_getopt_error e k (par1\<lparr>v_current := c\<rparr>)"
  shows "\<exists>p. getopt_loop fp mem table HXOPT_S_NORMAL ((CHR ''-'' # map sh os @ t) # rest) (CHR ''-'' # map sh os @ t) par = Some (err_code e, p) \<and>
    after_error par1 p"
proof -
  let ?w = "CHR ''-'' # map sh os @ t"
  obtain p where p: "HX_getopt_error e k (par1\<lparr>v_current := c\<rparr>) = (Error (err_code e), p)" "after_error (par1\<lparr>v_current := c\<rparr>) p"
    by (rule error_shape)
  have "getopt_handler fp mem table HXOPT_S_SHORT (?w # rest) t par1 = Some (Error (err_code e), p)"
    using h p(1) by (simp add: getopt_handler_def)
  from loop_error [OF this] parse_shorts [OF m os, of fp ?w rest t par] run
    loop_go [OF handler_normal_short, of "map sh os @ t" fp mem table ?w rest par] t p(2)
  show ?thesis by simp
qed

lemma parse_bad:
  assumes m: "\<forall>k. mem k \<noteq> None" and b: "bad table os ws ret" and run: "shorts_run fp mem os par = Some par1"
  shows "\<exists>p. getopt_loop fp mem table HXOPT_S_NORMAL ws (first_word ws) par = Some (ret, p) \<and> after_error par1 p"
  using b run
proof cases
  case (long_unknown n rest)
  then show ?thesis using bad_twolong [of n table rest par HXOPT_E_LONG_UNKNOWN None fp mem] run by (simp add: HX_getopt_twolong_def)
next
  case (long_ambig n rest)
  then show ?thesis using bad_twolong [of n table rest par HXOPT_E_AMBIG_PREFIX None fp mem] run by (simp add: HX_getopt_twolong_def)
next
  case (long_missing n opt)
  then show ?thesis using bad_twolong [of n table "[]" par HXOPT_E_LONG_MISSING "Some opt" fp mem] run
    by (simp add: HX_getopt_twolong_def long_ok_def next_word_def)
next
  case (longeq_unknown n v rest)
  then show ?thesis using bad_long [OF m, of n table HXOPT_E_LONG_UNKNOWN undefined fp v rest par] run by simp
next
  case (longeq_ambig n v rest)
  then show ?thesis using bad_long [OF m, of n table HXOPT_E_AMBIG_PREFIX undefined fp v rest par] run by simp
next
  case (longeq_void n opt v rest)
  then show ?thesis using bad_long [OF m, of n table HXOPT_E_LONG_TAKESVOID opt fp v rest par] run by (simp add: long_ok_def)
next
  case (short_unknown c t rest)
  then show ?thesis using bad_short [OF m, of table os fp par par1 "c # t" rest HXOPT_E_SHORT_UNKNOWN "[c]" None] run
    by (simp add: HX_getopt_short_def)
next
  case (short_missing opt)
  then show ?thesis using bad_short [OF m, of table os fp par par1 "[sh opt]" "[]" HXOPT_E_SHORT_MISSING "[sh opt]" "Some opt"] run
    by (simp add: HX_getopt_short_def short_ok_def next_word_def)
qed

lemma bad_ret: "bad table os ws ret \<Longrightarrow> ret \<in> {HXOPT_ERR_UNKN, HXOPT_ERR_VOID, HXOPT_ERR_MIS, HXOPT_ERR_AMBIG}"
  by (induction rule: bad.induct) simp_all

text \<open>C3: The first error ends the parsing with its code: an unknown or ambiguous long option, an argument given to one that
  takes none, a missing argument, an unknown letter anywhere in a cluster. What was in front of it has been
  assigned, what comes behind has no effect, and the result holds no vectors. (Whether the help screen follows
  is a matter of the flags; it is the one of the table, and the error code stays the same.)\<close>

theorem HX_getopt6_errors:
  assumes m: "\<forall>k. mem k \<noteq> None" and f: "flags AND HXOPT_RQ_ORDER = 0 \<or> flags AND HXOPT_ANY_ORDER = 0"
    and o: "items_ok table (eff_flags flags env AND HXOPT_RQ_ORDER \<noteq> 0) its ws" and b: "bad table os ws ret"
    and run: "run_items fp mem its (start_vars prog flags env st) = Some par" "shorts_run fp mem os par = Some par1"
    and hlp: "HX_getopt_usage table (Some prog) \<noteq> None"
  shows "\<exists>r st' out. HX_getopt6 fp mem table (-1) (prog # concat (map item_words its) @ ws) True flags env st = Some (ret, Some r, st', out) \<and>
    cells st' = cells (v_state par1) \<and> r_desc r = None \<and> r_oarg r = None \<and> r_uarg r = None \<and> dup_argv r = None"
proof -
  let ?start = "start_vars prog flags env st"
  have a: "adds ?start (opts_of its @ map (\<lambda>opt. (opt, None)) os) (args_of its @ []) par1"
    using adds_trans [OF run_items_adds [OF run(1)] shorts_run_adds [OF run(2)]] .
  obtain p where p: "getopt_loop fp mem table HXOPT_S_NORMAL ws (first_word ws) par = Some (ret, p)" "after_error par1 p"
    using parse_bad [OF m b run(2)] by blast
  have fl: "v_flags ?start = eff_flags flags env" "arg0 ?start = Some prog" by (simp_all add: start_vars_def init_vars_def)
  then have "getopt_loop fp mem table HXOPT_S_NORMAL (concat (map item_words its) @ ws) (first_word (concat (map item_words its) @ ws)) ?start =
      Some (ret, p)" using parse_items [OF m, of table ?start its ws fp] o run(1) p(1) by simp
  moreover have "arg0 p = Some prog" using p(2) a fl by (simp add: after_error_def adds_def)
  then have "error_help table p \<noteq> None" using hlp help_iff_usage [of table "Some prog"] by (simp add: error_help_def)
  then obtain out where "error_help table p = Some out" by blast
  ultimately show ?thesis
    using getopt6_loop [OF m f, of fp table prog "concat (map item_words its) @ ws" env st] bad_ret [OF b] p(2)
    by (auto simp: HX_getopt6_clean_def result0_def after_error_def)
qed

theorem HX_getopt6_errors_witness:
  "\<exists>r st' out. HX_getopt6 whole_fp (\<lambda>_. Some (\<lambda>_. NUL)) [opt_v, opt_o] (-1) (''prog'' # [''-vv'', ''--none'', ''x'']) True 0x600 None vo_state =
      Some (HXOPT_ERR_UNKN, Some r, st', out) \<and>
    cells st' = [1 \<mapsto> C32 2, 2 \<mapsto> CStr None] \<and> r_desc r = None \<and> r_oarg r = None \<and> r_uarg r = None \<and> dup_argv r = None"
proof -
  let ?its = "[Shorts [opt_v, opt_v] End_void]" and ?start = "start_vars ''prog'' 0x600 None vo_state"
  have "\<exists>par. run_items whole_fp (\<lambda>_. Some (\<lambda>_. NUL)) ?its ?start = Some par \<and> cells (v_state par) = [1 \<mapsto> C32 2, 2 \<mapsto> CStr None]"
    by (simp add: assign_next_def do_assign_front_def push_ok_def set_cbi_def do_assign_def assign_type_def assign_none_def
        upd_cell_def put32_def opt_is_def Let_def start_vars_def init_vars_def vo_state_def opt_v_def HXOPT_INC_def) auto
  then obtain par where par: "run_items whole_fp (\<lambda>_. Some (\<lambda>_. NUL)) ?its ?start = Some par" "cells (v_state par) = [1 \<mapsto> C32 2, 2 \<mapsto> CStr None]"
    by blast
  have o: "items_ok [opt_v, opt_o] False ?its ws" for ws
    using vo_lookups(3) by (simp add: takes_void_def Let_def) (simp add: opt_v_def)
  have b: "bad [opt_v, opt_o] [] (''--none'' # [''x'']) HXOPT_ERR_UNKN"
    using bad.long_unknown [of "''none''" "[opt_v, opt_o]" "[''x'']"] by (simp add: lookup_long_pfx_def opt_v_def opt_o_def)
  have f: "eff_flags 0x600 None AND HXOPT_RQ_ORDER = 0" "(0x600 :: u32) AND HXOPT_RQ_ORDER = 0"
    by (simp_all add: eff_flags_def posix_me_harder_def getopt_flags)
  have w: "concat (map item_words ?its) @ ''--none'' # [''x''] = [''-vv'', ''--none'', ''x'']" by (simp add: opt_v_def)
  have h: "HX_getopt_usage [opt_v, opt_o] (Some ''prog'') \<noteq> None"
    unfolding usage_ok by (simp add: opt_v_def opt_o_def opt_text_def takes_void_def)
  show ?thesis
    using HX_getopt6_errors [of "\<lambda>_. Some (\<lambda>_. NUL)" "0x600" "[opt_v, opt_o]" None ?its "''--none'' # [''x'']" "[]" HXOPT_ERR_UNKN whole_fp
        "''prog''" vo_state par par] f o b par h unfolding w by simp
qed

section \<open>Any command line\<close>

lemma lookup_short_in: "lookup_short table c = Some opt \<Longrightarrow> opt \<in> set table"
  by (induction table) (auto split: if_splits)

lemma lookup_pfx_in: "lookup_long_pfx table key = Pfx_opt opt \<Longrightarrow> opt \<in> set table"
proof -
  have "pfx_loop table key cand = Pfx_opt opt \<Longrightarrow> opt \<in> set table \<or> cand = Some opt" for cand
    by (induction table arbitrary: cand) (auto split: option.splits if_splits)
  then show "lookup_long_pfx table key = Pfx_opt opt \<Longrightarrow> opt \<in> set table" by (auto simp: lookup_long_pfx_def)
qed

text \<open>What a handler that asks for an assignment has prepared.\<close>

definition prepared :: "'f callback HXoption list \<Rightarrow> 'f getopt_vars \<Rightarrow> 'f getopt_vars \<Rightarrow> bool" where
  "prepared table par p \<longleftrightarrow> (\<exists>opt fl d. opt \<in> set table \<and> (d = None \<longrightarrow> takes_void (otype opt) \<or> opt_is opt HXOPT_OPTIONAL) \<and>
     p = set_cbi opt fl d par)"

lemma preparedI: "opt \<in> set table \<Longrightarrow> d \<noteq> None \<or> takes_void (otype opt) \<or> opt_is opt HXOPT_OPTIONAL \<Longrightarrow>
    prepared table par (set_cbi opt fl d par)"
  by (auto simp: prepared_def)

text \<open>The parameter after a handler: prepared, or with the word pushed, or with an assignment done.\<close>

lemma twolong_prepared:
  assumes "HX_getopt_twolong table key v par = (Go st a adv, p)"
  shows "a \<and> prepared table par p \<and> (adv = ADVARG \<or> adv = ADVARG2)"
proof (cases "lookup_long_pfx table (drop 2 key)")
  case (Pfx_opt opt)
  then show ?thesis using assms lookup_pfx_in [OF Pfx_opt]
    by (auto simp: HX_getopt_twolong_def intro!: preparedI split: if_splits)
qed (use assms in \<open>simp_all add: HX_getopt_twolong_def\<close>)

lemma short_prepared:
  assumes "HX_getopt_short table key v par = (Go st a adv, p)"
  shows "(if a then prepared table par p else p = par) \<and> (adv = ADVARG \<or> adv = ADVARG2 \<or> st = HXOPT_S_SHORT)"
proof (cases "at0 key = NUL")
  case True
  then show ?thesis using assms by (auto simp: HX_getopt_short_def)
next
  case False
  show ?thesis
  proof (cases "lookup_short table (at0 key)")
    case None
    then show ?thesis using assms False by (simp add: HX_getopt_short_def)
  next
    case (Some opt)
    then show ?thesis using assms False lookup_short_in [OF Some]
      by (auto simp: HX_getopt_short_def Let_def intro!: preparedI split: if_splits)
  qed
qed

definition same_lists :: "'f getopt_vars \<Rightarrow> 'f getopt_vars \<Rightarrow> bool" where
  "same_lists par p \<longleftrightarrow> desc p = desc par \<and> oarg p = oarg par \<and> arg0 p = arg0 par \<and> cells (v_state p) = cells (v_state par)"

lemma normal_pushes:
  assumes "HX_getopt_normal mem cur par = (Go st a adv, p)"
  shows "\<not> a \<and> same_lists par p \<and> (uarg p = uarg par \<or> uarg p = uarg par @ [cur] \<and> adv = ADVARG) \<and>
    (adv = ADVARG \<or> adv = ADV_NONE \<or> st = HXOPT_S_SHORT)"
  using assms by (auto simp: HX_getopt_normal_def push_ok_def same_lists_def Let_def split: if_splits)

lemma term_pushes:
  assumes "HX_getopt_term mem cur par = (Go st a adv, p)"
  shows "\<not> a \<and> same_lists par p \<and> uarg p = uarg par @ [cur] \<and> adv = ADVARG"
  using assms by (auto simp: HX_getopt_term_def push_ok_def same_lists_def Let_def split: if_splits)

lemma long_assigns:
  assumes "HX_getopt_long fp mem table cur par = Some (Go st a adv, p)"
  shows "\<not> a \<and> adv = ADVARG \<and> (\<exists>opt v. opt \<in> set table \<and>
    do_assign_front fp mem opt (set_cbi opt HXOPTCB_BY_LONG (Some v) (counted par)) = Some (None, p))"
proof -
  have ok: "push_ok mem par = (mem (nalloc (v_state par)) \<noteq> None, counted par)" by (simp add: push_ok_def counted_def Let_def)
  then have m: "mem (nalloc (v_state par)) \<noteq> None" using assms
    by (cases "mem (nalloc (v_state par))") (simp_all add: HX_getopt_long_def)
  then obtain i where i: "strchr cur (CHR ''='') = Some i" using assms ok by (auto simp: HX_getopt_long_def split: option.splits)
  show ?thesis
  proof (cases "lookup_long_pfx table (drop 2 (take i cur))")
    case (Pfx_opt opt)
    then show ?thesis using assms ok m i lookup_pfx_in [OF Pfx_opt]
      by (auto simp: HX_getopt_long_def Let_def bind_eq_Some_conv split: if_splits option.splits)
  qed (use assms ok m i in \<open>simp_all add: HX_getopt_long_def Let_def\<close>)
qed

text \<open>An invariant of the loop: the two vectors of options belong together, every option is from the table, and the other
  words are some of those passed so far, in order. In the states that push it the current word is the next one.\<close>

definition front_ok :: "'f callback HXoption list \<Rightarrow> char list option \<Rightarrow> 'f getopt_vars \<Rightarrow> bool" where
  "front_ok table a0 par \<longleftrightarrow> length (desc par) = length (oarg par) \<and> set (desc par) \<subseteq> set table \<and> arg0 par = a0"

definition loop_inv :: "'f callback HXoption list \<Rightarrow> char list option \<Rightarrow> char list list \<Rightarrow> HX_getopt_state \<Rightarrow> char list list \<Rightarrow> char list \<Rightarrow> 'f getopt_vars \<Rightarrow> bool" where
  "loop_inv table a0 all state ws op0 par \<longleftrightarrow> front_ok table a0 par \<and> (\<exists>past. all = past @ ws \<and> subseq (uarg par) past) \<and>
     (state = HXOPT_S_NORMAL \<or> state = HXOPT_S_TERMINATED \<longrightarrow> ws \<noteq> [] \<longrightarrow> op0 = hd ws)"

lemma assign_front_lists:
  assumes "do_assign_front fp mem opt par = Some (None, p)"
  shows "desc p = desc par @ [opt] \<and> oarg p = oarg par @ [cb_data (v_cbi par)] \<and> uarg p = uarg par \<and> arg0 p = arg0 par"
  using assms by (auto simp: do_assign_front_def push_ok_def Let_def bind_eq_Some_conv split: if_splits)

lemma front_ok_assign:
  "front_ok table a0 par \<Longrightarrow> opt \<in> set table \<Longrightarrow> do_assign_front fp mem opt par = Some (None, p) \<Longrightarrow> front_ok table a0 p \<and> uarg p = uarg par"
  using assign_front_lists [of fp mem opt par p] by (auto simp: front_ok_def)

lemma set_cbi_lists [simp]:
  "desc (set_cbi opt fl d par) = desc par" "oarg (set_cbi opt fl d par) = oarg par" "uarg (set_cbi opt fl d par) = uarg par"
  "front_ok table a0 (set_cbi opt fl d par) = front_ok table a0 par" "v_current (set_cbi opt fl d par) = Some opt"
  "v_state (set_cbi opt fl d par) = v_state par" "cb_data (v_cbi (set_cbi opt fl d par)) = d"
  by (simp_all add: set_cbi_def front_ok_def)

lemma counted_lists [simp]: "desc (counted par) = desc par" "oarg (counted par) = oarg par" "uarg (counted par) = uarg par"
  "front_ok table a0 (counted par) = front_ok table a0 par"
  by (simp_all add: counted_def front_ok_def)

text \<open>One round, in terms of the lists.\<close>

lemma step_shape:
  assumes st: "getopt_step fp mem table state ws op0 par = Some (Cont state' ws' op0' p)" and f: "front_ok table a0 par"
  obtains adv where "advance_words adv ws op0 = (ws', op0')" "front_ok table a0 p"
    "uarg p = uarg par \<or> uarg p = uarg par @ [op0] \<and> adv = ADVARG \<and> (state = HXOPT_S_NORMAL \<or> state = HXOPT_S_TERMINATED)"
    "adv = ADVARG \<or> adv = ADVARG2 \<or> state' \<noteq> HXOPT_S_NORMAL \<and> state' \<noteq> HXOPT_S_TERMINATED \<or>
      state = HXOPT_S_NORMAL \<and> adv = ADV_NONE"
proof -
  obtain h p1 where h: "getopt_handler fp mem table state ws op0 par = Some (h, p1)"
    using st by (auto simp: getopt_step_def bind_eq_Some_conv)
  obtain st1 a adv where Go: "h = Go st1 a adv" using st by (cases h) (simp_all add: getopt_step_def h)
  obtain err p2 where r: "(if a then case v_current p1 of None \<Rightarrow> None | Some opt \<Rightarrow> do_assign_front fp mem opt p1 else Some (None, p1)) = Some (err, p2)"
    using st Go by (auto simp: getopt_step_def h bind_eq_Some_conv)
  obtain ws2 op2 where w: "advance_words adv ws op0 = (ws2, op2)" by fastforce
  have e: "err = None" "p2 = p" "st1 = state'" "advance_words adv ws op0 = (ws', op0')"
    using st w by (cases err; simp add: getopt_step_def h Go r)+
  have assign: "front_ok table a0 p \<and> uarg p = uarg par" if pa: "a" and pp: "prepared table par p1"
  proof -
    obtain opt fl d where o: "opt \<in> set table" "p1 = set_cbi opt fl d par" using pp by (auto simp: prepared_def)
    have "do_assign_front fp mem opt p1 = Some (None, p)" using r pa o(2) e by simp
    then show ?thesis using front_ok_assign [of table a0 p1 opt fp mem p] f o by simp
  qed
  show thesis
  proof (cases state)
    case HXOPT_S_TWOLONG
    then have "a \<and> prepared table par p1 \<and> (adv = ADVARG \<or> adv = ADVARG2)"
      using h Go twolong_prepared by (simp add: getopt_handler_def) blast
    then show thesis using that [OF e(4)] assign by blast
  next
    case HXOPT_S_SHORT
    then have s: "(if a then prepared table par p1 else p1 = par) \<and> (adv = ADVARG \<or> adv = ADVARG2 \<or> st1 = HXOPT_S_SHORT)"
      using h Go short_prepared [of table op0 "next_word ws" par st1 a adv p1] by (simp add: getopt_handler_def)
    then have "front_ok table a0 p \<and> uarg p = uarg par" using assign r e f by (cases a) auto
    then show thesis using that [OF e(4)] s e(3) by auto
  next
    case HXOPT_S_LONG
    then have "\<not> a \<and> adv = ADVARG \<and> (\<exists>opt v. opt \<in> set table \<and>
        do_assign_front fp mem opt (set_cbi opt HXOPTCB_BY_LONG (Some v) (counted par)) = Some (None, p1))"
      using h Go long_assigns by (simp add: getopt_handler_def)
    then have "adv = ADVARG" "front_ok table a0 p \<and> uarg p = uarg par" using r e f by (auto dest!: front_ok_assign [rotated 2])
    then show thesis using that [OF e(4)] by blast
  next
    case HXOPT_S_TERMINATED
    then have "\<not> a \<and> same_lists par p1 \<and> uarg p1 = uarg par @ [op0] \<and> adv = ADVARG"
      using h Go term_pushes by (simp add: getopt_handler_def)
    then show thesis using that [OF e(4)] r e f HXOPT_S_TERMINATED by (auto simp: same_lists_def front_ok_def)
  next
    case HXOPT_S_NORMAL
    then have "\<not> a \<and> same_lists par p1 \<and> (uarg p1 = uarg par \<or> uarg p1 = uarg par @ [op0] \<and> adv = ADVARG) \<and>
        (adv = ADVARG \<or> adv = ADV_NONE \<or> st1 = HXOPT_S_SHORT)"
      using h Go normal_pushes by (simp add: getopt_handler_def)
    then show thesis using that [OF e(4)] r e f HXOPT_S_NORMAL by (auto simp: same_lists_def front_ok_def)
  qed
qed

lemma step_inv:
  assumes i: "loop_inv table a0 all state ws op0 par" and ws: "ws \<noteq> []"
    and st: "getopt_step fp mem table state ws op0 par = Some (Cont state' ws' op0' p)"
  shows "loop_inv table a0 all state' ws' op0' p"
proof -
  obtain past where past: "all = past @ ws" "subseq (uarg par) past" using i by (auto simp: loop_inv_def)
  obtain w rest where w: "ws = w # rest" using ws by (cases ws) auto
  have f: "front_ok table a0 par" using i by (simp add: loop_inv_def)
  obtain adv where a: "advance_words adv ws op0 = (ws', op0')" "front_ok table a0 p"
    "uarg p = uarg par \<or> uarg p = uarg par @ [op0] \<and> adv = ADVARG \<and> (state = HXOPT_S_NORMAL \<or> state = HXOPT_S_TERMINATED)"
    "adv = ADVARG \<or> adv = ADVARG2 \<or> state' \<noteq> HXOPT_S_NORMAL \<and> state' \<noteq> HXOPT_S_TERMINATED \<or> state = HXOPT_S_NORMAL \<and> adv = ADV_NONE"
    by (rule step_shape [OF st f])
  have op: "state = HXOPT_S_NORMAL \<or> state = HXOPT_S_TERMINATED \<Longrightarrow> op0 = w" using i w by (auto simp: loop_inv_def)
  have keep: "subseq (uarg par) (past @ xs)" for xs using list_emb_append_mono [OF past(2) list_emb_Nil, of xs] by simp
  show ?thesis
  proof (cases adv)
    case ADVARG
    have "subseq (uarg p) (past @ [w])" using a(3) past(2) op keep [of "[w]"] by (auto intro: list_emb_append_mono)
    moreover have "ws' = rest" "ws' \<noteq> [] \<Longrightarrow> op0' = hd ws'" using a(1) ADVARG w by (auto simp: advance_words_def split: list.splits)
    ultimately show ?thesis using a(2) past(1) w by (auto simp: loop_inv_def intro!: exI [of _ "past @ [w]"])
  next
    case ADVARG2
    then have "uarg p = uarg par" using a(3) by auto
    moreover have "ws' = drop 1 rest" "ws' \<noteq> [] \<Longrightarrow> op0' = hd ws'" using a(1) ADVARG2 w by (auto simp: advance_words_def split: list.splits)
    moreover have "past @ ws = (past @ w # take 1 rest) @ drop 1 rest" using w by simp
    ultimately show ?thesis using a(2) past(1) keep [of "w # take 1 rest"] unfolding loop_inv_def by metis
  next
    case ADVCHAR
    then show ?thesis using a past by (auto simp: loop_inv_def advance_words_def)
  next
    case ADV_NONE
    then have "state = HXOPT_S_NORMAL \<or> state' \<noteq> HXOPT_S_NORMAL \<and> state' \<noteq> HXOPT_S_TERMINATED" using a(4) by auto
    then show ?thesis using a past ADV_NONE op w by (auto simp: loop_inv_def advance_words_def)
  qed
qed

lemma step_stop:
  assumes "getopt_step fp mem table state ws op0 par = Some (Stop ret q)"
  shows "ret \<noteq> HXOPT_ERR_SUCCESS"
proof -
  have err: "HX_getopt_error e key v \<noteq> (Error HXOPT_ERR_SUCCESS, p)" for e key and v p :: "'a getopt_vars"
    by (cases e) (simp_all add: HX_getopt_error_def)
  have "getopt_handler fp mem table state ws op0 par \<noteq> Some (Error HXOPT_ERR_SUCCESS, p)" for p
  proof (cases state)
    case HXOPT_S_NORMAL
    then show ?thesis by (auto simp: getopt_handler_def HX_getopt_normal_def Let_def split: prod.splits if_splits)
  next
    case HXOPT_S_SHORT
    then show ?thesis using err by (auto simp: getopt_handler_def HX_getopt_short_def Let_def split: option.splits if_splits)
  next
    case HXOPT_S_TWOLONG
    then show ?thesis using err by (auto simp: getopt_handler_def HX_getopt_twolong_def split: pfx_result.splits if_splits)
  next
    case HXOPT_S_LONG
    then show ?thesis using err
      by (auto simp: getopt_handler_def HX_getopt_long_def Let_def bind_eq_Some_conv split: prod.splits option.splits pfx_result.splits if_splits)
  next
    case HXOPT_S_TERMINATED
    then show ?thesis by (auto simp: getopt_handler_def HX_getopt_term_def Let_def split: prod.splits if_splits)
  qed
  moreover obtain h p1 where h: "getopt_handler fp mem table state ws op0 par = Some (h, p1)"
    using assms by (auto simp: getopt_step_def bind_eq_Some_conv)
  ultimately show ?thesis using assms
    by (cases h) (auto simp: getopt_step_def h bind_eq_Some_conv split: option.splits prod.splits)
qed

lemma loop_keeps:
  assumes "loop_inv table a0 all state ws op0 par" "getopt_loop fp mem table state ws op0 par = Some (HXOPT_ERR_SUCCESS, p)"
  shows "front_ok table a0 p \<and> subseq (uarg p) all"
  using assms
proof (induction fp mem table state ws op0 par rule: getopt_loop.induct)
  case (1 fp mem table state ws op0 par)
  show ?case
  proof (cases "ws = []")
    case True
    then show ?thesis using 1(2,3) by (auto simp: loop_inv_def)
  next
    case False
    show ?thesis
    proof (cases "getopt_step fp mem table state ws op0 par")
      case None
      then show ?thesis using False 1(3) by (subst (asm) getopt_loop.simps) simp
    next
      case (Some r)
      show ?thesis
      proof (cases r)
        case (Stop ret q)
        then have "ret = HXOPT_ERR_SUCCESS" using False Some 1(3) by (subst (asm) getopt_loop.simps) simp
        moreover have "ret \<noteq> HXOPT_ERR_SUCCESS" using step_stop [of fp mem table state ws op0 par ret q] Some Stop by simp
        ultimately show ?thesis by simp
      next
        case (Cont state' ws' op0' q)
        have "loop_inv table a0 all state' ws' op0' q" using step_inv [OF 1(2) False] Some Cont by blast
        moreover have "getopt_loop fp mem table state' ws' op0' q = Some (HXOPT_ERR_SUCCESS, p)"
          using False Some Cont 1(3) by (subst (asm) getopt_loop.simps) simp
        ultimately show ?thesis using 1(1) [OF False Some Cont] by blast
      qed
    qed
  qed
qed

lemma fill_result_of:
  assumes "fill_result mem flags par k result0 = (True, r, k')"
  shows "result_of flags par r"
proof -
  have d: "to_vec_strdup mem xs k = (Some ys, j) \<Longrightarrow> ys = xs" for xs ys k j
    by (auto simp: to_vec_strdup_def Let_def split: if_splits)
  show ?thesis using assms
    by (cases "flags AND HXOPT_ITER_OPTS = 0"; cases "flags AND HXOPT_ITER_ARGS = 0"; cases "flags AND HXOPT_DUP_ARGS = 0"; cases "arg0 par")
      (auto simp: fill_result_def fill_opts_def fill_args_def fill_dup_def to_vec_def result_of_def result0_def Let_def
        dest: d split: if_splits prod.splits)
qed

text \<open>C4: For any command line, any number of arguments and any outcome of the allocations: when the parser succeeds, it
  reports as many arguments as options, only options of the table, and the other words are words of the command line in
  the order in which they stand there -- none is made up, doubled or moved.\<close>

theorem HX_getopt6_partition:
  assumes "HX_getopt6 fp mem table argc argv want flags env st = Some (HXOPT_ERR_SUCCESS, Some r, st', out)"
  shows "(case r_desc r of None \<Rightarrow> r_oarg r = None
      | Some ds \<Rightarrow> set ds \<subseteq> set table \<and> (case r_oarg r of None \<Rightarrow> False | Some vs \<Rightarrow> length vs = length ds \<and> nopts r = clamp_int (length ds))) \<and>
    (case r_uarg r of None \<Rightarrow> True | Some us \<Rightarrow> subseq us (drop 1 argv) \<and> nargs r = clamp_int (length us)) \<and>
    (case dup_argv r of None \<Rightarrow> True | Some vs \<Rightarrow> subseq vs argv \<and> dup_argc r = clamp_int (length vs))"
proof -
  define ws where "ws = (if argc < 0 then argv else take (nat argc) argv)"
  define a0 where "a0 = (case ws of [] \<Rightarrow> None | w # _ \<Rightarrow> Some w)"
  define start where "start = init_vars a0 (if flags AND HXOPT_ANY_ORDER = 0 \<and> posix_me_harder env then flags OR HXOPT_RQ_ORDER else flags)
    (st\<lparr>nalloc := nalloc st + 3\<rparr>)"
  have g: "\<not> (flags AND HXOPT_RQ_ORDER \<noteq> 0 \<and> flags AND HXOPT_ANY_ORDER \<noteq> 0)"
    "\<not> (\<not> want \<and> flags AND (HXOPT_ITER_OPTS OR HXOPT_ITER_ARGS OR HXOPT_DUP_ARGS) \<noteq> 0)"
    "\<not> (mem (nalloc st) = None \<or> mem (nalloc st + 1) = None \<or> mem (nalloc st + 2) = None)"
    using assms unfolding HX_getopt6_def Let_def by (auto split: if_splits)
  obtain ret par where l: "getopt_loop fp mem table HXOPT_S_NORMAL (drop 1 ws) (case drop 1 ws of [] \<Rightarrow> [] | w # _ \<Rightarrow> w) start = Some (ret, par)"
    using assms g unfolding HX_getopt6_def Let_def ws_def [symmetric] a0_def [symmetric] start_def [symmetric]
    by (auto simp: bind_eq_Some_conv)
  have s: "ret = HXOPT_ERR_SUCCESS \<and> (\<exists>k'. fill_result mem flags par (nalloc (v_state par)) result0 = (True, r, k'))"
    using assms g l unfolding HX_getopt6_def Let_def ws_def [symmetric] a0_def [symmetric] start_def [symmetric]
    by (cases ret) (auto simp: bind_eq_Some_conv split: prod.splits if_splits)
  then have r: "result_of flags par r" using fill_result_of by blast
  have "loop_inv table a0 (drop 1 ws) HXOPT_S_NORMAL (drop 1 ws) (case drop 1 ws of [] \<Rightarrow> [] | w # _ \<Rightarrow> w) start"
    by (auto simp: loop_inv_def front_ok_def start_def init_vars_def split: list.splits)
  from loop_keeps [OF this] l s have k: "front_ok table a0 par" "subseq (uarg par) (drop 1 ws)" by simp_all
  have a: "arg0 par = a0" using k(1) by (simp add: front_ok_def)
  have tk: "subseq (take n xs) xs" for n and xs :: "char list list" by (intro prefix_imp_subseq take_is_prefix)
  have "subseq (drop 1 ws) (drop 1 argv)" "subseq ws argv"
    using tk [of "nat argc - 1" "drop 1 argv"] tk [of "nat argc" argv] by (auto simp: ws_def drop_take)
  moreover have "subseq ((case a0 of None \<Rightarrow> [] | Some a \<Rightarrow> [a]) @ uarg par) ws"
    using k(2) by (cases ws) (simp_all add: a0_def)
  ultimately have "subseq (uarg par) (drop 1 argv)" "subseq ((case a0 of None \<Rightarrow> [] | Some a \<Rightarrow> [a]) @ uarg par) argv"
    using k(2) subseq_order.trans by blast+
  then show ?thesis using r k(1) a by (auto simp: result_of_def front_ok_def)
qed

theorem HX_getopt6_partition_witness:
  "\<exists>r st' out. HX_getopt6 whole_fp (\<lambda>_. Some (\<lambda>_. NUL)) [] (-1) [''prog'', ''x''] True 0xE00 None vo_state =
      Some (HXOPT_ERR_SUCCESS, Some r, st', out) \<and>
    (case r_desc r of None \<Rightarrow> r_oarg r = None
      | Some ds \<Rightarrow> set ds \<subseteq> set [] \<and> (case r_oarg r of None \<Rightarrow> False | Some vs \<Rightarrow> length vs = length ds \<and> nopts r = clamp_int (length ds))) \<and>
    (case r_uarg r of None \<Rightarrow> True | Some us \<Rightarrow> subseq us (drop 1 [''prog'', ''x'']) \<and> nargs r = clamp_int (length us)) \<and>
    (case dup_argv r of None \<Rightarrow> True | Some vs \<Rightarrow> subseq vs [''prog'', ''x''] \<and> dup_argc r = clamp_int (length vs))"
proof -
  let ?mem = "\<lambda>_ :: nat. Some (\<lambda>_ :: nat. NUL)" and ?start = "start_vars ''prog'' 0xE00 None vo_state"
  have f: "(0xE00 :: u32) AND HXOPT_RQ_ORDER = 0 \<or> (0xE00 :: u32) AND HXOPT_ANY_ORDER = 0" by (simp add: getopt_flags)
  have v: "v_flags ?start AND HXOPT_RQ_ORDER = 0" by (simp add: start_vars_def init_vars_def eff_flags_def posix_me_harder_def getopt_flags)
  then have "getopt_loop whole_fp ?mem [] HXOPT_S_NORMAL [''x''] (first_word [''x'']) ?start = Some (HXOPT_ERR_SUCCESS, push_word ''x'' ?start)"
    using parse_word [of ?mem "''x''" ?start whole_fp "[]" "[]"] by simp
  moreover obtain r k' where "fill_result ?mem 0xE00 (push_word ''x'' ?start) (nalloc (v_state (push_word ''x'' ?start))) result0 = (True, r, k')"
    using fill_result_ok [of ?mem] by blast
  ultimately have e: "HX_getopt6 whole_fp ?mem [] (-1) [''prog'', ''x''] True 0xE00 None vo_state =
      Some (HXOPT_ERR_SUCCESS, Some r, (v_state (push_word ''x'' ?start))\<lparr>nalloc := k'\<rparr>, v_stderr (push_word ''x'' ?start))"
    using getopt6_loop [of ?mem "0xE00" whole_fp "[]" "''prog''" "[''x'']" None vo_state] f by simp
  show ?thesis by (rule exI, rule exI, rule exI, rule conjI [OF e HX_getopt6_partition [OF e]])
qed

text \<open>When the assignments cannot fault, nothing can: \<open>I\<close> is any condition on the variables that makes the assignments of the
  table's options safe and that they keep.\<close>

definition safe_assign :: "'f fpops \<Rightarrow> (nat \<Rightarrow> mem) \<Rightarrow> 'f callback HXoption list \<Rightarrow> ('f opt_state \<Rightarrow> bool) \<Rightarrow> bool" where
  "safe_assign fp mem table I \<longleftrightarrow> (\<forall>st n. I st \<longrightarrow> I (st\<lparr>nalloc := n\<rparr>)) \<and>
     (\<forall>opt \<in> set table. \<forall>a0 cbi st. I st \<longrightarrow> (cb_data cbi = None \<longrightarrow> takes_void (otype opt) \<or> opt_is opt HXOPT_OPTIONAL) \<longrightarrow>
       (\<exists>cbi' st'. do_assign fp mem opt a0 cbi st = Some (cbi', st') \<and> I st'))"

lemma safe_front:
  assumes s: "safe_assign fp mem table I" and o: "opt \<in> set table" and i: "I (v_state par)"
    and d: "cb_data (v_cbi par) = None \<longrightarrow> takes_void (otype opt) \<or> opt_is opt HXOPT_OPTIONAL"
  shows "\<exists>err p. do_assign_front fp mem opt par = Some (err, p) \<and> I (v_state p)"
proof -
  let ?st = "v_state par\<lparr>nalloc := nalloc (v_state par) + 1 + 1\<rparr>"
  have n: "I (v_state par\<lparr>nalloc := n\<rparr>)" for n using s i by (simp add: safe_assign_def)
  have all: "\<And>a0 cbi st. I st \<Longrightarrow> cb_data cbi = None \<longrightarrow> takes_void (otype opt) \<or> opt_is opt HXOPT_OPTIONAL \<Longrightarrow>
      \<exists>cbi' st'. do_assign fp mem opt a0 cbi st = Some (cbi', st') \<and> I st'"
    using s o by (simp add: safe_assign_def)
  from all [OF n d] obtain cbi' st' where a: "do_assign fp mem opt (arg0 par) (v_cbi par) ?st = Some (cbi', st')" "I st'"
    by blast
  show ?thesis
  proof (cases "mem (nalloc (v_state par)) = None")
    case True
    then show ?thesis using n [of "nalloc (v_state par) + 1"] by (simp add: do_assign_front_def push_ok_def Let_def)
  next
    case False
    then show ?thesis using a n [of "nalloc (v_state par) + 1 + 1"]
      by (cases "mem (nalloc (v_state par) + 1) = None") (simp_all add: do_assign_front_def push_ok_def Let_def)
  qed
qed

lemma safe_long:
  assumes s: "safe_assign fp mem table I" and i: "I (v_state par)"
  shows "\<exists>h p1. HX_getopt_long fp mem table cur par = Some (h, p1) \<and> (\<forall>st a adv. h = Go st a adv \<longrightarrow> \<not> a \<and> I (v_state p1))"
proof -
  have ok: "push_ok mem par = (mem (nalloc (v_state par)) \<noteq> None, counted par)" by (simp add: push_ok_def counted_def Let_def)
  have n: "I (v_state (counted par))" using s i by (simp add: safe_assign_def counted_def)
  show ?thesis
  proof (cases "mem (nalloc (v_state par)) = None \<or> strchr cur (CHR ''='') = None")
    case True
    then show ?thesis by (auto simp: HX_getopt_long_def ok)
  next
    case False
    then obtain j where j: "strchr cur (CHR ''='') = Some j" by auto
    have e: "HX_getopt_long fp mem table cur par = (case lookup_long_pfx table (drop 2 (take j cur)) of
               Pfx_ambig \<Rightarrow> Some (HX_getopt_error HXOPT_E_AMBIG_PREFIX (take j cur) ((counted par)\<lparr>v_current := None\<rparr>))
             | Pfx_none \<Rightarrow> Some (HX_getopt_error HXOPT_E_LONG_UNKNOWN (take j cur) ((counted par)\<lparr>v_current := None\<rparr>))
             | Pfx_opt opt \<Rightarrow>
                 if takes_void (otype opt) then Some (HX_getopt_error HXOPT_E_LONG_TAKESVOID (take j cur) ((counted par)\<lparr>v_current := Some opt\<rparr>))
                 else do {
                   (err, par) \<leftarrow> do_assign_front fp mem opt (set_cbi opt HXOPTCB_BY_LONG (Some (drop (Suc j) cur)) (counted par));
                   Some (case err of Some e \<Rightarrow> Error (Neg e) | None \<Rightarrow> Go HXOPT_S_NORMAL False ADVARG, par)
                 })"
      using False by (simp add: HX_getopt_long_def ok j Let_def)
    have err: "\<exists>h p1. HX_getopt_error er k v = (h, p1) \<and> (\<forall>st a adv. h \<noteq> Go st a adv)" for er k and v :: "'a getopt_vars"
      by (cases er) (simp_all add: HX_getopt_error_def)
    show ?thesis
    proof (cases "lookup_long_pfx table (drop 2 (take j cur))")
      case (Pfx_opt opt)
      obtain er p where "do_assign_front fp mem opt (set_cbi opt HXOPTCB_BY_LONG (Some (drop (Suc j) cur)) (counted par)) = Some (er, p)"
        "I (v_state p)"
        using safe_front [OF s lookup_pfx_in [OF Pfx_opt], of "set_cbi opt HXOPTCB_BY_LONG (Some (drop (Suc j) cur)) (counted par)"] n by auto
      then show ?thesis using err Pfx_opt unfolding e by (cases er; cases "takes_void (otype opt)") fastforce+
    qed (use err in \<open>unfold e, fastforce+\<close>)
  qed
qed

lemma safe_step:
  assumes s: "safe_assign fp mem table I" and i: "I (v_state par)"
  shows "\<exists>r. getopt_step fp mem table state ws op0 par = Some r \<and>
    (case r of Stop ret p \<Rightarrow> True | Cont state' ws' op0' p \<Rightarrow> I (v_state p))"
proof -
  have n: "I (v_state par\<lparr>nalloc := k\<rparr>)" for k using s i by (simp add: safe_assign_def)
  have go: ?thesis if h: "getopt_handler fp mem table state ws op0 par = Some (Go st1 a adv, p1)"
    and p: "if a then prepared table par p1 else I (v_state p1)" for st1 a adv p1
  proof (cases a)
    case True
    then obtain opt fl d where o: "opt \<in> set table" "d = None \<longrightarrow> takes_void (otype opt) \<or> opt_is opt HXOPT_OPTIONAL"
      "p1 = set_cbi opt fl d par" using p by (auto simp: prepared_def)
    then obtain err p2 where "do_assign_front fp mem opt p1 = Some (err, p2)" "I (v_state p2)"
      using safe_front [OF s o(1), of p1] i by auto
    then show ?thesis using True o(3) h by (cases err) (auto simp: getopt_step_def split: prod.split)
  next
    case False
    then show ?thesis using h p by (auto simp: getopt_step_def split: prod.split)
  qed
  have stop: ?thesis if "getopt_handler fp mem table state ws op0 par = Some (Error ret, p1)" for ret p1
    using that by (simp add: getopt_step_def)
  have fin: ?thesis if h: "getopt_handler fp mem table state ws op0 par = Some (h, p1)"
    and g: "\<And>st1 a adv. h = Go st1 a adv \<Longrightarrow> if a then prepared table par p1 else I (v_state p1)" for h p1
    using go stop h g by (cases h) auto
  show ?thesis
  proof (cases state)
    case HXOPT_S_TWOLONG
    obtain h p1 where h: "HX_getopt_twolong table op0 (next_word ws) par = (h, p1)" by fastforce
    then show ?thesis using twolong_prepared [of table op0 "next_word ws" par _ _ _ p1] HXOPT_S_TWOLONG
      by (intro fin [of h p1]) (auto simp: getopt_handler_def)
  next
    case HXOPT_S_SHORT
    obtain h p1 where h: "HX_getopt_short table op0 (next_word ws) par = (h, p1)" by fastforce
    then show ?thesis using short_prepared [of table op0 "next_word ws" par _ _ _ p1] HXOPT_S_SHORT i
      by (intro fin [of h p1]) (auto simp: getopt_handler_def)
  next
    case HXOPT_S_TERMINATED
    obtain h p1 where h: "HX_getopt_term mem op0 par = (h, p1)" by fastforce
    have "I (v_state p1)" and "\<And>st1 a adv. h = Go st1 a adv \<Longrightarrow> \<not> a"
      using h n by (auto simp: HX_getopt_term_def push_ok_def Let_def split: if_splits)
    then show ?thesis using h HXOPT_S_TERMINATED by (intro fin [of h p1]) (auto simp: getopt_handler_def)
  next
    case HXOPT_S_NORMAL
    obtain h p1 where h: "HX_getopt_normal mem op0 par = (h, p1)" by fastforce
    have "I (v_state p1)" and "\<And>st1 a adv. h = Go st1 a adv \<Longrightarrow> \<not> a"
      using h i n by (auto simp: HX_getopt_normal_def push_ok_def Let_def split: if_splits)
    then show ?thesis using h HXOPT_S_NORMAL by (intro fin [of h p1]) (auto simp: getopt_handler_def)
  next
    case HXOPT_S_LONG
    obtain h p1 where h: "HX_getopt_long fp mem table op0 par = Some (h, p1)"
      "\<forall>st a adv. h = Go st a adv \<longrightarrow> \<not> a \<and> I (v_state p1)" using safe_long [OF s i] by blast
    then show ?thesis using HXOPT_S_LONG by (intro fin [of h p1]) (auto simp: getopt_handler_def)
  qed
qed

lemma safe_loop:
  assumes s: "safe_assign fp mem table I" and i: "I (v_state par)"
  shows "getopt_loop fp mem table state ws op0 par \<noteq> None"
  using s i
proof (induction fp mem table state ws op0 par rule: getopt_loop.induct)
  case (1 fp mem table state ws op0 par)
  show ?case
  proof (cases "ws = []")
    case False
    obtain r where r: "getopt_step fp mem table state ws op0 par = Some r"
      "case r of Stop ret p \<Rightarrow> True | Cont state' ws' op0' p \<Rightarrow> I (v_state p)"
      using safe_step [OF 1(2,3)] by blast
    show ?thesis
    proof (cases r)
      case (Stop ret q)
      then show ?thesis using False r by (subst getopt_loop.simps) simp
    next
      case (Cont state' ws' op0' q)
      then have "getopt_loop fp mem table state' ws' op0' q \<noteq> None" using 1(1) [OF False r(1) Cont] 1(2) r(2) by simp
      then show ?thesis using False r Cont by (subst getopt_loop.simps) simp
    qed
  qed simp
qed

text \<open>C5: The parser returns for every command line, whatever memory does and whatever the flags are: no word list makes it
  loop or read behind its end. What is left to the caller is that the variables fit the table and that the
  texts of the options fit the help screen.\<close>

theorem HX_getopt6_returns:
  assumes "safe_assign fp mem table I" "I st" and "\<And>data. HX_getopt_usage table data \<noteq> None"
  shows "HX_getopt6 fp mem table argc argv want flags env st \<noteq> None"
proof -
  have l: "getopt_loop fp mem table state ws op0 (init_vars a0 fl (st\<lparr>nalloc := n\<rparr>)) \<noteq> None" for state ws op0 a0 fl n
  proof (rule safe_loop [OF assms(1)])
    show "I (v_state (init_vars a0 fl (st\<lparr>nalloc := n\<rparr>)))" using assms(1,2) by (simp add: safe_assign_def init_vars_def)
  qed
  have h: "error_help table p \<noteq> None" for p
    using assms(3) [of "arg0 p"] help_iff_usage [of table "arg0 p"] by (simp add: error_help_def)
  have h: "\<exists>out. error_help table p = Some out" for p using h [of p] by auto
  show ?thesis
  proof (cases "flags AND HXOPT_RQ_ORDER \<noteq> 0 \<and> flags AND HXOPT_ANY_ORDER \<noteq> 0 \<or>
      \<not> want \<and> flags AND (HXOPT_ITER_OPTS OR HXOPT_ITER_ARGS OR HXOPT_DUP_ARGS) \<noteq> 0 \<or>
      mem (nalloc st) = None \<or> mem (nalloc st + 1) = None \<or> mem (nalloc st + 2) = None")
    case True
    then show ?thesis by (auto simp: HX_getopt6_def Let_def)
  next
    case False
    define ws where "ws = (if argc < 0 then argv else take (nat argc) argv)"
    define start where "start = init_vars (case ws of [] \<Rightarrow> None | w # _ \<Rightarrow> Some w)
      (if flags AND HXOPT_ANY_ORDER = 0 \<and> posix_me_harder env then flags OR HXOPT_RQ_ORDER else flags) (st\<lparr>nalloc := nalloc st + 3\<rparr>)"
    obtain ret par where p: "getopt_loop fp mem table HXOPT_S_NORMAL (drop 1 ws) (case drop 1 ws of [] \<Rightarrow> [] | w # _ \<Rightarrow> w) start = Some (ret, par)"
      using l unfolding start_def by fastforce
    obtain out where "error_help table par = Some out" using h by blast
    then show ?thesis using False p unfolding HX_getopt6_def Let_def ws_def [symmetric] start_def [symmetric]
      by (cases ret) (simp_all split: prod.split)
  qed
qed

theorem HX_getopt6_returns_witness:
  "HX_getopt6 whole_fp (\<lambda>_. None) [opt_v, opt_o] 3 [''prog'', ''--output'', ''-x''] True 0x600 None vo_state \<noteq> None"
proof -
  let ?I = "\<lambda>st :: nat opt_state. (\<exists>n s. cells st 1 = Some (C32 n) \<and> cells st 2 = Some (CStr s))"
  have "safe_assign whole_fp (\<lambda>_. None) [opt_v, opt_o] ?I"
    by (auto simp: safe_assign_def do_assign_def assign_type_def assign_none_def upd_cell_def put32_def put_str_def opt_is_def
        opt_v_def opt_o_def)
  moreover have "?I vo_state" by (simp add: vo_state_def)
  moreover have "\<And>data. HX_getopt_usage [opt_v, opt_o] data \<noteq> None"
    unfolding usage_ok by (simp add: opt_v_def opt_o_def opt_text_def takes_void_def)
  ultimately show ?thesis by (rule HX_getopt6_returns)
qed

end
