(* ===== verification/HX_Shconf.thy ===== *)
theory HX_Shconf
  imports HX_Dequote HX_Assign HX_Substr
begin

text \<open>
  Shell-style configuration files, from \<^verbatim>\<open>src/opt.c\<close>: the lines are read by \<open>HX_getl\<close>, broken into assignments
  \<^verbatim>\<open>key=value\<close> in place by \<open>HX_shconf_break\<close>, unquoted by \<open>HXparse_dequote_int\<close>, and handed to a callback that
  assigns to the option with that name or adds to a map.

  A line is a block, a pointer into it an index. The callback receives the strings that start at the two pointers; it
  works on a state of its own, and \<open>None\<close> is a fault in it. (An option of type \<^verbatim>\<open>HXTYPE_STRP\<close> is given a pointer into
  the line, which the next line overwrites; the model has the string it points to at that moment.) A file is
  the text that the function \<open>fs\<close> has for its name, or the error of \<^verbatim>\<open>fopen\<close>.
\<close>

section \<open>Lines\<close>

text \<open>\<open>HX_chomp\<close> on the block: the terminators become \<open>NUL\<close> bytes.\<close>

definition chomp_block :: "char list \<Rightarrow> char list" where
  "chomp_block b = (let s = cstr b; t = HX_chomp s in t @ replicate (length s - length t) NUL @ drop (length s) b)"

definition isalnum :: "char \<Rightarrow> bool" where
  "isalnum c \<longleftrightarrow> isalpha c \<or> isdigit c"

text \<open>\<^verbatim>\<open>while (P(*lp)) ++lp;\<close>\<close>

function skip_while :: "(char \<Rightarrow> bool) \<Rightarrow> char list \<Rightarrow> nat \<Rightarrow> nat option" where
  "skip_while P b lp = do { c \<leftarrow> rd b lp; if P c then skip_while P b (lp + 1) else Some lp }"
  by pat_completeness auto
termination by (relation "measure (\<lambda>(P, b, lp). length b - lp)") (auto simp: rd_def split: if_splits)

declare skip_while.simps [simp del]

definition conf_sep :: "char \<Rightarrow> bool" where
  "conf_sep c \<longleftrightarrow> isspace c \<or> c = CHR '';''"

definition conf_start :: "char \<Rightarrow> bool" where
  "conf_start c \<longleftrightarrow> isalpha c \<or> c = CHR ''_''"

definition conf_word :: "char \<Rightarrow> bool" where
  "conf_word c \<longleftrightarrow> isalnum c \<or> c = CHR ''_''"

definition conf_stops :: "char list" where
  "conf_stops = [CHR 0x09, CHR 0x0A, CHR '' '', CHR '';'']"

lemma skip_while_ge: "skip_while P b lp = Some j \<Longrightarrow> lp \<le> j \<and> j < length b"
proof (induction P b lp rule: skip_while.induct)
  case (1 P b lp)
  from 1(2) obtain c where c: "rd b lp = Some c" by (subst (asm) skip_while.simps) (auto simp: bind_eq_Some_conv)
  show ?case
  proof (cases "P c")
    case True
    then have "skip_while P b (lp + 1) = Some j" using 1(2) c by (subst (asm) skip_while.simps) simp
    then show ?thesis using 1(1) [OF c True] by simp
  next
    case False
    then show ?thesis using 1(2) c by (subst (asm) skip_while.simps) (auto simp: rd_def split: if_splits)
  qed
qed

text \<open>What unquoting in place leaves alone: the length of the block and the terminator of the text.\<close>

lemma dequote_loop_keeps:
  assumes "dequote_loop stops b w i quot = Some (b', n)" "w \<le> i" "i \<le> k" "k < length b" "b ! k = NUL"
  shows "length b' = length b \<and> drop k b' = drop k b \<and> (case n of None \<Rightarrow> True | Some j \<Rightarrow> i < j \<and> j \<le> k)"
  using assms
proof (induction stops b w i quot rule: dequote_loop.induct)
  case (1 stops b w i quot)
  have i: "i < length b" using 1(8,9) by simp
  then have r: "rd b i = Some (b ! i)" by (simp add: rd_def)
  have wrs: "wr b w v = Some (b[w := v])" for v using i 1(7) by (simp add: wr_def)
  have up: "drop k (b[w := v]) = drop k b" if "w < k \<or> v = NUL" for v
  proof (cases "w < k")
    case False
    then have "w = k" "v = NUL" using that 1(7,8) by simp_all
    then show ?thesis using list_update_id [of b k] 1(10) by simp
  qed simp
  have n: "b ! i \<noteq> NUL \<Longrightarrow> i < k" using 1(8,10) by (cases "i = k") auto
  note step = 1(6) [unfolded dequote_loop.simps [of stops b w i quot] r Option.bind.simps]
  consider (z) "b ! i = NUL" | (op) "b ! i \<noteq> NUL" "quot = NUL" "b ! i = DQ \<or> b ! i = SQ"
    | (cl) "b ! i \<noteq> NUL" "quot \<noteq> NUL" "b ! i = quot"
    | (esc) "b ! i = BS" "b ! i \<noteq> quot \<or> quot = NUL"
    | (st) "b ! i \<noteq> NUL" "b ! i \<noteq> BS" "\<not> (b ! i = DQ \<or> b ! i = SQ)" "quot = NUL" "stops_at stops (b ! i)"
    | (cp) "b ! i \<noteq> NUL" "b ! i \<noteq> BS" "\<not> (quot = NUL \<and> (b ! i = DQ \<or> b ! i = SQ))" "\<not> (quot \<noteq> NUL \<and> b ! i = quot)"
        "\<not> (quot = NUL \<and> stops_at stops (b ! i))"
    by blast
  then show ?case
  proof cases
    case z
    then have "b' = b[w := NUL]" "n = None" using step wrs by auto
    then show ?thesis using up [of NUL] by simp
  next
    case op
    then have "dequote_loop stops b w (i + 1) (b ! i) = Some (b', n)" using step by auto
    from 1(1) [OF r op(1) _ this] show ?thesis using op 1(7-10) n by (auto split: option.splits)
  next
    case cl
    then have "dequote_loop stops b w (i + 1) NUL = Some (b', n)" using step by auto
    from 1(2) [OF r cl(1) _ _ this] show ?thesis using cl 1(7-10) n by (auto split: option.splits)
  next
    case esc
    have nz: "b ! i \<noteq> NUL" "\<not> (quot = NUL \<and> (b ! i = DQ \<or> b ! i = SQ))" "\<not> (quot \<noteq> NUL \<and> b ! i = quot)" using esc by auto
    have e: "(b ! i = NUL) = False" "(quot = NUL \<and> (b ! i = DQ \<or> b ! i = SQ)) = False" "(quot \<noteq> NUL \<and> b ! i = quot) = False" "(b ! i = BS) = True"
      using esc by auto
    have ik: "i < k" using n nz by simp
    then have r2: "rd b (i + 1) = Some (b ! (i + 1))" using 1(9) by (simp add: rd_def)
    show ?thesis
    proof (cases "b ! (i + 1) = NUL")
      case True
      then have "dequote_loop stops b w (i + 1) quot = Some (b', n)" using step unfolding e if_False if_True r2 by (simp add: True)
      from 1(3) [OF r nz esc(1) r2 True this] show ?thesis using 1(7-10) ik by (auto split: option.splits)
    next
      case False
      then have l: "dequote_loop stops (b[w := b ! (i + 1)]) (w + 1) (i + 2) quot = Some (b', n)" using step unfolding e if_False if_True r2 by (simp add: False wrs)
      have "i + 1 < k" using ik False 1(10) by (cases "i + 1 = k") auto
      then have "w < k" using 1(7) by simp
      then show ?thesis using 1(4) [OF r nz esc(1) r2 False wrs l] 1(7-10) \<open>i + 1 < k\<close> up [of "b ! (i + 1)"] by (auto split: option.splits)
    qed
  next
    case st
    then have "b' = b[w := NUL]" "n = Some (i + 1)" using step wrs by auto
    then show ?thesis using up [of NUL] n st(1) by simp
  next
    case cp
    then have "dequote_loop stops (b[w := b ! i]) (w + 1) (i + 1) quot = Some (b', n)" using step wrs by auto
    then have "w + 1 \<le> i + 1 \<Longrightarrow> i + 1 \<le> k \<Longrightarrow> k < length (b[w := b ! i]) \<Longrightarrow> (b[w := b ! i]) ! k = NUL \<Longrightarrow>
        length b' = length (b[w := b ! i]) \<and> drop k b' = drop k (b[w := b ! i]) \<and> (case n of None \<Rightarrow> True | Some j \<Rightarrow> i + 1 < j \<and> j \<le> k)"
      using 1(5) [OF r cp(1) _ cp(4) cp(2) _ wrs] cp(3,5) by blast
    then show ?thesis using cp(1) 1(7-10) n up [of "b ! i"] by (auto split: option.splits)
  qed
qed

lemma dequote_loop_ends:
  "dequote_loop stops b w i quot = Some (b', n) \<Longrightarrow> length b' = length b \<and> (case n of None \<Rightarrow> True | Some j \<Rightarrow> i < j)"
proof (induction stops b w i quot rule: dequote_loop.induct)
  case (1 stops b w i quot)
  obtain c where c: "rd b i = Some c" using 1(6) by (subst (asm) dequote_loop.simps) (auto simp: bind_eq_Some_conv)
  note step = 1(6) [unfolded dequote_loop.simps [of stops b w i quot] c Option.bind.simps]
  consider (z) "(c = NUL) = True"
    | (op) "(c = NUL) = False" "(quot = NUL \<and> (c = DQ \<or> c = SQ)) = True"
    | (cl) "(c = NUL) = False" "(quot = NUL \<and> (c = DQ \<or> c = SQ)) = False" "(quot \<noteq> NUL \<and> c = quot) = True"
    | (esc) "(c = NUL) = False" "(quot = NUL \<and> (c = DQ \<or> c = SQ)) = False" "(quot \<noteq> NUL \<and> c = quot) = False" "(c = BS) = True"
    | (st) "(c = NUL) = False" "(quot = NUL \<and> (c = DQ \<or> c = SQ)) = False" "(quot \<noteq> NUL \<and> c = quot) = False" "(c = BS) = False"
        "(quot = NUL \<and> stops_at stops c) = True"
    | (cp) "(c = NUL) = False" "(quot = NUL \<and> (c = DQ \<or> c = SQ)) = False" "(quot \<noteq> NUL \<and> c = quot) = False" "(c = BS) = False"
        "(quot = NUL \<and> stops_at stops c) = False"
    by argo
  then show ?case
  proof cases
    case z
    then show ?thesis using step by (auto simp: bind_eq_Some_conv dest: wr_length)
  next
    case op
    have "dequote_loop stops b w (i + 1) c = Some (b', n)" using step unfolding op if_True if_False .
    then show ?thesis using 1(1) [OF c] op by (auto split: option.splits)
  next
    case cl
    have "dequote_loop stops b w (i + 1) NUL = Some (b', n)" using step unfolding cl if_True if_False .
    then show ?thesis using 1(2) [OF c] cl by (auto split: option.splits)
  next
    case esc
    obtain d where d: "rd b (i + 1) = Some d" "(if d = NUL then dequote_loop stops b w (i + 1) quot
        else do { b \<leftarrow> wr b w d; dequote_loop stops b (w + 1) (i + 2) quot }) = Some (b', n)"
      using step unfolding esc if_True if_False by (auto simp: bind_eq_Some_conv)
    have nz: "c \<noteq> NUL" "\<not> (quot = NUL \<and> (c = DQ \<or> c = SQ))" "\<not> (quot \<noteq> NUL \<and> c = quot)" "c = BS" using esc by simp_all
    show ?thesis
    proof (cases "d = NUL")
      case True
      then show ?thesis using 1(3) [OF c nz d(1) True] d(2) by (auto split: option.splits)
    next
      case False
      then obtain b2 where b2: "wr b w d = Some b2" "dequote_loop stops b2 (w + 1) (i + 2) quot = Some (b', n)"
        using d(2) by (auto simp: bind_eq_Some_conv)
      then show ?thesis using 1(4) [OF c nz d(1) False b2] wr_length [OF b2(1)] by (auto split: option.splits)
    qed
  next
    case st
    then show ?thesis using step unfolding st if_True if_False by (auto simp: bind_eq_Some_conv dest: wr_length)
  next
    case cp
    obtain b2 where b2: "wr b w c = Some b2" "dequote_loop stops b2 (w + 1) (i + 1) quot = Some (b', n)"
      using step unfolding cp if_True if_False by (auto simp: bind_eq_Some_conv)
    have nz: "c \<noteq> NUL" "\<not> (quot = NUL \<and> (c = DQ \<or> c = SQ))" "\<not> (quot \<noteq> NUL \<and> c = quot)" "c \<noteq> BS"
      "\<not> (quot = NUL \<and> stops_at stops c)" using cp by simp_all
    show ?thesis using 1(5) [OF c nz b2] wr_length [OF b2(1)] by (auto split: option.splits)
  qed
qed

text \<open>The callback gets the strings at \<open>key\<close> and \<open>val\<close>. The result: the callback's state and the block.\<close>

function shconf_loop :: "(char list \<Rightarrow> char list \<Rightarrow> 's \<Rightarrow> 's option) \<Rightarrow> char list \<Rightarrow> nat \<Rightarrow> 's \<Rightarrow> ('s \<times> char list) option" where
  "shconf_loop cb b lp st = do {
     key \<leftarrow> skip_while conf_sep b lp;
     c \<leftarrow> rd b key;
     if c = CHR ''#'' \<or> c = NUL then Some (st, b)
     else if \<not> conf_start c then Some (st, b)
     else do {
       lp \<leftarrow> skip_while conf_word b key;
       c \<leftarrow> rd b lp;
       if c \<noteq> CHR ''='' then Some (st, b)
       else do {
         b \<leftarrow> wr b lp NUL;
         let val = lp + 1;
         (b, nxt) \<leftarrow> HXparse_dequote_int b val (Some conf_stops);
         st \<leftarrow> cb (cstr (drop key b)) (cstr (drop val b)) st;
         (case nxt of None \<Rightarrow> Some (st, b) | Some lp \<Rightarrow> shconf_loop cb b lp st)
       }
     }
   }"
  by pat_completeness auto
termination
  by (relation "measure (\<lambda>(cb, b, lp, st). length b - lp)")
    (auto simp: HXparse_dequote_int_def dest!: dequote_loop_ends wr_length skip_while_ge)

declare shconf_loop.simps [simp del]

definition HX_shconf_break :: "(char list \<Rightarrow> char list \<Rightarrow> 's \<Rightarrow> 's option) \<Rightarrow> char list \<Rightarrow> 's \<Rightarrow> ('s \<times> char list) option" where
  "HX_shconf_break cb line st = shconf_loop cb (chomp_block line) 0 st"

section \<open>The assignments of a line\<close>

function shconf :: "char list \<Rightarrow> (char list \<times> char list) list" where
  "shconf s =
     (case dropWhile conf_sep s of
        [] \<Rightarrow> []
      | c # t \<Rightarrow>
          if \<not> conf_start c then []
          else (case dropWhile conf_word (c # t) of
              [] \<Rightarrow> []
            | e # v \<Rightarrow>
                if e \<noteq> CHR ''='' then []
                else (takeWhile conf_word (c # t), fst (dequote (Some conf_stops) NUL v)) #
                  (case snd (dequote (Some conf_stops) NUL v) of None \<Rightarrow> [] | Some r \<Rightarrow> shconf r)))"
  by pat_completeness auto
termination
proof (relation "measure length", goal_cases)
  case (2 s c t e v r)
  obtain u where "v = u @ r" using dequote_rest [OF 2(5)] by blast
  then have "length r \<le> length v" by simp
  moreover have "length (e # v) \<le> length (c # t)" unfolding 2(3) [symmetric] by (rule length_dropWhile_le)
  moreover have "length (c # t) \<le> length s" unfolding 2(1) [symmetric] by (rule length_dropWhile_le)
  ultimately show ?case by simp
qed simp

declare shconf.simps [simp del]

fun run_cb :: "(char list \<Rightarrow> char list \<Rightarrow> 's \<Rightarrow> 's option) \<Rightarrow> (char list \<times> char list) list \<Rightarrow> 's \<Rightarrow> 's option" where
  "run_cb cb [] st = Some st"
| "run_cb cb ((k, v) # kvs) st = do { st \<leftarrow> cb k v st; run_cb cb kvs st }"

lemma run_cb_append: "run_cb cb (xs @ ys) st = do { st \<leftarrow> run_cb cb xs st; run_cb cb ys st }"
proof (induction xs arbitrary: st)
  case (Cons kv xs)
  then show ?case by (cases kv; cases "cb (fst kv) (snd kv) st") simp_all
qed simp

lemma skip_while_text:
  "\<not> P NUL \<Longrightarrow> skip_while P (pre @ s @ NUL # post) (length pre) = Some (length pre + length (takeWhile P s))"
proof (induction s arbitrary: pre)
  case Nil
  then show ?case by (subst skip_while.simps) (simp add: rd_def nth_append)
next
  case (Cons c s)
  have "rd (pre @ (c # s) @ NUL # post) (length pre) = Some c" by (simp add: rd_def nth_append)
  then show ?case using Cons.IH [of "pre @ [c]"] Cons.prems by (subst skip_while.simps) simp
qed

lemma no_NUL_conf [simp]: "\<not> conf_sep NUL" "\<not> conf_start NUL" "\<not> conf_word NUL"
  by (simp_all add: conf_sep_def conf_start_def conf_word_def isspace_def isalnum_def isalpha_def isdigit_def isupper_def islower_def)

lemma conf_stops_at: "stops_at (Some conf_stops) c \<longleftrightarrow> c \<in> set conf_stops \<or> c = NUL"
  by (auto simp: stops_at_def strchr_def conf_stops_def Let_def)

lemma dequote_int_keeps:
  assumes "HXparse_dequote_int (pre @ v @ NUL # post) (length pre) stops = Some (b, nxt)"
  shows "length b = length (pre @ v @ NUL # post) \<and> drop (length pre + length v) b = NUL # post"
  using dequote_loop_keeps [of stops _ _ _ NUL b nxt "length pre + length v", OF assms [unfolded HXparse_dequote_int_def]]
  by (simp add: nth_append)

text \<open>The loop on a line that has not been touched yet from its index on.\<close>

lemma shconf_loop_text:
  assumes "NUL \<notin> set s"
  shows "\<exists>b. shconf_loop cb (pre @ s @ NUL # post) (length pre) st = map_option (\<lambda>st. (st, b)) (run_cb cb (shconf s) st) \<and>
    length b = length (pre @ s @ NUL # post) \<and> drop (length pre + length s) b = NUL # post"
  using assms
proof (induction s arbitrary: pre st rule: shconf.induct)
  case (1 s)
  let ?b = "pre @ s @ NUL # post" and ?w = "takeWhile conf_sep s"
  have s: "s = ?w @ dropWhile conf_sep s" by simp
  have k: "skip_while conf_sep ?b (length pre) = Some (length (pre @ ?w))" using skip_while_text [of conf_sep pre s post] by simp
  have nul: "drop (length pre + length s) ?b = NUL # post" by simp
  show ?case
  proof (cases "dropWhile conf_sep s")
    case Nil
    then have "?w = s" using s by (metis append_Nil2)
    then have "rd ?b (length (pre @ ?w)) = Some NUL" by (simp only:) (simp add: rd_def nth_append)
    moreover have "shconf s = []" unfolding shconf.simps [of s] Nil by simp
    ultimately show ?thesis using k nul by (intro exI [of _ ?b]) (subst shconf_loop.simps, simp)
  next
    case (Cons c t)
    have b1: "?b = (pre @ ?w) @ (c # t) @ NUL # post" using s Cons by (metis append.assoc)
    have c: "rd ?b (length (pre @ ?w)) = Some c" unfolding b1 rd_def append_Cons nth_append_length by simp
    have n: "NUL \<notin> set (c # t)" using 1(2) Cons s by (metis Un_iff set_append)
    show ?thesis
    proof (cases "conf_start c")
      case False
      then have "shconf s = []" unfolding shconf.simps [of s] Cons by simp
      then show ?thesis using k c nul False by (intro exI [of _ ?b]) (subst shconf_loop.simps, simp)
    next
      case True
      then have cs: "c \<noteq> CHR ''#''" by (auto simp: conf_start_def isalpha_def isupper_def islower_def)
      let ?k = "takeWhile conf_word (c # t)"
      have e: "skip_while conf_word ?b (length (pre @ ?w)) = Some (length (pre @ ?w @ ?k))"
        unfolding b1 using skip_while_text [of conf_word "pre @ ?w" "c # t" post] by simp
      have ct: "c # t = ?k @ dropWhile conf_word (c # t)" by simp
      show ?thesis
      proof (cases "dropWhile conf_word (c # t)")
        case Nil
        then have kw: "?k = c # t" using ct by (metis append_Nil2)
        have "rd ?b (length (pre @ ?w @ ?k)) = Some NUL" unfolding kw b1 by (simp add: rd_def nth_append)
        moreover have "shconf s = []" unfolding shconf.simps [of s] \<open>dropWhile conf_sep s = c # t\<close> list.case Nil by simp
        ultimately show ?thesis using k c e True cs nul n by (intro exI [of _ ?b]) (subst shconf_loop.simps, auto)
      next
        case (Cons x v)
        have b2: "?b = (pre @ ?w @ ?k) @ x # v @ NUL # post" using b1 ct unfolding Cons by (metis append.assoc append_Cons)
        have x: "rd ?b (length (pre @ ?w @ ?k)) = Some x" unfolding b2 by (simp only: rd_def nth_append_length) simp
        have len: "length pre + length s = length (pre @ ?w @ ?k) + 1 + length v"
          using arg_cong [OF b2, of length] by simp
        show ?thesis
        proof (cases "x = CHR ''=''")
          case False
          then have "shconf s = []" unfolding shconf.simps [of s] \<open>dropWhile conf_sep s = c # t\<close> list.case Cons by simp
          then show ?thesis using False k c e x True cs nul n by (intro exI [of _ ?b]) (subst shconf_loop.simps, auto)
        next
          case xe: True
          let ?P = "(pre @ ?w @ ?k) @ [NUL]" and ?d = "dequote (Some conf_stops) NUL v"
          have nv: "NUL \<notin> set v" using n ct unfolding Cons by (metis Un_iff list.set_intros(2) set_append)
          have w: "wr ?b (length (pre @ ?w @ ?k)) NUL = Some (?P @ v @ NUL # post)"
            unfolding b2 wr_def by (simp only: list_update_length) simp
          obtain b nxt where b: "HXparse_dequote_int (?P @ v @ NUL # post) (length ?P) (Some conf_stops) = Some (b, nxt)"
            "take (length ?P) b = ?P" "cstr (drop (length ?P) b) = fst ?d"
            "case snd ?d of None \<Rightarrow> nxt = None | Some r \<Rightarrow> (\<exists>j gap. nxt = Some j \<and> b = ?P @ fst ?d @ NUL # gap @ r @ NUL # post \<and>
               drop j b = r @ NUL # post)"
            using dequote_int_text [OF nv, of ?P post "Some conf_stops"] by blast
          have kp: "length b = length (?P @ v @ NUL # post)" "drop (length ?P + length v) b = NUL # post"
            using dequote_int_keeps [OF b(1)] by blast+
          have pv: "length ?P + length v = length pre + length s" using len by (simp only: length_append list.size)
          have kp': "length b = length ?b" "drop (length pre + length s) b = NUL # post"
            using kp(1) pv kp(2) [unfolded pv] by (simp_all only: length_append list.size)
          have "b = (pre @ ?w) @ ?k @ NUL # drop (length ?P) b" using b(2) append_take_drop_id [of "length ?P" b] by simp
          then have "drop (length (pre @ ?w)) b = ?k @ NUL # drop (length ?P) b" by (metis append_eq_conv_conj)
          moreover have "NUL \<notin> set ?k" using n by (meson set_takeWhileD)
          ultimately have key: "cstr (drop (length (pre @ ?w)) b) = ?k" using cstr_append by metis
          have P1: "length (pre @ ?w @ ?k) + 1 = length ?P" by simp
          have step: "shconf_loop cb ?b (length pre) st = do {
              st \<leftarrow> cb ?k (fst ?d) st;
              (case nxt of None \<Rightarrow> Some (st, b) | Some lp \<Rightarrow> shconf_loop cb b lp st) }"
            using k c e x w True cs n xe P1 b(1) key b(3)
            by (subst shconf_loop.simps) (auto simp: Let_def)
          have sh: "shconf s = (?k, fst ?d) # (case snd ?d of None \<Rightarrow> [] | Some r \<Rightarrow> shconf r)"
            unfolding shconf.simps [of s] \<open>dropWhile conf_sep s = c # t\<close> list.case Cons using True xe by simp
          show ?thesis
          proof (cases "snd ?d")
            case None
            then show ?thesis using b(4) kp' step sh by (intro exI [of _ b]) (cases "cb ?k (fst ?d) st"; simp)
          next
            case (Some r)
            then obtain j where j: "nxt = Some j" "drop j b = r @ NUL # post" using b(4) by auto
            have "j < length b" using j(2) by (metis append_is_Nil_conv drop_all leI list.distinct(1))
            then have bj: "b = take j b @ r @ NUL # post" "length (take j b) = j" using j(2) append_take_drop_id [of j b] by simp_all
            have nr: "NUL \<notin> set r" using dequote_rest [OF Some] nv by auto
            have lr: "length (take j b) + length r = length pre + length s" using arg_cong [OF bj(1), of length] kp'(1) by simp
            note ih = 1(1) [OF \<open>dropWhile conf_sep s = c # t\<close> _ Cons _ Some nr]
            show ?thesis
            proof (cases "cb ?k (fst ?d) st")
              case None
              then show ?thesis using kp' step sh by (intro exI [of _ b]) simp
            next
              case (Some st1)
              obtain b' where "shconf_loop cb b j st1 = map_option (\<lambda>st. (st, b')) (run_cb cb (shconf r) st1)"
                "length b' = length b" "drop (length pre + length s) b' = NUL # post"
                using ih [of "take j b" st1] True xe bj lr by (auto simp: bj(1) [symmetric])
              then show ?thesis using kp' step sh Some j(1) \<open>snd ?d = Some r\<close> by (intro exI [of _ b']) simp
            qed
          qed
        qed
      qed
    qed
  qed
qed

lemma chomp_split: "\<exists>w. s = HX_chomp s @ w \<and> set w \<subseteq> {CHR 0x0A, CHR 0x0D} \<and>
    (HX_chomp s = [] \<or> last (HX_chomp s) \<notin> {CHR 0x0A, CHR 0x0D})"
  using HX_trim_maximal [of s] by blast

lemma same_split:
  assumes "t @ us = t'" "us @ w' = w" "set w \<subseteq> A" "t' = [] \<or> last t' \<notin> A"
  shows "t = t'"
proof (cases us rule: rev_cases)
  case (snoc ys y)
  then have "last t' = y" "t' \<noteq> []" "y \<in> A" using assms by auto
  then show ?thesis using assms(4) by simp
qed (use assms in simp)

lemma chomp_unique:
  assumes s: "s = t @ w" and w: "set w \<subseteq> {CHR 0x0A, CHR 0x0D}" and t: "t = [] \<or> last t \<notin> {CHR 0x0A, CHR 0x0D}"
  shows "HX_chomp s = t"
proof -
  obtain w' where c: "s = HX_chomp s @ w'" "set w' \<subseteq> {CHR 0x0A, CHR 0x0D}"
    "HX_chomp s = [] \<or> last (HX_chomp s) \<notin> {CHR 0x0A, CHR 0x0D}" using chomp_split by blast
  have "t @ w = HX_chomp s @ w'" using s c(1) by simp
  then obtain us where "t = HX_chomp s @ us \<and> us @ w = w' \<or> t @ us = HX_chomp s \<and> w = us @ w'"
    unfolding append_eq_append_conv2 by blast
  then show ?thesis
  proof
    assume "t = HX_chomp s @ us \<and> us @ w = w'"
    then have "HX_chomp s @ us = t" "us @ w = w'" by simp_all
    then show ?thesis using c(2) t by (rule same_split)
  next
    assume "t @ us = HX_chomp s \<and> w = us @ w'"
    then have "t @ us = HX_chomp s" "us @ w' = w" by simp_all
    then have "t = HX_chomp s" using w c(3) by (rule same_split)
    then show ?thesis by simp
  qed
qed

lemma chomp_append:
  assumes "a = [] \<or> last a \<notin> {CHR 0x0A, CHR 0x0D}"
  shows "HX_chomp (a @ b) = a @ HX_chomp b"
proof -
  obtain w where "b = HX_chomp b @ w" "set w \<subseteq> {CHR 0x0A, CHR 0x0D}"
    "HX_chomp b = [] \<or> last (HX_chomp b) \<notin> {CHR 0x0A, CHR 0x0D}" using chomp_split by blast
  then show ?thesis using assms by (intro chomp_unique [of _ _ w]) (auto simp: last_append)
qed

lemma break_text:
  assumes "NUL \<notin> set s"
  shows "\<exists>b. HX_shconf_break cb (s @ NUL # post) st = map_option (\<lambda>st. (st, b)) (run_cb cb (shconf (HX_chomp s)) st) \<and>
    length b = length (s @ NUL # post) \<and> drop (length s) b = NUL # post"
proof -
  obtain w where w: "s = HX_chomp s @ w" using chomp_split by blast
  have l: "length s = length (HX_chomp s) + length w" using arg_cong [OF w, of length] by simp
  have "chomp_block (s @ NUL # post) = HX_chomp s @ replicate (length w) NUL @ NUL # post"
    using cstr_append [OF assms, of post] l by (simp add: chomp_block_def Let_def)
  also have "\<dots> = [] @ HX_chomp s @ NUL # (replicate (length w) NUL @ post)"
    using replicate_append_same [of "length w" NUL] by (metis append.assoc append_Cons append_Nil)
  finally have c: "chomp_block (s @ NUL # post) = \<dots>" .
  have n: "NUL \<notin> set (HX_chomp s)" using assms w by (metis Un_iff set_append)
  obtain b where b: "shconf_loop cb ([] @ HX_chomp s @ NUL # (replicate (length w) NUL @ post)) (length ([] :: char list)) st =
      map_option (\<lambda>st. (st, b)) (run_cb cb (shconf (HX_chomp s)) st)"
    "length b = length (HX_chomp s @ NUL # (replicate (length w) NUL @ post))"
    "drop (length (HX_chomp s)) b = NUL # replicate (length w) NUL @ post"
    using shconf_loop_text [OF n, of cb "[]" "replicate (length w) NUL @ post" st] by auto
  have "drop (length s) b = drop (length w) (NUL # replicate (length w) NUL @ post)" unfolding l b(3) [symmetric] by (simp add: add.commute)
  also have "NUL # replicate (length w) NUL @ post = replicate (length w) NUL @ NUL # post"
    using replicate_append_same [of "length w" NUL] by (metis append.assoc append_Cons append_Nil)
  finally show ?thesis using b(1,2) l by (intro exI [of _ b]) (simp add: HX_shconf_break_def c)
qed

section \<open>Properties of a line\<close>

text \<open>C12: The in-place loop is the assignments of the line without its terminators, whatever the line holds: the callback is
  run for each of them in order, no byte outside the line is written, its end stays where it was, and the only
  fault is one of the callback.\<close>

theorem HX_shconf_break_refines:
  assumes "NUL \<notin> set s"
  shows "\<exists>b. HX_shconf_break cb (s @ NUL # post) st = map_option (\<lambda>st. (st, b)) (run_cb cb (shconf (HX_chomp s)) st) \<and>
    length b = length (s @ NUL # post) \<and> drop (length s) b = NUL # post"
  by (rule break_text [OF assms])

theorem HX_shconf_break_refines_witness:
  "\<exists>b. HX_shconf_break (\<lambda>k v st. Some ((k, v) # st)) (''a=1;b=2'' @ NUL # ''xy'') [] =
      map_option (\<lambda>st. (st, b)) (run_cb (\<lambda>k v st. Some ((k, v) # st)) (shconf (HX_chomp ''a=1;b=2'')) []) \<and>
    length b = length (''a=1;b=2'' @ NUL # ''xy'') \<and> drop (length ''a=1;b=2'') b = NUL # ''xy''"
  by (rule HX_shconf_break_refines) simp

text \<open>Lines that are written for this reader: separators, a name, an equals sign and the value in quotes, as often as one
  likes, and at the end a comment or nothing.\<close>

type_synonym conf_item = "char list \<times> char list \<times> char \<times> char list"

definition conf_quote :: "char \<Rightarrow> char list \<Rightarrow> char list" where
  "conf_quote q v = q # HX_quote_backslash v (qchars (HX_quote_rules ! (if q = DQ then HXQUOTE_DQUOTE else HXQUOTE_SQUOTE))) @ [q]"

fun conf_text :: "conf_item list \<Rightarrow> char list" where
  "conf_text [] = []"
| "conf_text ((w, k, q, v) # its) = w @ k @ CHR ''='' # conf_quote q v @ conf_text its"

fun conf_ok :: "conf_item list \<Rightarrow> char list \<Rightarrow> bool" where
  "conf_ok [] fin = (case dropWhile conf_sep fin of [] \<Rightarrow> True | c # _ \<Rightarrow> c = CHR ''#'')"
| "conf_ok ((w, k, q, v) # its) fin \<longleftrightarrow> filter conf_sep w = w \<and> (case k of [] \<Rightarrow> False | c # _ \<Rightarrow> conf_start c) \<and> filter conf_word k = k \<and>
     (q = DQ \<or> q = SQ) \<and> NUL \<notin> set v \<and> (case conf_text its @ fin of [] \<Rightarrow> True | c # _ \<Rightarrow> c \<in> set conf_stops) \<and> conf_ok its fin"

lemma shconf_sep: "conf_sep c \<Longrightarrow> shconf (c # s) = shconf s"
  by (simp add: shconf.simps [of "c # s"] shconf.simps [of s])

lemma shconf_end: "case dropWhile conf_sep fin of [] \<Rightarrow> True | c # _ \<Rightarrow> c = CHR ''#'' \<Longrightarrow> shconf fin = []"
proof (cases "dropWhile conf_sep fin")
  case Nil
  then show ?thesis unfolding shconf.simps [of fin] Nil list.case by simp
next
  case (Cons c t)
  moreover assume "case dropWhile conf_sep fin of [] \<Rightarrow> True | c # _ \<Rightarrow> c = CHR ''#''"
  moreover have "\<not> conf_start (CHR ''#'')" by (simp add: conf_start_def isalpha_def isupper_def islower_def)
  ultimately show ?thesis unfolding shconf.simps [of fin] Cons by simp
qed

lemma stops_sep: "c \<in> set conf_stops \<Longrightarrow> conf_sep c \<and> stops_at (Some conf_stops) c \<and> c \<notin> {DQ, SQ, BS}"
  unfolding conf_stops_at by (auto simp: conf_stops_def conf_sep_def isspace_def)

lemma quote_dequote:
  assumes "q = DQ \<or> q = SQ" "case rest of [] \<Rightarrow> True | c # _ \<Rightarrow> c \<in> set conf_stops"
  shows "dequote (Some conf_stops) NUL (conf_quote q v @ rest) = (v, case rest of [] \<Rightarrow> None | c # r \<Rightarrow> Some r)"
proof -
  have "set (qchars (HX_quote_rules ! (if q = DQ then HXQUOTE_DQUOTE else HXQUOTE_SQUOTE))) = {q, BS}"
    using assms(1) by (auto simp: HX_quote_rules_def quote_types)
  then have "conf_quote q v = q # HX_quote_backslash v [q, BS] @ [q]" by (simp add: conf_quote_def backslash_all)
  then have "dequote (Some conf_stops) NUL (conf_quote q v @ rest) = apfst ((@) v) (dequote (Some conf_stops) NUL rest)"
    using dequote_open [OF assms(1)] by simp
  then show ?thesis using assms(2) stops_sep dequote_stop [of "Some conf_stops"] by (cases rest) auto
qed

lemma shconf_item:
  assumes "conf_ok ((w, k, q, v) # its) fin"
  shows "shconf (conf_text ((w, k, q, v) # its) @ fin) = (k, v) # shconf (conf_text its @ fin)"
proof -
  let ?rest = "conf_text its @ fin"
  obtain c t where k: "k = c # t" "conf_start c" using assms by (cases k) auto
  have kw: "\<forall>x \<in> set k. conf_word x" using assms by (simp add: filter_id_conv)
  have c: "\<not> conf_sep c" using k(2)
    by (auto simp: conf_start_def conf_sep_def isalpha_def isupper_def islower_def isspace_def)
  have "\<forall>x \<in> set w. conf_sep x" using assms by (simp add: filter_id_conv)
  then have "dropWhile conf_sep (conf_text ((w, k, q, v) # its) @ fin) = k @ CHR ''='' # conf_quote q v @ ?rest"
    using k c by (simp add: dropWhile_append2)
  moreover have "\<not> conf_word (CHR ''='')" by (simp add: conf_word_def isalnum_def isalpha_def isdigit_def isupper_def islower_def)
  then have "takeWhile conf_word (k @ CHR ''='' # conf_quote q v @ ?rest) = k"
    "dropWhile conf_word (k @ CHR ''='' # conf_quote q v @ ?rest) = CHR ''='' # conf_quote q v @ ?rest"
    using kw by (simp_all add: takeWhile_append2 dropWhile_append2)
  moreover have "dequote (Some conf_stops) NUL (conf_quote q v @ ?rest) = (v, case ?rest of [] \<Rightarrow> None | c # r \<Rightarrow> Some r)"
    using assms by (intro quote_dequote) auto
  moreover have "(case (case ?rest of [] \<Rightarrow> None | c # r \<Rightarrow> Some r) of None \<Rightarrow> [] | Some r \<Rightarrow> shconf r) = shconf ?rest"
  proof (cases ?rest)
    case Nil
    then show ?thesis unfolding Nil by (simp add: shconf.simps [of "[]"])
  next
    case (Cons x r)
    then have "conf_sep x" using assms stops_sep [of x] by (simp split: list.splits)
    then show ?thesis unfolding Cons by (simp add: shconf_sep)
  qed
  ultimately show ?thesis using k unfolding shconf.simps [of "conf_text ((w, k, q, v) # its) @ fin"] by simp
qed

lemma shconf_items: "conf_ok its fin \<Longrightarrow> shconf (conf_text its @ fin) = map (\<lambda>(w, k, q, v). (k, v)) its"
proof (induction its)
  case Nil
  then show ?case using shconf_end by simp
next
  case (Cons it its)
  obtain w k q v where it: "it = (w, k, q, v)" by (cases it)
  then have "conf_ok its fin" using Cons.prems by simp
  then show ?case using shconf_item [of w k q v its fin] Cons unfolding it by simp
qed

lemma conf_text_last: "conf_ok its fin \<Longrightarrow> conf_text its = [] \<or> last (conf_text its) = DQ \<or> last (conf_text its) = SQ"
proof (induction its)
  case (Cons it its)
  obtain w k q v where it: "it = (w, k, q, v)" by (cases it)
  then have "conf_text its = [] \<or> last (conf_text its) = DQ \<or> last (conf_text its) = SQ" using Cons by simp
  moreover have "conf_quote q v \<noteq> []" "last (conf_quote q v) = q" by (simp_all add: conf_quote_def)
  ultimately show ?case using Cons.prems it by (cases "conf_text its = []") simp_all
qed simp

lemma chomp_hd: "HX_chomp fin = [] \<or> (\<exists>t. HX_chomp fin = hd fin # t \<and> fin \<noteq> [])"
proof -
  obtain w where "fin = HX_chomp fin @ w" using chomp_split by blast
  then show ?thesis by (metis append_Cons list.exhaust list.sel(1) list.distinct(1))
qed

lemma chomp_end_ok:
  assumes "case dropWhile conf_sep fin of [] \<Rightarrow> True | c # _ \<Rightarrow> c = CHR ''#''"
  shows "case dropWhile conf_sep (HX_chomp fin) of [] \<Rightarrow> True | c # _ \<Rightarrow> c = CHR ''#''"
proof (cases "dropWhile conf_sep (HX_chomp fin)")
  case (Cons c t)
  obtain w where w: "fin = HX_chomp fin @ w" using chomp_split by blast
  have "\<exists>x \<in> set (HX_chomp fin). \<not> conf_sep x" using Cons by (metis dropWhile_eq_Nil_conv list.distinct(1))
  then have "dropWhile conf_sep fin = (c # t) @ w" using w Cons by (metis dropWhile_append1)
  then show ?thesis using assms Cons by simp
next
  case Nil
  show ?thesis unfolding Nil by simp
qed

lemma conf_ok_chomp: "conf_ok its fin \<Longrightarrow> conf_ok its (HX_chomp fin)"
proof (induction its)
  case Nil
  then show ?case using chomp_end_ok by simp
next
  case (Cons it its)
  obtain w k q v where it: "it = (w, k, q, v)" by (cases it)
  then have "case conf_text its @ fin of [] \<Rightarrow> True | c # _ \<Rightarrow> c \<in> set conf_stops" using Cons.prems by simp
  then have "case conf_text its @ HX_chomp fin of [] \<Rightarrow> True | c # _ \<Rightarrow> c \<in> set conf_stops"
    using chomp_hd [of fin] by (cases "conf_text its"; cases fin) auto
  then show ?case using Cons it by simp
qed

lemma conf_text_no_NUL: "conf_ok its fin \<Longrightarrow> NUL \<notin> set (conf_text its)"
proof (induction its)
  case (Cons it its)
  obtain w k q v where it: "it = (w, k, q, v)" by (cases it)
  then have "\<forall>x \<in> set w. conf_sep x" "\<forall>x \<in> set k. conf_word x" using Cons.prems by (simp_all add: filter_id_conv)
  then have "NUL \<notin> set w" "NUL \<notin> set k" using no_NUL_conf by blast+
  moreover have "NUL \<notin> set (conf_quote q v)" using Cons.prems it backslash_no_NUL by (auto simp: conf_quote_def)
  ultimately show ?case using Cons it by simp
qed simp

text \<open>C11: A line of assignments whose values are quoted by \<open>HX_strquote\<close>'s rules and put between single or double quotes is
  read as exactly these assignments: names, and values of any content -- separators, comment signs, line ends and
  both kinds of quotes included.\<close>

theorem HX_shconf_break_roundtrip:
  assumes "conf_ok its fin" "NUL \<notin> set fin"
  shows "\<exists>b. HX_shconf_break cb (conf_text its @ fin @ NUL # post) st =
    map_option (\<lambda>st. (st, b)) (run_cb cb (map (\<lambda>(w, k, q, v). (k, v)) its) st)"
proof -
  have "HX_chomp (conf_text its @ fin) = conf_text its @ HX_chomp fin"
    using conf_text_last [OF assms(1)] by (intro chomp_append) auto
  then have "shconf (HX_chomp (conf_text its @ fin)) = map (\<lambda>(w, k, q, v). (k, v)) its"
    using shconf_items [OF conf_ok_chomp [OF assms(1)]] by simp
  moreover have "NUL \<notin> set (conf_text its @ fin)" using conf_text_no_NUL [OF assms(1)] assms(2) by simp
  ultimately show ?thesis using break_text [of "conf_text its @ fin" cb post st] by auto
qed

theorem HX_shconf_break_roundtrip_witness:
  "\<exists>b. HX_shconf_break (\<lambda>k v st. Some ((k, v) # st)) (conf_text [('' '', ''a'', DQ, ''x;#y''), ('';'', ''b_2'', SQ, [SQ, NL, DQ])] @ '' # end'' @ NUL # []) [] =
    map_option (\<lambda>st. (st, b)) (run_cb (\<lambda>k v st. Some ((k, v) # st)) (map (\<lambda>(w, k, q, v). (k, v)) [('' '', ''a'', DQ, ''x;#y''), ('';'', ''b_2'', SQ, [SQ, NL, DQ])]) [])"
  by (rule HX_shconf_break_roundtrip)
    (simp_all add: conf_sep_def conf_word_def conf_start_def isspace_def isalnum_def isalpha_def isdigit_def isupper_def islower_def conf_stops_def)

end
