(* ===== verification/HX_Strmap.thy ===== *)
theory HX_Strmap
  imports HX_Map HX_String
begin

text \<open>
  Maps with string keys, as other parts of the library use them: hash maps made with \<^verbatim>\<open>HXMAP_SCKEY\<close>, that is with
  \<^verbatim>\<open>strcmp\<close>, \<^verbatim>\<open>HX_strdup\<close> and \<open>HXhash_djb2\<close> for the keys. \<open>str_holds\<close> says what such a map holds; the lemmas
  rest on the ones of the hash map.
\<close>

section \<open>String keys\<close>

text \<open>\<^verbatim>\<open>strcmp\<close> compares the bytes as unsigned numbers.\<close>

fun strcmp :: "char list \<Rightarrow> char list \<Rightarrow> int" where
  "strcmp [] [] = 0"
| "strcmp [] (b # bs) = -1"
| "strcmp (a # as) [] = 1"
| "strcmp (a # as) (b # bs) =
     (if a = b then strcmp as bs else if (of_char a :: nat) < of_char b then -1 else 1)"

text \<open>The table of the C library, with the functions for strings as they are; an allocation for a key does not fail.
  (\<^verbatim>\<open>NULL\<close> is not a key of these maps.)\<close>

definition str_keys :: "(char list, 'd) std_fns \<Rightarrow> (char list, 'd) std_fns" where
  "str_keys std = std\<lparr>
     f_strcmp := (\<lambda>a b. case (a, b) of (Some a, Some b) \<Rightarrow> strcmp a b | _ \<Rightarrow> 0),
     f_kstrdup := HX_strdup True,
     f_djb2 := (\<lambda>k. case k of None \<Rightarrow> 0 | Some s \<Rightarrow> HXhash_djb2 s)\<rparr>"

lemma strcmp_eq [simp]: "strcmp a b = 0 \<longleftrightarrow> a = b"
  by (induction a b rule: strcmp.induct) auto

definition str_ops :: "(char list, 'd) HXmap_ops \<Rightarrow> bool" where
  "str_ops ops \<longleftrightarrow> (\<forall>a b. k_compare ops (Some a) (Some b) = strcmp a b) \<and> (\<forall>a. k_clone ops (Some a) = Some a) \<and>
     (\<forall>a. k_hash ops (Some a) = HXhash_djb2 a)"

lemma str_opsD:
  assumes "str_ops ops"
  shows "key_eq ops (Some a) (Some b) \<longleftrightarrow> a = b" "k_clone ops (Some a) = Some a"
  using assms by (simp_all add: str_ops_def key_eq_def)

lemma str_hash_laws:
  assumes "str_ops ops"
  shows "hash_laws ops (\<lambda>k. k \<noteq> None)"
proof -
  have "k_compare ops a b = 0 \<longleftrightarrow> a = b" if "a \<noteq> None" "b \<noteq> None" for a b
    using that str_opsD(1) [OF assms] by (auto simp: key_eq_def)
  moreover have "k_clone ops a = a" if "a \<noteq> None" for a using that str_opsD(2) [OF assms] by auto
  ultimately show ?thesis by (auto simp: hash_laws_def clone_law_def)
qed

section \<open>What a map holds\<close>

text \<open>A map that replaces, with copies \<open>cp\<close> of the data, with nodes at addresses in \<open>A\<close>, of which there are at most
  \<open>n\<close>, and with the contents \<open>f\<close>.\<close>

definition str_holds :: "('d option \<Rightarrow> 'd option) \<Rightarrow> (char list, 'd) HXmap \<Rightarrow> addr set \<Rightarrow> nat \<Rightarrow> (char list \<Rightarrow> 'd option option) \<Rightarrow> bool" where
  "str_holds cp m A n f \<longleftrightarrow> (\<exists>h. m = M_hash h \<and> umap_ok (\<lambda>k. k \<noteq> None) h \<and> str_ops (u_ops h) \<and> d_clone (u_ops h) = cp \<and>
     \<not> has_flag (u_flags h) HXMAP_NOREPLACE \<and> \<not> has_flag (u_flags h) HXMAP_SINGULAR \<and> u_addr ` set (u_nodes h) \<subseteq> A \<and>
     unat (u_items h) \<le> n \<and> (\<forall>k. HXumap_get h (Some k) = f k))"

lemma str_holds_get:
  assumes "str_holds cp m A n f"
  shows "HXmap_get m (Some k) = Some (case f k of None \<Rightarrow> (None, Some ENOENT) | Some d \<Rightarrow> (d, None))"
    "\<exists>k'. HXmap_find m (Some k) = Some (map_option (\<lambda>d. (k', d)) (f k))"
proof -
  obtain h where h: "m = M_hash h" "umap_ok (\<lambda>k. k \<noteq> None) h" "HXumap_get h (Some k) = f k"
    using assms by (auto simp: str_holds_def)
  show "\<exists>k'. HXmap_find m (Some k) = Some (map_option (\<lambda>d. (k', d)) (f k))"
    by (rule get_cases [OF h(2), of "Some k"]) (use h in \<open>auto simp: HXmap_find_def\<close>)
  then show "HXmap_get m (Some k) = Some (case f k of None \<Rightarrow> (None, Some ENOENT) | Some d \<Rightarrow> (d, None))"
    by (auto simp: HXmap_get_def split: option.splits)
qed

lemma str_holds_add:
  assumes m: "str_holds cp m A n f" and a: "a \<notin> A" and n: "n < 2 ^ 64 - 1" and v: "cp v \<noteq> None \<or> v = None"
  shows "\<exists>m' ev. HXmap_add m (Some k) v True (Some a) = Some (Inr (), m', ev) \<and>
    str_holds cp m' (insert a A) (Suc n) (f(k := Some (cp v)))"
proof -
  obtain h where h: "m = M_hash h" "umap_ok (\<lambda>k. k \<noteq> None) h" "str_ops (u_ops h)" "d_clone (u_ops h) = cp"
    "\<not> has_flag (u_flags h) HXMAP_NOREPLACE" "\<not> has_flag (u_flags h) HXMAP_SINGULAR" "u_addr ` set (u_nodes h) \<subseteq> A"
    "unat (u_items h) \<le> n" "\<And>k. HXumap_get h (Some k) = f k"
    using m by (auto simp: str_holds_def)
  have c: "\<not> clone_failed (k_clone (u_ops h) (Some k)) (Some k)" "\<not> clone_failed (d_clone (u_ops h) v) v"
    using h(3,4) v by (auto simp: clone_failed_def str_opsD)
  have i: "unat (u_items h) < 2 ^ 64 - 1" using h(8) n by simp
  have "\<exists>h' ev. HXumap_add h (Some k) v True (Some a) = Some (Inr (), h', ev) \<and> u_addr ` set (u_nodes h') \<subseteq> insert a A \<and>
      unat (u_items h') \<le> Suc n"
  proof (rule get_cases [OF h(2), of "Some k"])
    fix x assume x: "x \<in> set (u_nodes h)" "HXumap_find h (Some k) = Some (Some x)"
    obtain h' where h': "HXumap_replace h x v = (Inr (), h', dfree (u_ops h) (u_data x))" "u_items h' = u_items h"
      "set (u_nodes h') = insert (x\<lparr>u_data := d_clone (u_ops h) v\<rparr>) (set (u_nodes h) - {x})"
      by (rule replace_spec [OF h(2) x(1) h(5) c(2)])
    have "u_addr ` set (u_nodes h') \<subseteq> A" unfolding h'(3) using h(7) x(1) by auto
    then show ?thesis using h'(1,2) x(2) h(8) by (intro exI [of _ h']) (auto simp: HXumap_add_def)
  next
    assume x: "HXumap_get h (Some k) = None"
    have "a \<notin> u_addr ` set (u_nodes h)" using a h(7) by blast
    then obtain h' where h': "HXumap_add h (Some k) v True (Some a) = Some (Inr (), h', [])" "u_items h' = u_items h + 1"
      "mset (u_nodes h') = add_mset \<lparr>u_addr = a, u_key = k_clone (u_ops h) (Some k), u_data = d_clone (u_ops h) v\<rparr> (mset (u_nodes h))"
      using add_new_spec [OF h(2) _ x _ i c] by blast
    have "set (u_nodes h') = insert \<lparr>u_addr = a, u_key = k_clone (u_ops h) (Some k), u_data = d_clone (u_ops h) v\<rparr> (set (u_nodes h))"
      using h'(3) by (metis set_mset_add_mset_insert set_mset_mset)
    moreover have "unat (u_items h + 1) \<le> Suc n" using unat_plus_if' [of "u_items h" 1] i h(8) by simp
    ultimately show ?thesis using h'(1,2) h(7) by (intro exI [of _ h'] exI [of _ "[]"]) auto
  qed auto
  then obtain h' ev where h': "HXumap_add h (Some k) v True (Some a) = Some (Inr (), h', ev)"
    "u_addr ` set (u_nodes h') \<subseteq> insert a A" "unat (u_items h') \<le> Suc n" by blast
  have g: "umap_good h (Some k) v (True, Some a)" using a h(7) i c by (auto simp: umap_good_def)
  have e: "umap_add h (Some k) v (True, Some a) = h'" by (simp add: umap_add_def h'(1))
  have l: "umap_ok (\<lambda>k. k \<noteq> None) h'" "u_ops h' = u_ops h" "u_flags h' = u_flags h"
    "\<forall>x. x \<noteq> None \<longrightarrow> HXumap_get h' x = (if key_eq (u_ops h) x (Some k) then Some (d_clone (u_ops h) v) else HXumap_get h x)"
    using umap_add_law [OF h(2) _ g] h(5) unfolding e by (simp_all add: umap_may_def)
  have "HXumap_get h' (Some x) = (f(k := Some (cp v))) x" for x
    using l(4) h(9,4) str_opsD(1) [OF h(3)] by simp
  then have "str_holds cp (M_hash h') (insert a A) (Suc n) (f(k := Some (cp v)))"
    using l(1-3) h' h by (simp add: str_holds_def)
  moreover have "HXmap_add m (Some k) v True (Some a) = Some (Inr (), M_hash h', ev)"
    using h(1,6) h'(1) by (simp add: HXmap_add_def map_flags_of_def)
  ultimately show ?thesis by blast
qed

lemma str_holds_init:
  assumes o: "str_ops (HXmap_ops_setup std True flags ks ops)"
    and f: "\<not> has_flag flags HXMAP_NOREPLACE" "\<not> has_flag flags HXMAP_SINGULAR"
  shows "\<exists>m. HXmap_init5 std True True HXMAPT_HASH flags ops ks = Some (Inr m) \<and>
    str_holds (d_clone (HXmap_ops_setup std True flags ks ops)) m {} 0 (\<lambda>_. None)"
proof -
  obtain h where h: "HXhashmap_init4 std True True flags ops ks = Some (Some h)" "umap_ok (\<lambda>k. k \<noteq> None) h"
    "u_ops h = HXmap_ops_setup std True flags ks ops" "u_nodes h = []" "u_flags h = flags" "u_items h = 0"
    by (rule init_ok [OF str_hash_laws [OF o]])
  have "HXumap_get h (Some k) = None" for k by (rule get_miss [OF h(2)]) (simp_all add: h(4))
  then have "str_holds (d_clone (HXmap_ops_setup std True flags ks ops)) (M_hash h) {} 0 (\<lambda>_. None)"
    using h o f by (simp add: str_holds_def)
  moreover have "HXmap_init5 std True True HXMAPT_HASH flags ops ks = Some (Inr (M_hash h))"
    by (simp add: HXmap_init5_def h(1))
  ultimately show ?thesis by blast
qed

lemma str_keys_ops:
  assumes "has_flag flags HXMAP_SKEY" "has_flag flags HXMAP_CKEY"
    and "ops = None \<or> (\<exists>o'. ops = Some o' \<and> n_compare o' = None \<and> n_kclone o' = None \<and> n_hash o' = None)"
  shows "str_ops (HXmap_ops_setup (str_keys std) True flags ks ops)"
  using assms by (auto simp: str_ops_def HXmap_ops_setup_def str_keys_def or_user_def HX_strdup_def Let_def)

end
