(* ===== verification/HX_Shfile.thy ===== *)
theory HX_Shfile
  imports HX_Shconf HX_Strmap
begin

text \<open>
  Whole configuration files, from \<^verbatim>\<open>src/opt.c\<close>: \<open>HX_shconfig\<close> for option tables, \<open>HX_shconfig_map\<close> for maps,
  \<open>HX_shconfig_pv\<close> for a path of directories, and \<open>HX_shconfig_free\<close>.

  A file is the text that the function \<open>fs\<close> has for its name, or the error of \<^verbatim>\<open>fopen\<close>. \<open>mem n\<close> are
  the allocations of the \<open>n\<close>-th call of \<open>HX_getl\<close>, whose container is used for all lines.
\<close>

section \<open>The lines of a file\<close>

lemma getl_loop_shorter: "getl_loop mem k p t fp = Some (p', fp') \<Longrightarrow> length fp' \<le> length fp"
proof (induction mem k p t fp arbitrary: p' fp' rule: getl_loop.induct)
  case (1 mem k p t fp)
  obtain ok q where q: "HXmc_strcat (mem k) p (Some (cstr t)) = Some (ok, q)"
    using 1(2) by (subst (asm) getl_loop.simps) (auto simp: bind_eq_Some_conv)
  note step = 1(2) [unfolded getl_loop.simps [of mem k p t fp] q Option.bind.simps prod.case]
  show ?case
  proof (cases "\<not> ok \<or> strchr (cstr t) (CHR 0x0A) \<noteq> None \<or> fgets fp = None")
    case True
    then show ?thesis using step by (auto split: if_splits)
  next
    case False
    then obtain t2 r where f: "fgets fp = Some (t2, r)" by auto
    then have "getl_loop mem (Suc k) q t2 r = Some (p', fp')" using step False by simp
    then have "length fp' \<le> length r" using 1(1) [OF q refl _ _ f refl] False by simp
    then show ?thesis using fgets_shorter [OF f] by simp
  qed
qed

lemma getl_shorter: "HX_getl mem p fp = Some (Some c, q, fp') \<Longrightarrow> length fp' < length fp"
  unfolding HX_getl_def
  by (auto simp: bind_eq_Some_conv split: option.splits if_splits dest!: fgets_shorter getl_loop_shorter)

text \<open>\<^verbatim>\<open>while (HX_getl(&ln, fp) != NULL) HX_shconf_break(ptr, ln, cb);\<close>\<close>

function conf_lines :: "(char list \<Rightarrow> char list \<Rightarrow> 's \<Rightarrow> 's option) \<Rightarrow> (nat \<Rightarrow> nat \<Rightarrow> mem) \<Rightarrow> nat \<Rightarrow> memcont option \<Rightarrow> char list \<Rightarrow> 's \<Rightarrow>
    ('s \<times> memcont option) option" where
  "conf_lines cb mem n p fp st = do {
     (r, q) \<leftarrow> HX_getl (mem n) p fp;
     (case r of
        None \<Rightarrow> Some (st, fst q)
      | Some c \<Rightarrow> do {
          (st, b) \<leftarrow> HX_shconf_break cb (mc_data c) st;
          conf_lines cb mem (n + 1) (Some (c\<lparr>mc_data := b\<rparr>)) (snd q) st
        })
   }"
  by pat_completeness auto
termination
  by (relation "measure (\<lambda>(cb, mem, n, p, fp, st). length fp)") (auto dest: getl_shorter)

declare conf_lines.simps [simp del]

section \<open>Tables\<close>

definition HX_shconf_assign :: "'f fpops \<Rightarrow> (nat \<Rightarrow> mem) \<Rightarrow> 'f callback HXoption list \<Rightarrow> char list \<Rightarrow> char list \<Rightarrow> 'f opt_state \<Rightarrow> 'f opt_state option" where
  "HX_shconf_assign fp mem table key value st =
     (case lookup_long table key of
        None \<Rightarrow> Some st
      | Some opt \<Rightarrow> map_option snd (do_assign fp mem opt None \<lparr>cb_data = Some value, cb_value = Long 0, cb_flags = HXOPTCB_BY_LONG\<rparr> st))"

type_synonym files = "char list \<Rightarrow> errno + char list"

text \<open>The return value is 1, or a negative error number.\<close>

definition HX_shconfig :: "'f fpops \<Rightarrow> (nat \<Rightarrow> mem) \<Rightarrow> (nat \<Rightarrow> nat \<Rightarrow> mem) \<Rightarrow> files \<Rightarrow> char list \<Rightarrow> 'f callback HXoption list \<Rightarrow> 'f opt_state \<Rightarrow>
    ((errno + nat) \<times> 'f opt_state) option" where
  "HX_shconfig fp mem lmem fs file table st =
     (case fs file of
        Inl e \<Rightarrow> Some (Inl e, st)
      | Inr text \<Rightarrow> map_option (\<lambda>(st, ln). (Inr 1, st)) (conf_lines (HX_shconf_assign fp mem table) lmem 0 None text st))"

definition SHCONF_ONE :: u32 where "SHCONF_ONE = 1"

text \<open>The name is cut off where the buffer ends.\<close>

fun HX_shconfig_pv :: "'f fpops \<Rightarrow> (nat \<Rightarrow> mem) \<Rightarrow> (nat \<Rightarrow> nat \<Rightarrow> mem) \<Rightarrow> files \<Rightarrow> char list list \<Rightarrow> char list \<Rightarrow> 'f callback HXoption list \<Rightarrow> u32 \<Rightarrow>
    u32 \<Rightarrow> 'f opt_state \<Rightarrow> (u32 \<times> 'f opt_state) option" where
  "HX_shconfig_pv fp mem lmem fs [] file table flags ret st = Some (ret, st)"
| "HX_shconfig_pv fp mem lmem fs (p # path) file table flags ret st = do {
     (v, st) \<leftarrow> HX_shconfig fp mem lmem fs (take (MAXFNLEN - 1) (p @ ''/'' @ file)) table st;
     (case v of
        Inl e \<Rightarrow> HX_shconfig_pv fp mem lmem fs path file table flags ret st
      | Inr _ \<Rightarrow>
          if flags AND SHCONF_ONE \<noteq> 0 then Some (ret + 1, st)
          else HX_shconfig_pv fp mem lmem fs path file table flags (ret + 1) st)
   }"

text \<open>The addresses of the variables whose strings are released. The loop ends at the first entry without a long name.\<close>

fun free_strings :: "'cb HXoption list \<Rightarrow> 'f opt_state \<Rightarrow> addr list option" where
  "free_strings [] st = Some []"
| "free_strings (t # table) st =
     (if ln t = None then Some []
      else if otype t = HXTYPE_STRING \<and> oflags t = 0 then
        (case optr t of
           None \<Rightarrow> free_strings table st
         | Some a \<Rightarrow>
             (case cells st a of
                Some (CStr None) \<Rightarrow> free_strings table st
              | Some (CStr (Some _)) \<Rightarrow> map_option ((#) a) (free_strings table st)
              | _ \<Rightarrow> None))
      else free_strings table st)"

definition HX_shconfig_free :: "'cb HXoption list option \<Rightarrow> 'f opt_state \<Rightarrow> addr list option" where
  "HX_shconfig_free table st = (case table of None \<Rightarrow> Some [] | Some t \<Rightarrow> free_strings t st)"

section \<open>Maps\<close>

text \<open>The allocations of the additions are taken from \<open>alloc\<close>; what \<open>HXmap_add\<close> returns is not looked at.\<close>

type_synonym str_map = "(char list, char list) HXmap"

definition HX_shconf_assignmp :: "(nat \<Rightarrow> bool \<times> ptr) \<Rightarrow> char list \<Rightarrow> char list \<Rightarrow> str_map \<times> nat \<Rightarrow> (str_map \<times> nat) option" where
  "HX_shconf_assignmp alloc key value st =
     (case st of (m, k) \<Rightarrow> do {
        (r, m, ev) \<leftarrow> HXmap_add m (Some key) (Some value) (fst (alloc k)) (snd (alloc k));
        Some (m, k + 1)
      })"

text \<open>\<open>Inl\<close> is \<^verbatim>\<open>NULL\<close>, with the error of \<^verbatim>\<open>fopen\<close> or that of \<open>HXmap_init\<close>.\<close>

definition HX_shconfig_map :: "(char list, char list) std_fns \<Rightarrow> bool \<Rightarrow> bool \<Rightarrow> (nat \<Rightarrow> bool \<times> ptr) \<Rightarrow> (nat \<Rightarrow> nat \<Rightarrow> mem) \<Rightarrow> files \<Rightarrow> char list \<Rightarrow>
    (errno_val option + str_map) option" where
  "HX_shconfig_map std ok lay_ok alloc lmem fs file = do {
     r \<leftarrow> HXmap_init std ok lay_ok HXMAPT_HASH (HXMAP_SCKEY OR HXMAP_SCDATA);
     (case r of
        Inl e \<Rightarrow> Some (Inl e)
      | Inr m \<Rightarrow>
          (case fs file of
             Inl e \<Rightarrow> do { ev \<leftarrow> HXmap_free (Some m); Some (Inl (Some (Pos e))) }
           | Inr text \<Rightarrow> do {
               (st, ln) \<leftarrow> conf_lines (HX_shconf_assignmp alloc) lmem 0 None text (m, 0);
               Some (Inr (fst st))
             }))
   }"

section \<open>Properties of files\<close>

function file_lines :: "char list \<Rightarrow> char list list" where
  "file_lines s = (if s = [] then [] else line_of s # file_lines (drop (length (line_of s)) s))"
  by pat_completeness auto
termination
proof (relation "measure length")
  fix s :: "char list"
  assume "s \<noteq> []"
  then have "line_of s \<noteq> []" by (cases s) (auto simp: line_of_def)
  then show "(drop (length (line_of s)) s, s) \<in> measure length" using \<open>s \<noteq> []\<close> by simp
qed simp

declare file_lines.simps [simp del]

definition file_assignments :: "char list \<Rightarrow> (char list \<times> char list) list" where
  "file_assignments s = concat (map (\<lambda>l. shconf (HX_chomp l)) (file_lines s))"

lemma conf_lines_text:
  assumes m: "\<forall>n k. mem n k \<noteq> None" and p: "p = None \<or> (\<exists>c. p = Some c \<and> mc_ok c)"
    and s: "NUL \<notin> set fp" "length fp \<le> mc_max"
  shows "\<exists>q. conf_lines cb mem n p fp st = map_option (\<lambda>st. (st, q)) (run_cb cb (file_assignments fp) st)"
  using p s
proof (induction fp arbitrary: n p st rule: file_lines.induct)
  case (1 s)
  show ?case
  proof (cases "s = []")
    case True
    then have "HX_getl (mem n) p s = Some (None, p, s)" by (simp add: HX_getl_def fgets_def)
    then show ?thesis using True
      by (intro exI [of _ p]) (subst conf_lines.simps, simp add: file_assignments_def file_lines.simps)
  next
    case False
    let ?l = "line_of s"
    have "\<forall>k. mem n k \<noteq> None" using m by blast
    from getl_line [OF this 1(2) False 1(3,4)] obtain c where c: "HX_getl (mem n) p s = Some (Some c, Some c, drop (length ?l) s)"
      "mc_ok c" "mc_content c = ?l" by blast
    have sl: "s = ?l @ drop (length ?l) s" by (rule line_of_prefix)
    then have nl: "NUL \<notin> set ?l" using 1(3) by (metis Un_iff set_append)
    define post where "post = drop (Suc (unat (mc_length c))) (mc_data c)"
    have d: "mc_data c = ?l @ NUL # post" using mc_data_split [OF c(2)] unfolding c(3) post_def .
    have len: "length ?l = unat (mc_length c)" unfolding c(3) [symmetric] using mc_okD [OF c(2)] by (simp add: mc_content_def)
    obtain b where b: "HX_shconf_break cb (mc_data c) st = map_option (\<lambda>st. (st, b)) (run_cb cb (shconf (HX_chomp ?l)) st)"
      "length b = length (mc_data c)" "drop (length ?l) b = NUL # post"
      using break_text [OF nl, of cb post st] unfolding d by blast
    have "b ! length ?l = NUL" using b(3) by (metis append_take_drop_id hd_drop_conv_nth list.sel(1) drop_all leI list.distinct(1))
    then have ok: "mc_ok (c\<lparr>mc_data := b\<rparr>)" using c(2) b(2) len by (simp add: mc_ok_def)
    have fa: "file_assignments s = shconf (HX_chomp ?l) @ file_assignments (drop (length ?l) s)"
      using False by (simp add: file_assignments_def file_lines.simps [of s])
    show ?thesis
    proof (cases "run_cb cb (shconf (HX_chomp ?l)) st")
      case None
      then show ?thesis using c(1) b(1) fa by (subst conf_lines.simps) (simp add: run_cb_append)
    next
      case (Some st1)
      have "NUL \<notin> set (drop (length ?l) s)" "length (drop (length ?l) s) \<le> mc_max" using 1(3,4) by (auto dest: in_set_dropD)
      then obtain q where "conf_lines cb mem (n + 1) (Some (c\<lparr>mc_data := b\<rparr>)) (drop (length ?l) s) st1 =
          map_option (\<lambda>st. (st, q)) (run_cb cb (file_assignments (drop (length ?l) s)) st1)"
        using 1(1) [OF False, of "Some (c\<lparr>mc_data := b\<rparr>)" "n + 1" st1] ok by blast
      then show ?thesis using c(1) b(1) fa Some by (intro exI [of _ q]) (subst conf_lines.simps, simp add: run_cb_append)
    qed
  qed
qed

text \<open>Reading a file assigns to the options exactly what the assignments of its lines say, in their order; a name that
  is not in the table is skipped. (The file holds no \<open>NUL\<close> bytes and no allocation of a line fails; the only
  fault possible is that of a variable that does not fit its option.)\<close>

theorem HX_shconfig_assigns:
  assumes "\<forall>n k. lmem n k \<noteq> None" and "fs file = Inr text" "NUL \<notin> set text" "length text \<le> mc_max"
  shows "HX_shconfig fp mem lmem fs file table st =
    map_option (Pair (Inr 1)) (run_cb (HX_shconf_assign fp mem table) (filter (\<lambda>(k, v). lookup_long table k \<noteq> None) (file_assignments text)) st)"
proof -
  have n: "HX_shconf_assign fp mem table k v st = Some st" if "lookup_long table k = None" for k v st
    using that by (simp add: HX_shconf_assign_def)
  have f: "run_cb (HX_shconf_assign fp mem table) (filter (\<lambda>(k, v). lookup_long table k \<noteq> None) kvs) st =
      run_cb (HX_shconf_assign fp mem table) kvs st" for kvs st
  proof (induction kvs arbitrary: st)
    case (Cons kv kvs)
    then show ?case
      by (cases kv; cases "lookup_long table (fst kv)"; cases "HX_shconf_assign fp mem table (fst kv) (snd kv) st")
        (simp_all add: n)
  qed simp
  have "\<exists>q. conf_lines (HX_shconf_assign fp mem table) lmem 0 None text st =
      map_option (\<lambda>st. (st, q)) (run_cb (HX_shconf_assign fp mem table) (file_assignments text) st)"
    by (rule conf_lines_text [OF assms(1) disjI1 [OF refl] assms(3,4)])
  then obtain q where "conf_lines (HX_shconf_assign fp mem table) lmem 0 None text st =
      map_option (\<lambda>st. (st, q)) (run_cb (HX_shconf_assign fp mem table) (file_assignments text) st)" by blast
  then show ?thesis unfolding f using assms(2)
    by (cases "run_cb (HX_shconf_assign fp mem table) (file_assignments text) st") (simp_all add: HX_shconfig_def)
qed

definition conf_opt :: "nat callback HXoption" where
  "conf_opt = \<lparr>ln = Some ''name'', sh = NUL, otype = HXTYPE_STRING, oflags = 0, optr = Some 1, uptr = None,
     ocb = None, oval = 0, ohelp = None, htyp = None\<rparr>"

theorem HX_shconfig_assigns_witness:
  "HX_shconfig whole_fp (\<lambda>_. Some (\<lambda>_. NUL)) (\<lambda>_ _. Some (\<lambda>_. NUL)) (\<lambda>_. Inr (''name=x'' @ [NL])) ''f'' [conf_opt] \<lparr>cells = [1 \<mapsto> CStr None], nalloc = 0\<rparr> =
    map_option (Pair (Inr 1)) (run_cb (HX_shconf_assign whole_fp (\<lambda>_. Some (\<lambda>_. NUL)) [conf_opt])
      (filter (\<lambda>(k, v). lookup_long [conf_opt] k \<noteq> None) (file_assignments (''name=x'' @ [NL]))) \<lparr>cells = [1 \<mapsto> CStr None], nalloc = 0\<rparr>)"
  by (rule HX_shconfig_assigns) simp_all

lemma shconf_length: "length (shconf s) \<le> length s"
proof (induction s rule: shconf.induct)
  case (1 s)
  show ?case
  proof (cases "dropWhile conf_sep s")
    case Nil
    show ?thesis unfolding shconf.simps [of s] Nil by simp
  next
    case (Cons c t)
    have l1: "length (c # t) \<le> length s" unfolding Cons [symmetric] by (rule length_dropWhile_le)
    show ?thesis
    proof (cases "dropWhile conf_word (c # t)")
      case Nil
      show ?thesis unfolding shconf.simps [of s] \<open>dropWhile conf_sep s = c # t\<close> list.case Nil by simp
    next
      case (Cons e v)
      let ?d = "dequote (Some conf_stops) NUL v"
      have l2: "length (e # v) \<le> length (c # t)" unfolding Cons [symmetric] by (rule length_dropWhile_le)
      show ?thesis
      proof (cases "conf_start c \<and> e = CHR ''=''")
        case True
        have sh: "shconf s = (takeWhile conf_word (c # t), fst ?d) # (case snd ?d of None \<Rightarrow> [] | Some r \<Rightarrow> shconf r)"
          unfolding shconf.simps [of s] \<open>dropWhile conf_sep s = c # t\<close> list.case Cons using True by simp
        show ?thesis
        proof (cases "snd ?d")
          case None
          then show ?thesis unfolding sh using l1 by simp
        next
          case (Some r)
          have "length (shconf r) \<le> length r" using 1 [OF \<open>dropWhile conf_sep s = c # t\<close> _ Cons _ Some] True by simp
          moreover have "length r \<le> length v" using dequote_rest [OF Some] by auto
          ultimately show ?thesis unfolding sh using l1 l2 Some by simp
        qed
      next
        case False
        then show ?thesis unfolding shconf.simps [of s] \<open>dropWhile conf_sep s = c # t\<close> list.case Cons by auto
      qed
    qed
  qed
qed

lemma file_assignments_length: "length (file_assignments s) \<le> length s"
proof (induction s rule: file_lines.induct)
  case (1 s)
  show ?case
  proof (cases "s = []")
    case False
    let ?l = "line_of s"
    obtain w where "?l = HX_chomp ?l @ w" using chomp_split by blast
    then have "length (HX_chomp ?l) \<le> length ?l" by (metis le_add1 length_append)
    then have "length (shconf (HX_chomp ?l)) \<le> length ?l" using shconf_length le_trans by blast
    moreover have "length s = length ?l + length (drop (length ?l) s)" using arg_cong [OF line_of_prefix [of s], of length] by simp
    moreover have "file_assignments s = shconf (HX_chomp ?l) @ file_assignments (drop (length ?l) s)"
      using False by (simp add: file_assignments_def file_lines.simps [of s])
    ultimately show ?thesis using 1 [OF False] by simp
  qed (simp add: file_assignments_def file_lines.simps)
qed

lemma run_assignmp:
  assumes a: "\<forall>k. alloc k = (True, Some (adr k))" "inj adr"
    and m: "str_holds (HX_strdup True) m (adr ` {..<k}) k f" and l: "k + length kvs < 2 ^ 64"
  shows "\<exists>m'. run_cb (HX_shconf_assignmp alloc) kvs (m, k) = Some (m', k + length kvs) \<and>
    str_holds (HX_strdup True) m' (adr ` {..<k + length kvs}) (k + length kvs)
      (\<lambda>x. case map_of (rev kvs) x of None \<Rightarrow> f x | Some v \<Rightarrow> Some (Some v))"
  using m l
proof (induction kvs arbitrary: m k f)
  case (Cons kv kvs)
  obtain x v where kv: "kv = (x, v)" by (cases kv)
  have n1: "adr k \<notin> adr ` {..<k}" using a(2) by (auto dest: injD)
  have n2: "HX_strdup True (Some v) \<noteq> None \<or> Some v = None" by (simp add: HX_strdup_def)
  define g where "g = f(x := Some (HX_strdup True (Some v)))"
  have e: "(\<lambda>y. case map_of (rev kvs) y of None \<Rightarrow> g y | Some v \<Rightarrow> Some (Some v)) =
      (\<lambda>y. case map_of (rev (kv # kvs)) y of None \<Rightarrow> f y | Some v \<Rightarrow> Some (Some v))"
    by (auto simp: g_def kv map_add_def HX_strdup_def fun_eq_iff split: option.splits)
  obtain m1 ev where m1: "HXmap_add m (Some x) (Some v) True (Some (adr k)) = Some (Inr (), m1, ev)"
    "str_holds (HX_strdup True) m1 (insert (adr k) (adr ` {..<k})) (Suc k) g"
    using str_holds_add [OF Cons.prems(1), of "adr k" "Some v" x] Cons.prems(2) n1 n2 unfolding g_def by fastforce
  have "insert (adr k) (adr ` {..<k}) = adr ` {..<Suc k}" by (simp add: lessThan_Suc)
  then have "str_holds (HX_strdup True) m1 (adr ` {..<Suc k}) (Suc k) g" using m1(2) by simp
  then obtain m' where "run_cb (HX_shconf_assignmp alloc) kvs (m1, Suc k) = Some (m', Suc k + length kvs)"
    "str_holds (HX_strdup True) m' (adr ` {..<Suc k + length kvs}) (Suc k + length kvs)
      (\<lambda>y. case map_of (rev kvs) y of None \<Rightarrow> g y | Some v \<Rightarrow> Some (Some v))"
    using Cons.IH [of m1 "Suc k" g] Cons.prems(2) by auto
  moreover have "HX_shconf_assignmp alloc x v (m, k) = Some (m1, Suc k)" using m1(1) a(1) by (simp add: HX_shconf_assignmp_def)
  ultimately show ?case unfolding e by (intro exI [of _ m']) (simp add: kv)
qed simp

text \<open>The C library's functions on strings, for keys and data.\<close>

definition str_data :: "(char list, char list) std_fns \<Rightarrow> (char list, char list) std_fns" where
  "str_data std = (str_keys std)\<lparr>f_dstrdup := HX_strdup True\<rparr>"

text \<open>C10: The map that \<open>HX_shconfig_map\<close> returns has, for every name, the value that the file assigns to it last, and
  \<open>ENOENT\<close> for the names that the file does not assign to. Line reading, splitting, unquoting and the hash map with all
  its rehashing work together here.\<close>

theorem HX_shconfig_map_lookup:
  assumes "\<forall>n k. lmem n k \<noteq> None" "\<forall>k. alloc k = (True, Some (adr k))" "inj adr"
    and "fs file = Inr text" "NUL \<notin> set text" "length text \<le> mc_max"
  shows "\<exists>m. HX_shconfig_map (str_data std) True True alloc lmem fs file = Some (Inr m) \<and>
    HXmap_get m (Some k) = Some (case map_of (rev (file_assignments text)) k of None \<Rightarrow> (None, Some ENOENT) | Some v \<Rightarrow> (Some v, None))"
proof -
  let ?fl = "HXMAP_SCKEY OR HXMAP_SCDATA" and ?asg = "file_assignments text"
  have fl: "has_flag ?fl HXMAP_SKEY" "has_flag ?fl HXMAP_CKEY" "has_flag ?fl HXMAP_SDATA" "has_flag ?fl HXMAP_CDATA"
    "\<not> has_flag ?fl HXMAP_NOREPLACE" "\<not> has_flag ?fl HXMAP_SINGULAR"
    by (simp_all add: has_flag_def map_flags)
  have ops: "str_ops (HXmap_ops_setup (str_data std) True ?fl 0 None)" "d_clone (HXmap_ops_setup (str_data std) True ?fl 0 None) = HX_strdup True"
    using fl by (simp_all add: str_ops_def HXmap_ops_setup_def str_data_def str_keys_def HX_strdup_def Let_def)
  obtain m0 where m0: "HXmap_init5 (str_data std) True True HXMAPT_HASH ?fl None 0 = Some (Inr m0)"
    "str_holds (HX_strdup True) m0 {} 0 (\<lambda>_. None)"
    using str_holds_init [OF ops(1) fl(5,6)] ops(2) by auto
  have i: "HXmap_init (str_data std) True True HXMAPT_HASH ?fl = Some (Inr m0)"
    using m0(1) by (simp add: HXmap_init_def map_flags)
  have "length ?asg < 2 ^ 64" using file_assignments_length [of "text"] assms(6) by simp
  then obtain m where m: "run_cb (HX_shconf_assignmp alloc) ?asg (m0, 0) = Some (m, length ?asg)"
    "str_holds (HX_strdup True) m (adr ` {..<length ?asg}) (length ?asg) (\<lambda>x. case map_of (rev ?asg) x of None \<Rightarrow> None | Some v \<Rightarrow> Some (Some v))"
    using run_assignmp [OF assms(2,3), of m0 0 "\<lambda>_. None" ?asg] m0(2) by auto
  obtain q where "conf_lines (HX_shconf_assignmp alloc) lmem 0 None text (m0, 0) = Some ((m, length ?asg), q)"
    using conf_lines_text [OF assms(1) disjI1 [OF refl] assms(5,6), of "HX_shconf_assignmp alloc" 0 "(m0, 0)"] m(1) by auto
  then have "HX_shconfig_map (str_data std) True True alloc lmem fs file = Some (Inr m)"
    using i assms(4) by (simp add: HX_shconfig_map_def)
  then show ?thesis using str_holds_get(1) [OF m(2), of k] by (auto split: option.splits)
qed

definition no_std :: "(char list, char list) std_fns" where
  "no_std = \<lparr>f_strcmp = \<lambda>_ _. 0, f_memcmp = \<lambda>_ _. 0, f_valuecmp = \<lambda>_ _. 0, f_kstrdup = \<lambda>k. k, f_kmemdup = \<lambda>k. k,
     f_dstrdup = \<lambda>d. d, f_dmemdup = \<lambda>d. d, f_djb2 = \<lambda>_. 0, f_jlookup3 = \<lambda>_. 0, f_jlookup3v = \<lambda>_. 0\<rparr>"

theorem HX_shconfig_map_lookup_witness:
  "\<exists>m. HX_shconfig_map (str_data no_std) True True (\<lambda>k. (True, Some k)) (\<lambda>_ _. Some (\<lambda>_. NUL)) (\<lambda>_. Inr ''a=1 b=2;a=3'') ''f'' = Some (Inr m) \<and>
    HXmap_get m (Some ''a'') = Some (case map_of (rev (file_assignments ''a=1 b=2;a=3'')) ''a'' of None \<Rightarrow> (None, Some ENOENT) | Some v \<Rightarrow> (Some v, None))"
  by (rule HX_shconfig_map_lookup [where adr = "\<lambda>k. k"]) simp_all

end
