(* ===== verification/HX_Format.thy ===== *)
theory HX_Format
  imports HX_Strmap HX_Dequote HX_Assign HX_Shconf HX_Substr
begin

text \<open>
  The template expander of \<^verbatim>\<open>src/format.c\<close>: \<open>%(name)\<close> is a variable, \<open>%(function arguments)\<close> a call,
  and both nest. Variables and functions are kept in two string-keyed hash maps.

  Texts are lists of characters; the text of a container is what its length field covers, so it may hold
  \<open>NUL\<close> bytes where the code leaves them in, and \<open>cstr\<close> is applied wherever the code reads it as a C string.
  A position in the template is the text from there on. Allocations inside the expander succeed. The environment, the
  commands that are run, the memory behind deferred variables and the printing of floating-point numbers are the record
  \<open>world\<close>. The three functions that call each other take fuel; \<open>No_fuel\<close> is its end, \<open>Undefined\<close> a read
  outside of an object, \<open>Spins\<close> the endless search of \<open>HXparse_dequote_fmt\<close>, and \<open>Failed\<close> the result \<^verbatim>\<open>NULL\<close>.
\<close>

section \<open>Data\<close>

datatype fmt_stop = No_fuel | Undefined | Spins | Failed

text \<open>An expansion: \<open>Nexp\<close> is the address of \<^verbatim>\<open>HXformat2_nexp\<close>.\<close>

datatype expn = Nexp | Text "char list"

text \<open>What the pointer of a variable designates: an object of the program, a number in place of the pointer
  (0 is \<^verbatim>\<open>NULL\<close>), or a copy that the entry owns. Objects are variables, character arrays and containers.\<close>

datatype fmt_ptr = P_at addr | P_word u64 | P_own "char list"

datatype 'f fobj = Var "'f cell" | Chars "char list" | Mcs "char list"

record fmt_entry =
  fe_ptr :: fmt_ptr
  fe_type :: HXtype
  fe_immed :: bool

text \<open>The addresses of the functions, and the two forms of a function's description.\<close>

datatype fmt_proc = HXformat2_echo | HXformat2_env | HXformat2_exec | HXformat2_if | HXformat2_lower
  | HXformat2_shell | HXformat2_snl | HXformat2_substr | HXformat2_upper

record HXformat2_fd =
  fd_name :: "char list"
  fd_proc :: fmt_proc
  fd_flags :: u32

record func_entry =
  fn_proc :: fmt_proc
  fn_delim :: "char list"

datatype fmt_func = F_desc HXformat2_fd | F_entry func_entry

record HXformat_map =
  vars :: "(char list, fmt_entry) HXmap"
  funcs :: "(char list, fmt_func) HXmap"

record 'f world =
  w_objs :: "addr \<rightharpoonup> 'f fobj"
  w_getenv :: "char list \<Rightarrow> char list option"
  w_run :: "char list list \<Rightarrow> char list option"
  w_show :: "'f \<Rightarrow> char list"

definition HXFMT_ARGSEP_NONE :: u32 where "HXFMT_ARGSEP_NONE = 0"
definition HXFMT_ARGSEP_SPACE :: u32 where "HXFMT_ARGSEP_SPACE = 1"
definition HXFMT_ARGSEP_COMMA :: u32 where "HXFMT_ARGSEP_COMMA = 2"

definition func_entry_clone :: "fmt_func option \<Rightarrow> fmt_func option" where
  "func_entry_clone d = (case d of
      Some (F_desc i) \<Rightarrow> Some (F_entry \<lparr>fn_proc = fd_proc i, fn_delim = '')'' @
        (if fd_flags i AND HXFMT_ARGSEP_COMMA \<noteq> 0 then '','' else []) @
        (if fd_flags i AND HXFMT_ARGSEP_SPACE \<noteq> 0 then '' '' else [])\<rparr>)
    | _ \<Rightarrow> None)"

section \<open>Variables\<close>

definition sdec :: "int \<Rightarrow> char list" where
  "sdec z = (if z < 0 then CHR ''-'' # udec (nat (- z)) else udec (nat z))"

text \<open>The string at a pointer, \<open>None\<close> being \<^verbatim>\<open>NULL\<close>; and the variable at a pointer.\<close>

definition chars_at :: "'f world \<Rightarrow> fmt_ptr \<Rightarrow> fmt_stop + char list option" where
  "chars_at w p = (case p of
      P_word k \<Rightarrow> if k = 0 then Inr None else Inl Undefined
    | P_own s \<Rightarrow> Inr (Some s)
    | P_at a \<Rightarrow> (case w_objs w a of Some (Chars s) \<Rightarrow> Inr (Some (cstr s)) | _ \<Rightarrow> Inl Undefined))"

definition var_at :: "'f world \<Rightarrow> fmt_ptr \<Rightarrow> 'f cell option" where
  "var_at w p = (case p of P_at a \<Rightarrow> (case w_objs w a of Some (Var c) \<Rightarrow> Some c | _ \<Rightarrow> None) | _ \<Rightarrow> None)"

text \<open>\<^verbatim>\<open>buf\<close> has 21 bytes.\<close>

definition buf_result :: "char list option \<Rightarrow> fmt_stop + expn" where
  "buf_result s = (case s of None \<Rightarrow> Inl Undefined
    | Some s \<Rightarrow> let s = cstr (take 20 s) in if s = [] then Inl Failed else Inr (Text s))"

definition str_result :: "fmt_stop + char list option \<Rightarrow> fmt_stop + expn" where
  "str_result s = (case s of Inl e \<Rightarrow> Inl e | Inr None \<Rightarrow> Inl Failed | Inr (Some s) \<Rightarrow> Inr (Text s))"

definition tf :: "bool \<Rightarrow> fmt_stop + expn" where
  "tf b = Inr (Text (if b then ''true'' else ''false''))"

definition xvar_deferred :: "'f world \<Rightarrow> HXtype \<Rightarrow> fmt_ptr \<Rightarrow> fmt_stop + expn" where
  "xvar_deferred w t p =
     (let c = var_at w p;
          n8 = (\<lambda>g. buf_result (case c of Some (C8 v) \<Rightarrow> Some (g v) | _ \<Rightarrow> None));
          n16 = (\<lambda>g. buf_result (case c of Some (C16 v) \<Rightarrow> Some (g v) | _ \<Rightarrow> None));
          n32 = (\<lambda>g. buf_result (case c of Some (C32 v) \<Rightarrow> Some (g v) | _ \<Rightarrow> None));
          n64 = (\<lambda>g. buf_result (case c of Some (C64 v) \<Rightarrow> Some (g v) | _ \<Rightarrow> None))
      in case t of
        HXTYPE_STRING \<Rightarrow> str_result (chars_at w p)
      | HXTYPE_STRP \<Rightarrow> (case c of Some (CStr s) \<Rightarrow> str_result (Inr s) | _ \<Rightarrow> Inl Undefined)
      | HXTYPE_MCSTR \<Rightarrow> (case p of P_at a \<Rightarrow> (case w_objs w a of Some (Mcs s) \<Rightarrow> Inr (Text s) | _ \<Rightarrow> Inl Undefined)
          | P_word k \<Rightarrow> if k = 0 then Inr (Text []) else Inl Undefined | _ \<Rightarrow> Inl Undefined)
      | HXTYPE_BOOL \<Rightarrow> (case c of Some (C32 v) \<Rightarrow> tf (v \<noteq> 0) | _ \<Rightarrow> Inl Undefined)
      | HXTYPE_BYTE \<Rightarrow> n8 (\<lambda>v. [char_of (unat v)])
      | HXTYPE_SHORT \<Rightarrow> n16 (\<lambda>v. sdec (sint v))
      | HXTYPE_USHORT \<Rightarrow> n16 (\<lambda>v. udec (unat v))
      | HXTYPE_CHAR \<Rightarrow> n8 (\<lambda>v. sdec (sint v))
      | HXTYPE_UCHAR \<Rightarrow> n8 (\<lambda>v. udec (unat v))
      | HXTYPE_INT \<Rightarrow> n32 (\<lambda>v. sdec (sint v))
      | HXTYPE_UINT \<Rightarrow> n32 (\<lambda>v. udec (unat v))
      | HXTYPE_LONG \<Rightarrow> n64 (\<lambda>v. sdec (sint v))
      | HXTYPE_ULONG \<Rightarrow> n64 (\<lambda>v. udec (unat v))
      | HXTYPE_LLONG \<Rightarrow> n64 (\<lambda>v. sdec (sint v))
      | HXTYPE_ULLONG \<Rightarrow> n64 (\<lambda>v. udec (unat v))
      | HXTYPE_FLOAT \<Rightarrow> buf_result (case c of Some (CF v) \<Rightarrow> Some (w_show w v) | _ \<Rightarrow> None)
      | HXTYPE_DOUBLE \<Rightarrow> buf_result (case c of Some (CD v) \<Rightarrow> Some (w_show w v) | _ \<Rightarrow> None)
      | _ \<Rightarrow> Inr Nexp)"

text \<open>The pointer as a number; that of an address is not determined.\<close>

definition ptr_word :: "fmt_ptr \<Rightarrow> u64 option" where
  "ptr_word p = (case p of P_word k \<Rightarrow> Some k | _ \<Rightarrow> None)"

definition xvar_immed :: "HXtype \<Rightarrow> fmt_ptr \<Rightarrow> fmt_stop + expn" where
  "xvar_immed t p =
     (let imm = (\<lambda>g. buf_result (map_option g (ptr_word p))) in
      case t of
        HXTYPE_STRING \<Rightarrow> (case p of P_own s \<Rightarrow> Inr (Text s) | _ \<Rightarrow> Inl Undefined)
      | HXTYPE_MCSTR \<Rightarrow> (case p of P_own s \<Rightarrow> Inr (Text s) | _ \<Rightarrow> Inl Undefined)
      | HXTYPE_BOOL \<Rightarrow> tf (p \<noteq> P_word 0)
      | HXTYPE_CHAR \<Rightarrow> imm (\<lambda>k. sdec (sint (ucast k :: u8)))
      | HXTYPE_UCHAR \<Rightarrow> imm (\<lambda>k. udec (unat (ucast k :: u8)))
      | HXTYPE_SHORT \<Rightarrow> imm (\<lambda>k. sdec (sint (ucast k :: u16)))
      | HXTYPE_USHORT \<Rightarrow> imm (\<lambda>k. udec (unat (ucast k :: u16)))
      | HXTYPE_INT \<Rightarrow> imm (\<lambda>k. sdec (sint (ucast k :: u32)))
      | HXTYPE_UINT \<Rightarrow> imm (\<lambda>k. udec (unat (ucast k :: u32)))
      | HXTYPE_LONG \<Rightarrow> imm (\<lambda>k. sdec (sint k))
      | HXTYPE_ULONG \<Rightarrow> imm (\<lambda>k. udec (unat k))
      | _ \<Rightarrow> Inr Nexp)"

definition HXformat2_xvar :: "'f world \<Rightarrow> fmt_entry \<Rightarrow> fmt_stop + expn" where
  "HXformat2_xvar w e =
     (if fe_immed e then xvar_immed (fe_type e) (fe_ptr e) else xvar_deferred w (fe_type e) (fe_ptr e))"

section \<open>Functions\<close>

text \<open>The arguments are the strings that \<^verbatim>\<open>argv\<close> points to.\<close>

definition fmt_echo :: "char list list \<Rightarrow> expn" where
  "fmt_echo argv = Text (''<echo'' @ concat (map (\<lambda>a. '' ['' @ a @ '']'') argv) @ ''>'')"

definition fmt_env :: "'f world \<Rightarrow> char list list \<Rightarrow> expn" where
  "fmt_env w argv = (case argv of [] \<Rightarrow> Nexp | a # _ \<Rightarrow>
     (case w_getenv w a of None \<Rightarrow> Nexp | Some s \<Rightarrow> Text s))"

definition fmt_if :: "char list list \<Rightarrow> expn" where
  "fmt_if argv =
     (if length argv < 2 then Nexp
      else if argv ! 0 \<noteq> [] then (if argv ! 1 \<noteq> [] then Text (argv ! 1) else Nexp)
      else if length argv \<ge> 3 \<and> argv ! 2 \<noteq> [] then Text (argv ! 2) else Nexp)"

definition fmt_lower :: "char list list \<Rightarrow> expn" where
  "fmt_lower argv = (case argv of [] \<Rightarrow> Nexp | a # _ \<Rightarrow> Text (HX_strlower a))"

definition fmt_upper :: "char list list \<Rightarrow> expn" where
  "fmt_upper argv = (case argv of [] \<Rightarrow> Nexp | a # _ \<Rightarrow> Text (HX_strupper a))"

definition HXformat2_exec1 :: "'f world \<Rightarrow> HXformat_map \<Rightarrow> char list list \<Rightarrow> fmt_stop + expn" where
  "HXformat2_exec1 w blk argv =
     (case HXmap_find (vars blk) (Some ''/libhx/exec'') of None \<Rightarrow> Inl Undefined
      | Some None \<Rightarrow> Inr Nexp
      | Some (Some _) \<Rightarrow> (case w_run w argv of None \<Rightarrow> Inr Nexp | Some s \<Rightarrow> Inr (Text s)))"

definition fmt_exec :: "'f world \<Rightarrow> HXformat_map \<Rightarrow> char list list \<Rightarrow> fmt_stop + expn" where
  "fmt_exec w blk argv = (if argv = [] then Inr Nexp else HXformat2_exec1 w blk argv)"

definition fmt_shell :: "'f world \<Rightarrow> HXformat_map \<Rightarrow> char list list \<Rightarrow> fmt_stop + expn" where
  "fmt_shell w blk argv = (case argv of [] \<Rightarrow> Inr Nexp | a # _ \<Rightarrow> HXformat2_exec1 w blk [''/bin/sh'', ''-c'', a])"

text \<open>\<open>HX_chomp\<close> puts \<open>NUL\<close> bytes over the newlines at the end, but the container keeps its length.\<close>

definition fmt_snl :: "char list list \<Rightarrow> expn" where
  "fmt_snl argv = (case argv of [] \<Rightarrow> Nexp
    | a # _ \<Rightarrow> Text (map (\<lambda>c. if c = CHR 0x0A then CHR '' '' else c) (HX_chomp a) @
        replicate (length a - length (HX_chomp a)) NUL))"

definition fmt_substr :: "char list list \<Rightarrow> fmt_stop + expn" where
  "fmt_substr argv =
     (if length argv < 2 then Inr Nexp
      else let (v, k) = strtol0 (argv ! 1) in
        if k < length (argv ! 1) then Inr Nexp
        else let (w, j) = (if length argv \<ge> 3 then strtol0 (argv ! 2) else (2 ^ 63 - 1, 0)) in
          if length argv \<ge> 3 \<and> j < length (argv ! 2) then Inr Nexp
          else let (start, tocopy) = HX_substr_helper (of_nat (length (argv ! 0))) v w in
            if tocopy = 0 then Inr Nexp
            else case rdn (argv ! 0 @ [NUL]) (unat start) (unat tocopy) of None \<Rightarrow> Inl Undefined
              | Some s \<Rightarrow> Inr (Text s))"

definition call_proc :: "'f world \<Rightarrow> HXformat_map \<Rightarrow> fmt_proc \<Rightarrow> char list list \<Rightarrow> fmt_stop + expn" where
  "call_proc w blk p argv = (case p of
      HXformat2_echo \<Rightarrow> Inr (fmt_echo argv) | HXformat2_env \<Rightarrow> Inr (fmt_env w argv)
    | HXformat2_exec \<Rightarrow> fmt_exec w blk argv | HXformat2_if \<Rightarrow> Inr (fmt_if argv)
    | HXformat2_lower \<Rightarrow> Inr (fmt_lower argv) | HXformat2_shell \<Rightarrow> fmt_shell w blk argv
    | HXformat2_snl \<Rightarrow> Inr (fmt_snl argv) | HXformat2_substr \<Rightarrow> fmt_substr argv
    | HXformat2_upper \<Rightarrow> Inr (fmt_upper argv))"

definition HXformat2_fmap :: "HXformat2_fd list" where
  "HXformat2_fmap =
     [\<lparr>fd_name = ''echo'', fd_proc = HXformat2_echo, fd_flags = HXFMT_ARGSEP_COMMA OR HXFMT_ARGSEP_SPACE\<rparr>,
      \<lparr>fd_name = ''env'', fd_proc = HXformat2_env, fd_flags = HXFMT_ARGSEP_COMMA OR HXFMT_ARGSEP_SPACE\<rparr>,
      \<lparr>fd_name = ''exec'', fd_proc = HXformat2_exec, fd_flags = HXFMT_ARGSEP_SPACE\<rparr>,
      \<lparr>fd_name = ''if'', fd_proc = HXformat2_if, fd_flags = HXFMT_ARGSEP_COMMA\<rparr>,
      \<lparr>fd_name = ''lower'', fd_proc = HXformat2_lower, fd_flags = HXFMT_ARGSEP_NONE\<rparr>,
      \<lparr>fd_name = ''shell'', fd_proc = HXformat2_shell, fd_flags = HXFMT_ARGSEP_NONE\<rparr>,
      \<lparr>fd_name = ''snl'', fd_proc = HXformat2_snl, fd_flags = HXFMT_ARGSEP_NONE\<rparr>,
      \<lparr>fd_name = ''substr'', fd_proc = HXformat2_substr, fd_flags = HXFMT_ARGSEP_COMMA\<rparr>,
      \<lparr>fd_name = ''upper'', fd_proc = HXformat2_upper, fd_flags = HXFMT_ARGSEP_NONE\<rparr>]"

section \<open>Expansion\<close>

definition dq_fmt :: "char list \<Rightarrow> char list \<Rightarrow> fmt_stop + char list \<times> char list" where
  "dq_fmt s stops =
     (case HXparse_dequote_fmt (Suc (length s)) (Some (\<lambda>_. NUL)) s (Some stops) of
        None \<Rightarrow> Inl Spins
      | Some (None, i) \<Rightarrow> Inl Failed
      | Some (Some c, i) \<Rightarrow> Inr (cstr (mc_data c), i))"

definition name_stops :: "char list" where
  "name_stops = [CHR '')'', CHR '' '', CHR 0x09, CHR 0x0A, CHR 0x0C, CHR 0x0B, CHR 0x0D]"

text \<open>
  One call of each of the functions, over the calls it makes. \<open>aprintf_step\<close> is a round of the loop of
  \<open>HXformat_aprintf\<close> with the text so far, \<open>args_step\<close> one of the loop of \<open>HXformat2_xcall\<close> with the arguments
  so far.
\<close>

definition fbind :: "'e + 'a \<Rightarrow> ('a \<Rightarrow> 'e + 'b) \<Rightarrow> 'e + 'b" where
  "fbind m f = (case m of Inl e \<Rightarrow> Inl e | Inr x \<Rightarrow> f x)"

definition expn_text :: "expn \<Rightarrow> char list" where
  "expn_text x = (case x of Nexp \<Rightarrow> [] | Text t \<Rightarrow> t)"

definition aprintf_step ::
  "(char list \<Rightarrow> char list \<Rightarrow> fmt_stop + char list) \<Rightarrow> (char list \<Rightarrow> fmt_stop + expn \<times> char list) \<Rightarrow>
   char list \<Rightarrow> char list \<Rightarrow> fmt_stop + char list" where
  "aprintf_step loop any out fmt =
     (let out = out @ takeWhile (\<lambda>c. c \<noteq> CHR ''%'') fmt in
      case dropWhile (\<lambda>c. c \<noteq> CHR ''%'') fmt of
        [] \<Rightarrow> Inr out
      | [p] \<Rightarrow> Inl Undefined
      | p # c # rest \<Rightarrow>
          if c \<noteq> CHR ''('' then loop (out @ [p, c]) rest
          else fbind (any rest) (\<lambda>(ex, rest). loop (out @ expn_text ex) rest))"

text \<open>A name in the parentheses that has been expanded to \<open>new_name\<close>.\<close>

definition lookup_var :: "'f world \<Rightarrow> HXformat_map \<Rightarrow> char list \<Rightarrow> fmt_stop + expn" where
  "lookup_var w blk new_name =
     (if new_name = [] then Inl Failed
      else if cstr new_name = [] then Inr Nexp
      else case HXmap_get (vars blk) (Some (cstr new_name)) of
          None \<Rightarrow> Inl Undefined
        | Some (None, _) \<Rightarrow> Inr Nexp
        | Some (Some e, _) \<Rightarrow> HXformat2_xvar w e)"

definition xany_step ::
  "'f world \<Rightarrow> HXformat_map \<Rightarrow> (char list \<Rightarrow> fmt_stop + char list) \<Rightarrow>
   (char list \<Rightarrow> char list \<Rightarrow> fmt_stop + expn \<times> char list) \<Rightarrow> char list \<Rightarrow> fmt_stop + expn \<times> char list" where
  "xany_step w blk aprintf call s =
     (if at0 s = CHR '')'' then Inr (Nexp, tl s)
      else if isspace (at0 s) then
        fbind (dq_fmt (dropWhile isspace s) '')'') (\<lambda>(_, r).
          case r of [] \<Rightarrow> Inl Undefined | _ # r \<Rightarrow> Inr (Nexp, r))
      else fbind (dq_fmt s name_stops) (\<lambda>(name, r).
        case r of
          [] \<Rightarrow> Inl Failed
        | c # r' \<Rightarrow>
            if c = CHR '')'' then
              fbind (aprintf name) (\<lambda>new_name. fbind (lookup_var w blk new_name) (\<lambda>x. Inr (x, r')))
            else call name (dropWhile isspace r)))"

definition xcall_step ::
  "'f world \<Rightarrow> HXformat_map \<Rightarrow> (char list \<Rightarrow> char list \<Rightarrow> fmt_stop + char list list \<times> char list) \<Rightarrow>
   char list \<Rightarrow> char list \<Rightarrow> fmt_stop + expn \<times> char list" where
  "xcall_step w blk args name s =
     (case HXmap_get (funcs blk) (Some name) of
        None \<Rightarrow> Inl Undefined
      | Some (entry, _) \<Rightarrow>
          fbind (if at0 s = CHR '')'' then Inr ([], tl s)
             else args (case entry of Some (F_entry f) \<Rightarrow> fn_delim f | _ \<Rightarrow> '')'') s) (\<lambda>(argv, r).
            case entry of
              None \<Rightarrow> Inr (Nexp, r)
            | Some (F_desc _) \<Rightarrow> Inl Undefined
            | Some (F_entry f) \<Rightarrow> fbind (call_proc w blk (fn_proc f) argv) (\<lambda>x. Inr (x, r))))"

definition args_step ::
  "(char list \<Rightarrow> fmt_stop + char list) \<Rightarrow> (char list \<Rightarrow> char list list \<Rightarrow> fmt_stop + char list list \<times> char list) \<Rightarrow>
   char list \<Rightarrow> char list \<Rightarrow> char list list \<Rightarrow> fmt_stop + char list list \<times> char list" where
  "args_step aprintf args delim s acc =
     (if s = [] then Inr (acc, [])
      else fbind (dq_fmt (dropWhile isspace s) delim) (\<lambda>(t, r).
        fbind (if strstr t ''%('' = None then Inr t else aprintf t) (\<lambda>t.
          case r of
            [] \<Rightarrow> Inr (acc @ [cstr t], [])
          | c # r \<Rightarrow> if c = CHR '')'' then Inr (acc @ [cstr t], r) else args r (acc @ [cstr t]))))"

function aprintf_loop :: "'f world \<Rightarrow> HXformat_map \<Rightarrow> nat \<Rightarrow> char list \<Rightarrow> char list \<Rightarrow> fmt_stop + char list"
  and HXformat2_xany :: "'f world \<Rightarrow> HXformat_map \<Rightarrow> nat \<Rightarrow> char list \<Rightarrow> fmt_stop + expn \<times> char list"
  and HXformat2_xcall :: "'f world \<Rightarrow> HXformat_map \<Rightarrow> nat \<Rightarrow> char list \<Rightarrow> char list \<Rightarrow> fmt_stop + expn \<times> char list"
  and xcall_args :: "'f world \<Rightarrow> HXformat_map \<Rightarrow> nat \<Rightarrow> char list \<Rightarrow> char list \<Rightarrow> char list list \<Rightarrow> fmt_stop + char list list \<times> char list"
where
  "aprintf_loop w blk 0 out fmt = Inl No_fuel"
| "aprintf_loop w blk (Suc n) out fmt = aprintf_step (aprintf_loop w blk n) (HXformat2_xany w blk n) out fmt"
| "HXformat2_xany w blk 0 s = Inl No_fuel"
| "HXformat2_xany w blk (Suc n) s = xany_step w blk (aprintf_loop w blk n []) (HXformat2_xcall w blk n) s"
| "HXformat2_xcall w blk 0 name s = Inl No_fuel"
| "HXformat2_xcall w blk (Suc n) name s = xcall_step w blk (\<lambda>delim s. xcall_args w blk n delim s []) name s"
| "xcall_args w blk 0 delim s acc = Inl No_fuel"
| "xcall_args w blk (Suc n) delim s acc = args_step (aprintf_loop w blk n []) (xcall_args w blk n delim) delim s acc"
  by pat_completeness auto
termination
  by (relation "measure (\<lambda>x. case x of
      Inl (Inl (w, blk, n, out, fmt)) \<Rightarrow> n | Inl (Inr (w, blk, n, s)) \<Rightarrow> n
    | Inr (Inl (w, blk, n, name, s)) \<Rightarrow> n | Inr (Inr (w, blk, n, delim, s, acc)) \<Rightarrow> n)") simp_all

definition HXformat_aprintf :: "'f world \<Rightarrow> HXformat_map \<Rightarrow> nat \<Rightarrow> char list \<Rightarrow> fmt_stop + char list" where
  "HXformat_aprintf w blk n fmt = aprintf_loop w blk n [] fmt"

text \<open>\<open>err\<close> is the value of \<^verbatim>\<open>errno\<close> when the expansion fails; nothing sets it there, so it may be 0. The result and
  what was written.\<close>

definition HXformat_fprintf :: "'f world \<Rightarrow> HXformat_map \<Rightarrow> nat \<Rightarrow> nat \<Rightarrow> bool \<Rightarrow> char list \<Rightarrow> fmt_stop + int \<times> char list" where
  "HXformat_fprintf w blk n err put_ok fmt =
     (case HXformat_aprintf w blk n fmt of
        Inl Failed \<Rightarrow> Inr (- int err, [])
      | Inl e \<Rightarrow> Inl e
      | Inr str \<Rightarrow>
          if str = [] then Inr (0, [])
          else if put_ok then Inr (int (length str), cstr str) else Inr (- int err, []))"

text \<open>The result and the block \<open>dest\<close> afterwards.\<close>

definition HXformat_sprintf :: "'f world \<Rightarrow> HXformat_map \<Rightarrow> nat \<Rightarrow> nat \<Rightarrow> char list \<Rightarrow> nat \<Rightarrow> char list \<Rightarrow> fmt_stop + int \<times> char list" where
  "HXformat_sprintf w blk n err dest sz fmt =
     (let empty = (case wr dest 0 NUL of None \<Rightarrow> Inl Undefined | Some b \<Rightarrow> Inr (0, b)) in
      case HXformat_aprintf w blk n fmt of
        Inl Failed \<Rightarrow> if err = 0 then empty else Inr (- int err, dest)
      | Inl e \<Rightarrow> Inl e
      | Inr str \<Rightarrow>
          if str = [] then empty
          else (case strncpy dest (cstr str) sz of None \<Rightarrow> Inl Undefined
            | Some b \<Rightarrow> (case strlen_block b of None \<Rightarrow> Inl Undefined | Some xl \<Rightarrow> Inr (int xl, b))))"

section \<open>The tables\<close>

datatype fmt_freed = Free_string "char list" | Free_mc "char list" | Free_entry

definition fmt_entry_free :: "fmt_entry \<Rightarrow> fmt_freed list" where
  "fmt_entry_free e =
     (case fe_ptr e of
        P_own s \<Rightarrow> if fe_immed e \<and> fe_type e = HXTYPE_STRING then [Free_string s]
          else if fe_immed e \<and> fe_type e = HXTYPE_MCSTR then [Free_mc s] else []
      | _ \<Rightarrow> []) @ [Free_entry]"

definition fmt_entry_ops :: "(char list, fmt_entry) user_ops" where
  "fmt_entry_ops = \<lparr>n_compare = None, n_kclone = None, n_kfree = False, n_dclone = None, n_dfree = True, n_hash = None\<rparr>"

definition func_entry_ops :: "(char list, fmt_func) user_ops" where
  "func_entry_ops =
     \<lparr>n_compare = None, n_kclone = None, n_kfree = False, n_dclone = Some func_entry_clone, n_dfree = True, n_hash = None\<rparr>"

definition ev_freed :: "(char list, fmt_entry) ev \<Rightarrow> fmt_freed list" where
  "ev_freed e = (case e of EvDFree (Some d) \<Rightarrow> fmt_entry_free d | _ \<Rightarrow> [])"

definition HXformat_free :: "HXformat_map option \<Rightarrow> (fmt_freed list \<times> (char list, fmt_func) ev list) option" where
  "HXformat_free blk = (case blk of None \<Rightarrow> Some ([], [])
    | Some b \<Rightarrow> do {
        ev \<leftarrow> HXmap_free (Some (vars b));
        ev' \<leftarrow> HXmap_free (Some (funcs b));
        Some (concat (map ev_freed ev), ev')
      })"

text \<open>\<open>ok1\<close> and \<open>ok2\<close> are the allocations of the entry and of the copy, \<open>node\<close> those of the map. An error \<open>None\<close>
  is that of the value \<^verbatim>\<open>errno\<close> happens to have.\<close>

definition fmt_key_bad :: "char list" where
  "fmt_key_bad = [CHR 0x09, CHR 0x0A, CHR 0x0B, CHR '' '']"

definition HXformat_add :: "'f world \<Rightarrow> bool \<Rightarrow> bool \<Rightarrow> bool \<times> ptr \<Rightarrow> HXformat_map \<Rightarrow> char list \<Rightarrow> fmt_ptr \<Rightarrow> HXtype \<Rightarrow> bool \<Rightarrow>
    ((errno option + unit) \<times> HXformat_map) option" where
  "HXformat_add w ok1 ok2 node blk key ptr type immed =
     (if strpbrk key fmt_key_bad \<noteq> None \<or> key = [] then Some (Inl (Some EINVAL), blk)
      else if \<not> ok1 then Some (Inl (Some ENOMEM), blk)
      else do {
        p \<leftarrow> (if immed \<and> type = HXTYPE_STRING then
               (case chars_at w ptr of
                  Inl _ \<Rightarrow> None
                | Inr None \<Rightarrow> Some (Inl None)
                | Inr (Some s) \<Rightarrow> Some (if ok2 then Inr (P_own s) else Inl (Some ENOMEM)))
             else if immed \<and> type = HXTYPE_MCSTR then
               (case xvar_deferred w HXTYPE_MCSTR ptr of
                  Inr (Text s) \<Rightarrow> Some (if ok2 then Inr (P_own s) else Inl (Some ENOMEM))
                | _ \<Rightarrow> None)
             else Some (Inr ptr));
        case p of
          Inl e \<Rightarrow> Some (Inl e, blk)
        | Inr p \<Rightarrow> do {
            (ret, v, ev) \<leftarrow> HXmap_add (vars blk) (Some key)
              (Some \<lparr>fe_ptr = p, fe_type = type, fe_immed = immed\<rparr>) (fst node) (snd node);
            Some (case ret of Inl e \<Rightarrow> Inl (Some e) | Inr _ \<Rightarrow> Inr (), blk\<lparr>vars := v\<rparr>)
          }
      })"

text \<open>The loop of \<open>HXformat_init\<close>: \<open>Inl\<close> is its error exit, with the map as it is then.\<close>

fun add_funcs :: "(nat \<Rightarrow> bool \<times> ptr) \<Rightarrow> nat \<Rightarrow> HXformat2_fd list \<Rightarrow> (char list, fmt_func) HXmap \<Rightarrow>
    ((char list, fmt_func) HXmap + (char list, fmt_func) HXmap) option" where
  "add_funcs alloc i [] m = Some (Inr m)"
| "add_funcs alloc i (d # ds) m = do {
     (ret, m, ev) \<leftarrow> HXmap_add m (Some (fd_name d)) (Some (F_desc d)) (fst (alloc i)) (snd (alloc i));
     case ret of Inl e \<Rightarrow> Some (Inl m) | Inr _ \<Rightarrow> add_funcs alloc (i + 1) ds m
   }"

definition HXformat_init :: "(char list, fmt_entry) std_fns \<Rightarrow> (char list, fmt_func) std_fns \<Rightarrow> bool \<Rightarrow> (bool \<times> bool) \<Rightarrow> (bool \<times> bool) \<Rightarrow>
    (nat \<Rightarrow> bool \<times> ptr) \<Rightarrow> HXformat_map option option" where
  "HXformat_init std1 std2 ok0 ok1 ok2 alloc =
     (if \<not> ok0 then Some None
      else do {
        v \<leftarrow> HXmap_init5 std1 (fst ok1) (snd ok1) HXMAPT_HASH HXMAP_SCKEY (Some fmt_entry_ops) 0;
        case v of Inl _ \<Rightarrow> Some None
        | Inr v \<Rightarrow> do {
            f \<leftarrow> HXmap_init5 std2 (fst ok2) (snd ok2) HXMAPT_HASH HXMAP_SCKEY (Some func_entry_ops) 0;
            case f of Inl _ \<Rightarrow> do { ev \<leftarrow> HXmap_free (Some v); Some None }
            | Inr f \<Rightarrow> do {
                r \<leftarrow> add_funcs alloc 0 HXformat2_fmap f;
                case r of
                  Inl f \<Rightarrow> do { ev \<leftarrow> HXmap_free (Some v); ev \<leftarrow> HXmap_free (Some f); Some None }
                | Inr f \<Rightarrow> Some (Some \<lparr>vars = v, funcs = f\<rparr>)
              }
          }
      })"

end
