(* ===== verification/HX_Template.thy ===== *)
theory HX_Template
  imports HX_Format
begin

text \<open>
  What the template expander computes: it returns on every template, and on the templates of a grammar of nested
  references and calls it evaluates them from the inside out.
\<close>

section \<open>Fuel\<close>

lemma fbind_simps [simp]: "fbind (Inl e) f = Inl e" "fbind (Inr x) f = f x"
  by (simp_all add: fbind_def)

lemma fbind_Inr: "fbind m f = Inr y \<longleftrightarrow> (\<exists>x. m = Inr x \<and> f x = Inr y)"
  by (cases m) simp_all

lemma fbind_stop: "fbind m f = Inl e \<longleftrightarrow> m = Inl e \<or> (\<exists>x. m = Inr x \<and> f x = Inl e)"
  by (cases m) simp_all

lemma dq_fmt_scan:
  assumes "NUL \<notin> set s" "length s \<le> mc_max"
  shows "(dq_scan (Suc (length s)) (Some stops) s 0 NUL = None \<and> dq_fmt s stops = Inl Spins) \<or>
    (\<exists>t i. dq_scan (Suc (length s)) (Some stops) s 0 NUL = Some i \<and> s = t @ i \<and>
      dq_fmt s stops = Inr (fst (dequote None NUL t), i))"
proof (cases "dq_scan (Suc (length s)) (Some stops) s 0 NUL")
  case None
  then show ?thesis by (simp add: dq_fmt_def HXparse_dequote_fmt_def)
next
  case (Some i)
  from dequote_fmt_found [OF this assms, of "\<lambda>_. NUL"] obtain t c where t: "s = t @ i"
    "HXparse_dequote_fmt (Suc (length s)) (Some (\<lambda>_. NUL)) s (Some stops) = Some (Some c, i)"
    "cstr (mc_data c) = fst (dequote None NUL t)" by blast
  have "dq_fmt s stops = Inr (fst (dequote None NUL t), i)" by (simp add: dq_fmt_def t(2,3))
  then show ?thesis using Some t(1) by blast
qed

lemma dequote_length: "length (fst (dequote stops q s)) \<le> length s"
  by (induction q s rule: dequote_induct [of _ stops]) simp_all

lemma dq_fmt_parts:
  assumes "dq_fmt s stops = Inr (t, r)" "NUL \<notin> set s" "length s \<le> mc_max"
  shows "length t + length r \<le> length s" "NUL \<notin> set t" "NUL \<notin> set r"
proof -
  from dq_fmt_scan [OF assms(2,3), of stops] assms(1) obtain u where u: "s = u @ r" "t = fst (dequote None NUL u)"
    by auto
  show "length t + length r \<le> length s" using u dequote_length [of None NUL u] by simp
  show "NUL \<notin> set t" "NUL \<notin> set r" using u assms(2) dequote_no_NUL [of u] by auto
qed

lemma dq_fmt_fuel: "dq_fmt s stops \<noteq> Inl No_fuel"
  by (auto simp: dq_fmt_def split: option.splits prod.splits)

lemma buf_fuel: "buf_result s \<noteq> Inl No_fuel"
  by (auto simp: buf_result_def Let_def split: option.splits)

lemma str_fuel: "s \<noteq> Inl No_fuel \<Longrightarrow> str_result s \<noteq> Inl No_fuel"
  by (auto simp: str_result_def split: sum.splits option.splits)

lemma chars_fuel: "chars_at w p \<noteq> Inl No_fuel"
  by (auto simp: chars_at_def split: fmt_ptr.splits option.splits fobj.splits)

lemma xvar_fuel: "HXformat2_xvar w e \<noteq> Inl No_fuel"
proof -
  have d: "xvar_deferred w t p \<noteq> Inl No_fuel" for t p
    by (cases t) (auto simp: xvar_deferred_def Let_def buf_fuel tf_def chars_fuel intro!: str_fuel
      split: option.splits cell.splits fmt_ptr.splits fobj.splits)
  have "xvar_immed t p \<noteq> Inl No_fuel" for t p
    by (cases t) (auto simp: xvar_immed_def Let_def buf_fuel tf_def split: fmt_ptr.splits)
  then show ?thesis using d by (simp add: HXformat2_xvar_def)
qed

lemma lookup_fuel: "lookup_var w blk n \<noteq> Inl No_fuel"
  by (auto simp: lookup_var_def xvar_fuel split: option.splits prod.splits)

lemma exec_fuel: "HXformat2_exec1 w blk argv \<noteq> Inl No_fuel"
  by (auto simp: HXformat2_exec1_def split: option.splits)

lemma call_fuel: "call_proc w blk p argv \<noteq> Inl No_fuel"
  by (cases p) (auto simp: call_proc_def fmt_exec_def fmt_shell_def exec_fuel fmt_substr_def Let_def
    split: list.splits option.splits prod.splits)

text \<open>What is left of the template behind a reference is shorter than what was there, and a piece of it.\<close>

definition fmt_text :: "char list \<Rightarrow> bool" where
  "fmt_text s \<longleftrightarrow> NUL \<notin> set s \<and> length s \<le> mc_max"

lemma fmt_text_smaller: "fmt_text s \<Longrightarrow> length t \<le> length s \<Longrightarrow> NUL \<notin> set t \<Longrightarrow> fmt_text t"
  by (simp add: fmt_text_def)

lemma drop_ws: "length (dropWhile isspace s) \<le> length s" "NUL \<notin> set s \<Longrightarrow> NUL \<notin> set (dropWhile isspace s)"
  "fmt_text s \<Longrightarrow> fmt_text (dropWhile isspace s)"
  by (auto simp: fmt_text_def length_dropWhile_le dest: set_dropWhileD intro: le_trans [OF length_dropWhile_le])

lemma args_rest:
  "xcall_args w blk n delim s acc = Inr (argv, r) \<Longrightarrow> fmt_text s \<Longrightarrow> length r \<le> length s \<and> fmt_text r"
proof (induction n arbitrary: s acc)
  case (Suc n)
  show ?case
  proof (cases "s = []")
    case True
    then show ?thesis using Suc.prems by (simp add: args_step_def)
  next
    case False
    from Suc.prems(1) False obtain t q t2 where p: "dq_fmt (dropWhile isspace s) delim = Inr (t, q)"
      "(case q of [] \<Rightarrow> Inr (acc @ [cstr t2], [])
          | c # r \<Rightarrow> if c = CHR '')'' then Inr (acc @ [cstr t2], r) else xcall_args w blk n delim r (acc @ [cstr t2])) = Inr (argv, r)"
      by (auto simp: args_step_def fbind_Inr)
    have q: "length q \<le> length s" "fmt_text q"
      using dq_fmt_parts [OF p(1)] drop_ws [of s] Suc.prems(2) by (auto simp: fmt_text_def)
    show ?thesis
    proof (cases q)
      case Nil
      then show ?thesis using p(2) q by simp
    next
      case (Cons c u)
      then have u: "fmt_text u" "length u \<le> length s" using q by (auto simp: fmt_text_def)
      show ?thesis
      proof (cases "c = CHR '')''")
        case True
        then show ?thesis using p(2) Cons u by simp
      next
        case f: False
        then have "xcall_args w blk n delim u (acc @ [cstr t2]) = Inr (argv, r)" using p(2) Cons by simp
        from Suc.IH [OF this u(1)] show ?thesis using u(2) by simp
      qed
    qed
  qed
qed simp

lemma call_rest:
  assumes "HXformat2_xcall w blk n name s = Inr (x, r)" "fmt_text s"
  shows "length r \<le> length s \<and> fmt_text r"
proof (cases n)
  case (Suc k)
  from assms(1) obtain argv delim where a: "(if at0 s = CHR '')'' then Inr ([], tl s) else xcall_args w blk k delim s []) = Inr (argv, r)"
    unfolding Suc by (auto simp: xcall_step_def fbind_Inr split: option.splits fmt_func.splits)
  show ?thesis
  proof (cases "at0 s = CHR '')''")
    case True
    then show ?thesis using a assms(2) by (cases s) (auto simp: fmt_text_def)
  next
    case False
    then show ?thesis using a args_rest [OF _ assms(2)] by simp
  qed
qed (use assms in simp)

lemma any_rest:
  assumes "HXformat2_xany w blk n s = Inr (x, r)" "fmt_text s"
  shows "length r \<le> length s \<and> fmt_text r"
proof (cases n)
  case (Suc k)
  have d: "length q \<le> length s \<and> fmt_text q" if "dq_fmt u stops = Inr (t, q)" "fmt_text u" "length u \<le> length s" for u stops t q
    using dq_fmt_parts [OF that(1)] that(2,3) by (auto simp: fmt_text_def)
  consider "at0 s = CHR '')''" | "at0 s \<noteq> CHR '')''" "isspace (at0 s)" | "at0 s \<noteq> CHR '')''" "\<not> isspace (at0 s)" by blast
  then show ?thesis
  proof cases
    case 1
    then show ?thesis using assms by (cases s) (auto simp: Suc xany_step_def fmt_text_def)
  next
    case 2
    then obtain t q where q: "dq_fmt (dropWhile isspace s) '')'' = Inr (t, q)" "q \<noteq> []" "r = tl q"
      using assms(1) by (auto simp: Suc xany_step_def fbind_Inr split: list.splits)
    from d [OF q(1) drop_ws(3) [OF assms(2)] drop_ws(1)] q(2,3) show ?thesis by (cases q) (auto simp: fmt_text_def)
  next
    case 3
    then obtain name q where q: "dq_fmt s name_stops = Inr (name, q)"
      "(case q of [] \<Rightarrow> Inl Failed | c # r' \<Rightarrow> if c = CHR '')'' then
          fbind (aprintf_loop w blk k [] name) (\<lambda>new_name. fbind (lookup_var w blk new_name) (\<lambda>x. Inr (x, r')))
        else HXformat2_xcall w blk k name (dropWhile isspace q)) = Inr (x, r)"
      using assms(1) by (auto simp: Suc xany_step_def fbind_Inr)
    note l = d [OF q(1) assms(2) le_refl]
    obtain c u where c: "q = c # u" using q(2) by (cases q) auto
    show ?thesis
    proof (cases "c = CHR '')''")
      case True
      then have "r = u" using q(2) by (auto simp: c fbind_Inr)
      then show ?thesis using l by (auto simp: c fmt_text_def)
    next
      case False
      then have "HXformat2_xcall w blk k name (dropWhile isspace q) = Inr (x, r)" using q(2) by (simp add: c)
      from call_rest [OF this drop_ws(3)] l drop_ws(1) [of q] show ?thesis by fastforce
    qed
  qed
qed (use assms in simp)

text \<open>Fuel for each function.\<close>

lemma fuel_enough:
  shows "3 * length fmt < n \<Longrightarrow> fmt_text fmt \<Longrightarrow> aprintf_loop w blk n out fmt \<noteq> Inl No_fuel"
    and "3 * length s + 5 < n \<Longrightarrow> fmt_text s \<Longrightarrow> HXformat2_xany w blk n s \<noteq> Inl No_fuel"
    and "3 * length c + 4 < n \<Longrightarrow> fmt_text c \<Longrightarrow> HXformat2_xcall w blk n name c \<noteq> Inl No_fuel"
    and "3 * length g + 3 < n \<Longrightarrow> fmt_text g \<Longrightarrow> xcall_args w blk n delim g acc \<noteq> Inl No_fuel"
proof (induction n arbitrary: out fmt s c name g delim acc)
  case (Suc n)
  note lp = Suc.IH(1) and an = Suc.IH(2) and ca = Suc.IH(3) and ag = Suc.IH(4)
  {
    case (1 out fmt)
    define d where "d = dropWhile (\<lambda>c. c \<noteq> CHR ''%'') fmt"
    have d: "length d \<le> length fmt" "NUL \<notin> set d"
      using 1(2) by (auto simp: d_def fmt_text_def length_dropWhile_le dest: set_dropWhileD)
    consider "d = []" | p where "d = [p]" | p e rest where "d = p # e # rest" by (metis list.exhaust)
    then show ?case
    proof cases
      case (3 p e rest)
      have r: "fmt_text rest" "3 * length rest + 5 < n" using d 3 1 by (auto simp: fmt_text_def)
      have l: "aprintf_loop w blk n o1 r1 \<noteq> Inl No_fuel" if "length r1 \<le> length rest" "fmt_text r1" for o1 r1
        using lp [of r1 o1] that r(2) by simp
      have "fbind (HXformat2_xany w blk n rest) (\<lambda>(ex, rest). aprintf_loop w blk n (o1 @ expn_text ex) rest) \<noteq> Inl No_fuel" for o1
        using an [OF r(2,1)] l any_rest [OF _ r(1)] by (auto simp: fbind_stop) blast
      then show ?thesis using 3 l [OF le_refl r(1)] by (simp add: aprintf_step_def Let_def del: append_assoc flip: d_def)
    qed (simp_all add: aprintf_step_def Let_def flip: d_def)
  next
    case (2 s)
    have "fbind (dq_fmt (dropWhile isspace s) '')'') (\<lambda>(_, r). case r of [] \<Rightarrow> Inl Undefined | _ # r \<Rightarrow> Inr (Nexp, r)) \<noteq> Inl No_fuel"
      by (auto simp: fbind_stop dq_fmt_fuel split: list.splits)
    moreover have "fbind (dq_fmt s name_stops) (\<lambda>(name, r). case r of [] \<Rightarrow> Inl Failed | c # r' \<Rightarrow> if c = CHR '')'' then
          fbind (aprintf_loop w blk n [] name) (\<lambda>new_name. fbind (lookup_var w blk new_name) (\<lambda>x. Inr (x, r')))
        else HXformat2_xcall w blk n name (dropWhile isspace r)) \<noteq> Inl No_fuel"
    proof -
      have "aprintf_loop w blk n [] name \<noteq> Inl No_fuel \<and> HXformat2_xcall w blk n name (dropWhile isspace r) \<noteq> Inl No_fuel"
        if "dq_fmt s name_stops = Inr (name, r)" for name r
      proof -
        have p: "length name + length r \<le> length s" "fmt_text name" "fmt_text r"
          using dq_fmt_parts [OF that] 2(2) by (auto simp: fmt_text_def)
        then show ?thesis using lp [of name] ca [OF _ drop_ws(3) [OF p(3)]] drop_ws(1) [of r] 2(1) by simp
      qed
      then show ?thesis by (auto simp: fbind_stop dq_fmt_fuel lookup_fuel split: list.splits)
    qed
    ultimately show ?case by (simp add: xany_step_def)
  next
    case (3 c name)
    have "xcall_args w blk n delim c [] \<noteq> Inl No_fuel" for delim using ag [of c] 3 by simp
    then show ?case by (auto simp: xcall_step_def fbind_stop call_fuel split: option.splits fmt_func.splits if_splits)
  next
    case (4 g delim acc)
    have "aprintf_loop w blk n [] t \<noteq> Inl No_fuel \<and> (\<forall>e u acc. r = e # u \<longrightarrow> xcall_args w blk n delim u acc \<noteq> Inl No_fuel)"
      if "dq_fmt (dropWhile isspace g) delim = Inr (t, r)" for t r
    proof -
      have p: "length t + length r \<le> length g" "fmt_text t" "fmt_text r"
        using dq_fmt_parts [OF that] drop_ws [of g] 4(2) by (auto simp: fmt_text_def)
      then show ?thesis using lp [of t] ag 4(1) by (auto simp: fmt_text_def)
    qed
    then show ?case by (auto simp: args_step_def fbind_stop dq_fmt_fuel split: list.splits if_splits)
  }
qed simp_all

section \<open>Templates\<close>

text \<open>
  A template is literal text, percent signs that open no parenthesis, references to variables whose names are
  templates, and calls of functions whose arguments are templates, separated by a character.
\<close>

datatype item = Lit "char list" | Pct char | Ref "item list" | Call "char list" char "item list list"

fun render_item :: "item \<Rightarrow> char list" and render :: "item list \<Rightarrow> char list"
  and render_args :: "char \<Rightarrow> item list list \<Rightarrow> char list" where
  "render_item (Lit t) = t"
| "render_item (Pct c) = [CHR ''%'', c]"
| "render_item (Ref is) = ''%('' @ render is @ '')''"
| "render_item (Call f d args) = ''%('' @ f @ '' '' @ render_args d args @ '')''"
| "render [] = []"
| "render (i # is) = render_item i @ render is"
| "render_args d [] = []"
| "render_args d (a # as) = render a @ (if as = [] then [] else d # render_args d as)"

text \<open>Characters without a meaning to the expander, and those that stand outside of all parentheses.\<close>

definition plain :: "char \<Rightarrow> bool" where
  "plain c \<longleftrightarrow> c \<notin> {DQ, SQ, BS, NUL, CHR ''('', CHR '')'', CHR ''%''}"

fun top_item :: "(char \<Rightarrow> bool) \<Rightarrow> item \<Rightarrow> bool" where
  "top_item P (Lit t) = list_all P t"
| "top_item P (Pct c) = P c"
| "top_item P _ = True"

definition delims :: "(char list \<Rightarrow> func_entry option) \<Rightarrow> char list \<Rightarrow> char list" where
  "delims F f = (case F f of None \<Rightarrow> '')'' | Some e \<Rightarrow> fn_delim e)"

text \<open>An argument starts with no white space and has no delimiters outside of parentheses; it may be empty where the
  empty text is still seen as an argument.\<close>

fun ok_item :: "(char list \<Rightarrow> func_entry option) \<Rightarrow> item \<Rightarrow> bool" and ok_items :: "(char list \<Rightarrow> func_entry option) \<Rightarrow> item list \<Rightarrow> bool"
  and ok_args :: "(char list \<Rightarrow> func_entry option) \<Rightarrow> char list \<Rightarrow> char \<Rightarrow> item list list \<Rightarrow> bool" where
  "ok_item F (Lit t) = list_all plain t"
| "ok_item F (Pct c) = plain c"
| "ok_item F (Ref is) = (ok_items F is \<and> render is \<noteq> [] \<and> list_all (top_item (\<lambda>c. \<not> isspace c)) is)"
| "ok_item F (Call f d args) = (f \<noteq> [] \<and> list_all (\<lambda>c. plain c \<and> \<not> isspace c) f \<and> plain d \<and>
     (length args > 1 \<longrightarrow> d \<in> set (delims F f)) \<and> args \<noteq> [[]] \<and> (length args = 1 \<longrightarrow> render (hd args) \<noteq> []) \<and>
     ok_args F (delims F f) d args)"
| "ok_items F [] = True"
| "ok_items F (i # is) = (ok_item F i \<and> ok_items F is)"
| "ok_args F dl d [] = True"
| "ok_args F dl d (a # as) = (ok_items F a \<and> list_all (top_item (\<lambda>c. c \<notin> set dl)) a \<and> \<not> isspace (at0 (render a)) \<and>
     (isspace d \<longrightarrow> render a \<noteq> []) \<and> ok_args F dl d as)"

lemma stops_at_set:
  assumes "c \<noteq> NUL"
  shows "stops_at (Some s) c \<longleftrightarrow> c \<in> set s"
proof (cases "c \<in> set s")
  case True
  then have "length (takeWhile (\<lambda>d. d \<noteq> c) s) < length s" by (induction s) auto
  then show ?thesis using True by (simp add: stops_at_def strchr_def)
next
  case False
  then have t: "takeWhile (\<lambda>d. d \<noteq> c) s = s" by (auto simp: takeWhile_eq_all_conv)
  show ?thesis using False assms unfolding stops_at_def strchr_def option.case t by simp
qed

section \<open>Finding the end of a template\<close>

lemma scan_one:
  assumes "c \<notin> {DQ, SQ, BS, NUL, CHR ''('', CHR '')''}" "level \<noteq> 0 \<or> \<not> stops_at stops c"
  shows "dq_scan (Suc n) stops (c # r) level NUL = dq_scan n stops r level NUL"
  using assms by (auto simp: scan_simps)

lemma scan_plain:
  assumes "\<forall>c \<in> set u. c \<notin> {DQ, SQ, BS, NUL, CHR ''('', CHR '')''} \<and> (level \<noteq> 0 \<or> \<not> stops_at stops c)"
  shows "dq_scan (length u + n) stops (u @ r) level NUL = dq_scan n stops r level NUL"
  using assms by (induction u) (simp_all add: scan_one)

lemma scan_parens:
  assumes l: "unat level + length u + 2 < 2 ^ 32"
    and u: "\<And>n r. dq_scan (length u + n) stops (u @ r) (level + 1) NUL = dq_scan n stops r (level + 1) NUL"
    and p: "level \<noteq> 0 \<or> \<not> stops_at stops (CHR ''%'')"
  shows "dq_scan (length (''%('' @ u @ '')'') + n) stops ((''%('' @ u @ '')'') @ r) level NUL = dq_scan n stops r level NUL"
proof -
  have "unat (level + 1) = unat level + 1" using l by (simp add: unat_plus_if')
  then have z: "level + 1 \<noteq> 0" "level + 1 > 0" by (auto simp: unat_eq_0 word_less_nat_alt)
  have "dq_scan (length (''%('' @ u @ '')'') + n) stops ((''%('' @ u @ '')'') @ r) level NUL =
      dq_scan (Suc (Suc (length u + Suc n))) stops (CHR ''%'' # CHR ''('' # u @ CHR '')'' # r) level NUL" by simp
  also have "\<dots> = dq_scan (Suc (length u + Suc n)) stops (CHR ''('' # u @ CHR '')'' # r) level NUL"
    by (rule scan_one) (use p in auto)
  also have "\<dots> = dq_scan (length u + Suc n) stops (u @ CHR '')'' # r) (level + 1) NUL" by (simp add: scan_simps)
  also have "\<dots> = dq_scan (Suc n) stops (CHR '')'' # r) (level + 1) NUL" by (rule u)
  also have "\<dots> = dq_scan n stops r level NUL" using z by (simp add: scan_simps)
  finally show ?thesis .
qed

lemma scan_items:
  shows "ok_item F i \<Longrightarrow> unat level + length (render_item i) < 2 ^ 32 \<Longrightarrow> level \<noteq> 0 \<or> top_item (\<lambda>c. \<not> stops_at stops c) i \<Longrightarrow>
      \<not> stops_at stops (CHR ''%'') \<Longrightarrow>
      dq_scan (length (render_item i) + n) stops (render_item i @ r) level NUL = dq_scan n stops r level NUL"
    and "ok_items F is \<Longrightarrow> unat level + length (render is) < 2 ^ 32 \<Longrightarrow> level \<noteq> 0 \<or> list_all (top_item (\<lambda>c. \<not> stops_at stops c)) is \<Longrightarrow>
      \<not> stops_at stops (CHR ''%'') \<Longrightarrow>
      dq_scan (length (render is) + n) stops (render is @ r) level NUL = dq_scan n stops r level NUL"
    and "ok_args F dl d as \<Longrightarrow> unat level + length (render_args d as) < 2 ^ 32 \<Longrightarrow> level \<noteq> 0 \<Longrightarrow> plain d \<Longrightarrow>
      \<not> stops_at stops (CHR ''%'') \<Longrightarrow>
      dq_scan (length (render_args d as) + n) stops (render_args d as @ r) level NUL = dq_scan n stops r level NUL"
proof (induction i and "is" and d as arbitrary: level n r and level n r and dl level n r rule: render_item_render_render_args.induct)
  case (1 t)
  then show ?case by (auto intro!: scan_plain simp: list_all_iff plain_def)
next
  case (2 c)
  have "dq_scan (length [CHR ''%'', c] + n) stops ([CHR ''%'', c] @ r) level NUL = dq_scan n stops r level NUL"
    by (rule scan_plain) (use 2 in \<open>auto simp: plain_def\<close>)
  then show ?case by simp
next
  case (3 "is")
  have l: "unat level + length (render is) + 2 < 2 ^ 32" using 3 by simp
  then have "unat (level + 1) = unat level + 1" by (simp add: unat_plus_if')
  then have "level + 1 \<noteq> 0" "unat (level + 1) + length (render is) < 2 ^ 32" using l by (auto simp: unat_eq_0)
  then show ?case using scan_parens [OF l 3(1)] 3 by simp
next
  case (4 f d args)
  have l: "unat level + length (f @ '' '' @ render_args d args) + 2 < 2 ^ 32" using 4 by simp
  then have "unat (level + 1) = unat level + 1" by (simp add: unat_plus_if')
  then have z: "level + 1 \<noteq> 0" "unat (level + 1) + length (render_args d args) < 2 ^ 32" using l by (auto simp: unat_eq_0)
  have f: "dq_scan (length (f @ '' '' ) + n) stops ((f @ '' '') @ r) (level + 1) NUL = dq_scan n stops r (level + 1) NUL" for n r
    by (rule scan_plain) (use 4(2) z in \<open>auto simp: list_all_iff plain_def\<close>)
  have g: "dq_scan (length (render_args d args) + n) stops (render_args d args @ r) (level + 1) NUL = dq_scan n stops r (level + 1) NUL" for n r
    using 4(2-) z by (intro 4(1) [of "delims F f"]) auto
  have "dq_scan (length (f @ '' '' @ render_args d args) + n) stops ((f @ '' '' @ render_args d args) @ r) (level + 1) NUL =
      dq_scan n stops r (level + 1) NUL" for n r
    using f [of "length (render_args d args) + n" "render_args d args @ r"] g by (simp add: add.assoc)
  from scan_parens [OF l this] 4 show ?case by simp
next
  case (6 i "is")
  have "dq_scan (length (render_item i) + (length (render is) + n)) stops (render_item i @ render is @ r) level NUL =
      dq_scan (length (render is) + n) stops (render is @ r) level NUL" by (rule 6(1)) (use 6(3-) in auto)
  also have "\<dots> = dq_scan n stops r level NUL" by (rule 6(2)) (use 6(3-) in auto)
  finally show ?case by (simp add: add.assoc)
next
  case (8 d a as)
  show ?case
  proof (cases "as = []")
    case True
    then show ?thesis using 8 by simp
  next
    case False
    have d: "dq_scan (Suc (length (render_args d as) + n)) stops (d # render_args d as @ r) level NUL =
        dq_scan (length (render_args d as) + n) stops (render_args d as @ r) level NUL"
      by (rule scan_one) (use 8 in \<open>auto simp: plain_def\<close>)
    show ?thesis using False 8(1) [of level "Suc (length (render_args d as) + n)" "d # render_args d as @ r"]
      8(2) [of dl level n r] 8(3-) d by (simp add: add.assoc)
  qed
qed simp_all


text \<open>The characters of a template, and its first one.\<close>

lemma render_chars:
  shows "ok_item F i \<Longrightarrow> \<forall>c \<in> set (render_item i). c \<notin> {DQ, SQ, BS, NUL}"
    and "ok_items F is \<Longrightarrow> \<forall>c \<in> set (render is). c \<notin> {DQ, SQ, BS, NUL}"
    and "ok_args F dl d as \<Longrightarrow> plain d \<Longrightarrow> \<forall>c \<in> set (render_args d as). c \<notin> {DQ, SQ, BS, NUL}"
proof (induction i and "is" and d as arbitrary: and and dl rule: render_item_render_render_args.induct)
  case (4 f d args)
  have "\<forall>c \<in> set (render_args d args). c \<notin> {DQ, SQ, BS, NUL}" by (rule 4(1) [of "delims F f"]) (use 4(2) in auto)
  then show ?case using 4(2) by (auto simp: plain_def list_all_iff)
next
  case (8 d a as)
  show ?case
  proof (cases "as = []")
    case True
    then show ?thesis using 8 by auto
  next
    case False
    have "\<forall>c \<in> set (render_args d as). c \<notin> {DQ, SQ, BS, NUL}" by (rule 8(2) [OF False, of dl]) (use 8(3-) in auto)
    then show ?thesis using 8 by (auto simp: plain_def)
  qed
qed (auto simp: plain_def list_all_iff)

lemma hd_render:
  assumes "list_all (top_item P) is" "P (CHR ''%'')" "render is \<noteq> []"
  shows "P (hd (render is))"
  using assms
proof (induction "is")
  case (Cons i "is")
  then show ?case by (cases i) (auto simp: hd_append list_all_iff)
qed simp

lemma dequote_clean: "\<forall>c \<in> set u. c \<notin> {DQ, SQ, BS} \<Longrightarrow> dequote None NUL u = (u, None)"
  by (induction u) (simp_all add: dequote.simps stops_at_def)

lemma dq_fmt_item:
  assumes u: "\<And>n r. dq_scan (length u + n) (Some stops) (u @ r) 0 NUL = dq_scan n (Some stops) r 0 NUL"
    and c: "\<forall>c \<in> set u. c \<notin> {DQ, SQ, BS, NUL}" "c \<in> set stops" "c \<notin> {DQ, SQ, BS, NUL, CHR ''(''}"
    and t: "fmt_text (u @ c # r)"
  shows "dq_fmt (u @ c # r) stops = Inr (u, c # r)"
proof -
  have "dq_scan (Suc (length (u @ c # r))) (Some stops) (u @ c # r) 0 NUL = dq_scan (Suc (Suc (length r))) (Some stops) (c # r) 0 NUL"
    using u [of "Suc (Suc (length r))" "c # r"] by simp
  also have "\<dots> = Some (c # r)" using c(2,3) stops_at_set [of c stops] by (auto simp: scan_simps)
  finally have s: "dq_scan (Suc (length (u @ c # r))) (Some stops) (u @ c # r) 0 NUL = Some (c # r)" .
  have t: "NUL \<notin> set (u @ c # r)" "length (u @ c # r) \<le> mc_max" using t by (simp_all add: fmt_text_def)
  from dq_fmt_scan [OF t, of stops] s have "dq_fmt (u @ c # r) stops = Inr (fst (dequote None NUL u), c # r)" by auto
  then show ?thesis using dequote_clean [of u] c(1) by simp
qed

lemma isspace_cases: "isspace c \<longleftrightarrow> c \<in> {CHR '' '', CHR 0x09, CHR 0x0A, CHR 0x0B, CHR 0x0C, CHR 0x0D}"
proof -
  have "9 \<le> n \<and> n \<le> 13 \<longleftrightarrow> n \<in> {9, 10, 11, 12, 13}" for n :: nat by auto
  moreover have "(of_char c = (9 :: nat)) = (c = CHR 0x09)" using of_char_eq_iff [of c "CHR 0x09", where 'a = nat] by simp
  moreover have "(of_char c = (10 :: nat)) = (c = CHR 0x0A)" using of_char_eq_iff [of c "CHR 0x0A", where 'a = nat] by simp
  moreover have "(of_char c = (11 :: nat)) = (c = CHR 0x0B)" using of_char_eq_iff [of c "CHR 0x0B", where 'a = nat] by simp
  moreover have "(of_char c = (12 :: nat)) = (c = CHR 0x0C)" using of_char_eq_iff [of c "CHR 0x0C", where 'a = nat] by simp
  moreover have "(of_char c = (13 :: nat)) = (c = CHR 0x0D)" using of_char_eq_iff [of c "CHR 0x0D", where 'a = nat] by simp
  ultimately show ?thesis by (auto simp: isspace_def)
qed

lemma name_stops_iff: "c \<noteq> NUL \<Longrightarrow> stops_at (Some name_stops) c \<longleftrightarrow> c = CHR '')'' \<or> isspace c"
  by (subst stops_at_set) (auto simp: name_stops_def isspace_cases)

section \<open>Values of templates\<close>

text \<open>What a name and a template stand for, given the variables \<open>V\<close> and the functions \<open>F\<close>, from the inside out.\<close>

definition var_text :: "'f world \<Rightarrow> (char list \<Rightarrow> fmt_entry option) \<Rightarrow> char list \<Rightarrow> fmt_stop + char list" where
  "var_text w V name =
     (if name = [] then Inl Failed
      else if cstr name = [] then Inr []
      else case V (cstr name) of None \<Rightarrow> Inr []
        | Some e \<Rightarrow> fbind (HXformat2_xvar w e) (\<lambda>x. Inr (expn_text x)))"

fun eval_item :: "'f world \<Rightarrow> HXformat_map \<Rightarrow> (char list \<Rightarrow> fmt_entry option) \<Rightarrow> (char list \<Rightarrow> func_entry option) \<Rightarrow> item \<Rightarrow> fmt_stop + char list"
  and eval_items :: "'f world \<Rightarrow> HXformat_map \<Rightarrow> (char list \<Rightarrow> fmt_entry option) \<Rightarrow> (char list \<Rightarrow> func_entry option) \<Rightarrow> item list \<Rightarrow> fmt_stop + char list"
  and eval_args :: "'f world \<Rightarrow> HXformat_map \<Rightarrow> (char list \<Rightarrow> fmt_entry option) \<Rightarrow> (char list \<Rightarrow> func_entry option) \<Rightarrow> item list list \<Rightarrow> fmt_stop + char list list"
where
  "eval_item w blk V F (Lit t) = Inr t"
| "eval_item w blk V F (Pct c) = Inr [CHR ''%'', c]"
| "eval_item w blk V F (Ref is) = fbind (eval_items w blk V F is) (var_text w V)"
| "eval_item w blk V F (Call f d args) = fbind (eval_args w blk V F args) (\<lambda>argv.
     case F f of None \<Rightarrow> Inr []
     | Some e \<Rightarrow> fbind (call_proc w blk (fn_proc e) argv) (\<lambda>x. Inr (expn_text x)))"
| "eval_items w blk V F [] = Inr []"
| "eval_items w blk V F (i # is) =
     fbind (eval_item w blk V F i) (\<lambda>t. fbind (eval_items w blk V F is) (\<lambda>u. Inr (t @ u)))"
| "eval_args w blk V F [] = Inr []"
| "eval_args w blk V F (a # as) =
     fbind (eval_items w blk V F a) (\<lambda>t. fbind (eval_args w blk V F as) (\<lambda>ts. Inr (cstr t # ts)))"

text \<open>The maps of a formatter hold these variables and functions.\<close>

definition fmt_holds :: "HXformat_map \<Rightarrow> addr set \<Rightarrow> nat \<Rightarrow> (char list \<Rightarrow> fmt_entry option) \<Rightarrow> (char list \<Rightarrow> func_entry option) \<Rightarrow> bool" where
  "fmt_holds blk A n V F \<longleftrightarrow> str_holds HXmap_valuecpy (vars blk) A n (\<lambda>k. map_option Some (V k)) \<and>
     (\<exists>B m. str_holds func_entry_clone (funcs blk) B m (\<lambda>k. map_option (\<lambda>e. Some (F_entry e)) (F k))) \<and>
     (\<forall>f e. F f = Some e \<longrightarrow> CHR '')'' \<in> set (fn_delim e) \<and> set (fn_delim e) \<subseteq> {CHR '')'', CHR '','', CHR '' ''})"

lemma fbind_assoc [simp]: "fbind (fbind m f) g = fbind m (\<lambda>x. fbind (f x) g)"
  by (cases m) simp_all

lemma fbind_cong: "(\<And>x. m = Inr x \<Longrightarrow> f x = g x) \<Longrightarrow> fbind m f = fbind m g"
  by (cases m) simp_all

lemma fbind_Inr_right: "fbind m Inr = m"
  by (cases m) simp_all

lemma fmt_holds_var:
  assumes "fmt_holds blk A n V F"
  shows "fbind (lookup_var w blk name) (\<lambda>x. K (expn_text x)) = fbind (var_text w V name) K"
proof -
  have "HXmap_get (vars blk) (Some (cstr name)) =
      Some (case V (cstr name) of None \<Rightarrow> (None, Some ENOENT) | Some e \<Rightarrow> (Some e, None))"
    using str_holds_get(1) assms by (cases "V (cstr name)") (auto simp: fmt_holds_def dest: str_holds_get(1) [of _ _ _ _ _ "cstr name"])
  then show ?thesis
    by (cases "V (cstr name)") (simp_all add: lookup_var_def var_text_def expn_text_def)
qed

lemma fmt_holds_func:
  assumes "fmt_holds blk A n V F"
  shows "\<exists>e. HXmap_get (funcs blk) (Some f) = Some (map_option F_entry (F f), e)"
proof -
  obtain B m where "str_holds func_entry_clone (funcs blk) B m (\<lambda>k. map_option (\<lambda>e. Some (F_entry e)) (F k))"
    using assms by (auto simp: fmt_holds_def)
  from str_holds_get(1) [OF this, of f] show ?thesis by (cases "F f") simp_all
qed

lemma loop_nil: "0 < n \<Longrightarrow> aprintf_loop w blk n out [] = Inr out"
  by (cases n) (simp_all add: aprintf_step_def)

lemma loop_lit: "CHR ''%'' \<notin> set t \<Longrightarrow> aprintf_loop w blk n out (t @ r) = aprintf_loop w blk n (out @ t) r"
proof -
  assume t: "CHR ''%'' \<notin> set t"
  have "takeWhile (\<lambda>c. c \<noteq> CHR ''%'') (t @ r) = t @ takeWhile (\<lambda>c. c \<noteq> CHR ''%'') r"
    "dropWhile (\<lambda>c. c \<noteq> CHR ''%'') (t @ r) = dropWhile (\<lambda>c. c \<noteq> CHR ''%'') r"
    using t by (induction t) auto
  then show ?thesis by (cases n) (simp_all add: aprintf_step_def)
qed

lemma loop_pct: "c \<noteq> CHR ''('' \<Longrightarrow> aprintf_loop w blk (Suc n) out (CHR ''%'' # c # r) = aprintf_loop w blk n (out @ [CHR ''%'', c]) r"
  by (simp add: aprintf_step_def)

lemma loop_ref: "aprintf_loop w blk (Suc n) out (CHR ''%'' # CHR ''('' # r) =
    fbind (HXformat2_xany w blk n r) (\<lambda>(ex, rest). aprintf_loop w blk n (out @ expn_text ex) rest)"
  by (simp add: aprintf_step_def)

lemma no_refs:
  assumes "ok_items F is" "\<And>j. j \<le> length (render is) \<Longrightarrow> \<not> is_prefix ''%('' (drop j (render is))"
  shows "eval_items w blk V F is = Inr (render is)"
  using assms
proof (induction "is")
  case (Cons i "is")
  have "\<not> is_prefix ''%('' (drop j (render is))" if "j \<le> length (render is)" for j
    using Cons.prems(2) [of "length (render_item i) + j"] that by simp
  then have "eval_items w blk V F is = Inr (render is)" using Cons by simp
  moreover have "eval_item w blk V F i = Inr (render_item i)"
    using Cons.prems(2) [of 0] by (cases i) simp_all
  ultimately show ?case by simp
qed simp

lemma no_strstr:
  assumes "ok_items F is" "strstr (render is) ''%('' = None"
  shows "eval_items w blk V F is = Inr (render is)"
  by (rule no_refs [OF assms(1)]) (rule strstr_None [OF assms(2)])

lemma args_first:
  assumes "ok_args F dl d as" "plain d" "CHR '')'' \<in> set dl" "CHR ''%'' \<notin> set dl"
  shows "\<not> isspace (at0 (render_args d as @ CHR '')'' # r))"
    and "as \<noteq> [] \<Longrightarrow> length as = 1 \<longrightarrow> render (hd as) \<noteq> [] \<Longrightarrow> at0 (render_args d as @ CHR '')'' # r) \<noteq> CHR '')''"
proof -
  have "\<not> isspace (at0 (render_args d as @ CHR '')'' # r)) \<and>
      (as \<noteq> [] \<longrightarrow> (length as = 1 \<longrightarrow> render (hd as) \<noteq> []) \<longrightarrow> at0 (render_args d as @ CHR '')'' # r) \<noteq> CHR '')'')"
  proof (cases as)
    case Nil
    then show ?thesis by (simp add: isspace_cases)
  next
    case (Cons a bs)
    show ?thesis
    proof (cases "render a")
      case Nil
      then show ?thesis using assms Cons by (auto simp: isspace_cases plain_def)
    next
      case (Cons x xs)
      then have "x \<notin> set dl" using hd_render [of "\<lambda>c. c \<notin> set dl" a] assms \<open>as = a # bs\<close> by simp
      then show ?thesis using assms Cons \<open>as = a # bs\<close> by auto
    qed
  qed
  then show "\<not> isspace (at0 (render_args d as @ CHR '')'' # r))"
    "as \<noteq> [] \<Longrightarrow> length as = 1 \<longrightarrow> render (hd as) \<noteq> [] \<Longrightarrow> at0 (render_args d as @ CHR '')'' # r) \<noteq> CHR '')''" by blast+
qed

lemma top_stops:
  assumes "ok_items F is" "i \<in> set is" "top_item (\<lambda>c. \<not> isspace c) i"
  shows "top_item (\<lambda>c. \<not> stops_at (Some name_stops) c) i"
proof -
  have "ok_item F i" using assms(1,2) by (induction "is") auto
  then show ?thesis using assms(3) name_stops_iff by (cases i) (auto simp: plain_def list_all_iff)
qed

lemma any_ref:
  assumes ok: "ok_item F (Ref is)" and t: "fmt_text (render is @ CHR '')'' # r)" "length (render is) < 2 ^ 32"
    and IH: "aprintf_loop w blk n [] (render is) = eval_items w blk V F is" and h: "fmt_holds blk A m V F"
  shows "fbind (HXformat2_xany w blk (Suc n) (render is @ CHR '')'' # r)) (\<lambda>(ex, rest). K (expn_text ex) rest) =
    fbind (eval_item w blk V F (Ref is)) (\<lambda>t. K t r)"
proof -
  have o: "ok_items F is" "render is \<noteq> []" "list_all (top_item (\<lambda>c. \<not> isspace c)) is" using ok by simp_all
  obtain x xs where x: "render is = x # xs" using o(2) by (cases "render is") auto
  have cl: "\<forall>c \<in> set (render is). c \<notin> {DQ, SQ, BS, NUL}" by (rule render_chars(2) [OF o(1)])
  have top: "list_all (top_item (\<lambda>c. \<not> stops_at (Some name_stops) c)) is"
    using top_stops [OF o(1)] o(3) by (auto simp: list_all_iff)
  have sp: "\<not> isspace x" "x \<noteq> CHR '')''"
    using hd_render [OF o(3) _ o(2)] hd_render [OF top _ o(2)] x name_stops_iff [of "CHR '')''"] name_stops_iff [of "CHR ''%''"]
    by (auto simp: isspace_cases)
  have "dq_fmt (render is @ CHR '')'' # r) name_stops = Inr (render is, CHR '')'' # r)"
  proof (rule dq_fmt_item [OF _ cl _ _ t(1)])
    show "dq_scan (length (render is) + k) (Some name_stops) (render is @ u) 0 NUL = dq_scan k (Some name_stops) u 0 NUL" for k u
      by (rule scan_items(2) [OF o(1)]) (use t top name_stops_iff [of "CHR ''%''"] in \<open>auto simp: isspace_cases\<close>)
  qed (simp_all add: name_stops_def)
  moreover have "at0 (render is @ CHR '')'' # r) = x" by (simp add: x)
  ultimately have "HXformat2_xany w blk (Suc n) (render is @ CHR '')'' # r) =
      fbind (eval_items w blk V F is) (\<lambda>nn. fbind (lookup_var w blk nn) (\<lambda>x. Inr (x, r)))"
    using sp by (simp add: xany_step_def IH)
  then show ?thesis by (simp add: fmt_holds_var [OF h, where K = "\<lambda>t. K t r"])
qed


lemma delims_ok:
  assumes "fmt_holds blk m M V F"
  shows "CHR '')'' \<in> set (delims F f)" "set (delims F f) \<subseteq> {CHR '')'', CHR '','', CHR '' ''}"
  using assms by (auto simp: fmt_holds_def delims_def split: option.splits)

lemma any_call:
  assumes ok: "ok_item F (Call f d args)" and t: "fmt_text (f @ '' '' @ render_args d args @ CHR '')'' # r)" "length f < 2 ^ 32"
    and IH: "args \<noteq> [] \<Longrightarrow> xcall_args w blk n (delims F f) (render_args d args @ CHR '')'' # r) [] =
        fbind (eval_args w blk V F args) (\<lambda>ts. Inr (ts, r))"
    and h: "fmt_holds blk A m V F"
  shows "fbind (HXformat2_xany w blk (Suc (Suc n)) (f @ '' '' @ render_args d args @ CHR '')'' # r)) (\<lambda>(ex, rest). K (expn_text ex) rest) =
    fbind (eval_item w blk V F (Call f d args)) (\<lambda>t. K t r)"
proof -
  let ?s = "render_args d args @ CHR '')'' # r"
  have o: "f \<noteq> []" "\<forall>c \<in> set f. plain c \<and> \<not> isspace c" "plain d" "length args = 1 \<longrightarrow> render (hd args) \<noteq> []"
    "ok_args F (delims F f) d args" using ok by (auto simp: list_all_iff)
  obtain x xs where x: "f = x # xs" using o(1) by (cases f) auto
  have cl: "\<forall>c \<in> set f. c \<notin> {DQ, SQ, BS, NUL}" using o(2) by (auto simp: plain_def)
  have "dq_fmt (f @ CHR '' '' # ?s) name_stops = Inr (f, CHR '' '' # ?s)"
  proof (rule dq_fmt_item [OF _ cl])
    show "dq_scan (length f + k) (Some name_stops) (f @ u) 0 NUL = dq_scan k (Some name_stops) u 0 NUL" for k u
      by (rule scan_plain) (use o(2) name_stops_iff in \<open>auto simp: plain_def\<close>)
  qed (use t in \<open>simp_all add: name_stops_def\<close>)
  moreover have "at0 (f @ CHR '' '' # ?s) = x" "\<not> isspace x" "x \<noteq> CHR '')''" using o(2) by (auto simp: x plain_def)
  moreover have dl: "CHR '')'' \<in> set (delims F f)" "CHR ''%'' \<notin> set (delims F f)" using delims_ok [OF h, of f] by auto
  moreover have "dropWhile isspace (CHR '' '' # ?s) = ?s"
    using args_first(1) [OF o(5,3) dl, of r] by (cases ?s) (simp_all add: isspace_cases)
  ultimately have a: "HXformat2_xany w blk (Suc (Suc n)) (f @ '' '' @ ?s) = xcall_step w blk (\<lambda>delim s. xcall_args w blk n delim s []) f ?s"
    by (simp add: xany_step_def)
  have b: "(if at0 ?s = CHR '')'' then Inr ([], tl ?s) else xcall_args w blk n (delims F f) ?s []) =
      fbind (eval_args w blk V F args) (\<lambda>ts. Inr (ts, r))"
  proof (cases "args = []")
    case False
    then show ?thesis using args_first(2) [OF o(5,3) dl False o(4), of r] IH by simp
  qed simp
  obtain e where e: "HXmap_get (funcs blk) (Some f) = Some (map_option F_entry (F f), e)" using fmt_holds_func [OF h] by blast
  have c: "(case map_option F_entry (F f) of Some (F_entry f) \<Rightarrow> fn_delim f | _ \<Rightarrow> '')'') = delims F f"
    by (simp add: delims_def split: option.splits)
  show ?thesis
    unfolding a xcall_step_def e option.case prod.case c b
    by (cases "F f") (simp_all add: expn_text_def [of Nexp])
qed

lemma args_item:
  assumes ok: "ok_items F a" "list_all (top_item (\<lambda>c. c \<notin> set dl)) a" "\<not> isspace (at0 (render a))"
    and dl: "set dl \<subseteq> {CHR '')'', CHR '','', CHR '' ''}" and c: "c \<in> set dl" "render a = [] \<longrightarrow> \<not> isspace c"
    and t: "fmt_text (render a @ c # r)" "length (render a) < 2 ^ 32"
    and IH: "aprintf_loop w blk n [] (render a) = eval_items w blk V F a"
  shows "xcall_args w blk (Suc n) dl (render a @ c # r) acc =
    fbind (eval_items w blk V F a) (\<lambda>t. if c = CHR '')'' then Inr (acc @ [cstr t], r)
      else xcall_args w blk n dl r (acc @ [cstr t]))"
proof -
  have cl: "\<forall>c \<in> set (render a). c \<notin> {DQ, SQ, BS, NUL}" by (rule render_chars(2) [OF ok(1)])
  have st: "stops_at (Some dl) x \<longleftrightarrow> x \<in> set dl" if "x \<noteq> NUL" for x by (rule stops_at_set [OF that])
  have top: "top_item (\<lambda>c. \<not> stops_at (Some dl) c) i" if "i \<in> set a" for i
  proof -
    have "ok_item F i" using ok(1) that by (induction a) auto
    moreover have "top_item (\<lambda>c. c \<notin> set dl) i" using ok(2) that by (simp add: list_all_iff)
    ultimately show ?thesis using st by (cases i) (auto simp: plain_def list_all_iff)
  qed
  have "dq_fmt (render a @ c # r) dl = Inr (render a, c # r)"
  proof (rule dq_fmt_item [OF _ cl c(1) _ t(1)])
    show "dq_scan (length (render a) + k) (Some dl) (render a @ u) 0 NUL = dq_scan k (Some dl) u 0 NUL" for k u
      by (rule scan_items(2) [OF ok(1)]) (use t top st [of "CHR ''%''"] dl in \<open>auto simp: list_all_iff\<close>)
  qed (use c(1) dl in auto)
  moreover have "dropWhile isspace (render a @ c # r) = render a @ c # r"
    using ok(3) c(2) by (cases "render a") simp_all
  moreover have "(if strstr (render a) ''%('' = None then Inr (render a) else aprintf_loop w blk n [] (render a)) = eval_items w blk V F a"
    using no_strstr [OF ok(1), of w blk V] IH by simp
  ultimately show ?thesis by (simp add: args_step_def)
qed

text \<open>The expander evaluates a template, whatever follows it.\<close>

lemma eval_ok:
  assumes h: "fmt_holds blk A m V F"
  shows "ok_item F i \<Longrightarrow> fmt_text (render_item i @ r) \<Longrightarrow> length (render_item i) < 2 ^ 32 \<Longrightarrow> 3 * length (render_item i @ r) < n \<Longrightarrow>
      \<exists>k. 3 * length r < k \<and> aprintf_loop w blk n out (render_item i @ r) = fbind (eval_item w blk V F i) (\<lambda>t. aprintf_loop w blk k (out @ t) r)"
    and "ok_items F is \<Longrightarrow> fmt_text (render is @ r) \<Longrightarrow> length (render is) < 2 ^ 32 \<Longrightarrow> 3 * length (render is @ r) < n \<Longrightarrow>
      \<exists>k. 3 * length r < k \<and> aprintf_loop w blk n out (render is @ r) = fbind (eval_items w blk V F is) (\<lambda>t. aprintf_loop w blk k (out @ t) r)"
    and "ok_args F dl d as \<Longrightarrow> as \<noteq> [] \<Longrightarrow> plain d \<Longrightarrow> (length as > 1 \<longrightarrow> d \<in> set dl) \<Longrightarrow> CHR '')'' \<in> set dl \<Longrightarrow>
      set dl \<subseteq> {CHR '')'', CHR '','', CHR '' ''} \<Longrightarrow> fmt_text (render_args d as @ CHR '')'' # r) \<Longrightarrow>
      length (render_args d as) < 2 ^ 32 \<Longrightarrow> 3 * length (render_args d as @ CHR '')'' # r) < n \<Longrightarrow>
      xcall_args w blk n dl (render_args d as @ CHR '')'' # r) acc = fbind (eval_args w blk V F as) (\<lambda>ts. Inr (acc @ ts, r))"
proof (induction i and "is" and d as arbitrary: r n out and r n out and dl r n acc rule: render_item_render_render_args.induct)
  case (1 t)
  then have "CHR ''%'' \<notin> set t" by (auto simp: plain_def list_all_iff)
  then show ?case using 1(4) by (intro exI [of _ n]) (simp add: loop_lit [of t])
next
  case (2 c)
  then obtain k where "n = Suc k" by (cases n) auto
  moreover have "c \<noteq> CHR ''(''" using 2(1) by (auto simp: plain_def)
  ultimately show ?case using 2(4) by (intro exI [of _ k]) (simp add: loop_pct del: aprintf_loop.simps)
next
  case (3 "is")
  then obtain k where k: "n = Suc (Suc k)" by (cases n; cases "n - 1") auto
  have t: "fmt_text (render is @ CHR '')'' # r)" "length (render is) < 2 ^ 32" "fmt_text (render is)"
    using 3(3,4) by (auto simp: fmt_text_def)
  obtain j where j: "0 < j" "aprintf_loop w blk k [] (render is) = fbind (eval_items w blk V F is) (\<lambda>t. aprintf_loop w blk j t [])"
    using 3(1) [of "[]" k "[]"] 3(2-) t k by auto
  then have IH: "aprintf_loop w blk k [] (render is) = eval_items w blk V F is" by (simp add: loop_nil fbind_Inr_right)
  have "aprintf_loop w blk n out (render_item (Ref is) @ r) =
      fbind (HXformat2_xany w blk (Suc k) (render is @ CHR '')'' # r)) (\<lambda>(ex, rest). aprintf_loop w blk (Suc k) (out @ expn_text ex) rest)"
    by (simp add: k loop_ref del: aprintf_loop.simps)
  also have "\<dots> = fbind (eval_item w blk V F (Ref is)) (\<lambda>t. aprintf_loop w blk (Suc k) (out @ t) r)"
    by (rule any_ref [OF 3(2) t(1,2) IH h])
  finally show ?case using 3(5) k by (intro exI [of _ "Suc k"]) simp
next
  case (4 f d args)
  then obtain k where k: "n = Suc (Suc (Suc k))" by (cases n; cases "n - 1"; cases "n - 2") auto
  have t: "fmt_text (f @ '' '' @ render_args d args @ CHR '')'' # r)" "length f < 2 ^ 32"
    "fmt_text (render_args d args @ CHR '')'' # r)" "length (render_args d args) < 2 ^ 32"
    using 4(3,4) by (auto simp: fmt_text_def)
  have IH: "xcall_args w blk k (delims F f) (render_args d args @ CHR '')'' # r) [] = fbind (eval_args w blk V F args) (\<lambda>ts. Inr (ts, r))"
    if "args \<noteq> []"
    using 4(1) [of "delims F f" r k "[]"] 4(2,5) k t that delims_ok [OF h, of f] by auto
  have "aprintf_loop w blk n out (render_item (Call f d args) @ r) =
      fbind (HXformat2_xany w blk (Suc (Suc k)) (f @ '' '' @ render_args d args @ CHR '')'' # r))
        (\<lambda>(ex, rest). aprintf_loop w blk (Suc (Suc k)) (out @ expn_text ex) rest)"
    by (simp add: k loop_ref del: aprintf_loop.simps)
  also have "\<dots> = fbind (eval_item w blk V F (Call f d args)) (\<lambda>t. aprintf_loop w blk (Suc (Suc k)) (out @ t) r)"
    by (rule any_call [OF 4(2) t(1,2) IH h])
  finally show ?case using 4(5) k by (intro exI [of _ "Suc (Suc k)"]) simp
next
  case 5
  then show ?case by (intro exI [of _ n]) simp
next
  case (6 i "is")
  then obtain k where k: "3 * length (render is @ r) < k"
    "aprintf_loop w blk n out (render_item i @ render is @ r) = fbind (eval_item w blk V F i) (\<lambda>t. aprintf_loop w blk k (out @ t) (render is @ r))"
    using 6(1) [of "render is @ r" n out] by auto
  have "fmt_text (render is @ r)" using 6(4) by (auto simp: fmt_text_def)
  then have IH: "\<exists>j. 3 * length r < j \<and> aprintf_loop w blk k o1 (render is @ r) =
      fbind (eval_items w blk V F is) (\<lambda>t. aprintf_loop w blk j (o1 @ t) r)" for o1
    using 6(2) [of r k o1] 6(3,5) k(1) by auto
  show ?case
  proof (cases "eval_item w blk V F i")
    case (Inl e)
    then show ?thesis using k(2) by (intro exI [of _ "Suc (3 * length r)"]) simp
  next
    case (Inr t)
    obtain j where j: "3 * length r < j" "aprintf_loop w blk k (out @ t) (render is @ r) =
        fbind (eval_items w blk V F is) (\<lambda>u. aprintf_loop w blk j ((out @ t) @ u) r)"
      using IH [of "out @ t"] by blast
    then show ?thesis using k(2) Inr by (intro exI [of _ j]) simp
  qed
next
  case 7
  then show ?case by simp
next
  case (8 d a as)
  then obtain k where k: "n = Suc k" by (cases n) auto
  let ?c = "if as = [] then CHR '')'' else d" and ?r = "if as = [] then r else render_args d as @ CHR '')'' # r"
  have s: "render_args d (a # as) @ CHR '')'' # r = render a @ ?c # ?r" by simp
  have o: "ok_items F a" "list_all (top_item (\<lambda>c. c \<notin> set dl)) a" "\<not> isspace (at0 (render a))"
    "isspace d \<longrightarrow> render a \<noteq> []" "ok_args F dl d as" using 8(3) by auto
  have c: "?c \<in> set dl" "render a = [] \<longrightarrow> \<not> isspace ?c" using 8(6,7) o(4) by (auto simp: isspace_cases)
  have t: "fmt_text (render a @ ?c # ?r)" "length (render a) < 2 ^ 32" "fmt_text (render a)"
    using 8(9,10) unfolding s by (auto simp: fmt_text_def)
  obtain j where j: "0 < j" "aprintf_loop w blk k [] (render a) = fbind (eval_items w blk V F a) (\<lambda>t. aprintf_loop w blk j t [])"
    using 8(1) [of "[]" k "[]"] o(1) t 8(11) k by auto
  then have IH: "aprintf_loop w blk k [] (render a) = eval_items w blk V F a" by (simp add: loop_nil fbind_Inr_right)
  note a = args_item [OF o(1-3) 8(8) c t(1,2) IH, of acc]
  show ?case
  proof (cases "as = []")
    case True
    then show ?thesis using a k s by simp
  next
    case False
    have p: "d \<noteq> CHR '')''" using 8(5) by (auto simp: plain_def)
    have "xcall_args w blk k dl (render_args d as @ CHR '')'' # r) acc1 = fbind (eval_args w blk V F as) (\<lambda>ts. Inr (acc1 @ ts, r))" for acc1
      using 8(2) [OF False o(5) False 8(5)] 8(6-11) False k by (auto simp: fmt_text_def)
    then show ?thesis using a k s False p by simp
  qed
qed

section \<open>Tables\<close>

definition fd_entry :: "HXformat2_fd \<Rightarrow> func_entry" where
  "fd_entry d = \<lparr>fn_proc = fd_proc d, fn_delim = '')'' @
     (if fd_flags d AND HXFMT_ARGSEP_COMMA \<noteq> 0 then '','' else []) @
     (if fd_flags d AND HXFMT_ARGSEP_SPACE \<noteq> 0 then '' '' else [])\<rparr>"

definition std_funcs :: "char list \<Rightarrow> func_entry option" where
  "std_funcs = map_of (map (\<lambda>d. (fd_name d, fd_entry d)) HXformat2_fmap)"

lemma clone_desc: "func_entry_clone (Some (F_desc d)) = Some (F_entry (fd_entry d))"
  by (simp add: func_entry_clone_def fd_entry_def)

lemma add_funcs_holds:
  assumes a: "\<forall>i. alloc i = (True, Some (adr i))" "inj adr"
    and m: "str_holds func_entry_clone m (adr ` {..<i}) i f" and l: "i + length ds < 2 ^ 64"
  shows "\<exists>m'. add_funcs alloc i ds m = Some (Inr m') \<and>
    str_holds func_entry_clone m' (adr ` {..<i + length ds}) (i + length ds)
      (\<lambda>k. case map_of (rev (map (\<lambda>d. (fd_name d, fd_entry d)) ds)) k of None \<Rightarrow> f k | Some e \<Rightarrow> Some (Some (F_entry e)))"
  using m l
proof (induction ds arbitrary: m i f)
  case (Cons d ds)
  have n1: "adr i \<notin> adr ` {..<i}" using a(2) by (auto dest: injD)
  have n2: "func_entry_clone (Some (F_desc d)) \<noteq> None \<or> Some (F_desc d) = None" by (simp add: clone_desc)
  define g where "g = f(fd_name d := Some (Some (F_entry (fd_entry d))))"
  have e: "(\<lambda>k. case map_of (rev (map (\<lambda>d. (fd_name d, fd_entry d)) ds)) k of None \<Rightarrow> g k | Some e \<Rightarrow> Some (Some (F_entry e))) =
      (\<lambda>k. case map_of (rev (map (\<lambda>d. (fd_name d, fd_entry d)) (d # ds))) k of None \<Rightarrow> f k | Some e \<Rightarrow> Some (Some (F_entry e)))"
    by (auto simp: g_def map_add_def fun_eq_iff split: option.splits)
  obtain m1 ev where m1: "HXmap_add m (Some (fd_name d)) (Some (F_desc d)) True (Some (adr i)) = Some (Inr (), m1, ev)"
    "str_holds func_entry_clone m1 (insert (adr i) (adr ` {..<i})) (Suc i) g"
    using str_holds_add [OF Cons.prems(1) n1 _ n2, of "fd_name d"] Cons.prems(2) unfolding g_def clone_desc by auto
  have "insert (adr i) (adr ` {..<i}) = adr ` {..<Suc i}" by (simp add: lessThan_Suc)
  then have "str_holds func_entry_clone m1 (adr ` {..<Suc i}) (Suc i) g" using m1(2) by simp
  from Cons.IH [OF this] Cons.prems(2) show ?case using m1(1) a(1) unfolding e by simp
qed simp

lemma fmap_names: "map fd_name HXformat2_fmap = [''echo'', ''env'', ''exec'', ''if'', ''lower'', ''shell'', ''snl'', ''substr'', ''upper'']"
  by (simp add: HXformat2_fmap_def)

lemma std_funcs_rev: "map_of (rev (map (\<lambda>d. (fd_name d, fd_entry d)) HXformat2_fmap)) = std_funcs"
  unfolding std_funcs_def by (rule map_of_inject_set [THEN iffD2]) (simp_all add: rev_map comp_def fmap_names flip: rev_map)

lemma std_funcs_delims:
  assumes "std_funcs f = Some e"
  shows "CHR '')'' \<in> set (fn_delim e)" "set (fn_delim e) \<subseteq> {CHR '')'', CHR '','', CHR '' ''}"
proof -
  obtain d where "e = fd_entry d" using assms map_of_SomeD by (fastforce simp: std_funcs_def)
  then show "CHR '')'' \<in> set (fn_delim e)" "set (fn_delim e) \<subseteq> {CHR '')'', CHR '','', CHR '' ''}"
    by (auto simp: fd_entry_def)
qed

lemma init_holds:
  assumes a: "\<forall>i. alloc i = (True, Some (adr i))" "inj adr"
  shows "\<exists>blk. HXformat_init (str_keys std1) (str_keys std2) True (True, True) (True, True) alloc = Some (Some blk) \<and>
    fmt_holds blk {} 0 (\<lambda>_. None) std_funcs"
proof -
  have fl: "has_flag HXMAP_SCKEY HXMAP_SKEY" "has_flag HXMAP_SCKEY HXMAP_CKEY" "\<not> has_flag HXMAP_SCKEY HXMAP_CDATA"
    "\<not> has_flag HXMAP_SCKEY HXMAP_NOREPLACE" "\<not> has_flag HXMAP_SCKEY HXMAP_SINGULAR"
    by (simp_all add: has_flag_def map_flags)
  have o1: "str_ops (HXmap_ops_setup (str_keys std1) True HXMAP_SCKEY 0 (Some fmt_entry_ops))"
    by (rule str_keys_ops) (simp_all add: fl fmt_entry_ops_def)
  have o2: "str_ops (HXmap_ops_setup (str_keys std2) True HXMAP_SCKEY 0 (Some func_entry_ops))"
    by (rule str_keys_ops) (simp_all add: fl func_entry_ops_def)
  have d: "d_clone (HXmap_ops_setup (str_keys std1) True HXMAP_SCKEY 0 (Some fmt_entry_ops)) = HXmap_valuecpy"
    "d_clone (HXmap_ops_setup (str_keys std2) True HXMAP_SCKEY 0 (Some func_entry_ops)) = func_entry_clone"
    using fl(3) by (simp_all add: HXmap_ops_setup_def fmt_entry_ops_def func_entry_ops_def or_user_def Let_def)
  obtain v where v: "HXmap_init5 (str_keys std1) True True HXMAPT_HASH HXMAP_SCKEY (Some fmt_entry_ops) 0 = Some (Inr v)"
    "str_holds HXmap_valuecpy v {} 0 (\<lambda>_. None)"
    using str_holds_init [OF o1 fl(4,5)] unfolding d by blast
  obtain f where f: "HXmap_init5 (str_keys std2) True True HXMAPT_HASH HXMAP_SCKEY (Some func_entry_ops) 0 = Some (Inr f)"
    "str_holds func_entry_clone f {} 0 (\<lambda>_. None)"
    using str_holds_init [OF o2 fl(4,5)] unfolding d by blast
  have e: "(\<lambda>k. case std_funcs k of None \<Rightarrow> None | Some e \<Rightarrow> Some (Some (F_entry e))) =
      (\<lambda>k. map_option (\<lambda>e. Some (F_entry e)) (std_funcs k))"
    by (auto simp: fun_eq_iff split: option.split)
  obtain g where g: "add_funcs alloc 0 HXformat2_fmap f = Some (Inr g)"
    "str_holds func_entry_clone g (adr ` {..<0 + length HXformat2_fmap}) (0 + length HXformat2_fmap)
      (\<lambda>k. map_option (\<lambda>e. Some (F_entry e)) (std_funcs k))"
    using add_funcs_holds [OF a, of f 0 "\<lambda>_. None" HXformat2_fmap] f(2) unfolding std_funcs_rev e
    by (auto simp: HXformat2_fmap_def)
  have "fmt_holds \<lparr>vars = v, funcs = g\<rparr> {} 0 (\<lambda>_. None) std_funcs"
    using v(2) g(2) std_funcs_delims by (auto simp: fmt_holds_def)
  then show ?thesis using v(1) f(1) g(1) by (simp add: HXformat_init_def)
qed

text \<open>What a new entry keeps of the pointer: a copy of an immediate string, else the pointer.\<close>

definition fmt_copy :: "'f world \<Rightarrow> HXtype \<Rightarrow> bool \<Rightarrow> fmt_ptr \<Rightarrow> fmt_ptr option" where
  "fmt_copy w t immed p =
     (if immed \<and> t = HXTYPE_STRING then (case chars_at w p of Inr (Some s) \<Rightarrow> Some (P_own s) | _ \<Rightarrow> None)
      else if immed \<and> t = HXTYPE_MCSTR then (case xvar_deferred w HXTYPE_MCSTR p of Inr (Text s) \<Rightarrow> Some (P_own s) | _ \<Rightarrow> None)
      else Some p)"

lemma add_holds:
  assumes h: "fmt_holds blk A n V F" and a: "a \<notin> A" "n < 2 ^ 64 - 1"
    and k: "set key \<inter> set fmt_key_bad = {}" "key \<noteq> []" and c: "fmt_copy w t immed p = Some q"
  shows "\<exists>blk'. HXformat_add w True True (True, Some a) blk key p t immed = Some (Inr (), blk') \<and>
    fmt_holds blk' (insert a A) (Suc n) (V(key \<mapsto> \<lparr>fe_ptr = q, fe_type = t, fe_immed = immed\<rparr>)) F"
proof -
  let ?e = "\<lparr>fe_ptr = q, fe_type = t, fe_immed = immed\<rparr>"
  have v: "str_holds HXmap_valuecpy (vars blk) A n (\<lambda>k. map_option Some (V k))" using h by (simp add: fmt_holds_def)
  obtain m ev where m: "HXmap_add (vars blk) (Some key) (Some ?e) True (Some a) = Some (Inr (), m, ev)"
    "str_holds HXmap_valuecpy m (insert a A) (Suc n) ((\<lambda>k. map_option Some (V k))(key := Some (HXmap_valuecpy (Some ?e))))"
    using str_holds_add [OF v a, of "Some ?e" key] by (auto simp: HXmap_valuecpy_def)
  have "(\<lambda>k. map_option Some (V k))(key := Some (HXmap_valuecpy (Some ?e))) = (\<lambda>k. map_option Some ((V(key \<mapsto> ?e)) k))"
    by (auto simp: HXmap_valuecpy_def)
  then have "fmt_holds (blk\<lparr>vars := m\<rparr>) (insert a A) (Suc n) (V(key \<mapsto> ?e)) F"
    using m(2) h by (simp add: fmt_holds_def)
  moreover have "HXformat_add w True True (True, Some a) blk key p t immed = Some (Inr (), blk\<lparr>vars := m\<rparr>)"
    using m(1) k c strpbrk_None [of key fmt_key_bad]
    by (auto simp: HXformat_add_def fmt_copy_def split: sum.splits option.splits expn.splits if_splits)
  ultimately show ?thesis by blast
qed

section \<open>Properties\<close>

lemma render_text:
  assumes "ok_items F is" "length (render is) < 2 ^ 32"
  shows "fmt_text (render is)"
  using render_chars(2) [OF assms(1)] assms(2) by (auto simp: fmt_text_def)

lemma aprintf_eval:
  assumes "fmt_holds blk A m V F" "ok_items F is" "length (render is) < 2 ^ 32" "3 * length (render is) < n"
  shows "HXformat_aprintf w blk n (render is) = eval_items w blk V F is"
proof -
  obtain k where k: "0 < k" "aprintf_loop w blk n [] (render is) = fbind (eval_items w blk V F is) (\<lambda>t. aprintf_loop w blk k t [])"
    using eval_ok(2) [OF assms(1,2), of "[]" n w "[]"] render_text [OF assms(2,3)] assms(3,4) by auto
  then show ?thesis by (simp add: HXformat_aprintf_def loop_nil fbind_Inr_right)
qed

text \<open>C6: On every well-formed template, however deeply its references and calls are nested, \<open>HXformat_aprintf\<close>
  computes the value of the template from the inside out: a reference stands for the variable whose name is the value of
  the template in the parentheses, a call for the function applied to the values of its arguments, an unknown variable or
  function for nothing, and the first failure, from the left, is the result.\<close>

theorem HXformat_aprintf_evaluates:
  assumes "fmt_holds blk A m V F" "ok_items F is" "length (render is) < 2 ^ 32" "3 * length (render is) < n"
  shows "HXformat_aprintf w blk n (render is) = eval_items w blk V F is"
  by (rule aprintf_eval [OF assms])

definition no_world :: "nat world" where
  "no_world = \<lparr>w_objs = \<lambda>_. None, w_getenv = \<lambda>_. None, w_run = \<lambda>_. None, w_show = \<lambda>_. []\<rparr>"

definition fmt_std :: "(char list, 'd) std_fns" where
  "fmt_std = \<lparr>f_strcmp = \<lambda>_ _. 0, f_memcmp = \<lambda>_ _. 0, f_valuecmp = \<lambda>_ _. 0, f_kstrdup = \<lambda>k. k, f_kmemdup = \<lambda>k. k,
     f_dstrdup = \<lambda>d. d, f_dmemdup = \<lambda>d. d, f_djb2 = \<lambda>_. 0, f_jlookup3 = \<lambda>_. 0, f_jlookup3v = \<lambda>_. 0\<rparr>"

definition some_template :: "item list" where
  "some_template = [Lit ''a'', Call ''upper'' CHR '','' [[Lit ''x'', Call ''if'' CHR '','' [[Ref [Lit ''n'']], [Lit ''y''], [Lit ''z'']]]]]"

theorem HXformat_aprintf_evaluates_witness:
  "\<exists>blk. HXformat_init (str_keys fmt_std) (str_keys fmt_std) True (True, True) (True, True) (\<lambda>i. (True, Some i)) = Some (Some blk) \<and>
    render some_template = ''a%(upper x%(if %(n),y,z))'' \<and>
    HXformat_aprintf no_world blk 100 (render some_template) = Inr ''aXZ''"
proof -
  obtain blk where b: "HXformat_init (str_keys fmt_std) (str_keys fmt_std) True (True, True) (True, True) (\<lambda>i. (True, Some i)) = Some (Some blk)"
    "fmt_holds blk {} 0 (\<lambda>_. None) std_funcs"
    using init_holds [of "\<lambda>i. (True, Some i)" "\<lambda>i. i"] by auto
  have d: "delims std_funcs ''upper'' = '')''" "delims std_funcs ''if'' = ''),''"
    by (simp_all add: delims_def std_funcs_def HXformat2_fmap_def fd_entry_def HXFMT_ARGSEP_NONE_def HXFMT_ARGSEP_COMMA_def
      HXFMT_ARGSEP_SPACE_def)
  have r: "render some_template = ''a%(upper x%(if %(n),y,z))''" by (simp add: some_template_def)
  have ok: "ok_items std_funcs some_template"
    by (simp add: some_template_def d plain_def isspace_cases)
  have "eval_items no_world blk (\<lambda>_. None) std_funcs some_template = Inr ''aXZ''"
    by (simp add: some_template_def std_funcs_def HXformat2_fmap_def fd_entry_def call_proc_def fmt_upper_def fmt_if_def
      expn_text_def var_text_def cstr_def toupper_def islower_def char_of_eq_iff)
  then have "HXformat_aprintf no_world blk 100 (render some_template) = Inr ''aXZ''"
    using HXformat_aprintf_evaluates [OF b(2) ok, of 100 no_world] by (simp add: r)
  then show ?thesis using b(1) r by blast
qed



lemma dq_fmt_end:
  assumes u: "\<forall>c \<in> set u. plain c \<and> c \<notin> set stops" and t: "fmt_text u"
  shows "dq_fmt u stops = Inr (u, [])"
proof -
  have "dq_scan (length u + 1) (Some stops) (u @ []) 0 NUL = dq_scan 1 (Some stops) [] 0 NUL"
    by (rule scan_plain) (use u in \<open>auto simp: plain_def stops_at_set\<close>)
  then have s: "dq_scan (Suc (length u)) (Some stops) u 0 NUL = Some []" by (simp add: numeral_eq_Suc)
  have "\<forall>c \<in> set u. c \<notin> {DQ, SQ, BS}" using u by (auto simp: plain_def)
  from dequote_clean [OF this] dq_fmt_scan [of u stops] s t show ?thesis by (auto simp: fmt_text_def)
qed

text \<open>C21: How expansion ends badly behind a well-formed template that has a value: an unterminated reference is an error,
  but a percent sign at the very end, and an unterminated reference that starts with white space, make the loop go on
  behind the end of the template.\<close>

theorem HXformat_aprintf_errors:
  assumes h: "fmt_holds blk A m V F" and ok: "ok_items F is" "eval_items w blk V F is = Inr t"
    and u: "u \<noteq> []" "list_all (\<lambda>c. plain c \<and> \<not> isspace c) u" and n: "3 * (length (render is) + length u + 5) < n"
    and l: "length (render is) + length u + 5 < 2 ^ 32"
  shows "HXformat_aprintf w blk n (render is @ ''%('' @ u) = Inl Failed \<and>
    HXformat_aprintf w blk n (render is @ ''%'') = Inl Undefined \<and>
    HXformat_aprintf w blk n (render is @ ''%( '' @ u) = Inl Undefined"
proof -
  obtain x xs where x: "u = x # xs" using u(1) by (cases u) auto
  have p: "\<forall>c \<in> set u. plain c" "\<forall>c \<in> set u. \<not> isspace c" using u(2) by (auto simp: list_all_iff)
  have ut: "fmt_text u" using p l by (auto simp: fmt_text_def plain_def)
  have q: "dq_fmt u name_stops = Inr (u, [])" "dq_fmt u '')'' = Inr (u, [])"
    by (rule dq_fmt_end [OF _ ut]; use p in \<open>auto simp: plain_def name_stops_def isspace_cases\<close>)+
  have tail: "\<exists>k. 3 * length r < k \<and> HXformat_aprintf w blk n (render is @ r) = aprintf_loop w blk k t r"
    if "NUL \<notin> set r" "length r \<le> length u + 3" for r
    using eval_ok(2) [OF h ok(1), of r n w "[]"] render_text [OF ok(1)] that n l ok(2) by (auto simp: fmt_text_def HXformat_aprintf_def)
  have un: "NUL \<notin> set u" using ut by (simp add: fmt_text_def)
  have s: "at0 u = x" "\<not> isspace x" "x \<noteq> CHR '')''" using p by (auto simp: x plain_def)
  have d: "dropWhile isspace (CHR '' '' # u) = u" "isspace (CHR '' '')" using s by (simp_all add: x isspace_cases)
  obtain k where k: "3 * length (''%('' @ u) < k" "HXformat_aprintf w blk n (render is @ ''%('' @ u) = aprintf_loop w blk k t (''%('' @ u)"
    using tail [of "''%('' @ u"] un by auto
  then obtain j where "k = Suc (Suc j)" by (cases k; cases "k - 1") auto
  then have 1: "HXformat_aprintf w blk n (render is @ ''%('' @ u) = Inl Failed"
    using k s q by (simp add: loop_ref xany_step_def del: aprintf_loop.simps)
  obtain k where k: "3 * length ''%'' < k" "HXformat_aprintf w blk n (render is @ ''%'') = aprintf_loop w blk k t ''%''"
    using tail [of "''%''"] by auto
  then have 2: "HXformat_aprintf w blk n (render is @ ''%'') = Inl Undefined"
    by (cases k) (simp_all add: aprintf_step_def)
  obtain k where k: "3 * length (''%( '' @ u) < k" "HXformat_aprintf w blk n (render is @ ''%( '' @ u) = aprintf_loop w blk k t (''%( '' @ u)"
    using tail [of "''%( '' @ u"] un by auto
  then obtain j where "k = Suc (Suc j)" by (cases k; cases "k - 1") auto
  then have 3: "HXformat_aprintf w blk n (render is @ ''%( '' @ u) = Inl Undefined"
    using k d q by (simp add: loop_ref xany_step_def del: aprintf_loop.simps)
  show ?thesis using 1 2 3 by blast
qed

theorem HXformat_aprintf_errors_witness:
  "\<exists>blk. HXformat_init (str_keys fmt_std) (str_keys fmt_std) True (True, True) (True, True) (\<lambda>i. (True, Some i)) = Some (Some blk) \<and>
    HXformat_aprintf no_world blk 100 ''a%(USER'' = Inl Failed \<and> HXformat_aprintf no_world blk 100 ''a%'' = Inl Undefined \<and>
    HXformat_aprintf no_world blk 100 ''a%( USER'' = Inl Undefined"
proof -
  obtain blk where b: "HXformat_init (str_keys fmt_std) (str_keys fmt_std) True (True, True) (True, True) (\<lambda>i. (True, Some i)) = Some (Some blk)"
    "fmt_holds blk {} 0 (\<lambda>_. None) std_funcs"
    using init_holds [of "\<lambda>i. (True, Some i)" "\<lambda>i. i"] by auto
  then show ?thesis
    using HXformat_aprintf_errors [OF b(2), of "[Lit ''a'']" no_world "''a''" "''USER''" 100] by (auto simp: plain_def isspace_cases)
qed



text \<open>C22: \<open>HXformat_sprintf\<close> never writes behind the size it is given, and leaves what follows. A value that fits with
  its terminator is stored whole and its length returned; of one that does not, the first bytes are stored without a
  terminator, and the length is then read from whatever follows the buffer.\<close>

theorem HXformat_sprintf_bounds:
  assumes v: "HXformat_aprintf w blk n fmt = Inr t" "t \<noteq> []" and s: "0 < sz" "sz \<le> length dest"
  shows "if length (cstr t) < sz
    then HXformat_sprintf w blk n err dest sz fmt =
      Inr (int (length (cstr t)), cstr t @ replicate (sz - length (cstr t)) NUL @ drop sz dest)
    else HXformat_sprintf w blk n err dest sz fmt =
      (case strlen_block (drop sz dest) of None \<Rightarrow> Inl Undefined
       | Some k \<Rightarrow> Inr (int (sz + k), take sz (cstr t) @ drop sz dest))"
proof -
  have c: "NUL \<notin> set (cstr t)" by (rule NUL_notin_cstr)
  let ?x = "take sz (cstr t) @ replicate (sz - length (cstr t)) NUL"
  have w: "strncpy dest (cstr t) sz = Some (?x @ drop sz dest)"
    using s by (simp add: strncpy_def wrn_def min_def)
  show ?thesis
  proof (cases "length (cstr t) < sz")
    case True
    then have x: "?x @ drop sz dest = cstr t @ NUL # (replicate (sz - length (cstr t) - 1) NUL @ drop sz dest)"
      by (cases "sz - length (cstr t)") simp_all
    have "strlen_block (?x @ drop sz dest) = Some (length (cstr t))"
      unfolding x by (rule strlen_block_append [OF c])
    then show ?thesis using True v w by (simp add: HXformat_sprintf_def)
  next
    case False
    have "\<forall>c \<in> set (take sz (cstr t)). c \<noteq> NUL" using c by (auto dest: in_set_takeD)
    then have "takeWhile (\<lambda>c. c \<noteq> NUL) (take sz (cstr t) @ drop sz dest) = take sz (cstr t) @ takeWhile (\<lambda>c. c \<noteq> NUL) (drop sz dest)"
      by (simp add: takeWhile_append2)
    then have "strlen_block (take sz (cstr t) @ drop sz dest) = map_option (\<lambda>k. sz + k) (strlen_block (drop sz dest))"
      using False by (simp add: strlen_block_def Let_def min_def)
    then show ?thesis using False v w by (cases "strlen_block (drop sz dest)") (simp_all add: HXformat_sprintf_def)
  qed
qed

theorem HXformat_sprintf_bounds_witness:
  "\<exists>blk. HXformat_init (str_keys fmt_std) (str_keys fmt_std) True (True, True) (True, True) (\<lambda>i. (True, Some i)) = Some (Some blk) \<and>
    HXformat_sprintf no_world blk 100 0 ''......'' 4 ''ab'' = Inr (2, ''ab'' @ [NUL, NUL] @ ''..'') \<and>
    HXformat_sprintf no_world blk 100 0 ''......'' 4 ''abcdef'' = Inl Undefined"
proof -
  obtain blk where b: "HXformat_init (str_keys fmt_std) (str_keys fmt_std) True (True, True) (True, True) (\<lambda>i. (True, Some i)) = Some (Some blk)"
    "fmt_holds blk {} 0 (\<lambda>_. None) std_funcs"
    using init_holds [of "\<lambda>i. (True, Some i)" "\<lambda>i. i"] by auto
  have e: "HXformat_aprintf no_world blk 100 ''ab'' = Inr ''ab''" "HXformat_aprintf no_world blk 100 ''abcdef'' = Inr ''abcdef''"
    using aprintf_eval [OF b(2), of "[Lit ''ab'']" 100 no_world] aprintf_eval [OF b(2), of "[Lit ''abcdef'']" 100 no_world]
    by (simp_all add: plain_def)
  then show ?thesis
    using b(1) HXformat_sprintf_bounds [OF e(1), of 4 "''......''" 0] HXformat_sprintf_bounds [OF e(2), of 4 "''......''" 0]
    by (auto simp: cstr_def strlen_block_def numeral_eq_Suc)
qed

text \<open>What \<open>snl\<close> returns for a text that ends in a newline ends in a \<open>NUL\<close> that counts, so that whatever is
  expanded behind it is not seen by those who read the result as a C string.\<close>

theorem fmt_snl_NUL:
  "\<exists>t. fmt_snl [a @ [CHR 0x0A]] = Text (t @ [NUL]) \<and> length t = length a"
proof -
  let ?a = "a @ [CHR 0x0A]"
  have "chomp_end ?a (length ?a) = chomp_end ?a (length a)" by (simp add: nth_append)
  then have l: "length (HX_chomp ?a) \<le> length a"
    using chomp_end_spec [of "length a" ?a] by (simp add: HX_chomp_def)
  define m where "m = map (\<lambda>c. if c = CHR 0x0A then CHR '' '' else c) (HX_chomp ?a)"
  have "length ?a - length (HX_chomp ?a) = Suc (length a - length (HX_chomp ?a))" using l by simp
  then have "fmt_snl [?a] = Text (m @ replicate (Suc (length a - length (HX_chomp ?a))) NUL)"
    by (simp add: fmt_snl_def m_def del: replicate_Suc)
  also have "m @ replicate (Suc (length a - length (HX_chomp ?a))) NUL = (m @ replicate (length a - length (HX_chomp ?a)) NUL) @ [NUL]"
    by (simp add: replicate_append_same)
  finally show ?thesis using l by (intro exI [of _ "m @ replicate (length a - length (HX_chomp ?a)) NUL"]) (simp add: m_def)
qed

end
