(* ===== verification/HX_Endian.thy ===== *)
theory HX_Endian
  imports HX_Prelude
begin

text \<open>
  Byte order conversion, \<^verbatim>\<open>libHX/endian.h\<close>. A pointer is the block of bytes it points to; reading or writing
  outside of it is \<open>None\<close>. The functions on values go through the bytes of the value in the memory of
  the machine, so that they have the byte order of the machine as an argument: \<open>le\<close> holds on a little-endian one.
\<close>

unbundle bit_operations_syntax

section \<open>Through pointers\<close>

definition be16p_to_cpu :: "u8 list \<Rightarrow> u16 option" where
  "be16p_to_cpu q = do {
     q0 \<leftarrow> rd q 0;
     q1 \<leftarrow> rd q 1;
     Some (ucast q1 OR push_bit 8 (ucast q0))
   }"

definition le16p_to_cpu :: "u8 list \<Rightarrow> u16 option" where
  "le16p_to_cpu q = do {
     q0 \<leftarrow> rd q 0;
     q1 \<leftarrow> rd q 1;
     Some (ucast q0 OR push_bit 8 (ucast q1))
   }"

definition be32p_to_cpu :: "u8 list \<Rightarrow> u32 option" where
  "be32p_to_cpu q = do {
     q0 \<leftarrow> rd q 0;
     q1 \<leftarrow> rd q 1;
     q2 \<leftarrow> rd q 2;
     q3 \<leftarrow> rd q 3;
     Some (ucast q3 OR push_bit 8 (ucast q2) OR push_bit 16 (ucast q1) OR push_bit 24 (ucast q0))
   }"

definition le32p_to_cpu :: "u8 list \<Rightarrow> u32 option" where
  "le32p_to_cpu q = do {
     q0 \<leftarrow> rd q 0;
     q1 \<leftarrow> rd q 1;
     q2 \<leftarrow> rd q 2;
     q3 \<leftarrow> rd q 3;
     Some (ucast q0 OR push_bit 8 (ucast q1) OR push_bit 16 (ucast q2) OR push_bit 24 (ucast q3))
   }"

definition be64p_to_cpu :: "u8 list \<Rightarrow> u64 option" where
  "be64p_to_cpu q = do {
     q0 \<leftarrow> rd q 0;
     q1 \<leftarrow> rd q 1;
     q2 \<leftarrow> rd q 2;
     q3 \<leftarrow> rd q 3;
     q4 \<leftarrow> rd q 4;
     q5 \<leftarrow> rd q 5;
     q6 \<leftarrow> rd q 6;
     q7 \<leftarrow> rd q 7;
     Some (ucast q7 OR push_bit 8 (ucast q6) OR push_bit 16 (ucast q5) OR push_bit 24 (ucast q4) OR push_bit 32 (ucast q3) OR push_bit 40 (ucast q2) OR push_bit 48 (ucast q1) OR push_bit 56 (ucast q0))
   }"

definition le64p_to_cpu :: "u8 list \<Rightarrow> u64 option" where
  "le64p_to_cpu q = do {
     q0 \<leftarrow> rd q 0;
     q1 \<leftarrow> rd q 1;
     q2 \<leftarrow> rd q 2;
     q3 \<leftarrow> rd q 3;
     q4 \<leftarrow> rd q 4;
     q5 \<leftarrow> rd q 5;
     q6 \<leftarrow> rd q 6;
     q7 \<leftarrow> rd q 7;
     Some (ucast q0 OR push_bit 8 (ucast q1) OR push_bit 16 (ucast q2) OR push_bit 24 (ucast q3) OR push_bit 32 (ucast q4) OR push_bit 40 (ucast q5) OR push_bit 48 (ucast q6) OR push_bit 56 (ucast q7))
   }"

definition cpu_to_be16p :: "u8 list \<Rightarrow> u16 \<Rightarrow> u8 list option" where
  "cpu_to_be16p q v = do {
     q \<leftarrow> wr q 1 (ucast v);
     wr q 0 (ucast (drop_bit 8 v))
   }"

definition cpu_to_le16p :: "u8 list \<Rightarrow> u16 \<Rightarrow> u8 list option" where
  "cpu_to_le16p q v = do {
     q \<leftarrow> wr q 0 (ucast v);
     wr q 1 (ucast (drop_bit 8 v))
   }"

definition cpu_to_be32p :: "u8 list \<Rightarrow> u32 \<Rightarrow> u8 list option" where
  "cpu_to_be32p q v = do {
     q \<leftarrow> wr q 3 (ucast v);
     q \<leftarrow> wr q 2 (ucast (drop_bit 8 v));
     q \<leftarrow> wr q 1 (ucast (drop_bit 16 v));
     wr q 0 (ucast (drop_bit 24 v))
   }"

definition cpu_to_le32p :: "u8 list \<Rightarrow> u32 \<Rightarrow> u8 list option" where
  "cpu_to_le32p q v = do {
     q \<leftarrow> wr q 0 (ucast v);
     q \<leftarrow> wr q 1 (ucast (drop_bit 8 v));
     q \<leftarrow> wr q 2 (ucast (drop_bit 16 v));
     wr q 3 (ucast (drop_bit 24 v))
   }"

definition cpu_to_be64p :: "u8 list \<Rightarrow> u64 \<Rightarrow> u8 list option" where
  "cpu_to_be64p q v = do {
     q \<leftarrow> wr q 7 (ucast v);
     q \<leftarrow> wr q 6 (ucast (drop_bit 8 v));
     q \<leftarrow> wr q 5 (ucast (drop_bit 16 v));
     q \<leftarrow> wr q 4 (ucast (drop_bit 24 v));
     q \<leftarrow> wr q 3 (ucast (drop_bit 32 v));
     q \<leftarrow> wr q 2 (ucast (drop_bit 40 v));
     q \<leftarrow> wr q 1 (ucast (drop_bit 48 v));
     wr q 0 (ucast (drop_bit 56 v))
   }"

definition cpu_to_le64p :: "u8 list \<Rightarrow> u64 \<Rightarrow> u8 list option" where
  "cpu_to_le64p q v = do {
     q \<leftarrow> wr q 0 (ucast v);
     q \<leftarrow> wr q 1 (ucast (drop_bit 8 v));
     q \<leftarrow> wr q 2 (ucast (drop_bit 16 v));
     q \<leftarrow> wr q 3 (ucast (drop_bit 24 v));
     q \<leftarrow> wr q 4 (ucast (drop_bit 32 v));
     q \<leftarrow> wr q 5 (ucast (drop_bit 40 v));
     q \<leftarrow> wr q 6 (ucast (drop_bit 48 v));
     wr q 7 (ucast (drop_bit 56 v))
   }"

section \<open>Values\<close>

text \<open>The \<open>n\<close> bytes of a word in memory, and the word that bytes in memory are.\<close>

definition host_bytes :: "bool \<Rightarrow> nat \<Rightarrow> 'w::len word \<Rightarrow> u8 list" where
  "host_bytes le n v = (let bs = map (\<lambda>i. ucast (drop_bit (8 * i) v)) [0..<n] in if le then bs else rev bs)"

definition host_word :: "bool \<Rightarrow> u8 list \<Rightarrow> 'w::len word" where
  "host_word le q = foldr (\<lambda>b w. ucast b OR push_bit 8 w) (if le then q else rev q) 0"

definition be16_to_cpu :: "bool \<Rightarrow> u16 \<Rightarrow> u16 option" where
  "be16_to_cpu le v = be16p_to_cpu (host_bytes le 2 v)"

definition le16_to_cpu :: "bool \<Rightarrow> u16 \<Rightarrow> u16 option" where
  "le16_to_cpu le v = le16p_to_cpu (host_bytes le 2 v)"

definition be32_to_cpu :: "bool \<Rightarrow> u32 \<Rightarrow> u32 option" where
  "be32_to_cpu le v = be32p_to_cpu (host_bytes le 4 v)"

definition le32_to_cpu :: "bool \<Rightarrow> u32 \<Rightarrow> u32 option" where
  "le32_to_cpu le v = le32p_to_cpu (host_bytes le 4 v)"

definition be64_to_cpu :: "bool \<Rightarrow> u64 \<Rightarrow> u64 option" where
  "be64_to_cpu le v = be64p_to_cpu (host_bytes le 8 v)"

definition le64_to_cpu :: "bool \<Rightarrow> u64 \<Rightarrow> u64 option" where
  "le64_to_cpu le v = le64p_to_cpu (host_bytes le 8 v)"

definition cpu_to_be16 :: "bool \<Rightarrow> u16 \<Rightarrow> u16 option" where
  "cpu_to_be16 le v = map_option (host_word le) (cpu_to_be16p (host_bytes le 2 v) v)"

definition cpu_to_le16 :: "bool \<Rightarrow> u16 \<Rightarrow> u16 option" where
  "cpu_to_le16 le v = map_option (host_word le) (cpu_to_le16p (host_bytes le 2 v) v)"

definition cpu_to_be32 :: "bool \<Rightarrow> u32 \<Rightarrow> u32 option" where
  "cpu_to_be32 le v = map_option (host_word le) (cpu_to_be32p (host_bytes le 4 v) v)"

definition cpu_to_le32 :: "bool \<Rightarrow> u32 \<Rightarrow> u32 option" where
  "cpu_to_le32 le v = map_option (host_word le) (cpu_to_le32p (host_bytes le 4 v) v)"

definition cpu_to_be64 :: "bool \<Rightarrow> u64 \<Rightarrow> u64 option" where
  "cpu_to_be64 le v = map_option (host_word le) (cpu_to_be64p (host_bytes le 8 v) v)"

definition cpu_to_le64 :: "bool \<Rightarrow> u64 \<Rightarrow> u64 option" where
  "cpu_to_le64 le v = map_option (host_word le) (cpu_to_le64p (host_bytes le 8 v) v)"

section \<open>Laws\<close>

lemma take_bit_join:
  "take_bit k v OR push_bit k (take_bit 8 (drop_bit k v)) = take_bit (k + 8) (v :: 'w::len word)"
  by (rule bit_word_eqI) (auto simp: bit_or_iff bit_push_bit_iff bit_take_bit_iff bit_drop_bit_eq)

lemma take_bit_join_more:
  "take_bit k v OR (push_bit k (take_bit 8 (drop_bit k v)) OR x) = take_bit (k + 8) (v :: 'w::len word) OR x"
  by (simp add: take_bit_join flip: or.assoc)

lemma ucast_byte: "(ucast (ucast w :: u8) :: 'w word) = take_bit 8 w" for w :: "'w::len word"
  by (rule bit_word_eqI) (auto simp: bit_ucast_iff bit_take_bit_iff dest: bit_imp_le_length)

lemma push_ucast_byte:
  "push_bit k (ucast (ucast (drop_bit k w) :: u8) :: 'w word) = push_bit k (take_bit 8 (drop_bit k w))"
  for w :: "'w::len word"
  by (simp add: ucast_byte)

lemmas join_bytes = ucast_byte take_bit_join [of 8] take_bit_join [of 16] take_bit_join [of 24] take_bit_join [of 32]
  take_bit_join [of 40] take_bit_join [of 48] take_bit_join [of 56]
  take_bit_join_more [of 8] take_bit_join_more [of 16] take_bit_join_more [of 24] take_bit_join_more [of 32]
  take_bit_join_more [of 40] take_bit_join_more [of 48]

lemma take_bit_whole: "LENGTH('w) \<le> n \<Longrightarrow> take_bit n w = w" for w :: "'w::len word"
  by (rule bit_word_eqI) (auto simp: bit_take_bit_iff)

lemma be_bytes: "host_bytes False n v = rev (host_bytes True n v)"
  by (simp add: host_bytes_def)

lemma host_bytes_2: "host_bytes True 2 v = [ucast v, ucast (drop_bit 8 v)]"
  by (simp add: host_bytes_def upt_rec numeral_eq_Suc)

lemma block_2: "length q = 2 \<Longrightarrow> \<exists>x0 x1. q = [x0, x1]"
  by (simp add: numeral_eq_Suc length_Suc_conv) blast

lemma cpu_to_be16p_block:
  assumes "length q = 2"
  shows "cpu_to_be16p (q @ post) v = Some (host_bytes False 2 v @ post)"
proof -
  obtain x0 x1 where "q = [x0, x1]" using block_2 [OF assms] by blast
  then show ?thesis
    by (simp add: cpu_to_be16p_def wr_def host_bytes_2 be_bytes [of 2])
qed

lemma be16p_block: "be16p_to_cpu (host_bytes False 2 v @ post) = Some v"
  by (simp add: be16p_to_cpu_def rd_def host_bytes_2 be_bytes [of 2] join_bytes take_bit_whole)

lemma cpu_to_le16p_block:
  assumes "length q = 2"
  shows "cpu_to_le16p (q @ post) v = Some (host_bytes True 2 v @ post)"
proof -
  obtain x0 x1 where "q = [x0, x1]" using block_2 [OF assms] by blast
  then show ?thesis
    by (simp add: cpu_to_le16p_def wr_def host_bytes_2 be_bytes [of 2])
qed

lemma le16p_block: "le16p_to_cpu (host_bytes True 2 v @ post) = Some v"
  by (simp add: le16p_to_cpu_def rd_def host_bytes_2 be_bytes [of 2] join_bytes take_bit_whole)

lemma host_bytes_4: "host_bytes True 4 v = [ucast v, ucast (drop_bit 8 v), ucast (drop_bit 16 v), ucast (drop_bit 24 v)]"
  by (simp add: host_bytes_def upt_rec numeral_eq_Suc)

lemma block_4: "length q = 4 \<Longrightarrow> \<exists>x0 x1 x2 x3. q = [x0, x1, x2, x3]"
  by (simp add: numeral_eq_Suc length_Suc_conv) blast

lemma cpu_to_be32p_block:
  assumes "length q = 4"
  shows "cpu_to_be32p (q @ post) v = Some (host_bytes False 4 v @ post)"
proof -
  obtain x0 x1 x2 x3 where "q = [x0, x1, x2, x3]" using block_4 [OF assms] by blast
  then show ?thesis
    by (simp add: cpu_to_be32p_def wr_def host_bytes_4 be_bytes [of 4])
qed

lemma be32p_block: "be32p_to_cpu (host_bytes False 4 v @ post) = Some v"
  by (simp add: be32p_to_cpu_def rd_def host_bytes_4 be_bytes [of 4] join_bytes take_bit_whole)

lemma cpu_to_le32p_block:
  assumes "length q = 4"
  shows "cpu_to_le32p (q @ post) v = Some (host_bytes True 4 v @ post)"
proof -
  obtain x0 x1 x2 x3 where "q = [x0, x1, x2, x3]" using block_4 [OF assms] by blast
  then show ?thesis
    by (simp add: cpu_to_le32p_def wr_def host_bytes_4 be_bytes [of 4])
qed

lemma le32p_block: "le32p_to_cpu (host_bytes True 4 v @ post) = Some v"
  by (simp add: le32p_to_cpu_def rd_def host_bytes_4 be_bytes [of 4] join_bytes take_bit_whole)

lemma host_bytes_8: "host_bytes True 8 v = [ucast v, ucast (drop_bit 8 v), ucast (drop_bit 16 v), ucast (drop_bit 24 v), ucast (drop_bit 32 v), ucast (drop_bit 40 v), ucast (drop_bit 48 v), ucast (drop_bit 56 v)]"
  by (simp add: host_bytes_def upt_rec numeral_eq_Suc)

lemma block_8: "length q = 8 \<Longrightarrow> \<exists>x0 x1 x2 x3 x4 x5 x6 x7. q = [x0, x1, x2, x3, x4, x5, x6, x7]"
  by (simp add: numeral_eq_Suc length_Suc_conv) blast

lemma cpu_to_be64p_block:
  assumes "length q = 8"
  shows "cpu_to_be64p (q @ post) v = Some (host_bytes False 8 v @ post)"
proof -
  obtain x0 x1 x2 x3 x4 x5 x6 x7 where "q = [x0, x1, x2, x3, x4, x5, x6, x7]" using block_8 [OF assms] by blast
  then show ?thesis
    by (simp add: cpu_to_be64p_def wr_def host_bytes_8 be_bytes [of 8])
qed

lemma be64p_block: "be64p_to_cpu (host_bytes False 8 v @ post) = Some v"
  by (simp add: be64p_to_cpu_def rd_def host_bytes_8 be_bytes [of 8] join_bytes take_bit_whole)

lemma cpu_to_le64p_block:
  assumes "length q = 8"
  shows "cpu_to_le64p (q @ post) v = Some (host_bytes True 8 v @ post)"
proof -
  obtain x0 x1 x2 x3 x4 x5 x6 x7 where "q = [x0, x1, x2, x3, x4, x5, x6, x7]" using block_8 [OF assms] by blast
  then show ?thesis
    by (simp add: cpu_to_le64p_def wr_def host_bytes_8 be_bytes [of 8])
qed

lemma le64p_block: "le64p_to_cpu (host_bytes True 8 v @ post) = Some v"
  by (simp add: le64p_to_cpu_def rd_def host_bytes_8 be_bytes [of 8] join_bytes take_bit_whole)


lemma bit_host_word:
  "bit (host_word True q :: 'w::len word) k \<longleftrightarrow>
     k < LENGTH('w) \<and> k div 8 < length q \<and> bit (q ! (k div 8)) (k mod 8)"
proof (induction q arbitrary: k)
  case (Cons b q)
  have step: "(host_word True (b # q) :: 'w word) = ucast b OR push_bit 8 (host_word True q)"
    by (simp add: host_word_def)
  show ?case
  proof (cases "k < 8")
    case True
    then show ?thesis by (auto simp: step bit_or_iff bit_push_bit_iff bit_ucast_iff)
  next
    case False
    then have "k div 8 = Suc ((k - 8) div 8)" "(k - 8) mod 8 = k mod 8"
      by (simp_all add: le_div_geq le_mod_geq)
    moreover have "\<not> bit b k" using False bit_imp_le_length [of b k] by auto
    ultimately show ?thesis
      using False by (auto simp: step bit_or_iff bit_push_bit_iff bit_ucast_iff Cons.IH)
  qed
qed (simp add: host_word_def)

lemma byte_of_host_word:
  assumes "i < length q" "8 * length q \<le> LENGTH('w)"
  shows "ucast (drop_bit (8 * i) (host_word True q :: 'w::len word)) = q ! i"
proof (rule bit_word_eqI)
  fix k :: nat assume "k < LENGTH(8)"
  then have k: "k < 8" by simp
  then have "(8 * i + k) div 8 = i" "(8 * i + k) mod 8 = k" "8 * i + k < 8 * length q"
    using assms(1) by auto
  then show "bit (ucast (drop_bit (8 * i) (host_word True q :: 'w word)) :: u8) k = bit (q ! i) k"
    using assms k by (auto simp: bit_ucast_iff bit_drop_bit_eq bit_host_word)
qed

lemma host_bytes_word:
  assumes "8 * length q \<le> LENGTH('w)"
  shows "host_bytes le (length q) (host_word le q :: 'w::len word) = q"
proof -
  have t: "host_bytes True (length q) (host_word True q :: 'w word) = q" if "8 * length q \<le> LENGTH('w)" for q
    using that by (auto simp: host_bytes_def byte_of_host_word intro!: nth_equalityI)
  have r: "(host_word False q :: 'w word) = host_word True (rev q)" by (simp add: host_word_def)
  show ?thesis
  proof (cases le)
    case True
    then show ?thesis using t [OF assms] by simp
  next
    case False
    then show ?thesis using t [of "rev q"] assms by (simp add: be_bytes r)
  qed
qed

lemma length_host_bytes: "length (host_bytes le n v) = n"
  by (simp add: host_bytes_def Let_def)

lemma cpu_to_be16_value: "cpu_to_be16 le v = Some (host_word le (host_bytes False 2 v))"
  using cpu_to_be16p_block [of "host_bytes le 2 v" "[]" v]
  by (simp add: cpu_to_be16_def length_host_bytes)

lemma be16_value: "be16_to_cpu le (host_word le (host_bytes False 2 v)) = Some v"
  using be16p_block [of v "[]"] host_bytes_word [of "host_bytes False 2 v" le, where 'w = 16]
  by (simp add: be16_to_cpu_def length_host_bytes)

lemma cpu_to_le16_value: "cpu_to_le16 le v = Some (host_word le (host_bytes True 2 v))"
  using cpu_to_le16p_block [of "host_bytes le 2 v" "[]" v]
  by (simp add: cpu_to_le16_def length_host_bytes)

lemma le16_value: "le16_to_cpu le (host_word le (host_bytes True 2 v)) = Some v"
  using le16p_block [of v "[]"] host_bytes_word [of "host_bytes True 2 v" le, where 'w = 16]
  by (simp add: le16_to_cpu_def length_host_bytes)

lemma cpu_to_be32_value: "cpu_to_be32 le v = Some (host_word le (host_bytes False 4 v))"
  using cpu_to_be32p_block [of "host_bytes le 4 v" "[]" v]
  by (simp add: cpu_to_be32_def length_host_bytes)

lemma be32_value: "be32_to_cpu le (host_word le (host_bytes False 4 v)) = Some v"
  using be32p_block [of v "[]"] host_bytes_word [of "host_bytes False 4 v" le, where 'w = 32]
  by (simp add: be32_to_cpu_def length_host_bytes)

lemma cpu_to_le32_value: "cpu_to_le32 le v = Some (host_word le (host_bytes True 4 v))"
  using cpu_to_le32p_block [of "host_bytes le 4 v" "[]" v]
  by (simp add: cpu_to_le32_def length_host_bytes)

lemma le32_value: "le32_to_cpu le (host_word le (host_bytes True 4 v)) = Some v"
  using le32p_block [of v "[]"] host_bytes_word [of "host_bytes True 4 v" le, where 'w = 32]
  by (simp add: le32_to_cpu_def length_host_bytes)

lemma cpu_to_be64_value: "cpu_to_be64 le v = Some (host_word le (host_bytes False 8 v))"
  using cpu_to_be64p_block [of "host_bytes le 8 v" "[]" v]
  by (simp add: cpu_to_be64_def length_host_bytes)

lemma be64_value: "be64_to_cpu le (host_word le (host_bytes False 8 v)) = Some v"
  using be64p_block [of v "[]"] host_bytes_word [of "host_bytes False 8 v" le, where 'w = 64]
  by (simp add: be64_to_cpu_def length_host_bytes)

lemma cpu_to_le64_value: "cpu_to_le64 le v = Some (host_word le (host_bytes True 8 v))"
  using cpu_to_le64p_block [of "host_bytes le 8 v" "[]" v]
  by (simp add: cpu_to_le64_def length_host_bytes)

lemma le64_value: "le64_to_cpu le (host_word le (host_bytes True 8 v)) = Some v"
  using le64p_block [of v "[]"] host_bytes_word [of "host_bytes True 8 v" le, where 'w = 64]
  by (simp add: le64_to_cpu_def length_host_bytes)

text \<open>Byte order conversion is exact: on machines of either byte order, the value that a \<open>cpu_to\<close> function
  returns consists in memory of the bytes of its argument, the least significant first for \<open>le\<close> and last for
  \<open>be\<close>, and the opposite function gives the argument back; the functions on pointers write exactly these bytes,
  leave what follows them and read the value back whatever follows.\<close>

theorem endian_roundtrip:
  fixes v :: u64 and w :: u32 and u :: u16
  shows "(\<exists>x. cpu_to_le64 le v = Some x \<and> host_bytes le 8 x = host_bytes True 8 v \<and> le64_to_cpu le x = Some v) \<and>
    (\<exists>x. cpu_to_be64 le v = Some x \<and> host_bytes le 8 x = rev (host_bytes True 8 v) \<and> be64_to_cpu le x = Some v) \<and>
    (\<exists>x. cpu_to_le32 le w = Some x \<and> host_bytes le 4 x = host_bytes True 4 w \<and> le32_to_cpu le x = Some w) \<and>
    (\<exists>x. cpu_to_be32 le w = Some x \<and> host_bytes le 4 x = rev (host_bytes True 4 w) \<and> be32_to_cpu le x = Some w) \<and>
    (\<exists>x. cpu_to_le16 le u = Some x \<and> host_bytes le 2 x = host_bytes True 2 u \<and> le16_to_cpu le x = Some u) \<and>
    (\<exists>x. cpu_to_be16 le u = Some x \<and> host_bytes le 2 x = rev (host_bytes True 2 u) \<and> be16_to_cpu le x = Some u) \<and>
    cpu_to_le64p (host_bytes le 8 z @ post) v = Some (host_bytes True 8 v @ post) \<and>
    cpu_to_be64p (host_bytes le 8 z @ post) v = Some (rev (host_bytes True 8 v) @ post) \<and>
    le64p_to_cpu (host_bytes True 8 v @ post) = Some v \<and>
    be64p_to_cpu (rev (host_bytes True 8 v) @ post) = Some v"
  (is "?a \<and> ?b \<and> ?c \<and> ?d \<and> ?e \<and> ?f \<and> ?p \<and> ?q \<and> ?r \<and> ?s")
proof (intro conjI)
  show ?a using host_bytes_word [of "host_bytes True 8 v" le, where 'w = 64]
    by (simp add: cpu_to_le64_value le64_value length_host_bytes)
  show ?b using host_bytes_word [of "host_bytes False 8 v" le, where 'w = 64]
    by (simp add: cpu_to_be64_value be64_value length_host_bytes flip: be_bytes)
  show ?c using host_bytes_word [of "host_bytes True 4 w" le, where 'w = 32]
    by (simp add: cpu_to_le32_value le32_value length_host_bytes)
  show ?d using host_bytes_word [of "host_bytes False 4 w" le, where 'w = 32]
    by (simp add: cpu_to_be32_value be32_value length_host_bytes flip: be_bytes)
  show ?e using host_bytes_word [of "host_bytes True 2 u" le, where 'w = 16]
    by (simp add: cpu_to_le16_value le16_value length_host_bytes)
  show ?f using host_bytes_word [of "host_bytes False 2 u" le, where 'w = 16]
    by (simp add: cpu_to_be16_value be16_value length_host_bytes flip: be_bytes)
  show ?p by (rule cpu_to_le64p_block) (simp add: length_host_bytes)
  show ?q unfolding be_bytes [symmetric] by (rule cpu_to_be64p_block) (simp add: length_host_bytes)
  show ?r by (rule le64p_block)
  show ?s unfolding be_bytes [symmetric] by (rule be64p_block)
qed

end
