(* ===== verification/HX_Time.thy ===== *)
theory HX_Time
  imports HX_Prelude "HOL-Library.Signed_Division"
begin

text \<open>
  Times, \<^verbatim>\<open>time.c\<close>. A \<^verbatim>\<open>timespec\<close> is kept as sign and magnitude: the nanoseconds count away from zero,
  and only when there are no seconds they carry the sign themselves. The fields are integers; \<open>long\<close> is the
  check that a signed result fits into 64 bits, \<open>None\<close> being the overflow that C leaves undefined.
\<close>

section \<open>Operations\<close>

definition long :: "int \<Rightarrow> int option" where
  "long x = (if - (2 ^ 63) \<le> x \<and> x < 2 ^ 63 then Some x else None)"

definition NANOSECOND :: int where "NANOSECOND = 1000000000"

record timespec =
  tv_sec :: int
  tv_nsec :: int

definition HX_timespec_isneg :: "timespec \<Rightarrow> bool" where
  "HX_timespec_isneg x \<longleftrightarrow> tv_sec x < 0 \<or> tv_nsec x < 0"

definition HX_timespec_neg :: "timespec \<Rightarrow> timespec option" where
  "HX_timespec_neg a =
     (if tv_sec a \<noteq> 0 then do { s \<leftarrow> long (- tv_sec a); Some \<lparr>tv_sec = s, tv_nsec = tv_nsec a\<rparr> }
      else do { n \<leftarrow> long (- tv_nsec a); Some \<lparr>tv_sec = 0, tv_nsec = n\<rparr> })"

text \<open>The nanoseconds of a \<^verbatim>\<open>timespec\<close>, as each of the operations computes them.\<close>

definition nsecs :: "timespec \<Rightarrow> int option" where
  "nsecs a = do {
     t \<leftarrow> long (tv_sec a * NANOSECOND);
     n \<leftarrow> (if 0 \<le> tv_sec a then Some (tv_nsec a) else long (- tv_nsec a));
     long (t + n)
   }"

definition HX_timespec_add :: "timespec \<Rightarrow> timespec \<Rightarrow> timespec option" where
  "HX_timespec_add a b = do {
     aa \<leftarrow> nsecs a;
     bb \<leftarrow> nsecs b;
     rr \<leftarrow> long (aa + bb);
     let s = rr sdiv NANOSECOND;
     n \<leftarrow> (if s < 0 then long (- rr) else Some rr);
     Some \<lparr>tv_sec = s, tv_nsec = n smod NANOSECOND\<rparr>
   }"

definition HX_timespec_sub :: "timespec \<Rightarrow> timespec \<Rightarrow> timespec option" where
  "HX_timespec_sub a b = do { b2 \<leftarrow> HX_timespec_neg b; HX_timespec_add a b2 }"

definition HX_timespec_mul :: "timespec \<Rightarrow> int \<Rightarrow> timespec option" where
  "HX_timespec_mul a f = do {
     t \<leftarrow> nsecs a;
     t \<leftarrow> long (t * f);
     let s = t sdiv NANOSECOND;
     let n = t smod NANOSECOND;
     Some \<lparr>tv_sec = s, tv_nsec = if s < 0 \<and> n < 0 then - n else n\<rparr>
   }"

text \<open>
  Multiplication by a \<^verbatim>\<open>double\<close>: \<open>dmul\<close> converts to \<^verbatim>\<open>double\<close> and multiplies, \<open>dquot\<close> divides by
  \<^verbatim>\<open>NANOSECOND\<close> and truncates, and \<open>drest\<close> subtracts an integer and truncates.
\<close>

definition HX_timespec_mulf ::
  "(int \<Rightarrow> 'd) \<Rightarrow> ('d \<Rightarrow> int) \<Rightarrow> ('d \<Rightarrow> int \<Rightarrow> int) \<Rightarrow> timespec \<Rightarrow> timespec option" where
  "HX_timespec_mulf dmul dquot drest a = do {
     t \<leftarrow> nsecs a;
     let s = dquot (dmul t);
     m \<leftarrow> long (s * NANOSECOND);
     let n = drest (dmul t) m;
     Some \<lparr>tv_sec = s, tv_nsec = if s < 0 \<and> n < 0 then - n else n\<rparr>
   }"

record timeval =
  tvv_sec :: int
  tv_usec :: int

definition HX_timeval_sub :: "timeval \<Rightarrow> timeval \<Rightarrow> timeval option" where
  "HX_timeval_sub future past = do {
     f \<leftarrow> long (tv_usec future * 1000);
     p \<leftarrow> long (tv_usec past * 1000);
     d \<leftarrow> HX_timespec_sub \<lparr>tv_sec = tvv_sec future, tv_nsec = f\<rparr> \<lparr>tv_sec = tvv_sec past, tv_nsec = p\<rparr>;
     Some \<lparr>tvv_sec = tv_sec d, tv_usec = tv_nsec d sdiv 1000\<rparr>
   }"

record times3 =
  st_mtim :: timespec
  st_atim :: timespec
  st_ctim :: timespec

definition cmp_timespec :: "timespec \<Rightarrow> timespec \<Rightarrow> int option" where
  "cmp_timespec a b = do {
     r \<leftarrow> long (tv_sec a - tv_sec b);
     if r \<noteq> 0 then Some r else long (tv_nsec a - tv_nsec b)
   }"

definition HX_time_compare :: "times3 \<Rightarrow> times3 \<Rightarrow> char \<Rightarrow> int option" where
  "HX_time_compare a b sel =
     (if sel = CHR ''m'' then cmp_timespec (st_mtim a) (st_mtim b)
      else if sel = CHR ''a'' then cmp_timespec (st_atim a) (st_atim b)
      else if sel = CHR ''c'' then cmp_timespec (st_ctim a) (st_ctim b)
      else Some 0)"

section \<open>Values\<close>

text \<open>What a \<^verbatim>\<open>timespec\<close> denotes, and which ones the operations produce.\<close>

definition ts_val :: "timespec \<Rightarrow> int" where
  "ts_val a = (if 0 \<le> tv_sec a then tv_sec a * NANOSECOND + tv_nsec a else tv_sec a * NANOSECOND - tv_nsec a)"

definition ts_wf :: "timespec \<Rightarrow> bool" where
  "ts_wf a \<longleftrightarrow> \<bar>tv_nsec a\<bar> < NANOSECOND \<and> (tv_sec a \<noteq> 0 \<longrightarrow> 0 \<le> tv_nsec a)"

lemma long_Some: "long x = Some y \<longleftrightarrow> y = x \<and> - (2 ^ 63) \<le> x \<and> x < 2 ^ 63"
  by (auto simp: long_def)

lemma long_in: "- (2 ^ 63) \<le> x \<Longrightarrow> x < 2 ^ 63 \<Longrightarrow> long x = Some x"
  by (simp add: long_def)

lemma nsecs_Some: "nsecs a = Some t \<Longrightarrow> t = ts_val a"
  by (auto simp: nsecs_def ts_val_def long_Some bind_eq_Some_conv split: if_splits)

lemma ns_simps [simp]: "0 < NANOSECOND" "0 \<le> NANOSECOND" "NANOSECOND \<noteq> 0" "\<bar>NANOSECOND\<bar> = NANOSECOND"
  by (simp_all add: NANOSECOND_def)

lemma sdiv_ns: "x sdiv NANOSECOND = (if 0 \<le> x then x div NANOSECOND else - ((- x) div NANOSECOND))"
  by (auto simp: signed_divide_int_def NANOSECOND_def sgn_if)

lemma smod_ns: "x smod NANOSECOND = (if 0 \<le> x then x mod NANOSECOND else - ((- x) mod NANOSECOND))"
  by (auto simp: signed_modulo_int_def sgn_if)

text \<open>The only well-formed \<^verbatim>\<open>timespec\<close> with a value, and the split that all operations make.\<close>

definition ts_of :: "int \<Rightarrow> timespec" where
  "ts_of x =
     (if \<bar>x\<bar> < NANOSECOND then \<lparr>tv_sec = 0, tv_nsec = x\<rparr>
      else \<lparr>tv_sec = sgn x * (\<bar>x\<bar> div NANOSECOND), tv_nsec = \<bar>x\<bar> mod NANOSECOND\<rparr>)"

lemma div_ns_pos: "NANOSECOND \<le> x \<Longrightarrow> 0 < x div NANOSECOND"
  by (simp add: pos_imp_zdiv_pos_iff)

lemma ts_of_wf [simp]: "ts_wf (ts_of x)"
  by (auto simp: ts_wf_def ts_of_def)

lemma ts_of_val [simp]: "ts_val (ts_of x) = x"
proof (cases "\<bar>x\<bar> < NANOSECOND")
  case False
  then have d: "0 < \<bar>x\<bar> div NANOSECOND" by (intro div_ns_pos) simp
  show ?thesis
  proof (cases "0 \<le> x")
    case True
    then show ?thesis using False d by (simp add: ts_val_def ts_of_def sgn_if)
  next
    case neg: False
    have "\<bar>x\<bar> div NANOSECOND * NANOSECOND = \<bar>x\<bar> - \<bar>x\<bar> mod NANOSECOND" by (simp only: minus_mod_eq_div_mult)
    moreover have "\<bar>x\<bar> = - x" using neg by simp
    ultimately have "\<bar>x\<bar> div NANOSECOND * NANOSECOND = - x - \<bar>x\<bar> mod NANOSECOND" by linarith
    then show ?thesis using False d neg by (simp add: ts_val_def ts_of_def sgn_if del: abs_of_neg)
  qed
qed (simp add: ts_val_def ts_of_def)

lemma ts_wf_unique: "ts_wf a \<Longrightarrow> a = ts_of (ts_val a)"
proof -
  assume w: "ts_wf a"
  obtain s n where a: "a = \<lparr>tv_sec = s, tv_nsec = n\<rparr>" by (cases a)
  have n: "\<bar>n\<bar> < NANOSECOND" "s \<noteq> 0 \<Longrightarrow> 0 \<le> n" using w by (auto simp: ts_wf_def a)
  have q: "(m * NANOSECOND + n) div NANOSECOND = m" "(m * NANOSECOND + n) mod NANOSECOND = n"
    if "0 \<le> n" for m using that n(1) by simp_all
  consider "s = 0" | "0 < s" | "s < 0" by linarith
  then show ?thesis
  proof cases
    case 1
    then show ?thesis using n by (simp add: a ts_val_def ts_of_def)
  next
    case 2
    then have "1 * NANOSECOND \<le> s * NANOSECOND" by (intro mult_right_mono) simp_all
    then have "0 \<le> n" "\<not> s * NANOSECOND + n < NANOSECOND" "0 \<le> s * NANOSECOND + n"
      using n 2 ns_simps(1) by linarith+
    then show ?thesis using n 2 q [of s] by (simp add: a ts_val_def ts_of_def)
  next
    case 3
    then have "1 * NANOSECOND \<le> - s * NANOSECOND" by (intro mult_right_mono) simp_all
    then show ?thesis using n 3 q [of "- s"] by (simp add: a ts_val_def ts_of_def)
  qed
qed

lemma ts_of_sdiv:
  "\<lparr>tv_sec = x sdiv NANOSECOND, tv_nsec = (if x sdiv NANOSECOND < 0 then - x else x) smod NANOSECOND\<rparr> = ts_of x"
proof (cases "\<bar>x\<bar> < NANOSECOND")
  case True
  then show ?thesis by (cases "0 \<le> x") (simp_all add: ts_of_def sdiv_ns smod_ns)
next
  case False
  then have "0 < \<bar>x\<bar> div NANOSECOND" "x \<noteq> 0" by (auto intro: div_ns_pos)
  then show ?thesis using False by (cases "0 \<le> x") (simp_all add: ts_of_def sdiv_ns smod_ns sgn_if)
qed

lemma ts_of_sdiv2:
  "\<lparr>tv_sec = x sdiv NANOSECOND,
     tv_nsec = if x sdiv NANOSECOND < 0 \<and> x smod NANOSECOND < 0 then - (x smod NANOSECOND) else x smod NANOSECOND\<rparr> = ts_of x"
proof (cases "\<bar>x\<bar> < NANOSECOND")
  case True
  then show ?thesis by (cases "0 \<le> x") (simp_all add: ts_of_def sdiv_ns smod_ns)
next
  case False
  then have d: "0 < \<bar>x\<bar> div NANOSECOND" "x \<noteq> 0" by (auto intro: div_ns_pos)
  have "0 \<le> (- x) mod NANOSECOND" by simp
  then have m: "0 < (- x) mod NANOSECOND \<or> (- x) mod NANOSECOND = 0" by linarith
  show ?thesis using False d m by (cases "0 \<le> x") (auto simp add: ts_of_def sdiv_ns smod_ns sgn_if)
qed

lemma isneg_ts_of: "HX_timespec_isneg (ts_of x) \<longleftrightarrow> x < 0"
proof (cases "\<bar>x\<bar> < NANOSECOND")
  case False
  then have "0 < \<bar>x\<bar> div NANOSECOND" by (intro div_ns_pos) simp
  moreover have "0 \<le> \<bar>x\<bar> mod NANOSECOND" by simp
  ultimately show ?thesis using False
    by (auto simp: HX_timespec_isneg_def ts_of_def sgn_if not_less mult_less_0_iff)
qed (simp add: HX_timespec_isneg_def ts_of_def)

section \<open>Laws\<close>

lemma add_Some: "HX_timespec_add a b = Some r \<Longrightarrow> r = ts_of (ts_val a + ts_val b)"
  using ts_of_sdiv [of "ts_val a + ts_val b"]
  by (auto simp: HX_timespec_add_def bind_eq_Some_conv long_Some Let_def dest!: nsecs_Some split: if_splits)

lemma neg_Some: "HX_timespec_neg a = Some r \<Longrightarrow> ts_val r = - ts_val a"
  by (auto simp: HX_timespec_neg_def ts_val_def long_Some bind_eq_Some_conv split: if_splits)

lemma neg_wf: "HX_timespec_neg a = Some r \<Longrightarrow> ts_wf a \<Longrightarrow> ts_wf r"
  by (auto simp: HX_timespec_neg_def ts_wf_def long_Some bind_eq_Some_conv split: if_splits)

lemma mul_Some: "HX_timespec_mul a f = Some r \<Longrightarrow> r = ts_of (ts_val a * f)"
  using ts_of_sdiv2 [of "ts_val a * f"]
  by (auto simp: HX_timespec_mul_def bind_eq_Some_conv long_Some Let_def dest!: nsecs_Some split: if_splits)

text \<open>Where nothing overflows: seconds up to about 146 years either way.\<close>

definition ts_small :: "timespec \<Rightarrow> bool" where
  "ts_small a \<longleftrightarrow> \<bar>tv_sec a\<bar> \<le> 4611686017 \<and> \<bar>tv_nsec a\<bar> < NANOSECOND"

lemma small_nsecs:
  assumes "ts_small a"
  shows "nsecs a = Some (ts_val a)" "\<bar>ts_val a\<bar> < 4611686018 * NANOSECOND"
  using assms by (auto simp: ts_small_def nsecs_def ts_val_def long_in NANOSECOND_def abs_le_iff abs_less_iff)

lemma small_neg: "ts_small a \<Longrightarrow> \<exists>r. HX_timespec_neg a = Some r \<and> ts_small r"
  by (auto simp: ts_small_def HX_timespec_neg_def long_in NANOSECOND_def abs_le_iff abs_less_iff)

lemma small_add:
  assumes "ts_small a" "ts_small b"
  shows "HX_timespec_add a b = Some (ts_of (ts_val a + ts_val b))"
proof -
  have "\<bar>ts_val a + ts_val b\<bar> < 2 * (4611686018 * NANOSECOND)"
    using small_nsecs(2) [OF assms(1)] small_nsecs(2) [OF assms(2)] by linarith
  then have l: "long (ts_val a + ts_val b) = Some (ts_val a + ts_val b)"
    "long (- (ts_val a + ts_val b)) = Some (- (ts_val a + ts_val b))"
    by (auto simp: long_in NANOSECOND_def abs_less_iff)
  show ?thesis using ts_of_sdiv [of "ts_val a + ts_val b"]
    by (cases "(ts_val a + ts_val b) sdiv NANOSECOND < 0")
      (simp_all add: HX_timespec_add_def small_nsecs assms l del: minus_add_distrib)
qed

text \<open>C40: Arithmetic on times is exact. Whatever the two times, a sum, difference, product or negation that does
  not overflow denotes the sum, difference, product or negation of the nanoseconds the arguments denote, and the
  result of the first three is the one well-formed \<^verbatim>\<open>timespec\<close> with that value, so that the sign sits in the
  seconds unless there are none; for times of at most 146 years sums and differences never overflow.\<close>

theorem HX_timespec_exact:
  shows "HX_timespec_add a b \<in> {None, Some (ts_of (ts_val a + ts_val b))} \<and>
    HX_timespec_sub a b \<in> {None, Some (ts_of (ts_val a - ts_val b))} \<and>
    HX_timespec_mul a f \<in> {None, Some (ts_of (ts_val a * f))} \<and>
    map_option ts_val (HX_timespec_neg a) \<in> {None, Some (- ts_val a)} \<and>
    {c. ts_wf c \<and> ts_val c = x} = {ts_of x} \<and>
    (HX_timespec_isneg (ts_of x) \<longleftrightarrow> x < 0) \<and>
    (ts_small a \<and> ts_small b \<longrightarrow> HX_timespec_add a b \<noteq> None \<and> HX_timespec_sub a b \<noteq> None)"
proof -
  have sub: "HX_timespec_sub a b \<in> {None, Some (ts_of (ts_val a - ts_val b))}"
    by (cases "HX_timespec_neg b"; cases "HX_timespec_sub a b")
      (auto simp: HX_timespec_sub_def dest!: add_Some neg_Some)
  have "HX_timespec_add a b \<in> {None, Some (ts_of (ts_val a + ts_val b))}"
    by (cases "HX_timespec_add a b") (auto dest!: add_Some)
  moreover have "HX_timespec_mul a f \<in> {None, Some (ts_of (ts_val a * f))}"
    by (cases "HX_timespec_mul a f") (auto dest!: mul_Some)
  moreover have "map_option ts_val (HX_timespec_neg a) \<in> {None, Some (- ts_val a)}"
    by (cases "HX_timespec_neg a") (auto dest!: neg_Some)
  moreover have "{c. ts_wf c \<and> ts_val c = x} = {ts_of x}"
    using ts_wf_unique by auto
  moreover have "HX_timespec_isneg (ts_of x) \<longleftrightarrow> x < 0"
    by (rule isneg_ts_of)
  moreover have "HX_timespec_add a b \<noteq> None \<and> HX_timespec_sub a b \<noteq> None" if "ts_small a \<and> ts_small b"
    using that small_neg [of b] small_add [of a] by (auto simp: HX_timespec_sub_def)
  ultimately show ?thesis using sub by blast
qed

lemma HX_timespec_exact_witness:
  "HX_timespec_add \<lparr>tv_sec = 1, tv_nsec = 5\<rparr> \<lparr>tv_sec = - 2, tv_nsec = 6\<rparr> \<noteq> None \<and>
   HX_timespec_sub \<lparr>tv_sec = 1, tv_nsec = 5\<rparr> \<lparr>tv_sec = - 2, tv_nsec = 6\<rparr> \<noteq> None"
proof -
  have "ts_small \<lparr>tv_sec = 1, tv_nsec = 5\<rparr> \<and> ts_small \<lparr>tv_sec = - 2, tv_nsec = 6\<rparr>"
    by (simp add: ts_small_def NANOSECOND_def)
  then show ?thesis
    using HX_timespec_exact [of "\<lparr>tv_sec = 1, tv_nsec = 5\<rparr>" "\<lparr>tv_sec = - 2, tv_nsec = 6\<rparr>"] by blast
qed

text \<open>The microseconds a \<^verbatim>\<open>timeval\<close> denotes, with the same convention for the sign.\<close>

definition tv_val :: "timeval \<Rightarrow> int" where
  "tv_val a = (if 0 \<le> tvv_sec a then tvv_sec a * 1000000 + tv_usec a else tvv_sec a * 1000000 - tv_usec a)"

lemma ts_of_thousand:
  "tv_val \<lparr>tvv_sec = tv_sec (ts_of (y * 1000)), tv_usec = tv_nsec (ts_of (y * 1000)) sdiv 1000\<rparr> = y"
proof -
  have d: "m * 1000 div NANOSECOND = m div 1000000" "m * 1000 mod NANOSECOND = m mod 1000000 * 1000" for m
    using div_mult_mult2 [of 1000 m 1000000] mod_mult_mult2 [of m 1000 1000000] by (simp_all add: NANOSECOND_def)
  have q: "(m * 1000) sdiv 1000 = m" for m :: int
    by (simp add: signed_divide_int_def abs_mult sgn_mult sgn_if)
  have a: "\<bar>y * 1000\<bar> = \<bar>y\<bar> * 1000" "sgn (y * 1000) = sgn y" by (simp_all add: abs_mult sgn_mult)
  have m: "\<bar>y\<bar> div 1000000 * 1000000 + \<bar>y\<bar> mod 1000000 = \<bar>y\<bar>" by (rule div_mult_mod_eq)
  show ?thesis
  proof (cases "\<bar>y\<bar> * 1000 < NANOSECOND")
    case True
    then show ?thesis by (simp add: ts_of_def a tv_val_def q)
  next
    case False
    then have "1000000 \<le> \<bar>y\<bar>" by (simp add: NANOSECOND_def)
    then have "0 < \<bar>y\<bar> div 1000000" by (simp add: pos_imp_zdiv_pos_iff)
    moreover have "ts_of (y * 1000) =
        \<lparr>tv_sec = sgn y * (\<bar>y\<bar> div 1000000), tv_nsec = \<bar>y\<bar> mod 1000000 * 1000\<rparr>"
      unfolding ts_of_def a d using False by simp
    ultimately have "0 < k \<and> ts_of (y * 1000) = \<lparr>tv_sec = sgn y * k, tv_nsec = r * 1000\<rparr> \<and> k * 1000000 + r = \<bar>y\<bar>"
      if "k = \<bar>y\<bar> div 1000000" "r = \<bar>y\<bar> mod 1000000" for k r
      using that m by simp
    then obtain k r where "0 < k" "ts_of (y * 1000) = \<lparr>tv_sec = sgn y * k, tv_nsec = r * 1000\<rparr>" "k * 1000000 + r = \<bar>y\<bar>"
      by blast
    moreover have "y \<noteq> 0" using False by auto
    ultimately show ?thesis by (cases "0 < y") (simp_all add: q tv_val_def)
  qed
qed

text \<open>\<open>HX_timeval_sub\<close> is exact: a difference that does not overflow denotes the difference of the microseconds.\<close>

theorem HX_timeval_sub_exact:
  "map_option tv_val (HX_timeval_sub a b) \<in> {None, Some (tv_val a - tv_val b)}"
proof (cases "HX_timeval_sub a b")
  case (Some d)
  let ?t = "\<lambda>a. \<lparr>tv_sec = tvv_sec a, tv_nsec = tv_usec a * 1000\<rparr>"
  have v: "ts_val (?t c) = tv_val c * 1000" for c
    by (simp add: ts_val_def tv_val_def NANOSECOND_def algebra_simps)
  obtain r where r: "HX_timespec_sub (?t a) (?t b) = Some r"
    and d: "d = \<lparr>tvv_sec = tv_sec r, tv_usec = tv_nsec r sdiv 1000\<rparr>"
    using Some by (auto simp: HX_timeval_sub_def bind_eq_Some_conv long_Some)
  have "r = ts_of ((tv_val a - tv_val b) * 1000)"
    using r by (auto simp: HX_timespec_sub_def bind_eq_Some_conv v left_diff_distrib dest!: add_Some neg_Some)
  then have "d = \<lparr>tvv_sec = tv_sec (ts_of ((tv_val a - tv_val b) * 1000)),
      tv_usec = tv_nsec (ts_of ((tv_val a - tv_val b) * 1000)) sdiv 1000\<rparr>"
    by (simp only: d)
  then have "tv_val d = tv_val a - tv_val b" by (simp only: ts_of_thousand)
  then show ?thesis by (simp add: Some)
qed simp

lemma sgn_lex:
  fixes p q m n :: int
  assumes "0 \<le> m" "m < N" "0 \<le> n" "n < N"
  shows "sgn (p * N + m - (q * N + n)) = (if p = q then sgn (m - n) else sgn (p - q))"
proof -
  have "x * N + m < y * N + n" if "x < y" "0 \<le> n" "m < N" for x y m n :: int
  proof -
    have "(x + 1) * N \<le> y * N" using that assms by (intro mult_right_mono) simp_all
    then show ?thesis using that by (simp add: algebra_simps)
  qed
  from this [of p q n m] this [of q p m n] show ?thesis
    using assms by (cases p q rule: linorder_cases) (simp_all add: sgn_if)
qed

lemma cmp_timespec_sgn:
  assumes "\<bar>tv_sec x\<bar> < 2 ^ 62" "0 \<le> tv_nsec x" "tv_nsec x < NANOSECOND"
    "\<bar>tv_sec y\<bar> < 2 ^ 62" "0 \<le> tv_nsec y" "tv_nsec y < NANOSECOND"
  shows "map_option sgn (cmp_timespec x y) =
    Some (sgn ((tv_sec x * NANOSECOND + tv_nsec x) - (tv_sec y * NANOSECOND + tv_nsec y)))"
proof -
  have l: "long (tv_sec x - tv_sec y) = Some (tv_sec x - tv_sec y)"
    "long (tv_nsec x - tv_nsec y) = Some (tv_nsec x - tv_nsec y)"
    using assms by (auto simp: long_in NANOSECOND_def)
  show ?thesis
    unfolding sgn_lex [OF assms(2,3,5,6)] cmp_timespec_def l by simp
qed

text \<open>\<open>HX_time_compare\<close> orders files by the chosen time: where the nanoseconds of a file time count forward
  from its seconds, as they do in \<^verbatim>\<open>struct stat\<close>, the sign of the result is that of the difference of the
  chosen times, and any other letter makes all files equal.\<close>

definition file_time :: "times3 \<Rightarrow> char \<Rightarrow> timespec" where
  "file_time a sel = (if sel = CHR ''m'' then st_mtim a else if sel = CHR ''a'' then st_atim a else st_ctim a)"

theorem HX_time_compare_order:
  assumes "\<forall>c \<in> {a, b}. \<bar>tv_sec (file_time c sel)\<bar> < 2 ^ 62 \<and> 0 \<le> tv_nsec (file_time c sel) \<and>
    tv_nsec (file_time c sel) < NANOSECOND"
  shows "map_option sgn (HX_time_compare a b sel) = Some (if sel \<in> set ''mac'' then
    sgn ((tv_sec (file_time a sel) * NANOSECOND + tv_nsec (file_time a sel)) -
         (tv_sec (file_time b sel) * NANOSECOND + tv_nsec (file_time b sel))) else 0)"
proof -
  have c: "map_option sgn (cmp_timespec (file_time a sel) (file_time b sel)) =
      Some (sgn ((tv_sec (file_time a sel) * NANOSECOND + tv_nsec (file_time a sel)) -
         (tv_sec (file_time b sel) * NANOSECOND + tv_nsec (file_time b sel))))"
    using assms by (intro cmp_timespec_sgn) blast+
  have "HX_time_compare a b sel =
      (if sel \<in> set ''mac'' then cmp_timespec (file_time a sel) (file_time b sel) else Some 0)"
    unfolding HX_time_compare_def file_time_def by simp
  then show ?thesis using c by (cases "sel \<in> set ''mac''") simp_all
qed

lemma HX_time_compare_order_witness:
  "map_option sgn (HX_time_compare
     \<lparr>st_mtim = \<lparr>tv_sec = 7, tv_nsec = 5\<rparr>, st_atim = \<lparr>tv_sec = 0, tv_nsec = 0\<rparr>, st_ctim = \<lparr>tv_sec = 0, tv_nsec = 0\<rparr>\<rparr>
     \<lparr>st_mtim = \<lparr>tv_sec = 7, tv_nsec = 9\<rparr>, st_atim = \<lparr>tv_sec = 0, tv_nsec = 0\<rparr>, st_ctim = \<lparr>tv_sec = 0, tv_nsec = 0\<rparr>\<rparr>
     (CHR ''m'')) = Some (-1)"
  by (subst HX_time_compare_order) (simp_all add: file_time_def NANOSECOND_def)

end
