(* ===== verification/HX_Misc.thy ===== *)
theory HX_Misc
  imports HX_Num
begin

text \<open>
  The small functions of \<^verbatim>\<open>src/misc.c\<close> and \<^verbatim>\<open>src/rand.c\<close>: bit positions, hex dumps, vectors of strings, remainders,
  and the random numbers with the count of the library's users. What is printed is a text; the terminal, the clocks,
  the identifiers of the process, \<^verbatim>\<open>rand()\<close> and the arithmetic on \<^verbatim>\<open>double\<close> are parameters.
\<close>

unbundle bit_operations_syntax

section \<open>Bits\<close>

lemma unat_half: "unat (drop_bit 1 n) = unat n div 2" for n :: u64
  by (simp add: drop_bit_eq_div unat_div_distrib)

function ffs_loop :: "u64 \<Rightarrow> int \<Rightarrow> int" where
  "ffs_loop n s = (let n = drop_bit 1 n in if n = 0 then s else ffs_loop n (s + 1))"
  by pat_completeness auto
termination
proof (relation "measure (\<lambda>(n, s). unat n)")
  fix n m :: u64 and s :: int
  assume "m = drop_bit 1 n" "m \<noteq> 0"
  then have "unat m = unat n div 2" "unat m \<noteq> 0" using unat_half [of n] by (simp_all only:) (metis unat_eq_0)
  then show "((m, s + 1), (n, s)) \<in> measure (\<lambda>(n, s). unat n)" by simp
qed simp

declare ffs_loop.simps [simp del]

definition HX_ffs :: "u64 \<Rightarrow> int" where
  "HX_ffs n = (if n = 0 then - 1 else ffs_loop n 0)"

text \<open>\<^verbatim>\<open>1 << i\<close> is an \<^verbatim>\<open>int\<close> that is extended to 64 bits with its sign.\<close>

definition fls_mask :: "nat \<Rightarrow> u64" where
  "fls_mask i = scast (push_bit i 1 :: u32)"

primrec fls_loop :: "u64 \<Rightarrow> nat \<Rightarrow> int" where
  "fls_loop n 0 = - 1"
| "fls_loop n (Suc i) = (if n AND fls_mask i \<noteq> 0 then int i else fls_loop n i)"

definition HX_fls :: "u64 \<Rightarrow> int" where
  "HX_fls n = fls_loop n 32"

section \<open>Hex dumps\<close>

definition hexdigit :: "nat \<Rightarrow> char" where
  "hexdigit d = (if d < 10 then char_of (48 + d) else char_of (87 + d))"

text \<open>\<^verbatim>\<open>%02x\<close> of a byte, and \<^verbatim>\<open>%04zx\<close>.\<close>

definition hex_byte :: "u8 \<Rightarrow> char list" where
  "hex_byte b = [hexdigit (unat b div 16), hexdigit (unat b mod 16)]"

fun hex_digits :: "nat \<Rightarrow> char list" where
  "hex_digits n = (if n < 16 then [hexdigit n] else hex_digits (n div 16) @ [hexdigit (n mod 16)])"

declare hex_digits.simps [simp del]

definition hex4 :: "nat \<Rightarrow> char list" where
  "hex4 n = (let d = hex_digits n in replicate (4 - length d) CHR ''0'' @ d)"

definition isprint_byte :: "u8 \<Rightarrow> bool" where
  "isprint_byte b \<longleftrightarrow> 32 \<le> unat b \<and> unat b < 127"

definition esc :: "char list \<Rightarrow> char list \<Rightarrow> char list" where
  "esc color s = CHR 0x1B # ''['' @ color @ ''m'' @ s @ CHR 0x1B # ''[0m''"

definition hexdump_ascii :: "u8 \<Rightarrow> bool \<Rightarrow> char list" where
  "hexdump_ascii c tty =
     (if isprint_byte c then [char_of (unat c)]
      else if tty \<and> c = 0 then esc ''34'' ''@''
      else if tty \<and> unat c < 32 then esc ''31'' [char_of (64 + unat c)]
      else if tty then esc ''34'' ''.''
      else ''.'')"

definition hex_cell :: "nat \<Rightarrow> u8 \<Rightarrow> char list" where
  "hex_cell j b = hex_byte b @ (if j = 7 then ''-'' else '' '')"

text \<open>One line of \<open>n\<close> bytes at \<open>base\<close>; \<open>pad\<close> holds for the last one.\<close>

definition hex_row :: "u8 list \<Rightarrow> bool \<Rightarrow> nat \<Rightarrow> nat \<Rightarrow> char list option" where
  "hex_row q tty base n = do {
     bs \<leftarrow> rdn q base n;
     Some (hex4 base @ '' | '' @ concat (map2 hex_cell [0..<n] bs) @ concat (replicate (16 - n) ''   '') @ ''| '' @
       concat (map (\<lambda>c. hexdump_ascii c tty) bs) @ [CHR 0x0A])
   }"

fun hex_rows :: "u8 list \<Rightarrow> bool \<Rightarrow> nat \<Rightarrow> nat \<Rightarrow> char list option" where
  "hex_rows q tty i 0 = Some []"
| "hex_rows q tty i (Suc k) = do {
     r \<leftarrow> hex_row q tty (i * 16) 16;
     rs \<leftarrow> hex_rows q tty (i + 1) k;
     Some (r @ rs)
   }"

definition HX_hexdump :: "u8 list \<Rightarrow> nat \<Rightarrow> bool \<Rightarrow> char list option" where
  "HX_hexdump q len tty = do {
     rs \<leftarrow> hex_rows q tty 0 (len div 16);
     r \<leftarrow> hex_row q tty (len div 16 * 16) (len - len div 16 * 16);
     Some (''Dumping '' @ udec len @ '' bytes'' @ [CHR 0x0A] @ rs @ r)
   }"

section \<open>Vectors of strings\<close>

text \<open>The vector as the list of its pointers; \<open>None\<close> as a result is a vector without terminator. \<open>Inl\<close> is a string and
  \<open>Inr ()\<close> the vector itself.\<close>

fun zvec_strings :: "ptr list \<Rightarrow> addr list option" where
  "zvec_strings [] = None"
| "zvec_strings (None # ps) = Some []"
| "zvec_strings (Some a # ps) = map_option ((#) a) (zvec_strings ps)"

definition HX_zvecfree :: "ptr list option \<Rightarrow> (addr + unit) list option" where
  "HX_zvecfree args = (case args of None \<Rightarrow> Some []
    | Some ps \<Rightarrow> map_option (\<lambda>as. map Inl as @ [Inr ()]) (zvec_strings ps))"

definition HX_zveclen :: "ptr list \<Rightarrow> u32 option" where
  "HX_zveclen ps = map_option (\<lambda>as. of_nat (length as)) (zvec_strings ps)"

section \<open>Remainders\<close>

text \<open>Both for \<^verbatim>\<open>float\<close> and for \<^verbatim>\<open>double\<close>.\<close>

definition HX_flpr :: "('a \<Rightarrow> 'a \<Rightarrow> 'a :: {zero, plus, linorder}) \<Rightarrow> 'a \<Rightarrow> 'a \<Rightarrow> 'a" where
  "HX_flpr fmod x y = (let r = fmod x y in if r < 0 then r + y else r)"

section \<open>Random numbers\<close>

record sys_ids =
  id_real :: "u64 \<times> u64"
  id_mono :: "u64 \<times> u64"
  id_pid :: u32
  id_ppid :: u32
  id_euid :: u32
  id_egid :: u32

text \<open>The identifiers are shifted as 32-bit numbers, \<^verbatim>\<open>pid_t\<close> being signed.\<close>

definition HXrand_obtain_seed :: "sys_ids \<Rightarrow> u32" where
  "HXrand_obtain_seed i =
     (let s = fst (id_real i);
          s = s XOR NOT (snd (id_real i));
          s = s XOR fst (id_mono i);
          s = s XOR NOT (snd (id_mono i));
          s = s XOR scast (push_bit 9 (id_pid i));
          s = s XOR scast (push_bit 1 (id_ppid i));
          s = s XOR ucast (push_bit 13 (id_euid i));
          s = s XOR ucast (push_bit 5 (id_egid i))
      in ucast s)"

text \<open>\<open>urandom\<close> is what was read from the device, \<open>None\<close> unless it was four bytes. The state holds the number of users
  and the seeds given to \<^verbatim>\<open>srand\<close> so far.\<close>

record rand_state =
  use_count :: u64
  seeds :: "u32 list"

definition HXrand_init :: "u32 option \<Rightarrow> sys_ids \<Rightarrow> rand_state \<Rightarrow> rand_state" where
  "HXrand_init urandom i st =
     st\<lparr>seeds := seeds st @ [case urandom of Some s \<Rightarrow> s | None \<Rightarrow> HXrand_obtain_seed i]\<rparr>"

definition HX_init :: "u32 option \<Rightarrow> sys_ids \<Rightarrow> rand_state \<Rightarrow> int \<times> rand_state" where
  "HX_init urandom i st =
     (let st = (if use_count st = 0 then HXrand_init urandom i st else st) in
      (1, st\<lparr>use_count := use_count st + 1\<rparr>))"

text \<open>The flag tells of the message that the count is already zero.\<close>

definition HX_exit :: "rand_state \<Rightarrow> bool \<times> rand_state" where
  "HX_exit st = (if use_count st = 0 then (True, st) else (False, st\<lparr>use_count := use_count st - 1\<rparr>))"

definition RAND_MAX :: u32 where "RAND_MAX = 0x7FFFFFFF"

text \<open>\<open>r\<close> is the result of \<^verbatim>\<open>rand()\<close>, and \<open>scale\<close> computes \<^verbatim>\<open>r * delta / RAND_MAX\<close> in \<^verbatim>\<open>double\<close>.\<close>

definition HX_irand :: "(u32 \<Rightarrow> u32 \<Rightarrow> u32) \<Rightarrow> u32 \<Rightarrow> u32 \<Rightarrow> u32 \<Rightarrow> u32" where
  "HX_irand scale r lo hi =
     (let delta = hi - lo in
      if delta = 0 then lo
      else if delta \<le> RAND_MAX then r mod delta + lo
      else scale r delta + lo)"

definition HX_drand :: "('d \<Rightarrow> u32 \<Rightarrow> 'd \<Rightarrow> 'd) \<Rightarrow> ('d \<Rightarrow> 'd \<Rightarrow> 'd) \<Rightarrow> u32 \<Rightarrow> 'd \<Rightarrow> 'd \<Rightarrow> 'd" where
  "HX_drand scale dsub r lo hi = scale (dsub hi lo) r lo"

section \<open>Laws\<close>

lemma ffs_loop_log:
  "n \<noteq> 0 \<Longrightarrow> \<exists>k. ffs_loop n s = s + int k \<and> 2 ^ k \<le> unat n \<and> unat n < 2 ^ Suc k"
proof (induction n s rule: ffs_loop.induct)
  case (1 n s)
  have d: "unat (drop_bit 1 n) = unat n div 2" by (rule unat_half)
  show ?case
  proof (cases "drop_bit 1 n = 0")
    case True
    then have "unat n div 2 = 0" using d by simp
    moreover have "unat n \<noteq> 0" using 1(2) by (simp add: unat_eq_0)
    ultimately have "unat n = 1" by linarith
    then show ?thesis using True by (intro exI [of _ 0]) (simp add: ffs_loop.simps [of n])
  next
    case False
    then obtain k where k: "ffs_loop (drop_bit 1 n) (s + 1) = s + 1 + int k" "2 ^ k \<le> unat n div 2" "unat n div 2 < 2 ^ Suc k"
      using 1(1) [OF refl False False] d by auto
    have "2 ^ Suc k \<le> unat n" "unat n < 2 ^ Suc (Suc k)" using k(2,3) by auto
    then show ?thesis using k(1) False by (intro exI [of _ "Suc k"]) (simp add: ffs_loop.simps [of n])
  qed
qed

lemma bit_fls_mask: "i < 32 \<Longrightarrow> bit (fls_mask i) j \<longleftrightarrow> j < 64 \<and> (if i = 31 then 31 \<le> j else j = i)"
  unfolding fls_mask_def bit_signed_iff bit_push_bit_iff by (auto simp: min_def bit_1_iff)

lemma and_fls_mask: "i < 32 \<Longrightarrow> n AND fls_mask i \<noteq> 0 \<longleftrightarrow> (if i = 31 then \<exists>j \<ge> 31. bit n j else bit n i)"
proof -
  assume i: "i < 32"
  have "n AND fls_mask i \<noteq> 0 \<longleftrightarrow> (\<exists>j. bit n j \<and> bit (fls_mask i) j)"
  proof -
    have "bit n j \<Longrightarrow> j < 64" for j using bit_imp_le_length [of n j] by simp
    then show ?thesis by (simp add: bit_eq_iff bit_and_iff) blast
  qed
  also have "\<dots> \<longleftrightarrow> (\<exists>j. bit n j \<and> (if i = 31 then 31 \<le> j else j = i))"
    unfolding bit_fls_mask [OF i] using bit_imp_le_length [of n] by fastforce
  finally show ?thesis by auto
qed

lemma fls_loop_top:
  assumes "bit n k" "\<forall>j > k. \<not> bit n j" "k < i" "i \<le> 31"
  shows "fls_loop n i = int k"
  using assms(3,4)
proof (induction i)
  case (Suc i)
  then show ?case using assms(1,2) by (cases "i = k") (simp_all add: and_fls_mask)
qed simp

lemma top_bit: "n \<noteq> 0 \<Longrightarrow> 2 ^ k \<le> unat n \<Longrightarrow> unat n < 2 ^ Suc k \<Longrightarrow> bit n k \<and> (\<forall>j > k. \<not> bit n j)" for n :: u64
proof -
  assume n: "2 ^ k \<le> unat n" "unat n < 2 ^ Suc k"
  have b: "bit n j \<longleftrightarrow> odd (unat n div 2 ^ j)" for j
    using bit_unsigned_iff [of n j, where 'a = nat] bit_imp_le_length [of n j] by (auto simp: bit_iff_odd)
  have "unat n div 2 ^ k = 1" using n by (intro div_nat_eqI) simp_all
  moreover have "unat n div 2 ^ j = 0" if "k < j" for j
  proof -
    have "(2 :: nat) ^ Suc k \<le> 2 ^ j" using that by (intro power_increasing) simp_all
    then show ?thesis using n(2) by simp
  qed
  ultimately show ?thesis by (simp add: b)
qed

text \<open>\<open>HX_ffs\<close> and \<open>HX_fls\<close> both return the position of the highest bit that is set, but \<open>HX_fls\<close> never more than
  31, and -1 for 0; so \<open>HX_ffs\<close> does not find the lowest bit.\<close>

theorem HX_ffs_fls:
  "HX_ffs 0 = - 1 \<and> HX_fls 0 = - 1 \<and>
   (\<forall>n. n = 0 \<or> (\<exists>k. bit n k \<and> (\<forall>j. k < j \<longrightarrow> \<not> bit n j) \<and> HX_ffs n = int k \<and> HX_fls n = int (min 31 k)))"
proof (intro conjI allI)
  have "fls_loop 0 i = - 1" for i by (induction i) simp_all
  then show "HX_fls 0 = - 1" by (simp add: HX_fls_def)
  fix n :: u64
  show "n = 0 \<or> (\<exists>k. bit n k \<and> (\<forall>j. k < j \<longrightarrow> \<not> bit n j) \<and> HX_ffs n = int k \<and> HX_fls n = int (min 31 k))"
  proof (cases "n = 0")
    case False
    obtain k where k: "ffs_loop n 0 = int k" "2 ^ k \<le> unat n" "unat n < 2 ^ Suc k"
      using ffs_loop_log [OF False, of 0] by auto
    have b: "bit n k" "\<forall>j > k. \<not> bit n j" using top_bit [OF False k(2,3)] by auto
    have s: "HX_fls n = (if n AND fls_mask 31 \<noteq> 0 then 31 else fls_loop n 31)"
      unfolding HX_fls_def using fls_loop.simps(2) [of n 31] by simp
    have "HX_fls n = int (min 31 k)"
    proof (cases "31 \<le> k")
      case True
      then have "n AND fls_mask 31 \<noteq> 0" using b(1) by (simp only: and_fls_mask) auto
      then show ?thesis using True s by simp
    next
      case f: False
      have "\<not> (\<exists>j \<ge> 31. bit n j)" using b(2) f by auto
      then have "n AND fls_mask 31 = 0" using and_fls_mask [of 31 n] by auto
      then have "HX_fls n = fls_loop n 31" unfolding s by simp
      then show ?thesis using fls_loop_top [OF b, of 31] f by simp
    qed
    then show ?thesis using b k(1) False by (intro disjI2 exI [of _ k]) (simp add: HX_ffs_def)
  qed simp
qed (simp add: HX_ffs_def)

text \<open>\<open>HX_hexdump\<close> reads no byte behind the given length, and nothing else decides what it prints.\<close>

lemma hex_row_take: "base + n \<le> len \<Longrightarrow> len \<le> length q \<Longrightarrow>
    \<exists>x. hex_row q tty base n = Some x \<and> hex_row (take len q) tty base n = Some x"
  by (simp add: hex_row_def rdn_def drop_take min_def)

lemma hex_rows_take: "(i + k) * 16 \<le> len \<Longrightarrow> len \<le> length q \<Longrightarrow>
    \<exists>x. hex_rows q tty i k = Some x \<and> hex_rows (take len q) tty i k = Some x"
proof (induction k arbitrary: i)
  case (Suc k)
  have l: "i * 16 + 16 \<le> len" "(i + 1 + k) * 16 \<le> len" using Suc.prems(1) by simp_all
  from hex_row_take [OF l(1) Suc.prems(2), of tty] Suc.IH [OF l(2) Suc.prems(2)] show ?case by force
qed simp

theorem HX_hexdump_reads:
  assumes "len \<le> length q"
  shows "\<exists>out. HX_hexdump q len tty = Some out \<and> HX_hexdump (take len q) len tty = Some out"
proof -
  have "\<exists>x. hex_rows q tty 0 (len div 16) = Some x \<and> hex_rows (take len q) tty 0 (len div 16) = Some x"
    by (rule hex_rows_take [OF _ assms]) simp
  moreover have "\<exists>x. hex_row q tty (len div 16 * 16) (len - len div 16 * 16) = Some x \<and>
      hex_row (take len q) tty (len div 16 * 16) (len - len div 16 * 16) = Some x"
    by (rule hex_row_take [OF _ assms]) simp
  ultimately show ?thesis unfolding HX_hexdump_def by force
qed

text \<open>\<open>HX_irand\<close> stays in its half-open interval as long as that is not longer than \<^verbatim>\<open>RAND_MAX\<close>.\<close>

theorem HX_irand_range:
  assumes "lo < hi" "hi - lo \<le> RAND_MAX"
  shows "lo \<le> HX_irand scale r lo hi \<and> HX_irand scale r lo hi < hi"
proof -
  have d: "hi - lo \<noteq> 0" using assms(1) by auto
  have u: "unat (hi - lo) = unat hi - unat lo" using assms(1) by (simp add: unat_sub less_imp_le)
  have m: "unat (r mod (hi - lo)) < unat hi - unat lo"
    using u d by (metis mod_less_divisor unat_mod unat_gt_0)
  have h: "unat hi < 2 ^ 32" using unat_bound [of hi] by simp
  have "unat (r mod (hi - lo)) + unat lo < 2 ^ 32" using m h by linarith
  then have "unat (r mod (hi - lo) + lo) = unat (r mod (hi - lo)) + unat lo"
    by (simp add: unat_plus_if')
  then show ?thesis using m d assms(2) by (simp add: HX_irand_def word_le_nat_alt word_less_nat_alt)
qed

text \<open>The random generator is seeded by the first of any number of users, and none are left when as many have gone.\<close>

lemma init_step: "use_count st \<noteq> 0 \<Longrightarrow> (snd \<circ> HX_init u i) st = st\<lparr>use_count := use_count st + 1\<rparr>"
  by (simp add: HX_init_def)

lemma init_many:
  assumes "use_count st = 0" "n < 2 ^ 64" "0 < n"
  shows "\<exists>s. ((snd \<circ> HX_init u i) ^^ n) st = st\<lparr>use_count := of_nat n, seeds := seeds st @ [s]\<rparr>"
  using assms(2,3)
proof (induction n)
  case (Suc n)
  show ?case
  proof (cases "n = 0")
    case True
    then show ?thesis using assms(1)
      by (intro exI [of _ "case u of Some s \<Rightarrow> s | None \<Rightarrow> HXrand_obtain_seed i"]) (cases st, simp add: HX_init_def HXrand_init_def)
  next
    case False
    have l: "n < 2 ^ 64" "0 < n" using Suc.prems(1) False by simp_all
    obtain s where s: "((snd \<circ> HX_init u i) ^^ n) st = st\<lparr>use_count := of_nat n, seeds := seeds st @ [s]\<rparr>"
      using Suc.IH [OF l] by blast
    have "(of_nat n :: u64) \<noteq> 0" using False Suc.prems(1) by (simp add: word_of_nat_eq_0_iff nat_dvd_not_less)
    then have "(snd \<circ> HX_init u i) (st\<lparr>use_count := of_nat n, seeds := seeds st @ [s]\<rparr>) =
        st\<lparr>use_count := of_nat (Suc n), seeds := seeds st @ [s]\<rparr>"
      by (subst init_step) (simp_all add: add.commute)
    then show ?thesis unfolding funpow.simps(2) comp_apply [of "snd \<circ> HX_init u i"] s by blast
  qed
qed simp

lemma exit_many: "k \<le> n \<Longrightarrow> n < 2 ^ 64 \<Longrightarrow> use_count st = of_nat n \<Longrightarrow> ((snd \<circ> HX_exit) ^^ k) st = st\<lparr>use_count := of_nat (n - k)\<rparr>"
proof (induction k)
  case (Suc k)
  obtain m where m: "n - k = Suc m" "n - Suc k = m" using Suc.prems(1) by (cases "n - k") auto
  have "(of_nat (Suc m) :: u64) \<noteq> 0"
    using m(1) Suc.prems(2) by (simp only: word_of_nat_eq_0_iff) (simp add: nat_dvd_not_less)
  then show ?case using Suc m by (simp add: HX_exit_def)
qed simp

theorem HX_init_exit:
  assumes "use_count st = 0" "n < 2 ^ 64" "0 < n"
  shows "\<exists>s. ((snd \<circ> HX_exit) ^^ n) (((snd \<circ> HX_init u i) ^^ n) st) = st\<lparr>seeds := seeds st @ [s]\<rparr>"
proof -
  obtain s where s: "((snd \<circ> HX_init u i) ^^ n) st = st\<lparr>use_count := of_nat n, seeds := seeds st @ [s]\<rparr>"
    using init_many [OF assms] by blast
  have "((snd \<circ> HX_exit) ^^ n) (((snd \<circ> HX_init u i) ^^ n) st) = st\<lparr>use_count := 0, seeds := seeds st @ [s]\<rparr>"
    unfolding s using exit_many [OF le_refl assms(2), of "st\<lparr>use_count := of_nat n, seeds := seeds st @ [s]\<rparr>"] by simp
  then show ?thesis using assms(1) by (intro exI [of _ s]) (cases st, simp)
qed

end
