(* ===== verification/HX_Realpath.thy ===== *)
theory HX_Realpath
  imports HX_Cstring HX_Num
begin

text \<open>
  Paths of \<^verbatim>\<open>src/io.c\<close>: reading symbolic links and the working directory into buffers that grow, and
  \<open>HX_realpath\<close>. The file system is a parameter: \<open>lnk p\<close> is the answer of \<^verbatim>\<open>readlink\<close> for the path \<open>p\<close>, the
  target or an error, \<^verbatim>\<open>EINVAL\<close> being that of a path that is no symbolic link; \<open>cwd\<close> is the working directory.
  Containers are the texts they hold and allocations succeed. A result \<open>None\<close> is a read in front of a buffer.
\<close>

unbundle bit_operations_syntax

section \<open>Growing buffers\<close>

definition SIZE_MAX :: nat where "SIZE_MAX = 2 ^ 64 - 1"

text \<open>\<^verbatim>\<open>readlink\<close> cuts the target off at the size it is given; \<open>old\<close> is the length of the caller's buffer. (The buffers start with
  128 bytes, so that the test for an empty one, which makes the recursion end, is never met.)\<close>

function readlink_loop :: "char list \<Rightarrow> nat \<Rightarrow> errno + char list" where
  "readlink_loop target sz =
     (let ret = min (length target) sz in
      if ret < sz then Inr (take ret target)
      else if SIZE_MAX div 2 < sz then Inl E2BIG
      else if sz = 0 then Inl E2BIG
      else readlink_loop target (sz * 2))"
  by pat_completeness auto
termination
  by (relation "measure (\<lambda>(target, sz). SIZE_MAX - sz)") (auto simp: SIZE_MAX_def)

declare readlink_loop.simps [simp del]

definition HX_readlink :: "(char list \<Rightarrow> errno + char list) \<Rightarrow> nat option \<Rightarrow> char list \<Rightarrow> errno + char list" where
  "HX_readlink lnk old path =
     (let sz = (case old of None \<Rightarrow> 128 | Some n \<Rightarrow> max n 128) in
      case lnk path of Inl e \<Rightarrow> Inl e | Inr target \<Rightarrow> readlink_loop target sz)"

function getcwd_loop :: "char list \<Rightarrow> nat \<Rightarrow> errno + char list" where
  "getcwd_loop cwd sz =
     (if length cwd < sz then Inr cwd
      else if SIZE_MAX div 2 < sz then Inl E2BIG
      else if sz = 0 then Inl E2BIG
      else getcwd_loop cwd (sz * 2))"
  by pat_completeness auto
termination
  by (relation "measure (\<lambda>(cwd, sz). SIZE_MAX - sz)") (auto simp: SIZE_MAX_def)

declare getcwd_loop.simps [simp del]

definition HX_getcwd :: "errno + char list \<Rightarrow> nat option \<Rightarrow> errno + char list" where
  "HX_getcwd cwd old =
     (let sz = (case old of None \<Rightarrow> 128 | Some n \<Rightarrow> max n 128) in
      case cwd of Inl e \<Rightarrow> Inl e | Inr d \<Rightarrow> getcwd_loop d sz)"

section \<open>HX_realpath\<close>

definition HX_REALPATH_ABSOLUTE :: u32 where "HX_REALPATH_ABSOLUTE = 1"
definition HX_REALPATH_SELF :: u32 where "HX_REALPATH_SELF = 2"
definition HX_REALPATH_PARENT :: u32 where "HX_REALPATH_PARENT = 4"
definition HX_REALPATH_DEFAULT :: u32 where "HX_REALPATH_DEFAULT = HX_REALPATH_SELF OR HX_REALPATH_PARENT"

abbreviation SL :: char where "SL \<equiv> CHR ''/''"
abbreviation DOT :: char where "DOT \<equiv> CHR ''.''"

text \<open>\<open>dest\<close> up to its last slash: for a parent directory, where the search stops at the start of the buffer, and for a
  link, where it does not.\<close>

definition cut_last :: "char list \<Rightarrow> char list" where
  "cut_last dest = rev (drop 1 (dropWhile (\<lambda>c. c \<noteq> SL) (rev dest)))"

text \<open>The result for the path that is \<open>dest\<close>, with the new \<open>dest\<close> and rest of the path, and the counter.\<close>

definition HX_realpath_symres :: "(char list \<Rightarrow> errno + char list) \<Rightarrow> char list \<Rightarrow> char list \<Rightarrow> nat \<Rightarrow>
    ((errno + char list \<times> char list) \<times> nat) option" where
  "HX_realpath_symres lnk dest path count =
     (case HX_readlink lnk None dest of
        Inl e \<Rightarrow> Some (Inl e, count)
      | Inr target \<Rightarrow>
          if 40 \<le> count then Some (Inl ELOOP, count + 1)
          else if at0 target = SL then Some (Inr ([], target @ path), count + 1)
          else if SL \<in> set dest then Some (Inr (cut_last dest, target @ path), count + 1)
          else None)"

lemma symres_count: "HX_realpath_symres lnk dest path count = Some (Inr r, c) \<Longrightarrow> count < 40 \<and> c = count + 1"
  by (auto simp: HX_realpath_symres_def split: sum.splits if_splits)

text \<open>A component of one or two dots at the start of a path.\<close>

definition is_self :: "char list \<Rightarrow> bool" where
  "is_self path \<longleftrightarrow> at0 path = DOT \<and> at0 (drop 1 path) \<in> {SL, NUL}"

definition is_parent :: "char list \<Rightarrow> bool" where
  "is_parent path \<longleftrightarrow> at0 path = DOT \<and> at0 (drop 1 path) = DOT \<and> at0 (drop 2 path) \<in> {SL, NUL}"

function realpath_loop :: "(char list \<Rightarrow> errno + char list) \<Rightarrow> u32 \<Rightarrow> char list \<Rightarrow> bool \<Rightarrow> char list \<Rightarrow> nat \<Rightarrow> (errno + char list) option" where
  "realpath_loop lnk flags path rq dest count =
     (if path = [] then Some (Inr dest)
      else if at0 path = SL then realpath_loop lnk flags (drop 1 path) rq dest count
      else if is_self path \<and> flags AND HX_REALPATH_SELF \<noteq> 0 then realpath_loop lnk flags (drop 1 path) rq dest count
      else if is_parent path \<and> flags AND HX_REALPATH_PARENT \<noteq> 0 \<and> (flags AND HX_REALPATH_ABSOLUTE \<noteq> 0 \<or> dest \<noteq> []) then
        realpath_loop lnk flags (drop 2 path) rq (cut_last dest) count
      else
        let dest' = dest @ (if rq then [SL] else []) @ takeWhile (\<lambda>c. c \<noteq> SL) path;
            path' = dropWhile (\<lambda>c. c \<noteq> SL) path
        in case HX_realpath_symres lnk dest' path' count of
             None \<Rightarrow> None
           | Some (Inl e, c) \<Rightarrow> if e = EINVAL then realpath_loop lnk flags path' True dest' c else Some (Inl e)
           | Some (Inr (d, p), c) \<Rightarrow> realpath_loop lnk flags p True d c)"
  by pat_completeness auto
termination
proof (relation "measures [\<lambda>(lnk, flags, path, rq, dest, count). 40 - count, \<lambda>(lnk, flags, path, rq, dest, count). length path]", goal_cases)
  case (5 lnk flags path rq dest count dest' path' x r c e)
  have "length path' < length path" using 5(1,2,6) by (cases path) (auto simp: le_imp_less_Suc length_dropWhile_le)
  moreover have "c = count" using 5 by (auto simp: HX_realpath_symres_def split: sum.splits if_splits)
  ultimately show ?case by simp
next
  case (6 lnk flags path rq dest count dest' path' x r c dp d p)
  then show ?case using symres_count by fastforce
qed auto

declare realpath_loop.simps [simp del]

text \<open>\<open>dest\<close> is the text of the caller's container, \<open>None\<close> for \<^verbatim>\<open>NULL\<close>. The text is not emptied.\<close>

definition HX_realpath :: "(char list \<Rightarrow> errno + char list) \<Rightarrow> errno + char list \<Rightarrow> u32 \<Rightarrow> char list option \<Rightarrow> char list \<Rightarrow> (errno + char list) option" where
  "HX_realpath lnk cwd flags dest path =
     (let dest = (case dest of None \<Rightarrow> [] | Some d \<Rightarrow> d);
          start = (if at0 path = SL then Inr (True, dest)
            else if flags AND HX_REALPATH_ABSOLUTE \<noteq> 0 then
              (case HX_getcwd cwd (Some (length dest)) of Inl e \<Rightarrow> Inl e | Inr d \<Rightarrow> Inr (True, d))
            else Inr (False, dest))
      in case start of
           Inl e \<Rightarrow> Some (Inl e)
         | Inr (rq, dest) \<Rightarrow>
             map_option (\<lambda>r. case r of Inl e \<Rightarrow> Inl e
               | Inr d \<Rightarrow> Inr (if d = [] then (if at0 path = SL then ''/'' else ''.'') else d))
               (realpath_loop lnk flags path rq dest 0))"

section \<open>Components\<close>

text \<open>An absolute path as the list of its components.\<close>

definition abs_path :: "char list list \<Rightarrow> char list" where
  "abs_path st = concat (map ((#) SL) st)"

definition is_comp :: "char list \<Rightarrow> bool" where
  "is_comp c \<longleftrightarrow> c \<noteq> [] \<and> SL \<notin> set c"

lemma abs_path_snoc [simp]: "abs_path (st @ [c]) = abs_path st @ SL # c"
  by (simp add: abs_path_def)

lemma abs_path_simps [simp]: "abs_path [] = []" "abs_path (c # st) = SL # c @ abs_path st"
  by (simp_all add: abs_path_def)

lemma abs_path_Nil [simp]: "abs_path st = [] \<longleftrightarrow> st = []"
  by (cases st) simp_all

lemma cut_last_snoc: "SL \<notin> set c \<Longrightarrow> cut_last (d @ SL # c) = d"
proof -
  assume c: "SL \<notin> set c"
  have "dropWhile (\<lambda>c. c \<noteq> SL) (rev c @ SL # rev d) = SL # rev d"
    by (rule dropWhile_append_stop) (use c in auto)
  then show ?thesis by (simp add: cut_last_def)
qed

lemma cut_last_abs: "\<forall>c \<in> set st. is_comp c \<Longrightarrow> cut_last (abs_path st) = abs_path (butlast st)"
  by (cases st rule: rev_cases) (auto simp: cut_last_snoc is_comp_def cut_last_def [of "[]"])

lemma comp_of_path: "path \<noteq> [] \<Longrightarrow> at0 path \<noteq> SL \<Longrightarrow> is_comp (takeWhile (\<lambda>c. c \<noteq> SL) path)"
  by (cases path) (auto simp: is_comp_def dest: set_takeWhileD)

lemma not_self: "\<not> is_self path \<Longrightarrow> takeWhile (\<lambda>c. c \<noteq> SL) path \<noteq> ''.''"
proof
  assume s: "\<not> is_self path" "takeWhile (\<lambda>c. c \<noteq> SL) path = ''.''"
  obtain r where r: "dropWhile (\<lambda>c. c \<noteq> SL) path = r" "r = [] \<or> hd r = SL"
    using hd_dropWhile [of "\<lambda>c. c \<noteq> SL" path] by auto
  have "path = ''.'' @ r" using s(2) r(1) takeWhile_dropWhile_id [of "\<lambda>c. c \<noteq> SL" path] by simp
  then show False using s(1) r(2) by (cases r) (auto simp: is_self_def)
qed

lemma not_parent: "\<not> is_parent path \<Longrightarrow> takeWhile (\<lambda>c. c \<noteq> SL) path \<noteq> ''..''"
proof
  assume s: "\<not> is_parent path" "takeWhile (\<lambda>c. c \<noteq> SL) path = ''..''"
  obtain r where r: "dropWhile (\<lambda>c. c \<noteq> SL) path = r" "r = [] \<or> hd r = SL"
    using hd_dropWhile [of "\<lambda>c. c \<noteq> SL" path] by auto
  have "path = ''..'' @ r" using s(2) r(1) takeWhile_dropWhile_id [of "\<lambda>c. c \<noteq> SL" path] by simp
  then show False using s(1) r(2) by (cases r) (auto simp: is_parent_def)
qed

section \<open>Canonical paths\<close>

text \<open>No component is empty or made of one or two dots, and no prefix is a symbolic link.\<close>

definition canonical :: "(char list \<Rightarrow> errno + char list) \<Rightarrow> char list list \<Rightarrow> bool" where
  "canonical lnk st \<longleftrightarrow> (\<forall>c \<in> set st. is_comp c \<and> c \<noteq> ''.'' \<and> c \<noteq> ''..'') \<and>
     (\<forall>k. 0 < k \<and> k \<le> length st \<longrightarrow> HX_readlink lnk None (abs_path (take k st)) = Inl EINVAL)"

lemma canonical_Nil [simp]: "canonical lnk []"
  by (simp add: canonical_def)

lemma canonicalD:
  assumes "canonical lnk st"
  shows "c \<in> set st \<Longrightarrow> is_comp c \<and> c \<noteq> ''.'' \<and> c \<noteq> ''..''"
    and "0 < k \<Longrightarrow> k \<le> length st \<Longrightarrow> HX_readlink lnk None (abs_path (take k st)) = Inl EINVAL"
  using assms unfolding canonical_def by blast+

lemma canonical_butlast:
  assumes "canonical lnk st"
  shows "canonical lnk (butlast st)"
  unfolding canonical_def
proof (intro conjI ballI allI impI, goal_cases)
  case (4 k)
  then have k: "k < length st" "k \<le> length st" by auto
  then have "take k (butlast st) = take k st" by (simp add: take_butlast)
  then show ?case using canonicalD(2) [OF assms, of k] 4 k by (simp only:)
qed (use canonicalD(1) [OF assms] in \<open>auto dest: in_set_butlastD\<close>)

lemma canonical_snoc:
  assumes "canonical lnk st" "is_comp c" "c \<noteq> ''.''" "c \<noteq> ''..''" "HX_readlink lnk None (abs_path (st @ [c])) = Inl EINVAL"
  shows "canonical lnk (st @ [c])"
  unfolding canonical_def
proof (intro conjI ballI allI impI, goal_cases)
  case (4 k)
  show ?case
  proof (cases "k = length st + 1")
    case True
    then have "take k (st @ [c]) = st @ [c]" by simp
    then show ?thesis using assms(5) by (simp only:)
  next
    case False
    then have "take k (st @ [c]) = take k st" "k \<le> length st" using 4 by simp_all
    then show ?thesis using canonicalD(2) [OF assms(1), of k] 4 by (simp only:)
  qed
qed (use canonicalD(1) [OF assms(1)] assms(2-4) in auto)

lemma cut_last_comp: "canonical lnk st \<Longrightarrow> cut_last (abs_path st) = abs_path (butlast st)"
  by (rule cut_last_abs) (use canonicalD(1) in blast)

lemma loop_canonical:
  assumes f: "flags AND HX_REALPATH_SELF \<noteq> 0" "flags AND HX_REALPATH_PARENT \<noteq> 0" "flags AND HX_REALPATH_ABSOLUTE \<noteq> 0"
    and c: "canonical lnk st"
  shows "\<exists>r. realpath_loop lnk flags path True (abs_path st) count = Some r \<and> (\<forall>d. r = Inr d \<longrightarrow> (\<exists>st'. canonical lnk st' \<and> d = abs_path st'))"
proof -
  have "\<lbrakk>flags AND HX_REALPATH_SELF \<noteq> 0; flags AND HX_REALPATH_PARENT \<noteq> 0; flags AND HX_REALPATH_ABSOLUTE \<noteq> 0; rq; dest = abs_path st; canonical lnk st\<rbrakk> \<Longrightarrow>
    \<exists>r. realpath_loop lnk flags path rq dest count = Some r \<and> (\<forall>d. r = Inr d \<longrightarrow> (\<exists>st'. canonical lnk st' \<and> d = abs_path st'))" for rq dest
  proof (induction lnk flags path rq dest count arbitrary: st rule: realpath_loop.induct)
    case (1 lnk flags path rq dest count)
    note F = "1.prems"(1-3) and st = "1.prems"(4-6)
    let ?c = "takeWhile (\<lambda>c. c \<noteq> SL) path" and ?p = "dropWhile (\<lambda>c. c \<noteq> SL) path"
    consider "path = []" | "path \<noteq> []" "at0 path = SL" | "path \<noteq> []" "at0 path \<noteq> SL" "is_self path"
      | "path \<noteq> []" "at0 path \<noteq> SL" "\<not> is_self path" "is_parent path" | "path \<noteq> []" "at0 path \<noteq> SL" "\<not> is_self path" "\<not> is_parent path" by blast
    then show ?case
    proof cases
      case 1
      then show ?thesis using st by (subst realpath_loop.simps) auto
    next
      case 2
      from "1.IH"(1) [OF 2 F st] show ?thesis using 2 by (subst realpath_loop.simps) simp
    next
      case 3
      from "1.IH"(2) [OF 3(1,2) conjI [OF 3(3) F(1)] F st] show ?thesis using 3 F by (subst realpath_loop.simps) simp
    next
      case 4
      have "cut_last dest = abs_path (butlast st)" using st(2) cut_last_comp [OF st(3)] by simp
      from "1.IH"(3) [OF 4(1,2) _ _ F st(1) this canonical_butlast [OF st(3)]] 4 F
      show ?thesis by (subst realpath_loop.simps) simp
    next
      case 5
      have co: "is_comp ?c" "?c \<noteq> ''.''" "?c \<noteq> ''..''" using comp_of_path not_self not_parent 5 by blast+
      define dest' where "dest' = dest @ (if rq then [SL] else []) @ ?c"
      have d: "dest' = abs_path (st @ [?c])" using st by (simp add: dest'_def)
      have g: "\<not> (is_self path \<and> flags AND HX_REALPATH_SELF \<noteq> 0)"
        "\<not> (is_parent path \<and> flags AND HX_REALPATH_PARENT \<noteq> 0 \<and> (flags AND HX_REALPATH_ABSOLUTE \<noteq> 0 \<or> dest \<noteq> []))"
        using 5 by simp_all
      have l: "realpath_loop lnk flags path rq dest count = (case HX_realpath_symres lnk dest' ?p count of
             None \<Rightarrow> None
           | Some (Inl e, c) \<Rightarrow> if e = EINVAL then realpath_loop lnk flags ?p True dest' c else Some (Inl e)
           | Some (Inr (d, p), c) \<Rightarrow> realpath_loop lnk flags p True d c)"
        by (subst realpath_loop.simps) (simp only: 5(1,2) g if_False Let_def dest'_def)
      note ih = "1.IH"(4) [OF 5(1,2) g dest'_def refl] and ih2 = "1.IH"(5) [OF 5(1,2) g dest'_def refl]
      show ?thesis
      proof (cases "HX_readlink lnk None dest'")
        case (Inl e)
        then have s: "HX_realpath_symres lnk dest' ?p count = Some (Inl e, count)" by (simp add: HX_realpath_symres_def)
        show ?thesis
        proof (cases "e = EINVAL")
          case True
          have "canonical lnk (st @ [?c])" using canonical_snoc [OF st(3) co] Inl True by (simp only: d)
          from ih [OF s refl refl True F TrueI d this] show ?thesis using l s True by simp
        next
          case False
          then show ?thesis using l s by simp
        qed
      next
        case (Inr t)
        show ?thesis
        proof (cases "40 \<le> count")
          case True
          then have "HX_realpath_symres lnk dest' ?p count = Some (Inl ELOOP, count + 1)" using Inr by (simp add: HX_realpath_symres_def)
          then show ?thesis using l by simp
        next
          case False
          have "SL \<in> set dest'" by (simp add: d)
          moreover have "cut_last dest' = abs_path st" using co(1) by (simp add: d cut_last_snoc is_comp_def)
          ultimately obtain st1 where s: "HX_realpath_symres lnk dest' ?p count = Some (Inr (abs_path st1, t @ ?p), count + 1)" "canonical lnk st1"
            using Inr False st(3) by (cases "at0 t = SL") (auto simp: HX_realpath_symres_def intro: that [of "[]"])
          from ih2 [OF s(1) refl refl refl F TrueI refl s(2)] show ?thesis using l s(1) by simp
        qed
      qed
    qed
  qed
  from this [OF f TrueI refl c] show ?thesis .
qed

lemma self_comp: "is_self path \<Longrightarrow> NUL \<notin> set path \<Longrightarrow>
    takeWhile (\<lambda>c. c \<noteq> SL) path = ''.'' \<and> dropWhile (\<lambda>c. c \<noteq> SL) path = drop 1 path \<and> path \<noteq> []"
  by (cases path; cases "tl path") (auto simp: is_self_def)

lemma parent_comp: "is_parent path \<Longrightarrow> NUL \<notin> set path \<Longrightarrow>
    takeWhile (\<lambda>c. c \<noteq> SL) path = ''..'' \<and> dropWhile (\<lambda>c. c \<noteq> SL) path = drop 2 path \<and> path \<noteq> []"
  by (cases path; cases "tl path"; cases "tl (tl path)") (auto simp: is_parent_def)

lemma loop_slash: "realpath_loop lnk flags (SL # p) rq dest count = realpath_loop lnk flags p rq dest count"
  by (subst realpath_loop.simps) simp

lemma loop_comp:
  assumes c: "is_comp c" "c \<noteq> ''.''" "c \<noteq> ''..''" "NUL \<notin> set (c @ p)" and p: "p = [] \<or> hd p = SL"
  shows "realpath_loop lnk flags (c @ p) rq dest count =
    (case HX_realpath_symres lnk (dest @ (if rq then [SL] else []) @ c) p count of
       None \<Rightarrow> None
     | Some (Inl e, n) \<Rightarrow> if e = EINVAL then realpath_loop lnk flags p True (dest @ (if rq then [SL] else []) @ c) n else Some (Inl e)
     | Some (Inr (d, q), n) \<Rightarrow> realpath_loop lnk flags q True d n)"
proof -
  obtain x xs where x: "c = x # xs" "x \<noteq> SL" using c(1) by (cases c) (auto simp: is_comp_def)
  have n: "c @ p \<noteq> []" "at0 (c @ p) \<noteq> SL" using x by simp_all
  have al: "\<forall>x \<in> set c. x \<noteq> SL" using c(1) by (auto simp: is_comp_def)
  have tw: "takeWhile (\<lambda>c. c \<noteq> SL) (c @ p) = c" "dropWhile (\<lambda>c. c \<noteq> SL) (c @ p) = p"
    using p takeWhile_append_stop [OF al, of SL "tl p"] dropWhile_append_stop [OF al, of SL "tl p"] al
    by (cases p; simp add: takeWhile_eq_all_conv dropWhile_eq_Nil_conv)+
  have "\<not> is_self (c @ p)" using self_comp [OF _ c(4)] c(2) unfolding tw by blast
  moreover have "\<not> is_parent (c @ p)" using parent_comp [OF _ c(4)] c(3) unfolding tw by blast
  ultimately have g: "\<not> (is_self (c @ p) \<and> flags AND HX_REALPATH_SELF \<noteq> 0)"
    "\<not> (is_parent (c @ p) \<and> flags AND HX_REALPATH_PARENT \<noteq> 0 \<and> (flags AND HX_REALPATH_ABSOLUTE \<noteq> 0 \<or> dest \<noteq> []))"
    by blast+
  show ?thesis by (subst realpath_loop.simps) (simp only: n g tw if_False Let_def)
qed

lemma abs_path_head: "abs_path st = [] \<or> hd (abs_path st) = SL"
  by (cases st) simp_all

lemma loop_idem:
  assumes "canonical lnk (st1 @ st2)" "NUL \<notin> set (abs_path st2)"
  shows "realpath_loop lnk flags (abs_path st2) True (abs_path st1) count = Some (Inr (abs_path (st1 @ st2)))"
  using assms
proof (induction st2 arbitrary: st1)
  case Nil
  then show ?case by (subst realpath_loop.simps) simp
next
  case (Cons c st2)
  have c: "is_comp c" "c \<noteq> ''.''" "c \<noteq> ''..''" using canonicalD(1) [OF Cons.prems(1), of c] by simp_all
  have n: "NUL \<notin> set (c @ abs_path st2)" using Cons.prems(2) by simp
  have "take (Suc (length st1)) (st1 @ c # st2) = st1 @ [c]" by simp
  then have "HX_readlink lnk None (abs_path (st1 @ [c])) = Inl EINVAL"
    using canonicalD(2) [OF Cons.prems(1), of "Suc (length st1)"] by (simp del: abs_path_snoc)
  then have s: "HX_realpath_symres lnk (abs_path st1 @ (if True then [SL] else []) @ c) (abs_path st2) count = Some (Inl EINVAL, count)"
    by (simp add: HX_realpath_symres_def)
  have "realpath_loop lnk flags (abs_path (c # st2)) True (abs_path st1) count =
      realpath_loop lnk flags (abs_path st2) True (abs_path (st1 @ [c])) count"
    using loop_comp [OF c n abs_path_head, of lnk flags True "abs_path st1" count] unfolding s by (simp add: loop_slash)
  then show ?case using Cons.IH [of "st1 @ [c]"] Cons.prems by simp
qed

section \<open>Normal forms\<close>

text \<open>The components of a path, and what one and two dots do to a list of components.\<close>

function comps :: "char list \<Rightarrow> char list list" where
  "comps path =
     (let s = dropWhile (\<lambda>c. c = SL) path in
      if s = [] then [] else takeWhile (\<lambda>c. c \<noteq> SL) s # comps (dropWhile (\<lambda>c. c \<noteq> SL) s))"
  by pat_completeness auto
termination
proof (relation "measure length")
  fix path s :: "char list"
  assume s: "s = dropWhile (\<lambda>c. c = SL) path" "s \<noteq> []"
  then have "hd s \<noteq> SL" using hd_dropWhile [of "\<lambda>c. c = SL" path] by simp
  then have "length (dropWhile (\<lambda>c. c \<noteq> SL) s) < length s"
    using s(2) by (cases s) (auto simp: le_imp_less_Suc length_dropWhile_le)
  moreover have "length s \<le> length path" unfolding s by (rule length_dropWhile_le)
  ultimately show "(dropWhile (\<lambda>c. c \<noteq> SL) s, path) \<in> measure length" by simp
qed simp

declare comps.simps [simp del]

fun norm_path :: "char list list \<Rightarrow> char list list \<Rightarrow> char list list" where
  "norm_path st [] = st"
| "norm_path st (c # cs) =
     norm_path (if c = ''.'' then st else if c = ''..'' then butlast st else st @ [c]) cs"

lemma comps_slash: "comps (SL # p) = comps p"
  by (simp add: comps.simps [of "SL # p"] comps.simps [of p])

lemma comps_comp: "path \<noteq> [] \<Longrightarrow> at0 path \<noteq> SL \<Longrightarrow>
    comps path = takeWhile (\<lambda>c. c \<noteq> SL) path # comps (dropWhile (\<lambda>c. c \<noteq> SL) path)"
  by (subst comps.simps) (cases path, simp_all)

text \<open>A file system without symbolic links.\<close>

definition no_links :: "char list \<Rightarrow> errno + char list" where
  "no_links p = Inl EINVAL"

lemma loop_norm:
  assumes f: "flags AND HX_REALPATH_SELF \<noteq> 0" "flags AND HX_REALPATH_PARENT \<noteq> 0" "flags AND HX_REALPATH_ABSOLUTE \<noteq> 0"
  shows "NUL \<notin> set path \<Longrightarrow> \<forall>c \<in> set st. is_comp c \<Longrightarrow>
    realpath_loop no_links flags path True (abs_path st) count = Some (Inr (abs_path (norm_path st (comps path))))"
proof (induction "length path" arbitrary: path st rule: less_induct)
  case less
  let ?c = "takeWhile (\<lambda>c. c \<noteq> SL) path" and ?p = "dropWhile (\<lambda>c. c \<noteq> SL) path"
  have cp: "path = ?c @ ?p" by simp
  consider "path = []" | q where "path = SL # q" | "path \<noteq> []" "at0 path \<noteq> SL" "is_self path"
    | "path \<noteq> []" "at0 path \<noteq> SL" "\<not> is_self path" "is_parent path" | "path \<noteq> []" "at0 path \<noteq> SL" "\<not> is_self path" "\<not> is_parent path"
    by (cases path) auto
  then show ?case
  proof cases
    case 1
    then show ?thesis by (subst realpath_loop.simps) (simp add: comps.simps)
  next
    case (2 q)
    then show ?thesis using less by (simp add: loop_slash comps_slash)
  next
    case 3
    note s = self_comp [OF 3(3) less.prems(1)]
    have "realpath_loop no_links flags path True (abs_path st) count = realpath_loop no_links flags (drop 1 path) True (abs_path st) count"
      using 3 f by (subst realpath_loop.simps) simp
    moreover have "comps path = ''.'' # comps (drop 1 path)" using comps_comp [OF 3(1,2)] s by simp
    ultimately show ?thesis using less.hyps [of "drop 1 path" st] less.prems 3(1) by (auto dest: in_set_dropD)
  next
    case 4
    note s = parent_comp [OF 4(4) less.prems(1)]
    have "realpath_loop no_links flags path True (abs_path st) count =
        realpath_loop no_links flags (drop 2 path) True (abs_path (butlast st)) count"
      using 4 f cut_last_abs [OF less.prems(2)] by (subst realpath_loop.simps) simp
    moreover have "comps path = ''..'' # comps (drop 2 path)" using comps_comp [OF 4(1,2)] s by simp
    moreover have "\<forall>c \<in> set (butlast st). is_comp c" using less.prems(2) by (auto dest: in_set_butlastD)
    ultimately show ?thesis using less.hyps [of "drop 2 path" "butlast st"] less.prems 4(1) by (auto dest: in_set_dropD)
  next
    case 5
    have c: "is_comp ?c" "?c \<noteq> ''.''" "?c \<noteq> ''..''" using comp_of_path not_self not_parent 5 by blast+
    have n: "NUL \<notin> set (?c @ ?p)" "NUL \<notin> set ?p" using less.prems(1) by (auto dest: set_takeWhileD set_dropWhileD)
    have p: "?p = [] \<or> hd ?p = SL" using hd_dropWhile [of "\<lambda>c. c \<noteq> SL" path] by auto
    have s: "HX_realpath_symres no_links (abs_path st @ (if True then [SL] else []) @ ?c) ?p count = Some (Inl EINVAL, count)"
      by (simp add: HX_realpath_symres_def HX_readlink_def no_links_def)
    have "realpath_loop no_links flags path True (abs_path st) count = realpath_loop no_links flags ?p True (abs_path (st @ [?c])) count"
      using loop_comp [OF c n(1) p, of no_links flags True "abs_path st" count] unfolding s by simp
    moreover have "length ?p < length path" using 5(1,2) by (cases path) (auto simp: le_imp_less_Suc length_dropWhile_le)
    moreover have "\<forall>c \<in> set (st @ [?c]). is_comp c" using less.prems(2) c(1) by auto
    ultimately show ?thesis using less.hyps [of ?p "st @ [?c]"] n(2) comps_comp [OF 5(1,2)] c by simp
  qed
qed

section \<open>Properties\<close>

text \<open>Links and directories of any length that a buffer can hold are read whole.\<close>

lemma readlink_whole: "0 < sz \<Longrightarrow> length t \<le> SIZE_MAX div 2 \<Longrightarrow> readlink_loop t sz = Inr t"
proof (induction t sz rule: readlink_loop.induct)
  case (1 t sz)
  then show ?case by (subst readlink_loop.simps) (auto simp: Let_def min_def)
qed

lemma getcwd_whole: "0 < sz \<Longrightarrow> length t \<le> SIZE_MAX div 2 \<Longrightarrow> getcwd_loop t sz = Inr t"
proof (induction t sz rule: getcwd_loop.induct)
  case (1 t sz)
  then show ?case by (subst getcwd_loop.simps) auto
qed

text \<open>C24: What \<open>HX_realpath\<close> returns with all of its flags is canonical, whatever links the file system holds: for an
  absolute path it never leaves its buffers, and a path that it returns has no empty component, none of one or two dots,
  and no prefix that is a symbolic link; resolving it again gives it back.\<close>

theorem HX_realpath_canonical:
  assumes f: "flags AND HX_REALPATH_SELF \<noteq> 0" "flags AND HX_REALPATH_PARENT \<noteq> 0" "flags AND HX_REALPATH_ABSOLUTE \<noteq> 0"
    and p: "at0 path = SL"
  shows "\<exists>r. HX_realpath lnk cwd flags None path = Some r \<and>
    (\<forall>d. r = Inr d \<longrightarrow> (\<exists>st. canonical lnk st \<and> d = (if st = [] then ''/'' else abs_path st)) \<and>
      (NUL \<notin> set d \<longrightarrow> HX_realpath lnk cwd flags None d = Some (Inr d)))"
proof -
  obtain r where r: "realpath_loop lnk flags path True [] 0 = Some r" "\<forall>d. r = Inr d \<longrightarrow> (\<exists>st. canonical lnk st \<and> d = abs_path st)"
    using loop_canonical [OF f canonical_Nil, where path = path and lnk = lnk and count = 0] by auto
  show ?thesis
  proof (cases r)
    case (Inl e)
    then show ?thesis using r(1) p by (simp add: HX_realpath_def)
  next
    case (Inr d)
    then obtain st where st: "canonical lnk st" "d = abs_path st" using r(2) by blast
    let ?d = "if st = [] then ''/'' else abs_path st"
    have e: "HX_realpath lnk cwd flags None path = Some (Inr ?d)"
      using r(1) p Inr st(2) by (simp add: HX_realpath_def)
    have "HX_realpath lnk cwd flags None ?d = Some (Inr ?d)" if n: "NUL \<notin> set ?d"
    proof (cases "st = []")
      case True
      have "realpath_loop lnk flags ''/'' True [] 0 = Some (Inr [])"
        unfolding loop_slash by (subst realpath_loop.simps) simp
      then show ?thesis using True by (simp add: HX_realpath_def)
    next
      case False
      then have "realpath_loop lnk flags (abs_path st) True [] 0 = Some (Inr (abs_path st))"
        using loop_idem [of lnk "[]" st flags 0] st(1) n by simp
      moreover have "at0 (abs_path st) = SL" using False by (cases st) simp_all
      ultimately show ?thesis using False by (simp add: HX_realpath_def)
    qed
    then show ?thesis using e st(1) by (intro exI [of _ "Inr ?d"]) auto
  qed
qed

text \<open>A file system with the links \<^verbatim>\<open>/a\<close>, to \<^verbatim>\<open>b/c\<close>, and \<^verbatim>\<open>/l\<close>, to itself.\<close>

definition some_links :: "char list \<Rightarrow> errno + char list" where
  "some_links p = (if p = ''/a'' then Inr ''b/c'' else if p = ''/l'' then Inr ''l'' else Inl EINVAL)"

theorem HX_realpath_canonical_witness:
  "\<exists>r. HX_realpath some_links (Inl ENOENT) 7 None ''/x/../a/./d'' = Some r \<and>
    (\<forall>d. r = Inr d \<longrightarrow> (\<exists>st. canonical some_links st \<and> d = (if st = [] then ''/'' else abs_path st)) \<and>
      (NUL \<notin> set d \<longrightarrow> HX_realpath some_links (Inl ENOENT) 7 None d = Some (Inr d)))"
  by (rule HX_realpath_canonical)
    (simp_all add: HX_REALPATH_SELF_def HX_REALPATH_PARENT_def HX_REALPATH_ABSOLUTE_def)



text \<open>Relative paths without the flag for absolute results go wrong: where a parent directory takes away all there is,
  the rest becomes an absolute path; where the first component is a symbolic link to a relative path, the search for the
  last slash leaves the buffer.\<close>

theorem HX_realpath_relative_wrong:
  assumes a: "is_comp a" "a \<noteq> ''.''" "a \<noteq> ''..''" "NUL \<notin> set a" and b: "is_comp b" "b \<noteq> ''.''" "b \<noteq> ''..''" "NUL \<notin> set b"
    and t: "at0 t \<noteq> SL" "length t \<le> SIZE_MAX div 2"
  shows "HX_realpath no_links cwd HX_REALPATH_DEFAULT None (a @ ''/../'' @ b) = Some (Inr (SL # b)) \<and>
    HX_realpath (\<lambda>p. if p = a then Inr t else Inl EINVAL) cwd HX_REALPATH_DEFAULT None a = None"
proof
  have at: "at0 (a @ r) \<noteq> SL" for r using a(1) by (cases a) (auto simp: is_comp_def)
  have fl: "HX_REALPATH_DEFAULT AND HX_REALPATH_ABSOLUTE = 0" "HX_REALPATH_DEFAULT AND HX_REALPATH_PARENT \<noteq> 0"
    by (simp_all add: HX_REALPATH_DEFAULT_def HX_REALPATH_SELF_def HX_REALPATH_PARENT_def HX_REALPATH_ABSOLUTE_def)
  let ?l = "realpath_loop no_links HX_REALPATH_DEFAULT"
  have s: "HX_realpath_symres no_links d p 0 = Some (Inl EINVAL, 0)" for d p
    by (simp add: HX_realpath_symres_def HX_readlink_def no_links_def)
  have "?l (a @ ''/../'' @ b) False [] 0 = ?l (''/../'' @ b) True a 0"
    using loop_comp [OF a(1-3), of "''/../'' @ b" no_links HX_REALPATH_DEFAULT False "[]" 0] a(4) b(4) by (simp add: s)
  also have "\<dots> = ?l (''../'' @ b) True a 0" by (simp add: loop_slash)
  also have "\<dots> = ?l (SL # b) True [] 0"
  proof -
    have "cut_last a = []"
    proof -
      have "dropWhile (\<lambda>c. c \<noteq> SL) (rev a) = []"
        by (rule dropWhile_eq_Nil_conv [THEN iffD2]) (use a(1) in \<open>auto simp: is_comp_def\<close>)
      then show ?thesis unfolding cut_last_def by (simp only:) simp
    qed
    then show ?thesis using a(1) fl by (subst realpath_loop.simps) (simp add: is_self_def is_parent_def is_comp_def)
  qed
  also have "\<dots> = ?l [] True (SL # b) 0"
    using loop_comp [OF b(1-3), of "[]" no_links HX_REALPATH_DEFAULT True "[]" 0] b(4) by (simp add: s loop_slash)
  also have "\<dots> = Some (Inr (SL # b))" by (subst realpath_loop.simps) simp
  finally show "HX_realpath no_links cwd HX_REALPATH_DEFAULT None (a @ ''/../'' @ b) = Some (Inr (SL # b))"
    using at fl by (simp add: HX_realpath_def)
  let ?k = "\<lambda>p. if p = a then Inr t else Inl EINVAL"
  have "HX_realpath_symres ?k a [] 0 = None"
    using t a(1) readlink_whole [OF _ t(2), of 128] by (simp add: HX_realpath_symres_def HX_readlink_def is_comp_def)
  then have "realpath_loop ?k HX_REALPATH_DEFAULT a False [] 0 = None"
    using loop_comp [OF a(1-3), of "[]" ?k HX_REALPATH_DEFAULT False "[]" 0] a(4) by simp
  then show "HX_realpath ?k cwd HX_REALPATH_DEFAULT None a = None"
    using at [of "[]"] fl by (simp add: HX_realpath_def)
qed

theorem HX_realpath_relative_wrong_witness:
  "HX_realpath no_links (Inl ENOENT) HX_REALPATH_DEFAULT None (''a'' @ ''/../'' @ ''b'') = Some (Inr (SL # ''b'')) \<and>
    HX_realpath (\<lambda>p. if p = ''a'' then Inr ''t'' else Inl EINVAL) (Inl ENOENT) HX_REALPATH_DEFAULT None ''a'' = None"
  by (rule HX_realpath_relative_wrong) (simp_all add: is_comp_def SIZE_MAX_def)

end
