(* ===== verification/HX_Io.thy ===== *)
theory HX_Io
  imports HX_String HX_Realpath
begin

text \<open>
  Files and directories, the rest of \<^verbatim>\<open>src/io.c\<close>: creating directories with their parents, reading and writing
  until a buffer is done, copying between descriptors, reading whole files, copying and removing directories. The
  system calls are parameters over a state \<open>'s\<close> of the world.
\<close>

unbundle bit_operations_syntax

section \<open>The system calls\<close>

text \<open>
  Descriptors are left out: a call on a source or destination works on the one file of that kind in the state.
  \<open>sys_open_dst\<close> and \<open>sys_close\<close> have a flag, that of \<^verbatim>\<open>O_EXCL\<close> and that of the destination.
\<close>

record 's os =
  sys_mkdir :: "char list \<Rightarrow> u32 \<Rightarrow> 's \<Rightarrow> errno option \<times> 's"
  sys_isdir :: "char list \<Rightarrow> 's \<Rightarrow> bool"
  sys_read :: "nat \<Rightarrow> 's \<Rightarrow> (errno + char list) \<times> 's"
  sys_write :: "char list \<Rightarrow> 's \<Rightarrow> (errno + nat) \<times> 's"
  sys_cfr :: "nat \<Rightarrow> 's \<Rightarrow> (errno + nat) \<times> 's"
  sys_sendfile :: "nat \<Rightarrow> 's \<Rightarrow> (errno + nat) \<times> 's"
  sys_open_src :: "char list \<Rightarrow> 's \<Rightarrow> errno option \<times> 's"
  sys_open_dst :: "char list \<Rightarrow> bool \<Rightarrow> 's \<Rightarrow> errno option \<times> 's"
  sys_close :: "bool \<Rightarrow> 's \<Rightarrow> 's"
  sys_fstat :: "'s \<Rightarrow> (errno + int \<times> int \<times> nat) \<times> 's"
  sys_fchown :: "int \<Rightarrow> int \<Rightarrow> 's \<Rightarrow> errno option \<times> 's"
  sys_unlink :: "char list \<Rightarrow> 's \<Rightarrow> errno option \<times> 's"
  sys_rmdir :: "char list \<Rightarrow> 's \<Rightarrow> errno option \<times> 's"
  sys_opendir :: "char list \<Rightarrow> 's \<Rightarrow> (errno + char list list) \<times> 's"
  sys_lstat :: "char list \<Rightarrow> 's \<Rightarrow> (errno + u32 \<times> nat) \<times> 's"
  sys_readlink :: "char list \<Rightarrow> 's \<Rightarrow> (errno + char list) \<times> 's"
  sys_symlink :: "char list \<Rightarrow> char list \<Rightarrow> 's \<Rightarrow> 's"
  sys_mknod :: "char list \<Rightarrow> u32 \<Rightarrow> nat \<Rightarrow> 's \<Rightarrow> 's"
  sys_mkfifo :: "char list \<Rightarrow> u32 \<Rightarrow> 's \<Rightarrow> 's"
  sys_lchown :: "char list \<Rightarrow> int \<Rightarrow> int \<Rightarrow> 's \<Rightarrow> 's"
  sys_chmod :: "char list \<Rightarrow> u32 \<Rightarrow> 's \<Rightarrow> 's"

text \<open>A system that refuses everything, and one that copies from a text to a text.\<close>

definition null_os :: "'s os" where
  "null_os = \<lparr>
     sys_mkdir = \<lambda>p m s. (Some ENOSYS, s), sys_isdir = \<lambda>p s. False, sys_read = \<lambda>n s. (Inl ENOSYS, s),
     sys_write = \<lambda>b s. (Inl ENOSYS, s), sys_cfr = \<lambda>n s. (Inl ENOSYS, s), sys_sendfile = \<lambda>n s. (Inl ENOSYS, s),
     sys_open_src = \<lambda>p s. (Some ENOSYS, s), sys_open_dst = \<lambda>p x s. (Some ENOSYS, s), sys_close = \<lambda>x s. s,
     sys_fstat = \<lambda>s. (Inl ENOSYS, s), sys_fchown = \<lambda>u g s. (Some ENOSYS, s), sys_unlink = \<lambda>p s. (Some ENOSYS, s),
     sys_rmdir = \<lambda>p s. (Some ENOSYS, s), sys_opendir = \<lambda>p s. (Inl ENOSYS, s), sys_lstat = \<lambda>p s. (Inl ENOSYS, s),
     sys_readlink = \<lambda>p s. (Inl ENOSYS, s), sys_symlink = \<lambda>t p s. s, sys_mknod = \<lambda>p m d s. s, sys_mkfifo = \<lambda>p m s. s,
     sys_lchown = \<lambda>p u g s. s, sys_chmod = \<lambda>p m s. s\<rparr>"

definition text_os :: "(char list \<times> char list) os" where
  "text_os = null_os\<lparr>
     sys_read := \<lambda>n (r, w). (Inr (take n r), (drop n r, w)),
     sys_write := \<lambda>b (r, w). (Inr (length b), (r, w @ b)),
     sys_cfr := \<lambda>n (r, w). (Inr (min n (length r)), (drop n r, w @ take n r)),
     sys_open_src := \<lambda>p s. (None, s), sys_open_dst := \<lambda>p x (r, w). (None, (r, []))\<rparr>"

section \<open>Directories with their parents\<close>

text \<open>\<open>Inr 1\<close> is a new directory, \<open>Inr 0\<close> one that was there.\<close>

definition mkdir_gen :: "'s os \<Rightarrow> char list \<Rightarrow> u32 \<Rightarrow> 's \<Rightarrow> (errno + int) \<times> 's" where
  "mkdir_gen ops d mode s =
     (case sys_mkdir ops d mode s of
        (None, s) \<Rightarrow> (Inr 1, s)
      | (Some e, s) \<Rightarrow>
          if e \<noteq> EEXIST then (Inl e, s)
          else if sys_isdir ops d s then (Inr 0, s)
          else (Inl EEXIST, s))"

text \<open>\<open>dir\<close> and \<open>buf\<close> are blocks of \<open>MAXFNLEN\<close> bytes, \<open>len\<close> is the length of the argument.\<close>

function mkdir_loop :: "'s os \<Rightarrow> u32 \<Rightarrow> char list \<Rightarrow> nat \<Rightarrow> nat \<Rightarrow> char list \<Rightarrow> 's \<Rightarrow> ((errno + int) \<times> 's) option" where
  "mkdir_loop ops mode dir len i buf s =
     (if i < len then do {
        c \<leftarrow> rd dir i;
        if c = CHR ''/'' then do {
          buf \<leftarrow> strncpy buf (cstr dir) i;
          buf \<leftarrow> wr buf i NUL;
          case mkdir_gen ops (cstr buf) mode s of
            (Inl e, s) \<Rightarrow> Some (Inl e, s)
          | (Inr v, s) \<Rightarrow> mkdir_loop ops mode dir len (i + 1) buf s
        }
        else if i = len - 1 then do {
          buf \<leftarrow> strncpy buf (cstr dir) len;
          buf \<leftarrow> wr buf len NUL;
          case mkdir_gen ops (cstr buf) mode s of
            (Inl e, s) \<Rightarrow> Some (Inl e, s)
          | (Inr v, s) \<Rightarrow> mkdir_loop ops mode dir len (i + 1) buf s
        }
        else mkdir_loop ops mode dir len (i + 1) buf s
      }
      else Some (Inr 1, s))"
  by pat_completeness auto
termination
  by (relation "measure (\<lambda>(ops, mode, dir, len, i, buf, s). len - i)") auto

declare mkdir_loop.simps [simp del]

text \<open>\<open>dir\<close> and \<open>buf\<close> hold anything at first.\<close>

definition HX_mkdir :: "'s os \<Rightarrow> char list \<Rightarrow> char list \<Rightarrow> char list \<Rightarrow> u32 \<Rightarrow> 's \<Rightarrow> ((errno + int) \<times> 's) option" where
  "HX_mkdir ops dir buf idir mode s = do {
     dir \<leftarrow> HX_strlcpy dir idir (of_nat MAXFNLEN);
     c \<leftarrow> rd dir 0;
     mkdir_loop ops mode dir (length idir) (if c = CHR ''/'' then 1 else 0) buf s
   }"

text \<open>The directories that are made for a path.\<close>

definition mkdir_paths :: "char list \<Rightarrow> nat \<Rightarrow> char list list" where
  "mkdir_paths p i = map (\<lambda>j. if p ! j = CHR ''/'' then take j p else p)
     (filter (\<lambda>j. p ! j = CHR ''/'' \<or> j = length p - 1) [i..<length p])"

fun mkdir_all :: "'s os \<Rightarrow> u32 \<Rightarrow> char list list \<Rightarrow> 's \<Rightarrow> (errno + int) \<times> 's" where
  "mkdir_all ops mode [] s = (Inr 1, s)"
| "mkdir_all ops mode (p # ps) s =
     (case mkdir_gen ops p mode s of (Inl e, s) \<Rightarrow> (Inl e, s) | (Inr v, s) \<Rightarrow> mkdir_all ops mode ps s)"

lemma paths_step: "i < length p \<Longrightarrow> mkdir_paths p i =
    (if p ! i = CHR ''/'' then [take i p] else if i = length p - 1 then [p] else []) @ mkdir_paths p (i + 1)"
  by (simp add: mkdir_paths_def upt_conv_Cons)

lemma paths_end: "length p \<le> i \<Longrightarrow> mkdir_paths p i = []"
  by (simp add: mkdir_paths_def)

lemma cut_copy:
  assumes "NUL \<notin> set p" "length p \<le> 255" "length buf = 256" "j \<le> length p"
  shows "\<exists>b1 b2. strncpy buf p j = Some b1 \<and> wr b1 j NUL = Some b2 \<and> cstr b2 = take j p \<and> length b2 = 256"
proof -
  have n: "NUL \<notin> set (take j p)" using assms(1) by (auto dest: in_set_takeD)
  have s: "strncpy buf p j = Some (take j p @ drop j buf)" using assms by (simp add: strncpy_def wrn_def)
  have w: "wr (take j p @ drop j buf) j NUL = Some (take j p @ NUL # drop (Suc j) buf)"
    using assms by (simp add: wr_def list_update_append drop_eq_Cons_nth)
  show ?thesis using s w cstr_append [OF n] assms by simp
qed

lemma mkdir_loop_paths:
  assumes p: "NUL \<notin> set p" "length p \<le> 255" and d: "length dir = 256" "cstr dir = p" "\<And>j. j < length p \<Longrightarrow> dir ! j = p ! j"
  shows "length buf = 256 \<Longrightarrow> mkdir_loop ops mode dir (length p) i buf s = Some (mkdir_all ops mode (mkdir_paths p i) s)"
proof (induction "length p - i" arbitrary: i buf s)
  case 0
  then show ?case by (subst mkdir_loop.simps) (simp add: paths_end)
next
  case (Suc m)
  then have i: "i < length p" "i < length dir" using p(2) d(1) by simp_all
  have ih: "mkdir_loop ops mode dir (length p) (i + 1) b s1 = Some (mkdir_all ops mode (mkdir_paths p (i + 1)) s1)"
    if "length b = 256" for b s1
    by (rule Suc.hyps(1)) (use Suc.hyps(2) that in simp_all)
  obtain b1 b2 where b: "strncpy buf p i = Some b1" "wr b1 i NUL = Some b2" "cstr b2 = take i p" "length b2 = 256"
    using cut_copy [OF p Suc.prems, of i] i by auto
  obtain c1 c2 where c: "strncpy buf p (length p) = Some c1" "wr c1 (length p) NUL = Some c2" "cstr c2 = p" "length c2 = 256"
    using cut_copy [OF p Suc.prems, of "length p"] by auto
  have r: "rd dir i = Some (p ! i)" using i d(3) by (simp add: rd_def)
  consider "p ! i = CHR ''/''" | "p ! i \<noteq> CHR ''/''" "i = length p - 1" | "p ! i \<noteq> CHR ''/''" "i \<noteq> length p - 1" by blast
  then show ?case
  proof cases
    case 1
    then show ?thesis using i r b ih [OF b(4)] d(2)
      by (subst mkdir_loop.simps) (simp add: paths_step split: prod.split sum.split)
  next
    case 2
    then show ?thesis using i r c ih [OF c(4)] d(2)
      by (subst mkdir_loop.simps) (simp add: paths_step split: prod.split sum.split)
  next
    case 3
    then show ?thesis using i r ih [OF Suc.prems] by (subst mkdir_loop.simps) (simp add: paths_step)
  qed
qed


lemma strlcpy_dir: "length dir = 256 \<Longrightarrow> NUL \<notin> set p \<Longrightarrow>
    HX_strlcpy dir p (of_nat MAXFNLEN) = Some ((take 256 p @ replicate (256 - length p) NUL)[255 := NUL])"
  by (cases "length p \<le> 256") (simp_all add: HX_strlcpy_def MAXFNLEN_def strncpy_def wrn_def wr_def)

lemma dir_short:
  assumes "length p \<le> 255" "NUL \<notin> set p"
  defines "d \<equiv> (take 256 p @ replicate (256 - length p) NUL)[255 := NUL]"
  shows "length d = 256" "cstr d = p" "j < length p \<Longrightarrow> d ! j = p ! j" "p = [] \<Longrightarrow> d ! 0 = NUL"
proof -
  have d: "d = p @ NUL # replicate (255 - length p) NUL"
  proof -
    have "256 - length p = Suc (255 - length p)" using assms(1) by simp
    then have "d = (p @ replicate (Suc (255 - length p)) NUL)[255 := NUL]" using assms(1) unfolding d_def by simp
    also have "\<dots> = p @ (replicate (Suc (255 - length p)) NUL)[255 - length p := NUL]"
      using assms(1) by (simp add: list_update_append)
    also have "\<dots> = p @ replicate (Suc (255 - length p)) NUL"
      by (simp del: replicate_Suc add: list_update_same_conv [THEN iffD2])
    finally show ?thesis by simp
  qed
  show "length d = 256" unfolding d_def using assms(1) by simp
  show "cstr d = p" unfolding d by (rule cstr_append [OF assms(2)])
  show "j < length p \<Longrightarrow> d ! j = p ! j" unfolding d by (simp add: nth_append)
  show "p = [] \<Longrightarrow> d ! 0 = NUL" unfolding d by simp
qed

lemma HX_mkdir_short:
  assumes "length p \<le> 255" "NUL \<notin> set p" "length dir = 256" "length buf = 256"
  shows "HX_mkdir ops dir buf p mode s = Some (mkdir_all ops mode (mkdir_paths p (if is_prefix ''/'' p then 1 else 0)) s)"
proof -
  let ?d = "(take 256 p @ replicate (256 - length p) NUL)[255 := NUL]"
  note d = dir_short [OF assms(1,2)]
  have c: "rd ?d 0 = Some (?d ! 0)" using d(1) by (simp add: rd_def)
  have z: "?d ! 0 = CHR ''/'' \<longleftrightarrow> is_prefix ''/'' p"
    using d(3) [of 0] d(4) by (cases p) auto
  show ?thesis
    unfolding HX_mkdir_def strlcpy_dir [OF assms(3,2)] Option.bind.bind_lunit c z
    by (rule mkdir_loop_paths [OF assms(2,1) d(1,2,3) assms(4)])
qed

lemma dir_long:
  assumes "255 < length p" "NUL \<notin> set p"
  shows "(take 256 p @ replicate (256 - length p) NUL)[255 := NUL] = take 255 p @ [NUL]"
proof -
  have "take 256 p = take 255 p @ [p ! 255]" using assms(1) take_Suc_conv_app_nth [of 255 p] by simp
  then show ?thesis using assms(1) by (simp add: list_update_append)
qed

lemma mkdir_loop_overflow:
  assumes p: "NUL \<notin> set p" "255 < n" "length p = 255" and ok: "\<And>q s. \<exists>v s1. mkdir_gen ops q mode s = (Inr v, s1)"
  shows "length buf = 256 \<Longrightarrow> i \<le> 255 \<Longrightarrow> mkdir_loop ops mode (p @ [NUL]) n i buf s = None"
proof (induction "255 - i" arbitrary: i buf s)
  case 0
  then have i: "i = 255" by simp
  have d: "(p @ [NUL]) ! 255 = NUL" "cstr (p @ [NUL]) = p" using p(3) cstr_append [OF p(1)] by (simp_all add: nth_append)
  have r: "rd (p @ [NUL]) 255 = Some NUL" "rd (p @ [NUL]) 256 = None" using p(3) d by (simp_all add: rd_def)
  show ?case
  proof (cases "n = 256")
    case True
    have "wr (take 255 p @ NUL # []) 256 NUL = None" using p(3) by (simp add: wr_def)
    moreover have "strncpy buf p 256 = Some (p @ [NUL])" using p(3) 0 by (simp add: strncpy_def wrn_def)
    moreover have "wr (p @ [NUL]) 256 NUL = None" using p(3) by (simp add: wr_def)
    ultimately show ?thesis using True i r d by (subst mkdir_loop.simps) simp
  next
    case False
    then have "mkdir_loop ops mode (p @ [NUL]) n 256 buf s = None" using r p(2) by (subst mkdir_loop.simps) simp
    moreover have "n - Suc 0 \<noteq> 255" using False p(2) by simp
    ultimately show ?thesis using i r p(2) by (subst mkdir_loop.simps) simp
  qed
next
  case (Suc m)
  then have i: "i < 255" by simp
  have ih: "mkdir_loop ops mode (p @ [NUL]) n (i + 1) b s1 = None" if "length b = 256" for b s1
    by (rule Suc.hyps(1)) (use Suc.hyps(2) that i in simp_all)
  have r: "rd (p @ [NUL]) i = Some (p ! i)" using i p(3) by (simp add: rd_def nth_append)
  obtain b1 b2 where b: "strncpy buf p i = Some b1" "wr b1 i NUL = Some b2" "cstr b2 = take i p" "length b2 = 256"
    using cut_copy [OF p(1) _ Suc.prems(1), of i] i p(3) by auto
  obtain v s1 where g: "mkdir_gen ops (take i p) mode s = (Inr v, s1)" using ok by blast
  have ne: "i \<noteq> n - 1" using i p(2) by simp
  show ?case
    using ne r i p(2,3) b g ih [OF b(4)] ih [OF Suc.prems(1)] cstr_append [OF p(1), of "[]"]
    by (subst mkdir_loop.simps) simp
qed

text \<open>C38: For a name that fits its buffers \<open>HX_mkdir\<close> makes exactly the directories in front of its slashes, one after the
  other, and then the name itself unless it ends with a slash; the first error ends it. A name of 256 bytes or more, all
  of whose directories can be made, makes it run out of its two buffers.\<close>

theorem HX_mkdir_makes:
  assumes "NUL \<notin> set p" "length dir = 256" "length buf = 256"
    and "255 < length p \<longrightarrow> (\<forall>q s. \<exists>v s1. mkdir_gen ops q mode s = (Inr v, s1))"
  shows "HX_mkdir ops dir buf p mode s =
    (if length p \<le> 255 then Some (mkdir_all ops mode (mkdir_paths p (if is_prefix ''/'' p then 1 else 0)) s) else None)"
proof (cases "length p \<le> 255")
  case True
  then show ?thesis unfolding if_P [OF True] by (rule HX_mkdir_short [OF _ assms(1-3)])
next
  case False
  then have l: "255 < length p" "length (take 255 p) = 255" by simp_all
  have n: "NUL \<notin> set (take 255 p)" using assms(1) by (auto dest: in_set_takeD)
  have ok: "\<exists>v s1. mkdir_gen ops q mode s = (Inr v, s1)" for q s using assms(4) l(1) by blast
  have "mkdir_loop ops mode (take 255 p @ [NUL]) (length p) i buf s = None" if "i \<le> 1" for i
    by (rule mkdir_loop_overflow [OF n l ok assms(3)]) (use that in simp)
  then have "HX_mkdir ops dir buf p mode s = None"
    unfolding HX_mkdir_def strlcpy_dir [OF assms(2,1)] Option.bind.bind_lunit dir_long [OF l(1) assms(1)]
    using l by (simp add: rd_def)
  then show ?thesis using False by simp
qed

theorem HX_mkdir_makes_witness:
  "HX_mkdir (null_os\<lparr>sys_mkdir := \<lambda>p m s. (None, s @ [p])\<rparr>) (replicate 256 CHR ''x'') (replicate 256 CHR ''y'') ''/usr/lib'' 511 [] =
     Some (Inr 1, [''/usr'', ''/usr/lib''])"
  using HX_mkdir_makes [of "''/usr/lib''" "replicate 256 CHR ''x''" "replicate 256 CHR ''y''"
      "null_os\<lparr>sys_mkdir := \<lambda>p m s. (None, s @ [p])\<rparr>" 511 "[]"]
  by (simp add: mkdir_paths_def upt_rec mkdir_gen_def)

section \<open>Reading and writing until done\<close>

definition SSIZE_MAX :: nat where "SSIZE_MAX = 2 ^ 63 - 1"

text \<open>A call stores or takes at most the bytes it is given room for.\<close>

function fullread_loop :: "'s os \<Rightarrow> nat \<Rightarrow> char list \<Rightarrow> 's \<Rightarrow> (errno + char list) \<times> 's" where
  "fullread_loop os n buf s =
     (if n = 0 then (Inr buf, s)
      else case sys_read os n s of
        (Inl e, s) \<Rightarrow> (Inl e, s)
      | (Inr bs, s) \<Rightarrow>
          if take n bs = [] then (Inr buf, s)
          else fullread_loop os (n - length (take n bs)) (buf @ take n bs) s)"
  by pat_completeness auto
termination
  by (relation "measure (\<lambda>(os, n, buf, s). n)") auto

declare fullread_loop.simps [simp del]

definition HXio_fullread :: "'s os \<Rightarrow> nat \<Rightarrow> 's \<Rightarrow> (errno + char list) \<times> 's" where
  "HXio_fullread os n s = fullread_loop os (if SSIZE_MAX < n then SSIZE_MAX else n) [] s"

function fullwrite_loop :: "'s os \<Rightarrow> char list \<Rightarrow> nat \<Rightarrow> 's \<Rightarrow> (errno + nat) \<times> 's" where
  "fullwrite_loop os buf k0 s =
     (if buf = [] then (Inr k0, s)
      else case sys_write os buf s of
        (Inl e, s) \<Rightarrow> (Inl e, s)
      | (Inr k, s) \<Rightarrow>
          if k = 0 then (Inr k0, s)
          else fullwrite_loop os (drop k buf) (k0 + min k (length buf)) s)"
  by pat_completeness auto
termination
  by (relation "measure (\<lambda>(os, buf, k0, s). length buf)") auto

declare fullwrite_loop.simps [simp del]

definition HXio_fullwrite :: "'s os \<Rightarrow> char list \<Rightarrow> nat \<Rightarrow> 's \<Rightarrow> (errno + nat) \<times> 's" where
  "HXio_fullwrite os buf n s = fullwrite_loop os (take (if SSIZE_MAX < n then SSIZE_MAX else n) buf) 0 s"

section \<open>Copying between descriptors\<close>

definition xfersize :: nat where "xfersize = 2 ^ 31 - 1"

text \<open>The loops of \<open>HX_cfr_linux\<close> and \<open>HX_sendfile_linux\<close>; the number of bytes asked for never changes.\<close>

partial_function (option) xfer_loop ::
  "(nat \<Rightarrow> 's \<Rightarrow> (errno + nat) \<times> 's) \<Rightarrow> nat \<Rightarrow> nat \<Rightarrow> 's \<Rightarrow> ((errno + nat) \<times> 's) option" where
  "xfer_loop f count xferd s =
     (case f count s of
        (Inl e, s) \<Rightarrow> Some (if xferd > 0 then Inr xferd else Inl e, s)
      | (Inr ret, s) \<Rightarrow> if ret = 0 then Some (Inr xferd, s) else xfer_loop f count (xferd + ret) s)"

definition HX_cfr_linux :: "'s os \<Rightarrow> nat \<Rightarrow> 's \<Rightarrow> ((errno + nat) \<times> 's) option" where
  "HX_cfr_linux os count s = xfer_loop (sys_cfr os) (if xfersize < count then xfersize else count) 0 s"

definition HX_sendfile_linux :: "'s os \<Rightarrow> nat \<Rightarrow> 's \<Rightarrow> ((errno + nat) \<times> 's) option" where
  "HX_sendfile_linux os count s = xfer_loop (sys_sendfile os) (if xfersize < count then xfersize else count) 0 s"

text \<open>The loop of \<open>HX_sendfile_rw\<close>. It counts down by what was written, also when that is nothing.\<close>

definition bufsize :: nat where "bufsize = 0x10000"

partial_function (option) rw_loop :: "'s os \<Rightarrow> nat \<Rightarrow> nat \<Rightarrow> 's \<Rightarrow> ((errno + nat) \<times> 's) option" where
  "rw_loop os count xferd s =
     (if count = 0 then Some (Inr xferd, s)
      else case HXio_fullread os (if count < bufsize then count else bufsize) s of
        (Inl e, s) \<Rightarrow> Some (if xferd > 0 then Inr xferd else Inl e, s)
      | (Inr buf, s) \<Rightarrow>
         (case HXio_fullwrite os buf (length buf) s of
            (Inl e, s) \<Rightarrow> Some (if xferd > 0 then Inr xferd else Inl e, s)
          | (Inr ret, s) \<Rightarrow> rw_loop os (count - ret) (xferd + ret) s))"

text \<open>\<open>ok n\<close> tells whether an allocation of \<open>n\<close> bytes succeeds.\<close>

definition HX_sendfile_rw :: "'s os \<Rightarrow> (nat \<Rightarrow> bool) \<Rightarrow> nat \<Rightarrow> 's \<Rightarrow> ((errno + nat) \<times> 's) option" where
  "HX_sendfile_rw os ok count s =
     (if \<not> ok bufsize then Some (Inl ENOMEM, s)
      else rw_loop os (if SSIZE_MAX < count then SSIZE_MAX else count) 0 s)"

definition HX_sendfile :: "'s os \<Rightarrow> (nat \<Rightarrow> bool) \<Rightarrow> nat \<Rightarrow> 's \<Rightarrow> ((errno + nat) \<times> 's) option" where
  "HX_sendfile os ok count s = do {
     (ret, s) \<leftarrow> HX_cfr_linux os count s;
     if ret \<noteq> Inl ENOSYS \<and> ret \<noteq> Inl EXDEV then Some (ret, s)
     else do {
       (ret, s) \<leftarrow> HX_sendfile_linux os count s;
       if ret \<noteq> Inl ENOSYS then Some (ret, s)
       else HX_sendfile_rw os ok count s
     }
   }"

section \<open>Reading whole files\<close>

text \<open>The loop for files that do not know their length. The result is what lies in front of the terminator.\<close>

partial_function (option) slurp_loop ::
  "'s os \<Rightarrow> (nat \<Rightarrow> bool) \<Rightarrow> nat \<Rightarrow> char list \<Rightarrow> 's \<Rightarrow> ((errno + char list) \<times> 's) option" where
  "slurp_loop os ok cap buf s =
     (if \<not> length buf < cap then None
      else case sys_read os (cap - 1 - length buf) s of
        (Inl e, s) \<Rightarrow> Some (Inr buf, s)
      | (Inr bs, s) \<Rightarrow>
         let bs = take (cap - 1 - length buf) bs in
         if bs = [] then Some (Inr buf, s)
         else if cap - length (buf @ bs) \<ge> 4095 then slurp_loop os ok cap (buf @ bs) s
         else if cap > SIZE_MAX div 2 then Some (Inr (buf @ bs), s)
         else if \<not> ok (cap * 2 + 1) then Some (Inl ENOMEM, s)
         else slurp_loop os ok (cap * 2) (buf @ bs) s)"

text \<open>\<open>st_size\<close> is the answer of \<^verbatim>\<open>fstat\<close>, converted to \<^verbatim>\<open>size_t\<close>.\<close>

definition HX_slurp_fd :: "'s os \<Rightarrow> (nat \<Rightarrow> bool) \<Rightarrow> errno + nat \<Rightarrow> 's \<Rightarrow> ((errno + char list) \<times> 's) option" where
  "HX_slurp_fd os ok st_size s =
     (case st_size of
        Inl e \<Rightarrow> Some (Inl e, s)
      | Inr fsize \<Rightarrow>
          if fsize = 0 then
            if \<not> ok 4096 then Some (Inl ENOMEM, s) else slurp_loop os ok 4096 [] s
          else
            let fsize = (if fsize = SIZE_MAX then fsize - 1 else fsize) in
            if \<not> ok (fsize + 1) then Some (Inl ENOMEM, s) else Some (HXio_fullread os fsize s))"

definition HX_slurp_file :: "'s os \<Rightarrow> (nat \<Rightarrow> bool) \<Rightarrow> ('s \<Rightarrow> errno + nat) \<Rightarrow> char list \<Rightarrow> 's \<Rightarrow> ((errno + char list) \<times> 's) option" where
  "HX_slurp_file os ok st_size file s =
     (case sys_open_src os file s of
        (Some e, s) \<Rightarrow> Some (Inl e, s)
      | (None, s) \<Rightarrow> do {
          (r, s) \<leftarrow> HX_slurp_fd os ok (st_size s) s;
          Some (r, sys_close os False s)
        })"

section \<open>Copying a file\<close>

definition HXF_UID :: u32 where "HXF_UID = 1"
definition HXF_GID :: u32 where "HXF_GID = 2"
definition HXF_KEEP :: u32 where "HXF_KEEP = 4"

definition opt_set :: "u32 \<Rightarrow> u32 \<Rightarrow> bool" where
  "opt_set opts f \<longleftrightarrow> opts AND f \<noteq> 0"

text \<open>The variable arguments: each option takes the next one. Behind the last there is nothing to take.\<close>

definition owner_args :: "u32 \<Rightarrow> int list \<Rightarrow> int \<Rightarrow> int \<Rightarrow> (int \<times> int) option" where
  "owner_args opts va uid gid = do {
     (uid, va) \<leftarrow> (if opt_set opts HXF_UID then (case va of [] \<Rightarrow> None | v # va \<Rightarrow> Some (v, va)) else Some (uid, va));
     (gid, va) \<leftarrow> (if opt_set opts HXF_GID then (case va of [] \<Rightarrow> None | v # va \<Rightarrow> Some (v, va)) else Some (gid, va));
     Some (uid, gid)
   }"

definition close_both :: "'s os \<Rightarrow> 's \<Rightarrow> 's" where
  "close_both os s = sys_close os True (sys_close os False s)"

partial_function (option) copy_loop :: "'s os \<Rightarrow> (nat \<Rightarrow> bool) \<Rightarrow> 's \<Rightarrow> ((errno + int) \<times> 's) option" where
  "copy_loop os ok s = do {
     (rdret, s) \<leftarrow> HX_sendfile os ok SIZE_MAX s;
     case rdret of
       Inl e \<Rightarrow> if e \<noteq> EINTR then Some (Inl e, close_both os s) else copy_loop os ok s
     | Inr n \<Rightarrow> if n = 0 then Some (Inr 1, close_both os s) else copy_loop os ok s
   }"

text \<open>The owner is changed before anything is copied.\<close>

definition copy_owner :: "'s os \<Rightarrow> char list \<Rightarrow> u32 \<Rightarrow> int list \<Rightarrow> 's \<Rightarrow> ((errno option) \<times> 's) option" where
  "copy_owner os dest opts va s =
     (case sys_fstat os s of
        (Inl e, s) \<Rightarrow> Some (Some e, sys_close os False (sys_close os True (snd (sys_unlink os dest s))))
      | (Inr (uid, gid, sz), s) \<Rightarrow> do {
          (uid, gid) \<leftarrow> owner_args opts va uid gid;
          case sys_fchown os uid gid s of
            (Some e, s) \<Rightarrow> Some (Some e, sys_close os False (sys_close os True (snd (sys_unlink os dest s))))
          | (None, s) \<Rightarrow> Some (None, s)
        })"

definition HX_copy_file :: "'s os \<Rightarrow> (nat \<Rightarrow> bool) \<Rightarrow> char list \<Rightarrow> char list \<Rightarrow> u32 \<Rightarrow> int list \<Rightarrow> 's \<Rightarrow> ((errno + int) \<times> 's) option" where
  "HX_copy_file os ok src dest opts va s =
     (if \<not> ok bufsize then Some (Inl ENOMEM, s)
      else case sys_open_src os src s of
        (Some e, s) \<Rightarrow> Some (Inl e, s)
      | (None, s) \<Rightarrow>
         (case sys_open_dst os dest (opt_set opts HXF_KEEP) s of
            (Some e, s) \<Rightarrow> Some (Inl e, sys_close os False s)
          | (None, s) \<Rightarrow>
             if opt_set opts (HXF_UID OR HXF_GID) then do {
               (e, s) \<leftarrow> copy_owner os dest opts va s;
               case e of Some e \<Rightarrow> Some (Inl e, s) | None \<Rightarrow> copy_loop os ok s
             }
             else copy_loop os ok s))"

section \<open>Copying a directory\<close>

definition S_IFMT :: "u32 \<Rightarrow> u32" where "S_IFMT m = m AND 61440"
definition S_ISREG :: "u32 \<Rightarrow> bool" where "S_ISREG m \<longleftrightarrow> S_IFMT m = 32768"
definition S_ISDIR :: "u32 \<Rightarrow> bool" where "S_ISDIR m \<longleftrightarrow> S_IFMT m = 16384"
definition S_ISLNK :: "u32 \<Rightarrow> bool" where "S_ISLNK m \<longleftrightarrow> S_IFMT m = 40960"
definition S_ISBLK :: "u32 \<Rightarrow> bool" where "S_ISBLK m \<longleftrightarrow> S_IFMT m = 24576"
definition S_ISCHR :: "u32 \<Rightarrow> bool" where "S_ISCHR m \<longleftrightarrow> S_IFMT m = 8192"
definition S_ISFIFO :: "u32 \<Rightarrow> bool" where "S_ISFIFO m \<longleftrightarrow> S_IFMT m = 4096"

definition dots :: "char list \<Rightarrow> bool" where
  "dots fn \<longleftrightarrow> fn = ''.'' \<or> fn = ''..''"

text \<open>\<open>snprintf (.., MAXFNLEN, ''%s/%s'', ..)\<close>.\<close>

definition child :: "char list \<Rightarrow> char list \<Rightarrow> char list" where
  "child dir fn = dir @ ''/'' @ fn"

definition cut_name :: "char list \<Rightarrow> char list" where
  "cut_name p = take (MAXFNLEN - 1) p"

text \<open>What is done behind the copy, whatever the kind of file.\<close>

definition copy_attrs :: "'s os \<Rightarrow> char list \<Rightarrow> int \<Rightarrow> int \<Rightarrow> u32 \<Rightarrow> 's \<Rightarrow> 's" where
  "copy_attrs os fdest uid gid mode s =
     (let s = sys_lchown os fdest uid gid s in
      if \<not> S_ISLNK mode then sys_chmod os fdest mode s else s)"

definition copy_link :: "'s os \<Rightarrow> char list \<Rightarrow> char list \<Rightarrow> 's \<Rightarrow> 's" where
  "copy_link os fsrc fdest s =
     (case sys_readlink os fsrc s of
        (Inl e, s) \<Rightarrow> sys_symlink os [] fdest s
      | (Inr pt, s) \<Rightarrow>
          if length (take (MAXFNLEN - 1) pt) < MAXFNLEN - 1 then sys_symlink os pt fdest s else s)"

text \<open>\<open>buf\<close> is what the buffers of \<open>HX_mkdir\<close> hold.\<close>

partial_function (option) copy_names ::
  "'s os \<Rightarrow> (nat \<Rightarrow> bool) \<Rightarrow> char list \<Rightarrow> char list \<Rightarrow> char list \<Rightarrow> u32 \<Rightarrow> int \<Rightarrow> int \<Rightarrow> char list list \<Rightarrow> 's \<Rightarrow> 's option" where
  "copy_names os ok buf src dest opts uid gid ns s =
     (case ns of
        [] \<Rightarrow> Some s
      | fn # ns \<Rightarrow>
          if dots fn then copy_names os ok buf src dest opts uid gid ns s
          else
            (let fsrc = cut_name (child src fn); fdest = cut_name (child dest fn) in
             case sys_lstat os fsrc s of
               (Inl e, s) \<Rightarrow> copy_names os ok buf src dest opts uid gid ns s
             | (Inr (st_mode, dev), s) \<Rightarrow>
                 (let mode = st_mode AND 511 in do {
                    s \<leftarrow>
                      (if S_ISREG mode then map_option snd (HX_copy_file os ok fsrc fdest opts [uid, gid] s)
                       else if S_ISDIR mode then do {
                         (r, s) \<leftarrow> HX_mkdir os buf buf fdest 511 s;
                         case sys_opendir os fsrc s of
                           (Inl e, s) \<Rightarrow> Some s
                         | (Inr sub, s) \<Rightarrow> do {
                             (u, g) \<leftarrow> owner_args opts [uid, gid] (- 1) (- 1);
                             copy_names os ok buf fsrc fdest opts u g sub s
                           }
                       }
                       else if S_ISLNK mode then Some (copy_link os fsrc fdest s)
                       else if S_ISBLK mode \<or> S_ISCHR mode then Some (sys_mknod os fdest mode dev s)
                       else if S_ISFIFO mode then Some (sys_mkfifo os fdest mode s)
                       else Some s);
                    copy_names os ok buf src dest opts uid gid ns (copy_attrs os fdest uid gid mode s)
                  })))"

definition HX_copy_dir :: "'s os \<Rightarrow> (nat \<Rightarrow> bool) \<Rightarrow> char list \<Rightarrow> char list \<Rightarrow> char list \<Rightarrow> u32 \<Rightarrow> int list \<Rightarrow> 's \<Rightarrow> (int \<times> 's) option" where
  "HX_copy_dir os ok buf src dest opts va s =
     (case sys_opendir os src s of
        (Inl e, s) \<Rightarrow> Some (0, s)
      | (Inr ns, s) \<Rightarrow> do {
          (uid, gid) \<leftarrow> owner_args opts va (- 1) (- 1);
          s \<leftarrow> copy_names os ok buf src dest opts uid gid ns s;
          Some (1, s)
        })"

section \<open>Removing a directory\<close>

text \<open>The results are the value returned, \<open>None\<close> being 0, and the value \<^verbatim>\<open>errno\<close> is left with: \<open>HXdir_read\<close> sets it to 0 before
  the end of the directory is seen, so that only \<^verbatim>\<open>rmdir\<close> sets it.\<close>

definition first_err :: "errno option \<Rightarrow> errno option \<Rightarrow> errno option" where
  "first_err ret e = (case ret of None \<Rightarrow> e | Some r \<Rightarrow> Some r)"

definition rr_finish :: "'s os \<Rightarrow> char list \<Rightarrow> errno option \<Rightarrow> 's \<Rightarrow> errno option \<times> errno option \<times> 's" where
  "rr_finish os dir ret s =
     (case sys_rmdir os dir s of
        (Some e, s) \<Rightarrow> (first_err ret (Some e), Some e, s)
      | (None, s) \<Rightarrow> (ret, None, s))"

partial_function (option) rr_names :: "'s os \<Rightarrow> char list \<Rightarrow> char list list \<Rightarrow> errno option \<Rightarrow> 's \<Rightarrow> (errno option \<times> 's) option" where
  "rr_names os dir ns ret s =
     (case ns of
        [] \<Rightarrow> Some (ret, s)
      | trav # ns \<Rightarrow>
          if dots trav then rr_names os dir ns ret s
          else
            let fn = child dir trav in
            case sys_lstat os fn s of
              (Inl e, s) \<Rightarrow> rr_names os dir ns (first_err ret (Some e)) s
            | (Inr (st_mode, dev), s) \<Rightarrow>
                if S_ISDIR st_mode then
                  (case sys_opendir os fn s of
                     (Inl e, s) \<Rightarrow> rr_names os dir ns (first_err ret (Some e)) s
                   | (Inr sub, s) \<Rightarrow> do {
                       (r, s) \<leftarrow> rr_names os fn sub None s;
                       case rr_finish os fn r s of (r, eno, s) \<Rightarrow> rr_names os dir ns (first_err ret eno) s
                     })
                else
                  (case sys_unlink os fn s of
                     (Some e, s) \<Rightarrow> rr_names os dir ns (first_err ret (Some e)) s
                   | (None, s) \<Rightarrow> rr_names os dir ns ret s))"

definition HX_rrmdir :: "'s os \<Rightarrow> char list \<Rightarrow> 's \<Rightarrow> (errno option \<times> 's) option" where
  "HX_rrmdir os dir s =
     (case sys_opendir os dir s of
        (Inl e, s) \<Rightarrow> Some (Some e, s)
      | (Inr ns, s) \<Rightarrow> do {
          (ret, s) \<leftarrow> rr_names os dir ns None s;
          case rr_finish os dir ret s of (ret, eno, s) \<Rightarrow> Some (ret, s)
        })"

section \<open>What reading and writing promises\<close>

text \<open>
  The documented behaviour of the system calls, as far as the theorems rely on it: \<open>rest\<close> is what can still be read from the
  source, \<open>out\<close> what was written to the destination. Reads and writes may be as short as they like. A read of nothing is the end of
  the file, a write of something writes at least a byte.
\<close>

definition reads :: "(nat \<Rightarrow> 's \<Rightarrow> (errno + char list) \<times> 's) \<Rightarrow> ('s \<Rightarrow> char list) \<Rightarrow> ('s \<Rightarrow> char list) \<Rightarrow> bool" where
  "reads f rest out \<longleftrightarrow> (\<forall>n s r s1. f n s = (r, s1) \<longrightarrow> out s1 = out s \<and>
     (\<exists>bs. r = Inr bs \<and> length bs \<le> n \<and> rest s = bs @ rest s1 \<and> (bs = [] \<longrightarrow> n = 0 \<or> rest s = [])))"

definition writes :: "(char list \<Rightarrow> 's \<Rightarrow> (errno + nat) \<times> 's) \<Rightarrow> ('s \<Rightarrow> char list) \<Rightarrow> ('s \<Rightarrow> char list) \<Rightarrow> bool" where
  "writes f rest out \<longleftrightarrow> (\<forall>buf s r s1. f buf s = (r, s1) \<longrightarrow> rest s1 = rest s \<and>
     (\<exists>k. r = Inr k \<and> k \<le> length buf \<and> out s1 = out s @ take k buf \<and> (k = 0 \<longrightarrow> buf = [])))"

definition moves :: "(nat \<Rightarrow> 's \<Rightarrow> (errno + nat) \<times> 's) \<Rightarrow> ('s \<Rightarrow> char list) \<Rightarrow> ('s \<Rightarrow> char list) \<Rightarrow> bool" where
  "moves f rest out \<longleftrightarrow> (\<forall>n s r s1. f n s = (r, s1) \<longrightarrow>
     (\<exists>k. r = Inr k \<and> k \<le> n \<and> out s1 = out s @ take k (rest s) \<and> rest s1 = drop k (rest s) \<and> k \<le> length (rest s) \<and>
       (k = 0 \<longrightarrow> n = 0 \<or> rest s = [])))"

lemma readsE:
  assumes "reads f rest out"
  obtains bs s1 where "f n s = (Inr bs, s1)" "length bs \<le> n" "rest s = bs @ rest s1" "out s1 = out s"
    "bs = [] \<Longrightarrow> n = 0 \<or> rest s = []"
  using assms unfolding reads_def by (cases "f n s") blast

lemma writesE:
  assumes "writes f rest out"
  obtains k s1 where "f buf s = (Inr k, s1)" "k \<le> length buf" "out s1 = out s @ take k buf" "rest s1 = rest s"
    "k = 0 \<Longrightarrow> buf = []"
  using assms unfolding writes_def by (cases "f buf s") blast

lemma movesE:
  assumes "moves f rest out"
  obtains k s1 where "f n s = (Inr k, s1)" "k \<le> n" "k \<le> length (rest s)" "out s1 = out s @ take k (rest s)" "rest s1 = drop k (rest s)"
    "k = 0 \<Longrightarrow> n = 0 \<or> rest s = []"
  using assms unfolding moves_def by (cases "f n s") blast

lemma text_os_simps [simp]:
  "reads (sys_read text_os) fst snd" "writes (sys_write text_os) fst snd" "moves (sys_cfr text_os) fst snd"
  "sys_open_src text_os p s = (None, s)" "sys_open_dst text_os p x s = (None, (fst s, []))" "sys_close text_os x s = s"
  by (auto simp: text_os_def null_os_def reads_def writes_def moves_def min_def split: prod.splits if_splits)

lemma fullread_loop_all:
  assumes r: "reads (sys_read os) rest out"
  shows "\<exists>s1. fullread_loop os n buf s = (Inr (buf @ take n (rest s)), s1) \<and> rest s1 = drop n (rest s) \<and> out s1 = out s"
proof (induction n arbitrary: buf s rule: less_induct)
  case (less n)
  show ?case
  proof (cases "n = 0")
    case True
    then show ?thesis by (subst fullread_loop.simps) simp
  next
    case False
    obtain bs s1 where b: "sys_read os n s = (Inr bs, s1)" "length bs \<le> n" "rest s = bs @ rest s1" "out s1 = out s"
      "bs = [] \<Longrightarrow> n = 0 \<or> rest s = []"
      using readsE [OF r, of n s] by blast
    show ?thesis
    proof (cases "bs = []")
      case True
      then show ?thesis using False b by (subst fullread_loop.simps) auto
    next
      case ne: False
      then have "n - length bs < n" using False by simp
      from less.IH [OF this, of "buf @ bs" s1] obtain s2 where
        "fullread_loop os (n - length bs) (buf @ bs) s1 = (Inr ((buf @ bs) @ take (n - length bs) (rest s1)), s2)"
        "rest s2 = drop (n - length bs) (rest s1)" "out s2 = out s1" by blast
      then show ?thesis using False ne b(1,2,3,4) by (subst fullread_loop.simps) auto
    qed
  qed
qed

lemma fullwrite_loop_all:
  assumes w: "writes (sys_write os) rest out"
  shows "\<exists>s1. fullwrite_loop os buf k s = (Inr (k + length buf), s1) \<and> out s1 = out s @ buf \<and> rest s1 = rest s"
proof (induction "length buf" arbitrary: buf k s rule: less_induct)
  case less
  show ?case
  proof (cases "buf = []")
    case True
    then show ?thesis by (subst fullwrite_loop.simps) simp
  next
    case False
    obtain j s1 where b: "sys_write os buf s = (Inr j, s1)" "j \<le> length buf" "out s1 = out s @ take j buf" "rest s1 = rest s"
      "j = 0 \<Longrightarrow> buf = []"
      using writesE [OF w, of buf s] by blast
    then have j: "j \<noteq> 0" using False by blast
    then have "length (drop j buf) < length buf" using False by simp
    from less [OF this, of "k + min j (length buf)" s1] obtain s2 where
      "fullwrite_loop os (drop j buf) (k + min j (length buf)) s1 = (Inr (k + min j (length buf) + length (drop j buf)), s2)"
      "out s2 = out s1 @ drop j buf" "rest s2 = rest s1" by blast
    then show ?thesis using False j b(1-4) by (subst fullwrite_loop.simps) (auto simp: min_def)
  qed
qed

lemma HXio_fullread_all:
  assumes "reads (sys_read os) rest out" "n \<le> SSIZE_MAX"
  obtains s1 where "HXio_fullread os n s = (Inr (take n (rest s)), s1)" "rest s1 = drop n (rest s)" "out s1 = out s"
  using fullread_loop_all [OF assms(1), of n "[]" s] assms(2) by (auto simp: HXio_fullread_def)

lemma HXio_fullwrite_all:
  assumes "writes (sys_write os) rest out" "length buf \<le> SSIZE_MAX"
  obtains s1 where "HXio_fullwrite os buf (length buf) s = (Inr (length buf), s1)" "out s1 = out s @ buf" "rest s1 = rest s"
  using fullwrite_loop_all [OF assms(1), of buf 0 s] assms(2) by (auto simp: HXio_fullwrite_def)

lemma xfer_loop_all:
  assumes m: "moves f rest out" and c: "0 < count"
  shows "\<exists>s1. xfer_loop f count k s = Some (Inr (k + length (rest s)), s1) \<and> rest s1 = [] \<and> out s1 = out s @ rest s"
proof (induction "length (rest s)" arbitrary: k s rule: less_induct)
  case less
  obtain j s1 where b: "f count s = (Inr j, s1)" "j \<le> count" "j \<le> length (rest s)" "out s1 = out s @ take j (rest s)"
    "rest s1 = drop j (rest s)" "j = 0 \<Longrightarrow> count = 0 \<or> rest s = []"
    using movesE [OF m, of count s] by blast
  show ?case
  proof (cases "j = 0")
    case True
    then have "rest s = []" using b(6) c by simp
    then show ?thesis using True b by (subst xfer_loop.simps) simp
  next
    case False
    then have "length (rest s1) < length (rest s)" using b(3,5) by simp
    from less [OF this, of "k + j"] obtain s2 where
      "xfer_loop f count (k + j) s1 = Some (Inr (k + j + length (rest s1)), s2)" "rest s2 = []" "out s2 = out s1 @ rest s1" by blast
    then show ?thesis using False b(1,3,4,5) by (subst xfer_loop.simps) simp
  qed
qed

lemma sendfile_cfr:
  assumes "moves (sys_cfr os) rest out" "0 < count"
  obtains s1 where "HX_sendfile os ok count s = Some (Inr (length (rest s)), s1)" "rest s1 = []" "out s1 = out s @ rest s"
proof -
  have "0 < (if xfersize < count then xfersize else count)" using assms(2) by (simp add: xfersize_def)
  from xfer_loop_all [OF assms(1) this, of 0 s] that show thesis by (auto simp: HX_sendfile_def HX_cfr_linux_def)
qed

lemma rw_loop_all:
  assumes r: "reads (sys_read os) rest out" and w: "writes (sys_write os) rest out"
  shows "count \<le> length (rest s) \<Longrightarrow>
    \<exists>s1. rw_loop os count k s = Some (Inr (k + count), s1) \<and> rest s1 = drop count (rest s) \<and> out s1 = out s @ take count (rest s)"
proof (induction count arbitrary: k s rule: less_induct)
  case (less count)
  show ?case
  proof (cases "count = 0")
    case True
    then show ?thesis by (subst rw_loop.simps) simp
  next
    case False
    let ?n = "if count < bufsize then count else bufsize"
    have n: "?n \<le> SSIZE_MAX" "?n \<le> count" "0 < ?n" using False by (auto simp: bufsize_def SSIZE_MAX_def)
    obtain s1 where s1: "HXio_fullread os ?n s = (Inr (take ?n (rest s)), s1)" "rest s1 = drop ?n (rest s)" "out s1 = out s"
      by (rule HXio_fullread_all [OF r n(1)])
    have l: "length (take ?n (rest s)) = ?n" using n(2) less.prems by simp
    obtain s2 where s2: "HXio_fullwrite os (take ?n (rest s)) ?n s1 = (Inr ?n, s2)" "out s2 = out s1 @ take ?n (rest s)" "rest s2 = rest s1"
      using HXio_fullwrite_all [OF w, of "take ?n (rest s)" s1] n(1) unfolding l by blast
    have "count - ?n < count" "count - ?n \<le> length (rest s2)" using n(3) False less.prems s1(2) s2(3) by auto
    from less.IH [OF this, of "k + ?n"] obtain s3 where s3:
      "rw_loop os (count - ?n) (k + ?n) s2 = Some (Inr (k + ?n + (count - ?n)), s3)"
      "rest s3 = drop (count - ?n) (rest s2)" "out s3 = out s2 @ take (count - ?n) (rest s2)" by blast
    have "rw_loop os count k s = rw_loop os (count - ?n) (k + ?n) s2"
      by (subst rw_loop.simps) (simp only: False if_False s1(1) s2(1) l prod.case sum.case)
    moreover have "take ?n (rest s) @ take (count - ?n) (drop ?n (rest s)) = take count (rest s)"
      using n(2) by (metis le_add_diff_inverse take_add)
    ultimately show ?thesis using s3 s2 s1 n(2) by simp
  qed
qed

lemma rw_loop_stuck:
  assumes r: "reads (sys_read os) rest out" and w: "writes (sys_write os) rest out"
  shows "rw_loop os count k s = Some y \<Longrightarrow> count \<le> length (rest s)"
proof -
  have "reads (sys_read os) rest out \<longrightarrow> writes (sys_write os) rest out \<longrightarrow> count \<le> length (rest s)"
    if "rw_loop os count k s = Some y"
    using that
  proof (rule rw_loop.raw_induct [rotated, where P = "\<lambda>os count k s y. reads (sys_read os) rest out \<longrightarrow>
      writes (sys_write os) rest out \<longrightarrow> count \<le> length (rest s)"], intro impI)
    fix g os count k s y
    assume ih: "\<And>os count k s y. g os count k s = Some y \<Longrightarrow>
        reads (sys_read os) rest out \<longrightarrow> writes (sys_write os) rest out \<longrightarrow> count \<le> length (rest s)"
      and b: "(if count = 0 then Some (Inr k, s)
         else case HXio_fullread os (if count < bufsize then count else bufsize) s of
            (Inl e, s) \<Rightarrow> Some (if 0 < k then Inr k else Inl e, s)
          | (Inr buf, s) \<Rightarrow> (case HXio_fullwrite os buf (length buf) s of
               (Inl e, s) \<Rightarrow> Some (if 0 < k then Inr k else Inl e, s)
             | (Inr ret, s) \<Rightarrow> g os (count - ret) (k + ret) s)) = Some y"
      and r: "reads (sys_read os) rest out" and w: "writes (sys_write os) rest out"
    let ?n = "if count < bufsize then count else bufsize"
    have n: "?n \<le> SSIZE_MAX" "?n \<le> count" by (auto simp: bufsize_def SSIZE_MAX_def)
    obtain s1 where s1: "HXio_fullread os ?n s = (Inr (take ?n (rest s)), s1)" "rest s1 = drop ?n (rest s)"
      using HXio_fullread_all [OF r n(1)] by metis
    have "length (take ?n (rest s)) \<le> SSIZE_MAX" using n(1) by simp
    then obtain s2 where s2: "HXio_fullwrite os (take ?n (rest s)) (length (take ?n (rest s))) s1 = (Inr (length (take ?n (rest s))), s2)"
      "rest s2 = rest s1"
      using HXio_fullwrite_all [OF w] by metis
    show "count \<le> length (rest s)"
    proof (cases "count = 0")
      case False
      then have "g os (count - length (take ?n (rest s))) (k + length (take ?n (rest s))) s2 = Some y"
        using b by (simp only: if_False s1(1) s2(1) prod.case sum.case)
      from ih [OF this] have "count - length (take ?n (rest s)) \<le> length (rest s1)" using r w s2(2) by simp
      then show ?thesis using s1(2) by simp
    qed simp
  qed
  then show "rw_loop os count k s = Some y \<Longrightarrow> count \<le> length (rest s)" using r w by blast
qed

lemma sendfile_rw:
  assumes "\<And>n s. sys_cfr os n s = (Inl ENOSYS, s)" "\<And>n s. sys_sendfile os n s = (Inl ENOSYS, s)"
  shows "HX_sendfile os ok count s = HX_sendfile_rw os ok count s"
proof -
  have "xfer_loop (sys_cfr os) n 0 s = Some (Inl ENOSYS, s)" "xfer_loop (sys_sendfile os) n 0 s = Some (Inl ENOSYS, s)" for n
    using assms by (subst xfer_loop.simps, simp)+
  then show ?thesis by (simp add: HX_sendfile_def HX_cfr_linux_def HX_sendfile_linux_def)
qed

lemma sendfile_rw_count:
  assumes r: "reads (sys_read os) rest out" and w: "writes (sys_write os) rest out" and ok: "ok bufsize"
  shows "count \<le> SSIZE_MAX \<Longrightarrow> count \<le> length (rest s) \<Longrightarrow> \<exists>s1. HX_sendfile_rw os ok count s = Some (Inr count, s1) \<and>
      rest s1 = drop count (rest s) \<and> out s1 = out s @ take count (rest s)"
    and "length (rest s) < min count SSIZE_MAX \<Longrightarrow> HX_sendfile_rw os ok count s = None"
proof -
  show "count \<le> SSIZE_MAX \<Longrightarrow> count \<le> length (rest s) \<Longrightarrow> \<exists>s1. HX_sendfile_rw os ok count s = Some (Inr count, s1) \<and>
      rest s1 = drop count (rest s) \<and> out s1 = out s @ take count (rest s)"
    using rw_loop_all [OF r w, of count s 0] ok by (simp add: HX_sendfile_rw_def)
  assume l: "length (rest s) < min count SSIZE_MAX"
  have "\<not> min count SSIZE_MAX \<le> length (rest s)" by (rule not_le [THEN iffD2, OF l])
  then have "rw_loop os (min count SSIZE_MAX) 0 s = None" using rw_loop_stuck [OF r w, of "min count SSIZE_MAX" 0 s] by (cases "rw_loop os (min count SSIZE_MAX) 0 s") blast+
  moreover have "(if SSIZE_MAX < count then SSIZE_MAX else count) = min count SSIZE_MAX" by simp
  ultimately show "HX_sendfile_rw os ok count s = None" using ok by (simp add: HX_sendfile_rw_def)
qed

text \<open>C35: Where the kernel copies (\<^verbatim>\<open>copy_file_range\<close>), \<open>HX_sendfile\<close> copies all the source holds, however few bytes were asked
  for. Where it does not and the library reads and writes itself, exactly the bytes asked for are copied when the source has as many,
  and the call never returns when it has fewer.\<close>

theorem HX_sendfile_count:
  assumes "ok bufsize" "0 < count" "count \<le> SSIZE_MAX"
  shows "(moves (sys_cfr os) rest out \<longrightarrow>
      (\<exists>s1. HX_sendfile os ok count s = Some (Inr (length (rest s)), s1) \<and> rest s1 = [] \<and> out s1 = out s @ rest s)) \<and>
    ((\<forall>n s. sys_cfr os n s = (Inl ENOSYS, s) \<and> sys_sendfile os n s = (Inl ENOSYS, s)) \<and>
      reads (sys_read os) rest out \<and> writes (sys_write os) rest out \<longrightarrow>
      (if count \<le> length (rest s)
       then \<exists>s1. HX_sendfile os ok count s = Some (Inr count, s1) \<and> rest s1 = drop count (rest s) \<and> out s1 = out s @ take count (rest s)
       else HX_sendfile os ok count s = None))"
proof -
  have "\<exists>s1. HX_sendfile os ok count s = Some (Inr (length (rest s)), s1) \<and> rest s1 = [] \<and> out s1 = out s @ rest s"
    if "moves (sys_cfr os) rest out"
    using sendfile_cfr [OF that assms(2)] by blast
  moreover have "if count \<le> length (rest s)
       then \<exists>s1. HX_sendfile os ok count s = Some (Inr count, s1) \<and> rest s1 = drop count (rest s) \<and> out s1 = out s @ take count (rest s)
       else HX_sendfile os ok count s = None"
    if "\<forall>n s. sys_cfr os n s = (Inl ENOSYS, s) \<and> sys_sendfile os n s = (Inl ENOSYS, s)"
      "reads (sys_read os) rest out" "writes (sys_write os) rest out"
  proof -
    have e: "HX_sendfile os ok count s = HX_sendfile_rw os ok count s" by (rule sendfile_rw) (use that(1) in simp_all)
    show ?thesis using sendfile_rw_count [where ok = ok and count = count and s = s, OF that(2,3) assms(1)] assms(3) unfolding e by auto
  qed
  ultimately show ?thesis by blast
qed

theorem HX_sendfile_count_witness:
  "\<exists>s1. HX_sendfile text_os (\<lambda>_. True) 1 (''abc'', []) = Some (Inr 3, s1) \<and> fst s1 = [] \<and> snd s1 = ''abc''"
  using HX_sendfile_count [of "\<lambda>_. True" 1 text_os fst snd "(''abc'', [])"] by (simp add: SSIZE_MAX_def)

lemma copy_loop_all:
  assumes m: "moves (sys_cfr os) rest out"
  shows "\<exists>s1. copy_loop os ok s = Some (Inr 1, close_both os s1) \<and> rest s1 = [] \<and> out s1 = out s @ rest s"
proof -
  have p: "0 < SIZE_MAX" by (simp add: SIZE_MAX_def)
  obtain s1 where s1: "HX_sendfile os ok SIZE_MAX s = Some (Inr (length (rest s)), s1)" "rest s1 = []" "out s1 = out s @ rest s"
    by (rule sendfile_cfr [OF m p])
  obtain s2 where s2: "HX_sendfile os ok SIZE_MAX s1 = Some (Inr 0, s2)" "rest s2 = []" "out s2 = out s1"
    using sendfile_cfr [OF m p, of ok s1] s1(2) by auto
  have two: "copy_loop os ok s1 = Some (Inr 1, close_both os s2)" by (subst copy_loop.simps) (simp add: s2)
  show ?thesis
  proof (cases "rest s = []")
    case True
    then have "copy_loop os ok s = Some (Inr 1, close_both os s1)" by (subst copy_loop.simps) (use s1(1) in simp)
    then show ?thesis using s1 by blast
  next
    case False
    then have "copy_loop os ok s = copy_loop os ok s1" by (subst copy_loop.simps) (simp add: s1(1))
    then show ?thesis using two s1 s2 by auto
  qed
qed

lemma copy_loop_hangs:
  assumes "\<And>n s. sys_cfr os n s = (Inl ENOSYS, s)" "\<And>n s. sys_sendfile os n s = (Inl ENOSYS, s)"
    and "reads (sys_read os) rest out" "writes (sys_write os) rest out" "ok bufsize" "length (rest s) < SSIZE_MAX"
  shows "copy_loop os ok s = None"
proof -
  have "length (rest s) < min SIZE_MAX SSIZE_MAX" using assms(6) by (simp add: SSIZE_MAX_def SIZE_MAX_def)
  then have "HX_sendfile os ok SIZE_MAX s = None"
    unfolding sendfile_rw [OF assms(1,2)] by (rule sendfile_rw_count(2) [where ok = ok, OF assms(3,4,5)])
  then show ?thesis by (subst copy_loop.simps) simp
qed

text \<open>C36: When the files can be opened and the kernel copies, \<open>HX_copy_file\<close> returns 1 with the whole source written to the
  destination; without the help of the kernel it never returns, however short the source is. (\<open>SSIZE_MAX\<close> bytes are asked for.)\<close>

theorem HX_copy_file_copies:
  assumes "ok bufsize" "\<not> opt_set opts (HXF_UID OR HXF_GID)" "sys_open_src os src s = (None, s1)"
    and "sys_open_dst os dest (opt_set opts HXF_KEEP) s1 = (None, s2)"
  shows "(moves (sys_cfr os) rest out \<longrightarrow>
      (\<exists>s3. HX_copy_file os ok src dest opts va s = Some (Inr 1, close_both os s3) \<and> rest s3 = [] \<and> out s3 = out s2 @ rest s2)) \<and>
    ((\<forall>n s. sys_cfr os n s = (Inl ENOSYS, s) \<and> sys_sendfile os n s = (Inl ENOSYS, s)) \<and>
      reads (sys_read os) rest out \<and> writes (sys_write os) rest out \<and> length (rest s2) < SSIZE_MAX \<longrightarrow>
      HX_copy_file os ok src dest opts va s = None)"
proof -
  have e: "HX_copy_file os ok src dest opts va s = copy_loop os ok s2"
    using assms by (simp add: HX_copy_file_def)
  have "copy_loop os ok s2 = None"
    if "\<forall>n s. sys_cfr os n s = (Inl ENOSYS, s) \<and> sys_sendfile os n s = (Inl ENOSYS, s)"
      "reads (sys_read os) rest out" "writes (sys_write os) rest out" "length (rest s2) < SSIZE_MAX"
    by (rule copy_loop_hangs [where ok = ok, OF _ _ that(2,3) assms(1) that(4)]) (use that(1) in blast)+
  then show ?thesis unfolding e using copy_loop_all [of os rest out ok s2] by blast
qed

theorem HX_copy_file_copies_witness:
  "\<exists>s3. HX_copy_file text_os (\<lambda>_. True) ''from'' ''to'' 0 [] (''abc'', []) = Some (Inr 1, close_both text_os s3) \<and>
     fst s3 = [] \<and> snd s3 = ''abc''"
  using HX_copy_file_copies [of "\<lambda>_. True" 0 text_os "''from''" "(''abc'', [])" "(''abc'', [])" "''to''" "(''abc'', [])" fst snd "[]"]
  by (simp add: opt_set_def)

lemma slurp_loop_all:
  assumes r: "reads (sys_read os) rest out" and ok: "\<And>n. ok n" and l: "length buf + length (rest s) < 2 ^ 62"
    and "length buf + 1 < cap" "cap \<le> 2 * length buf + 2 * 4096"
  shows "\<exists>s1. slurp_loop os ok cap buf s = Some (Inr (buf @ rest s), s1) \<and> rest s1 = []"
  using l assms(4,5)
proof (induction "length (rest s)" arbitrary: s buf cap rule: less_induct)
  case less
  obtain bs s1 where b: "sys_read os (cap - 1 - length buf) s = (Inr bs, s1)" "length bs \<le> cap - 1 - length buf"
    "rest s = bs @ rest s1" "bs = [] \<Longrightarrow> cap - 1 - length buf = 0 \<or> rest s = []"
    using readsE [OF r, of "cap - 1 - length buf" s] by metis
  show ?case
  proof (cases "bs = []")
    case True
    then have "rest s = []" using b(4) less.prems(2) by auto
    then show ?thesis using True b(1,3) less.prems(2) by (subst slurp_loop.simps) simp
  next
    case False
    have sh: "length (rest s1) < length (rest s)" using b(3) False by simp
    have l1: "length (buf @ bs) + length (rest s1) < 2 ^ 62" using less.prems(1) b(3) by simp
    have fin: "\<exists>s2. slurp_loop os ok c (buf @ bs) s1 = Some (Inr (buf @ rest s), s2) \<and> rest s2 = []"
      if "length (buf @ bs) + 1 < c" "c \<le> 2 * length (buf @ bs) + 2 * 4096" for c
      using less.hyps [OF sh l1 that] b(3) by auto
    show ?thesis
    proof (cases "4095 \<le> cap - length (buf @ bs)")
      case True
      have "slurp_loop os ok cap buf s = slurp_loop os ok cap (buf @ bs) s1"
        using False True b(1,2) less.prems(2) by (subst slurp_loop.simps) (simp add: Let_def)
      then show ?thesis using fin [of cap] True less.prems(3) by simp
    next
      case full: False
      have "cap \<le> length (buf @ bs) + 4095" using full by simp
      then have "\<not> SIZE_MAX div 2 < cap" using less.prems(1) b(3) by (simp add: SIZE_MAX_def)
      then have "slurp_loop os ok cap buf s = slurp_loop os ok (cap * 2) (buf @ bs) s1"
        using False full b(1,2) less.prems(2) ok by (subst slurp_loop.simps) (simp add: Let_def)
      moreover have "length (buf @ bs) + 1 < cap * 2" "cap * 2 \<le> 2 * length (buf @ bs) + 2 * 4096"
        using full b(2) less.prems(2) by simp_all
      ultimately show ?thesis using fin [of "cap * 2"] by simp
    qed
  qed
qed

text \<open>C37: \<open>HX_slurp_fd\<close> returns: for a file that reports its size the bytes of the file up to that size, and for one that
  reports the size 0 everything that can be read, growing its buffer as needed without writing behind it.\<close>

theorem HX_slurp_fd_reads:
  assumes "reads (sys_read os) rest out" "\<forall>n. ok n" "length (rest s) < 2 ^ 62" "n < 2 ^ 63"
  shows "\<exists>s1. HX_slurp_fd os ok (Inr n) s = Some (Inr (if n = 0 then rest s else take n (rest s)), s1)"
proof (cases "n = 0")
  case True
  have "\<exists>s1. slurp_loop os ok 4096 [] s = Some (Inr ([] @ rest s), s1) \<and> rest s1 = []"
    by (rule slurp_loop_all [OF assms(1)]) (use assms(2,3) in simp_all)
  then show ?thesis using True assms(2) by (auto simp: HX_slurp_fd_def)
next
  case False
  have n: "n \<le> SSIZE_MAX" "n \<noteq> SIZE_MAX" using assms(4) by (simp_all add: SSIZE_MAX_def SIZE_MAX_def)
  obtain s1 where "HXio_fullread os n s = (Inr (take n (rest s)), s1)" by (rule HXio_fullread_all [OF assms(1) n(1)])
  then show ?thesis using False n(2) assms(2) by (simp add: HX_slurp_fd_def Let_def)
qed

theorem HX_slurp_fd_reads_witness:
  "\<exists>s1. HX_slurp_fd text_os (\<lambda>_. True) (Inr 2) (''abc'', []) = Some (Inr ''ab'', s1)"
  using HX_slurp_fd_reads [of text_os fst snd "\<lambda>_. True" "(''abc'', [])" 2] by simp

section \<open>What the directory operations do\<close>

lemma no_type:
  "\<not> S_ISREG (m AND 511)" "\<not> S_ISDIR (m AND 511)" "\<not> S_ISLNK (m AND 511)" "\<not> S_ISBLK (m AND 511)"
  "\<not> S_ISCHR (m AND 511)" "\<not> S_ISFIFO (m AND 511)"
proof -
  have "S_IFMT (m AND 511) = 0" unfolding S_IFMT_def by (simp add: and.assoc)
  then show "\<not> S_ISREG (m AND 511)" "\<not> S_ISDIR (m AND 511)" "\<not> S_ISLNK (m AND 511)" "\<not> S_ISBLK (m AND 511)"
    "\<not> S_ISCHR (m AND 511)" "\<not> S_ISFIFO (m AND 511)"
    by (simp_all add: S_ISREG_def S_ISDIR_def S_ISLNK_def S_ISBLK_def S_ISCHR_def S_ISFIFO_def)
qed

lemma copy_names_attrs:
  assumes l: "\<And>p s. obs (snd (sys_lstat os p s)) = obs s" and o: "\<And>p u g s. obs (sys_lchown os p u g s) = obs s"
    and m: "\<And>p m s. obs (sys_chmod os p m s) = obs s"
  shows "\<exists>s1. copy_names os ok buf src dest opts uid gid ns s = Some s1 \<and> obs s1 = obs s"
proof (induction ns arbitrary: s)
  case Nil
  then show ?case by (subst copy_names.simps) simp
next
  case (Cons fn ns)
  let ?src = "cut_name (child src fn)" and ?dest = "cut_name (child dest fn)"
  obtain r s1 where r: "sys_lstat os ?src s = (r, s1)" by fastforce
  have k: "obs s1 = obs s" using l [of ?src s] r by simp
  have a: "obs (copy_attrs os ?dest uid gid mode s1) = obs s" for mode
    using k by (simp add: copy_attrs_def Let_def o m)
  have e: "copy_names os ok buf src dest opts uid gid (fn # ns) s =
      copy_names os ok buf src dest opts uid gid ns
        (if dots fn then s else case r of Inl e \<Rightarrow> s1 | Inr (st_mode, dev) \<Rightarrow> copy_attrs os ?dest uid gid (st_mode AND 511) s1)"
    by (subst copy_names.simps) (simp add: Let_def r no_type split: sum.split)
  have "obs (if dots fn then s else case r of Inl e \<Rightarrow> s1 | Inr (st_mode, dev) \<Rightarrow> copy_attrs os ?dest uid gid (st_mode AND 511) s1) = obs s"
    using k a by (simp split: sum.split prod.split)
  then show ?case unfolding e using Cons.IH by metis
qed

text \<open>C39: \<open>HX_copy_dir\<close> clears the file type along with the special bits before it tests it, so it copies nothing: it calls nothing but
  \<^verbatim>\<open>opendir\<close>, \<^verbatim>\<open>lstat\<close>, \<^verbatim>\<open>lchown\<close> and \<^verbatim>\<open>chmod\<close> (so any observation these keep, as that of the files there are, is kept), and it
  returns 1 nevertheless.\<close>

theorem HX_copy_dir_copies_nothing:
  assumes "\<And>p s. obs (snd (sys_opendir os p s)) = obs s" and "\<And>p s. obs (snd (sys_lstat os p s)) = obs s"
    and "\<And>p u g s. obs (sys_lchown os p u g s) = obs s" and "\<And>p m s. obs (sys_chmod os p m s) = obs s"
    and "owner_args opts va (- 1) (- 1) = Some (uid, gid)"
  shows "\<exists>r s1. HX_copy_dir os ok buf src dest opts va s = Some (r, s1) \<and> obs s1 = obs s \<and>
    (r = 1 \<longleftrightarrow> (\<exists>ns. fst (sys_opendir os src s) = Inr ns))"
proof -
  obtain r s1 where r: "sys_opendir os src s = (r, s1)" by fastforce
  have k: "obs s1 = obs s" using assms(1) [of src s] r by simp
  show ?thesis
  proof (cases r)
    case (Inl e)
    then show ?thesis using r k by (simp add: HX_copy_dir_def)
  next
    case (Inr ns)
    obtain s2 where "copy_names os ok buf src dest opts uid gid ns s1 = Some s2" "obs s2 = obs s1"
      using copy_names_attrs [where obs = obs and os = os, OF assms(2-4)] by blast
    then show ?thesis using Inr r k assms(5) by (simp add: HX_copy_dir_def)
  qed
qed

theorem HX_copy_dir_copies_nothing_witness:
  "\<exists>r s1. HX_copy_dir (null_os\<lparr>sys_opendir := \<lambda>p s. (Inr [''.'', ''a''], s), sys_lstat := \<lambda>p s. (Inr (33188, 0), s)\<rparr>)
      (\<lambda>_. True) [] ''from'' ''to'' 0 [] ''files'' = Some (r, s1) \<and> s1 = ''files'' \<and> r = 1"
  using HX_copy_dir_copies_nothing [of "\<lambda>s. s" "null_os\<lparr>sys_opendir := \<lambda>p s. (Inr [''.'', ''a''], s), sys_lstat := \<lambda>p s. (Inr (33188, 0), s)\<rparr>"
      0 "[]" "- 1" "- 1" "\<lambda>_. True" "[]" "''from''" "''to''" "''files''"]
  by (simp add: null_os_def owner_args_def opt_set_def)

text \<open>
  A tree of files as the calls see it: \<open>view s p\<close> tells whether there is something at the path \<open>p\<close>, and whether it is a
  directory. Every path in a directory leads through entries of the directory.
\<close>

definition slash_free :: "char list \<Rightarrow> bool" where
  "slash_free n \<longleftrightarrow> CHR ''/'' \<notin> set n"

definition below :: "char list \<Rightarrow> char list \<Rightarrow> bool" where
  "below d q \<longleftrightarrow> (\<exists>r. q = child d r)"

definition first_name :: "char list \<Rightarrow> char list" where
  "first_name r = takeWhile (\<lambda>c. c \<noteq> CHR ''/'') r"

definition wf_tree :: "(char list \<rightharpoonup> bool) \<Rightarrow> bool" where
  "wf_tree v \<longleftrightarrow> finite (dom v) \<and>
     (\<forall>d r. v d = Some True \<longrightarrow> v (child d r) \<noteq> None \<longrightarrow> \<not> dots (first_name r) \<and> v (child d (first_name r)) \<noteq> None) \<and>
     (\<forall>p r. v p = Some False \<longrightarrow> v (child p r) = None)"

definition tree_os :: "'s os \<Rightarrow> ('s \<Rightarrow> char list \<rightharpoonup> bool) \<Rightarrow> bool" where
  "tree_os os view \<longleftrightarrow>
     (\<forall>p s. view s p = Some True \<longrightarrow> (\<exists>ns s1. sys_opendir os p s = (Inr ns, s1) \<and> view s1 = view s \<and> distinct ns \<and>
        (\<forall>n. \<not> dots n \<longrightarrow> (n \<in> set ns \<longleftrightarrow> view s (child p n) \<noteq> None \<and> slash_free n)))) \<and>
     (\<forall>p s d. view s p = Some d \<longrightarrow> (\<exists>m dev s1. sys_lstat os p s = (Inr (m, dev), s1) \<and> view s1 = view s \<and> (S_ISDIR m \<longleftrightarrow> d))) \<and>
     (\<forall>p s. view s p = Some False \<longrightarrow> (\<exists>s1. sys_unlink os p s = (None, s1) \<and> view s1 = (view s)(p := None))) \<and>
     (\<forall>p s. view s p = Some True \<longrightarrow> (\<forall>r. view s (child p r) = None) \<longrightarrow>
        (\<exists>s1. sys_rmdir os p s = (None, s1) \<and> view s1 = (view s)(p := None)))"

definition without :: "(char list \<rightharpoonup> bool) \<Rightarrow> char list \<Rightarrow> char list \<rightharpoonup> bool" where
  "without v p = (\<lambda>q. if q = p \<or> below p q then None else v q)"

lemma below_trans: "below p q \<Longrightarrow> below q r \<Longrightarrow> below p r"
  by (auto simp: below_def child_def)

lemma below_child [simp]: "below d (child d n)"
  by (auto simp: below_def)

lemma below_longer: "below d q \<Longrightarrow> length d < length q"
  by (auto simp: below_def child_def)

lemma child_inj [simp]: "child d m = child d n \<longleftrightarrow> m = n"
  by (simp add: child_def)

lemma not_below_sibling: "slash_free m \<Longrightarrow> \<not> below (child d n) (child d m)"
  by (auto simp: below_def child_def slash_free_def)

lemma first_name_split: "first_name r = r \<or> (\<exists>t. r = child (first_name r) t)"
proof (cases "dropWhile (\<lambda>c. c \<noteq> CHR ''/'') r")
  case Nil
  then show ?thesis using takeWhile_dropWhile_id [of "\<lambda>c. c \<noteq> CHR ''/''" r] by (simp add: first_name_def)
next
  case (Cons c t)
  then have "c = CHR ''/''" by (simp add: dropWhile_eq_Cons_conv)
  then show ?thesis using Cons takeWhile_dropWhile_id [of "\<lambda>c. c \<noteq> CHR ''/''" r] by (metis first_name_def child_def append_Cons append_Nil)
qed

lemma first_name_free: "slash_free (first_name r)"
  by (auto simp: slash_free_def first_name_def dest: set_takeWhileD)

lemma at_first_name: "child d r = child d (first_name r) \<or> below (child d (first_name r)) (child d r)"
  using first_name_split [of r] by (auto simp: below_def child_def)

lemma wf_without: "wf_tree v \<Longrightarrow> wf_tree (without v p)"
proof -
  assume w: "wf_tree v"
  have "dom (without v p) \<subseteq> dom v" by (auto simp: without_def split: if_splits)
  then have "finite (dom (without v p))" using w finite_subset by (auto simp: wf_tree_def)
  moreover have "\<not> dots (first_name r) \<and> without v p (child d (first_name r)) \<noteq> None"
    if "without v p d = Some True" "without v p (child d r) \<noteq> None" for d r
  proof -
    have v: "v d = Some True" "v (child d r) \<noteq> None" "child d r \<noteq> p" "\<not> below p (child d r)"
      using that by (auto simp: without_def split: if_splits)
    then have f: "\<not> dots (first_name r)" "v (child d (first_name r)) \<noteq> None" using w by (auto simp: wf_tree_def)
    have "child d (first_name r) \<noteq> p" "\<not> below p (child d (first_name r))"
      using v(3,4) at_first_name [of d r] below_trans by (blast, metis below_trans)
    then show ?thesis using f by (simp add: without_def)
  qed
  moreover have "without v p (child q r) = None" if "without v p q = Some False" for q r
    using w that by (auto simp: wf_tree_def without_def split: if_splits)
  ultimately show ?thesis by (auto simp: wf_tree_def)
qed

definition entries :: "(char list \<rightharpoonup> bool) \<Rightarrow> char list \<Rightarrow> char list set" where
  "entries v d = {q \<in> dom v. below d q}"

lemma entries_less:
  assumes "wf_tree v" "v (child d n) \<noteq> None"
  shows "card (entries v (child d n)) < card (entries v d)"
proof (rule psubset_card_mono)
  show "finite (entries v d)" using assms(1) by (simp add: wf_tree_def entries_def)
  have "child d n \<in> entries v d" "child d n \<notin> entries v (child d n)"
    using assms(2) below_longer [of "child d n" "child d n"] by (auto simp: entries_def)
  then show "entries v (child d n) \<subset> entries v d" using below_trans [of d "child d n"] by (auto simp: entries_def)
qed

lemma entries_without: "wf_tree v \<Longrightarrow> card (entries (without v p) d) \<le> card (entries v d)"
  by (rule card_mono) (auto simp: wf_tree_def entries_def without_def split: if_splits)

text \<open>One name of a directory: what is at and below it goes away.\<close>

lemma rr_name:
  assumes t: "tree_os os view" and w: "wf_tree (view s)" and n: "\<not> dots n" "view s (child d n) \<noteq> None"
    and ih: "\<And>s. wf_tree (view s) \<Longrightarrow> view s (child d n) = Some True \<Longrightarrow> card (entries (view s) (child d n)) < N \<Longrightarrow>
       \<exists>s1. HX_rrmdir os (child d n) s = Some (None, s1) \<and> view s1 = without (view s) (child d n)"
    and N: "card (entries (view s) (child d n)) < N"
  shows "\<exists>s1. rr_names os d (n # ns) None s = rr_names os d ns None s1 \<and> view s1 = without (view s) (child d n)"
proof -
  obtain b where b: "view s (child d n) = Some b" using n(2) by blast
  then obtain m dev s1 where l: "sys_lstat os (child d n) s = (Inr (m, dev), s1)" "view s1 = view s" "S_ISDIR m = b"
    using t unfolding tree_os_def by meson
  show ?thesis
  proof (cases b)
    case True
    have v1: "view s1 (child d n) = Some True" using b l(2) True by simp
    then obtain sub s2 where o: "sys_opendir os (child d n) s1 = (Inr sub, s2)"
      using t unfolding tree_os_def by meson
    obtain s3 where h: "HX_rrmdir os (child d n) s1 = Some (None, s3)" "view s3 = without (view s1) (child d n)"
      using ih [of s1] w N v1 l(2) by auto
    then obtain r s4 where r: "rr_names os (child d n) sub None s2 = Some (r, s4)"
      and f: "\<exists>eno. rr_finish os (child d n) r s4 = (None, eno, s3)"
      by (auto simp: HX_rrmdir_def o split: bind_splits prod.splits)
    have e: "rr_finish os (child d n) r s4 = (None, None, s3)"
      using f by (auto simp: rr_finish_def first_err_def split: prod.splits option.splits)
    have "rr_names os d (n # ns) None s = rr_names os d ns None s3"
      using n(1) l True by (subst rr_names.simps) (simp add: Let_def o r e first_err_def)
    then show ?thesis using h(2) l(2) by auto
  next
    case False
    have v1: "view s1 (child d n) = Some False" using b l(2) False by simp
    then obtain s2 where u: "sys_unlink os (child d n) s1 = (None, s2)" "view s2 = (view s1)(child d n := None)"
      using t unfolding tree_os_def by meson
    have "view s2 = without (view s) (child d n)"
    proof
      fix q
      have "below (child d n) q \<Longrightarrow> view s q = None" using w v1 l(2) by (auto simp: wf_tree_def below_def)
      then show "view s2 q = without (view s) (child d n) q" using u(2) l(2) by (auto simp: without_def)
    qed
    moreover have "rr_names os d (n # ns) None s = rr_names os d ns None s2"
      using n(1) l False by (subst rr_names.simps) (simp add: Let_def u(1))
    ultimately show ?thesis by blast
  qed
qed

lemma rr_names_all:
  assumes t: "tree_os os view"
    and ih: "\<And>p s. wf_tree (view s) \<Longrightarrow> view s p = Some True \<Longrightarrow> card (entries (view s) p) < N \<Longrightarrow>
       \<exists>s1. HX_rrmdir os p s = Some (None, s1) \<and> view s1 = without (view s) p"
  shows "wf_tree (view s) \<Longrightarrow> card (entries (view s) d) \<le> N \<Longrightarrow> distinct ns \<Longrightarrow>
    \<forall>n \<in> set ns. \<not> dots n \<longrightarrow> view s (child d n) \<noteq> None \<and> slash_free n \<Longrightarrow>
    \<exists>s1. rr_names os d ns None s = Some (None, s1) \<and> wf_tree (view s1) \<and>
      (\<forall>q. view s1 q = (if \<exists>n \<in> set ns. \<not> dots n \<and> (q = child d n \<or> below (child d n) q) then None else view s q))"
proof (induction ns arbitrary: s)
  case Nil
  then show ?case by (subst rr_names.simps) simp
next
  case (Cons n ns)
  show ?case
  proof (cases "dots n")
    case True
    have "rr_names os d (n # ns) None s = rr_names os d ns None s" using True by (subst rr_names.simps) simp
    moreover obtain s1 where "rr_names os d ns None s = Some (None, s1)" "wf_tree (view s1)"
      "\<forall>q. view s1 q = (if \<exists>n \<in> set ns. \<not> dots n \<and> (q = child d n \<or> below (child d n) q) then None else view s q)"
      using Cons.IH [OF Cons.prems(1,2)] Cons.prems(3,4) by auto
    ultimately show ?thesis using True by auto
  next
    case False
    then have c: "view s (child d n) \<noteq> None" "slash_free n" using Cons.prems(4) by auto
    have N: "card (entries (view s) (child d n)) < N" using entries_less [OF Cons.prems(1) c(1)] Cons.prems(2) by simp
    obtain s1 where s1: "rr_names os d (n # ns) None s = rr_names os d ns None s1" "view s1 = without (view s) (child d n)"
      using rr_name [OF t Cons.prems(1) False c(1) ih N] by blast
    have "card (entries (view s1) d) \<le> N" using entries_without [OF Cons.prems(1), of "child d n" d] Cons.prems(2) s1(2) by simp
    moreover have "\<forall>m \<in> set ns. \<not> dots m \<longrightarrow> view s1 (child d m) \<noteq> None \<and> slash_free m"
    proof (intro ballI impI)
      fix m assume m: "m \<in> set ns" "\<not> dots m"
      then have "view s (child d m) \<noteq> None" "slash_free m" "m \<noteq> n" using Cons.prems(3,4) by auto
      then show "view s1 (child d m) \<noteq> None \<and> slash_free m"
        using s1(2) not_below_sibling [of m d n] by (simp add: without_def)
    qed
    ultimately obtain s2 where s2: "rr_names os d ns None s1 = Some (None, s2)" "wf_tree (view s2)"
      "\<forall>q. view s2 q = (if \<exists>n \<in> set ns. \<not> dots n \<and> (q = child d n \<or> below (child d n) q) then None else view s1 q)"
      using Cons.IH [of s1] wf_without [OF Cons.prems(1)] Cons.prems(3) s1(2) by auto
    show ?thesis using s1 s2 False by (auto simp: without_def)
  qed
qed

lemma rrmdir_all:
  assumes t: "tree_os os view"
  shows "wf_tree (view s) \<Longrightarrow> view s d = Some True \<Longrightarrow>
    \<exists>s1. HX_rrmdir os d s = Some (None, s1) \<and> view s1 = without (view s) d"
proof (induction "card (entries (view s) d)" arbitrary: d s rule: less_induct)
  case less
  obtain ns s1 where o: "sys_opendir os d s = (Inr ns, s1)" "view s1 = view s" "distinct ns"
    and ns: "\<And>n. \<not> dots n \<Longrightarrow> n \<in> set ns \<longleftrightarrow> view s (child d n) \<noteq> None \<and> slash_free n"
    using t less.prems(2) unfolding tree_os_def by meson
  have ih: "\<exists>s1. HX_rrmdir os p s' = Some (None, s1) \<and> view s1 = without (view s') p"
    if "wf_tree (view s')" "view s' p = Some True" "card (entries (view s') p) < card (entries (view s) d)" for p s'
    using less.hyps [OF that(3,1,2)] .
  have "\<exists>s2. rr_names os d ns None s1 = Some (None, s2) \<and> wf_tree (view s2) \<and>
      (\<forall>q. view s2 q = (if \<exists>n \<in> set ns. \<not> dots n \<and> (q = child d n \<or> below (child d n) q) then None else view s1 q))"
    by (rule rr_names_all [OF t ih]) (use less.prems o ns in auto)
  then obtain s2 where s2: "rr_names os d ns None s1 = Some (None, s2)"
    and v2: "\<And>q. view s2 q = (if \<exists>n \<in> set ns. \<not> dots n \<and> (q = child d n \<or> below (child d n) q) then None else view s q)"
    unfolding o(2) by blast
  have e: "view s2 (child d r) = None" for r
  proof (cases "view s (child d r) = None")
    case True
    then show ?thesis using v2 by simp
  next
    case False
    then have "\<not> dots (first_name r)" "view s (child d (first_name r)) \<noteq> None" using less.prems by (auto simp: wf_tree_def)
    then have "first_name r \<in> set ns" "\<not> dots (first_name r)" using ns first_name_free by auto
    then show ?thesis using v2 [of "child d r"] at_first_name [of d r] by auto
  qed
  have up: "\<not> below (child d n) d" "d \<noteq> child d n" for n
    using below_longer [of "child d n" d] by (auto simp: child_def)
  have d2: "view s2 d = Some True" using v2 [of d] up less.prems(2) by simp
  then obtain s3 where r: "sys_rmdir os d s2 = (None, s3)" "view s3 = (view s2)(d := None)"
    using t e unfolding tree_os_def by meson
  have "view s3 = without (view s) d"
  proof
    fix q
    show "view s3 q = without (view s) d q"
    proof (cases "q = d \<or> below d q")
      case True
      then show ?thesis using r(2) e by (auto simp: without_def below_def)
    next
      case False
      then have "\<not> (q = child d n \<or> below (child d n) q)" for n using below_trans [of d "child d n" q] by auto
      then show ?thesis using r(2) v2 [of q] False by (simp add: without_def)
    qed
  qed
  moreover have "HX_rrmdir os d s = Some (None, s3)" by (simp add: HX_rrmdir_def o(1) s2 rr_finish_def r(1))
  ultimately show ?case by blast
qed


text \<open>A tree as a list of its paths.\<close>

definition names_in :: "(char list \<times> bool) list \<Rightarrow> char list \<Rightarrow> char list list" where
  "names_in t p = remdups (filter slash_free (map (drop (length p + 1))
     (filter (\<lambda>q. take (length p + 1) q = p @ ''/'') (map fst t))))"

definition list_os :: "(char list \<times> bool) list os" where
  "list_os = null_os\<lparr>
     sys_opendir := \<lambda>p t. (Inr (''.'' # ''..'' # filter (\<lambda>n. \<not> dots n) (names_in t p)), t),
     sys_lstat := \<lambda>p t. (case map_of t p of None \<Rightarrow> Inl ENOENT | Some d \<Rightarrow> Inr (if d then 16877 else 33188, 0), t),
     sys_unlink := \<lambda>p t. (None, filter (\<lambda>(q, d). q \<noteq> p) t),
     sys_rmdir := \<lambda>p t. if names_in t p = [] then (None, filter (\<lambda>(q, d). q \<noteq> p) t) else (Some ENOTEMPTY, t)\<rparr>"

lemma names_in_set: "n \<in> set (names_in t p) \<longleftrightarrow> map_of t (child p n) \<noteq> None \<and> slash_free n"
proof -
  have "(\<exists>q \<in> fst ` set t. take (length p + 1) q = p @ ''/'' \<and> n = drop (length p + 1) q) \<longleftrightarrow> child p n \<in> fst ` set t"
  proof
    assume "\<exists>q \<in> fst ` set t. take (length p + 1) q = p @ ''/'' \<and> n = drop (length p + 1) q"
    then show "child p n \<in> fst ` set t" by (metis append_take_drop_id child_def append_assoc)
  next
    assume c: "child p n \<in> fst ` set t"
    have "take (length p + 1) (child p n) = p @ ''/''" "n = drop (length p + 1) (child p n)" by (simp_all add: child_def)
    then show "\<exists>q \<in> fst ` set t. take (length p + 1) q = p @ ''/'' \<and> n = drop (length p + 1) q" using c by blast
  qed
  then show ?thesis unfolding map_of_eq_None_iff names_in_def by auto
qed

lemma map_of_without: "map_of (filter (\<lambda>(q, d). q \<noteq> p) t) = (map_of t)(p := None)"
  by (induction t) auto

lemma tree_list_os: "tree_os list_os map_of"
proof -
  have o: "\<exists>ns s1. sys_opendir list_os p s = (Inr ns, s1) \<and> map_of s1 = map_of s \<and> distinct ns \<and>
      (\<forall>n. \<not> dots n \<longrightarrow> (n \<in> set ns \<longleftrightarrow> map_of s (child p n) \<noteq> None \<and> slash_free n))" for p s
  proof -
    have "distinct (''.'' # ''..'' # filter (\<lambda>n. \<not> dots n) (names_in s p))" by (auto simp: dots_def names_in_def)
    then show ?thesis using names_in_set [of _ s p] by (auto simp: list_os_def dots_def)
  qed
  have l: "\<exists>m dev s1. sys_lstat list_os p s = (Inr (m, dev), s1) \<and> map_of s1 = map_of s \<and> (S_ISDIR m \<longleftrightarrow> d)"
    if "map_of s p = Some d" for p s d
    using that by (auto simp: list_os_def S_ISDIR_def S_IFMT_def)
  have r: "names_in s p = []" if "\<forall>r. map_of s (child p r) = None" for s p
    using names_in_set [of _ s p] that by (metis list.set_intros(1) neq_Nil_conv)
  show ?thesis unfolding tree_os_def
    using o l r by (simp add: list_os_def map_of_without)
qed


end
