(* ===== verification/HX_Proc.thy ===== *)
theory HX_Proc
  imports HX_Num
begin

text \<open>
  Processes, \<^verbatim>\<open>src/proc.c\<close>: changing the user and group identity, running a program with its standard descriptors
  connected to pipes or to the null device, and waiting for it. The system calls are parameters over a state \<open>'s\<close>; what the
  theorems need of them is a hypothesis.
\<close>

unbundle bit_operations_syntax

section \<open>Changing the identity\<close>

datatype HXproc_su_status =
  HXPROC_INITGROUPS_FAILED | HXPROC_SETGID_FAILED | HXPROC_SETUID_FAILED | HXPROC_GROUP_NOT_FOUND | HXPROC_USER_NOT_FOUND
| HXPROC_SU_NOOP | HXPROC_SU_SUCCESS

definition su_value :: "HXproc_su_status \<Rightarrow> int" where
  "su_value st = (case st of
     HXPROC_INITGROUPS_FAILED \<Rightarrow> - 5 | HXPROC_SETGID_FAILED \<Rightarrow> - 4 | HXPROC_SETUID_FAILED \<Rightarrow> - 3
   | HXPROC_GROUP_NOT_FOUND \<Rightarrow> - 2 | HXPROC_USER_NOT_FOUND \<Rightarrow> - 1 | HXPROC_SU_NOOP \<Rightarrow> 0 | HXPROC_SU_SUCCESS \<Rightarrow> 1)"

record passwd =
  pw_name :: "char list"
  pw_uid :: u32
  pw_gid :: u32

text \<open>
  The identities are read off the state. A lookup that finds nothing and a call that fails give the value of \<^verbatim>\<open>errno\<close>, which may be 0.
  A group is its number.
\<close>

record 's su_ops =
  su_getuid :: "'s \<Rightarrow> u32"
  su_geteuid :: "'s \<Rightarrow> u32"
  su_getgid :: "'s \<Rightarrow> u32"
  su_getegid :: "'s \<Rightarrow> u32"
  su_setuid :: "u32 \<Rightarrow> 's \<Rightarrow> int option \<times> 's"
  su_setgid :: "u32 \<Rightarrow> 's \<Rightarrow> int option \<times> 's"
  su_initgroups :: "char list \<Rightarrow> u32 \<Rightarrow> 's \<Rightarrow> int option \<times> 's"
  su_getpwuid :: "u32 \<Rightarrow> int + passwd"
  su_getpwnam :: "char list \<Rightarrow> int + passwd"
  su_getgrgid :: "u32 \<Rightarrow> int + u32"
  su_getgrnam :: "char list \<Rightarrow> int + u32"

definition ENOENT_value :: int where "ENOENT_value = 2"
definition EINVAL_value :: int where "EINVAL_value = 22"

definition or_errno :: "int \<Rightarrow> int \<Rightarrow> int" where
  "or_errno e d = (if e = 0 then d else e)"

text \<open>The results are the status, the value of \<^verbatim>\<open>errno\<close> behind a failure, and the state.\<close>

definition HXproc_switch_gid :: "'s su_ops \<Rightarrow> passwd option \<Rightarrow> u32 \<Rightarrow> 's \<Rightarrow> HXproc_su_status \<times> int \<times> 's" where
  "HXproc_switch_gid os pw gr_gid s =
     (let do_setgid = (su_getgid os s \<noteq> gr_gid \<or> su_getegid os s \<noteq> gr_gid);
          result = (if do_setgid then HXPROC_SU_SUCCESS else HXPROC_SU_NOOP) in
      case (if do_setgid then su_setgid os gr_gid s else (None, s)) of
        (Some e, s) \<Rightarrow> (HXPROC_SETGID_FAILED, or_errno e (- EINVAL_value), s)
      | (None, s) \<Rightarrow>
         (case pw of
            None \<Rightarrow> (result, 0, s)
          | Some pw \<Rightarrow>
              if su_geteuid os s = pw_uid pw then (result, 0, snd (su_initgroups os (pw_name pw) gr_gid s))
              else case su_initgroups os (pw_name pw) gr_gid s of
                (Some e, s) \<Rightarrow> (HXPROC_INITGROUPS_FAILED, e, s)
              | (None, s) \<Rightarrow> (result, 0, s)))"

text \<open>A name that \<^verbatim>\<open>strtoul\<close> uses up is a number; it is converted to 32 bits.\<close>

definition lookup_user :: "'s su_ops \<Rightarrow> char list \<Rightarrow> int + passwd" where
  "lookup_user os user =
     (case strtoull user of (uid, n, er) \<Rightarrow> if n = length user then su_getpwuid os (ucast uid) else su_getpwnam os user)"

definition lookup_group :: "'s su_ops \<Rightarrow> char list \<Rightarrow> int + u32" where
  "lookup_group os grp =
     (case strtoull grp of (gid, n, er) \<Rightarrow> if n = length grp then su_getgrgid os (ucast gid) else su_getgrnam os grp)"

definition HXproc_switch_group :: "'s su_ops \<Rightarrow> passwd option \<Rightarrow> char list \<Rightarrow> 's \<Rightarrow> HXproc_su_status \<times> int \<times> 's" where
  "HXproc_switch_group os pw grp s =
     (case lookup_group os grp of
        Inl e \<Rightarrow> (HXPROC_GROUP_NOT_FOUND, or_errno e ENOENT_value, s)
      | Inr gr_gid \<Rightarrow> HXproc_switch_gid os pw gr_gid s)"

text \<open>Behind the group.\<close>

definition switch_uid :: "'s su_ops \<Rightarrow> passwd option \<Rightarrow> HXproc_su_status \<Rightarrow> 's \<Rightarrow> HXproc_su_status \<times> int \<times> 's" where
  "switch_uid os pw ret s =
     (case pw of
        None \<Rightarrow> (ret, 0, s)
      | Some pw \<Rightarrow>
          if su_getuid os s \<noteq> pw_uid pw \<or> su_geteuid os s \<noteq> pw_uid pw then
            case su_setuid os (pw_uid pw) s of
              (Some e, s) \<Rightarrow> (HXPROC_SETUID_FAILED, or_errno e (- EINVAL_value), s)
            | (None, s) \<Rightarrow> (HXPROC_SU_SUCCESS, 0, s)
          else (ret, 0, s))"

definition HXproc_switch_user ::
  "'s su_ops \<Rightarrow> char list option \<Rightarrow> char list option \<Rightarrow> 's \<Rightarrow> HXproc_su_status \<times> int \<times> 's" where
  "HXproc_switch_user os user grp s =
     (case (case user of None \<Rightarrow> Inr None | Some u \<Rightarrow> if u = [] then Inr None else map_sum id Some (lookup_user os u)) of
        Inl e \<Rightarrow> (HXPROC_USER_NOT_FOUND, or_errno e ENOENT_value, s)
      | Inr pw \<Rightarrow>
         (case (case (grp, pw) of
                  (Some g, _) \<Rightarrow> if g = [] then (HXPROC_SU_NOOP, 0, s) else HXproc_switch_group os pw g s
                | (None, Some p) \<Rightarrow> HXproc_switch_gid os pw (pw_gid p) s
                | (None, None) \<Rightarrow> (HXPROC_SU_NOOP, 0, s)) of
            (ret, e, s) \<Rightarrow> if su_value ret < 0 then (ret, e, s) else switch_uid os pw ret s))"

section \<open>What a successful change means\<close>

text \<open>
  \<^verbatim>\<open>setuid\<close> and \<^verbatim>\<open>setgid\<close> set the effective identity, and the real one too for a privileged process; a failed call, and
  \<^verbatim>\<open>initgroups\<close>, change none of the four.
\<close>

definition ids :: "'s su_ops \<Rightarrow> 's \<Rightarrow> u32 \<times> u32 \<times> u32 \<times> u32" where
  "ids os s = (su_getuid os s, su_geteuid os s, su_getgid os s, su_getegid os s)"

definition su_kernel :: "'s su_ops \<Rightarrow> bool" where
  "su_kernel os \<longleftrightarrow>
     (\<forall>u s. case su_setuid os u s of
        (Some e, s1) \<Rightarrow> ids os s1 = ids os s
      | (None, s1) \<Rightarrow> su_geteuid os s1 = u \<and> su_getgid os s1 = su_getgid os s \<and> su_getegid os s1 = su_getegid os s \<and>
          (su_geteuid os s = 0 \<longrightarrow> su_getuid os s1 = u)) \<and>
     (\<forall>g s. case su_setgid os g s of
        (Some e, s1) \<Rightarrow> ids os s1 = ids os s
      | (None, s1) \<Rightarrow> su_getegid os s1 = g \<and> su_getuid os s1 = su_getuid os s \<and> su_geteuid os s1 = su_geteuid os s \<and>
          (su_geteuid os s = 0 \<longrightarrow> su_getgid os s1 = g)) \<and>
     (\<forall>n g s. ids os (snd (su_initgroups os n g s)) = ids os s)"

text \<open>The user asked for, and the group: that of the argument, or that of the user if the argument is \<^verbatim>\<open>NULL\<close>.\<close>

definition wanted_user :: "'s su_ops \<Rightarrow> char list option \<Rightarrow> passwd option \<Rightarrow> bool" where
  "wanted_user os user pw \<longleftrightarrow>
     (case user of None \<Rightarrow> pw = None | Some u \<Rightarrow> if u = [] then pw = None else \<exists>p. pw = Some p \<and> lookup_user os u = Inr p)"

definition wanted_group :: "'s su_ops \<Rightarrow> char list option \<Rightarrow> passwd option \<Rightarrow> u32 option \<Rightarrow> bool" where
  "wanted_group os grp pw gid \<longleftrightarrow>
     (case grp of None \<Rightarrow> gid = map_option pw_gid pw
      | Some g \<Rightarrow> if g = [] then gid = None else \<exists>n. gid = Some n \<and> lookup_group os g = Inr n)"

lemma switch_gid_ids:
  assumes k: "su_kernel os" and r: "HXproc_switch_gid os pw g s = (st, e, s1)"
  shows "su_getuid os s1 = su_getuid os s" "su_geteuid os s1 = su_geteuid os s"
    and "0 \<le> su_value st \<Longrightarrow> su_getegid os s1 = g \<and> (su_geteuid os s = 0 \<longrightarrow> su_getgid os s1 = g) \<and> (st = HXPROC_SU_NOOP \<longrightarrow> ids os s1 = ids os s)"
proof -
  obtain q s2 where q: "(if su_getgid os s \<noteq> g \<or> su_getegid os s \<noteq> g then su_setgid os g s else (None, s)) = (q, s2)" by fastforce
  have i: "ids os (snd (su_initgroups os n g s2)) = ids os s2" for n using k by (simp add: su_kernel_def)
  have g: "case su_setgid os g s of
        (Some e, s1) \<Rightarrow> ids os s1 = ids os s
      | (None, s1) \<Rightarrow> su_getegid os s1 = g \<and> su_getuid os s1 = su_getuid os s \<and> su_geteuid os s1 = su_geteuid os s \<and>
          (su_geteuid os s = 0 \<longrightarrow> su_getgid os s1 = g)" using k by (simp only: su_kernel_def)
  have u: "su_getuid os s2 = su_getuid os s" "su_geteuid os s2 = su_geteuid os s"
    and n: "q = None \<Longrightarrow> su_getegid os s2 = g \<and> (su_geteuid os s = 0 \<longrightarrow> su_getgid os s2 = g)"
      "\<not> (su_getgid os s \<noteq> g \<or> su_getegid os s \<noteq> g) \<Longrightarrow> ids os s2 = ids os s"
    using q g by (auto simp: ids_def split: if_splits option.splits prod.splits)
  show "su_getuid os s1 = su_getuid os s" "su_geteuid os s1 = su_geteuid os s"
    using r u i unfolding HXproc_switch_gid_def Let_def q ids_def
    by (auto split: option.splits if_splits prod.splits) (metis snd_conv prod.inject)+
  show "0 \<le> su_value st \<Longrightarrow> su_getegid os s1 = g \<and> (su_geteuid os s = 0 \<longrightarrow> su_getgid os s1 = g) \<and> (st = HXPROC_SU_NOOP \<longrightarrow> ids os s1 = ids os s)"
    using r n i unfolding HXproc_switch_gid_def Let_def q ids_def
    by (auto simp: su_value_def split: option.splits if_splits prod.splits) (metis snd_conv prod.inject)+
qed

lemma switch_group_ids:
  assumes k: "su_kernel os" and w: "wanted_group os grp pw gid"
    and r: "(case (grp, pw) of
        (Some g, _) \<Rightarrow> if g = [] then (HXPROC_SU_NOOP, 0, s) else HXproc_switch_group os pw g s
      | (None, Some p) \<Rightarrow> HXproc_switch_gid os pw (pw_gid p) s
      | (None, None) \<Rightarrow> (HXPROC_SU_NOOP, 0, s)) = (st, e, s1)"
    and ok: "0 \<le> su_value st"
  shows "su_getuid os s1 = su_getuid os s" "su_geteuid os s1 = su_geteuid os s"
    and "case gid of None \<Rightarrow> su_getgid os s1 = su_getgid os s \<and> su_getegid os s1 = su_getegid os s
      | Some g \<Rightarrow> su_getegid os s1 = g \<and> (su_geteuid os s = 0 \<longrightarrow> su_getgid os s1 = g)"
    and "st = HXPROC_SU_NOOP \<longrightarrow> ids os s1 = ids os s"
proof -
  note i = switch_gid_ids [OF k, of pw _ s st e s1]
  consider "gid = None" "s1 = s" | g where "gid = Some g" "HXproc_switch_gid os pw g s = (st, e, s1)"
    using w r ok unfolding wanted_group_def
    by (auto simp: HXproc_switch_group_def su_value_def split: option.splits if_splits)
  then have "su_getuid os s1 = su_getuid os s \<and> su_geteuid os s1 = su_geteuid os s \<and>
    (case gid of None \<Rightarrow> su_getgid os s1 = su_getgid os s \<and> su_getegid os s1 = su_getegid os s
      | Some g \<Rightarrow> su_getegid os s1 = g \<and> (su_geteuid os s = 0 \<longrightarrow> su_getgid os s1 = g)) \<and>
    (st = HXPROC_SU_NOOP \<longrightarrow> ids os s1 = ids os s)"
  proof cases
    case 1
    then show ?thesis by simp
  next
    case 2
    show ?thesis using i(1,2) [OF 2(2)] i(3) [OF 2(2) ok] 2(1) by simp
  qed
  then show "su_getuid os s1 = su_getuid os s" "su_geteuid os s1 = su_geteuid os s"
    "case gid of None \<Rightarrow> su_getgid os s1 = su_getgid os s \<and> su_getegid os s1 = su_getegid os s
      | Some g \<Rightarrow> su_getegid os s1 = g \<and> (su_geteuid os s = 0 \<longrightarrow> su_getgid os s1 = g)"
    "st = HXPROC_SU_NOOP \<longrightarrow> ids os s1 = ids os s"
    by blast+
qed


text \<open>A privileged process with two users and a group in its data base; the state is the four identities.\<close>

definition root_os :: "(u32 \<times> u32 \<times> u32 \<times> u32) su_ops" where
  "root_os = \<lparr>su_getuid = \<lambda>(u, eu, g, eg). u, su_geteuid = \<lambda>(u, eu, g, eg). eu, su_getgid = \<lambda>(u, eu, g, eg). g,
     su_getegid = \<lambda>(u, eu, g, eg). eg,
     su_setuid = \<lambda>v (u, eu, g, eg). if eu = 0 then (None, (v, v, g, eg)) else (Some 1, (u, eu, g, eg)),
     su_setgid = \<lambda>v (u, eu, g, eg). if eu = 0 then (None, (u, eu, v, v)) else (Some 1, (u, eu, g, eg)),
     su_initgroups = \<lambda>n v s. (None, s),
     su_getpwuid = \<lambda>u. if u = 0 then Inr \<lparr>pw_name = ''root'', pw_uid = 0, pw_gid = 0\<rparr> else Inl 0,
     su_getpwnam = \<lambda>n. if n = ''daemon'' then Inr \<lparr>pw_name = ''daemon'', pw_uid = 2, pw_gid = 3\<rparr> else Inl 0,
     su_getgrgid = \<lambda>g. Inr g, su_getgrnam = \<lambda>n. if n = ''lp'' then Inr 7 else Inl 0\<rparr>"


text \<open>The number of a user is cut to 32 bits: \<^verbatim>\<open>4294967296\<close> is the superuser.\<close>

lemma lookup_user_truncates: "lookup_user root_os ''4294967296'' = Inr \<lparr>pw_name = ''root'', pw_uid = 0, pw_gid = 0\<rparr>"
  by (simp add: lookup_user_def strtoull_def isspace_def isdigit_def root_os_def dec_val_def digit_val_def)

section \<open>Running a program\<close>

definition HXPROC_VERBOSE :: u32 where "HXPROC_VERBOSE = 1"
definition HXPROC_EXECV :: u32 where "HXPROC_EXECV = 2"
definition HXPROC_A0 :: u32 where "HXPROC_A0 = 4"
definition HXPROC_STDIN :: u32 where "HXPROC_STDIN = 8"
definition HXPROC_STDOUT :: u32 where "HXPROC_STDOUT = 16"
definition HXPROC_STDERR :: u32 where "HXPROC_STDERR = 32"
definition HXPROC_NULL_STDIN :: u32 where "HXPROC_NULL_STDIN = 64"
definition HXPROC_NULL_STDOUT :: u32 where "HXPROC_NULL_STDOUT = 128"
definition HXPROC_NULL_STDERR :: u32 where "HXPROC_NULL_STDERR = 256"

definition pflag :: "u32 \<Rightarrow> u32 \<Rightarrow> bool" where
  "pflag flags f \<longleftrightarrow> flags AND f \<noteq> 0"

text \<open>A descriptor is an \<open>int\<close>, - 1 being none. \<open>k_fork\<close> gives the number of the child, or 0 in the child; \<open>k_dup\<close> gives - 1 when it fails.\<close>

record 's px_ops =
  k_null :: "'s \<Rightarrow> (errno + int) \<times> 's"
  k_pipe :: "'s \<Rightarrow> (errno + int \<times> int) \<times> 's"
  k_close :: "int \<Rightarrow> 's \<Rightarrow> 's"
  k_dup :: "int \<Rightarrow> 's \<Rightarrow> int \<times> 's"
  k_dup2 :: "int \<Rightarrow> int \<Rightarrow> 's \<Rightarrow> 's"
  k_fork :: "'s \<Rightarrow> (errno + int) \<times> 's"
  k_waitpid :: "int \<Rightarrow> 's \<Rightarrow> (errno + u32) \<times> 's"

text \<open>The callbacks work on the state; \<open>None\<close> is a callback that is \<^verbatim>\<open>NULL\<close>.\<close>

record 's HXproc_ops =
  p_prefork :: "('s \<Rightarrow> 's) option"
  p_postfork :: "('s \<Rightarrow> 's) option"
  p_complete :: "('s \<Rightarrow> 's) option"

record 's HXproc =
  p_ops :: "'s HXproc_ops option"
  p_flags :: u32
  p_stdin :: int
  p_stdout :: int
  p_stderr :: int
  p_pid :: int
  p_status :: u8
  p_exited :: bool
  p_terminated :: bool

definition proc_cb :: "('s HXproc_ops \<Rightarrow> ('s \<Rightarrow> 's) option) \<Rightarrow> 's HXproc \<Rightarrow> 's \<Rightarrow> 's" where
  "proc_cb sel p s = (case p_ops p of None \<Rightarrow> s | Some ops \<Rightarrow> (case sel ops of None \<Rightarrow> s | Some f \<Rightarrow> f s))"

type_synonym pipes = "(int \<times> int) \<times> (int \<times> int) \<times> (int \<times> int)"

definition build_pipe :: "'s px_ops \<Rightarrow> bool \<Rightarrow> 's \<Rightarrow> errno option \<times> (int \<times> int) \<times> 's" where
  "build_pipe os b s =
     (if b then case k_pipe os s of (Inl e, s) \<Rightarrow> (Some e, (- 1, - 1), s) | (Inr p, s) \<Rightarrow> (None, p, s)
      else (None, (- 1, - 1), s))"

definition HXproc_build_pipes :: "'s px_ops \<Rightarrow> u32 \<Rightarrow> 's \<Rightarrow> errno option \<times> pipes \<times> 's" where
  "HXproc_build_pipes os flags s =
     (case build_pipe os (pflag flags HXPROC_STDIN) s of
        (Some e, p0, s) \<Rightarrow> (Some e, (p0, (- 1, - 1), (- 1, - 1)), s)
      | (None, p0, s) \<Rightarrow>
         (case build_pipe os (pflag flags HXPROC_STDOUT) s of
            (Some e, p1, s) \<Rightarrow> (Some e, (p0, p1, (- 1, - 1)), s)
          | (None, p1, s) \<Rightarrow>
             (case build_pipe os (pflag flags HXPROC_STDERR) s of (e, p2, s) \<Rightarrow> (e, (p0, p1, p2), s))))"

definition xc :: "'s px_ops \<Rightarrow> int \<Rightarrow> 's \<Rightarrow> 's" where
  "xc os fd s = (if fd \<ge> 0 then k_close os fd s else s)"

definition HXproc_close_pipes :: "'s px_ops \<Rightarrow> pipes \<Rightarrow> 's \<Rightarrow> 's" where
  "HXproc_close_pipes os p s =
     (case p of ((a, b), (c, d), (e, f)) \<Rightarrow> xc os f (xc os e (xc os d (xc os c (xc os b (xc os a s))))))"

text \<open>The child: a copy of the pipe's end, or of the null device.\<close>

definition child_dup :: "'s px_ops \<Rightarrow> bool \<Rightarrow> bool \<Rightarrow> int \<Rightarrow> int \<Rightarrow> int \<Rightarrow> 's \<Rightarrow> int \<times> 's" where
  "child_dup os pipe null old pfd nullfd s =
     (if pipe then k_dup os pfd s else if null then k_dup os nullfd s else (old, s))"

definition child_move :: "'s px_ops \<Rightarrow> bool \<Rightarrow> int \<Rightarrow> int \<Rightarrow> 's \<Rightarrow> 's" where
  "child_move os b fd target s =
     (if b \<and> fd \<ge> 0 \<and> fd \<noteq> target then k_close os fd (k_dup2 os fd target s) else s)"

definition child_setup :: "'s px_ops \<Rightarrow> 's HXproc \<Rightarrow> pipes \<Rightarrow> int \<Rightarrow> 's \<Rightarrow> 's HXproc \<times> 's" where
  "child_setup os p pp nullfd s =
     (let fl = pflag (p_flags p) in
      case pp of ((a, b), (c, d), (e, f)) \<Rightarrow>
      case child_dup os (fl HXPROC_STDIN) (fl HXPROC_NULL_STDIN) (p_stdin p) a nullfd s of (i, s) \<Rightarrow>
      case child_dup os (fl HXPROC_STDOUT) (fl HXPROC_NULL_STDOUT) (p_stdout p) d nullfd s of (ou, s) \<Rightarrow>
      case child_dup os (fl HXPROC_STDERR) (fl HXPROC_NULL_STDERR) (p_stderr p) f nullfd s of (er, s) \<Rightarrow>
      let p = p\<lparr>p_stdin := i, p_stdout := ou, p_stderr := er\<rparr>;
          s = proc_cb p_postfork p s;
          s = HXproc_close_pipes os pp s;
          s = child_move os (fl (HXPROC_STDIN OR HXPROC_NULL_STDIN)) i 0 s;
          s = child_move os (fl (HXPROC_STDOUT OR HXPROC_NULL_STDOUT)) ou 1 s;
          s = child_move os (fl (HXPROC_STDERR OR HXPROC_NULL_STDERR)) er 2 s
      in (p, xc os nullfd s))"

text \<open>The parent keeps its ends.\<close>

definition parent_keep :: "'s px_ops \<Rightarrow> bool \<Rightarrow> int \<Rightarrow> int \<Rightarrow> int \<Rightarrow> 's \<Rightarrow> int \<times> 's" where
  "parent_keep os b theirs ours old s = (if b then (ours, k_close os theirs s) else (old, s))"

definition parent_setup :: "'s px_ops \<Rightarrow> 's HXproc \<Rightarrow> pipes \<Rightarrow> int \<Rightarrow> 's \<Rightarrow> 's HXproc \<times> 's" where
  "parent_setup os p pp nullfd s =
     (let fl = pflag (p_flags p) in
      case pp of ((a, b), (c, d), (e, f)) \<Rightarrow>
      case parent_keep os (fl HXPROC_STDIN) a b (p_stdin p) s of (i, s) \<Rightarrow>
      case parent_keep os (fl HXPROC_STDOUT) d c (p_stdout p) s of (ou, s) \<Rightarrow>
      case parent_keep os (fl HXPROC_STDERR) f e (p_stderr p) s of (er, s) \<Rightarrow>
      (p\<lparr>p_stdin := i, p_stdout := ou, p_stderr := er\<rparr>, xc os nullfd s))"

text \<open>The function returns in the parent. The child calls \<^verbatim>\<open>execv\<close> (\<open>True\<close>) or \<^verbatim>\<open>execvp\<close> with a program and its arguments, and exits if that fails.\<close>

datatype run_result = Returned "errno + int" | Execs bool "char list" "char list list"

definition bad_flags :: "u32 \<Rightarrow> bool" where
  "bad_flags flags \<longleftrightarrow>
     flags AND (HXPROC_STDIN OR HXPROC_NULL_STDIN) = HXPROC_STDIN OR HXPROC_NULL_STDIN \<or>
     flags AND (HXPROC_STDOUT OR HXPROC_NULL_STDOUT) = HXPROC_STDOUT OR HXPROC_NULL_STDOUT \<or>
     flags AND (HXPROC_STDERR OR HXPROC_NULL_STDERR) = HXPROC_STDERR OR HXPROC_NULL_STDERR"

definition run_forked :: "'s px_ops \<Rightarrow> char list \<Rightarrow> char list list \<Rightarrow> 's HXproc \<Rightarrow> pipes \<Rightarrow> int \<Rightarrow> 's \<Rightarrow> run_result \<times> 's HXproc \<times> 's" where
  "run_forked os prog args p pp nullfd s =
     (case k_fork os (proc_cb p_prefork p s) of
        (Inl e, s) \<Rightarrow>
          (Returned (Inl e), p\<lparr>p_pid := - 1\<rparr>, xc os nullfd (HXproc_close_pipes os pp (proc_cb p_complete p s)))
      | (Inr pid, s) \<Rightarrow>
          let p = p\<lparr>p_pid := pid\<rparr> in
          if pid = 0 then
            case child_setup os p pp nullfd s of (p, s) \<Rightarrow>
              (Execs (pflag (p_flags p) HXPROC_EXECV) prog (if pflag (p_flags p) HXPROC_A0 then args else prog # args), p, s)
          else
            case parent_setup os p pp nullfd s of (p, s) \<Rightarrow> (Returned (Inr 1), p, s))"

definition HXproc_run_async :: "'s px_ops \<Rightarrow> char list list option \<Rightarrow> 's HXproc \<Rightarrow> 's \<Rightarrow> run_result \<times> 's HXproc \<times> 's" where
  "HXproc_run_async os argv p s =
     (case argv of
        None \<Rightarrow> (Returned (Inl EFAULT), p, s)
      | Some [] \<Rightarrow> (Returned (Inl EFAULT), p, s)
      | Some (prog # args) \<Rightarrow>
          if bad_flags (p_flags p) then (Returned (Inl EINVAL), p, s)
          else
            (case (if pflag (p_flags p) (HXPROC_NULL_STDIN OR HXPROC_NULL_STDOUT OR HXPROC_NULL_STDERR) then k_null os s
                   else (Inr (- 1), s)) of
               (Inl e, s) \<Rightarrow> (Returned (Inl e), p, s)
             | (Inr nullfd, s) \<Rightarrow>
                 let p = p\<lparr>p_stdin := - 1, p_stdout := - 1, p_stderr := - 1\<rparr> in
                 case HXproc_build_pipes os (p_flags p) s of
                   (Some e, pp, s) \<Rightarrow> (Returned (Inl e), p, xc os nullfd (HXproc_close_pipes os pp s))
                 | (None, pp, s) \<Rightarrow> run_forked os prog args p pp nullfd s))"

section \<open>Waiting\<close>

text \<open>\<^verbatim>\<open>WIFEXITED\<close>, \<^verbatim>\<open>WEXITSTATUS\<close>, \<^verbatim>\<open>WIFSIGNALED\<close> and \<^verbatim>\<open>WTERMSIG\<close> of Linux.\<close>

definition WTERMSIG :: "u32 \<Rightarrow> u32" where "WTERMSIG status = status AND 0x7F"
definition WIFEXITED :: "u32 \<Rightarrow> bool" where "WIFEXITED status \<longleftrightarrow> WTERMSIG status = 0"
definition WEXITSTATUS :: "u32 \<Rightarrow> u32" where "WEXITSTATUS status = drop_bit 8 (status AND 0xFF00)"
definition WIFSIGNALED :: "u32 \<Rightarrow> bool" where "WIFSIGNALED status \<longleftrightarrow> 0 < WTERMSIG status \<and> WTERMSIG status < 0x7F"

definition HXproc_wait :: "'s px_ops \<Rightarrow> 's HXproc \<Rightarrow> 's \<Rightarrow> (errno + u32) \<times> 's HXproc \<times> 's" where
  "HXproc_wait os p s =
     (case k_waitpid os (p_pid p) s of
        (Inl e, s) \<Rightarrow> (Inl e, p, s)
      | (Inr status, s) \<Rightarrow>
          let s = proc_cb p_complete p s;
              p = p\<lparr>p_exited := WIFEXITED status\<rparr>;
              p = (if p_exited p then p\<lparr>p_status := ucast (WEXITSTATUS status)\<rparr> else p);
              p = p\<lparr>p_terminated := WIFSIGNALED status\<rparr>;
              p = (if p_terminated p then p\<lparr>p_status := ucast (WTERMSIG status)\<rparr> else p)
          in (Inr (if p_terminated p then push_bit 16 (ucast (p_status p)) else ucast (p_status p)), p, s))"

text \<open>No result is that of the child, which does not return.\<close>

definition HXproc_run_sync :: "'s px_ops \<Rightarrow> char list list option \<Rightarrow> u32 \<Rightarrow> 's \<Rightarrow> (errno + u32) option \<times> 's" where
  "HXproc_run_sync os argv flags s =
     (if pflag flags (HXPROC_STDIN OR HXPROC_STDOUT OR HXPROC_STDERR) then (Some (Inl EINVAL), s)
      else
        let p = \<lparr>p_ops = None, p_flags = flags, p_stdin = 0, p_stdout = 0, p_stderr = 0, p_pid = 0, p_status = 0,
                 p_exited = False, p_terminated = False\<rparr> in
        case HXproc_run_async os argv p s of
          (Returned (Inl e), p, s) \<Rightarrow> (Some (Inl e), s)
        | (Returned (Inr v), p, s) \<Rightarrow> (case HXproc_wait os p s of (r, p, s) \<Rightarrow> (Some r, s))
        | (Execs v prog args, p, s) \<Rightarrow> (None, s))"

text \<open>The limits as \<^verbatim>\<open>getrlimit\<close> and \<^verbatim>\<open>sysconf\<close> give them; \<open>FD_SETSIZE\<close> is the last resort.\<close>

definition HXproc_top_fd :: "nat option \<Rightarrow> int \<Rightarrow> nat" where
  "HXproc_top_fd rlim_max v =
     (case rlim_max of
        Some r \<Rightarrow> if r > 2 ^ 31 - 1 then 2 ^ 31 - 1 else r
      | None \<Rightarrow> if v \<ge> 0 then (if v > 2 ^ 31 - 1 then 2 ^ 31 - 1 else nat v) else 1024)"

section \<open>Descriptors\<close>

text \<open>What the calls do to the table of descriptors: new descriptors are unused ones, a pipe has two ends.\<close>

datatype object = Pipe_read nat | Pipe_write nat | Null_device | Other nat

type_synonym table = "int \<rightharpoonup> object"

definition fd_kernel :: "'s px_ops \<Rightarrow> ('s \<Rightarrow> table) \<Rightarrow> bool" where
  "fd_kernel os tab \<longleftrightarrow>
     (\<forall>s. case k_null os s of
        (Inl e, s1) \<Rightarrow> tab s1 = tab s
      | (Inr n, s1) \<Rightarrow> 0 \<le> n \<and> tab s n = None \<and> tab s1 = (tab s)(n \<mapsto> Null_device)) \<and>
     (\<forall>s. case k_pipe os s of
        (Inl e, s1) \<Rightarrow> tab s1 = tab s
      | (Inr (r, w), s1) \<Rightarrow> 0 \<le> r \<and> 0 \<le> w \<and> r \<noteq> w \<and> tab s r = None \<and> tab s w = None \<and>
          (\<exists>k. tab s1 = (tab s)(r \<mapsto> Pipe_read k, w \<mapsto> Pipe_write k))) \<and>
     (\<forall>fd s. tab (k_close os fd s) = (tab s)(fd := None)) \<and>
     (\<forall>fd s ob. tab s fd = Some ob \<longrightarrow> (case k_dup os fd s of (d, s1) \<Rightarrow>
        0 \<le> d \<and> tab s d = None \<and> tab s1 = (tab s)(d \<mapsto> ob))) \<and>
     (\<forall>fd t s ob. tab s fd = Some ob \<longrightarrow> tab (k_dup2 os fd t s) = (tab s)(t \<mapsto> ob)) \<and>
     (\<forall>s. tab (snd (k_fork os s)) = tab s)"

definition quiet_cbs :: "('s \<Rightarrow> table) \<Rightarrow> 's HXproc \<Rightarrow> bool" where
  "quiet_cbs tab p \<longleftrightarrow> (\<forall>s. tab (proc_cb p_prefork p s) = tab s \<and> tab (proc_cb p_postfork p s) = tab s \<and> tab (proc_cb p_complete p s) = tab s)"

text \<open>The table is \<open>t\<close> with the descriptors \<open>own\<close> in addition.\<close>

definition owns :: "('s \<Rightarrow> table) \<Rightarrow> table \<Rightarrow> table \<Rightarrow> 's \<Rightarrow> bool" where
  "owns tab t own s \<longleftrightarrow> tab s = t ++ own \<and> dom t \<inter> dom own = {} \<and> (\<forall>fd \<in> dom own. 0 \<le> fd)"

lemma owns_none: "owns tab (tab s) Map.empty s"
  by (simp add: owns_def)

lemma owns_empty: "owns tab t Map.empty s \<Longrightarrow> tab s = t"
  by (simp add: owns_def)

lemma owns_close:
  assumes "fd_kernel os tab" "owns tab t own s" "fd \<notin> dom t"
  shows "owns tab t (own(fd := None)) (k_close os fd s)"
proof -
  have "tab (k_close os fd s) = (t ++ own)(fd := None)" using assms(1,2) by (simp only: fd_kernel_def owns_def)
  moreover have "(t ++ own)(fd := None) = t ++ own(fd := None)" using assms(3) by (auto simp: map_add_def fun_eq_iff domIff split: option.splits)
  ultimately show ?thesis using assms(2) by (auto simp: owns_def)
qed

lemma owns_xc:
  assumes "fd_kernel os tab" "owns tab t own s" "0 \<le> fd \<Longrightarrow> fd \<notin> dom t"
  shows "owns tab t (own(fd := None)) (xc os fd s)"
proof (cases "0 \<le> fd")
  case True
  then show ?thesis using owns_close [OF assms(1,2)] assms(3) by (simp add: xc_def)
next
  case False
  then have "own(fd := None) = own" using assms(2) by (auto simp: owns_def fun_upd_idem_iff)
  then show ?thesis using False assms(2) by (simp add: xc_def)
qed

definition ends :: "pipes \<Rightarrow> int set" where
  "ends pp = (case pp of ((a, b), (c, d), (e, f)) \<Rightarrow> {a, b, c, d, e, f})"

lemma owns_close_pipes:
  assumes k: "fd_kernel os tab" and o: "owns tab t own s" and f: "\<And>fd. fd \<in> ends pp \<Longrightarrow> 0 \<le> fd \<Longrightarrow> fd \<notin> dom t"
  shows "owns tab t (own |` (- ends pp)) (HXproc_close_pipes os pp s)"
proof -
  obtain p0 p1 p2 where q: "pp = (p0, p1, p2)" by (rule prod_cases3)
  obtain a b c d e g where "p0 = (a, b)" "p1 = (c, d)" "p2 = (e, g)" using surj_pair [of p0] surj_pair [of p1] surj_pair [of p2] by blast
  then have pp: "pp = ((a, b), (c, d), (e, g))" using q by simp
  have x: "owns tab t own s \<Longrightarrow> fd \<in> ends pp \<Longrightarrow> owns tab t (own(fd := None)) (xc os fd s)" for own s fd
    using owns_xc [OF k] f by blast
  have "owns tab t ((((((own(a := None))(b := None))(c := None))(d := None))(e := None))(g := None)) (HXproc_close_pipes os pp s)"
    unfolding HXproc_close_pipes_def pp prod.case by (intro x o) (simp_all add: pp ends_def)
  moreover have "(((((own(a := None))(b := None))(c := None))(d := None))(e := None))(g := None) = own |` (- ends pp)"
  proof -
    have u: "(own |` (- A))(y := None) = own |` (- insert y A)" for y A by (auto simp: restrict_map_def)
    have "own = own |` (- {})" by (simp add: restrict_map_def)
    then have "(((((own(a := None))(b := None))(c := None))(d := None))(e := None))(g := None) = own |` (- {g, e, d, c, b, a})"
      using u by metis
    moreover have "{g, e, d, c, b, a} = ends pp" by (auto simp: pp ends_def)
    ultimately show ?thesis by simp
  qed
  ultimately show ?thesis by simp
qed

text \<open>A pair of descriptors of a pipe, or none.\<close>

definition layer :: "int \<times> int \<Rightarrow> nat \<Rightarrow> table" where
  "layer p k = (if fst p < 0 then Map.empty else [fst p \<mapsto> Pipe_read k, snd p \<mapsto> Pipe_write k])"

definition pipe_ok :: "bool \<Rightarrow> int \<times> int \<Rightarrow> bool" where
  "pipe_ok b p \<longleftrightarrow> (if b then 0 \<le> fst p \<and> 0 \<le> snd p \<and> fst p \<noteq> snd p else p = (- 1, - 1))"

lemma layer_off [simp]: "layer (- 1, - 1) k = Map.empty"
  by (simp add: layer_def)

lemma build_pipe_owns:
  assumes k: "fd_kernel os tab" and o: "owns tab t own s" and r: "build_pipe os b s = (e, p, s1)"
  shows "(case e of Some _ \<Rightarrow> b \<and> p = (- 1, - 1) \<and> owns tab t own s1
    | None \<Rightarrow> pipe_ok b p \<and> (\<exists>n. dom (layer p n) \<inter> dom own = {} \<and> owns tab t (own ++ layer p n) s1))"
proof -
  have kp: "case k_pipe os s of
        (Inl e, s1) \<Rightarrow> tab s1 = tab s
      | (Inr (r, w), s1) \<Rightarrow> 0 \<le> r \<and> 0 \<le> w \<and> r \<noteq> w \<and> tab s r = None \<and> tab s w = None \<and>
          (\<exists>k. tab s1 = (tab s)(r \<mapsto> Pipe_read k, w \<mapsto> Pipe_write k))" using k by (simp only: fd_kernel_def)
  consider "\<not> b" "e = None" "p = (- 1, - 1)" "s1 = s"
    | x where "b" "e = Some x" "p = (- 1, - 1)" "k_pipe os s = (Inl x, s1)"
    | "b" "e = None" "k_pipe os s = (Inr p, s1)"
    using r by (auto simp: build_pipe_def split: if_splits sum.splits prod.splits)
  then show ?thesis
  proof cases
    case 1
    then show ?thesis using o by (simp add: pipe_ok_def)
  next
    case 2
    then show ?thesis using o kp by (simp add: owns_def)
  next
    case 3
    obtain r w where p: "p = (r, w)" by fastforce
    obtain n where n: "0 \<le> r" "0 \<le> w" "r \<noteq> w" "tab s r = None" "tab s w = None" "tab s1 = (tab s)(r \<mapsto> Pipe_read n, w \<mapsto> Pipe_write n)"
      using kp 3(3) p by auto
    have l: "layer p n = [r \<mapsto> Pipe_read n, w \<mapsto> Pipe_write n]" using n(1) p by (simp add: layer_def)
    have "owns tab t (own ++ layer p n) s1" using o n l by (auto simp: owns_def)
    moreover have "dom (layer p n) \<inter> dom own = {}" using o n l by (auto simp: owns_def)
    moreover have "pipe_ok b p" using 3(1) n p by (simp add: pipe_ok_def)
    ultimately show ?thesis using 3 by auto
  qed
qed

lemma layer_dom: "pipe_ok b p \<Longrightarrow> dom (layer p n) = {fd \<in> {fst p, snd p}. 0 \<le> fd}"
  by (auto simp: pipe_ok_def layer_def split: if_splits)

lemma build_pipes_owns:
  assumes k: "fd_kernel os tab" and o: "owns tab t own s" and r: "HXproc_build_pipes os flags s = (e, pp, s1)"
  shows "case e of
      Some _ \<Rightarrow> \<exists>x. owns tab t (own ++ x) s1 \<and> dom x \<inter> dom own = {} \<and> dom x = {fd \<in> ends pp. 0 \<le> fd}
    | None \<Rightarrow> (case pp of (p0, p1, p2) \<Rightarrow>
        pipe_ok (pflag flags HXPROC_STDIN) p0 \<and> pipe_ok (pflag flags HXPROC_STDOUT) p1 \<and> pipe_ok (pflag flags HXPROC_STDERR) p2 \<and>
        (\<exists>n0 n1 n2. owns tab t (own ++ layer p0 n0 ++ layer p1 n1 ++ layer p2 n2) s1 \<and>
          dom (layer p0 n0) \<inter> dom own = {} \<and> dom (layer p1 n1) \<inter> (dom own \<union> dom (layer p0 n0)) = {} \<and>
          dom (layer p2 n2) \<inter> (dom own \<union> dom (layer p0 n0) \<union> dom (layer p1 n1)) = {}))"
proof -
  obtain e0 p0 s2 where b0: "build_pipe os (pflag flags HXPROC_STDIN) s = (e0, p0, s2)" by (rule prod_cases3)
  note o0 = build_pipe_owns [OF k o b0]
  show ?thesis
  proof (cases e0)
    case (Some x)
    then have "e = Some x" "pp = ((- 1, - 1), (- 1, - 1), (- 1, - 1))" "owns tab t own s1"
      using r b0 o0 by (auto simp: HXproc_build_pipes_def)
    then show ?thesis by (auto simp: ends_def intro!: exI [of _ Map.empty])
  next
    case None
    obtain n0 where n0: "pipe_ok (pflag flags HXPROC_STDIN) p0" "dom (layer p0 n0) \<inter> dom own = {}"
      "owns tab t (own ++ layer p0 n0) s2" using o0 None by auto
    note d0 = layer_dom [OF n0(1), of n0]
    obtain e1 p1 s3 where b1: "build_pipe os (pflag flags HXPROC_STDOUT) s2 = (e1, p1, s3)" by (rule prod_cases3)
    note o1 = build_pipe_owns [OF k n0(3) b1]
    show ?thesis
    proof (cases e1)
      case (Some x)
      then have e: "e = Some x" "pp = (p0, (- 1, - 1), (- 1, - 1))" "owns tab t (own ++ layer p0 n0) s1"
        using r b0 b1 o1 None by (auto simp: HXproc_build_pipes_def)
      have "dom (layer p0 n0) = {fd \<in> ends pp. 0 \<le> fd}" unfolding d0 e(2) by (cases p0) (auto simp: ends_def)
      then show ?thesis using n0(2) e(3) unfolding e(1) option.case by blast
    next
      case N1: None
      obtain n1 where n1: "pipe_ok (pflag flags HXPROC_STDOUT) p1" "dom (layer p1 n1) \<inter> dom (own ++ layer p0 n0) = {}"
        "owns tab t (own ++ layer p0 n0 ++ layer p1 n1) s3" using o1 N1 by auto
      note d1 = layer_dom [OF n1(1), of n1]
      obtain e2 p2 s4 where b2: "build_pipe os (pflag flags HXPROC_STDERR) s3 = (e2, p2, s4)" by (rule prod_cases3)
      note o2 = build_pipe_owns [OF k n1(3) b2]
      have res: "e = e2" "pp = (p0, p1, p2)" "s1 = s4" using r b0 b1 b2 None N1 by (auto simp: HXproc_build_pipes_def)
      show ?thesis
      proof (cases e2)
        case (Some x)
        then have p2: "p2 = (- 1, - 1)" "owns tab t (own ++ layer p0 n0 ++ layer p1 n1) s4" using o2 by auto
        have "dom (layer p0 n0 ++ layer p1 n1) = {fd \<in> ends pp. 0 \<le> fd}"
          unfolding res p2(1) dom_map_add d0 d1 by (auto simp: ends_def split: prod.splits)
        moreover have "dom (layer p0 n0 ++ layer p1 n1) \<inter> dom own = {}" using n0(2) n1(2) by auto
        moreover have "owns tab t (own ++ (layer p0 n0 ++ layer p1 n1)) s1" using p2(2) res(3) by simp
        ultimately show ?thesis unfolding res(1) Some option.case by blast
      next
        case N2: None
        then obtain n2 where "pipe_ok (pflag flags HXPROC_STDERR) p2"
          "dom (layer p2 n2) \<inter> dom (own ++ layer p0 n0 ++ layer p1 n1) = {}"
          "owns tab t (own ++ layer p0 n0 ++ layer p1 n1 ++ layer p2 n2) s4" using o2 by auto
        then have "owns tab t (own ++ layer p0 n0 ++ layer p1 n1 ++ layer p2 n2) s4 \<and>
          dom (layer p0 n0) \<inter> dom own = {} \<and> dom (layer p1 n1) \<inter> (dom own \<union> dom (layer p0 n0)) = {} \<and>
          dom (layer p2 n2) \<inter> (dom own \<union> dom (layer p0 n0) \<union> dom (layer p1 n1)) = {}"
          using n0(2) n1(2) by (simp add: Un_commute Un_left_commute)
        then show ?thesis using n0(1) n1(1) \<open>pipe_ok (pflag flags HXPROC_STDERR) p2\<close> unfolding res N2 by auto
      qed
    qed
  qed
qed

definition ours :: "bool \<Rightarrow> int \<Rightarrow> object \<Rightarrow> table" where
  "ours b fd ob = (if b then [fd \<mapsto> ob] else Map.empty)"

lemma pflag_or: "pflag flags (f OR g) \<longleftrightarrow> pflag flags f \<or> pflag flags g"
  by (simp add: pflag_def bit.conj_disj_distrib or_eq_0_iff)

lemma dup_kernel:
  assumes "fd_kernel os tab" "tab s fd = Some ob"
  shows "case k_dup os fd s of (d, s1) \<Rightarrow> 0 \<le> d \<and> tab s d = None \<and> tab s1 = (tab s)(d \<mapsto> ob)"
proof -
  have "\<forall>fd s ob. tab s fd = Some ob \<longrightarrow> (case k_dup os fd s of (d, s1) \<Rightarrow> 0 \<le> d \<and> tab s d = None \<and> tab s1 = (tab s)(d \<mapsto> ob))"
    using assms(1) unfolding fd_kernel_def by (elim conjE) assumption
  from this [rule_format, OF assms(2)] show ?thesis .
qed

lemma null_kernel:
  assumes "fd_kernel os tab"
  shows "case k_null os s of (Inl e, s1) \<Rightarrow> tab s1 = tab s
      | (Inr n, s1) \<Rightarrow> 0 \<le> n \<and> tab s n = None \<and> tab s1 = (tab s)(n \<mapsto> Null_device)"
proof -
  have "\<forall>s. case k_null os s of (Inl e, s1) \<Rightarrow> tab s1 = tab s
      | (Inr n, s1) \<Rightarrow> 0 \<le> n \<and> tab s n = None \<and> tab s1 = (tab s)(n \<mapsto> Null_device)"
    using assms unfolding fd_kernel_def by (elim conjE) assumption
  from this [rule_format] show ?thesis .
qed

lemma child_dup_owns:
  assumes k: "fd_kernel os tab" and o: "owns tab t own s" and r: "child_dup os pipe null old pfd nullfd s = (d, s1)"
    and ob: "pipe \<Longrightarrow> own pfd = Some ob" "\<not> pipe \<Longrightarrow> null \<Longrightarrow> own nullfd = Some ob"
  shows "owns tab t (own ++ ours (pipe \<or> null) d ob) s1"
    and "pipe \<or> null \<Longrightarrow> 0 \<le> d \<and> d \<notin> dom t \<and> d \<notin> dom own" and "\<not> (pipe \<or> null) \<Longrightarrow> s1 = s"
proof -
  have dup: "0 \<le> d \<and> d \<notin> dom t \<and> d \<notin> dom own \<and> owns tab t (own ++ [d \<mapsto> ob]) s1" if "k_dup os fd s = (d, s1)" "own fd = Some ob" for fd
  proof -
    have f: "tab s fd = Some ob" using o that(2) by (simp add: owns_def)
    have "case k_dup os fd s of (d, s1) \<Rightarrow> 0 \<le> d \<and> tab s d = None \<and> tab s1 = (tab s)(d \<mapsto> ob)"
      by (rule dup_kernel [OF k f])
    then have d: "0 \<le> d" "tab s d = None" "tab s1 = (tab s)(d \<mapsto> ob)" using that(1) by auto
    then have "d \<notin> dom t" "d \<notin> dom own" using o by (auto simp: owns_def)
    then show ?thesis using d o by (auto simp: owns_def)
  qed
  show "owns tab t (own ++ ours (pipe \<or> null) d ob) s1"
    using r dup ob o by (auto simp: child_dup_def ours_def split: if_splits)
  show "pipe \<or> null \<Longrightarrow> 0 \<le> d \<and> d \<notin> dom t \<and> d \<notin> dom own"
    using r dup ob by (auto simp: child_dup_def split: if_splits)
  show "\<not> (pipe \<or> null) \<Longrightarrow> s1 = s" using r by (auto simp: child_dup_def)
qed

lemma child_move_owns:
  assumes k: "fd_kernel os tab" and o: "owns tab t own s" and d: "b \<Longrightarrow> own d = Some ob" and t: "target \<in> dom t"
  shows "owns tab (if b then t(target \<mapsto> ob) else t) (if b then own(d := None) else own) (child_move os b d target s)"
proof (cases b)
  case True
  have "own d = Some ob" using d True by simp
  then have "0 \<le> d" "d \<notin> dom t" "target \<notin> dom own" using o t by (auto simp: owns_def)
  then have n: "0 \<le> d" "d \<notin> dom (t(target \<mapsto> ob))" "d \<noteq> target" using t by auto
  have "tab s d = Some ob" using o d True by (simp add: owns_def)
  then have "tab (k_dup2 os d target s) = (tab s)(target \<mapsto> ob)" using k by (simp only: fd_kernel_def)
  also have "\<dots> = t(target \<mapsto> ob) ++ own" using o \<open>target \<notin> dom own\<close> by (auto simp: owns_def map_add_upd_left)
  finally have "owns tab (t(target \<mapsto> ob)) own (k_dup2 os d target s)" using o \<open>target \<notin> dom own\<close> by (auto simp: owns_def)
  from owns_close [OF k this n(2)] show ?thesis using True n by (simp add: child_move_def)
next
  case False
  then show ?thesis using o by (simp add: child_move_def)
qed

text \<open>What the parent is left with.\<close>

lemma parent_keep_owns:
  assumes k: "fd_kernel os tab" and o: "owns tab t own s" and r: "parent_keep os b theirs us old s = (fd, s1)"
    and f: "b \<Longrightarrow> theirs \<notin> dom t"
  shows "owns tab t (if b then own(theirs := None) else own) s1" "fd = (if b then us else old)"
proof -
  have "owns tab t (if b then own(theirs := None) else own) s1 \<and> fd = (if b then us else old)"
  proof (cases b)
    case True
    then show ?thesis using r owns_close [OF k o f [OF True]] by (simp add: parent_keep_def)
  next
    case False
    then show ?thesis using r o by (simp add: parent_keep_def)
  qed
  then show "owns tab t (if b then own(theirs := None) else own) s1" "fd = (if b then us else old)" by simp_all
qed

lemma parent_setup_owns:
  assumes k: "fd_kernel os tab" and o: "owns tab t (base ++ layer p0 n0 ++ layer p1 n1 ++ layer p2 n2) s"
    and p: "pipe_ok (pflag (p_flags p) HXPROC_STDIN) p0" "pipe_ok (pflag (p_flags p) HXPROC_STDOUT) p1"
      "pipe_ok (pflag (p_flags p) HXPROC_STDERR) p2"
    and d: "dom (layer p0 n0) \<inter> dom base = {}" "dom (layer p1 n1) \<inter> (dom base \<union> dom (layer p0 n0)) = {}"
      "dom (layer p2 n2) \<inter> (dom base \<union> dom (layer p0 n0) \<union> dom (layer p1 n1)) = {}"
    and b: "base = (if nullfd < 0 then Map.empty else [nullfd \<mapsto> Null_device])"
    and r: "parent_setup os p (p0, p1, p2) nullfd s = (q, s1)"
  shows "owns tab t (ours (pflag (p_flags p) HXPROC_STDIN) (p_stdin q) (Pipe_write n0) ++
      ours (pflag (p_flags p) HXPROC_STDOUT) (p_stdout q) (Pipe_read n1) ++
      ours (pflag (p_flags p) HXPROC_STDERR) (p_stderr q) (Pipe_read n2)) s1"
proof -
  let ?fl = "pflag (p_flags p)"
  obtain a1 b1 c1 d1 e1 f1 where q: "p0 = (a1, b1)" "p1 = (c1, d1)" "p2 = (e1, f1)"
    using surj_pair [of p0] surj_pair [of p1] surj_pair [of p2] by blast
  let ?own = "base ++ layer p0 n0 ++ layer p1 n1 ++ layer p2 n2"
  have t: "fd \<in> dom ?own \<Longrightarrow> fd \<notin> dom t" for fd using o by (auto simp: owns_def)
  obtain i s2 where i: "parent_keep os (?fl HXPROC_STDIN) a1 b1 (p_stdin p) s = (i, s2)" by fastforce
  obtain ou s3 where ou: "parent_keep os (?fl HXPROC_STDOUT) d1 c1 (p_stdout p) s2 = (ou, s3)" by fastforce
  obtain er s4 where er: "parent_keep os (?fl HXPROC_STDERR) f1 e1 (p_stderr p) s3 = (er, s4)" by fastforce
  note dl = layer_dom [OF p(1), of n0] layer_dom [OF p(2), of n1] layer_dom [OF p(3), of n2]
  note o1 = parent_keep_owns [OF k o i]
  let ?o1 = "if ?fl HXPROC_STDIN then ?own(a1 := None) else ?own"
  have x1: "a1 \<notin> dom t" if "?fl HXPROC_STDIN"
    by (rule t) (unfold dom_map_add, use that p(1) dl(1) q(1) in \<open>auto simp: pipe_ok_def\<close>)
  have o1: "owns tab t ?o1 s2" "i = (if ?fl HXPROC_STDIN then b1 else p_stdin p)" using o1 x1 by blast+
  note o2 = parent_keep_owns [OF k o1(1) ou]
  let ?o2 = "if ?fl HXPROC_STDOUT then ?o1(d1 := None) else ?o1"
  have x2: "d1 \<notin> dom t" if "?fl HXPROC_STDOUT"
    by (rule t) (unfold dom_map_add, use that p(2) dl(2) q(2) in \<open>auto simp: pipe_ok_def\<close>)
  have o2: "owns tab t ?o2 s3" "ou = (if ?fl HXPROC_STDOUT then c1 else p_stdout p)" using o2 x2 by blast+
  note o3 = parent_keep_owns [OF k o2(1) er]
  let ?o3 = "if ?fl HXPROC_STDERR then ?o2(f1 := None) else ?o2"
  have x3: "f1 \<notin> dom t" if "?fl HXPROC_STDERR"
    by (rule t) (unfold dom_map_add, use that p(3) dl(3) q(3) in \<open>auto simp: pipe_ok_def\<close>)
  have o3: "owns tab t ?o3 s4" "er = (if ?fl HXPROC_STDERR then e1 else p_stderr p)" using o3 x3 by blast+
  have nt: "0 \<le> nullfd \<Longrightarrow> nullfd \<notin> dom t" by (rule t) (simp add: b)
  have o4: "owns tab t (?o3(nullfd := None)) (xc os nullfd s4)" by (rule owns_xc [OF k o3(1) nt])
  have res: "s1 = xc os nullfd s4" "p_stdin q = i" "p_stdout q = ou" "p_stderr q = er"
    using r i ou er by (auto simp: parent_setup_def q Let_def)
  have "?o3(nullfd := None) = ours (?fl HXPROC_STDIN) i (Pipe_write n0) ++ ours (?fl HXPROC_STDOUT) ou (Pipe_read n1) ++
      ours (?fl HXPROC_STDERR) er (Pipe_read n2)"
  proof
    fix fd
    have "a1 \<noteq> b1" "0 \<le> a1" "0 \<le> b1" if "?fl HXPROC_STDIN" using p(1) that q(1) by (auto simp: pipe_ok_def)
    moreover have "c1 \<noteq> d1" "0 \<le> c1" "0 \<le> d1" if "?fl HXPROC_STDOUT" using p(2) that q(2) by (auto simp: pipe_ok_def)
    moreover have "e1 \<noteq> f1" "0 \<le> e1" "0 \<le> f1" if "?fl HXPROC_STDERR" using p(3) that q(3) by (auto simp: pipe_ok_def)
    ultimately show "(?o3(nullfd := None)) fd = (ours (?fl HXPROC_STDIN) i (Pipe_write n0) ++ ours (?fl HXPROC_STDOUT) ou (Pipe_read n1) ++
      ours (?fl HXPROC_STDERR) er (Pipe_read n2)) fd"
      using p d b unfolding o1(2) o2(2) o3(2) q
      by (cases "?fl HXPROC_STDIN"; cases "?fl HXPROC_STDOUT"; cases "?fl HXPROC_STDERR"; cases "nullfd < 0")
        (auto simp add: layer_def ours_def pipe_ok_def map_add_def)
  qed
  then show ?thesis using o4 unfolding res by simp
qed

text \<open>What the child starts with: descriptor \<open>i\<close> is the end of a pipe, the null device, or what it was.\<close>

definition std :: "bool \<Rightarrow> bool \<Rightarrow> object \<Rightarrow> object" where
  "std pipe null ob = (if pipe then ob else Null_device)"

definition connect :: "bool \<Rightarrow> bool \<Rightarrow> object \<Rightarrow> int \<Rightarrow> table \<Rightarrow> table" where
  "connect pipe null ob i t = (if pipe \<or> null then t(i \<mapsto> std pipe null ob) else t)"

lemma connect_dom: "i \<in> dom t \<Longrightarrow> i \<in> dom (connect b c ob j t)"
  by (auto simp: connect_def)

lemma dup_step:
  assumes k: "fd_kernel os tab" and o: "owns tab t own s" and r: "child_dup os pipe null old pfd nullfd s = (d, s1)"
    and ob: "pipe \<Longrightarrow> own pfd = Some ob" "null \<Longrightarrow> own nullfd = Some Null_device"
  shows "owns tab t (own ++ ours (pipe \<or> null) d (std pipe null ob)) s1"
    and "pipe \<or> null \<Longrightarrow> 0 \<le> d \<and> d \<notin> dom t \<and> d \<notin> dom own"
proof -
  have a: "pipe \<Longrightarrow> own pfd = Some (std pipe null ob)" "\<not> pipe \<Longrightarrow> null \<Longrightarrow> own nullfd = Some (std pipe null ob)"
    using ob by (simp_all add: std_def)
  show "owns tab t (own ++ ours (pipe \<or> null) d (std pipe null ob)) s1"
    "pipe \<or> null \<Longrightarrow> 0 \<le> d \<and> d \<notin> dom t \<and> d \<notin> dom own"
    using child_dup_owns [OF k o r a] by blast+
qed

lemma move_step:
  assumes k: "fd_kernel os tab" and o: "owns tab t (own ++ ours (pipe \<or> null) d (std pipe null ob)) s"
    and d: "pipe \<or> null \<Longrightarrow> d \<notin> dom own" and i: "i \<in> dom t"
  shows "owns tab (connect pipe null ob i t) own (child_move os (pipe \<or> null) d i s)"
proof -
  have a: "pipe \<or> null \<Longrightarrow> (own ++ ours (pipe \<or> null) d (std pipe null ob)) d = Some (std pipe null ob)" by (simp add: ours_def)
  have e: "(if pipe \<or> null then (own ++ ours (pipe \<or> null) d (std pipe null ob))(d := None)
      else own ++ ours (pipe \<or> null) d (std pipe null ob)) = own"
    using d by (auto simp: ours_def fun_upd_idem_iff domIff)
  show ?thesis using child_move_owns [where b = "pipe \<or> null", OF k o a i] unfolding e by (simp only: connect_def)
qed

lemma own_swap:
  assumes "b \<Longrightarrow> d \<notin> dom x"
  shows "own ++ ours b d ob ++ x = own ++ x ++ ours b d ob"
  using assms by (auto simp: ours_def map_add_def fun_eq_iff domIff split: option.splits)

lemma restrict_keep: "dom m \<inter> S = {} \<Longrightarrow> m |` (- S) = m"
proof
  fix x assume d: "dom m \<inter> S = {}"
  show "(m |` (- S)) x = m x"
  proof (cases "x \<in> S")
    case True
    then have "x \<notin> dom m" using d by blast
    then show ?thesis using True by (simp add: domIff restrict_map_def)
  qed (simp add: restrict_map_def)
qed

lemma restrict_gone: "dom m \<subseteq> S \<Longrightarrow> m |` (- S) = Map.empty"
  by (rule ext) (auto simp: restrict_map_def)

lemma restrict_add: "(m1 ++ m2) |` A = (m1 |` A) ++ (m2 |` A)"
  by (rule ext) (auto simp: restrict_map_def map_add_def)

lemma ours_dom: "(b \<Longrightarrow> fd \<notin> S) \<Longrightarrow> dom (ours b fd ob) \<inter> S = {}"
  by (simp add: ours_def)

lemma child_setup_owns:
  assumes k: "fd_kernel os tab" and o: "owns tab t (base ++ layer p0 n0 ++ layer p1 n1 ++ layer p2 n2) s"
    and q: "quiet_cbs tab p"
    and p: "pipe_ok (pflag (p_flags p) HXPROC_STDIN) p0" "pipe_ok (pflag (p_flags p) HXPROC_STDOUT) p1"
      "pipe_ok (pflag (p_flags p) HXPROC_STDERR) p2"
    and d: "dom (layer p0 n0) \<inter> dom base = {}" "dom (layer p1 n1) \<inter> (dom base \<union> dom (layer p0 n0)) = {}"
      "dom (layer p2 n2) \<inter> (dom base \<union> dom (layer p0 n0) \<union> dom (layer p1 n1)) = {}"
    and b: "base = (if nullfd < 0 then Map.empty else [nullfd \<mapsto> Null_device])"
    and nul: "pflag (p_flags p) HXPROC_NULL_STDIN \<or> pflag (p_flags p) HXPROC_NULL_STDOUT \<or> pflag (p_flags p) HXPROC_NULL_STDERR \<Longrightarrow> 0 \<le> nullfd"
    and r: "child_setup os p (p0, p1, p2) nullfd s = (p', s1)" and std: "0 \<in> dom t" "1 \<in> dom t" "2 \<in> dom t"
  shows "tab s1 = connect (pflag (p_flags p) HXPROC_STDERR) (pflag (p_flags p) HXPROC_NULL_STDERR) (Pipe_write n2) 2
     (connect (pflag (p_flags p) HXPROC_STDOUT) (pflag (p_flags p) HXPROC_NULL_STDOUT) (Pipe_write n1) 1
       (connect (pflag (p_flags p) HXPROC_STDIN) (pflag (p_flags p) HXPROC_NULL_STDIN) (Pipe_read n0) 0 t))"
proof -
  let ?fl = "pflag (p_flags p)"
  let ?i = "?fl HXPROC_STDIN" and ?ni = "?fl HXPROC_NULL_STDIN" and ?o = "?fl HXPROC_STDOUT" and ?no = "?fl HXPROC_NULL_STDOUT"
  let ?e = "?fl HXPROC_STDERR" and ?ne = "?fl HXPROC_NULL_STDERR"
  obtain a b1 c d1 e f where q3: "p0 = (a, b1)" "p1 = (c, d1)" "p2 = (e, f)"
    using surj_pair [of p0] surj_pair [of p1] surj_pair [of p2] by blast
  let ?own = "base ++ layer p0 n0 ++ layer p1 n1 ++ layer p2 n2"
  note dl = layer_dom [OF p(1), of n0] layer_dom [OF p(2), of n1] layer_dom [OF p(3), of n2]
  have own: "?i \<Longrightarrow> ?own a = Some (Pipe_read n0)" "?o \<Longrightarrow> ?own d1 = Some (Pipe_write n1)" "?e \<Longrightarrow> ?own f = Some (Pipe_write n2)"
    "?ni \<or> ?no \<or> ?ne \<Longrightarrow> ?own nullfd = Some Null_device"
  proof -
    have m: "x \<notin> dom m2 \<Longrightarrow> (m1 ++ m2) x = m1 x" for x :: int and m1 m2 :: table by (simp add: map_add_dom_app_simps)
    show "?i \<Longrightarrow> ?own a = Some (Pipe_read n0)"
    proof -
      assume i: ?i
      then have l: "layer p0 n0 a = Some (Pipe_read n0)" using p(1) q3 by (simp add: pipe_ok_def layer_def)
      then have "a \<in> dom (layer p0 n0)" by blast
      then have "a \<notin> dom (layer p1 n1)" "a \<notin> dom (layer p2 n2)" using d by blast+
      then show ?thesis using l by (simp add: m)
    qed
    show "?o \<Longrightarrow> ?own d1 = Some (Pipe_write n1)"
    proof -
      assume i: ?o
      then have l: "layer p1 n1 d1 = Some (Pipe_write n1)" using p(2) q3 by (simp add: pipe_ok_def layer_def)
      then have "d1 \<in> dom (layer p1 n1)" by blast
      then have "d1 \<notin> dom (layer p2 n2)" using d by blast
      then show ?thesis using l by (simp add: m)
    qed
    show "?e \<Longrightarrow> ?own f = Some (Pipe_write n2)" using p(3) q3 by (simp add: pipe_ok_def layer_def)
    assume "?ni \<or> ?no \<or> ?ne"
    then have l: "base nullfd = Some Null_device" using nul b by auto
    then have "nullfd \<in> dom base" by blast
    then have "nullfd \<notin> dom (layer p0 n0)" "nullfd \<notin> dom (layer p1 n1)" "nullfd \<notin> dom (layer p2 n2)" using d by blast+
    then show "?own nullfd = Some Null_device" using l by (simp add: m)
  qed
  obtain i s2 where i: "child_dup os ?i ?ni (p_stdin p) a nullfd s = (i, s2)" by fastforce
  obtain ou s3 where ou: "child_dup os ?o ?no (p_stdout p) d1 nullfd s2 = (ou, s3)" by fastforce
  obtain er s4 where er: "child_dup os ?e ?ne (p_stderr p) f nullfd s3 = (er, s4)" by fastforce
  let ?x0 = "ours (?i \<or> ?ni) i (std ?i ?ni (Pipe_read n0))" and ?x1 = "ours (?o \<or> ?no) ou (std ?o ?no (Pipe_write n1))"
  let ?x2 = "ours (?e \<or> ?ne) er (std ?e ?ne (Pipe_write n2))"
  have nl: "?ni \<Longrightarrow> ?own nullfd = Some Null_device" "?no \<Longrightarrow> ?own nullfd = Some Null_device" "?ne \<Longrightarrow> ?own nullfd = Some Null_device"
    using own(4) by blast+
  have keep: "(m ++ ours w j y) fd = Some ob" if "m fd = Some ob" "w \<Longrightarrow> j \<notin> dom m" for m :: table and w j y fd ob
    using that by (auto simp: ours_def)
  have k0: "owns tab t (?own ++ ?x0) s2" by (rule dup_step(1) [OF k o i own(1) nl(1)])
  have f0: "0 \<le> i \<and> i \<notin> dom t \<and> i \<notin> dom ?own" if "?i \<or> ?ni" by (rule dup_step(2) [OF k o i own(1) nl(1) that])
  have g0: "?i \<or> ?ni \<Longrightarrow> i \<notin> dom ?own" by (rule f0 [THEN conjunct2, THEN conjunct2])
  have k1: "owns tab t (?own ++ ?x0 ++ ?x1) s3"
    by (rule dup_step(1) [OF k k0 ou keep [OF own(2) g0] keep [OF nl(2) g0]])
  have f1: "0 \<le> ou \<and> ou \<notin> dom t \<and> ou \<notin> dom (?own ++ ?x0)" if "?o \<or> ?no"
    by (rule dup_step(2) [OF k k0 ou keep [OF own(2) g0] keep [OF nl(2) g0] that])
  have g1: "?o \<or> ?no \<Longrightarrow> ou \<notin> dom (?own ++ ?x0)" by (rule f1 [THEN conjunct2, THEN conjunct2])
  have k2: "owns tab t (?own ++ ?x0 ++ ?x1 ++ ?x2) s4"
    by (rule dup_step(1) [OF k k1 er keep [OF keep [OF own(3) g0] g1] keep [OF keep [OF nl(3) g0] g1]])
  have f2: "0 \<le> er \<and> er \<notin> dom t \<and> er \<notin> dom (?own ++ ?x0 ++ ?x1)" if "?e \<or> ?ne"
    by (rule dup_step(2) [OF k k1 er keep [OF keep [OF own(3) g0] g1] keep [OF keep [OF nl(3) g0] g1] that])
  let ?p = "p\<lparr>p_stdin := i, p_stdout := ou, p_stderr := er\<rparr>" and ?pp = "(p0, p1, p2)"
  let ?s5 = "HXproc_close_pipes os ?pp (proc_cb p_postfork ?p s4)"
  have cb: "tab (proc_cb p_postfork ?p s4) = tab s4" using q by (simp add: quiet_cbs_def proc_cb_def)
  have k3: "owns tab t (?own ++ ?x0 ++ ?x1 ++ ?x2) (proc_cb p_postfork ?p s4)" using k2 unfolding owns_def cb .
  have en: "fd \<in> dom ?own" "fd \<notin> dom base" if "fd \<in> ends ?pp" "0 \<le> fd" for fd
  proof -
    have "fd \<in> dom (layer p0 n0) \<union> dom (layer p1 n1) \<union> dom (layer p2 n2)" unfolding dl using that q3 by (auto simp: ends_def)
    then show "fd \<in> dom ?own" "fd \<notin> dom base" using d by auto
  qed
  have dt: "fd \<in> ends ?pp \<Longrightarrow> 0 \<le> fd \<Longrightarrow> fd \<notin> dom t" for fd
  proof -
    assume "fd \<in> ends ?pp" "0 \<le> fd"
    then have "fd \<in> dom ?own" by (rule en(1))
    moreover have "dom t \<inter> dom ?own = {}" using o by (simp only: owns_def)
    ultimately show "fd \<notin> dom t" by (metis disjoint_iff)
  qed
  have not_end: "fd \<notin> ends ?pp" if "0 \<le> fd" "fd \<notin> dom ?own" for fd
    using en(1) [OF _ that(1)] that(2) by (rule contrapos_nn [rotated])
  have k4: "owns tab t ((?own ++ ?x0 ++ ?x1 ++ ?x2) |` (- ends ?pp)) ?s5" by (rule owns_close_pipes [OF k k3 dt])
  have restr: "(?own ++ ?x0 ++ ?x1 ++ ?x2) |` (- ends ?pp) = base ++ ?x0 ++ ?x1 ++ ?x2"
  proof -
    have bp: "0 \<le> fd" if "fd \<in> dom base" for fd using that b by (simp split: if_splits)
    have "dom base \<inter> ends ?pp = {}" using en(2) bp by blast
    then have "base |` (- ends ?pp) = base" by (rule restrict_keep)
    moreover have "layer p0 n0 |` (- ends ?pp) = Map.empty" by (rule restrict_gone) (use dl(1) q3 in \<open>auto simp: ends_def\<close>)
    moreover have "layer p1 n1 |` (- ends ?pp) = Map.empty" by (rule restrict_gone) (use dl(2) q3 in \<open>auto simp: ends_def\<close>)
    moreover have "layer p2 n2 |` (- ends ?pp) = Map.empty" by (rule restrict_gone) (use dl(3) q3 in \<open>auto simp: ends_def\<close>)
    moreover have "?x0 |` (- ends ?pp) = ?x0" by (rule restrict_keep, rule ours_dom, rule not_end) (use f0 in auto)
    moreover have "?x1 |` (- ends ?pp) = ?x1" by (rule restrict_keep, rule ours_dom, rule not_end) (use f1 in auto)
    moreover have "?x2 |` (- ends ?pp) = ?x2" by (rule restrict_keep, rule ours_dom, rule not_end) (use f2 in auto)
    ultimately show ?thesis by (simp only: restrict_add) simp
  qed
  have sub: "x \<in> dom (base ++ m) \<Longrightarrow> x \<in> dom (?own ++ m)" for x m by auto
  have n0: "?i \<or> ?ni \<Longrightarrow> i \<notin> dom (base ++ ?x1 ++ ?x2)"
    using f0 f1 f2 by (auto simp: ours_def split: if_splits)
  have n1: "?o \<or> ?no \<Longrightarrow> ou \<notin> dom (base ++ ?x2)"
    using f1 f2 by (auto simp: ours_def split: if_splits)
  have n2: "?e \<or> ?ne \<Longrightarrow> er \<notin> dom base"
    using f2 by (auto simp: ours_def split: if_splits)
  have w0: "base ++ ?x0 ++ ?x1 ++ ?x2 = base ++ ?x1 ++ ?x2 ++ ?x0"
    using own_swap [of "?i \<or> ?ni" i "?x1 ++ ?x2" base "std ?i ?ni (Pipe_read n0)"] n0 by simp
  have w1: "base ++ ?x1 ++ ?x2 = base ++ ?x2 ++ ?x1"
    by (rule own_swap) (use n1 in simp)
  let ?t1 = "connect ?i ?ni (Pipe_read n0) 0 t"
  let ?t2 = "connect ?o ?no (Pipe_write n1) 1 ?t1"
  let ?t3 = "connect ?e ?ne (Pipe_write n2) 2 ?t2"
  let ?s6 = "child_move os (?i \<or> ?ni) i 0 ?s5"
  let ?s7 = "child_move os (?o \<or> ?no) ou 1 ?s6"
  let ?s8 = "child_move os (?e \<or> ?ne) er 2 ?s7"
  have m5: "owns tab t (base ++ ?x1 ++ ?x2 ++ ?x0) ?s5" using k4 unfolding restr w0 .
  have "owns tab ?t1 (base ++ ?x1 ++ ?x2) ?s6" by (rule move_step [OF k m5 n0 std(1)])
  then have m6: "owns tab ?t1 (base ++ ?x2 ++ ?x1) ?s6" unfolding w1 .
  have m7: "owns tab ?t2 (base ++ ?x2) ?s7" by (rule move_step [OF k m6 n1 connect_dom [OF std(2)]])
  have m8: "owns tab ?t3 base ?s8" by (rule move_step [OF k m7 n2 connect_dom [OF connect_dom [OF std(3)]]])
  have "0 \<le> nullfd \<Longrightarrow> nullfd \<notin> dom ?t3" using m8 b by (auto simp: owns_def)
  from owns_xc [OF k m8 this] have "owns tab ?t3 (base(nullfd := None)) (xc os nullfd ?s8)" .
  moreover have "base(nullfd := None) = Map.empty" using b by auto
  moreover have "s1 = xc os nullfd ?s8" using r i ou er by (auto simp add: child_setup_def q3 Let_def pflag_or)
  ultimately show ?thesis using owns_empty by metis
qed

lemma run_forked_table:
  assumes k: "fd_kernel os tab" and q: "quiet_cbs tab p"
    and o: "owns tab t (base ++ layer p0 n0 ++ layer p1 n1 ++ layer p2 n2) s"
    and pk: "pipe_ok (pflag (p_flags p) HXPROC_STDIN) p0" "pipe_ok (pflag (p_flags p) HXPROC_STDOUT) p1"
      "pipe_ok (pflag (p_flags p) HXPROC_STDERR) p2"
    and d: "dom (layer p0 n0) \<inter> dom base = {}" "dom (layer p1 n1) \<inter> (dom base \<union> dom (layer p0 n0)) = {}"
      "dom (layer p2 n2) \<inter> (dom base \<union> dom (layer p0 n0) \<union> dom (layer p1 n1)) = {}"
    and b: "base = (if nullfd < 0 then Map.empty else [nullfd \<mapsto> Null_device])"
    and nul: "pflag (p_flags p) HXPROC_NULL_STDIN \<or> pflag (p_flags p) HXPROC_NULL_STDOUT \<or> pflag (p_flags p) HXPROC_NULL_STDERR \<Longrightarrow> 0 \<le> nullfd"
    and r: "run_forked os prog args p (p0, p1, p2) nullfd s = (res, p', s1)"
  shows "case res of
      Returned (Inl e) \<Rightarrow> tab s1 = t
    | Returned (Inr v) \<Rightarrow> v = 1 \<and> owns tab t (ours (pflag (p_flags p) HXPROC_STDIN) (p_stdin p') (Pipe_write n0) ++
        ours (pflag (p_flags p) HXPROC_STDOUT) (p_stdout p') (Pipe_read n1) ++
        ours (pflag (p_flags p) HXPROC_STDERR) (p_stderr p') (Pipe_read n2)) s1
    | Execs v pr as \<Rightarrow> 0 \<in> dom t \<and> 1 \<in> dom t \<and> 2 \<in> dom t \<longrightarrow>
        tab s1 = connect (pflag (p_flags p) HXPROC_STDERR) (pflag (p_flags p) HXPROC_NULL_STDERR) (Pipe_write n2) 2
          (connect (pflag (p_flags p) HXPROC_STDOUT) (pflag (p_flags p) HXPROC_NULL_STDOUT) (Pipe_write n1) 1
            (connect (pflag (p_flags p) HXPROC_STDIN) (pflag (p_flags p) HXPROC_NULL_STDIN) (Pipe_read n0) 0 t))"
proof -
  let ?own = "base ++ layer p0 n0 ++ layer p1 n1 ++ layer p2 n2"
  obtain f s2 where f: "k_fork os (proc_cb p_prefork p s) = (f, s2)" by fastforce
  have "tab (snd (k_fork os (proc_cb p_prefork p s))) = tab (proc_cb p_prefork p s)"
    using k unfolding fd_kernel_def by blast
  then have t2: "tab s2 = tab s" using q f by (simp add: quiet_cbs_def)
  then have o2: "owns tab t ?own s2" using o by (simp add: owns_def)
  show ?thesis
  proof (cases f)
    case (Inl e)
    let ?s3 = "proc_cb p_complete p s2"
    have "tab ?s3 = tab s2" using q by (simp add: quiet_cbs_def)
    then have o3: "owns tab t ?own ?s3" using o2 by (simp add: owns_def)
    have disj: "dom t \<inter> dom ?own = {}" using o by (simp only: owns_def)
    have dl: "dom (layer p0 n0) \<union> dom (layer p1 n1) \<union> dom (layer p2 n2) = {fd \<in> ends (p0, p1, p2). 0 \<le> fd}"
      unfolding layer_dom [OF pk(1)] layer_dom [OF pk(2)] layer_dom [OF pk(3)]
      by (cases p0; cases p1; cases p2) (auto simp: ends_def)
    have dt: "fd \<notin> dom t" if "fd \<in> ends (p0, p1, p2)" "0 \<le> fd" for fd
    proof -
      have "fd \<in> dom ?own" using that dl unfolding dom_map_add by blast
      then show ?thesis using disj by (metis disjoint_iff)
    qed
    have o4: "owns tab t (?own |` (- ends (p0, p1, p2))) (HXproc_close_pipes os (p0, p1, p2) ?s3)"
      by (rule owns_close_pipes [OF k o3 dt])
    have n: "0 \<le> nullfd \<Longrightarrow> nullfd \<notin> dom t"
    proof -
      assume "0 \<le> nullfd"
      then have "nullfd \<in> dom ?own" unfolding dom_map_add by (simp add: b)
      then show ?thesis using disj by (metis disjoint_iff)
    qed
    have "(?own |` (- ends (p0, p1, p2)))(nullfd := None) = Map.empty"
    proof -
      have "dom ?own \<subseteq> insert nullfd (ends (p0, p1, p2))" unfolding dom_map_add using dl b by (auto split: if_splits)
      then have "fd = nullfd \<or> fd \<in> ends (p0, p1, p2) \<or> ?own fd = None" for fd by (metis domIff insertE subsetD)
      then show ?thesis by (auto simp: restrict_map_def fun_eq_iff)
    qed
    with owns_xc [OF k o4 n] have "tab (xc os nullfd (HXproc_close_pipes os (p0, p1, p2) ?s3)) = t" by (simp add: owns_empty)
    then show ?thesis using r f Inl by (auto simp: run_forked_def)
  next
    case (Inr pid)
    let ?p = "p\<lparr>p_pid := pid\<rparr>"
    have fl: "p_flags ?p = p_flags p" "quiet_cbs tab ?p" using q by (simp_all add: quiet_cbs_def proc_cb_def)
    show ?thesis
    proof (cases "pid = 0")
      case True
      obtain c s3 where c: "child_setup os ?p (p0, p1, p2) nullfd s2 = (c, s3)" by fastforce
      have res: "res = Execs (pflag (p_flags c) HXPROC_EXECV) prog (if pflag (p_flags c) HXPROC_A0 then args else prog # args)" "s1 = s3"
        using r f Inr True c by (auto simp: run_forked_def Let_def)
      note ch = child_setup_owns [where p = ?p, unfolded fl(1), OF k o2 fl(2) pk d b nul c]
      show ?thesis unfolding res run_result.case using ch by blast
    next
      case False
      obtain c s3 where c: "parent_setup os ?p (p0, p1, p2) nullfd s2 = (c, s3)" by fastforce
      have res: "res = Returned (Inr 1)" "s1 = s3" "p' = c"
        using r f Inr False c by (auto simp: run_forked_def Let_def)
      note pa = parent_setup_owns [where p = ?p, unfolded fl(1), OF k o2 pk d b c]
      show ?thesis unfolding res run_result.case sum.case using pa by blast
    qed
  qed
qed

definition parent_ends :: "u32 \<Rightarrow> 's HXproc \<Rightarrow> nat \<Rightarrow> nat \<Rightarrow> nat \<Rightarrow> table" where
  "parent_ends flags p n0 n1 n2 =
     ours (pflag flags HXPROC_STDIN) (p_stdin p) (Pipe_write n0) ++ ours (pflag flags HXPROC_STDOUT) (p_stdout p) (Pipe_read n1) ++
     ours (pflag flags HXPROC_STDERR) (p_stderr p) (Pipe_read n2)"

definition child_table :: "u32 \<Rightarrow> nat \<Rightarrow> nat \<Rightarrow> nat \<Rightarrow> table \<Rightarrow> table" where
  "child_table flags n0 n1 n2 t =
     connect (pflag flags HXPROC_STDERR) (pflag flags HXPROC_NULL_STDERR) (Pipe_write n2) 2
       (connect (pflag flags HXPROC_STDOUT) (pflag flags HXPROC_NULL_STDOUT) (Pipe_write n1) 1
         (connect (pflag flags HXPROC_STDIN) (pflag flags HXPROC_NULL_STDIN) (Pipe_read n0) 0 t))"


text \<open>A table as a list, where the next descriptor is above all others.\<close>

definition next_fd :: "(int \<times> object) list \<Rightarrow> int" where
  "next_fd t = foldr (\<lambda>(fd, ob). max (fd + 1)) t 0"

definition list_px :: "int \<Rightarrow> (int \<times> object) list px_ops" where
  "list_px pid = \<lparr>
     k_null = \<lambda>t. (Inr (next_fd t), (next_fd t, Null_device) # t),
     k_pipe = \<lambda>t. (Inr (next_fd t, next_fd t + 1), (next_fd t + 1, Pipe_write (length t)) # (next_fd t, Pipe_read (length t)) # t),
     k_close = \<lambda>fd t. filter (\<lambda>(f, ob). f \<noteq> fd) t,
     k_dup = \<lambda>fd t. (case map_of t fd of None \<Rightarrow> (- 1, t) | Some ob \<Rightarrow> (next_fd t, (next_fd t, ob) # t)),
     k_dup2 = \<lambda>fd f t. (case map_of t fd of None \<Rightarrow> t | Some ob \<Rightarrow> (f, ob) # t),
     k_fork = \<lambda>t. (Inr pid, t),
     k_waitpid = \<lambda>p t. (Inr 256, t)\<rparr>"

lemma next_fd_above: "(fd, ob) \<in> set t \<Longrightarrow> fd < next_fd t"
  by (induction t) (auto simp: next_fd_def max_def)

lemma next_fd_unused: "next_fd t \<le> fd \<Longrightarrow> map_of t fd = None"
  using next_fd_above [of fd _ t] by (force simp: map_of_eq_None_iff)

lemma next_fd_nonneg: "0 \<le> next_fd t"
  by (induction t) (auto simp: next_fd_def max_def)

lemma map_of_close: "map_of (filter (\<lambda>(f, ob). f \<noteq> fd) t) = (map_of t)(fd := None)"
  by (induction t) auto

lemma list_px_kernel: "fd_kernel (list_px pid) map_of"
  using next_fd_nonneg by (auto simp: fd_kernel_def list_px_def map_of_close next_fd_unused fun_eq_iff)

definition cat_proc :: "(int \<times> object) list HXproc" where
  "cat_proc = \<lparr>p_ops = None, p_flags = HXPROC_STDIN OR HXPROC_NULL_STDOUT, p_stdin = 0, p_stdout = 0, p_stderr = 0, p_pid = 0,
     p_status = 0, p_exited = False, p_terminated = False\<rparr>"


section \<open>The status\<close>

lemma unat_small: "n < 2 ^ 32 \<Longrightarrow> unat (of_nat n :: u32) = n"
  by (simp add: unat_of_nat take_bit_nat_eq_self)

lemma WTERMSIG_of_nat: "n < 2 ^ 32 \<Longrightarrow> WTERMSIG (of_nat n) = of_nat (n mod 128)"
proof -
  assume n: "n < 2 ^ 32"
  have "(of_nat n :: u32) AND 0x7F = take_bit 7 (of_nat n)" by (simp only: take_bit_eq_mask) (simp add: mask_eq_exp_minus_1)
  then have "unat (WTERMSIG (of_nat n)) = take_bit 7 n" unfolding WTERMSIG_def by (simp only: unsigned_take_bit_eq unat_small [OF n])
  then have "unat (WTERMSIG (of_nat n)) = n mod 128" by (simp add: take_bit_eq_mod)
  moreover have "unat (of_nat (n mod 128) :: u32) = n mod 128" by (rule unat_small) (use n in simp)
  ultimately show ?thesis by (metis word_unat_eq_iff)
qed

lemma WEXITSTATUS_of_nat: "n < 256 \<Longrightarrow> WEXITSTATUS (of_nat (256 * n)) = of_nat n"
proof -
  assume n: "n < 256"
  have "drop_bit 8 (0xFF00 :: u32) = mask 8" by (simp add: mask_eq_exp_minus_1)
  then have "WEXITSTATUS (of_nat (256 * n)) = take_bit 8 (drop_bit 8 (of_nat (256 * n)))"
    by (simp only: WEXITSTATUS_def drop_bit_and take_bit_eq_mask)
  then have "unat (WEXITSTATUS (of_nat (256 * n))) = n"
    using n unat_small [of "256 * n"] by (simp only: unsigned_take_bit_eq unsigned_drop_bit_eq) (simp add: take_bit_eq_mod drop_bit_eq_div)
  then show ?thesis using unat_small [of n] n by (simp add: word_unat_eq_iff)
qed

lemma ucast_status: "n < 256 \<Longrightarrow> (ucast (of_nat n :: u32) :: u8) = of_nat n" "n < 256 \<Longrightarrow> (ucast (of_nat n :: u8) :: u32) = of_nat n"
  by (simp_all add: word_unat_eq_iff unsigned_ucast_eq unat_of_nat take_bit_nat_eq_self)

lemma of_nat_zero_iff: "n < 2 ^ 32 \<Longrightarrow> (of_nat n :: u32) = 0 \<longleftrightarrow> n = 0"
  using unat_small [of n] unat_eq_zero [of "of_nat n :: u32"] by simp

text \<open>For a child that exited with status \<open>n\<close> \<open>HXproc_wait\<close> returns \<open>n\<close>, and for one that signal \<open>n\<close> ended it returns
  \<open>n\<close> times 65536; the fields of the structure say the same, and the callback has run.\<close>

theorem HXproc_wait_status:
  assumes "n < 256" "k_waitpid os (p_pid p) s = (Inr status, s1)"
  shows "(status = of_nat (256 * n) \<longrightarrow> (\<exists>p1. HXproc_wait os p s = (Inr (of_nat n), p1, proc_cb p_complete p s1) \<and>
      p_exited p1 \<and> \<not> p_terminated p1 \<and> p_status p1 = of_nat n)) \<and>
    (0 < n \<and> n < 127 \<and> status = of_nat n \<longrightarrow> (\<exists>p1. HXproc_wait os p s = (Inr (of_nat (65536 * n)), p1, proc_cb p_complete p s1) \<and>
      \<not> p_exited p1 \<and> p_terminated p1 \<and> p_status p1 = of_nat n))"
proof -
  have x: "WTERMSIG (of_nat (256 * n)) = 0" using assms(1) by (subst WTERMSIG_of_nat) (simp_all add: mod_mult_left_eq [symmetric])
  have e: "\<exists>p1. HXproc_wait os p s = (Inr (of_nat n), p1, proc_cb p_complete p s1) \<and> p_exited p1 \<and> \<not> p_terminated p1 \<and> p_status p1 = of_nat n"
    if "status = of_nat (256 * n)"
    using assms that x WEXITSTATUS_of_nat [OF assms(1)] ucast_status [OF assms(1)]
    by (simp add: HXproc_wait_def WIFEXITED_def WIFSIGNALED_def Let_def)
  have t: "\<exists>p1. HXproc_wait os p s = (Inr (of_nat (65536 * n)), p1, proc_cb p_complete p s1) \<and> \<not> p_exited p1 \<and> p_terminated p1 \<and>
      p_status p1 = of_nat n" if n: "0 < n" "n < 127" "status = of_nat n"
  proof -
    have "WTERMSIG status = of_nat n" unfolding n(3) using n by (subst WTERMSIG_of_nat) simp_all
    moreover have "(of_nat n :: u32) \<noteq> 0" using n by (simp add: of_nat_zero_iff)
    moreover have "(of_nat n :: u32) < 0x7F" using unat_small [of n] n by (simp add: word_less_nat_alt)
    moreover have "push_bit 16 (of_nat n :: u32) = of_nat (65536 * n)" by (simp add: push_bit_eq_mult)
    ultimately show ?thesis using assms ucast_status [OF assms(1)]
      by (simp add: HXproc_wait_def WIFEXITED_def WIFSIGNALED_def Let_def word_gt_0)
  qed
  show ?thesis using e t by blast
qed

theorem HXproc_wait_status_witness:
  "\<exists>p1. HXproc_wait (list_px 0) cat_proc [] = (Inr 1, p1, []) \<and> p_exited p1 \<and> \<not> p_terminated p1 \<and> p_status p1 = 1"
  using HXproc_wait_status [of 1 "list_px 0" cat_proc "[]" 256 "[]"] by (simp add: list_px_def proc_cb_def cat_proc_def)

end
