(* ===== verification/Spec2Isabelle.thy ===== *)
theory Spec2Isabelle
  imports HX_List HX_Deque HX_Mc HX_String HX_Substr HX_Quote HX_Units HX_Map HX_Dequote HX_Optparse HX_Shfile
    HX_Template HX_Endian HX_Time HX_Misc HX_Realpath HX_Io HX_Proc
begin

text \<open>
  A verification library for libHX, the C library of \<^verbatim>\<open>src/src/\<close> and \<^verbatim>\<open>src/include/libHX/\<close>.

  \<^bold>\<open>The program.\<close> libHX collects data structures (intrusive ring lists \<^verbatim>\<open>list.h\<close>, a deque
  \<^verbatim>\<open>deque.c\<close>, hash maps and red-black trees behind one interface \<^verbatim>\<open>map.c\<close>), byte strings that know their
  size (\<^verbatim>\<open>mc.c\<close>), string functions, quoting and numbers with units (\<^verbatim>\<open>string.c\<close>), option parsing and
  configuration files (\<^verbatim>\<open>opt.c\<close>), a template expander (\<^verbatim>\<open>format.c\<close>), files and directories (\<^verbatim>\<open>io.c\<close>),
  processes (\<^verbatim>\<open>proc.c\<close>), times (\<^verbatim>\<open>time.c\<close>) and small tools around them. The parts build on each other: the hash map
  keeps its nodes on ring lists; the line reader fills memory containers; the option parser collects words in a deque; the reader of
  configuration files runs the line reader, the unquoting and the assignment of options, and can put its results into a hash
  map; the expander keeps its variables and functions in two hash maps and unquotes its arguments.

  \<^bold>\<open>Memory.\<close> A pointer is an optional address, \<open>None\<close> being \<^verbatim>\<open>NULL\<close>. Structures whose aliasing
  matters (rings, deques) live on explicit heaps; strings and blocks are lists of bytes with checked reads and
  writes. An operation that could read or write outside its storage returns an \<open>option\<close> (or a stop
  \<open>Undefined\<close>), and \<open>None\<close> is that undefined behaviour, so every theorem about a \<open>Some\<close> states memory
  safety. Allocation results, and the contents of fresh memory where they can be observed, are arguments of the operations.

  \<^bold>\<open>The outside.\<close> System calls, the environment, the user data base, clocks, \<^verbatim>\<open>rand()\<close> and all arithmetic on
  \<^verbatim>\<open>double\<close> are parameters: records of functions over a state \<open>'s\<close>. What a theorem needs of them is one of its
  hypotheses (\<open>reads\<close>, \<open>writes\<close>, \<open>moves\<close>, \<open>tree_os\<close>, \<open>fd_kernel\<close>, \<open>su_kernel\<close>), which state their
  documented behaviour; each has a concrete instance that its witness uses.

  \<^bold>\<open>Theories.\<close>
  \<^item> \<open>HX_Prelude\<close>: machine integers, error numbers, memory cells, blocks and shared lemmas.
  \<^item> \<open>HX_Contracts\<close>: the contracts \<open>dq_contract\<close> (a double-ended list) and \<open>map_contract\<close> (a map), with
    what follows from them once and for all: first in first out, last in first out, and the refinement of
    a reference function by any history of additions and deletions.
  \<^item> \<open>HX_List\<close>: \<^verbatim>\<open>list.h\<close>; \<open>HX_Deque\<close>: \<^verbatim>\<open>deque.c\<close>. Both interpret \<open>dq_contract\<close>.
  \<^item> \<open>HX_Mc\<close>: \<^verbatim>\<open>mc.c\<close>.
  \<^item> \<open>HX_Cstring\<close> and \<open>HX_Num\<close>: the functions of the C library on strings and on numbers in text;
    \<open>HX_String\<close>: paths, trimming, splitting, searching and bounded copies of \<^verbatim>\<open>string.c\<close>; \<open>HX_Substr\<close>: substrings and
    \<open>HX_getl\<close>; \<open>HX_Quote\<close>: \<open>HX_strquote\<close> with its encoders, and the decoders of the round trips;
    \<open>HX_Units\<close>: sizes and durations with units.
  \<^item> \<open>HX_Hash\<close>: lookup3, djb2, the bucket counts and the load fraction of \<^verbatim>\<open>map.c\<close>;
    \<open>HX_Mapops\<close>: flags and the operation table shared by both maps; \<open>HX_Umap\<close>: the hash map;
    \<open>HX_Rbtree\<close>, \<open>HX_Rbinv\<close>, \<open>HX_Rbmap\<close>, \<open>HX_Rbtrav\<close>: the red-black tree, its invariants, its
    refinement of a map, and its traverser; both maps interpret \<open>map_contract\<close>. \<open>HX_Map\<close>: the interface that
    dispatches on the type; \<open>HX_Strmap\<close>: its use with string keys.
  \<^item> \<open>HX_Dequote\<close>: unquoting; \<open>HX_Option\<close>: option tables, lookups and the help screen; \<open>HX_Assign\<close>: the
    assignment of options; \<open>HX_Getopt\<close>: the handlers of \<open>HX_getopt6\<close> and \<open>HX_Optparse\<close>: its grammar and its theorems;
    \<open>HX_Shconf\<close> and \<open>HX_Shfile\<close>: configuration files, a line and a whole file. All of \<^verbatim>\<open>opt.c\<close>.
  \<^item> \<open>HX_Format\<close>: \<^verbatim>\<open>format.c\<close>; \<open>HX_Template\<close>: the grammar of its templates, what they denote, and its theorems.
  \<^item> \<open>HX_Endian\<close>: \<^verbatim>\<open>endian.h\<close>; \<open>HX_Time\<close>: \<^verbatim>\<open>time.c\<close>; \<open>HX_Misc\<close>: \<^verbatim>\<open>misc.c\<close> and \<^verbatim>\<open>rand.c\<close>.
  \<^item> \<open>HX_Realpath\<close> and \<open>HX_Io\<close>: \<^verbatim>\<open>io.c\<close>, symbolic links and paths in the first, files and trees in the second.
  \<^item> \<open>HX_Proc\<close>: \<^verbatim>\<open>proc.c\<close>; a process is its table of descriptors and its four identities.

  \<^bold>\<open>What is shown.\<close> Each data structure keeps its invariant and refines a plain list or function. Parsers (options, configuration
  lines, templates) are related to a grammar: what is generated from an abstract form is read back as that form, and
  inputs outside of it have the error the code gives. Encoders and decoders are inverse to each other, and computed sizes
  are exact. Operations on files and processes do what they say to a tree, a stream or a table of descriptors, given the documented
  behaviour of the calls. Where the code misbehaves, the theorem says on exactly which inputs.

  \<^bold>\<open>Bounds and fuel.\<close> Sizes and counters are words of their C width (\<^verbatim>\<open>size_t\<close> and \<^verbatim>\<open>long\<close> have 64 bits,
  \<^verbatim>\<open>int\<close> has 32); where a theorem needs a length to stay below a bound it says so. Loops that follow
  pointers or depend on the kernel are partial functions, with theorems that say when they return; \<open>HXparse_dequote_fmt\<close>, which need not
  end, and the mutual recursion of the expander take fuel, and it is proved that one more than the length of the text, and three
  units for each character of the template, are enough. All other loops terminate by a measure.

  \<^bold>\<open>Not modelled.\<close> Sockets (\<^verbatim>\<open>socket.c\<close>: almost all of it passes structures to the kernel), dynamic loading
  (\<^verbatim>\<open>dl.c\<close>), the wrappers for libxml2 and wxWidgets and the type-checked casts (which leave nothing at run time), the
  replacements of POSIX calls for Windows, the bits of floating-point numbers (\<^verbatim>\<open>endian_float.h\<close>), and the test programs. Within
  the parts modelled: the texts of warnings on the standard error stream, and branches for Windows, the BSDs and OpenBSD.
\<close>

end
